(* ===== verification/Prelude.thy ===== *)
theory Prelude
  imports Main "HOL-Library.AList" "HOL-Library.Multiset"
begin

text \<open>
  Shared vocabulary of the development: Rust's machine integers, results, and the list and
  association-list operations the components use.

  An unsigned integer of width \<open>w\<close> is a \<open>nat\<close> below \<open>2 ^ w\<close>. The release profile of the
  workspace leaves overflow checks off, so the plain operators of the source wrap around; \<open>wadd\<close>,
  \<open>wsub\<close> and \<open>wmul\<close> write that out, \<open>sadd\<close> and \<open>smul\<close> are \<open>saturating_add\<close> and
  \<open>saturating_mul\<close>, and truncating subtraction on \<open>nat\<close> is \<open>saturating_sub\<close>. The collection
  \<open>nowrap\<close> holds the rules that remove a wrap-around under a bound.

  A Rust \<open>HashMap\<close> is an association list with distinct keys; the order of the list stands for the
  unspecified iteration order.
\<close>

named_theorems nowrap \<open>rules that discharge a wrap-around from a bound\<close>

type_synonym u8 = nat
type_synonym u16 = nat
type_synonym u32 = nat
type_synonym u64 = nat
type_synonym usize = nat
type_synonym i32 = int
type_synonym i64 = int

abbreviation u32_max :: nat where
  "u32_max \<equiv> 2 ^ 32 - 1"

abbreviation u64_max :: nat where
  "u64_max \<equiv> 2 ^ 64 - 1"

definition wadd :: "nat \<Rightarrow> nat \<Rightarrow> nat \<Rightarrow> nat" where
  "wadd w a b = (a + b) mod 2 ^ w"

definition wsub :: "nat \<Rightarrow> nat \<Rightarrow> nat \<Rightarrow> nat" where
  "wsub w a b = (a + 2 ^ w - b) mod 2 ^ w"

definition wmul :: "nat \<Rightarrow> nat \<Rightarrow> nat \<Rightarrow> nat" where
  "wmul w a b = (a * b) mod 2 ^ w"

definition sadd :: "nat \<Rightarrow> nat \<Rightarrow> nat \<Rightarrow> nat" where
  "sadd w a b = min (a + b) (2 ^ w - 1)"

definition smul :: "nat \<Rightarrow> nat \<Rightarrow> nat \<Rightarrow> nat" where
  "smul w a b = min (a * b) (2 ^ w - 1)"

definition checked_add :: "nat \<Rightarrow> nat \<Rightarrow> nat \<Rightarrow> nat option" where
  "checked_add w a b = (if a + b < 2 ^ w then Some (a + b) else None)"

text \<open>The cast \<open>as i32\<close>.\<close>

definition as_i32 :: "nat \<Rightarrow> i32" where
  "as_i32 n = (let k = n mod 2 ^ 32 in if k < 2 ^ 31 then int k else int k - 2 ^ 32)"

definition div_ceil :: "nat \<Rightarrow> nat \<Rightarrow> nat" where
  "div_ceil a b = (if 0 < a mod b then a div b + 1 else a div b)"

definition is_multiple_of :: "nat \<Rightarrow> nat \<Rightarrow> bool" where
  "is_multiple_of a b = (if b = 0 then a = 0 else a mod b = 0)"

text \<open>\<open>iter().position(p)\<close>, \<open>Vec::remove(i)\<close>, \<open>Vec::pop()\<close> and the in-place update of the first match that
  \<open>iter_mut().find(p)\<close> gives access to.\<close>

fun position :: "('a \<Rightarrow> bool) \<Rightarrow> 'a list \<Rightarrow> nat option" where
  "position p [] = None"
| "position p (x # xs) = (if p x then Some 0 else map_option Suc (position p xs))"

definition remove_at :: "nat \<Rightarrow> 'a list \<Rightarrow> 'a list" where
  "remove_at i xs = take i xs @ drop (Suc i) xs"

definition vec_pop :: "'a list \<Rightarrow> ('a \<times> 'a list) option" where
  "vec_pop xs = (if xs = [] then None else Some (last xs, butlast xs))"

fun update_first :: "('a \<Rightarrow> bool) \<Rightarrow> ('a \<Rightarrow> 'a) \<Rightarrow> 'a list \<Rightarrow> 'a list" where
  "update_first p f [] = []"
| "update_first p f (x # xs) = (if p x then f x # xs else x # update_first p f xs)"

text \<open>The \<open>?\<close> operator on \<open>Result\<close>.\<close>

definition rbind :: "'e + 'a \<Rightarrow> ('a \<Rightarrow> 'e + 'b) \<Rightarrow> 'e + 'b" where
  "rbind r f = (case r of Inl e \<Rightarrow> Inl e | Inr x \<Rightarrow> f x)"

section \<open>Arithmetic\<close>

lemma wadd_nowrap [nowrap]: "a + b < 2 ^ w \<Longrightarrow> wadd w a b = a + b"
  by (simp add: wadd_def)

lemma wmul_nowrap [nowrap]: "a * b < 2 ^ w \<Longrightarrow> wmul w a b = a * b"
  by (simp add: wmul_def)

lemma wsub_nowrap [nowrap]:
  assumes "b \<le> a" and "a < 2 ^ w"
  shows "wsub w a b = a - b"
proof -
  have "a + 2 ^ w - b = (a - b) + 2 ^ w" using assms(1) by linarith
  moreover have "a - b < 2 ^ w" using assms by linarith
  ultimately show ?thesis by (simp only: wsub_def mod_add_self2 mod_less)
qed

lemma sadd_nowrap [nowrap]: "a + b < 2 ^ w \<Longrightarrow> sadd w a b = a + b"
  by (simp add: sadd_def)

lemma wadd_less: "wadd w a b < 2 ^ w"
  by (simp add: wadd_def)

lemma wadd_le: "wadd w a b \<le> a + b"
  by (simp add: wadd_def)

lemma sadd_le: "sadd w a b \<le> a + b"
  by (simp add: sadd_def)

lemma div_ceil_bounds:
  assumes "0 < b"
  shows "a \<le> div_ceil a b * b" and "div_ceil a b * b < a + b"
proof -
  define q where "q = a div b * b"
  define r where "r = a mod b"
  have split: "a = q + r" unfolding q_def r_def by (rule div_mult_mod_eq [symmetric])
  have less: "r < b" using assms by (simp add: r_def)
  have up: "div_ceil a b * b = (if 0 < r then q + b else q)"
    by (simp add: div_ceil_def q_def r_def)
  show "a \<le> div_ceil a b * b" unfolding up using split less by simp
  show "div_ceil a b * b < a + b" unfolding up using split assms by simp
qed

lemma div_ceil_le_iff: "0 < b \<Longrightarrow> div_ceil a b \<le> n \<longleftrightarrow> a \<le> n * b"
proof
  assume b: "0 < b" and le: "div_ceil a b \<le> n"
  have "a \<le> div_ceil a b * b" by (rule div_ceil_bounds [OF b])
  also have "\<dots> \<le> n * b" using le by simp
  finally show "a \<le> n * b" .
next
  assume b: "0 < b" and le: "a \<le> n * b"
  have "div_ceil a b * b < a + b" by (rule div_ceil_bounds [OF b])
  also have "\<dots> \<le> n * b + b" using le by simp
  finally have "div_ceil a b * b < Suc n * b" by simp
  then show "div_ceil a b \<le> n" using b by (simp only: mult_less_cancel2) simp
qed

lemma div_ceil_zero [simp]: "div_ceil 0 b = 0"
  by (simp add: div_ceil_def)

lemma div_ceil_le_self: "0 < b \<Longrightarrow> div_ceil a b \<le> a"
  by (simp add: div_ceil_le_iff)

section \<open>Lists\<close>

lemma position_Some:
  "position p xs = Some i \<Longrightarrow> i < length xs \<and> p (xs ! i) \<and> (\<forall>j < i. \<not> p (xs ! j))"
proof (induction xs arbitrary: i)
  case Nil
  then show ?case by simp
next
  case (Cons x xs)
  show ?case
  proof (cases "p x")
    case True
    with Cons.prems show ?thesis by simp
  next
    case False
    with Cons.prems obtain j where "position p xs = Some j" and i: "i = Suc j" by auto
    with Cons.IH have "j < length xs \<and> p (xs ! j) \<and> (\<forall>k < j. \<not> p (xs ! k))" by blast
    with False i show ?thesis by (auto simp: nth_Cons split: nat.splits)
  qed
qed

lemma position_None: "position p xs = None \<longleftrightarrow> (\<forall>x \<in> set xs. \<not> p x)"
  by (induction xs) auto

lemma remove_at_set: "set (remove_at i xs) \<subseteq> set xs"
  by (auto simp: remove_at_def dest: in_set_takeD in_set_dropD)

lemma mset_remove_at: "i < length xs \<Longrightarrow> mset xs = add_mset (xs ! i) (mset (remove_at i xs))"
  by (subst id_take_nth_drop [of i xs]) (simp_all add: remove_at_def)

lemma length_remove_at [simp]: "i < length xs \<Longrightarrow> length (remove_at i xs) = length xs - 1"
  by (simp add: remove_at_def)

lemma sum_list_remove_at:
  "i < length xs \<Longrightarrow> (f (xs ! i) :: nat) + sum_list (map f (remove_at i xs)) = sum_list (map f xs)"
  by (subst (3) id_take_nth_drop [of i xs]) (simp_all add: remove_at_def)

lemma length_update_first [simp]: "length (update_first p f xs) = length xs"
  by (induction xs) auto

lemma set_update_first: "y \<in> set (update_first p f xs) \<Longrightarrow> y \<in> set xs \<or> (\<exists>x \<in> set xs. p x \<and> y = f x)"
  by (induction xs) (auto split: if_splits)

lemma map_update_first: "(\<And>x. g (f x) = g x) \<Longrightarrow> map g (update_first p f xs) = map g xs"
  by (induction xs) auto

lemma sum_list_le_member: "x \<in> set xs \<Longrightarrow> (f x :: nat) \<le> sum_list (map f xs)"
  by (induction xs) auto

section \<open>Results\<close>

lemma rbind_Inr [simp]: "rbind (Inr x) f = f x"
  by (simp add: rbind_def)

lemma rbind_Inl [simp]: "rbind (Inl e) f = Inl e"
  by (simp add: rbind_def)

lemma rbind_eq_Inr: "rbind r f = Inr y \<longleftrightarrow> (\<exists>x. r = Inr x \<and> f x = Inr y)"
  by (cases r) auto

end
