(* ===== verification/Float64.thy ===== *)
theory Float64
  imports Prelude Complex_Main
begin

text \<open>
  The part of IEEE 754 binary64 the source uses: finite values are rationals, every operation
  rounds its exact result to nearest, ties to even, and overflows to an infinity. The sign of zero
  is not represented; no comparison of the source observes it.
\<close>

datatype f64 = Finite rat | PosInf | NegInf | NaN

definition rne :: "rat \<Rightarrow> int" where
  "rne x = (let f = \<lfloor>x\<rfloor>; r = x - of_int f in
     if r < 1 / 2 then f else if 1 / 2 < r then f + 1 else if even f then f else f + 1)"

fun bit_length :: "nat \<Rightarrow> nat" where
  "bit_length n = (if n = 0 then 0 else Suc (bit_length (n div 2)))"

declare bit_length.simps [simp del]

definition pow2 :: "int \<Rightarrow> rat" where
  "pow2 k = (if 0 \<le> k then 2 ^ nat k else 1 / 2 ^ nat (- k))"

definition floor_log2 :: "rat \<Rightarrow> int" where
  "floor_log2 x = (let (p, q) = quotient_of x; k = int (bit_length (nat p)) - int (bit_length (nat q))
     in if x < pow2 k then k - 1 else k)"

definition f64_round :: "rat \<Rightarrow> rat" where
  "f64_round x = (if x = 0 then 0 else
     (let e = max (floor_log2 \<bar>x\<bar> - 52) (-1074) in of_int (rne (x / pow2 e)) * pow2 e))"

definition f64_of_rat :: "rat \<Rightarrow> f64" where
  "f64_of_rat x = (let r = f64_round x in
     if r \<noteq> 0 \<and> 1024 \<le> floor_log2 \<bar>r\<bar> then (if 0 < r then PosInf else NegInf) else Finite r)"

definition f64_of_u32 :: "nat \<Rightarrow> f64" where
  "f64_of_u32 n = Finite (of_nat n)"

fun f64_neg :: "f64 \<Rightarrow> f64" where
  "f64_neg (Finite x) = Finite (- x)"
| "f64_neg PosInf = NegInf"
| "f64_neg NegInf = PosInf"
| "f64_neg NaN = NaN"

fun f64_add :: "f64 \<Rightarrow> f64 \<Rightarrow> f64" where
  "f64_add (Finite x) (Finite y) = f64_of_rat (x + y)"
| "f64_add NaN _ = NaN"
| "f64_add _ NaN = NaN"
| "f64_add PosInf NegInf = NaN"
| "f64_add NegInf PosInf = NaN"
| "f64_add PosInf _ = PosInf"
| "f64_add NegInf _ = NegInf"
| "f64_add _ PosInf = PosInf"
| "f64_add _ NegInf = NegInf"

definition f64_sub :: "f64 \<Rightarrow> f64 \<Rightarrow> f64" where
  "f64_sub a b = f64_add a (f64_neg b)"

fun f64_inf_times :: "bool \<Rightarrow> rat \<Rightarrow> f64" where
  "f64_inf_times pos x = (if x = 0 then NaN else if (0 < x) = pos then PosInf else NegInf)"

fun f64_mul :: "f64 \<Rightarrow> f64 \<Rightarrow> f64" where
  "f64_mul (Finite x) (Finite y) = f64_of_rat (x * y)"
| "f64_mul NaN _ = NaN"
| "f64_mul _ NaN = NaN"
| "f64_mul PosInf (Finite y) = f64_inf_times True y"
| "f64_mul NegInf (Finite y) = f64_inf_times False y"
| "f64_mul (Finite x) PosInf = f64_inf_times True x"
| "f64_mul (Finite x) NegInf = f64_inf_times False x"
| "f64_mul PosInf PosInf = PosInf"
| "f64_mul NegInf NegInf = PosInf"
| "f64_mul PosInf NegInf = NegInf"
| "f64_mul NegInf PosInf = NegInf"

text \<open>Division is used on finite operands with a non-zero divisor only; the other cases follow
  the standard up to the sign of a zero divisor.\<close>

fun f64_div :: "f64 \<Rightarrow> f64 \<Rightarrow> f64" where
  "f64_div (Finite x) (Finite y) =
     (if y \<noteq> 0 then f64_of_rat (x / y) else f64_inf_times True x)"
| "f64_div NaN _ = NaN"
| "f64_div _ NaN = NaN"
| "f64_div (Finite x) _ = Finite 0"
| "f64_div PosInf (Finite y) = (if 0 \<le> y then PosInf else NegInf)"
| "f64_div NegInf (Finite y) = (if 0 \<le> y then NegInf else PosInf)"
| "f64_div _ _ = NaN"

fun f64_less :: "f64 \<Rightarrow> f64 \<Rightarrow> bool" where
  "f64_less (Finite x) (Finite y) = (x < y)"
| "f64_less NaN _ = False"
| "f64_less _ NaN = False"
| "f64_less NegInf b = (b \<noteq> NegInf)"
| "f64_less PosInf _ = False"
| "f64_less (Finite _) PosInf = True"
| "f64_less (Finite _) NegInf = False"

text \<open>\<open>x.floor() as u32\<close>: a saturating cast, zero on NaN.\<close>

fun f64_floor_u32 :: "f64 \<Rightarrow> nat" where
  "f64_floor_u32 (Finite x) = min (nat \<lfloor>x\<rfloor>) u32_max"
| "f64_floor_u32 PosInf = u32_max"
| "f64_floor_u32 NegInf = 0"
| "f64_floor_u32 NaN = 0"

fun f64_abs :: "f64 \<Rightarrow> f64" where
  "f64_abs (Finite x) = Finite \<bar>x\<bar>"
| "f64_abs PosInf = PosInf"
| "f64_abs NegInf = PosInf"
| "f64_abs NaN = NaN"

definition f64_of_u64 :: "nat \<Rightarrow> f64" where
  "f64_of_u64 n = f64_of_rat (of_nat n)"

section \<open>Rounding\<close>

lemma pow2_powi: "pow2 k = 2 powi k"
proof (cases "0 \<le> k")
  case True
  then show ?thesis by (simp add: pow2_def power_int_def)
next
  case False
  then show ?thesis by (simp only: pow2_def power_int_def if_False inverse_eq_divide power_divide power_one)
qed

lemma pow2_pos [simp]: "0 < pow2 k"
  by (simp add: pow2_powi)

lemma pow2_add: "pow2 (a + b) = pow2 a * pow2 b"
  by (simp add: pow2_powi power_int_add)

lemma pow2_mono: "a \<le> b \<Longrightarrow> pow2 a \<le> pow2 b"
  by (simp add: pow2_powi power_int_increasing)

lemma rne_le: "x \<le> of_int n \<Longrightarrow> rne x \<le> n"
proof (cases "x = of_int n")
  case True
  then show ?thesis by (simp add: rne_def)
next
  case False
  assume "x \<le> of_int n"
  with False have "\<lfloor>x\<rfloor> < n" by (simp add: floor_less_iff)
  then show ?thesis by (auto simp: rne_def Let_def)
qed

lemma rne_ge: "of_int n \<le> x \<Longrightarrow> n \<le> rne x"
  by (auto simp: rne_def Let_def le_floor_iff intro: order_trans [of n "\<lfloor>x\<rfloor>"])

lemma bit_length_bounds: "0 < n \<Longrightarrow> 2 ^ (bit_length n - 1) \<le> n \<and> n < 2 ^ bit_length n \<and> 0 < bit_length n"
proof (induction n rule: bit_length.induct)
  case (1 n)
  have step: "bit_length n = Suc (bit_length (n div 2))" using "1.prems" by (simp add: bit_length.simps)
  show ?case
  proof (cases "n div 2 = 0")
    case True
    with "1.prems" have "n = 1" by linarith
    then show ?thesis using step by (simp add: bit_length.simps [of 0])
  next
    case False
    with "1.prems" "1.IH" have ih: "2 ^ (bit_length (n div 2) - 1) \<le> n div 2"
      "n div 2 < 2 ^ bit_length (n div 2)" "0 < bit_length (n div 2)" by auto
    from ih(3) obtain m where m: "bit_length (n div 2) = Suc m" by (cases "bit_length (n div 2)") auto
    define t where "t = (2 :: nat) ^ m"
    have t: "t \<le> n div 2" "n div 2 < 2 * t" using ih(1,2) m by (simp_all add: t_def)
    have "2 * t \<le> n" "n < 2 * (2 * t)" using t by linarith+
    then show ?thesis using m step by (simp add: t_def)
  qed
qed

lemma floor_log2_bounds:
  assumes "0 < x"
  shows "pow2 (floor_log2 x) \<le> x \<and> x < pow2 (floor_log2 x + 1)"
proof -
  obtain p q where pq: "quotient_of x = (p, q)" by fastforce
  have q: "0 < q" using pq by (rule quotient_of_denom_pos)
  have x: "x = of_int p / of_int q" using pq by (rule quotient_of_div)
  with assms q have p: "0 < p" by (simp add: zero_less_divide_iff)
  define a where "a = bit_length (nat p)"
  define b where "b = bit_length (nat q)"
  have A: "2 ^ (a - 1) \<le> nat p" "nat p < 2 ^ a" "0 < a"
    using bit_length_bounds [of "nat p"] p by (simp_all add: a_def)
  have B: "2 ^ (b - 1) \<le> nat q" "nat q < 2 ^ b" "0 < b"
    using bit_length_bounds [of "nat q"] q by (simp_all add: b_def)
  have lift: "(of_nat m :: rat) \<le> of_nat n" if "m \<le> n" for m n using that by simp
  have liftl: "(of_nat m :: rat) < of_nat n" if "m < n" for m n using that by simp
  have P: "pow2 (int a - 1) \<le> of_int p" "(of_int p :: rat) < pow2 (int a)"
    using lift [OF A(1)] liftl [OF A(2)] A(3) p
    by (simp_all add: pow2_def nat_diff_distrib of_nat_nat)
  have Q: "pow2 (int b - 1) \<le> of_int q" "(of_int q :: rat) < pow2 (int b)"
    using lift [OF B(1)] liftl [OF B(2)] B(3) q
    by (simp_all add: pow2_def nat_diff_distrib of_nat_nat)
  have q': "(0 :: rat) < of_int q" using q by simp
  have lower: "pow2 (int a - int b - 1) \<le> x"
  proof -
    have "pow2 (int a - int b - 1) * of_int q \<le> pow2 (int a - int b - 1) * pow2 (int b)"
      using Q(2) by (simp add: less_imp_le)
    also have "\<dots> = pow2 (int a - 1)" by (simp add: pow2_add [symmetric])
    also have "\<dots> \<le> of_int p" by (rule P(1))
    finally show ?thesis using q' by (simp add: x le_divide_eq)
  qed
  have upper: "x < pow2 (int a - int b + 1)"
  proof -
    have "of_int p < pow2 (int a)" by (rule P(2))
    also have "\<dots> = pow2 (int a - int b + 1) * pow2 (int b - 1)" by (simp add: pow2_add [symmetric])
    also have "\<dots> \<le> pow2 (int a - int b + 1) * of_int q" using Q(1) by simp
    finally show ?thesis using q' by (simp add: x divide_less_eq)
  qed
  have fl: "floor_log2 x = (if x < pow2 (int a - int b) then int a - int b - 1 else int a - int b)"
    by (simp add: floor_log2_def pq a_def b_def)
  show ?thesis using lower upper fl by simp
qed

lemma floor_log2_less: "0 < x \<Longrightarrow> x < pow2 k \<Longrightarrow> floor_log2 x < k"
  using floor_log2_bounds [of x] pow2_mono [of k "floor_log2 x"] by fastforce

lemma f64_round_le_int:
  assumes "0 \<le> x" and "x \<le> of_nat n" and "n < 2 ^ 53"
  shows "f64_round x \<le> of_nat n" and "0 \<le> f64_round x"
proof -
  define e where "e = max (floor_log2 \<bar>x\<bar> - 52) (-1074)"
  have pos: "0 < pow2 e" by simp
  show "0 \<le> f64_round x"
  proof -
    have "0 \<le> x / pow2 e" using assms(1) pos by (intro divide_nonneg_pos)
    then have "0 \<le> rne (x / pow2 e)" by (intro rne_ge) simp
    then have "0 \<le> of_int (rne (x / pow2 e)) * pow2 e"
      using pos by (intro mult_nonneg_nonneg) (simp_all add: less_imp_le)
    then show ?thesis by (simp add: f64_round_def Let_def e_def)
  qed
  show "f64_round x \<le> of_nat n"
  proof (cases "x = 0")
    case True
    then show ?thesis by (simp add: f64_round_def)
  next
    case False
    have "(of_nat n :: rat) < of_nat (2 ^ 53)" using assms(3) by (simp only: of_nat_less_iff)
    then have "x < pow2 53" using assms(2) by (simp add: pow2_def)
    with False assms(1) have "floor_log2 \<bar>x\<bar> < 53" by (intro floor_log2_less) simp_all
    then have e0: "e \<le> 0" by (simp add: e_def)
    then have N: "(of_nat n :: rat) / pow2 e = of_int (int n * 2 ^ nat (- e))"
      by (cases "e = 0") (simp_all add: pow2_def)
    have "x / pow2 e \<le> of_nat n / pow2 e" 
      using assms(2) pos by (intro divide_right_mono) (simp_all add: less_imp_le)
    then have "rne (x / pow2 e) \<le> int n * 2 ^ nat (- e)" unfolding N by (rule rne_le)
    then have "(of_int (rne (x / pow2 e)) :: rat) \<le> of_nat n / pow2 e" unfolding N by (simp only: of_int_le_iff)
    then have "of_int (rne (x / pow2 e)) * pow2 e \<le> of_nat n" using pos by (simp add: le_divide_eq)
    with False show ?thesis by (simp add: f64_round_def Let_def e_def)
  qed
qed

end
