(* ===== verification/ModelConfig.thy ===== *)
theory ModelConfig
  imports Prelude Float64 "HOL-Library.Monad_Syntax"
begin

text \<open>
  The structural model description of \<open>crates/xabe-model/src/config.rs\<close>, the consistency check of
  \<open>verify.rs\<close> and the VRAM segmentation of \<open>budget.rs\<close>.

  Every derived quantity is computed as the source computes it, at 64 bits with wrap-around. A
  division or remainder by zero panics in Rust; a definition that divides returns an \<open>option\<close> whose
  \<open>None\<close> is that panic.
\<close>

datatype layer_kind = GatedDeltaNet | GatedAttention

fun is_positional :: "layer_kind \<Rightarrow> bool" where
  "is_positional GatedAttention = True"
| "is_positional GatedDeltaNet = False"

record gdn_config =
  gdn_value_heads :: nat
  gdn_qk_heads :: nat
  gdn_head_dim :: nat
  gdn_conv_kernel :: nat
  gdn_chunk_len :: nat

definition state_bytes_per_layer :: "gdn_config \<Rightarrow> nat" where
  "state_bytes_per_layer g =
     wmul 64 (wmul 64 (wmul 64 (gdn_value_heads g) (gdn_head_dim g)) (gdn_head_dim g)) 4"

record attention_config =
  att_q_heads :: nat
  att_kv_heads :: nat
  att_head_dim :: nat
  att_rope_dim :: nat

definition checked_div :: "nat \<Rightarrow> nat \<Rightarrow> nat option" where
  "checked_div a b = (if b = 0 then None else Some (a div b))"

definition gqa_ratio :: "attention_config \<Rightarrow> nat option" where
  "gqa_ratio a = checked_div (att_q_heads a) (att_kv_heads a)"

definition kv_bytes_per_token_per_layer :: "attention_config \<Rightarrow> nat \<Rightarrow> nat" where
  "kv_bytes_per_token_per_layer a elem_size =
     wmul 64 (wmul 64 (wmul 64 2 (att_kv_heads a)) (att_head_dim a)) elem_size"

record moe_config =
  moe_num_experts :: nat
  moe_experts_per_token :: nat
  moe_shared_experts :: nat
  moe_expert_intermediate :: nat

definition active_experts :: "moe_config \<Rightarrow> nat" where
  "active_experts m = wadd 32 (moe_experts_per_token m) (moe_shared_experts m)"

definition mats_per_expert :: nat where
  "mats_per_expert = 3"

definition naive_gemvs_per_token :: "moe_config \<Rightarrow> nat \<Rightarrow> nat" where
  "naive_gemvs_per_token m layers = wmul 32 (wmul 32 (active_experts m) mats_per_expert) layers"

record dense_ffn_config =
  dense_intermediate :: nat

datatype ffn_config = Moe moe_config | Dense dense_ffn_config

fun ffn_moe :: "ffn_config \<Rightarrow> moe_config option" where
  "ffn_moe (Moe m) = Some m"
| "ffn_moe (Dense _) = None"

fun ffn_dense :: "ffn_config \<Rightarrow> dense_ffn_config option" where
  "ffn_dense (Dense d) = Some d"
| "ffn_dense (Moe _) = None"

fun ffn_intermediate :: "ffn_config \<Rightarrow> nat" where
  "ffn_intermediate (Moe m) = moe_expert_intermediate m"
| "ffn_intermediate (Dense d) = dense_intermediate d"

fun units_per_layer :: "ffn_config \<Rightarrow> nat" where
  "units_per_layer (Moe m) = wadd 32 (moe_num_experts m) (moe_shared_experts m)"
| "units_per_layer (Dense _) = 1"

fun active_units :: "ffn_config \<Rightarrow> nat" where
  "active_units (Moe m) = active_experts m"
| "active_units (Dense _) = 1"

record model_config =
  mc_name :: string
  mc_architecture :: string
  mc_advertised_params :: nat
  mc_num_layers :: nat
  mc_hidden_size :: nat
  mc_vocab_size :: nat
  mc_pattern_period :: nat
  mc_attention_offset :: nat
  mc_gdn :: gdn_config
  mc_attention :: attention_config
  mc_ffn :: ffn_config
  mc_native_context :: nat
  mc_yarn_context :: nat
  mc_has_mtp :: bool

definition qwen3_6_35b_a3b :: model_config where
  "qwen3_6_35b_a3b = \<lparr>mc_name = ''Qwen3.6-35B-A3B'', mc_architecture = ''qwen35moe'',
     mc_advertised_params = 35000000000, mc_num_layers = 40, mc_hidden_size = 2048,
     mc_vocab_size = 248320, mc_pattern_period = 4, mc_attention_offset = 3,
     mc_gdn = \<lparr>gdn_value_heads = 32, gdn_qk_heads = 16, gdn_head_dim = 128, gdn_conv_kernel = 4,
       gdn_chunk_len = 64\<rparr>,
     mc_attention = \<lparr>att_q_heads = 16, att_kv_heads = 2, att_head_dim = 256, att_rope_dim = 64\<rparr>,
     mc_ffn = Moe \<lparr>moe_num_experts = 256, moe_experts_per_token = 8, moe_shared_experts = 1,
       moe_expert_intermediate = 512\<rparr>,
     mc_native_context = 262144, mc_yarn_context = 1010000, mc_has_mtp = True\<rparr>"

definition qwen3_8_27b :: model_config where
  "qwen3_8_27b = \<lparr>mc_name = ''Qwen3.8-27B'', mc_architecture = ''qwen35'',
     mc_advertised_params = 27000000000, mc_num_layers = 64, mc_hidden_size = 5120,
     mc_vocab_size = 248320, mc_pattern_period = 4, mc_attention_offset = 3,
     mc_gdn = \<lparr>gdn_value_heads = 48, gdn_qk_heads = 16, gdn_head_dim = 128, gdn_conv_kernel = 4,
       gdn_chunk_len = 64\<rparr>,
     mc_attention = \<lparr>att_q_heads = 24, att_kv_heads = 4, att_head_dim = 256, att_rope_dim = 64\<rparr>,
     mc_ffn = Dense \<lparr>dense_intermediate = 17408\<rparr>,
     mc_native_context = 262144, mc_yarn_context = 1010000, mc_has_mtp = True\<rparr>"

definition known_models :: "model_config list" where
  "known_models = [qwen3_6_35b_a3b, qwen3_8_27b]"

definition for_architecture :: "string \<Rightarrow> model_config option" where
  "for_architecture architecture = find (\<lambda>c. mc_architecture c = architecture) known_models"

definition hparam_key :: "model_config \<Rightarrow> string \<Rightarrow> string" where
  "hparam_key c suffix = mc_architecture c @ ''.'' @ suffix"

definition mtp_layers :: "model_config \<Rightarrow> nat" where
  "mtp_layers c = (if mc_has_mtp c then 1 else 0)"

definition num_blocks :: "model_config \<Rightarrow> nat" where
  "num_blocks c = wadd 32 (mc_num_layers c) (mtp_layers c)"

definition layer_kind_of :: "model_config \<Rightarrow> nat \<Rightarrow> layer_kind option" where
  "layer_kind_of c index =
     (if mc_pattern_period c = 0 then None
      else Some (if index mod mc_pattern_period c = mc_attention_offset c
                 then GatedAttention else GatedDeltaNet))"

definition num_attention_layers :: "model_config \<Rightarrow> nat option" where
  "num_attention_layers c = checked_div (mc_num_layers c) (mc_pattern_period c)"

definition num_gdn_layers :: "model_config \<Rightarrow> nat option" where
  "num_gdn_layers c = do { n \<leftarrow> num_attention_layers c; Some (wsub 32 (mc_num_layers c) n) }"

definition kv_bytes_per_token :: "model_config \<Rightarrow> nat \<Rightarrow> nat option" where
  "kv_bytes_per_token c elem_size = do {
     n \<leftarrow> num_attention_layers c;
     Some (wmul 64 (kv_bytes_per_token_per_layer (mc_attention c) elem_size) n) }"

definition gdn_state_bytes_per_sequence :: "model_config \<Rightarrow> nat option" where
  "gdn_state_bytes_per_sequence c = do {
     n \<leftarrow> num_gdn_layers c;
     Some (wmul 64 (state_bytes_per_layer (mc_gdn c)) n) }"

definition params_per_ffn_unit :: "model_config \<Rightarrow> nat" where
  "params_per_ffn_unit c =
     wmul 64 (wmul 64 mats_per_expert (mc_hidden_size c)) (ffn_intermediate (mc_ffn c))"

definition total_ffn_params :: "model_config \<Rightarrow> nat" where
  "total_ffn_params c =
     wmul 64 (wmul 64 (units_per_layer (mc_ffn c)) (params_per_ffn_unit c)) (mc_num_layers c)"

definition active_ffn_params :: "model_config \<Rightarrow> nat" where
  "active_ffn_params c =
     wmul 64 (wmul 64 (active_units (mc_ffn c)) (params_per_ffn_unit c)) (mc_num_layers c)"

definition embedding_params :: "model_config \<Rightarrow> nat" where
  "embedding_params c = wmul 64 (wmul 64 2 (mc_vocab_size c)) (mc_hidden_size c)"

definition lm_head_params :: "model_config \<Rightarrow> nat" where
  "lm_head_params c = wmul 64 (mc_vocab_size c) (mc_hidden_size c)"

definition gdn_layer_params :: "model_config \<Rightarrow> nat" where
  "gdn_layer_params c =
     (let h = mc_hidden_size c; g = mc_gdn c;
          v_dim = wmul 64 (gdn_value_heads g) (gdn_head_dim g);
          qk_dim = wmul 64 (gdn_qk_heads g) (gdn_head_dim g);
          proj = wadd 64 (wmul 64 h (wadd 64 (wmul 64 2 qk_dim) (wmul 64 2 v_dim))) (wmul 64 v_dim h);
          gates = wmul 64 (wmul 64 h (gdn_value_heads g)) 2;
          conv = wmul 64 (wadd 64 (wmul 64 2 qk_dim) v_dim) (gdn_conv_kernel g)
      in wadd 64 (wadd 64 proj gates) conv)"

definition attention_layer_params :: "model_config \<Rightarrow> nat" where
  "attention_layer_params c =
     (let h = mc_hidden_size c; a = mc_attention c;
          q_dim = wmul 64 (att_q_heads a) (att_head_dim a);
          kv_dim = wmul 64 (att_kv_heads a) (att_head_dim a)
      in wadd 64 (wadd 64 (wmul 64 h (wadd 64 q_dim (wmul 64 2 kv_dim))) (wmul 64 q_dim h))
           (wmul 64 h q_dim))"

text \<open>The loop body and the loop of \<open>projection_params\<close>.\<close>

definition projection_step :: "model_config \<Rightarrow> nat \<Rightarrow> nat \<Rightarrow> nat option" where
  "projection_step c layer acc = do {
     k \<leftarrow> layer_kind_of c layer;
     let acc = wadd 64 acc (case k of GatedDeltaNet \<Rightarrow> gdn_layer_params c
                            | GatedAttention \<Rightarrow> attention_layer_params c);
     Some (case ffn_moe (mc_ffn c) of
             Some m \<Rightarrow> wadd 64 acc (wmul 64 (mc_hidden_size c) (moe_num_experts m))
           | None \<Rightarrow> acc) }"

definition projection_params :: "model_config \<Rightarrow> nat option" where
  "projection_params c =
     fold (\<lambda>layer acc. acc \<bind> projection_step c layer) [0..<mc_num_layers c] (Some 0)"

definition total_params :: "model_config \<Rightarrow> nat option" where
  "total_params c = do {
     p \<leftarrow> projection_params c;
     Some (wadd 64 (wadd 64 (total_ffn_params c) (embedding_params c)) p) }"

definition active_params_per_token :: "model_config \<Rightarrow> nat option" where
  "active_params_per_token c = do {
     p \<leftarrow> projection_params c;
     Some (wadd 64 (wadd 64 (active_ffn_params c) (lm_head_params c)) p) }"

section \<open>Consistency check\<close>

datatype config_error =
    ZeroField string
  | LayerCountNotWholePeriods nat nat
  | AttentionOffsetOutOfRange nat nat
  | GqaNotDivisible nat nat
  | RopeDimExceedsHeadDim nat nat
  | MoreExpertsActiveThanExist nat nat
  | ParamCountImplausible nat nat

definition nonzero_fields :: "model_config \<Rightarrow> (string \<times> nat) list" where
  "nonzero_fields c = [
     (''num_layers'', mc_num_layers c), (''hidden_size'', mc_hidden_size c),
     (''vocab_size'', mc_vocab_size c), (''pattern_period'', mc_pattern_period c),
     (''gdn.value_heads'', gdn_value_heads (mc_gdn c)), (''gdn.qk_heads'', gdn_qk_heads (mc_gdn c)),
     (''gdn.head_dim'', gdn_head_dim (mc_gdn c)), (''gdn.chunk_len'', gdn_chunk_len (mc_gdn c)),
     (''attention.q_heads'', att_q_heads (mc_attention c)),
     (''attention.kv_heads'', att_kv_heads (mc_attention c)),
     (''attention.head_dim'', att_head_dim (mc_attention c)),
     (''ffn.intermediate'', ffn_intermediate (mc_ffn c))]"

definition moe_nonzero_fields :: "model_config \<Rightarrow> (string \<times> nat) list" where
  "moe_nonzero_fields c = (case ffn_moe (mc_ffn c) of
     Some m \<Rightarrow> [(''moe.num_experts'', moe_num_experts m),
                 (''moe.experts_per_token'', moe_experts_per_token m)]
   | None \<Rightarrow> [])"

text \<open>The plausibility band of the last check, \<open>PARAM_BAND = 0.05\<close>; \<open>derived\<close> is the value of
  \<open>total_params\<close>, which cannot panic once the earlier checks have passed.\<close>

definition param_count_implausible :: "nat \<Rightarrow> nat \<Rightarrow> bool" where
  "param_count_implausible derived advertised =
     f64_less (f64_mul (f64_of_u64 advertised) (f64_of_rat (5 / 100)))
       (f64_abs (f64_sub (f64_of_u64 derived) (f64_of_u64 advertised)))"

definition check_config :: "model_config \<Rightarrow> (config_error + unit) option" where
  "check_config c =
     (case find (\<lambda>(_, v). v = 0) (nonzero_fields c @ moe_nonzero_fields c) of
        Some (name, _) \<Rightarrow> Some (Inl (ZeroField name))
      | None \<Rightarrow>
     if \<not> is_multiple_of (mc_num_layers c) (mc_pattern_period c) then
       Some (Inl (LayerCountNotWholePeriods (mc_num_layers c) (mc_pattern_period c)))
     else if mc_pattern_period c \<le> mc_attention_offset c then
       Some (Inl (AttentionOffsetOutOfRange (mc_attention_offset c) (mc_pattern_period c)))
     else if \<not> is_multiple_of (att_q_heads (mc_attention c)) (att_kv_heads (mc_attention c)) then
       Some (Inl (GqaNotDivisible (att_q_heads (mc_attention c)) (att_kv_heads (mc_attention c))))
     else if att_head_dim (mc_attention c) < att_rope_dim (mc_attention c) then
       Some (Inl (RopeDimExceedsHeadDim (att_rope_dim (mc_attention c)) (att_head_dim (mc_attention c))))
     else (case ffn_moe (mc_ffn c) of
        Some m \<Rightarrow> if moe_num_experts m < moe_experts_per_token m
                   then Some (Inl (MoreExpertsActiveThanExist (moe_experts_per_token m) (moe_num_experts m)))
                   else Some (Inr ())
      | None \<Rightarrow> Some (Inr ())) \<bind> (\<lambda>r. case r of
        Inl e \<Rightarrow> Some (Inl e)
      | Inr _ \<Rightarrow>
        if mc_advertised_params c = 0 then Some (Inr ())
        else do {
          derived \<leftarrow> total_params c;
          Some (if param_count_implausible derived (mc_advertised_params c)
                then Inl (ParamCountImplausible derived (mc_advertised_params c)) else Inr ()) }))"

definition layer_layout :: "model_config \<Rightarrow> layer_kind option list" where
  "layer_layout c = map (layer_kind_of c) [0..<mc_num_layers c]"

section \<open>VRAM segmentation\<close>

definition gib :: nat where
  "gib = 1024 * 1024 * 1024"

definition cuda_context_overhead_bytes :: nat where
  "cuda_context_overhead_bytes = gib div 2"

definition compute_buffer_bytes :: nat where
  "compute_buffer_bytes = (11 * gib) div 5"

record vram_budget =
  vb_weights_bytes :: nat
  vb_kv_pool_bytes :: nat
  vb_gdn_state_bytes :: nat
  vb_compute_buffer_bytes :: nat
  vb_cuda_context_overhead_bytes :: nat

definition vram_total_bytes :: "vram_budget \<Rightarrow> nat" where
  "vram_total_bytes b = wadd 64 (wadd 64 (wadd 64 (wadd 64 (vb_weights_bytes b) (vb_kv_pool_bytes b))
     (vb_gdn_state_bytes b)) (vb_compute_buffer_bytes b)) (vb_cuda_context_overhead_bytes b)"

text \<open>\<open>as i64\<close> and the wrapping subtraction at that width.\<close>

definition as_i64 :: "int \<Rightarrow> int" where
  "as_i64 x = (x + 2 ^ 63) mod 2 ^ 64 - 2 ^ 63"

definition headroom_bytes :: "vram_budget \<Rightarrow> nat \<Rightarrow> int" where
  "headroom_bytes b usable = as_i64 (as_i64 (int usable) - as_i64 (int (vram_total_bytes b)))"

definition vram_budget_of :: "model_config \<Rightarrow> nat \<Rightarrow> nat \<Rightarrow> nat \<Rightarrow> nat \<Rightarrow> vram_budget option" where
  "vram_budget_of c context_tokens slots kv_elem_bytes weights = do {
     kv \<leftarrow> kv_bytes_per_token c kv_elem_bytes;
     gdn \<leftarrow> gdn_state_bytes_per_sequence c;
     Some \<lparr>vb_weights_bytes = weights,
           vb_kv_pool_bytes = wmul 64 kv context_tokens,
           vb_gdn_state_bytes = wmul 64 gdn slots,
           vb_compute_buffer_bytes = compute_buffer_bytes,
           vb_cuda_context_overhead_bytes = cuda_context_overhead_bytes\<rparr> }"

definition kv_bound_crossover_tokens :: "model_config \<Rightarrow> nat \<Rightarrow> nat \<Rightarrow> nat option" where
  "kv_bound_crossover_tokens c kv_elem_bytes weight_bytes = do {
     kv \<leftarrow> kv_bytes_per_token c kv_elem_bytes; checked_div weight_bytes kv }"

section \<open>The layer pattern\<close>

lemma nonzero_fields_pos:
  assumes "find (\<lambda>(_, v). v = 0) (nonzero_fields c @ moe_nonzero_fields c) = None"
  shows "0 < mc_pattern_period c" and "0 < att_kv_heads (mc_attention c)"
proof -
  have "\<forall>f \<in> set (nonzero_fields c). snd f \<noteq> 0"
    using assms by (auto simp: find_None_iff) (metis gr0I)
  then show "0 < mc_pattern_period c" "0 < att_kv_heads (mc_attention c)"
    by (simp_all add: nonzero_fields_def)
qed

lemma check_config_cases:
  assumes "check_config c = Some (Inr ())"
  shows "0 < mc_pattern_period c" and "mc_num_layers c mod mc_pattern_period c = 0"
    and "mc_attention_offset c < mc_pattern_period c" and "0 < att_kv_heads (mc_attention c)"
    and "att_q_heads (mc_attention c) mod att_kv_heads (mc_attention c) = 0"
    and "att_rope_dim (mc_attention c) \<le> att_head_dim (mc_attention c)"
proof -
  from assms have fnd: "find (\<lambda>(_, v). v = 0) (nonzero_fields c @ moe_nonzero_fields c) = None"
    by (auto simp: check_config_def split: option.splits)
  note period = nonzero_fields_pos(1) [OF fnd] and kv = nonzero_fields_pos(2) [OF fnd]
  show "0 < mc_pattern_period c" "0 < att_kv_heads (mc_attention c)" by (fact period kv)+
  show "mc_num_layers c mod mc_pattern_period c = 0"
    "mc_attention_offset c < mc_pattern_period c"
    "att_q_heads (mc_attention c) mod att_kv_heads (mc_attention c) = 0"
    "att_rope_dim (mc_attention c) \<le> att_head_dim (mc_attention c)"
    using assms fnd period kv
    by (auto simp: check_config_def is_multiple_of_def split: if_splits)
qed

text \<open>How often an offset occurs in a whole number of periods.\<close>

lemma filter_period_block:
  assumes "off < p"
  shows "filter (\<lambda>i. i mod p = off) [k * p..<k * p + p] = [k * p + off]"
proof -
  have "[k * p..<k * p + p] = map (\<lambda>i. k * p + i) [0..<p]"
    by (simp add: map_add_upt add.commute)
  moreover have "filter (\<lambda>i. i = off) [0..<p] = [off]"
    using assms by (induction p) (auto simp: less_Suc_eq filter_empty_conv)
  moreover have "filter (\<lambda>i. (k * p + i) mod p = off) [0..<p] = filter (\<lambda>i. i = off) [0..<p]"
    by (rule filter_cong) auto
  ultimately show ?thesis by (simp add: filter_map o_def)
qed

lemma filter_period_length:
  assumes "off < p"
  shows "filter (\<lambda>i. i mod p = off) [0..<k * p] = map (\<lambda>j. j * p + off) [0..<k]"
proof (induction k)
  case 0
  then show ?case by simp
next
  case (Suc k)
  have "[0..<Suc k * p] = [0..<k * p] @ [k * p..<k * p + p]"
    by (metis add.commute le0 mult_Suc upt_add_eq_append)
  with Suc filter_period_block [OF assms, of k] show ?case by simp
qed

lemma layer_layout_attention:
  assumes "0 < mc_pattern_period c" and "mc_attention_offset c < mc_pattern_period c"
    and "mc_num_layers c mod mc_pattern_period c = 0"
  shows "filter (\<lambda>i. layer_kind_of c i = Some GatedAttention) [0..<mc_num_layers c] =
         map (\<lambda>j. j * mc_pattern_period c + mc_attention_offset c)
           [0..<mc_num_layers c div mc_pattern_period c]"
proof -
  have whole: "mc_num_layers c = (mc_num_layers c div mc_pattern_period c) * mc_pattern_period c"
    using assms(3) by (metis add.right_neutral div_mult_mod_eq)
  have "filter (\<lambda>i. layer_kind_of c i = Some GatedAttention) [0..<mc_num_layers c] =
        filter (\<lambda>i. i mod mc_pattern_period c = mc_attention_offset c) [0..<mc_num_layers c]"
    using assms(1) by (simp add: layer_kind_of_def)
  then show ?thesis using filter_period_length [OF assms(2)] whole by metis
qed

lemma length_filter_kinds:
  assumes "0 < mc_pattern_period c"
  shows "length (filter (\<lambda>k. k = Some GatedAttention) (layer_layout c)) +
         length (filter (\<lambda>k. k = Some GatedDeltaNet) (layer_layout c)) = mc_num_layers c"
proof -
  have "filter (\<lambda>k. k = Some GatedDeltaNet) (layer_layout c) =
        filter (\<lambda>k. \<not> k = Some GatedAttention) (layer_layout c)"
    using assms by (intro filter_cong) (auto simp: layer_layout_def layer_kind_of_def)
  then show ?thesis
    using sum_length_filter_compl [of "\<lambda>k. k = Some GatedAttention" "layer_layout c"]
    by (simp add: layer_layout_def)
qed

lemma projection_params_total:
  assumes "0 < mc_pattern_period c"
  shows "projection_params c \<noteq> None"
proof -
  have "fold (\<lambda>layer acc. acc \<bind> projection_step c layer) xs (Some n) \<noteq> None" for xs n
    using assms by (induction xs arbitrary: n)
      (auto simp: projection_step_def layer_kind_of_def Let_def)
  then show ?thesis by (simp add: projection_params_def)
qed

section \<open>Properties\<close>

text \<open>A configuration the consistency check accepts has a whole layer pattern: the closed-form layer
  counts that size both caches are the actual numbers of attention and recurrent layers of the
  layout, the attention layers are exactly the positions \<open>j * period + offset\<close>, and query heads
  divide evenly over the key/value heads.\<close>

theorem check_config_layer_counts:
  assumes "check_config c = Some (Inr ())" and "mc_num_layers c < 2 ^ 32"
  shows "num_attention_layers c = Some (length (filter (\<lambda>k. k = Some GatedAttention) (layer_layout c))) \<and>
         num_gdn_layers c = Some (length (filter (\<lambda>k. k = Some GatedDeltaNet) (layer_layout c))) \<and>
         filter (\<lambda>i. layer_kind_of c i = Some GatedAttention) [0..<mc_num_layers c] =
           map (\<lambda>j. j * mc_pattern_period c + mc_attention_offset c)
             [0..<mc_num_layers c div mc_pattern_period c] \<and>
         (\<exists>r. gqa_ratio (mc_attention c) = Some r \<and>
              att_q_heads (mc_attention c) = r * att_kv_heads (mc_attention c))"
proof -
  note acc = check_config_cases [OF assms(1)]
  let ?att = "filter (\<lambda>k. k = Some GatedAttention) (layer_layout c)"
  have att: "filter (\<lambda>i. layer_kind_of c i = Some GatedAttention) [0..<mc_num_layers c] =
      map (\<lambda>j. j * mc_pattern_period c + mc_attention_offset c)
        [0..<mc_num_layers c div mc_pattern_period c]"
    using acc by (intro layer_layout_attention)
  have n: "length ?att = mc_num_layers c div mc_pattern_period c"
    using arg_cong [OF att, of length] by (simp add: layer_layout_def filter_map o_def)
  have le: "length ?att \<le> mc_num_layers c" using n by simp
  have "wsub 32 (mc_num_layers c) (length ?att) = mc_num_layers c - length ?att"
    using le assms(2) by (rule wsub_nowrap)
  then have gdn: "num_gdn_layers c = Some (length (filter (\<lambda>k. k = Some GatedDeltaNet) (layer_layout c)))"
    using length_filter_kinds [OF acc(1)] acc(1) n
    by (simp add: num_attention_layers_def num_gdn_layers_def checked_div_def)
  have q: "att_q_heads (mc_attention c) =
      (att_q_heads (mc_attention c) div att_kv_heads (mc_attention c)) * att_kv_heads (mc_attention c)"
    using acc(5) by (metis add.right_neutral div_mult_mod_eq)
  show ?thesis
    using att gdn n acc(1,4) q by (auto simp: num_attention_layers_def checked_div_def gqa_ratio_def)
qed

text \<open>The target model with the advertised size a GGUF load leaves open.\<close>

theorem check_config_layer_counts_witness:
  "num_attention_layers (qwen3_6_35b_a3b\<lparr>mc_advertised_params := 0\<rparr>) =
   Some (length (filter (\<lambda>k. k = Some GatedAttention)
     (layer_layout (qwen3_6_35b_a3b\<lparr>mc_advertised_params := 0\<rparr>))))"
  using check_config_layer_counts [of "qwen3_6_35b_a3b\<lparr>mc_advertised_params := 0\<rparr>"]
  by (simp add: check_config_def nonzero_fields_def moe_nonzero_fields_def qwen3_6_35b_a3b_def
      is_multiple_of_def)

text \<open>The consistency check itself never divides by zero: it returns an error or success for every
  configuration, whatever its fields.\<close>

theorem check_config_total: "check_config c \<noteq> None"
proof (cases "find (\<lambda>(_, v). v = 0) (nonzero_fields c @ moe_nonzero_fields c)")
  case None
  then have "0 < mc_pattern_period c" by (rule nonzero_fields_pos)
  then have "total_params c \<noteq> None"
    using projection_params_total [of c] by (auto simp: total_params_def)
  then show ?thesis using None by (auto simp: check_config_def split: option.splits)
next
  case (Some f)
  then show ?thesis by (auto simp: check_config_def split: prod.splits)
qed

text \<open>The reference presets have the documented cache geometry: 20,480 bytes of f16 KV per token and
  60 MiB of recurrent state per sequence for the MoE model; 65,536 bytes and 144 MiB for the dense
  one.\<close>

theorem preset_cache_geometry:
  "kv_bytes_per_token qwen3_6_35b_a3b 2 = Some 20480 \<and>
   gdn_state_bytes_per_sequence qwen3_6_35b_a3b = Some (60 * 1024 * 1024) \<and>
   kv_bytes_per_token qwen3_8_27b 2 = Some 65536 \<and>
   gdn_state_bytes_per_sequence qwen3_8_27b = Some (144 * 1024 * 1024)"
  by (simp add: kv_bytes_per_token_def gdn_state_bytes_per_sequence_def num_attention_layers_def
      num_gdn_layers_def checked_div_def kv_bytes_per_token_per_layer_def state_bytes_per_layer_def
      qwen3_6_35b_a3b_def qwen3_8_27b_def wmul_def wsub_def)

end
