(* ===== verification/CacheConfig.thy ===== *)
theory CacheConfig
  imports ModelConfig
begin

text \<open>
  Page geometry of the two cache groups, \<open>crates/xabe-cache/src/config.rs\<close>: the attention block size
  and the retention interval of recurrent-state snapshots, validated once at construction, and the
  capacity report that keeps the groups apart.
\<close>

datatype cache_config_error =
    ZeroAttentionBlockSize
  | ZeroRetentionInterval
  | RetentionNotBlockAligned nat nat
  | ZeroElemSize

record cache_config =
  cc_model :: model_config
  cc_attention_block_size :: nat
  cc_gdn_retention_interval :: nat
  cc_elem_size :: nat

definition default_attention_block_size :: nat where
  "default_attention_block_size = 256"

definition default_gdn_retention_interval :: nat where
  "default_gdn_retention_interval = 2048"

definition default_elem_size :: nat where
  "default_elem_size = 2"

definition cache_config_new ::
  "model_config \<Rightarrow> nat \<Rightarrow> nat \<Rightarrow> nat \<Rightarrow> cache_config_error + cache_config" where
  "cache_config_new model block_size retention elem_size =
     (if block_size = 0 then Inl ZeroAttentionBlockSize
      else if retention = 0 then Inl ZeroRetentionInterval
      else if elem_size = 0 then Inl ZeroElemSize
      else if \<not> is_multiple_of retention block_size then
        Inl (RetentionNotBlockAligned retention block_size)
      else Inr \<lparr>cc_model = model, cc_attention_block_size = block_size,
                cc_gdn_retention_interval = retention, cc_elem_size = elem_size\<rparr>)"

definition cache_config_with_defaults :: "model_config \<Rightarrow> cache_config_error + cache_config" where
  "cache_config_with_defaults model =
     cache_config_new model default_attention_block_size default_gdn_retention_interval default_elem_size"

definition attention_page_bytes :: "cache_config \<Rightarrow> nat option" where
  "attention_page_bytes c = do {
     kv \<leftarrow> kv_bytes_per_token (cc_model c) (cc_elem_size c);
     Some (wmul 64 kv (cc_attention_block_size c)) }"

definition gdn_page_bytes :: "cache_config \<Rightarrow> nat option" where
  "gdn_page_bytes c = gdn_state_bytes_per_sequence (cc_model c)"

definition attention_blocks_per_retention_interval :: "cache_config \<Rightarrow> nat option" where
  "attention_blocks_per_retention_interval c =
     checked_div (cc_gdn_retention_interval c) (cc_attention_block_size c)"

definition retention_floor :: "cache_config \<Rightarrow> nat \<Rightarrow> nat option" where
  "retention_floor c matched_tokens = do {
     q \<leftarrow> checked_div matched_tokens (cc_gdn_retention_interval c);
     Some (wmul 32 q (cc_gdn_retention_interval c)) }"

definition snapshot_to_kv_ratio :: "cache_config \<Rightarrow> f64 option" where
  "snapshot_to_kv_ratio c = do {
     kv \<leftarrow> kv_bytes_per_token (cc_model c) (cc_elem_size c);
     page \<leftarrow> gdn_page_bytes c;
     Some (f64_div (f64_of_u64 page) (f64_mul (f64_of_u64 kv) (f64_of_u32 (cc_gdn_retention_interval c)))) }"

record capacity_report =
  cr_attention_free_blocks :: nat
  cr_attention_total_blocks :: nat
  cr_attention_block_size :: nat
  cr_gdn_free_slots :: nat
  cr_gdn_total_slots :: nat
  cr_gdn_bytes_per_slot :: nat

definition attention_token_capacity :: "capacity_report \<Rightarrow> nat" where
  "attention_token_capacity r = wmul 64 (cr_attention_free_blocks r) (cr_attention_block_size r)"

definition gdn_bytes_per_additional_slot :: "capacity_report \<Rightarrow> nat" where
  "gdn_bytes_per_additional_slot r = cr_gdn_bytes_per_slot r"

section \<open>Alignment\<close>

lemma cache_config_new_Inr:
  "cache_config_new m b r e = Inr c \<longleftrightarrow>
     0 < b \<and> 0 < r \<and> 0 < e \<and> r mod b = 0 \<and>
     c = \<lparr>cc_model = m, cc_attention_block_size = b, cc_gdn_retention_interval = r, cc_elem_size = e\<rparr>"
  by (auto simp: cache_config_new_def is_multiple_of_def)

lemma retention_floor_eq:
  assumes "0 < cc_gdn_retention_interval c" and "t < 2 ^ 32"
  shows "retention_floor c t = Some (t div cc_gdn_retention_interval c * cc_gdn_retention_interval c)"
proof -
  have "t div cc_gdn_retention_interval c * cc_gdn_retention_interval c \<le> t" by simp
  then have "wmul 32 (t div cc_gdn_retention_interval c) (cc_gdn_retention_interval c) =
      t div cc_gdn_retention_interval c * cc_gdn_retention_interval c"
    using assms(2) by (intro wmul_nowrap) (rule le_less_trans)
  then show ?thesis using assms(1) by (simp add: retention_floor_def checked_div_def)
qed

section \<open>Properties\<close>

text \<open>Under every accepted geometry the retention floor of a matched length is the largest retention
  boundary not above it, and it lies on an attention block boundary, so a truncated match never
  splits a block and never exceeds what was matched.\<close>

theorem retention_floor_largest_boundary:
  assumes "cache_config_new model block_size retention elem_size = Inr c" and "t < 2 ^ 32"
  shows "\<exists>f. retention_floor c t = Some f \<and> f \<le> t \<and> t < f + retention \<and>
           retention dvd f \<and> block_size dvd f \<and> (\<forall>g. retention dvd g \<and> g \<le> t \<longrightarrow> g \<le> f)"
proof -
  from assms(1) have c: "cc_gdn_retention_interval c = retention" and r: "0 < retention"
    and dvd: "block_size dvd retention"
    by (auto simp: cache_config_new_Inr)
  let ?f = "t div retention * retention"
  have "retention_floor c t = Some ?f" using retention_floor_eq [of c t] assms(2) c r by simp
  moreover have "?f \<le> t" by simp
  moreover have "t < ?f + retention"
    using r div_mult_mod_eq [of t retention] mod_less_divisor [OF r, of t] by linarith
  moreover have "g \<le> ?f" if "retention dvd g" "g \<le> t" for g
    using that by (metis div_le_mono dvd_div_mult_self mult_le_mono1)
  ultimately show ?thesis using dvd by (auto intro: dvd_mult)
qed

theorem retention_floor_largest_boundary_witness:
  "\<exists>f. retention_floor \<lparr>cc_model = qwen3_6_35b_a3b, cc_attention_block_size = 256,
       cc_gdn_retention_interval = 2048, cc_elem_size = 2\<rparr> 4095 = Some f \<and> f \<le> 4095 \<and> 4095 < f + 2048"
  using retention_floor_largest_boundary [of qwen3_6_35b_a3b 256 2048 2 _ 4095]
  by (auto simp: cache_config_new_Inr)

end
