(* ===== verification/BlockPool.thy ===== *)
theory BlockPool
  imports Prelude
begin

text \<open>
  The per-group block allocator of \<open>crates/xabe-cache/src/pool.rs\<close>: one free list, used as a stack
  whose top is the end of the vector. \<open>block_pool\<close> is the struct, \<open>pool_new\<close>, \<open>pool_alloc\<close>,
  \<open>pool_alloc_into\<close>, \<open>pool_alloc_n\<close>, \<open>pool_free_block\<close> and \<open>pool_free_blocks\<close> its methods. The
  \<open>expect\<close> inside \<open>alloc_into\<close> is the explicit error \<open>ExpectFailed\<close>, shown unreachable.

  The locale \<open>block_allocator\<close> is the contract callers rely on: a pool \<open>p\<close> is described by the
  multiset of blocks currently handed out (\<open>ledger p M\<close>), a request within the free count succeeds
  with that many fresh blocks, and returning handed-out blocks frees them.
\<close>

type_synonym block_id = nat

datatype pool_error = PoolExhausted string nat | ExpectFailed

record block_pool =
  bp_label :: string
  bp_page_bytes :: nat
  bp_total :: nat
  bp_free :: "block_id list"

definition pool_new :: "string \<Rightarrow> nat \<Rightarrow> nat \<Rightarrow> block_pool" where
  "pool_new label page_bytes total_blocks =
     \<lparr>bp_label = label, bp_page_bytes = page_bytes, bp_total = total_blocks, bp_free = rev [0..<total_blocks]\<rparr>"

definition pool_exhausted :: "block_pool \<Rightarrow> pool_error" where
  "pool_exhausted p = PoolExhausted (bp_label p) (bp_total p)"

definition pool_alloc :: "block_pool \<Rightarrow> (pool_error + block_id) \<times> block_pool" where
  "pool_alloc p = (case vec_pop (bp_free p) of
     None \<Rightarrow> (Inl (pool_exhausted p), p)
   | Some (b, rest) \<Rightarrow> (Inr b, p\<lparr>bp_free := rest\<rparr>))"

text \<open>The loop of \<open>alloc_into\<close>: \<open>n\<close> times pop and push; \<open>None\<close> is the failed \<open>expect\<close>.\<close>

fun pool_pop_loop :: "nat \<Rightarrow> block_id list \<Rightarrow> block_id list \<Rightarrow> (block_id list \<times> block_id list) option" where
  "pool_pop_loop 0 free out = Some (free, out)"
| "pool_pop_loop (Suc n) free out = (case vec_pop free of
     None \<Rightarrow> None
   | Some (b, rest) \<Rightarrow> pool_pop_loop n rest (out @ [b]))"

definition pool_alloc_into ::
  "block_pool \<Rightarrow> nat \<Rightarrow> block_id list \<Rightarrow> (pool_error + unit) \<times> block_pool \<times> block_id list" where
  "pool_alloc_into p n out =
     (if length (bp_free p) < n then (Inl (pool_exhausted p), p, out)
      else (case pool_pop_loop n (bp_free p) out of
        None \<Rightarrow> (Inl ExpectFailed, p, out)
      | Some (free, out') \<Rightarrow> (Inr (), p\<lparr>bp_free := free\<rparr>, out')))"

definition pool_alloc_n :: "block_pool \<Rightarrow> nat \<Rightarrow> (pool_error + block_id list) \<times> block_pool" where
  "pool_alloc_n p n = (case pool_alloc_into p n [] of
     (Inl e, p', _) \<Rightarrow> (Inl e, p')
   | (Inr _, p', out) \<Rightarrow> (Inr out, p'))"

definition pool_free_block :: "block_pool \<Rightarrow> block_id \<Rightarrow> block_pool" where
  "pool_free_block p b = p\<lparr>bp_free := bp_free p @ [b]\<rparr>"

definition pool_free_blocks :: "block_pool \<Rightarrow> block_id list \<Rightarrow> block_pool" where
  "pool_free_blocks p bs = fold (\<lambda>b q. pool_free_block q b) bs p"

definition pool_free_count :: "block_pool \<Rightarrow> nat" where
  "pool_free_count p = length (bp_free p) mod 2 ^ 32"

text \<open>The specification state: the blocks some caller holds. Together with the free list they are
  exactly the ids \<open>0, \<dots>, total - 1\<close>, each once.\<close>

definition pool_ledger :: "block_pool \<Rightarrow> block_id multiset \<Rightarrow> bool" where
  "pool_ledger p held \<longleftrightarrow> mset (bp_free p) + held = mset [0..<bp_total p] \<and> bp_total p < 2 ^ 32"

text \<open>Successful bulk allocation, as the allocator contract below states it.\<close>

definition pool_take :: "block_pool \<Rightarrow> nat \<Rightarrow> (block_id list \<times> block_pool) option" where
  "pool_take p n = (case pool_alloc_n p n of (Inl _, _) \<Rightarrow> None | (Inr bs, p') \<Rightarrow> Some (bs, p'))"

text \<open>Runs of a pool with the blocks its callers hold: every caller returns only blocks it holds.\<close>

inductive pool_step :: "block_pool \<times> block_id multiset \<Rightarrow> block_pool \<times> block_id multiset \<Rightarrow> bool" where
  Alloc: "pool_alloc p = (Inr b, p') \<Longrightarrow> pool_step (p, M) (p', add_mset b M)"
| AllocFail: "pool_alloc p = (Inl e, p') \<Longrightarrow> pool_step (p, M) (p', M)"
| AllocInto: "pool_alloc_into p n out = (Inr u, p', out @ bs) \<Longrightarrow> pool_step (p, M) (p', M + mset bs)"
| AllocIntoFail: "pool_alloc_into p n out = (Inl e, p', out') \<Longrightarrow> pool_step (p, M) (p', M)"
| Free: "b \<in># M \<Longrightarrow> pool_step (p, M) (pool_free_block p b, M - {#b#})"
| FreeMany: "mset bs \<subseteq># M \<Longrightarrow> pool_step (p, M) (pool_free_blocks p bs, M - mset bs)"

definition pool_reachable :: "string \<Rightarrow> nat \<Rightarrow> nat \<Rightarrow> block_pool \<Rightarrow> block_id multiset \<Rightarrow> bool" where
  "pool_reachable label page_bytes total_blocks p M \<longleftrightarrow>
     pool_step\<^sup>*\<^sup>* (pool_new label page_bytes total_blocks, {#}) (p, M)"

section \<open>The allocator contract\<close>

locale block_allocator =
  fixes ledger :: "'p \<Rightarrow> 'b multiset \<Rightarrow> bool"
    and avail :: "'p \<Rightarrow> nat"
    and take_n :: "'p \<Rightarrow> nat \<Rightarrow> ('b list \<times> 'p) option"
    and give :: "'p \<Rightarrow> 'b list \<Rightarrow> 'p"
  assumes ledger_once: "ledger p M \<Longrightarrow> count M b \<le> 1"
    and take_enough: "ledger p M \<Longrightarrow> n \<le> avail p \<Longrightarrow> \<exists>bs p'. take_n p n = Some (bs, p')"
    and take_short: "ledger p M \<Longrightarrow> avail p < n \<Longrightarrow> take_n p n = None"
    and take_ledger: "ledger p M \<Longrightarrow> take_n p n = Some (bs, p') \<Longrightarrow> ledger p' (M + mset bs)"
    and take_length: "ledger p M \<Longrightarrow> take_n p n = Some (bs, p') \<Longrightarrow> length bs = n"
    and take_avail: "ledger p M \<Longrightarrow> take_n p n = Some (bs, p') \<Longrightarrow> avail p = avail p' + n"
    and give_ledger: "ledger p M \<Longrightarrow> mset bs \<subseteq># M \<Longrightarrow> ledger (give p bs) (M - mset bs)"
    and give_avail: "ledger p M \<Longrightarrow> mset bs \<subseteq># M \<Longrightarrow> avail (give p bs) = avail p + length bs"
begin

lemma take_fresh:
  assumes "ledger p M" and "take_n p n = Some (bs, p')"
  shows "distinct bs \<and> set bs \<inter> set_mset M = {}"
proof -
  have once: "count (M + mset bs) b \<le> 1" for b
    using ledger_once [OF take_ledger [OF assms]] .
  have "count (mset bs) b \<le> 1" for b using once [of b] by simp
  then have "distinct bs"
    by (simp add: distinct_count_atmost_1 le_Suc_eq)
  moreover have "b \<notin># M" if "b \<in> set bs" for b
  proof
    assume "b \<in># M"
    then have "1 \<le> count M b" by simp
    moreover have "1 \<le> count (mset bs) b" using that by (simp add: count_greater_eq_one_iff)
    ultimately show False using once [of b] unfolding count_union by linarith
  qed
  ultimately show ?thesis by blast
qed

lemma take_give:
  assumes "ledger p M" and "take_n p n = Some (bs, p')"
  shows "ledger (give p' bs) M \<and> avail (give p' bs) = avail p"
  using give_ledger [OF take_ledger [OF assms], of bs] give_avail [OF take_ledger [OF assms], of bs]
    take_avail [OF assms] take_length [OF assms] by simp

lemma take_iff:
  assumes "ledger p M"
  shows "take_n p n \<noteq> None \<longleftrightarrow> n \<le> avail p"
  using take_enough [OF assms] take_short [OF assms] by (metis not_less option.distinct(1))

end

section \<open>The pool keeps the contract\<close>

lemma vec_pop_Some: "vec_pop xs = Some (x, ys) \<Longrightarrow> xs = ys @ [x]"
  by (auto simp: vec_pop_def split: if_splits)

lemma vec_pop_snoc [simp]: "vec_pop (xs @ [x]) = Some (x, xs)"
  by (simp add: vec_pop_def)

lemma pool_pop_loop_eq:
  "n \<le> length free \<Longrightarrow>
   pool_pop_loop n free out = Some (take (length free - n) free, out @ rev (drop (length free - n) free))"
proof (induction n arbitrary: free out)
  case 0
  then show ?case by simp
next
  case (Suc n)
  then obtain rest b where free: "free = rest @ [b]"
    by (metis Zero_not_Suc le_zero_eq length_0_conv rev_exhaust)
  with Suc show ?case by simp
qed

lemma pool_alloc_into_eq:
  "pool_alloc_into p n out =
     (if length (bp_free p) < n then (Inl (pool_exhausted p), p, out)
      else (Inr (), p\<lparr>bp_free := take (length (bp_free p) - n) (bp_free p)\<rparr>,
            out @ rev (drop (length (bp_free p) - n) (bp_free p))))"
  by (simp add: pool_alloc_into_def pool_pop_loop_eq)

lemma pool_free_blocks_eq: "pool_free_blocks p bs = p\<lparr>bp_free := bp_free p @ bs\<rparr>"
  by (induction bs arbitrary: p) (simp_all add: pool_free_blocks_def pool_free_block_def)

lemma pool_ledger_new: "n < 2 ^ 32 \<Longrightarrow> pool_ledger (pool_new label page_bytes n) {#}"
  by (simp add: pool_ledger_def pool_new_def del: mset_upt)

lemma pool_ledger_free_count:
  assumes "pool_ledger p M"
  shows "pool_free_count p = length (bp_free p)" and "length (bp_free p) + size M = bp_total p"
proof -
  have "size (mset (bp_free p) + M) = bp_total p"
    using assms by (metis pool_ledger_def length_upt minus_nat.diff_0 size_mset)
  then show sum: "length (bp_free p) + size M = bp_total p" by simp
  have "bp_total p < 2 ^ 32" using assms by (simp add: pool_ledger_def)
  with sum show "pool_free_count p = length (bp_free p)" by (simp add: pool_free_count_def)
qed

lemma pool_ledger_once: "pool_ledger p M \<Longrightarrow> count M b \<le> 1"
proof -
  assume "pool_ledger p M"
  then have "count (mset (bp_free p) + M) b = count (mset [0..<bp_total p]) b"
    by (simp add: pool_ledger_def)
  also have "\<dots> \<le> 1"
    using distinct_upt [of 0 "bp_total p"] by (metis distinct_count_atmost_1 count_mset_0_iff dual_order.refl le_zero_eq nat_le_linear)
  finally show ?thesis by simp
qed

lemma pool_take_eq:
  "pool_take p n = (if length (bp_free p) < n then None
     else Some (rev (drop (length (bp_free p) - n) (bp_free p)),
                p\<lparr>bp_free := take (length (bp_free p) - n) (bp_free p)\<rparr>))"
  by (simp add: pool_take_def pool_alloc_n_def pool_alloc_into_eq)

lemma mset_take_drop: "mset (take k xs) + mset (drop k xs) = mset xs"
  by (metis append_take_drop_id mset_append)

lemma pool_ledger_take:
  assumes "pool_ledger p M" and "n \<le> length (bp_free p)"
  shows "pool_ledger (p\<lparr>bp_free := take (length (bp_free p) - n) (bp_free p)\<rparr>)
           (M + mset (drop (length (bp_free p) - n) (bp_free p)))"
  using assms mset_take_drop [of "length (bp_free p) - n" "bp_free p"]
  by (simp add: pool_ledger_def add.commute add.left_commute del: mset_upt)

lemma pool_ledger_give:
  "pool_ledger p M \<Longrightarrow> mset bs \<subseteq># M \<Longrightarrow> pool_ledger (pool_free_blocks p bs) (M - mset bs)"
  by (simp add: pool_ledger_def pool_free_blocks_eq subset_mset.add_diff_assoc2 subset_mset.diff_add
      add.assoc del: mset_upt)

interpretation pool: block_allocator pool_ledger pool_free_count pool_take pool_free_blocks
proof unfold_locales
  fix p M n bs p'
  assume led: "pool_ledger p M"
  note count = pool_ledger_free_count [OF led]
  show "count M b \<le> 1" for b using led by (rule pool_ledger_once)
  show "\<exists>bs p'. pool_take p n = Some (bs, p')" if "n \<le> pool_free_count p"
    using that count by (simp add: pool_take_eq)
  show "pool_take p n = None" if "pool_free_count p < n"
    using that count by (simp add: pool_take_eq)
  show "pool_ledger (pool_free_blocks p bs) (M - mset bs)" if "mset bs \<subseteq># M"
    using led that by (rule pool_ledger_give)
  show "pool_free_count (pool_free_blocks p bs) = pool_free_count p + length bs" if "mset bs \<subseteq># M"
    using pool_ledger_free_count [OF pool_ledger_give [OF led that]] count
    by (simp add: pool_free_blocks_eq)
  assume take: "pool_take p n = Some (bs, p')"
  then have n: "n \<le> length (bp_free p)" by (auto simp: pool_take_eq split: if_splits)
  show led': "pool_ledger p' (M + mset bs)"
    using take pool_ledger_take [OF led n] by (auto simp: pool_take_eq split: if_splits)
  show "length bs = n" using take by (auto simp: pool_take_eq split: if_splits)
  show "pool_free_count p = pool_free_count p' + n"
    using take n count pool_ledger_free_count [OF led'] by (auto simp: pool_take_eq split: if_splits)
qed

lemma pool_step_ledger:
  assumes "pool_step (p, M) (p', M')" and "pool_ledger p M"
  shows "pool_ledger p' M' \<and> bp_total p' = bp_total p \<and> bp_label p' = bp_label p"
  using assms
proof (cases rule: pool_step.cases)
  case (Alloc b)
  then have "bp_free p = bp_free p' @ [b]" and "bp_total p' = bp_total p" "bp_label p' = bp_label p"
    by (auto simp: pool_alloc_def split: option.splits prod.splits dest: vec_pop_Some)
  with Alloc assms(2) show ?thesis by (simp add: pool_ledger_def del: mset_upt)
next
  case (AllocFail e)
  with assms(2) show ?thesis by (auto simp: pool_alloc_def split: option.splits)
next
  case (AllocInto n out u bs)
  then have n: "n \<le> length (bp_free p)"
    and bs: "bs = rev (drop (length (bp_free p) - n) (bp_free p))"
    and p': "p' = p\<lparr>bp_free := take (length (bp_free p) - n) (bp_free p)\<rparr>"
    by (auto simp: pool_alloc_into_eq split: if_splits)
  show ?thesis using pool_ledger_take [OF assms(2) n] AllocInto bs p' by simp
next
  case (AllocIntoFail n out e out')
  with assms(2) show ?thesis by (auto simp: pool_alloc_into_eq split: if_splits)
next
  case (Free b)
  with assms(2) pool_ledger_give [of p M "[b]"] show ?thesis
    by (simp add: pool_free_blocks_def pool_free_block_def)
next
  case (FreeMany bs)
  with assms(2) pool_ledger_give [of p M bs] show ?thesis
    by (simp add: pool_free_blocks_eq)
qed

lemma pool_reachable_ledger:
  assumes "pool_reachable label page_bytes n p M" and "n < 2 ^ 32"
  shows "pool_ledger p M \<and> bp_total p = n"
  using assms(1) unfolding pool_reachable_def
proof (induction "(p, M)" arbitrary: p M rule: rtranclp_induct)
  case base
  then show ?case using pool_ledger_new [OF assms(2)] by (simp add: pool_new_def)
next
  case (step q)
  then show ?case using pool_step_ledger by (cases q) blast
qed

section \<open>Properties\<close>

text \<open>C26: In every run of a pool in which callers return only blocks they hold, the free list and the
  held blocks together are exactly the ids \<open>0, \<dots>, total - 1\<close>, each once: no block is handed out
  twice, none is lost, and the reported free count is exact.\<close>

theorem pool_run_conserves_blocks:
  assumes "pool_reachable label page_bytes n p held" and "n < 2 ^ 32"
  shows "mset (bp_free p) + held = mset [0..<n] \<and> distinct (bp_free p) \<and>
         set (bp_free p) \<inter> set_mset held = {} \<and> pool_free_count p + size held = n"
proof -
  have led: "pool_ledger p held" and tot: "bp_total p = n"
    using pool_reachable_ledger [OF assms] by simp_all
  then have all: "mset (bp_free p) + held = mset [0..<n]" by (simp add: pool_ledger_def)
  have take: "pool_take p (length (bp_free p)) = Some (rev (bp_free p), p\<lparr>bp_free := []\<rparr>)"
    by (simp add: pool_take_eq)
  show ?thesis
    using all pool.take_fresh [OF led take] pool_ledger_free_count [OF led] tot by simp
qed

theorem pool_run_conserves_blocks_witness:
  "mset (bp_free (snd (pool_alloc (pool_new ''gdn'' 4096 2)))) + {#0#} = mset [0..<2]"
proof -
  let ?p = "snd (pool_alloc (pool_new ''gdn'' 4096 2))"
  have pop: "pool_alloc (pool_new ''gdn'' 4096 2) = (Inr 0, ?p)"
    by (simp add: pool_alloc_def pool_new_def vec_pop_def upt_rec)
  have "pool_step (pool_new ''gdn'' 4096 2, {#}) (?p, add_mset 0 {#})"
    using pop by (rule pool_step.Alloc)
  then have "pool_reachable ''gdn'' 4096 2 ?p {#0#}" by (simp add: pool_reachable_def)
  from pool_run_conserves_blocks [OF this] show ?thesis by simp
qed

text \<open>Bulk allocation is all or nothing. On a consistent pool \<open>alloc_into\<close> succeeds exactly when
  the free count covers the request, appends that many distinct blocks that nobody holds, and its
  \<open>expect\<close> cannot fail; otherwise it reports exhaustion and neither the pool nor the output vector
  changes.\<close>

theorem pool_alloc_into_all_or_nothing:
  assumes "pool_ledger p held"
  shows "(n \<le> pool_free_count p \<longrightarrow> (\<exists>bs p'. pool_alloc_into p n out = (Inr (), p', out @ bs) \<and>
            length bs = n \<and> distinct bs \<and> set bs \<inter> set_mset held = {} \<and>
            pool_ledger p' (held + mset bs) \<and> pool_free_count p' = pool_free_count p - n)) \<and>
         (pool_free_count p < n \<longrightarrow>
            pool_alloc_into p n out = (Inl (PoolExhausted (bp_label p) (bp_total p)), p, out))"
proof -
  note count = pool_ledger_free_count [OF assms]
  let ?bs = "rev (drop (length (bp_free p) - n) (bp_free p))"
  let ?p' = "p\<lparr>bp_free := take (length (bp_free p) - n) (bp_free p)\<rparr>"
  have "pool_take p n = Some (?bs, ?p')" if "n \<le> length (bp_free p)"
    using that by (simp add: pool_take_eq)
  from pool.take_fresh [OF assms this] pool.take_ledger [OF assms this] pool.take_avail [OF assms this]
  show ?thesis using count by (auto simp: pool_alloc_into_eq pool_exhausted_def)
qed

theorem pool_alloc_into_all_or_nothing_witness:
  "pool_alloc_into (pool_new ''attention'' 4096 3) 4 [] =
     (Inl (PoolExhausted ''attention'' 3), pool_new ''attention'' 4096 3, [])"
  using pool_alloc_into_all_or_nothing [OF pool_ledger_new [of 3 "''attention''" 4096], of 4 "[]"]
  by (simp add: pool_free_count_def pool_new_def)

end
