(* ===== verification/RadixTree.thy ===== *)
theory RadixTree
  imports CacheConfig BlockPool
begin

text \<open>
  The shared prefix index of \<open>crates/xabe-cache/src/radix.rs\<close>: a hash map from chained block hashes to
  nodes with parent and child links. \<open>radix_insert\<close>, \<open>match_prefix\<close>, the reference-count and pin
  operations and \<open>evict_unreferenced_entries\<close> are the methods of \<open>RadixTree\<close>; the lock around them
  makes each one atomic, so a run is a sequence of them.

  The hash map is an association list. Its iteration order, which decides between equally old
  eviction candidates, is the parameter \<open>iter\<close> of the eviction. The chained hash function itself is
  third-party code and does not occur here: the operations take hashes.
\<close>

type_synonym block_hash = nat
type_synonym gdn_slot = block_id

record evicted_prefix =
  ev_hash :: block_hash
  ev_block :: block_id

definition root_hash :: block_hash where
  "root_hash = 0"

record prefix_block =
  pb_hash :: block_hash
  pb_block :: block_id
  pb_gdn_snapshot :: "gdn_slot option"

record node =
  nd_parent :: block_hash
  nd_children :: "block_hash set"
  nd_block :: block_id
  nd_token_end :: nat
  nd_gdn_snapshot :: "gdn_slot option"
  nd_ref_count :: nat
  nd_pinned :: bool
  nd_last_used :: nat

record radix_tree =
  rx_block_size :: nat
  rx_nodes :: "(block_hash \<times> node) list"
  rx_root_children :: "block_hash set"
  rx_clock :: nat

record prefix_match =
  pm_matched_hash :: "block_hash option"
  pm_matched_tokens :: nat
  pm_blocks :: "block_id list"
  pm_gdn_snapshot :: "gdn_slot option"
  pm_gdn_snapshot_hash :: "block_hash option"
  pm_gdn_matched_tokens :: nat

abbreviation get_node :: "radix_tree \<Rightarrow> block_hash \<Rightarrow> node option" where
  "get_node t h \<equiv> map_of (rx_nodes t) h"

definition radix_new :: "nat \<Rightarrow> radix_tree" where
  "radix_new block_size = \<lparr>rx_block_size = block_size, rx_nodes = [], rx_root_children = {}, rx_clock = 0\<rparr>"

text \<open>\<open>if let Some(n) = inner.nodes.get_mut(h) { \<dots> }\<close>\<close>

definition modify_node :: "block_hash \<Rightarrow> (node \<Rightarrow> node) \<Rightarrow> radix_tree \<Rightarrow> radix_tree" where
  "modify_node h f t = t\<lparr>rx_nodes := AList.map_entry h f (rx_nodes t)\<rparr>"

definition new_node :: "block_hash \<Rightarrow> nat \<Rightarrow> prefix_block \<Rightarrow> node" where
  "new_node parent_hash token_end pb =
     \<lparr>nd_parent = parent_hash, nd_children = {}, nd_block = pb_block pb, nd_token_end = token_end,
      nd_gdn_snapshot = pb_gdn_snapshot pb, nd_ref_count = 0, nd_pinned = False, nd_last_used = 0\<rparr>"

text \<open>The body of the insertion loop.\<close>

definition insert_vacant :: "block_hash \<Rightarrow> nat \<Rightarrow> prefix_block \<Rightarrow> radix_tree \<Rightarrow> radix_tree" where
  "insert_vacant parent_hash token_end pb t =
     (case get_node t (pb_hash pb) of
        Some _ \<Rightarrow> t
      | None \<Rightarrow>
          let t = t\<lparr>rx_nodes := rx_nodes t @ [(pb_hash pb, new_node parent_hash token_end pb)]\<rparr>
          in if parent_hash = root_hash then
               t\<lparr>rx_root_children := insert (pb_hash pb) (rx_root_children t)\<rparr>
             else modify_node parent_hash
               (\<lambda>n. n\<lparr>nd_children := insert (pb_hash pb) (nd_children n)\<rparr>) t)"

fun insert_loop :: "block_hash \<Rightarrow> nat \<Rightarrow> prefix_block list \<Rightarrow> radix_tree \<Rightarrow> radix_tree" where
  "insert_loop parent_hash token_start [] t = t"
| "insert_loop parent_hash token_start (pb # pbs) t =
     (let token_end = wadd 32 token_start (rx_block_size t)
      in insert_loop (pb_hash pb) token_end pbs (insert_vacant parent_hash token_end pb t))"

definition radix_insert :: "radix_tree \<Rightarrow> prefix_block list \<Rightarrow> radix_tree" where
  "radix_insert t prefix = insert_loop root_hash 0 prefix t"

definition prefix_match_default :: prefix_match where
  "prefix_match_default = \<lparr>pm_matched_hash = None, pm_matched_tokens = 0, pm_blocks = [],
     pm_gdn_snapshot = None, pm_gdn_snapshot_hash = None, pm_gdn_matched_tokens = 0\<rparr>"

definition match_node :: "block_hash \<Rightarrow> node \<Rightarrow> prefix_match \<Rightarrow> prefix_match" where
  "match_node h n r =
     (let r = r\<lparr>pm_blocks := pm_blocks r @ [nd_block n], pm_matched_tokens := nd_token_end n,
                pm_matched_hash := Some h\<rparr>
      in case nd_gdn_snapshot n of
           Some slot \<Rightarrow> r\<lparr>pm_gdn_snapshot := Some slot, pm_gdn_snapshot_hash := Some h,
                           pm_gdn_matched_tokens := nd_token_end n\<rparr>
         | None \<Rightarrow> r)"

fun match_loop :: "radix_tree \<Rightarrow> block_hash list \<Rightarrow> prefix_match \<Rightarrow> prefix_match" where
  "match_loop t [] r = r"
| "match_loop t (h # hs) r = (case get_node t h of
     None \<Rightarrow> r
   | Some n \<Rightarrow> match_loop t hs (match_node h n r))"

definition match_prefix :: "radix_tree \<Rightarrow> block_hash list \<Rightarrow> prefix_match" where
  "match_prefix t hashes = match_loop t hashes prefix_match_default"

definition incr_ref_chain :: "radix_tree \<Rightarrow> block_hash list \<Rightarrow> radix_tree" where
  "incr_ref_chain t hashes =
     fold (\<lambda>h. modify_node h (\<lambda>n. n\<lparr>nd_ref_count := wadd 32 (nd_ref_count n) 1\<rparr>)) hashes t"

definition decr_ref_node :: "nat \<Rightarrow> node \<Rightarrow> node" where
  "decr_ref_node clock n =
     (let n = n\<lparr>nd_ref_count := nd_ref_count n - 1\<rparr>
      in if nd_ref_count n = 0 then n\<lparr>nd_last_used := clock\<rparr> else n)"

definition decr_ref_chain :: "radix_tree \<Rightarrow> block_hash list \<Rightarrow> radix_tree" where
  "decr_ref_chain t hashes =
     (let clock = wadd 64 (rx_clock t) 1
      in fold (\<lambda>h. modify_node h (decr_ref_node clock)) hashes (t\<lparr>rx_clock := clock\<rparr>))"

definition pin_chain :: "radix_tree \<Rightarrow> block_hash list \<Rightarrow> radix_tree" where
  "pin_chain t hashes = fold (\<lambda>h. modify_node h (\<lambda>n. n\<lparr>nd_pinned := True\<rparr>)) hashes t"

definition unpin_chain :: "radix_tree \<Rightarrow> block_hash list \<Rightarrow> radix_tree" where
  "unpin_chain t hashes = fold (\<lambda>h. modify_node h (\<lambda>n. n\<lparr>nd_pinned := False\<rparr>)) hashes t"

definition is_pinned :: "radix_tree \<Rightarrow> block_hash \<Rightarrow> bool" where
  "is_pinned t h = (case get_node t h of Some n \<Rightarrow> nd_pinned n | None \<Rightarrow> False)"

definition ref_count :: "radix_tree \<Rightarrow> block_hash \<Rightarrow> nat" where
  "ref_count t h = (case get_node t h of Some n \<Rightarrow> nd_ref_count n | None \<Rightarrow> 0)"

definition radix_contains :: "radix_tree \<Rightarrow> block_hash \<Rightarrow> bool" where
  "radix_contains t h = (get_node t h \<noteq> None)"

definition radix_len :: "radix_tree \<Rightarrow> nat" where
  "radix_len t = length (rx_nodes t)"

definition radix_is_empty :: "radix_tree \<Rightarrow> bool" where
  "radix_is_empty t = (radix_len t = 0)"

text \<open>\<open>Iterator::min_by_key\<close>: the first of the elements with the least key.\<close>

fun min_by_key :: "('a \<Rightarrow> nat) \<Rightarrow> 'a list \<Rightarrow> 'a option" where
  "min_by_key k [] = None"
| "min_by_key k (x # xs) = (case min_by_key k xs of
     None \<Rightarrow> Some x
   | Some y \<Rightarrow> if k y < k x then Some y else Some x)"

definition evictable :: "block_hash \<times> node \<Rightarrow> bool" where
  "evictable e = (nd_children (snd e) = {} \<and> nd_ref_count (snd e) = 0 \<and> \<not> nd_pinned (snd e))"

definition evict_candidate ::
  "((block_hash \<times> node) list \<Rightarrow> (block_hash \<times> node) list) \<Rightarrow> radix_tree \<Rightarrow> block_hash option" where
  "evict_candidate iter t =
     map_option fst (min_by_key (\<lambda>e. nd_last_used (snd e)) (filter evictable (iter (rx_nodes t))))"

definition unlink_node :: "block_hash \<Rightarrow> node \<Rightarrow> radix_tree \<Rightarrow> radix_tree" where
  "unlink_node h n t =
     (let t = t\<lparr>rx_nodes := AList.delete h (rx_nodes t)\<rparr>
      in if nd_parent n = root_hash then t\<lparr>rx_root_children := rx_root_children t - {h}\<rparr>
         else modify_node (nd_parent n) (\<lambda>p. p\<lparr>nd_children := nd_children p - {h}\<rparr>) t)"

text \<open>The eviction loop; the first argument is the number of nodes still to evict. \<open>None\<close> is the
  failing \<open>expect\<close> on a candidate that is not in the map.\<close>

fun evict_loop ::
  "((block_hash \<times> node) list \<Rightarrow> (block_hash \<times> node) list) \<Rightarrow> nat \<Rightarrow> radix_tree \<Rightarrow>
   evicted_prefix list \<Rightarrow> (evicted_prefix list \<times> radix_tree) option" where
  "evict_loop iter 0 t acc = Some (acc, t)"
| "evict_loop iter (Suc n) t acc = (case evict_candidate iter t of
     None \<Rightarrow> Some (acc, t)
   | Some h \<Rightarrow> (case get_node t h of
       None \<Rightarrow> None
     | Some nd \<Rightarrow> evict_loop iter n (unlink_node h nd t)
                    (acc @ [\<lparr>ev_hash = h, ev_block = nd_block nd\<rparr>])))"

definition evict_unreferenced_entries ::
  "((block_hash \<times> node) list \<Rightarrow> (block_hash \<times> node) list) \<Rightarrow> radix_tree \<Rightarrow> nat \<Rightarrow>
   (evicted_prefix list \<times> radix_tree) option" where
  "evict_unreferenced_entries iter t max_nodes = evict_loop iter max_nodes t []"

definition evict_unreferenced ::
  "((block_hash \<times> node) list \<Rightarrow> (block_hash \<times> node) list) \<Rightarrow> radix_tree \<Rightarrow> nat \<Rightarrow>
   (block_id list \<times> radix_tree) option" where
  "evict_unreferenced iter t max_nodes =
     map_option (\<lambda>(es, t'). (map ev_block es, t')) (evict_unreferenced_entries iter t max_nodes)"

section \<open>Structural invariant and runs\<close>

text \<open>The child links are exactly the inverse of the parent links, and no parent of a cached node is
  missing; the implicit root has its own set. \<open>links\<close> projects the nodes to their parent and
  children.\<close>

definition links :: "radix_tree \<Rightarrow> block_hash \<Rightarrow> (block_hash \<times> block_hash set) option" where
  "links t h = map_option (\<lambda>n. (nd_parent n, nd_children n)) (get_node t h)"

definition links_ok :: "block_hash set \<Rightarrow> (block_hash \<Rightarrow> (block_hash \<times> block_hash set) option) \<Rightarrow> bool" where
  "links_ok roots L \<longleftrightarrow>
     roots = {h. \<exists>cs. L h = Some (root_hash, cs)} \<and>
     (\<forall>p q cs. L p = Some (q, cs) \<longrightarrow>
        cs = (if p = root_hash then {} else {h. \<exists>ds. L h = Some (p, ds)}) \<and>
        (q = root_hash \<or> L q \<noteq> None))"

definition radix_wf :: "radix_tree \<Rightarrow> bool" where
  "radix_wf t \<longleftrightarrow> distinct (map fst (rx_nodes t)) \<and> links_ok (rx_root_children t) (links t)"

text \<open>A permutation of the entries: what any iteration order of the map is.\<close>

definition iteration_order :: "('a list \<Rightarrow> 'a list) \<Rightarrow> bool" where
  "iteration_order iter \<longleftrightarrow> (\<forall>xs. mset (iter xs) = mset xs)"

text \<open>The trees reachable from an empty one by operations in any order; \<open>disc\<close> is a discipline on what
  callers insert, \<open>\<lambda>_. True\<close> for none.\<close>

inductive radix_run :: "nat \<Rightarrow> (prefix_block list \<Rightarrow> bool) \<Rightarrow> radix_tree \<Rightarrow> bool"
  for bs :: nat and disc :: "prefix_block list \<Rightarrow> bool" where
  New: "radix_run bs disc (radix_new bs)"
| Insert: "radix_run bs disc t \<Longrightarrow> disc prefix \<Longrightarrow> radix_run bs disc (radix_insert t prefix)"
| Incr: "radix_run bs disc t \<Longrightarrow> radix_run bs disc (incr_ref_chain t hs)"
| Decr: "radix_run bs disc t \<Longrightarrow> radix_run bs disc (decr_ref_chain t hs)"
| Pin: "radix_run bs disc t \<Longrightarrow> radix_run bs disc (pin_chain t hs)"
| Unpin: "radix_run bs disc t \<Longrightarrow> radix_run bs disc (unpin_chain t hs)"
| Evict: "radix_run bs disc t \<Longrightarrow> iteration_order iter \<Longrightarrow>
          evict_unreferenced_entries iter t k = Some (es, t') \<Longrightarrow> radix_run bs disc t'"

text \<open>The discipline of a caller that keeps a snapshot exactly at every retention boundary. Chained
  hashes determine their position, \<open>depth h\<close> blocks from the start.\<close>

definition retention_discipline :: "(block_hash \<Rightarrow> nat) \<Rightarrow> nat \<Rightarrow> nat \<Rightarrow> prefix_block list \<Rightarrow> bool" where
  "retention_discipline depth bs retention prefix \<longleftrightarrow>
     (\<forall>i < length prefix.
        depth (pb_hash (prefix ! i)) = Suc i \<and>
        (pb_gdn_snapshot (prefix ! i) \<noteq> None \<longleftrightarrow> retention dvd Suc i * bs))"

text \<open>What that discipline makes of every cached node.\<close>

definition retained_nodes :: "(block_hash \<Rightarrow> nat) \<Rightarrow> nat \<Rightarrow> nat \<Rightarrow> radix_tree \<Rightarrow> bool" where
  "retained_nodes depth bs retention t \<longleftrightarrow> rx_block_size t = bs \<and>
     (\<forall>h n. get_node t h = Some n \<longrightarrow>
        nd_token_end n = depth h * bs mod 2 ^ 32 \<and>
        (nd_gdn_snapshot n \<noteq> None \<longleftrightarrow> retention dvd depth h * bs))"

text \<open>Two nodes that differ at most in their child links.\<close>

definition same_but_children :: "node \<Rightarrow> node \<Rightarrow> bool" where
  "same_but_children m m' \<longleftrightarrow>
     nd_parent m' = nd_parent m \<and> nd_block m' = nd_block m \<and> nd_token_end m' = nd_token_end m \<and>
     nd_gdn_snapshot m' = nd_gdn_snapshot m \<and> nd_ref_count m' = nd_ref_count m \<and>
     nd_pinned m' = nd_pinned m \<and> nd_last_used m' = nd_last_used m"

text \<open>What one eviction call is allowed to do: a sequence of removals, each of an unreferenced,
  unpinned leaf that is least recently used among those present at that point.\<close>

inductive evicts :: "radix_tree \<Rightarrow> evicted_prefix list \<Rightarrow> radix_tree \<Rightarrow> bool" where
  Done: "evicts t [] t"
| More: "get_node t h = Some n \<Longrightarrow> evictable (h, n) \<Longrightarrow>
         \<forall>k m. get_node t k = Some m \<longrightarrow> evictable (k, m) \<longrightarrow> nd_last_used n \<le> nd_last_used m \<Longrightarrow>
         evicts (unlink_node h n t) es t' \<Longrightarrow>
         evicts t (\<lparr>ev_hash = h, ev_block = nd_block n\<rparr> # es) t'"

text \<open>The views the index contract below is stated over: cached hashes, hashes protected from eviction,
  and one eviction call under some iteration order.\<close>

definition radix_cached :: "radix_tree \<Rightarrow> block_hash set" where
  "radix_cached t = {h. radix_contains t h}"

definition radix_held :: "radix_tree \<Rightarrow> block_hash set" where
  "radix_held t = {h. 0 < ref_count t h \<or> is_pinned t h}"

definition radix_evict_call :: "radix_tree \<Rightarrow> nat \<Rightarrow> block_hash list \<Rightarrow> radix_tree \<Rightarrow> bool" where
  "radix_evict_call t k hs t' \<longleftrightarrow> (\<exists>iter es. iteration_order iter \<and>
     evict_unreferenced_entries iter t k = Some (es, t') \<and> hs = map ev_hash es)"

section \<open>The index contract\<close>

locale prefix_index =
  fixes inv :: "'t \<Rightarrow> bool"
    and cached :: "'t \<Rightarrow> 'h set"
    and held :: "'t \<Rightarrow> 'h set"
    and key :: "'b \<Rightarrow> 'h"
    and ins :: "'t \<Rightarrow> 'b list \<Rightarrow> 't"
    and evict :: "'t \<Rightarrow> nat \<Rightarrow> 'h list \<Rightarrow> 't \<Rightarrow> bool"
  assumes ins_inv: "inv t \<Longrightarrow> inv (ins t bs)"
    and ins_cached: "inv t \<Longrightarrow> cached (ins t bs) = cached t \<union> key ` set bs"
    and ins_held: "inv t \<Longrightarrow> held (ins t bs) = held t"
    and evict_inv: "inv t \<Longrightarrow> evict t k hs t' \<Longrightarrow> inv t'"
    and evict_cached: "inv t \<Longrightarrow> evict t k hs t' \<Longrightarrow> cached t' = cached t - set hs"
    and evict_from: "inv t \<Longrightarrow> evict t k hs t' \<Longrightarrow> distinct hs \<and> set hs \<subseteq> cached t - held t"
    and evict_held: "inv t \<Longrightarrow> evict t k hs t' \<Longrightarrow> held t' = held t"
    and evict_most: "inv t \<Longrightarrow> evict t k hs t' \<Longrightarrow> length hs \<le> k"
begin

text \<open>Publishing a chain and trimming the index afterwards never loses a held hash, and what is
  trimmed is exactly what the eviction reports.\<close>

lemma publish_keeps_held:
  assumes "inv t" and "evict (ins t bs) k hs t'"
  shows "held t \<inter> cached t \<subseteq> cached t'" and "inv t'" and "held t' = held t"
  using ins_inv [OF assms(1), of bs] ins_cached [OF assms(1), of bs] ins_held [OF assms(1), of bs]
    evict_inv [OF _ assms(2)] evict_cached [OF _ assms(2)] evict_from [OF _ assms(2)]
    evict_held [OF _ assms(2)] by auto

lemma publish_size:
  assumes "inv t" and "evict (ins t bs) k hs t'" and "finite (cached t)"
  shows "card (cached t') = card (cached t \<union> key ` set bs) - length hs"
proof -
  have inv: "inv (ins t bs)" using assms(1) by (rule ins_inv)
  have hs: "distinct hs" "set hs \<subseteq> cached (ins t bs)" using evict_from [OF inv assms(2)] by auto
  have "cached t' = (cached t \<union> key ` set bs) - set hs"
    using evict_cached [OF inv assms(2)] ins_cached [OF assms(1)] by simp
  then show ?thesis
    using hs ins_cached [OF assms(1), of bs] by (simp add: card_Diff_subset distinct_card)
qed

end

section \<open>Single-node updates\<close>

lemma get_modify_node [simp]:
  "get_node (modify_node h f t) = (\<lambda>k. if k = h then map_option f (get_node t h) else get_node t k)"
  by (auto simp: modify_node_def map_of_map_entry fun_eq_iff split: option.splits)

lemma map_fst_map_entry: "map fst (AList.map_entry k f xs) = map fst xs"
  by (induction xs) auto

lemma keys_modify_node [simp]: "map fst (rx_nodes (modify_node h f t)) = map fst (rx_nodes t)"
  by (simp add: modify_node_def map_fst_map_entry)

lemma modify_node_fields [simp]:
  "rx_block_size (modify_node h f t) = rx_block_size t"
  "rx_root_children (modify_node h f t) = rx_root_children t"
  "rx_clock (modify_node h f t) = rx_clock t"
  by (simp_all add: modify_node_def)

lemma map_of_delete_distinct: "map_of (AList.delete h xs) = (\<lambda>k. if k = h then None else map_of xs k)"
  by (auto simp: delete_conv' fun_eq_iff)

lemma get_insert_vacant:
  assumes "get_node t (pb_hash pb) = None" and "parent \<noteq> pb_hash pb"
  shows "get_node (insert_vacant parent te pb t) = (\<lambda>k.
     if k = pb_hash pb then Some (new_node parent te pb)
     else if k = parent \<and> parent \<noteq> root_hash
       then map_option (\<lambda>n. n\<lparr>nd_children := insert (pb_hash pb) (nd_children n)\<rparr>) (get_node t k)
     else get_node t k)"
  using assms by (auto simp: insert_vacant_def map_add_def fun_eq_iff Let_def split: option.splits)

lemma get_unlink_node:
  "get_node (unlink_node h n t) = (\<lambda>k. if k = h then None
     else if k = nd_parent n \<and> nd_parent n \<noteq> root_hash
       then map_option (\<lambda>p. p\<lparr>nd_children := nd_children p - {h}\<rparr>) (get_node t k)
     else get_node t k)"
  by (auto simp: unlink_node_def Let_def map_of_delete_distinct fun_eq_iff)

section \<open>Every operation keeps the invariant\<close>

lemma wf_modify_links:
  assumes "radix_wf t" and "\<And>n. nd_parent (f n) = nd_parent n" "\<And>n. nd_children (f n) = nd_children n"
  shows "radix_wf (modify_node h f t)"
proof -
  have "links (modify_node h f t) = links t"
    using assms(2,3) by (auto simp: links_def fun_eq_iff option.map_comp o_def)
  then show ?thesis using assms(1) by (simp add: radix_wf_def)
qed

lemma wf_fold_modify:
  assumes "radix_wf t" and "\<And>n. nd_parent (f n) = nd_parent n" "\<And>n. nd_children (f n) = nd_children n"
  shows "radix_wf (fold (\<lambda>h. modify_node h f) hs t)"
  using assms(1) by (induction hs arbitrary: t) (simp_all add: wf_modify_links assms(2,3))

lemma links_ok_parent: "links_ok roots L \<Longrightarrow> L k = Some (q, cs) \<Longrightarrow> q \<noteq> root_hash \<Longrightarrow> L q \<noteq> None"
  unfolding links_ok_def by blast

lemma links_ok_children:
  assumes "links_ok roots L" and "L h = Some (q, cs)" and "c \<in> cs"
  shows "\<exists>ds. L c = Some (h, ds)"
proof -
  have "cs = (if h = root_hash then {} else {k. \<exists>ds. L k = Some (h, ds)})"
    using assms(1,2) unfolding links_ok_def by blast
  then show ?thesis using assms(3) by (simp split: if_splits)
qed

lemma links_ok_leaf:
  "links_ok roots L \<Longrightarrow> L h = Some (q, {}) \<Longrightarrow> h \<noteq> root_hash \<Longrightarrow> L k \<noteq> Some (h, ds)"
  unfolding links_ok_def by (metis (mono_tags, lifting) empty_iff mem_Collect_eq)

lemma links_ok_insert:
  assumes "links_ok roots L" and "L h = None" and "q = root_hash \<or> L q \<noteq> None"
  shows "links_ok (if q = root_hash then insert h roots else roots)
     (\<lambda>k. if k = h then Some (q, {})
          else if k = q \<and> q \<noteq> root_hash then map_option (\<lambda>(p, cs). (p, insert h cs)) (L k)
          else L k)"
    (is "links_ok _ ?L")
proof -
  have fresh: "q \<noteq> root_hash \<Longrightarrow> q \<noteq> h" using assms(2,3) by auto
  have parent: "(\<exists>ds. ?L k = Some (p, ds)) \<longleftrightarrow> (if k = h then p = q else \<exists>ds. L k = Some (p, ds))" for k p
    by auto
  have nokids: "L k \<noteq> Some (h, ds)" if "h \<noteq> root_hash" for k ds
    using links_ok_parent [OF assms(1) _ that] assms(2) by blast
  have some: "L k \<noteq> None \<Longrightarrow> ?L k \<noteq> None" for k by auto
  show ?thesis
    unfolding links_ok_def parent
  proof (intro conjI allI impI)
    show "(if q = root_hash then insert h roots else roots) =
        {k. if k = h then root_hash = q else \<exists>cs. L k = Some (root_hash, cs)}"
      using assms(1,2) by (auto simp: links_ok_def)
  next
    fix p r cs assume L: "?L p = Some (r, cs)"
    show "cs = (if p = root_hash then {} else {k. if k = h then p = q else \<exists>ds. L k = Some (p, ds)})"
      using L assms(1,2) nokids fresh by (auto simp: links_ok_def split: if_splits)
    show "r = root_hash \<or> ?L r \<noteq> None"
      using L assms(1,3) some by (auto simp: links_ok_def split: if_splits)
  qed
qed

lemma links_ok_delete:
  assumes "links_ok roots L" and "L h = Some (q, {})"
  shows "links_ok (if q = root_hash then roots - {h} else roots)
     (\<lambda>k. if k = h then None
          else if k = q \<and> q \<noteq> root_hash then map_option (\<lambda>(p, cs). (p, cs - {h})) (L k)
          else L k)"
    (is "links_ok _ ?L")
proof -
  have parent: "(\<exists>ds. ?L k = Some (p, ds)) \<longleftrightarrow> k \<noteq> h \<and> (\<exists>ds. L k = Some (p, ds))" for k p
    by auto
  have nokids: "L k \<noteq> Some (h, ds)" if "h \<noteq> root_hash" for k ds
    using links_ok_leaf [OF assms that] .
  have some: "L k \<noteq> None \<Longrightarrow> k \<noteq> h \<Longrightarrow> ?L k \<noteq> None" for k by auto
  show ?thesis
    unfolding links_ok_def parent
  proof (intro conjI allI impI)
    show "(if q = root_hash then roots - {h} else roots) =
        {k. k \<noteq> h \<and> (\<exists>cs. L k = Some (root_hash, cs))}"
      using assms by (auto simp: links_ok_def)
  next
    fix p r cs assume L: "?L p = Some (r, cs)"
    show "cs = (if p = root_hash then {} else {k. k \<noteq> h \<and> (\<exists>ds. L k = Some (p, ds))})"
      using L assms by (auto simp: links_ok_def split: if_splits)
    have p: "\<exists>ds. L p = Some (r, ds)" using parent [of p r] L by blast
    show "r = root_hash \<or> ?L r \<noteq> None"
    proof (cases "r = root_hash")
      case False
      with p have "L r \<noteq> None" using links_ok_parent [OF assms(1)] by blast
      moreover have "r \<noteq> h" using False p nokids by blast
      ultimately show ?thesis using some by blast
    qed simp
  qed
qed

lemma wf_insert_vacant:
  assumes wf: "radix_wf t" and parent: "q = root_hash \<or> get_node t q \<noteq> None"
  shows "radix_wf (insert_vacant q te pb t)"
proof (cases "get_node t (pb_hash pb)")
  case (Some n)
  then show ?thesis using wf by (simp add: insert_vacant_def)
next
  case None
  let ?t = "insert_vacant q te pb t"
  have ne: "pb_hash pb \<notin> fst ` set (rx_nodes t)" using None by (simp add: map_of_eq_None_iff)
  have keys: "distinct (map fst (rx_nodes ?t))"
    using wf None ne by (auto simp: insert_vacant_def radix_wf_def Let_def)
  have roots: "rx_root_children ?t =
      (if q = root_hash then insert (pb_hash pb) (rx_root_children t) else rx_root_children t)"
    using None by (simp add: insert_vacant_def Let_def)
  have L: "links ?t = (\<lambda>k. if k = pb_hash pb then Some (q, {})
      else if k = q \<and> q \<noteq> root_hash then map_option (\<lambda>(p, cs). (p, insert (pb_hash pb) cs)) (links t k)
      else links t k)"
    using None parent
    by (auto simp: insert_vacant_def links_def fun_eq_iff Let_def new_node_def option.map_comp o_def
        map_add_def split: option.splits)
  show ?thesis
    unfolding radix_wf_def L roots
    using keys links_ok_insert [of "rx_root_children t" "links t" "pb_hash pb" q] wf None parent
    by (auto simp: radix_wf_def links_def)
qed

lemma insert_vacant_present: "get_node (insert_vacant q te pb t) (pb_hash pb) \<noteq> None"
  by (auto simp: insert_vacant_def Let_def map_add_def split: option.splits)

lemma insert_vacant_keeps: "get_node t h \<noteq> None \<Longrightarrow> get_node (insert_vacant q te pb t) h \<noteq> None"
  by (auto simp: insert_vacant_def Let_def map_add_def split: option.splits)

lemma wf_insert_loop:
  "radix_wf t \<Longrightarrow> q = root_hash \<or> get_node t q \<noteq> None \<Longrightarrow> radix_wf (insert_loop q ts pbs t)"
  by (induction q ts pbs t rule: insert_loop.induct)
    (simp_all add: Let_def wf_insert_vacant insert_vacant_present del: not_None_eq)

lemma wf_unlink_node:
  assumes wf: "radix_wf t" and n: "get_node t h = Some n" and leaf: "nd_children n = {}"
  shows "radix_wf (unlink_node h n t)"
proof -
  have keys: "distinct (map fst (rx_nodes (unlink_node h n t)))"
    using wf by (simp add: unlink_node_def radix_wf_def Let_def distinct_delete)
  have roots: "rx_root_children (unlink_node h n t) =
      (if nd_parent n = root_hash then rx_root_children t - {h} else rx_root_children t)"
    by (simp add: unlink_node_def Let_def)
  have L: "links (unlink_node h n t) = (\<lambda>k. if k = h then None
      else if k = nd_parent n \<and> nd_parent n \<noteq> root_hash then map_option (\<lambda>(p, cs). (p, cs - {h})) (links t k)
      else links t k)"
    by (auto simp: links_def get_unlink_node fun_eq_iff option.map_comp o_def)
  show ?thesis
    unfolding radix_wf_def L roots
    using keys links_ok_delete [of "rx_root_children t" "links t" h "nd_parent n"] wf n leaf
    by (auto simp: radix_wf_def links_def)
qed

section \<open>Eviction\<close>

lemma min_by_key_Some:
  "min_by_key k xs = Some x \<Longrightarrow> x \<in> set xs \<and> (\<forall>y \<in> set xs. k x \<le> k y)"
proof (induction xs arbitrary: x)
  case (Cons a xs)
  show ?case
  proof (cases "min_by_key k xs")
    case None
    then have "xs = []" by (cases xs) (auto split: option.splits if_splits)
    with Cons.prems show ?thesis by simp
  next
    case (Some y)
    with Cons.IH [OF Some] Cons.prems show ?thesis by (auto split: if_splits)
  qed
qed simp

lemma min_by_key_None [simp]: "min_by_key k xs = None \<longleftrightarrow> xs = []"
  by (cases xs) (auto split: option.splits if_splits)

lemma evict_candidate_Some:
  assumes "iteration_order iter" and "radix_wf t" and "evict_candidate iter t = Some h"
  shows "\<exists>n. get_node t h = Some n \<and> evictable (h, n) \<and>
           (\<forall>k m. get_node t k = Some m \<longrightarrow> evictable (k, m) \<longrightarrow> nd_last_used n \<le> nd_last_used m)"
proof -
  have same: "set (iter (rx_nodes t)) = set (rx_nodes t)"
    using assms(1) by (metis iteration_order_def set_mset_mset)
  have dist: "distinct (map fst (rx_nodes t))" using assms(2) by (simp add: radix_wf_def)
  obtain n where min: "min_by_key (\<lambda>e. nd_last_used (snd e)) (filter evictable (iter (rx_nodes t))) = Some (h, n)"
    using assms(3) by (auto simp: evict_candidate_def)
  from min_by_key_Some [OF min] show ?thesis
    using dist by (auto simp: same dest: map_of_SomeD)
qed

lemma evict_candidate_None:
  assumes "iteration_order iter" and "evict_candidate iter t = None" and "get_node t h = Some n"
  shows "\<not> evictable (h, n)"
proof -
  have "set (iter (rx_nodes t)) = set (rx_nodes t)"
    using assms(1) by (metis iteration_order_def set_mset_mset)
  then show ?thesis
    using assms(2,3) by (auto simp: evict_candidate_def filter_empty_conv dest: map_of_SomeD)
qed

lemma evict_loop_evicts:
  assumes "iteration_order iter" and "radix_wf t"
  shows "\<exists>es t'. evict_loop iter k t acc = Some (acc @ es, t') \<and> evicts t es t' \<and> length es \<le> k \<and>
     (length es < k \<longrightarrow> (\<forall>h n. get_node t' h = Some n \<longrightarrow> \<not> evictable (h, n)))"
  using assms(2)
proof (induction k arbitrary: t acc)
  case 0
  then show ?case by (intro exI [of _ "[]"] exI [of _ t]) (auto intro: evicts.Done)
next
  case (Suc k)
  show ?case
  proof (cases "evict_candidate iter t")
    case None
    then show ?thesis
      using evict_candidate_None [OF assms(1) None]
      by (intro exI [of _ "[]"] exI [of _ t]) (auto intro: evicts.Done)
  next
    case (Some h)
    then obtain n where n: "get_node t h = Some n" "evictable (h, n)"
      "\<forall>k m. get_node t k = Some m \<longrightarrow> evictable (k, m) \<longrightarrow> nd_last_used n \<le> nd_last_used m"
      using evict_candidate_Some [OF assms(1) Suc.prems] by blast
    let ?e = "\<lparr>ev_hash = h, ev_block = nd_block n\<rparr>"
    have "radix_wf (unlink_node h n t)"
      using Suc.prems n by (intro wf_unlink_node) (simp_all add: evictable_def)
    from Suc.IH [OF this, of "acc @ [?e]"] obtain es t' where
      "evict_loop iter k (unlink_node h n t) (acc @ [?e]) = Some ((acc @ [?e]) @ es, t')"
      "evicts (unlink_node h n t) es t'" "length es \<le> k"
      "length es < k \<longrightarrow> (\<forall>h n. get_node t' h = Some n \<longrightarrow> \<not> evictable (h, n))" by blast
    with Some n show ?thesis
      by (intro exI [of _ "?e # es"] exI [of _ t']) (auto intro: evicts.More)
  qed
qed

lemma evicts_wf: "evicts t es t' \<Longrightarrow> radix_wf t \<Longrightarrow> radix_wf t'"
  by (induction rule: evicts.induct) (simp_all add: wf_unlink_node evictable_def)

text \<open>A removal changes nothing of the other nodes but a child link.\<close>

lemma unlink_others:
  "get_node (unlink_node h n t) k = Some m' \<Longrightarrow>
   k \<noteq> h \<and> (\<exists>m. get_node t k = Some m \<and> same_but_children m m')"
  by (auto simp: get_unlink_node same_but_children_def split: if_splits)

lemma evicts_result:
  "evicts t es t' \<Longrightarrow> get_node t' k = Some m' \<Longrightarrow>
   k \<notin> ev_hash ` set es \<and> (\<exists>m. get_node t k = Some m \<and> same_but_children m m')"
proof (induction arbitrary: m' rule: evicts.induct)
  case (Done t)
  then show ?case by (simp add: same_but_children_def)
next
  case (More t h n es t')
  then obtain m where m: "k \<notin> ev_hash ` set es" "get_node (unlink_node h n t) k = Some m"
    "same_but_children m m'" by blast
  with unlink_others [OF m(2)] show ?case by (auto simp: same_but_children_def)
qed

lemma evicts_dom:
  "evicts t es t' \<Longrightarrow> get_node t k \<noteq> None \<Longrightarrow> k \<notin> ev_hash ` set es \<Longrightarrow> get_node t' k \<noteq> None"
proof (induction rule: evicts.induct)
  case (More t h n es t')
  then have "get_node (unlink_node h n t) k \<noteq> None" by (auto simp: get_unlink_node)
  with More show ?case by simp
qed simp

lemma evicts_entries:
  "evicts t es t' \<Longrightarrow> distinct (map ev_hash es) \<and>
   (\<forall>e \<in> set es. \<exists>n. get_node t (ev_hash e) = Some n \<and> nd_block n = ev_block e \<and>
      nd_ref_count n = 0 \<and> \<not> nd_pinned n)"
proof (induction rule: evicts.induct)
  case (Done t)
  then show ?case by simp
next
  case (More t h n es t')
  have old: "ev_hash e \<noteq> h \<and> (\<exists>m. get_node t (ev_hash e) = Some m \<and> nd_block m = ev_block e \<and>
      nd_ref_count m = 0 \<and> \<not> nd_pinned m)" if "e \<in> set es" for e
  proof -
    from More.IH that obtain m' where m': "get_node (unlink_node h n t) (ev_hash e) = Some m'"
      "nd_block m' = ev_block e" "nd_ref_count m' = 0" "\<not> nd_pinned m'" by blast
    with unlink_others [OF m'(1)] show ?thesis by (auto simp: same_but_children_def)
  qed
  with More.IH More.hyps(1,2) show ?case by (auto simp: evictable_def)
qed

section \<open>Lookup\<close>

text \<open>The nodes a lookup walks: the longest prefix of the query that is cached.\<close>

lemma match_loop_takeWhile:
  "match_loop t hs r = fold (\<lambda>h. match_node h (the (get_node t h))) (takeWhile (radix_contains t) hs) r"
  by (induction t hs r rule: match_loop.induct)
    (auto simp: radix_contains_def split: option.splits)

lemma match_fold_fields:
  assumes "r' = fold (\<lambda>h. match_node h (N h)) hs r"
  shows "pm_blocks r' = pm_blocks r @ map (\<lambda>h. nd_block (N h)) hs"
    and "pm_matched_hash r' = (if hs = [] then pm_matched_hash r else Some (last hs))"
    and "pm_matched_tokens r' = (if hs = [] then pm_matched_tokens r else nd_token_end (N (last hs)))"
    and "pm_gdn_matched_tokens r' = (let ss = filter (\<lambda>h. nd_gdn_snapshot (N h) \<noteq> None) hs
           in if ss = [] then pm_gdn_matched_tokens r else nd_token_end (N (last ss)))"
    and "pm_gdn_snapshot r' = (let ss = filter (\<lambda>h. nd_gdn_snapshot (N h) \<noteq> None) hs
           in if ss = [] then pm_gdn_snapshot r else nd_gdn_snapshot (N (last ss)))"
    and "pm_gdn_snapshot_hash r' = (let ss = filter (\<lambda>h. nd_gdn_snapshot (N h) \<noteq> None) hs
           in if ss = [] then pm_gdn_snapshot_hash r else Some (last ss))"
  unfolding assms
  by (induction hs arbitrary: r) (auto simp: match_node_def Let_def split: option.splits)

section \<open>Insertion\<close>

lemma insert_vacant_existing:
  "get_node t h = Some n \<Longrightarrow> \<exists>n'. get_node (insert_vacant q te pb t) h = Some n' \<and> same_but_children n n'"
  by (auto simp: insert_vacant_def Let_def map_add_def same_but_children_def split: option.splits)

lemma insert_vacant_new:
  "get_node t (pb_hash pb) = None \<Longrightarrow>
   \<exists>n'. get_node (insert_vacant q te pb t) (pb_hash pb) = Some n' \<and> same_but_children (new_node q te pb) n'"
  by (auto simp: insert_vacant_def Let_def map_add_def same_but_children_def split: option.splits)

lemma insert_vacant_other:
  "h \<noteq> pb_hash pb \<Longrightarrow> get_node t h = None \<Longrightarrow> get_node (insert_vacant q te pb t) h = None"
  by (auto simp: insert_vacant_def Let_def map_add_def split: option.splits)

lemma insert_vacant_block_size [simp]: "rx_block_size (insert_vacant q te pb t) = rx_block_size t"
  by (auto simp: insert_vacant_def Let_def split: option.splits)

lemma same_but_children_refl [simp]: "same_but_children n n"
  by (simp add: same_but_children_def)

lemma same_but_children_trans: "same_but_children a b \<Longrightarrow> same_but_children b c \<Longrightarrow> same_but_children a c"
  by (simp add: same_but_children_def)

lemma insert_loop_existing:
  "get_node t h = Some n \<Longrightarrow> \<exists>n'. get_node (insert_loop q ts pbs t) h = Some n' \<and> same_but_children n n'"
proof (induction q ts pbs t arbitrary: n rule: insert_loop.induct)
  case (2 q ts pb pbs t)
  obtain m where "get_node (insert_vacant q (wadd 32 ts (rx_block_size t)) pb t) h = Some m"
    "same_but_children n m" using insert_vacant_existing [OF 2(2)] by blast
  with 2(1) [OF refl, of m] show ?case by (auto simp: Let_def intro: same_but_children_trans)
qed simp

lemma insert_loop_present:
  "pb \<in> set pbs \<Longrightarrow> get_node (insert_loop q ts pbs t) (pb_hash pb) \<noteq> None"
proof (induction q ts pbs t rule: insert_loop.induct)
  case (2 q ts p pbs t)
  show ?case
  proof (cases "pb = p")
    case True
    then show ?thesis
      using insert_vacant_present [of q "wadd 32 ts (rx_block_size t)" p t]
        insert_loop_existing [of "insert_vacant q (wadd 32 ts (rx_block_size t)) p t" "pb_hash p"]
      by (fastforce simp: Let_def)
  next
    case False
    then show ?thesis using 2 by (simp add: Let_def)
  qed
qed simp

lemma insert_loop_new:
  assumes "pb \<in> set pbs" and "get_node t (pb_hash pb) = None" and "distinct (map pb_hash pbs)"
  shows "\<exists>n q' te. get_node (insert_loop q ts pbs t) (pb_hash pb) = Some n \<and>
           same_but_children (new_node q' te pb) n"
  using assms
proof (induction q ts pbs t rule: insert_loop.induct)
  case (2 q ts p pbs t)
  let ?t = "insert_vacant q (wadd 32 ts (rx_block_size t)) p t"
  show ?case
  proof (cases "pb = p")
    case True
    with 2 obtain n where n: "get_node ?t (pb_hash pb) = Some n"
      "same_but_children (new_node q (wadd 32 ts (rx_block_size t)) pb) n"
      using insert_vacant_new [of t p q "wadd 32 ts (rx_block_size t)"] by auto
    with insert_loop_existing [OF n(1)] show ?thesis
      by (fastforce simp: Let_def intro: same_but_children_trans)
  next
    case False
    with 2 have "pb \<in> set pbs" by simp
    moreover from this have "pb_hash pb \<noteq> pb_hash p"
      using 2(4) by (metis distinct.simps(2) imageI list.set_map list.simps(9))
    ultimately show ?thesis using 2 insert_vacant_other [of "pb_hash pb" p t] by (simp add: Let_def)
  qed
qed simp

lemma decr_ref_node_fields [simp]:
  "nd_parent (decr_ref_node c n) = nd_parent n" "nd_children (decr_ref_node c n) = nd_children n"
  "nd_token_end (decr_ref_node c n) = nd_token_end n"
  "nd_gdn_snapshot (decr_ref_node c n) = nd_gdn_snapshot n"
  "nd_block (decr_ref_node c n) = nd_block n"
  by (simp_all add: decr_ref_node_def Let_def)

lemma wf_radix_insert: "radix_wf t \<Longrightarrow> radix_wf (radix_insert t prefix)"
  by (simp add: radix_insert_def wf_insert_loop)

lemma wf_decr_ref_chain: "radix_wf t \<Longrightarrow> radix_wf (decr_ref_chain t hs)"
proof -
  assume "radix_wf t"
  moreover have "links (t\<lparr>rx_clock := wadd 64 (rx_clock t) 1\<rparr>) = links t"
    by (simp add: links_def fun_eq_iff)
  ultimately have "radix_wf (t\<lparr>rx_clock := wadd 64 (rx_clock t) 1\<rparr>)" by (simp add: radix_wf_def)
  then show ?thesis unfolding decr_ref_chain_def Let_def by (rule wf_fold_modify) simp_all
qed

lemma radix_run_wf: "radix_run bs disc t \<Longrightarrow> radix_wf t"
proof (induction rule: radix_run.induct)
  case New
  then show ?case by (simp add: radix_wf_def radix_new_def links_ok_def links_def)
next
  case (Evict t iter k es t')
  with evict_loop_evicts [of iter t k "[]"] show ?case
    by (auto simp: evict_unreferenced_entries_def intro: evicts_wf)
qed (auto simp: wf_radix_insert wf_decr_ref_chain incr_ref_chain_def pin_chain_def unpin_chain_def
    intro: wf_fold_modify)

section \<open>The retention discipline\<close>

lemma retained_modify:
  assumes "retained_nodes depth bs R t" and "\<And>n. nd_token_end (f n) = nd_token_end n"
    and "\<And>n. nd_gdn_snapshot (f n) = nd_gdn_snapshot n"
  shows "retained_nodes depth bs R (fold (\<lambda>h. modify_node h f) hs t)"
  using assms(1)
proof (induction hs arbitrary: t)
  case (Cons h hs)
  have "retained_nodes depth bs R (modify_node h f t)"
    using Cons.prems assms(2,3) unfolding retained_nodes_def by (auto split: if_splits) (metis not_None_eq)+
  with Cons.IH show ?case by simp
qed simp

lemma retained_evicts:
  assumes "evicts t es t'" and "retained_nodes depth bs R t"
  shows "retained_nodes depth bs R t'"
proof -
  have "rx_block_size t' = rx_block_size t"
    using assms(1) by (induction rule: evicts.induct) (simp_all add: unlink_node_def Let_def)
  then show ?thesis
    using assms(2) evicts_result [OF assms(1)]
    by (fastforce simp: retained_nodes_def same_but_children_def)
qed

lemma retained_insert_vacant:
  assumes ret: "retained_nodes depth bs R t"
    and tok: "te = depth (pb_hash pb) * bs mod 2 ^ 32"
    and snap: "pb_gdn_snapshot pb \<noteq> None \<longleftrightarrow> R dvd depth (pb_hash pb) * bs"
  shows "retained_nodes depth bs R (insert_vacant q te pb t)"
  unfolding retained_nodes_def
proof (intro conjI allI impI)
  show "rx_block_size (insert_vacant q te pb t) = bs" using ret by (simp add: retained_nodes_def)
next
  fix h n assume n: "get_node (insert_vacant q te pb t) h = Some n"
  consider (old) m where "get_node t h = Some m" "same_but_children m n"
    | (new) "h = pb_hash pb" "same_but_children (new_node q te pb) n"
    using n insert_vacant_existing [of t h _ q te pb] insert_vacant_new [of t pb q te]
      insert_vacant_other [of h pb t q te] by (cases "get_node t h") fastforce+
  then show "nd_token_end n = depth h * bs mod 2 ^ 32" "nd_gdn_snapshot n \<noteq> None \<longleftrightarrow> R dvd depth h * bs"
    using ret tok snap by (cases; auto simp: retained_nodes_def same_but_children_def new_node_def)+
qed

lemma retained_insert_loop:
  assumes "retained_nodes depth bs R t" and "ts = i * bs mod 2 ^ 32"
    and "\<forall>j < length pbs. depth (pb_hash (pbs ! j)) = Suc (i + j) \<and>
           (pb_gdn_snapshot (pbs ! j) \<noteq> None \<longleftrightarrow> R dvd Suc (i + j) * bs)"
  shows "retained_nodes depth bs R (insert_loop q ts pbs t)"
  using assms
proof (induction q ts pbs t arbitrary: i rule: insert_loop.induct)
  case (2 q ts pb pbs t)
  have bs: "rx_block_size t = bs" using 2(2) by (simp add: retained_nodes_def)
  have te: "wadd 32 ts bs = Suc i * bs mod 2 ^ 32"
    using 2(3) by (simp add: wadd_def mod_add_left_eq mod_add_right_eq add.commute)
  have d: "depth (pb_hash pb) = Suc i" "pb_gdn_snapshot pb \<noteq> None \<longleftrightarrow> R dvd Suc i * bs"
    using 2(4) by (auto dest: spec [of _ 0])
  have "retained_nodes depth bs R (insert_vacant q (wadd 32 ts bs) pb t)"
    using 2(2) te d by (intro retained_insert_vacant) simp_all
  moreover have "\<forall>j < length pbs. depth (pb_hash (pbs ! j)) = Suc (Suc i + j) \<and>
           (pb_gdn_snapshot (pbs ! j) \<noteq> None \<longleftrightarrow> R dvd Suc (Suc i + j) * bs)"
  proof (intro allI impI)
    fix j assume "j < length pbs"
    then show "depth (pb_hash (pbs ! j)) = Suc (Suc i + j) \<and>
           (pb_gdn_snapshot (pbs ! j) \<noteq> None \<longleftrightarrow> R dvd Suc (Suc i + j) * bs)"
      using 2(4) [rule_format, of "Suc j"] by simp
  qed
  ultimately show ?case using 2(1) [of "wadd 32 ts bs" "Suc i"] bs te by (simp only: insert_loop.simps Let_def)
qed simp

lemma radix_run_retained:
  "radix_run bs (retention_discipline depth bs R) t \<Longrightarrow> retained_nodes depth bs R t"
proof (induction rule: radix_run.induct)
  case New
  then show ?case by (simp add: retained_nodes_def radix_new_def)
next
  case (Insert t prefix)
  then show ?case
    using retained_insert_loop [of depth bs R t 0 0 prefix root_hash]
    by (simp add: radix_insert_def retention_discipline_def)
next
  case (Decr t hs)
  then have "retained_nodes depth bs R (t\<lparr>rx_clock := wadd 64 (rx_clock t) 1\<rparr>)"
    by (simp add: retained_nodes_def)
  then show ?case unfolding decr_ref_chain_def Let_def by (rule retained_modify) simp_all
next
  case (Evict t iter k es t')
  with evict_loop_evicts [of iter t k "[]"] radix_run_wf [OF Evict(1)] show ?case
    by (auto simp: evict_unreferenced_entries_def intro: retained_evicts)
qed (auto simp: incr_ref_chain_def pin_chain_def unpin_chain_def intro: retained_modify)

text \<open>Among positions \<open>bs, 2 bs, \<dots>, m bs\<close> the last multiple of the retention interval is the retention
  floor of \<open>m bs\<close>.\<close>

lemma last_boundary:
  assumes "0 < R" and "0 < bs" and "bs dvd R"
    and "\<And>i. i < length ms \<Longrightarrow> f (ms ! i) = Suc i * bs"
    and "\<And>i. i < length ms \<Longrightarrow> p (ms ! i) \<longleftrightarrow> R dvd Suc i * bs"
  shows "(if filter p ms = [] then 0 else f (last (filter p ms))) = length ms * bs div R * R"
  using assms(4,5)
proof (induction ms rule: rev_induct)
  case Nil
  then show ?case by simp
next
  case (snoc x xs)
  have f: "f x = Suc (length xs) * bs" and p: "p x \<longleftrightarrow> R dvd Suc (length xs) * bs"
    using snoc.prems [of "length xs"] by (simp_all add: nth_append)
  have ih: "(if filter p xs = [] then 0 else f (last (filter p xs))) = length xs * bs div R * R"
    using snoc.prems by (intro snoc.IH) (metis length_append_singleton less_SucI nth_append)+
  show ?case
  proof (cases "p x")
    case True
    then show ?thesis using f p by simp
  next
    case False
    obtain k where R: "R = bs * k" using assms(3) by blast
    have k: "0 < k" using R assms(1) by (cases k) auto
    have "Suc (length xs) mod k \<noteq> 0"
    proof
      assume "Suc (length xs) mod k = 0"
      then have "k dvd Suc (length xs)" by auto
      then have "R dvd Suc (length xs) * bs" unfolding R by (metis mult.commute mult_dvd_mono dvd_refl)
      with False p show False by simp
    qed
    then have "Suc (length xs) div k = length xs div k" by (simp add: div_Suc)
    then have "Suc (length xs) * bs div R = length xs * bs div R"
      using assms(2) unfolding R by (metis div_mult2_eq mult.commute nonzero_mult_div_cancel_right not_gr_zero)
    with ih False show ?thesis by (simp split: if_splits)
  qed
qed

section \<open>The tree keeps the index contract\<close>

lemma insert_loop_absent:
  "h \<notin> pb_hash ` set pbs \<Longrightarrow> get_node t h = None \<Longrightarrow> get_node (insert_loop q ts pbs t) h = None"
  by (induction q ts pbs t rule: insert_loop.induct) (simp_all add: Let_def insert_vacant_other)

lemma radix_insert_cached: "radix_cached (radix_insert t prefix) = radix_cached t \<union> pb_hash ` set prefix"
proof -
  have "radix_contains (radix_insert t prefix) h \<longleftrightarrow> radix_contains t h \<or> h \<in> pb_hash ` set prefix" for h
    using insert_loop_absent [of h prefix t root_hash 0] insert_loop_existing [of t h _ root_hash 0 prefix]
      insert_loop_present [of _ prefix root_hash 0 t]
    by (cases "get_node t h") (fastforce simp: radix_contains_def radix_insert_def)+
  then show ?thesis by (auto simp: radix_cached_def)
qed

lemma radix_held_node: "h \<in> radix_held t \<longleftrightarrow> (\<exists>n. get_node t h = Some n \<and> (0 < nd_ref_count n \<or> nd_pinned n))"
  by (auto simp: radix_held_def ref_count_def is_pinned_def split: option.splits)

lemma insert_vacant_held: "radix_held (insert_vacant q te pb t) = radix_held t"
proof (rule set_eqI)
  fix h
  show "h \<in> radix_held (insert_vacant q te pb t) \<longleftrightarrow> h \<in> radix_held t"
    using insert_vacant_existing [of t h _ q te pb] insert_vacant_other [of h pb t q te]
      insert_vacant_new [of t pb q te]
    by (cases "get_node t h"; cases "h = pb_hash pb")
      (fastforce simp: radix_held_node same_but_children_def new_node_def)+
qed

lemma radix_insert_held: "radix_held (radix_insert t prefix) = radix_held t"
proof -
  have "radix_held (insert_loop q ts pbs t) = radix_held t" for q ts pbs
    by (induction q ts pbs t rule: insert_loop.induct) (simp_all add: Let_def insert_vacant_held)
  then show ?thesis by (simp add: radix_insert_def)
qed

lemma radix_evict_call_evicts:
  assumes "radix_wf t" and "radix_evict_call t k hs t'"
  shows "\<exists>es. evicts t es t' \<and> hs = map ev_hash es \<and> length es \<le> k"
proof -
  obtain iter es where iter: "iteration_order iter"
    and run: "evict_unreferenced_entries iter t k = Some (es, t')" and hs: "hs = map ev_hash es"
    using assms(2) by (auto simp: radix_evict_call_def)
  from evict_loop_evicts [OF iter assms(1), of k "[]"] run hs show ?thesis
    by (auto simp: evict_unreferenced_entries_def)
qed

lemma evicts_held:
  assumes "evicts t es t'"
  shows "radix_held t' = radix_held t" and "ev_hash ` set es \<inter> radix_held t = {}"
proof -
  have ents: "\<exists>n. get_node t (ev_hash e) = Some n \<and> nd_ref_count n = 0 \<and> \<not> nd_pinned n"
    if "e \<in> set es" for e using evicts_entries [OF assms] that by blast
  show dis: "ev_hash ` set es \<inter> radix_held t = {}"
    using ents by (fastforce simp: radix_held_node)
  show "radix_held t' = radix_held t"
  proof (rule set_eqI)
    fix h show "h \<in> radix_held t' \<longleftrightarrow> h \<in> radix_held t"
    proof
      assume "h \<in> radix_held t'"
      then show "h \<in> radix_held t"
        using evicts_result [OF assms] by (fastforce simp: radix_held_node same_but_children_def)
    next
      assume h: "h \<in> radix_held t"
      then obtain n where n: "get_node t h = Some n" "0 < nd_ref_count n \<or> nd_pinned n"
        by (auto simp: radix_held_node)
      moreover have "h \<notin> ev_hash ` set es" using h dis by blast
      ultimately obtain n' where "get_node t' h = Some n'" using evicts_dom [OF assms, of h] by auto
      with n evicts_result [OF assms this] show "h \<in> radix_held t'"
        by (auto simp: radix_held_node same_but_children_def)
    qed
  qed
qed

lemma evicts_cached:
  assumes "evicts t es t'"
  shows "radix_cached t' = radix_cached t - ev_hash ` set es"
  using evicts_result [OF assms] evicts_dom [OF assms]
  by (fastforce simp: radix_cached_def radix_contains_def)

interpretation rx: prefix_index radix_wf radix_cached radix_held pb_hash radix_insert radix_evict_call
proof unfold_locales
  fix t and bs :: "prefix_block list" assume wf: "radix_wf t"
  show "radix_wf (radix_insert t bs)" using wf by (rule wf_radix_insert)
  show "radix_cached (radix_insert t bs) = radix_cached t \<union> pb_hash ` set bs"
    by (rule radix_insert_cached)
  show "radix_held (radix_insert t bs) = radix_held t" by (rule radix_insert_held)
next
  fix t k hs t' assume wf: "radix_wf t" and "radix_evict_call t k hs t'"
  then obtain es where ev: "evicts t es t'" and hs: "hs = map ev_hash es" and len: "length es \<le> k"
    using radix_evict_call_evicts by blast
  show "radix_wf t'" using ev wf by (rule evicts_wf)
  show "radix_cached t' = radix_cached t - set hs" using evicts_cached [OF ev] hs by simp
  show "distinct hs \<and> set hs \<subseteq> radix_cached t - radix_held t"
    using evicts_entries [OF ev] evicts_held(2) [OF ev] hs
    by (fastforce simp: radix_cached_def radix_contains_def)
  show "radix_held t' = radix_held t" by (rule evicts_held(1) [OF ev])
  show "length hs \<le> k" using hs len by simp
qed

section \<open>Properties\<close>

text \<open>In every tree reachable by any sequence of insertions, reference-count changes, pinning and
  evictions, the links agree in both directions: a cached block's parent is cached and lists it as a
  child, or it is listed under the root, and every listed child is cached and points back. A cached
  chain can therefore never lose its head.\<close>

theorem radix_links_consistent:
  assumes "radix_run bs disc t" and "get_node t h = Some n"
  shows "(if nd_parent n = root_hash then h \<in> rx_root_children t
          else \<exists>p. get_node t (nd_parent n) = Some p \<and> h \<in> nd_children p) \<and>
         (\<forall>c \<in> nd_children n. \<exists>m. get_node t c = Some m \<and> nd_parent m = h)"
proof -
  have ok: "links_ok (rx_root_children t) (links t)"
    using radix_run_wf [OF assms(1)] by (simp add: radix_wf_def)
  have L: "links t h = Some (nd_parent n, nd_children n)" using assms(2) by (simp add: links_def)
  have up: "\<exists>p. get_node t (nd_parent n) = Some p \<and> h \<in> nd_children p" if "nd_parent n \<noteq> root_hash"
  proof -
    from links_ok_parent [OF ok L that] obtain p where p: "get_node t (nd_parent n) = Some p"
      by (auto simp: links_def)
    then have "links t (nd_parent n) = Some (nd_parent p, nd_children p)" by (simp add: links_def)
    with ok L that p show ?thesis unfolding links_ok_def by (metis (mono_tags, lifting) mem_Collect_eq)
  qed
  have "c \<in> nd_children n \<Longrightarrow> \<exists>ds. links t c = Some (h, ds)" for c
    using links_ok_children [OF ok L] .
  then have "c \<in> nd_children n \<Longrightarrow> \<exists>m. get_node t c = Some m \<and> nd_parent m = h" for c
    by (fastforce simp: links_def)
  moreover have "nd_parent n = root_hash \<Longrightarrow> h \<in> rx_root_children t"
    using ok L by (auto simp: links_ok_def)
  ultimately show ?thesis using up by simp
qed

theorem radix_links_consistent_witness:
  "\<exists>p. get_node (radix_insert (radix_new 256) [\<lparr>pb_hash = 7, pb_block = 0, pb_gdn_snapshot = None\<rparr>,
        \<lparr>pb_hash = 9, pb_block = 1, pb_gdn_snapshot = None\<rparr>]) 7 = Some p \<and> 9 \<in> nd_children p"
proof -
  let ?t = "radix_insert (radix_new 256) [\<lparr>pb_hash = 7, pb_block = 0, pb_gdn_snapshot = None\<rparr>,
        \<lparr>pb_hash = 9, pb_block = 1, pb_gdn_snapshot = None\<rparr>]"
  have run: "radix_run 256 (\<lambda>_. True) ?t" by (intro radix_run.Insert radix_run.New) simp
  obtain n where "get_node ?t 9 = Some n" "nd_parent n = 7"
    by (simp add: radix_insert_def radix_new_def insert_vacant_def modify_node_def new_node_def root_hash_def Let_def)
  with radix_links_consistent [OF run, of 9 n] show ?thesis by (auto simp: root_hash_def)
qed

text \<open>C31: A lookup walks exactly the longest cached prefix of the queried chain: the returned blocks are
  those of its nodes in order, the matched length and hash are those of its last node, and the
  reusable recurrent state is the one of the last node on it that retained a snapshot.\<close>

theorem match_prefix_longest_cached:
  "let ms = takeWhile (radix_contains t) hs; ss = filter (\<lambda>h. nd_gdn_snapshot (the (get_node t h)) \<noteq> None) ms;
       r = match_prefix t hs
   in pm_blocks r = map (\<lambda>h. nd_block (the (get_node t h))) ms \<and>
      pm_matched_hash r = (if ms = [] then None else Some (last ms)) \<and>
      pm_matched_tokens r = (if ms = [] then 0 else nd_token_end (the (get_node t (last ms)))) \<and>
      pm_gdn_snapshot_hash r = (if ss = [] then None else Some (last ss)) \<and>
      pm_gdn_snapshot r = (if ss = [] then None else nd_gdn_snapshot (the (get_node t (last ss)))) \<and>
      pm_gdn_matched_tokens r = (if ss = [] then 0 else nd_token_end (the (get_node t (last ss))))"
  using match_fold_fields [OF match_loop_takeWhile [of t hs prefix_match_default]]
  by (simp add: match_prefix_def Let_def prefix_match_default_def)

text \<open>Inserting a chain makes it match in full: a later lookup of the same hashes returns one block
  per inserted entry, the inserted one where the hash was new, the already cached one where it was
  not; nodes that were cached before keep block, position, snapshot, reference count and pin.\<close>

theorem insert_then_match:
  assumes "distinct (map pb_hash prefix)"
  shows "pm_blocks (match_prefix (radix_insert t prefix) (map pb_hash prefix)) =
           map (\<lambda>pb. case get_node t (pb_hash pb) of Some n \<Rightarrow> nd_block n | None \<Rightarrow> pb_block pb) prefix \<and>
         (\<forall>h n. get_node t h = Some n \<longrightarrow>
            (\<exists>n'. get_node (radix_insert t prefix) h = Some n' \<and> same_but_children n n'))"
proof -
  let ?t = "radix_insert t prefix"
  have node: "radix_contains ?t (pb_hash pb) \<and> nd_block (the (get_node ?t (pb_hash pb))) =
      (case get_node t (pb_hash pb) of Some n \<Rightarrow> nd_block n | None \<Rightarrow> pb_block pb)"
    if "pb \<in> set prefix" for pb
    using insert_loop_existing [of t "pb_hash pb" _ root_hash 0 prefix]
      insert_loop_new [OF that _ assms, of t root_hash 0]
    by (cases "get_node t (pb_hash pb)")
      (fastforce simp: radix_insert_def radix_contains_def same_but_children_def new_node_def)+
  have "takeWhile (radix_contains ?t) (map pb_hash prefix) = map pb_hash prefix"
    using node by (simp add: takeWhile_eq_all_conv)
  with match_fold_fields(1) [OF match_loop_takeWhile [of ?t "map pb_hash prefix" prefix_match_default]]
  have "pm_blocks (match_prefix ?t (map pb_hash prefix)) =
      map (\<lambda>h. nd_block (the (get_node ?t h))) (map pb_hash prefix)"
    by (simp add: match_prefix_def prefix_match_default_def)
  also have "\<dots> = map (\<lambda>pb. case get_node t (pb_hash pb) of Some n \<Rightarrow> nd_block n | None \<Rightarrow> pb_block pb) prefix"
    using node by simp
  finally show ?thesis using insert_loop_existing by (simp add: radix_insert_def)
qed

theorem insert_then_match_witness:
  "pm_blocks (match_prefix (radix_insert (radix_new 16) [\<lparr>pb_hash = 5, pb_block = 3, pb_gdn_snapshot = None\<rparr>]) [5]) = [3]"
  using insert_then_match [of "[\<lparr>pb_hash = 5, pb_block = 3, pb_gdn_snapshot = None\<rparr>]" "radix_new 16"]
  by (simp add: radix_new_def)

text \<open>When every inserted chain keeps a snapshot exactly at the retention boundaries, the length a
  lookup reports as reusable for the recurrent state is the retention floor of the matched length,
  the truncation rule of the cache configuration, and the matched length is the number of matched
  blocks times the block size.\<close>

theorem match_prefix_retention_floor:
  assumes "cache_config_new model bs retention elem_size = Inr c"
    and "radix_run bs (retention_discipline depth bs retention) t"
    and "\<forall>i < length hs. depth (hs ! i) = Suc i" and "length hs * bs < 2 ^ 32"
  shows "pm_matched_tokens (match_prefix t hs) = length (takeWhile (radix_contains t) hs) * bs \<and>
         retention_floor c (pm_matched_tokens (match_prefix t hs)) =
           Some (pm_gdn_matched_tokens (match_prefix t hs))"
proof -
  let ?ms = "takeWhile (radix_contains t) hs" and ?N = "\<lambda>h. the (get_node t h)"
  let ?m = "length ?ms" and ?p = "\<lambda>h. nd_gdn_snapshot (?N h) \<noteq> None"
  have ret: "retained_nodes depth bs retention t" using assms(2) by (rule radix_run_retained)
  have le: "?m \<le> length hs" by (rule length_takeWhile_le)
  have depth: "depth (?ms ! i) = Suc i" if "i < ?m" for i
    using that le assms(3) by (simp add: takeWhile_nth)
  have small: "k * bs < 2 ^ 32" if "k \<le> ?m" for k
    using that le assms(4) by (meson le_less_trans mult_le_mono1 order_trans)
  have tok: "nd_token_end (?N (?ms ! i)) = Suc i * bs" and snap: "?p (?ms ! i) \<longleftrightarrow> retention dvd Suc i * bs"
    if "i < ?m" for i
  proof -
    have "radix_contains t (?ms ! i)" using that by (meson nth_mem set_takeWhileD)
    then obtain n where "get_node t (?ms ! i) = Some n" by (auto simp: radix_contains_def)
    with ret depth [OF that] small [of "Suc i"] that
    show "nd_token_end (?N (?ms ! i)) = Suc i * bs" "?p (?ms ! i) \<longleftrightarrow> retention dvd Suc i * bs"
      by (simp_all add: retained_nodes_def)
  qed
  have matched: "pm_matched_tokens (match_prefix t hs) = ?m * bs"
    using match_fold_fields(3) [OF match_loop_takeWhile [of t hs prefix_match_default]] tok [of "?m - 1"]
    by (cases "?ms = []") (simp_all add: match_prefix_def prefix_match_default_def last_conv_nth)
  have r: "0 < retention" "0 < bs" "bs dvd retention" and c: "cc_gdn_retention_interval c = retention"
    using assms(1) by (auto simp: cache_config_new_Inr)
  have "pm_gdn_matched_tokens (match_prefix t hs) =
      (if filter ?p ?ms = [] then 0 else nd_token_end (?N (last (filter ?p ?ms))))"
    using match_fold_fields(4) [OF match_loop_takeWhile [of t hs prefix_match_default]]
    by (simp add: match_prefix_def prefix_match_default_def Let_def del: not_None_eq)
  also have "\<dots> = ?m * bs div retention * retention"
    using tok snap by (rule last_boundary [OF r])
  finally have gdn: "pm_gdn_matched_tokens (match_prefix t hs) = ?m * bs div retention * retention" .
  show ?thesis using matched gdn retention_floor_eq [of c "?m * bs"] small [of ?m] r(1) c by simp
qed

theorem match_prefix_retention_floor_witness:
  "retention_floor \<lparr>cc_model = qwen3_6_35b_a3b, cc_attention_block_size = 4, cc_gdn_retention_interval = 8,
       cc_elem_size = 2\<rparr>
     (pm_matched_tokens (match_prefix (radix_insert (radix_new 4)
        [\<lparr>pb_hash = 11, pb_block = 0, pb_gdn_snapshot = None\<rparr>,
         \<lparr>pb_hash = 12, pb_block = 1, pb_gdn_snapshot = Some 0\<rparr>,
         \<lparr>pb_hash = 13, pb_block = 2, pb_gdn_snapshot = None\<rparr>]) [11, 12, 13])) =
   Some (pm_gdn_matched_tokens (match_prefix (radix_insert (radix_new 4)
        [\<lparr>pb_hash = 11, pb_block = 0, pb_gdn_snapshot = None\<rparr>,
         \<lparr>pb_hash = 12, pb_block = 1, pb_gdn_snapshot = Some 0\<rparr>,
         \<lparr>pb_hash = 13, pb_block = 2, pb_gdn_snapshot = None\<rparr>]) [11, 12, 13]))"
proof -
  let ?p = "[\<lparr>pb_hash = 11, pb_block = 0, pb_gdn_snapshot = None\<rparr>,
         \<lparr>pb_hash = 12, pb_block = 1, pb_gdn_snapshot = Some 0\<rparr>,
         \<lparr>pb_hash = 13, pb_block = 2, pb_gdn_snapshot = None\<rparr>]"
  let ?d = "\<lambda>h :: nat. h - 10"
  have disc: "retention_discipline ?d 4 8 ?p"
    by (simp add: retention_discipline_def All_less_Suc numeral_3_eq_3 numeral_2_eq_2)
  have run: "radix_run 4 (retention_discipline ?d 4 8) (radix_insert (radix_new 4) ?p)"
    using disc by (intro radix_run.Insert radix_run.New)
  have cfg: "cache_config_new qwen3_6_35b_a3b 4 8 2 = Inr \<lparr>cc_model = qwen3_6_35b_a3b,
      cc_attention_block_size = 4, cc_gdn_retention_interval = 8, cc_elem_size = 2\<rparr>"
    by (simp add: cache_config_new_Inr)
  have pos: "\<forall>i < length [11 :: nat, 12, 13]. ?d ([11, 12, 13] ! i) = Suc i" by (simp add: All_less_Suc)
  show ?thesis
    by (rule match_prefix_retention_floor [OF cfg run pos, THEN conjunct2]) simp
qed



text \<open>C25: A block that is referenced or pinned survives any insertion followed by any eviction, and keeps
  its protection, so the chain a running request uses cannot be trimmed away under it.\<close>

theorem held_blocks_survive:
  assumes "radix_run bs disc t" and "radix_contains t h" and "0 < ref_count t h \<or> is_pinned t h"
    and "iteration_order iter" and "evict_unreferenced_entries iter (radix_insert t prefix) k = Some (es, t')"
  shows "radix_contains t' h \<and> (0 < ref_count t' h \<or> is_pinned t' h)"
proof -
  have "radix_evict_call (radix_insert t prefix) k (map ev_hash es) t'"
    using assms(4,5) by (auto simp: radix_evict_call_def)
  note rx.publish_keeps_held [OF radix_run_wf [OF assms(1)] this]
  then show ?thesis using assms(2,3) by (auto simp: radix_cached_def radix_held_def)
qed

theorem held_blocks_survive_witness:
  "\<exists>es t'. evict_unreferenced_entries id (radix_insert (pin_chain (radix_insert (radix_new 16)
      [\<lparr>pb_hash = 5, pb_block = 3, pb_gdn_snapshot = None\<rparr>]) [5]) []) 2 = Some (es, t') \<and>
      radix_contains t' 5"
proof -
  let ?t0 = "radix_insert (radix_new 16) [\<lparr>pb_hash = 5, pb_block = 3, pb_gdn_snapshot = None\<rparr>]"
  let ?t = "pin_chain ?t0 [5]"
  have run: "radix_run 16 (\<lambda>_. True) ?t" by (intro radix_run.Insert radix_run.New radix_run.Pin) simp
  have cont: "radix_contains ?t 5" "is_pinned ?t 5"
    by (simp_all add: pin_chain_def radix_contains_def is_pinned_def radix_insert_def radix_new_def
        insert_vacant_def modify_node_def new_node_def root_hash_def Let_def)
  have ord: "iteration_order (id :: (block_hash \<times> node) list \<Rightarrow> _)" by (simp add: iteration_order_def)
  obtain es t' where ev: "evict_unreferenced_entries id (radix_insert ?t []) 2 = Some (es, t')"
    using evict_loop_evicts [OF ord wf_radix_insert [OF radix_run_wf [OF run]], of 2 "[]" "[]"]
    by (auto simp: evict_unreferenced_entries_def)
  with held_blocks_survive [OF run cont(1) disjI2 [OF cont(2)] ord ev] show ?thesis by blast
qed

end
