(* ===== verification/SchedConfig.thy ===== *)
theory SchedConfig
  imports Prelude Float64
begin

text \<open>
  Scheduler tunables and request types: \<open>crates/xabe-sched/src/config.rs\<close>, \<open>error.rs\<close> and
  \<open>request.rs\<close>. The constructor \<open>sched_config_new\<close> validates; all arithmetic is at 32 bits.
\<close>

datatype sched_config_error =
    BudgetTooSmall nat nat nat
  | ZeroBlockSize
  | WatermarkOutOfRange f64

datatype admission_error =
    InvalidReusablePrefix nat nat
  | ExceedsTotalCapacity nat nat nat
  | BelowWatermark nat nat nat
  | WaitingQueueFull nat

record sched_config =
  sc_token_budget :: nat
  sc_block_size :: nat
  sc_max_concurrent_decodes :: nat
  sc_watermark_fraction :: f64
  sc_draft_tokens_per_step :: nat
  sc_max_waiting_requests :: nat
  sc_prefill_slice :: nat

definition default_draft_tokens_per_step :: nat where
  "default_draft_tokens_per_step = 3"

definition default_watermark_fraction :: f64 where
  "default_watermark_fraction = f64_of_rat (1 / 100)"

definition default_waiting_requests_multiplier :: nat where
  "default_waiting_requests_multiplier = 4"

text \<open>\<open>(0.0..1.0).contains(&w)\<close>\<close>

definition in_unit_range :: "f64 \<Rightarrow> bool" where
  "in_unit_range w = ((f64_less (Finite 0) w \<or> w = Finite 0) \<and> f64_less w (Finite 1))"

definition sched_config_new ::
  "nat \<Rightarrow> nat \<Rightarrow> nat \<Rightarrow> f64 \<Rightarrow> nat \<Rightarrow> sched_config_error + sched_config" where
  "sched_config_new token_budget block_size max_concurrent_decodes watermark_fraction draft_tokens_per_step =
     (if block_size = 0 then Inl ZeroBlockSize
      else if \<not> in_unit_range watermark_fraction then Inl (WatermarkOutOfRange watermark_fraction)
      else if token_budget \<le> wadd 32 block_size max_concurrent_decodes then
        Inl (BudgetTooSmall token_budget block_size max_concurrent_decodes)
      else Inr \<lparr>sc_token_budget = token_budget, sc_block_size = block_size,
        sc_max_concurrent_decodes = max_concurrent_decodes,
        sc_watermark_fraction = watermark_fraction,
        sc_draft_tokens_per_step = draft_tokens_per_step,
        sc_max_waiting_requests = smul 32 max_concurrent_decodes default_waiting_requests_multiplier,
        sc_prefill_slice = 0\<rparr>)"

definition sched_config_with_defaults :: "nat \<Rightarrow> nat \<Rightarrow> nat \<Rightarrow> sched_config_error + sched_config" where
  "sched_config_with_defaults token_budget block_size max_concurrent_decodes =
     sched_config_new token_budget block_size max_concurrent_decodes
       default_watermark_fraction default_draft_tokens_per_step"

definition with_prefill_slice :: "sched_config \<Rightarrow> nat \<Rightarrow> sched_config" where
  "with_prefill_slice c slice = c\<lparr>sc_prefill_slice := slice\<rparr>"

definition tokens_per_decode_step :: "sched_config \<Rightarrow> nat" where
  "tokens_per_decode_step c = wadd 32 1 (sc_draft_tokens_per_step c)"

definition watermark_blocks :: "sched_config \<Rightarrow> nat \<Rightarrow> nat" where
  "watermark_blocks c total_attention_blocks =
     f64_floor_u32 (f64_mul (sc_watermark_fraction c) (f64_of_u32 total_attention_blocks))"

section \<open>Requests and batches\<close>

type_synonym request_id = nat

record new_request =
  nr_id :: request_id
  nr_prompt_tokens :: nat
  nr_max_output_tokens :: nat

definition new_full_seq_len :: "new_request \<Rightarrow> nat" where
  "new_full_seq_len r = sadd 32 (nr_prompt_tokens r) (nr_max_output_tokens r)"

record decode_item =
  di_id :: request_id
  di_tokens :: nat

record prefill_item =
  pi_id :: request_id
  pi_tokens :: nat

record batch_description =
  bd_decodes :: "decode_item list"
  bd_prefills :: "prefill_item list"

definition has_prefill :: "batch_description \<Rightarrow> bool" where
  "has_prefill b = (bd_prefills b \<noteq> [])"

text \<open>\<open>Iterator::sum::<u32>()\<close>, wrapping.\<close>

definition wsum :: "nat list \<Rightarrow> nat" where
  "wsum xs = fold (\<lambda>x acc. wadd 32 acc x) xs 0"

definition total_tokens :: "batch_description \<Rightarrow> nat" where
  "total_tokens b = wadd 32 (wsum (map di_tokens (bd_decodes b))) (wsum (map pi_tokens (bd_prefills b)))"

section \<open>Facts about the configuration\<close>

lemma wsum_mod: "wsum xs = sum_list xs mod 2 ^ 32"
proof -
  have "fold (\<lambda>x acc. wadd 32 acc x) xs a = (a + sum_list xs) mod 2 ^ 32" if "a < 2 ^ 32" for a
    using that
  proof (induction xs arbitrary: a)
    case (Cons x xs)
    then show ?case using Cons.IH [of "wadd 32 a x"] wadd_less [of 32 a x]
      by (simp add: wadd_def mod_add_left_eq add.assoc)
  qed simp
  from this [of 0] show ?thesis by (simp add: wsum_def)
qed

lemma total_tokens_sum:
  assumes "sum_list (map di_tokens (bd_decodes b)) + sum_list (map pi_tokens (bd_prefills b)) < 2 ^ 32"
  shows "total_tokens b = sum_list (map di_tokens (bd_decodes b)) + sum_list (map pi_tokens (bd_prefills b))"
  using assms by (simp add: total_tokens_def wsum_mod wadd_def)

lemma in_unit_range_cases:
  assumes "in_unit_range w"
  obtains q where "w = Finite q" "0 \<le> q" "q < 1"
  using assms by (cases w) (auto simp: in_unit_range_def)

lemma watermark_le_total:
  assumes "in_unit_range (sc_watermark_fraction c)" and "n < 2 ^ 32"
  shows "watermark_blocks c n \<le> n"
proof -
  obtain q where q: "sc_watermark_fraction c = Finite q" "0 \<le> q" "q < 1"
    using assms(1) by (rule in_unit_range_cases)
  have prod: "0 \<le> q * of_nat n" "q * of_nat n \<le> of_nat n"
    using q by (simp_all add: mult_left_le_one_le)
  have r: "f64_round (q * of_nat n) \<le> of_nat n" "0 \<le> f64_round (q * of_nat n)"
    using f64_round_le_int [OF prod] assms(2) by simp_all
  have "nat \<lfloor>f64_round (q * of_nat n)\<rfloor> \<le> n" using r by (simp add: floor_le_iff nat_le_iff)
  moreover have "f64_of_rat (q * of_nat n) \<noteq> PosInf"
  proof
    assume "f64_of_rat (q * of_nat n) = PosInf"
    then have big: "1024 \<le> floor_log2 \<bar>f64_round (q * of_nat n)\<bar>" and pos: "0 < f64_round (q * of_nat n)"
      by (auto simp: f64_of_rat_def Let_def split: if_splits)
    have "(of_nat n :: rat) < of_nat (2 ^ 53)" using assms(2) by (simp only: of_nat_less_iff) simp
    then have "f64_round (q * of_nat n) < pow2 53" using r(1) by (simp add: pow2_def)
    then have "floor_log2 \<bar>f64_round (q * of_nat n)\<bar> < 53" using pos by (intro floor_log2_less) simp_all
    with big show False by simp
  qed
  ultimately show ?thesis
    using q(1) by (auto simp: watermark_blocks_def f64_of_u32_def f64_of_rat_def Let_def split: if_splits)
qed

lemma sched_config_new_Inr:
  "sched_config_new tb bs md w d = Inr c \<longleftrightarrow>
     0 < bs \<and> in_unit_range w \<and> wadd 32 bs md < tb \<and>
     c = \<lparr>sc_token_budget = tb, sc_block_size = bs, sc_max_concurrent_decodes = md,
          sc_watermark_fraction = w, sc_draft_tokens_per_step = d,
          sc_max_waiting_requests = smul 32 md default_waiting_requests_multiplier, sc_prefill_slice = 0\<rparr>"
  by (auto simp: sched_config_new_def)

end
