(* ===== verification/Scheduler.thy ===== *)
theory Scheduler
  imports SchedConfig
begin

text \<open>
  The chunked-prefill scheduler of \<open>crates/xabe-sched/src/scheduler.rs\<close>. \<open>scheduler\<close> is the struct; the
  three phases of \<open>step_into\<close> are the recursions \<open>decode_phase\<close> (over the running list, stopping when
  the budget is short), \<open>prefill_phase\<close> (over the rotated indices) and \<open>admit_phase\<close> (over the
  waiting queue), composed by \<open>step\<close> in the order of the source. Machine arithmetic wraps at 32 bits;
  the invariant \<open>sched_inv\<close> gives the bounds under which it does not.
\<close>

record tracked_request =
  tr_id :: request_id
  tr_prompt_tokens :: nat
  tr_max_output_tokens :: nat
  tr_computed_tokens :: nat
  tr_blocks_reserved :: nat

definition full_seq_len :: "tracked_request \<Rightarrow> nat" where
  "full_seq_len r = wadd 32 (tr_prompt_tokens r) (tr_max_output_tokens r)"

definition is_decode_ready :: "tracked_request \<Rightarrow> bool" where
  "is_decode_ready r = (tr_prompt_tokens r \<le> tr_computed_tokens r)"

record scheduler =
  sd_config :: sched_config
  sd_total_blocks :: nat
  sd_free_blocks :: nat
  sd_waiting :: "tracked_request list"
  sd_running :: "tracked_request list"
  sd_prefill_cursor :: nat

definition admission_reserve_fraction :: nat where
  "admission_reserve_fraction = 2"

definition sched_new :: "sched_config \<Rightarrow> nat \<Rightarrow> scheduler" where
  "sched_new config total_blocks =
     \<lparr>sd_config = config, sd_total_blocks = total_blocks, sd_free_blocks = total_blocks,
      sd_waiting = [], sd_running = [], sd_prefill_cursor = 0\<rparr>"

definition is_running :: "scheduler \<Rightarrow> request_id \<Rightarrow> bool" where
  "is_running s i = list_ex (\<lambda>r. tr_id r = i) (sd_running s)"

definition is_waiting :: "scheduler \<Rightarrow> request_id \<Rightarrow> bool" where
  "is_waiting s i = list_ex (\<lambda>r. tr_id r = i) (sd_waiting s)"

definition reserved_attention_blocks :: "scheduler \<Rightarrow> request_id \<Rightarrow> nat option" where
  "reserved_attention_blocks s i = map_option tr_blocks_reserved (find (\<lambda>r. tr_id r = i) (sd_running s))"

definition advance_request :: "nat \<Rightarrow> tracked_request \<Rightarrow> tracked_request" where
  "advance_request additional r =
     r\<lparr>tr_computed_tokens := min (sadd 32 (tr_computed_tokens r) additional) (full_seq_len r)\<rparr>"

definition advance_speculative :: "scheduler \<Rightarrow> request_id \<Rightarrow> nat \<Rightarrow> bool \<times> scheduler" where
  "advance_speculative s i additional =
     (if \<not> is_running s i then (False, s)
      else (True, s\<lparr>sd_running := update_first (\<lambda>r. tr_id r = i) (advance_request additional) (sd_running s)\<rparr>))"

text \<open>\<open>attention_blocks_needed\<close>; the block size of a constructed configuration is not zero.\<close>

definition blocks_needed :: "sched_config \<Rightarrow> nat \<Rightarrow> nat" where
  "blocks_needed c len = div_ceil (wadd 32 len (sc_draft_tokens_per_step c)) (sc_block_size c)"

definition admission_can_proceed :: "scheduler \<Rightarrow> bool" where
  "admission_can_proceed s =
     (if sc_max_concurrent_decodes (sd_config s) \<le> length (sd_running s) then False
      else case sd_waiting s of
        [] \<Rightarrow> False
      | candidate # _ \<Rightarrow>
          wadd 32 (blocks_needed (sd_config s) (full_seq_len candidate))
                  (watermark_blocks (sd_config s) (sd_total_blocks s)) \<le> sd_free_blocks s)"

definition refusal_for :: "scheduler \<Rightarrow> new_request \<Rightarrow> admission_error option" where
  "refusal_for s req =
     (let len = new_full_seq_len req; needed = blocks_needed (sd_config s) len in
      if sd_total_blocks s < needed then Some (ExceedsTotalCapacity len needed (sd_total_blocks s))
      else if sc_max_waiting_requests (sd_config s) \<le> length (sd_waiting s) mod 2 ^ 32 then
        Some (WaitingQueueFull (sc_max_waiting_requests (sd_config s)))
      else None)"

definition can_admit :: "scheduler \<Rightarrow> new_request \<Rightarrow> bool" where
  "can_admit s req = (refusal_for s req = None)"

definition per_slot_token_ceiling :: "scheduler \<Rightarrow> nat" where
  "per_slot_token_ceiling s =
     (let slots = max (sc_max_concurrent_decodes (sd_config s)) 1;
          share = sd_total_blocks s div slots
      in smul 32 share (sc_block_size (sd_config s)) - sc_draft_tokens_per_step (sd_config s))"

definition track :: "new_request \<Rightarrow> nat \<Rightarrow> tracked_request" where
  "track req computed_prefix = \<lparr>tr_id = nr_id req, tr_prompt_tokens = nr_prompt_tokens req,
     tr_max_output_tokens = nr_max_output_tokens req, tr_computed_tokens = computed_prefix,
     tr_blocks_reserved = 0\<rparr>"

definition admit_with_prefix ::
  "scheduler \<Rightarrow> new_request \<Rightarrow> nat \<Rightarrow> (admission_error + request_id) \<times> scheduler" where
  "admit_with_prefix s req computed_prefix =
     (if nr_prompt_tokens req < computed_prefix then
        (Inl (InvalidReusablePrefix computed_prefix (nr_prompt_tokens req)), s)
      else
        let len = new_full_seq_len req; needed = blocks_needed (sd_config s) len in
        if sd_total_blocks s < needed then
          (Inl (ExceedsTotalCapacity len needed (sd_total_blocks s)), s)
        else if sc_max_waiting_requests (sd_config s) \<le> length (sd_waiting s) mod 2 ^ 32 then
          (Inl (WaitingQueueFull (sc_max_waiting_requests (sd_config s))), s)
        else (Inr (nr_id req), s\<lparr>sd_waiting := sd_waiting s @ [track req computed_prefix]\<rparr>))"

definition admit :: "scheduler \<Rightarrow> new_request \<Rightarrow> (admission_error + request_id) \<times> scheduler" where
  "admit s req = admit_with_prefix s req 0"

text \<open>\<open>self.running.remove(pos)\<close> and the return of the reservation, shared by \<open>finish_request\<close> and
  \<open>preempt\<close>.\<close>

definition release_running :: "scheduler \<Rightarrow> nat \<Rightarrow> tracked_request \<times> scheduler" where
  "release_running s pos =
     (let req = sd_running s ! pos in
      (req, s\<lparr>sd_running := remove_at pos (sd_running s),
              sd_free_blocks := wadd 32 (sd_free_blocks s) (tr_blocks_reserved req)\<rparr>))"

definition finish_request :: "scheduler \<Rightarrow> request_id \<Rightarrow> bool \<times> scheduler" where
  "finish_request s i = (case position (\<lambda>r. tr_id r = i) (sd_running s) of
     Some pos \<Rightarrow> (True, snd (release_running s pos))
   | None \<Rightarrow> (False, s))"

definition cancel_request :: "scheduler \<Rightarrow> request_id \<Rightarrow> bool \<times> scheduler" where
  "cancel_request s i = (case finish_request s i of
     (True, s') \<Rightarrow> (True, s')
   | (False, s') \<Rightarrow> (case position (\<lambda>r. tr_id r = i) (sd_waiting s') of
       Some pos \<Rightarrow> (True, s'\<lparr>sd_waiting := remove_at pos (sd_waiting s')\<rparr>)
     | None \<Rightarrow> (False, s')))"

definition preempt :: "scheduler \<Rightarrow> request_id \<Rightarrow> bool \<times> scheduler" where
  "preempt s i = (case position (\<lambda>r. tr_id r = i) (sd_running s) of
     Some pos \<Rightarrow>
       (let (req, s') = release_running s pos in
        (True, s'\<lparr>sd_waiting := req\<lparr>tr_blocks_reserved := 0, tr_computed_tokens := 0\<rparr> # sd_waiting s'\<rparr>))
   | None \<Rightarrow> (False, s))"

section \<open>The step\<close>

text \<open>Phase 1: decodes, in running order, until the budget no longer covers one.\<close>

definition wants_decode :: "tracked_request \<Rightarrow> bool" where
  "wants_decode r = (is_decode_ready r \<and> tr_computed_tokens r < full_seq_len r)"

fun decode_phase ::
  "nat \<Rightarrow> nat \<Rightarrow> tracked_request list \<Rightarrow> nat \<times> decode_item list \<times> tracked_request list" where
  "decode_phase cost budget [] = (budget, [], [])"
| "decode_phase cost budget (r # rs) =
     (if \<not> wants_decode r then
        (let (b, ds, rs') = decode_phase cost budget rs in (b, ds, r # rs'))
      else if budget < cost then (budget, [], r # rs)
      else
        (let (b, ds, rs') = decode_phase cost (budget - cost) rs in
         (b, \<lparr>di_id = tr_id r, di_tokens = cost\<rparr> # ds,
          r\<lparr>tr_computed_tokens := wadd 32 (tr_computed_tokens r) 1\<rparr> # rs')))"

definition slice_of :: "sched_config \<Rightarrow> nat" where
  "slice_of c = (if sc_prefill_slice c = 0 then u32_max else sc_prefill_slice c)"

definition grant :: "nat \<Rightarrow> tracked_request \<Rightarrow> tracked_request" where
  "grant chunk r = r\<lparr>tr_computed_tokens := wadd 32 (tr_computed_tokens r) chunk\<rparr>"

definition remaining_prompt :: "tracked_request \<Rightarrow> nat" where
  "remaining_prompt r = wsub 32 (tr_prompt_tokens r) (tr_computed_tokens r)"

text \<open>Phase 2: prefills already running, over the indices \<open>(start + offset) mod n\<close>.\<close>

fun prefill_phase ::
  "nat \<Rightarrow> nat \<Rightarrow> nat list \<Rightarrow> nat \<Rightarrow> tracked_request list \<Rightarrow>
   nat \<times> prefill_item list \<times> tracked_request list" where
  "prefill_phase reserve slice [] budget running = (budget, [], running)"
| "prefill_phase reserve slice (i # idx) budget running =
     (if budget = 0 then (budget, [], running)
      else if budget - reserve = 0 then (budget, [], running)
      else
        (let r = running ! i in
         if is_decode_ready r then prefill_phase reserve slice idx budget running
         else
           (let chunk = min (min (remaining_prompt r) slice) (budget - reserve) in
            if chunk = 0 then prefill_phase reserve slice idx budget running
            else
              (let (b, ps, running') = prefill_phase reserve slice idx (budget - chunk)
                     (running[i := grant chunk r])
               in (b, \<lparr>pi_id = tr_id r, pi_tokens = chunk\<rparr> # ps, running')))))"

definition rotation :: "nat \<Rightarrow> nat \<Rightarrow> nat list" where
  "rotation start n = map (\<lambda>offset. (start + offset) mod n) [0..<n]"

text \<open>Phase 3: admission from the front of the waiting queue.\<close>

fun admit_phase ::
  "sched_config \<Rightarrow> nat \<Rightarrow> nat \<Rightarrow> nat \<Rightarrow> tracked_request list \<Rightarrow> tracked_request list \<Rightarrow>
   nat \<times> nat \<times> tracked_request list \<times> tracked_request list \<times> prefill_item list" where
  "admit_phase c watermark budget free running [] = (budget, free, running, [], [])"
| "admit_phase c watermark budget free running (req # waiting) =
     (if \<not> (0 < budget \<and> length running < sc_max_concurrent_decodes c) then
        (budget, free, running, req # waiting, [])
      else
        (let needed = blocks_needed c (full_seq_len req) in
         if free < wadd 32 needed watermark then (budget, free, running, req # waiting, [])
         else
           (let free' = wsub 32 free needed;
                remaining = remaining_prompt req;
                chunk = min (min remaining (slice_of c)) budget;
                req' = grant chunk (req\<lparr>tr_blocks_reserved := needed\<rparr>);
                item = \<lparr>pi_id = tr_id req, pi_tokens = chunk\<rparr>
            in if chunk < remaining then (budget - chunk, free', running @ [req'], waiting, [item])
               else
                 (let (b, f, run, wait, ps) =
                        admit_phase c watermark (budget - chunk) free' (running @ [req']) waiting
                  in (b, f, run, wait, item # ps)))))"

definition step :: "scheduler \<Rightarrow> batch_description \<times> scheduler" where
  "step s =
     (let c = sd_config s;
          (b1, ds, run1) = decode_phase (tokens_per_decode_step c) (sc_token_budget c) (sd_running s);
          s1 = s\<lparr>sd_running := run1\<rparr>;
          reserve = (if admission_can_proceed s1 then sc_token_budget c div admission_reserve_fraction else 0);
          (b2, ps2, run2) =
            (if run1 = [] then (b1, [], [])
             else prefill_phase reserve (slice_of c)
                    (rotation (sd_prefill_cursor s mod length run1) (length run1)) b1 run1);
          cursor = (if ps2 \<noteq> [] then wadd 64 (sd_prefill_cursor s) 1 else sd_prefill_cursor s);
          (b3, free3, run3, wait3, ps3) =
            admit_phase c (watermark_blocks c (sd_total_blocks s)) b2 (sd_free_blocks s) run2 (sd_waiting s)
      in (\<lparr>bd_decodes = ds, bd_prefills = ps2 @ ps3\<rparr>,
          s\<lparr>sd_running := run3, sd_waiting := wait3, sd_free_blocks := free3, sd_prefill_cursor := cursor\<rparr>))"

section \<open>Invariant and runs\<close>

text \<open>Lengths that do not overflow 32 bits, the draft window included.\<close>

definition lengths_fit :: "sched_config \<Rightarrow> nat \<Rightarrow> nat \<Rightarrow> bool" where
  "lengths_fit c prompt max_output = (prompt + max_output + sc_draft_tokens_per_step c < 2 ^ 32)"

definition lifetime_blocks :: "sched_config \<Rightarrow> tracked_request \<Rightarrow> nat" where
  "lifetime_blocks c r =
     div_ceil (tr_prompt_tokens r + tr_max_output_tokens r + sc_draft_tokens_per_step c) (sc_block_size c)"

definition waiting_ok :: "sched_config \<Rightarrow> nat \<Rightarrow> tracked_request \<Rightarrow> bool" where
  "waiting_ok c total_blocks r \<longleftrightarrow>
     lengths_fit c (tr_prompt_tokens r) (tr_max_output_tokens r) \<and> tr_blocks_reserved r = 0 \<and>
     tr_computed_tokens r \<le> tr_prompt_tokens r \<and> lifetime_blocks c r \<le> total_blocks"

definition running_ok :: "sched_config \<Rightarrow> tracked_request \<Rightarrow> bool" where
  "running_ok c r \<longleftrightarrow>
     lengths_fit c (tr_prompt_tokens r) (tr_max_output_tokens r) \<and> tr_blocks_reserved r = lifetime_blocks c r \<and>
     tr_computed_tokens r \<le> tr_prompt_tokens r + tr_max_output_tokens r"

definition config_ok :: "sched_config \<Rightarrow> bool" where
  "config_ok c \<longleftrightarrow> 0 < sc_block_size c \<and> in_unit_range (sc_watermark_fraction c) \<and>
     sc_token_budget c < 2 ^ 32 \<and> sc_draft_tokens_per_step c < 2 ^ 32 - 1 \<and>
     sc_max_waiting_requests c + sc_max_concurrent_decodes c < 2 ^ 32"

definition sched_inv :: "scheduler \<Rightarrow> bool" where
  "sched_inv s \<longleftrightarrow>
     config_ok (sd_config s) \<and> sd_total_blocks s < 2 ^ 31 \<and>
     sd_free_blocks s + sum_list (map tr_blocks_reserved (sd_running s)) = sd_total_blocks s \<and>
     (\<forall>r \<in> set (sd_waiting s). waiting_ok (sd_config s) (sd_total_blocks s) r) \<and>
     (\<forall>r \<in> set (sd_running s). running_ok (sd_config s) r) \<and>
     length (sd_running s) \<le> sc_max_concurrent_decodes (sd_config s) \<and>
     length (sd_waiting s) + length (sd_running s) \<le>
       sc_max_waiting_requests (sd_config s) + sc_max_concurrent_decodes (sd_config s)"

inductive sched_run :: "sched_config \<Rightarrow> nat \<Rightarrow> scheduler \<Rightarrow> bool" for c :: sched_config and n :: nat where
  New: "sched_run c n (sched_new c n)"
| Admit: "sched_run c n s \<Longrightarrow> lengths_fit c (nr_prompt_tokens req) (nr_max_output_tokens req) \<Longrightarrow>
          sched_run c n (snd (admit_with_prefix s req k))"
| Finish: "sched_run c n s \<Longrightarrow> sched_run c n (snd (finish_request s i))"
| Cancel: "sched_run c n s \<Longrightarrow> sched_run c n (snd (cancel_request s i))"
| Preempt: "sched_run c n s \<Longrightarrow> sched_run c n (snd (preempt s i))"
| Advance: "sched_run c n s \<Longrightarrow> sched_run c n (snd (advance_speculative s i k))"
| Step: "sched_run c n s \<Longrightarrow> sched_run c n (snd (step s))"

text \<open>A small scheduler with one queued request, for concrete evaluations.\<close>

definition example_config :: sched_config where
  "example_config = \<lparr>sc_token_budget = 8, sc_block_size = 2, sc_max_concurrent_decodes = 3,
     sc_watermark_fraction = Finite 0, sc_draft_tokens_per_step = 1, sc_max_waiting_requests = 12,
     sc_prefill_slice = 0\<rparr>"

definition example_request :: new_request where
  "example_request = \<lparr>nr_id = 7, nr_prompt_tokens = 5, nr_max_output_tokens = 3\<rparr>"

definition example_sched :: scheduler where
  "example_sched = snd (admit (sched_new example_config 10) example_request)"

text \<open>An accepted configuration in which two decodes with their drafts take the whole step budget, and
  the state it reaches with two decoding requests and one queued.\<close>

definition drafting_config :: sched_config where
  "drafting_config = \<lparr>sc_token_budget = 8, sc_block_size = 2, sc_max_concurrent_decodes = 3,
     sc_watermark_fraction = Finite 0, sc_draft_tokens_per_step = 3, sc_max_waiting_requests = 12,
     sc_prefill_slice = 0\<rparr>"

definition small_request :: "nat \<Rightarrow> new_request" where
  "small_request i = \<lparr>nr_id = i, nr_prompt_tokens = 1, nr_max_output_tokens = 5\<rparr>"

definition drafting_sched :: scheduler where
  "drafting_sched = snd (admit (snd (step (snd (admit (snd (admit (sched_new drafting_config 100)
     (small_request 1))) (small_request 2))))) (small_request 3))"

section \<open>Arithmetic without wrap-around\<close>

lemma full_seq_len_fit [nowrap]:
  "lengths_fit c (tr_prompt_tokens r) (tr_max_output_tokens r) \<Longrightarrow>
   full_seq_len r = tr_prompt_tokens r + tr_max_output_tokens r"
  by (simp add: full_seq_len_def lengths_fit_def wadd_def)

lemma new_full_seq_len_fit [nowrap]:
  "lengths_fit c (nr_prompt_tokens q) (nr_max_output_tokens q) \<Longrightarrow>
   new_full_seq_len q = nr_prompt_tokens q + nr_max_output_tokens q"
  by (simp add: new_full_seq_len_def lengths_fit_def sadd_def)

lemma blocks_needed_fit [nowrap]:
  "len + sc_draft_tokens_per_step c < 2 ^ 32 \<Longrightarrow>
   blocks_needed c len = div_ceil (len + sc_draft_tokens_per_step c) (sc_block_size c)"
  by (simp add: blocks_needed_def wadd_def)

lemma blocks_needed_lifetime [nowrap]:
  "lengths_fit c (tr_prompt_tokens r) (tr_max_output_tokens r) \<Longrightarrow>
   blocks_needed c (full_seq_len r) = lifetime_blocks c r"
  by (simp add: full_seq_len_fit blocks_needed_fit lifetime_blocks_def lengths_fit_def)

lemma decode_cost: "config_ok c \<Longrightarrow> tokens_per_decode_step c = 1 + sc_draft_tokens_per_step c"
  by (simp add: tokens_per_decode_step_def config_ok_def wadd_def)

lemma remaining_prompt_fit [nowrap]:
  "tr_computed_tokens r \<le> tr_prompt_tokens r \<Longrightarrow> tr_prompt_tokens r < 2 ^ 32 \<Longrightarrow>
   remaining_prompt r = tr_prompt_tokens r - tr_computed_tokens r"
  by (simp add: remaining_prompt_def wsub_nowrap)

lemma watermark_fits: "sched_inv s \<Longrightarrow> watermark_blocks (sd_config s) (sd_total_blocks s) \<le> sd_total_blocks s"
  by (simp add: sched_inv_def config_ok_def watermark_le_total)

section \<open>Phase 1\<close>

text \<open>Two states of one request: same identity, lengths and reservation.\<close>

definition same_request :: "tracked_request \<Rightarrow> tracked_request \<Rightarrow> bool" where
  "same_request r r' \<longleftrightarrow> tr_id r' = tr_id r \<and> tr_prompt_tokens r' = tr_prompt_tokens r \<and>
     tr_max_output_tokens r' = tr_max_output_tokens r \<and> tr_blocks_reserved r' = tr_blocks_reserved r"

lemma same_request_refl [simp]: "same_request r r"
  by (simp add: same_request_def)

lemma same_request_trans: "same_request a b \<Longrightarrow> same_request b c \<Longrightarrow> same_request a c"
  by (simp add: same_request_def)

lemma same_requests_refl [simp]: "list_all2 same_request rs rs"
  by (simp add: list_all2_same)

lemma same_requests_sum:
  "list_all2 same_request rs rs' \<Longrightarrow>
   sum_list (map tr_blocks_reserved rs') = sum_list (map tr_blocks_reserved rs)"
  by (induction rule: list_all2_induct) (simp_all add: same_request_def)

lemma same_requests_ids: "list_all2 same_request rs rs' \<Longrightarrow> map tr_id rs' = map tr_id rs"
  by (induction rule: list_all2_induct) (simp_all add: same_request_def)

text \<open>The decodes of a step are the first \<open>budget div cost\<close> requests that want one.\<close>

lemma decode_phase_items:
  assumes "0 < cost"
  shows "decode_phase cost budget rs = (b, ds, rs') \<Longrightarrow>
     ds = map (\<lambda>r. \<lparr>di_id = tr_id r, di_tokens = cost\<rparr>) (take (budget div cost) (filter wants_decode rs)) \<and>
     b + cost * length ds = budget"
proof (induction rs arbitrary: budget b ds rs')
  case (Cons r rs)
  show ?case
  proof (cases "wants_decode r \<and> \<not> budget < cost")
    case True
    then have up: "budget div cost = Suc ((budget - cost) div cost)"
      using assms by (simp add: div_if)
    obtain b1 ds1 rs1 where rec: "decode_phase cost (budget - cost) rs = (b1, ds1, rs1)"
      by (metis prod_cases3)
    show ?thesis using Cons.IH [OF rec] Cons.prems rec True up by auto
  next
    case False
    then show ?thesis using Cons by (auto split: if_splits prod.splits)
  qed
qed simp

lemma decode_phase_none: "filter wants_decode rs = [] \<Longrightarrow> decode_phase cost budget rs = (budget, [], rs)"
  by (induction rs) (auto split: if_splits)

lemma decode_phase_running:
  "decode_phase cost budget rs = (b, ds, rs') \<Longrightarrow> list_all (running_ok c) rs \<Longrightarrow>
   list_all2 same_request rs rs' \<and> list_all (running_ok c) rs'"
proof (induction cost budget rs arbitrary: b ds rs' rule: decode_phase.induct)
  case (2 cost budget r rs)
  have adv: "same_request r (r\<lparr>tr_computed_tokens := wadd 32 (tr_computed_tokens r) 1\<rparr>) \<and>
      running_ok c (r\<lparr>tr_computed_tokens := wadd 32 (tr_computed_tokens r) 1\<rparr>)" if "wants_decode r"
  proof -
    have fit: "lengths_fit c (tr_prompt_tokens r) (tr_max_output_tokens r)" and ok: "running_ok c r"
      using 2(4) by (simp_all add: running_ok_def)
    have "tr_computed_tokens r < tr_prompt_tokens r + tr_max_output_tokens r"
      using that full_seq_len_fit [OF fit] by (simp add: wants_decode_def)
    moreover from this have "wadd 32 (tr_computed_tokens r) 1 = tr_computed_tokens r + 1"
      using fit by (intro wadd_nowrap) (simp add: lengths_fit_def)
    ultimately show ?thesis using ok by (simp add: running_ok_def same_request_def lifetime_blocks_def)
  qed
  show ?case using 2 adv by (auto split: if_splits prod.splits)
qed simp

section \<open>Phase 2\<close>

lemma grant_ok:
  assumes "running_ok c r" and "chunk \<le> tr_prompt_tokens r - tr_computed_tokens r"
    and "tr_computed_tokens r \<le> tr_prompt_tokens r"
  shows "same_request r (grant chunk r)" and "running_ok c (grant chunk r)"
    and "tr_computed_tokens (grant chunk r) = tr_computed_tokens r + chunk"
proof -
  have "tr_prompt_tokens r < 2 ^ 32" using assms(1) by (simp add: running_ok_def lengths_fit_def)
  then have "wadd 32 (tr_computed_tokens r) chunk = tr_computed_tokens r + chunk"
    using assms(2,3) by (intro wadd_nowrap) linarith
  then show "same_request r (grant chunk r)" "running_ok c (grant chunk r)"
    "tr_computed_tokens (grant chunk r) = tr_computed_tokens r + chunk"
    using assms by (auto simp: grant_def same_request_def running_ok_def lifetime_blocks_def)
qed

lemma chunk_le_remaining:
  assumes "running_ok c r" and "\<not> is_decode_ready r"
  shows "min (min (remaining_prompt r) slice) b \<le> tr_prompt_tokens r - tr_computed_tokens r"
    and "tr_computed_tokens r \<le> tr_prompt_tokens r"
proof -
  show le: "tr_computed_tokens r \<le> tr_prompt_tokens r" using assms(2) by (simp add: is_decode_ready_def)
  have "tr_prompt_tokens r < 2 ^ 32" using assms(1) by (simp add: running_ok_def lengths_fit_def)
  with le show "min (min (remaining_prompt r) slice) b \<le> tr_prompt_tokens r - tr_computed_tokens r"
    by (simp add: remaining_prompt_fit)
qed

declare prefill_phase.simps(2) [simp del]

lemma prefill_phase_stop:
  "budget - reserve = 0 \<Longrightarrow> prefill_phase reserve slice (i # idx) budget rs = (budget, [], rs)"
  by (simp add: prefill_phase.simps(2))

lemma prefill_phase_skip:
  "budget - reserve \<noteq> 0 \<Longrightarrow> is_decode_ready (rs ! i) \<or> min (min (remaining_prompt (rs ! i)) slice) (budget - reserve) = 0 \<Longrightarrow>
   prefill_phase reserve slice (i # idx) budget rs = prefill_phase reserve slice idx budget rs"
  by (auto simp: prefill_phase.simps(2) Let_def)

lemma prefill_phase_grant:
  assumes "budget - reserve \<noteq> 0" and "\<not> is_decode_ready (rs ! i)"
    and "chunk = min (min (remaining_prompt (rs ! i)) slice) (budget - reserve)" and "chunk \<noteq> 0"
    and "prefill_phase reserve slice idx (budget - chunk) (rs[i := grant chunk (rs ! i)]) = (b, ps, rs')"
  shows "prefill_phase reserve slice (i # idx) budget rs =
           (b, \<lparr>pi_id = tr_id (rs ! i), pi_tokens = chunk\<rparr> # ps, rs')"
proof -
  have "budget \<noteq> 0" using assms(1) by simp
  then show ?thesis
    using assms by (simp only: prefill_phase.simps(2) Let_def if_False split_conv refl)
qed

lemma same_requests_trans: "list_all2 same_request a b \<Longrightarrow> list_all2 same_request b c \<Longrightarrow> list_all2 same_request a c"
  by (rule list_all2_trans [of same_request same_request same_request]) (rule same_request_trans)

lemma prefill_phase_running:
  "prefill_phase reserve slice idx budget rs = (b, ps, rs') \<Longrightarrow> list_all (running_ok c) rs \<Longrightarrow>
   \<forall>i \<in> set idx. i < length rs \<Longrightarrow>
   list_all2 same_request rs rs' \<and> list_all (running_ok c) rs' \<and>
   b + sum_list (map pi_tokens ps) = budget \<and> (\<forall>p \<in> set ps. 0 < pi_tokens p \<and> pi_tokens p \<le> slice) \<and>
   min budget reserve \<le> b"
proof (induction idx arbitrary: budget rs b ps rs')
  case (Cons i idx)
  let ?r = "rs ! i"
  let ?chunk = "min (min (remaining_prompt ?r) slice) (budget - reserve)"
  have i: "i < length rs" and ok: "running_ok c ?r" using Cons.prems(2,3) by (simp_all add: list_all_length)
  consider (stop) "budget - reserve = 0" | (skip) "budget - reserve \<noteq> 0" "is_decode_ready ?r \<or> ?chunk = 0"
    | (grant) "budget - reserve \<noteq> 0" "\<not> is_decode_ready ?r" "?chunk \<noteq> 0" by blast
  then show ?case
  proof cases
    case stop
    then show ?thesis using Cons.prems by (simp add: prefill_phase_stop)
  next
    case skip
    then have "prefill_phase reserve slice idx budget rs = (b, ps, rs')"
      using Cons.prems(1) prefill_phase_skip [OF skip, of idx] by simp
    from Cons.IH [OF this Cons.prems(2)] Cons.prems(3) show ?thesis by simp
  next
    case grant
    note g = grant_ok [OF ok chunk_le_remaining(1) [OF ok grant(2), of slice "budget - reserve"]
        chunk_le_remaining(2) [OF ok grant(2)]]
    have step: "list_all2 same_request rs (rs[i := grant ?chunk ?r])"
      using g(1) i by (simp add: list_all2_conv_all_nth nth_list_update)
    have ok': "list_all (running_ok c) (rs[i := grant ?chunk ?r])"
      using g(2) Cons.prems(2) i by (simp add: list_all_length nth_list_update)
    obtain b1 ps1 rs1 where rec: "prefill_phase reserve slice idx (budget - ?chunk) (rs[i := grant ?chunk ?r]) = (b1, ps1, rs1)"
      by (metis prod_cases3)
    have res: "b = b1" "ps = \<lparr>pi_id = tr_id ?r, pi_tokens = ?chunk\<rparr> # ps1" "rs' = rs1"
      using Cons.prems(1) prefill_phase_grant [OF grant(1,2) refl grant(3) rec] by simp_all
    note ih = Cons.IH [OF rec ok']
    have "list_all2 same_request rs rs1" using same_requests_trans [OF step] ih Cons.prems(3) by simp
    then show ?thesis using ih Cons.prems(3) res grant by auto
  qed
qed simp

section \<open>Phase 3\<close>

declare admit_phase.simps(2) [simp del]

text \<open>The request as it enters the running list, and the two ways a pass of the loop continues.\<close>

definition admitted :: "sched_config \<Rightarrow> nat \<Rightarrow> tracked_request \<Rightarrow> tracked_request" where
  "admitted c budget req =
     grant (min (min (remaining_prompt req) (slice_of c)) budget)
       (req\<lparr>tr_blocks_reserved := blocks_needed c (full_seq_len req)\<rparr>)"

definition can_take :: "sched_config \<Rightarrow> nat \<Rightarrow> nat \<Rightarrow> nat \<Rightarrow> tracked_request list \<Rightarrow> tracked_request \<Rightarrow> bool" where
  "can_take c watermark budget free running req \<longleftrightarrow>
     0 < budget \<and> length running < sc_max_concurrent_decodes c \<and>
     wadd 32 (blocks_needed c (full_seq_len req)) watermark \<le> free"

lemma admit_phase_stop:
  "\<not> can_take c wm b free run req \<Longrightarrow> admit_phase c wm b free run (req # wait) = (b, free, run, req # wait, [])"
  by (auto simp: admit_phase.simps(2) can_take_def Let_def)

lemma admit_phase_take:
  assumes "can_take c wm b free run req"
    and "chunk = min (min (remaining_prompt req) (slice_of c)) b"
  shows "admit_phase c wm b free run (req # wait) =
     (if chunk < remaining_prompt req
      then (b - chunk, wsub 32 free (blocks_needed c (full_seq_len req)), run @ [admitted c b req], wait,
            [\<lparr>pi_id = tr_id req, pi_tokens = chunk\<rparr>])
      else (let (b', f, run', wait', ps) = admit_phase c wm (b - chunk)
              (wsub 32 free (blocks_needed c (full_seq_len req))) (run @ [admitted c b req]) wait
            in (b', f, run', wait', \<lparr>pi_id = tr_id req, pi_tokens = chunk\<rparr> # ps)))"
  using assms by (simp add: admit_phase.simps(2) can_take_def Let_def admitted_def)

lemma admitted_ok:
  assumes "waiting_ok c total_blocks req"
  shows "running_ok c (admitted c b req)" and "tr_id (admitted c b req) = tr_id req"
    and "tr_blocks_reserved (admitted c b req) = lifetime_blocks c req"
proof -
  let ?r = "req\<lparr>tr_blocks_reserved := blocks_needed c (full_seq_len req)\<rparr>"
  have fit: "lengths_fit c (tr_prompt_tokens req) (tr_max_output_tokens req)"
    and le: "tr_computed_tokens req \<le> tr_prompt_tokens req" using assms by (simp_all add: waiting_ok_def)
  have need: "blocks_needed c (full_seq_len req) = lifetime_blocks c req" using fit by (rule blocks_needed_lifetime)
  have ok: "running_ok c ?r" using fit le need by (simp add: running_ok_def lifetime_blocks_def)
  have "remaining_prompt req = tr_prompt_tokens req - tr_computed_tokens req"
    using fit le by (intro remaining_prompt_fit) (simp_all add: lengths_fit_def)
  then have "min (min (remaining_prompt req) (slice_of c)) b \<le> tr_prompt_tokens ?r - tr_computed_tokens ?r"
    by simp
  note g = grant_ok [OF ok this]
  show "running_ok c (admitted c b req)" using g(2) le by (simp add: admitted_def)
  show "tr_id (admitted c b req) = tr_id req" "tr_blocks_reserved (admitted c b req) = lifetime_blocks c req"
    using need by (simp_all add: admitted_def grant_def)
qed

text \<open>What admission does to the queues and the block ledger: it moves a prefix of the waiting queue to
  the end of the running list, keeps the ledger balanced and leaves the watermark free.\<close>

lemma admit_phase_spec:
  assumes "admit_phase c wm b free run wait = (b', free', run', wait', ps)"
    and "\<forall>r \<in> set wait. waiting_ok c total_blocks r" and "free < 2 ^ 31" and "wm < 2 ^ 31" "total_blocks < 2 ^ 31"
    and "length run \<le> sc_max_concurrent_decodes c"
  shows "b' + sum_list (map pi_tokens ps) = b \<and>
     (\<exists>new. run' = run @ new \<and> map tr_id wait = map tr_id new @ map tr_id wait' \<and>
        map pi_id ps = map tr_id new \<and> wait' = drop (length new) wait \<and> list_all (running_ok c) new \<and>
        free' + sum_list (map tr_blocks_reserved new) = free \<and> (new \<noteq> [] \<longrightarrow> wm \<le> free')) \<and>
     length run' \<le> sc_max_concurrent_decodes c"
  using assms
proof (induction wait arbitrary: b free run b' free' run' wait' ps)
  case Nil
  then show ?case by simp
next
  case (Cons req wait)
  show ?case
  proof (cases "can_take c wm b free run req")
    case False
    then show ?thesis using Cons.prems by (auto simp: admit_phase_stop)
  next
    case True
    define chunk where "chunk = min (min (remaining_prompt req) (slice_of c)) b"
    let ?need = "lifetime_blocks c req"
    have ok: "waiting_ok c total_blocks req" using Cons.prems(2) by simp
    then have need: "blocks_needed c (full_seq_len req) = ?need" "?need \<le> total_blocks"
      by (simp_all add: waiting_ok_def blocks_needed_lifetime)
    then have le: "?need + wm \<le> free"
      using True Cons.prems(4,5) by (simp add: can_take_def wadd_nowrap)
    then have free: "wsub 32 free ?need = free - ?need" using Cons.prems(3) by (intro wsub_nowrap) auto
    note new = admitted_ok [OF ok, of b]
    have room: "length (run @ [admitted c b req]) \<le> sc_max_concurrent_decodes c"
      using True by (simp add: can_take_def)
    note eq = admit_phase_take [OF True chunk_def, of wait, unfolded need(1) free]
    show ?thesis
    proof (cases "chunk < remaining_prompt req")
      case part: True
      have res: "b' = b - chunk" "free' = free - ?need" "run' = run @ [admitted c b req]" "wait' = wait"
        "ps = [\<lparr>pi_id = tr_id req, pi_tokens = chunk\<rparr>]" using Cons.prems(1) eq part by simp_all
      show ?thesis
        using res new le room by (auto simp: chunk_def intro!: exI [of _ "[admitted c b req]"])
    next
      case whole: False
      obtain b1 f1 run1 wait1 ps1 where
        rec: "admit_phase c wm (b - chunk) (free - ?need) (run @ [admitted c b req]) wait = (b1, f1, run1, wait1, ps1)"
        by (metis prod_cases5)
      have res: "b' = b1" "free' = f1" "run' = run1" "wait' = wait1"
        "ps = \<lparr>pi_id = tr_id req, pi_tokens = chunk\<rparr> # ps1" using Cons.prems(1) eq whole rec by simp_all
      have ih: "b1 + sum_list (map pi_tokens ps1) = b - chunk \<and>
         (\<exists>new. run1 = (run @ [admitted c b req]) @ new \<and> map tr_id wait = map tr_id new @ map tr_id wait1 \<and>
            map pi_id ps1 = map tr_id new \<and> wait1 = drop (length new) wait \<and> list_all (running_ok c) new \<and>
            f1 + sum_list (map tr_blocks_reserved new) = free - ?need \<and> (new \<noteq> [] \<longrightarrow> wm \<le> f1)) \<and>
         length run1 \<le> sc_max_concurrent_decodes c"
        using Cons.IH [OF rec] Cons.prems(2-5) room by simp
      then obtain ns where ns: "run1 = (run @ [admitted c b req]) @ ns" "map tr_id wait = map tr_id ns @ map tr_id wait1"
        "map pi_id ps1 = map tr_id ns" "wait1 = drop (length ns) wait" "list_all (running_ok c) ns"
        "f1 + sum_list (map tr_blocks_reserved ns) = free - ?need" "ns \<noteq> [] \<longrightarrow> wm \<le> f1" by blast
      show ?thesis
        using res ih ns new le
        by (intro conjI exI [of _ "admitted c b req # ns"]) (auto simp: chunk_def)
    qed
  qed
qed

section \<open>The step as a whole\<close>

text \<open>The intermediate states of one step, as the source passes through them.\<close>

lemma step_phases:
  assumes "step s = (batch, s')"
  obtains b1 ds run1 reserve b2 ps2 run2 b3 free3 run3 wait3 ps3 where
    "decode_phase (tokens_per_decode_step (sd_config s)) (sc_token_budget (sd_config s)) (sd_running s) = (b1, ds, run1)"
    "reserve = (if admission_can_proceed (s\<lparr>sd_running := run1\<rparr>)
       then sc_token_budget (sd_config s) div admission_reserve_fraction else 0)"
    "prefill_phase reserve (slice_of (sd_config s))
       (rotation (sd_prefill_cursor s mod length run1) (length run1)) b1 run1 = (b2, ps2, run2)"
    "admit_phase (sd_config s) (watermark_blocks (sd_config s) (sd_total_blocks s)) b2 (sd_free_blocks s) run2
       (sd_waiting s) = (b3, free3, run3, wait3, ps3)"
    "batch = \<lparr>bd_decodes = ds, bd_prefills = ps2 @ ps3\<rparr>"
    "s' = s\<lparr>sd_running := run3, sd_waiting := wait3, sd_free_blocks := free3,
            sd_prefill_cursor := (if ps2 \<noteq> [] then wadd 64 (sd_prefill_cursor s) 1 else sd_prefill_cursor s)\<rparr>"
proof -
  obtain b1 ds run1 where d: "decode_phase (tokens_per_decode_step (sd_config s))
      (sc_token_budget (sd_config s)) (sd_running s) = (b1, ds, run1)" by (metis prod_cases3)
  define reserve where "reserve = (if admission_can_proceed (s\<lparr>sd_running := run1\<rparr>)
       then sc_token_budget (sd_config s) div admission_reserve_fraction else 0)"
  obtain b2 ps2 run2 where p: "prefill_phase reserve (slice_of (sd_config s))
       (rotation (sd_prefill_cursor s mod length run1) (length run1)) b1 run1 = (b2, ps2, run2)"
    by (metis prod_cases3)
  have p': "(if run1 = [] then (b1, [], []) else prefill_phase reserve (slice_of (sd_config s))
       (rotation (sd_prefill_cursor s mod length run1) (length run1)) b1 run1) = (b2, ps2, run2)"
    using p by (auto simp: rotation_def)
  obtain b3 free3 run3 wait3 ps3 where a: "admit_phase (sd_config s)
       (watermark_blocks (sd_config s) (sd_total_blocks s)) b2 (sd_free_blocks s) run2
       (sd_waiting s) = (b3, free3, run3, wait3, ps3)" by (metis prod_cases5)
  have "step s = (\<lparr>bd_decodes = ds, bd_prefills = ps2 @ ps3\<rparr>,
      s\<lparr>sd_running := run3, sd_waiting := wait3, sd_free_blocks := free3,
        sd_prefill_cursor := (if ps2 \<noteq> [] then wadd 64 (sd_prefill_cursor s) 1 else sd_prefill_cursor s)\<rparr>)"
    by (simp only: step_def Let_def d split_conv reserve_def [symmetric] p' a)
  with assms show ?thesis using that [OF d reserve_def p a] by simp
qed

lemma rotation_bounds: "i \<in> set (rotation k n) \<Longrightarrow> i < n"
  by (auto simp: rotation_def)

lemma sched_inv_free: "sched_inv s \<Longrightarrow> sd_free_blocks s < 2 ^ 31"
  by (auto simp: sched_inv_def)

text \<open>What the phases establish, from the invariant: the facts every property of a step uses.\<close>

definition step_trace ::
  "scheduler \<Rightarrow> batch_description \<Rightarrow> scheduler \<Rightarrow> nat \<Rightarrow> tracked_request list \<Rightarrow> nat \<Rightarrow> nat \<Rightarrow>
   prefill_item list \<Rightarrow> tracked_request list \<Rightarrow> nat \<Rightarrow> tracked_request list \<Rightarrow> prefill_item list \<Rightarrow>
   tracked_request list \<Rightarrow> bool" where
  "step_trace s batch s' b1 run1 reserve b2 ps2 run2 free3 wait3 ps3 new \<longleftrightarrow>
    (let c = sd_config s; cost = tokens_per_decode_step c; wm = watermark_blocks c (sd_total_blocks s) in
    decode_phase cost (sc_token_budget c) (sd_running s) = (b1, bd_decodes batch, run1) \<and>
    reserve = (if admission_can_proceed (s\<lparr>sd_running := run1\<rparr>)
       then sc_token_budget c div admission_reserve_fraction else 0) \<and>
    prefill_phase reserve (slice_of c)
       (rotation (sd_prefill_cursor s mod length run1) (length run1)) b1 run1 = (b2, ps2, run2) \<and>
    (\<exists>b3. admit_phase c wm b2 (sd_free_blocks s) run2 (sd_waiting s) = (b3, free3, run2 @ new, wait3, ps3) \<and>
          b3 + sum_list (map pi_tokens ps3) = b2) \<and>
    bd_prefills batch = ps2 @ ps3 \<and>
    s' = s\<lparr>sd_running := run2 @ new, sd_waiting := wait3, sd_free_blocks := free3,
            sd_prefill_cursor := (if ps2 \<noteq> [] then wadd 64 (sd_prefill_cursor s) 1 else sd_prefill_cursor s)\<rparr> \<and>
    list_all2 same_request (sd_running s) run1 \<and> list_all (running_ok c) run1 \<and>
    bd_decodes batch = map (\<lambda>r. \<lparr>di_id = tr_id r, di_tokens = cost\<rparr>)
       (take (sc_token_budget c div cost) (filter wants_decode (sd_running s))) \<and>
    b1 + cost * length (bd_decodes batch) = sc_token_budget c \<and>
    list_all2 same_request run1 run2 \<and> list_all (running_ok c) run2 \<and>
    b2 + sum_list (map pi_tokens ps2) = b1 \<and> min b1 reserve \<le> b2 \<and>
    map tr_id (sd_waiting s) = map tr_id new @ map tr_id wait3 \<and> map pi_id ps3 = map tr_id new \<and>
    wait3 = drop (length new) (sd_waiting s) \<and> list_all (running_ok c) new \<and>
    free3 + sum_list (map tr_blocks_reserved new) = sd_free_blocks s \<and>
    (new \<noteq> [] \<longrightarrow> wm \<le> free3) \<and> length (run2 @ new) \<le> sc_max_concurrent_decodes c)"

lemma step_facts:
  assumes "sched_inv s" and "step s = (batch, s')"
  shows "\<exists>b1 run1 reserve b2 ps2 run2 free3 wait3 ps3 new.
    step_trace s batch s' b1 run1 reserve b2 ps2 run2 free3 wait3 ps3 new"
proof -
  let ?c = "sd_config s"
  obtain b1 ds run1 reserve b2 ps2 run2 b3 free3 run3 wait3 ps3 where
    d: "decode_phase (tokens_per_decode_step ?c) (sc_token_budget ?c) (sd_running s) = (b1, ds, run1)"
    and r: "reserve = (if admission_can_proceed (s\<lparr>sd_running := run1\<rparr>)
       then sc_token_budget ?c div admission_reserve_fraction else 0)"
    and p: "prefill_phase reserve (slice_of ?c)
       (rotation (sd_prefill_cursor s mod length run1) (length run1)) b1 run1 = (b2, ps2, run2)"
    and a: "admit_phase ?c (watermark_blocks ?c (sd_total_blocks s)) b2 (sd_free_blocks s) run2
       (sd_waiting s) = (b3, free3, run3, wait3, ps3)"
    and batch: "batch = \<lparr>bd_decodes = ds, bd_prefills = ps2 @ ps3\<rparr>"
    and s': "s' = s\<lparr>sd_running := run3, sd_waiting := wait3, sd_free_blocks := free3,
            sd_prefill_cursor := (if ps2 \<noteq> [] then wadd 64 (sd_prefill_cursor s) 1 else sd_prefill_cursor s)\<rparr>"
    using step_phases [OF assms(2)] by metis
  have run: "list_all (running_ok ?c) (sd_running s)" and tot: "sd_total_blocks s < 2 ^ 31"
    and wait: "\<forall>r \<in> set (sd_waiting s). waiting_ok ?c (sd_total_blocks s) r" and cfg: "config_ok ?c"
    and len: "length (sd_running s) \<le> sc_max_concurrent_decodes ?c"
    using assms(1) by (simp_all add: sched_inv_def list_all_iff)
  have cost: "0 < tokens_per_decode_step ?c" using decode_cost [OF cfg] by simp
  have 1: "list_all2 same_request (sd_running s) run1" "list_all (running_ok ?c) run1"
    using decode_phase_running [OF d run] by simp_all
  have 2: "list_all2 same_request run1 run2" "list_all (running_ok ?c) run2"
    "b2 + sum_list (map pi_tokens ps2) = b1" "min b1 reserve \<le> b2"
    using prefill_phase_running [OF p 1(2)] rotation_bounds by blast+
  have wm: "watermark_blocks ?c (sd_total_blocks s) < 2 ^ 31" using watermark_fits [OF assms(1)] tot by simp
  have "length run2 \<le> sc_max_concurrent_decodes ?c"
    using len list_all2_lengthD [OF 1(1)] list_all2_lengthD [OF 2(1)] by simp
  from admit_phase_spec [OF a wait sched_inv_free [OF assms(1)] wm tot this] obtain new where
    3: "b3 + sum_list (map pi_tokens ps3) = b2" "run3 = run2 @ new"
    "map tr_id (sd_waiting s) = map tr_id new @ map tr_id wait3" "map pi_id ps3 = map tr_id new"
    "wait3 = drop (length new) (sd_waiting s)" "list_all (running_ok ?c) new"
    "free3 + sum_list (map tr_blocks_reserved new) = sd_free_blocks s"
    "new \<noteq> [] \<longrightarrow> watermark_blocks ?c (sd_total_blocks s) \<le> free3"
    "length run3 \<le> sc_max_concurrent_decodes ?c" by blast
  have "step_trace s batch s' b1 run1 reserve b2 ps2 run2 free3 wait3 ps3 new"
    unfolding step_trace_def Let_def batch batch_description.select_convs
    using d r p a s' 1 decode_phase_items [OF cost d] 2 3 unfolding 3(2) by blast
  then show ?thesis by blast
qed

lemma step_inv:
  assumes "sched_inv s" and "step s = (batch, s')"
  shows "sched_inv s'" and "sd_config s' = sd_config s" and "sd_total_blocks s' = sd_total_blocks s"
proof -
  let ?c = "sd_config s"
  obtain b1 run1 reserve b2 ps2 run2 free3 wait3 ps3 new where
    tr: "step_trace s batch s' b1 run1 reserve b2 ps2 run2 free3 wait3 ps3 new"
    using step_facts [OF assms] by blast
  then have s': "s' = s\<lparr>sd_running := run2 @ new, sd_waiting := wait3, sd_free_blocks := free3,
            sd_prefill_cursor := (if ps2 \<noteq> [] then wadd 64 (sd_prefill_cursor s) 1 else sd_prefill_cursor s)\<rparr>"
    and 1: "list_all2 same_request (sd_running s) run1" and 2: "list_all2 same_request run1 run2"
    and ok: "list_all (running_ok ?c) run2" "list_all (running_ok ?c) new"
    and ids: "map tr_id (sd_waiting s) = map tr_id new @ map tr_id wait3"
    and wait: "wait3 = drop (length new) (sd_waiting s)"
    and free: "free3 + sum_list (map tr_blocks_reserved new) = sd_free_blocks s"
    and len: "length (run2 @ new) \<le> sc_max_concurrent_decodes ?c"
    unfolding step_trace_def Let_def by blast+
  note same = same_requests_trans [OF 1 2]
  have cnt: "length (sd_waiting s) = length new + length wait3"
    using arg_cong [OF ids, of length] by simp
  have "\<forall>r \<in> set wait3. waiting_ok ?c (sd_total_blocks s) r"
    using assms(1) unfolding wait sched_inv_def by (blast dest: in_set_dropD)
  moreover have "\<forall>r \<in> set (run2 @ new). running_ok ?c r" using ok by (auto simp: list_all_iff)
  moreover have "free3 + sum_list (map tr_blocks_reserved (run2 @ new)) = sd_total_blocks s"
    using free same_requests_sum [OF same] assms(1) by (simp add: sched_inv_def)
  moreover have "length wait3 + length (run2 @ new) \<le> sc_max_waiting_requests ?c + sc_max_concurrent_decodes ?c"
    using assms(1) cnt list_all2_lengthD [OF same] by (simp add: sched_inv_def)
  moreover have "config_ok ?c" "sd_total_blocks s < 2 ^ 31" using assms(1) by (simp_all add: sched_inv_def)
  ultimately show "sched_inv s'" using len by (simp add: sched_inv_def s')
  show "sd_config s' = ?c" "sd_total_blocks s' = sd_total_blocks s" by (simp_all add: s')
qed

section \<open>The other operations\<close>

lemma sched_inv_new: "config_ok c \<Longrightarrow> n < 2 ^ 31 \<Longrightarrow> sched_inv (sched_new c n)"
  by (simp add: sched_inv_def sched_new_def)

lemma admit_inv:
  assumes "sched_inv s" and "lengths_fit (sd_config s) (nr_prompt_tokens req) (nr_max_output_tokens req)"
  shows "sched_inv (snd (admit_with_prefix s req k))"
proof -
  let ?r = "track req k"
  have fit: "new_full_seq_len req = nr_prompt_tokens req + nr_max_output_tokens req"
    using assms(2) by (rule new_full_seq_len_fit)
  have need: "blocks_needed (sd_config s) (new_full_seq_len req) = lifetime_blocks (sd_config s) ?r"
    using assms(2) by (simp add: fit blocks_needed_fit lifetime_blocks_def lengths_fit_def track_def)
  have "waiting_ok (sd_config s) (sd_total_blocks s) ?r"
    if "k \<le> nr_prompt_tokens req" "lifetime_blocks (sd_config s) ?r \<le> sd_total_blocks s"
    using that assms(2) by (simp add: waiting_ok_def track_def)
  moreover have "length (sd_waiting s) mod 2 ^ 32 = length (sd_waiting s)"
    using assms(1) by (intro mod_less) (auto simp: sched_inv_def config_ok_def)
  ultimately show ?thesis using assms(1) need
    by (auto simp: admit_with_prefix_def Let_def sched_inv_def)
qed

lemma release_running_inv:
  assumes "sched_inv s" and "position p (sd_running s) = Some pos"
  shows "sched_inv (snd (release_running s pos))"
    and "sd_free_blocks (snd (release_running s pos)) = sd_free_blocks s + tr_blocks_reserved (sd_running s ! pos)"
proof -
  let ?r = "sd_running s ! pos"
  have pos: "pos < length (sd_running s)" using position_Some [OF assms(2)] by simp
  have sum: "tr_blocks_reserved ?r + sum_list (map tr_blocks_reserved (remove_at pos (sd_running s))) =
      sum_list (map tr_blocks_reserved (sd_running s))" using pos by (rule sum_list_remove_at)
  have "sd_free_blocks s + tr_blocks_reserved ?r < 2 ^ 32" using assms(1) sum by (simp add: sched_inv_def)
  then have wrap: "wadd 32 (sd_free_blocks s) (tr_blocks_reserved ?r) = sd_free_blocks s + tr_blocks_reserved ?r"
    by (rule wadd_nowrap)
  then show "sd_free_blocks (snd (release_running s pos)) = sd_free_blocks s + tr_blocks_reserved ?r"
    by (simp add: release_running_def Let_def)
  show "sched_inv (snd (release_running s pos))"
    using assms(1) wrap sum pos
    by (auto simp: sched_inv_def release_running_def Let_def dest: subsetD [OF remove_at_set])
qed

lemma finish_inv: "sched_inv s \<Longrightarrow> sched_inv (snd (finish_request s i))"
  by (auto simp: finish_request_def release_running_inv split: option.splits)

lemma cancel_inv: "sched_inv s \<Longrightarrow> sched_inv (snd (cancel_request s i))"
proof -
  assume inv: "sched_inv s"
  obtain fin s1 where f: "finish_request s i = (fin, s1)" by fastforce
  have inv1: "sched_inv s1" using finish_inv [OF inv, of i] f by simp
  have "sched_inv (s1\<lparr>sd_waiting := remove_at pos (sd_waiting s1)\<rparr>)"
    if "position (\<lambda>r. tr_id r = i) (sd_waiting s1) = Some pos" for pos
    using inv1 position_Some [OF that] by (auto simp: sched_inv_def dest: subsetD [OF remove_at_set])
  then show ?thesis using inv1 f by (auto simp: cancel_request_def split: bool.splits option.splits)
qed

lemma preempt_inv: "sched_inv s \<Longrightarrow> sched_inv (snd (preempt s i))"
proof (cases "position (\<lambda>r. tr_id r = i) (sd_running s)")
  case (Some pos)
  assume inv: "sched_inv s"
  note rel = release_running_inv [OF inv Some]
  let ?r = "sd_running s ! pos" and ?s = "snd (release_running s pos)"
  have r: "?r \<in> set (sd_running s)" and pos: "pos < length (sd_running s)"
    using position_Some [OF Some] by simp_all
  have "running_ok (sd_config s) ?r" using inv r by (simp add: sched_inv_def)
  moreover have "tr_blocks_reserved ?r \<le> sd_total_blocks s"
    using inv sum_list_le_member [OF r, of tr_blocks_reserved] by (simp add: sched_inv_def)
  ultimately have "waiting_ok (sd_config s) (sd_total_blocks s) (?r\<lparr>tr_blocks_reserved := 0, tr_computed_tokens := 0\<rparr>)"
    by (simp add: waiting_ok_def running_ok_def lifetime_blocks_def)
  then show ?thesis
    using rel(1) inv Some pos by (auto simp: preempt_def sched_inv_def release_running_def Let_def)
next
  case None
  then show "sched_inv s \<Longrightarrow> sched_inv (snd (preempt s i))" by (simp add: preempt_def)
qed

lemma advance_inv: "sched_inv s \<Longrightarrow> sched_inv (snd (advance_speculative s i k))"
proof -
  assume inv: "sched_inv s"
  let ?run = "update_first (\<lambda>r. tr_id r = i) (advance_request k) (sd_running s)"
  have "map tr_blocks_reserved ?run = map tr_blocks_reserved (sd_running s)"
    by (rule map_update_first) (simp add: advance_request_def)
  moreover have "running_ok (sd_config s) r" if "r \<in> set ?run" for r
    using inv set_update_first [OF that]
    by (auto simp: sched_inv_def running_ok_def advance_request_def lifetime_blocks_def full_seq_len_fit)
  ultimately show ?thesis using inv by (auto simp: advance_speculative_def sched_inv_def)
qed

lemma sched_run_inv:
  "sched_run c n s \<Longrightarrow> config_ok c \<Longrightarrow> n < 2 ^ 31 \<Longrightarrow> sched_inv s \<and> sd_config s = c \<and> sd_total_blocks s = n"
proof (induction rule: sched_run.induct)
  case New
  then show ?case by (simp add: sched_inv_new) (simp add: sched_new_def)
next
  case (Admit s req k)
  then show ?case using admit_inv [of s req k] by (auto simp: admit_with_prefix_def Let_def)
next
  case (Finish s i)
  then show ?case using finish_inv [of s i]
    by (auto simp: finish_request_def release_running_def Let_def split: option.splits)
next
  case (Cancel s i)
  then show ?case using cancel_inv [of s i]
    by (auto simp: cancel_request_def finish_request_def release_running_def Let_def
        split: option.splits bool.splits prod.splits)
next
  case (Preempt s i)
  then show ?case using preempt_inv [of s i]
    by (auto simp: preempt_def release_running_def Let_def split: option.splits)
next
  case (Advance s i k)
  then show ?case using advance_inv [of s i k] by (auto simp: advance_speculative_def)
next
  case (Step s)
  then show ?case using step_inv [of s "fst (step s)" "snd (step s)"] by simp
qed

section \<open>Derived facts\<close>

lemma config_ok_of_new:
  assumes "sched_config_new tb bs md w d = Inr c" and "tb < 2 ^ 32" and "d < 2 ^ 32 - 1" and "5 * md < 2 ^ 32"
  shows "config_ok (with_prefill_slice c slice)"
proof -
  have "smul 32 md default_waiting_requests_multiplier + md \<le> 5 * md"
    by (simp add: smul_def default_waiting_requests_multiplier_def)
  then show ?thesis
    using assms by (auto simp: sched_config_new_Inr config_ok_def with_prefill_slice_def)
qed

lemma step_tokens:
  assumes "sched_inv s" and "step s = (batch, s')"
  shows "sum_list (map di_tokens (bd_decodes batch)) + sum_list (map pi_tokens (bd_prefills batch)) \<le>
           sc_token_budget (sd_config s)"
proof -
  let ?c = "sd_config s"
  obtain b1 run1 reserve b2 ps2 run2 free3 wait3 ps3 new where
    tr: "step_trace s batch s' b1 run1 reserve b2 ps2 run2 free3 wait3 ps3 new"
    using step_facts [OF assms] by blast
  then have ps: "bd_prefills batch = ps2 @ ps3"
    and ds: "bd_decodes batch = map (\<lambda>r. \<lparr>di_id = tr_id r, di_tokens = tokens_per_decode_step ?c\<rparr>)
       (take (sc_token_budget ?c div tokens_per_decode_step ?c) (filter wants_decode (sd_running s)))"
    and b: "b1 + tokens_per_decode_step ?c * length (bd_decodes batch) = sc_token_budget ?c"
      "b2 + sum_list (map pi_tokens ps2) = b1" "\<exists>b3. b3 + sum_list (map pi_tokens ps3) = b2"
    unfolding step_trace_def Let_def by blast+
  have "sum_list (map di_tokens (bd_decodes batch)) = tokens_per_decode_step ?c * length (bd_decodes batch)"
    unfolding ds by (simp add: o_def sum_list_triv mult.commute)
  then show ?thesis using b ps by auto
qed

lemma reservation_covers:
  assumes "sched_inv s" and "r \<in> set (sd_running s)"
  shows "tr_prompt_tokens r + tr_max_output_tokens r + sc_draft_tokens_per_step (sd_config s)
           \<le> tr_blocks_reserved r * sc_block_size (sd_config s)"
proof -
  have "running_ok (sd_config s) r" and "0 < sc_block_size (sd_config s)"
    using assms by (simp_all add: sched_inv_def config_ok_def)
  then show ?thesis using div_ceil_bounds(1) by (simp add: running_ok_def lifetime_blocks_def)
qed

lemma same_requests_admission:
  "list_all2 same_request (sd_running s) run1 \<Longrightarrow>
   admission_can_proceed (s\<lparr>sd_running := run1\<rparr>) = admission_can_proceed s"
  by (simp add: admission_can_proceed_def list_all2_lengthD split: list.splits)

lemma admit_phase_head:
  assumes "can_take c wm b free run req" and "admit_phase c wm b free run (req # wait) = (b', f, run', wait', ps)"
  shows "ps \<noteq> []"
  using assms by (auto simp: admit_phase_take [OF assms(1) refl] split: if_splits prod.splits)

lemma can_proceed_take:
  assumes "sched_inv s" and "admission_can_proceed s" and "0 < b" and "length run = length (sd_running s)"
  shows "\<exists>req wait. sd_waiting s = req # wait \<and>
     can_take (sd_config s) (watermark_blocks (sd_config s) (sd_total_blocks s)) b (sd_free_blocks s) run req"
  using assms by (auto simp: admission_can_proceed_def can_take_def split: if_splits list.splits)

lemma prefill_phase_idle:
  assumes "prefill_phase reserve slice idx budget rs = (b, [], rs')" and "reserve < budget" and "0 < slice"
    and "list_all (running_ok c) rs" and "\<forall>i \<in> set idx. i < length rs"
  shows "\<forall>i \<in> set idx. is_decode_ready (rs ! i)"
  using assms(1,5)
proof (induction idx)
  case (Cons i idx)
  have ok: "running_ok c (rs ! i)" using assms(4) Cons.prems(2) by (simp add: list_all_length)
  show ?case
  proof (cases "is_decode_ready (rs ! i)")
    case True
    then show ?thesis using Cons prefill_phase_skip [of budget reserve rs i slice idx] assms(2) by simp
  next
    case False
    have "0 < remaining_prompt (rs ! i)"
      using False ok by (simp add: is_decode_ready_def remaining_prompt_fit running_ok_def lengths_fit_def)
    then have chunk: "min (min (remaining_prompt (rs ! i)) slice) (budget - reserve) \<noteq> 0"
      using assms(2,3) by simp
    obtain b1 ps1 rs1 where "prefill_phase reserve slice idx
        (budget - min (min (remaining_prompt (rs ! i)) slice) (budget - reserve))
        (rs[i := grant (min (min (remaining_prompt (rs ! i)) slice) (budget - reserve)) (rs ! i)]) = (b1, ps1, rs1)"
      by (metis prod_cases3)
    from prefill_phase_grant [OF _ False refl chunk this] assms(2) Cons.prems(1) show ?thesis by simp
  qed
qed simp

lemma set_rotation: "set (rotation k n) = {..<n}"
proof (cases n)
  case (Suc m)
  have "i \<in> (\<lambda>j. (k + j) mod n) ` {..<n}" if "i < n" for i
  proof (rule image_eqI)
    have "(k + (i + n - k mod n) mod n) mod n = (k mod n + (i + n - k mod n)) mod n"
      by (simp add: mod_add_eq mod_add_right_eq mod_add_left_eq)
    also have "k mod n + (i + n - k mod n) = i + n"
      using Suc mod_less_divisor [of n k] by linarith
    finally show "i = (k + (i + n - k mod n) mod n) mod n" using that by simp
    show "(i + n - k mod n) mod n \<in> {..<n}" using Suc by simp
  qed
  then have "{..<n} \<subseteq> set (rotation k n)"
    by (auto simp only: rotation_def set_map set_upt lessThan_iff atLeast0LessThan)
  then show ?thesis using rotation_bounds by blast
qed (simp add: rotation_def)

section \<open>The example\<close>

lemma watermark_zero [simp]: "sc_watermark_fraction c = Finite 0 \<Longrightarrow> watermark_blocks c n = 0"
  by (simp add: watermark_blocks_def f64_of_u32_def f64_of_rat_def f64_round_def)

lemma example_config_new: "sched_config_new 8 2 3 (Finite 0) 1 = Inr example_config"
  by (simp add: sched_config_new_Inr in_unit_range_def wadd_def smul_def example_config_def
      default_waiting_requests_multiplier_def)

lemma example_config_ok: "config_ok example_config"
  by (simp add: config_ok_def example_config_def in_unit_range_def)

lemma example_sched_eq:
  "example_sched = \<lparr>sd_config = example_config, sd_total_blocks = 10, sd_free_blocks = 10,
     sd_waiting = [\<lparr>tr_id = 7, tr_prompt_tokens = 5, tr_max_output_tokens = 3, tr_computed_tokens = 0,
       tr_blocks_reserved = 0\<rparr>], sd_running = [], sd_prefill_cursor = 0\<rparr>"
  by (simp add: example_sched_def admit_def admit_with_prefix_def sched_new_def example_config_def
      example_request_def new_full_seq_len_def sadd_def blocks_needed_def wadd_def div_ceil_def track_def)

lemma example_run: "sched_run example_config 10 example_sched"
proof -
  have "lengths_fit example_config (nr_prompt_tokens example_request) (nr_max_output_tokens example_request)"
    by (simp add: lengths_fit_def example_config_def example_request_def)
  then show ?thesis unfolding example_sched_def admit_def by (intro sched_run.Admit sched_run.New)
qed

lemma example_can_proceed: "admission_can_proceed example_sched"
  by (simp add: admission_can_proceed_def example_sched_eq blocks_needed_def full_seq_len_def wadd_def
      div_ceil_def) (simp add: example_config_def)

section \<open>Properties\<close>



text \<open>C33: One step never schedules more tokens than the budget, decodes with their drafts and all prefill
  chunks together, and the reported total does not wrap.\<close>

theorem step_within_budget:
  assumes "sched_run c n s" and "config_ok c" and "n < 2 ^ 31" and "step s = (batch, s')"
  shows "total_tokens batch \<le> sc_token_budget c \<and>
         total_tokens batch = sum_list (map di_tokens (bd_decodes batch)) + sum_list (map pi_tokens (bd_prefills batch))"
proof -
  have inv: "sched_inv s" and c: "sd_config s = c" using sched_run_inv [OF assms(1-3)] by simp_all
  have le: "sum_list (map di_tokens (bd_decodes batch)) + sum_list (map pi_tokens (bd_prefills batch)) \<le>
      sc_token_budget c" using step_tokens [OF inv assms(4)] c by simp
  moreover have "sc_token_budget c < 2 ^ 32" using assms(2) by (simp add: config_ok_def)
  ultimately have "sum_list (map di_tokens (bd_decodes batch)) + sum_list (map pi_tokens (bd_prefills batch)) < 2 ^ 32"
    by (rule le_less_trans)
  with le show ?thesis by (simp add: total_tokens_sum)
qed

theorem step_within_budget_witness: "total_tokens (fst (step example_sched)) \<le> 8"
  using step_within_budget [OF example_run example_config_ok _ prod.collapse [symmetric]]
  by (simp add: example_config_def)

text \<open>C34: The admission check the router uses and admission itself agree on every scheduler state:
  \<open>can_admit\<close> holds exactly when \<open>admit\<close> enqueues the request, a refusal is the error \<open>admit\<close>
  returns, and a refused admission changes nothing.\<close>

theorem admit_agrees_with_refusal:
  "admit s req = (case refusal_for s req of
      None \<Rightarrow> (Inr (nr_id req), s\<lparr>sd_waiting := sd_waiting s @ [track req 0]\<rparr>)
    | Some e \<Rightarrow> (Inl e, s)) \<and>
   (can_admit s req \<longleftrightarrow> fst (admit s req) = Inr (nr_id req))"
  by (simp add: admit_def admit_with_prefix_def refusal_for_def can_admit_def Let_def)

text \<open>C32: The queue head is not starved: when a slot is free and the head's blocks fit above the
  watermark, and the decodes of the step leave any budget, the step starts the head, whatever long
  prefills are in flight, and the watermark stays free.\<close>

theorem queue_head_is_admitted:
  assumes "sched_run c n s" and "config_ok c" and "n < 2 ^ 31" and "1 < sc_token_budget c"
    and "admission_can_proceed s"
    and "length (sd_running s) * (1 + sc_draft_tokens_per_step c) < sc_token_budget c"
    and "step s = (batch, s')"
  shows "is_running s' (tr_id (hd (sd_waiting s))) \<and>
         tr_id (hd (sd_waiting s)) \<in> pi_id ` set (bd_prefills batch) \<and>
         watermark_blocks c n \<le> sd_free_blocks s'"
proof -
  have inv: "sched_inv s" and c: "sd_config s = c" and n: "sd_total_blocks s = n"
    using sched_run_inv [OF assms(1-3)] by simp_all
  obtain b1 run1 reserve b2 ps2 run2 free3 wait3 ps3 new where
    tr: "step_trace s batch s' b1 run1 reserve b2 ps2 run2 free3 wait3 ps3 new"
    using step_facts [OF inv assms(7)] by blast
  then have reserve: "reserve = (if admission_can_proceed (s\<lparr>sd_running := run1\<rparr>)
       then sc_token_budget c div admission_reserve_fraction else 0)"
    and adm: "\<exists>b3. admit_phase c (watermark_blocks c n) b2 (sd_free_blocks s) run2 (sd_waiting s) =
       (b3, free3, run2 @ new, wait3, ps3)"
    and ps: "bd_prefills batch = ps2 @ ps3"
    and ds: "length (bd_decodes batch) \<le> length (filter wants_decode (sd_running s))"
    and b1: "b1 + tokens_per_decode_step c * length (bd_decodes batch) = sc_token_budget c"
    and same: "list_all2 same_request (sd_running s) run1" "list_all2 same_request run1 run2"
    and b2: "min b1 reserve \<le> b2"
    and ids: "map tr_id (sd_waiting s) = map tr_id new @ map tr_id wait3" "map pi_id ps3 = map tr_id new"
    and wm: "new \<noteq> [] \<longrightarrow> watermark_blocks c n \<le> free3"
    and s': "sd_running s' = run2 @ new" "sd_free_blocks s' = free3"
    unfolding step_trace_def Let_def c n by auto
  have "length (bd_decodes batch) \<le> length (sd_running s)"
    using ds length_filter_le order_trans by blast
  then have "tokens_per_decode_step c * length (bd_decodes batch) \<le>
      length (sd_running s) * (1 + sc_draft_tokens_per_step c)"
    unfolding decode_cost [OF assms(2)] mult.commute [of "1 + sc_draft_tokens_per_step c"] by (rule mult_le_mono1)
  then have "0 < b1" using b1 assms(6) by linarith
  moreover have "0 < reserve"
    using reserve same_requests_admission [OF same(1)] assms(4,5) by (simp add: admission_reserve_fraction_def)
  ultimately have "0 < b2" using b2 by simp
  moreover have "length run2 = length (sd_running s)"
    using list_all2_lengthD [OF same(1)] list_all2_lengthD [OF same(2)] by simp
  ultimately obtain req wait where w: "sd_waiting s = req # wait"
    and take: "can_take c (watermark_blocks c n) b2 (sd_free_blocks s) run2 req"
    using can_proceed_take [OF inv assms(5)] c n by blast
  have "ps3 \<noteq> []" using adm admit_phase_head [OF take] unfolding w by metis
  then obtain q new' where new: "new = q # new'" using ids(2) by (cases new) auto
  then have "tr_id q = tr_id req" using ids(1) w by simp
  moreover have "tr_id q \<in> pi_id ` set ps3"
    using ids(2) new by (metis list.set_intros(1) list.set_map list.simps(9))
  ultimately show ?thesis using w new s' ps wm by (auto simp: is_running_def)
qed

theorem queue_head_is_admitted_witness: "is_running (snd (step example_sched)) 7"
  using queue_head_is_admitted [OF example_run example_config_ok _ _ example_can_proceed _ prod.collapse [symmetric]]
  by (simp add: example_sched_eq) (simp add: example_config_def)

text \<open>Decodes come first and in order: a step decodes the first \<open>budget div (1 + draft)\<close> running
  requests that have output left, each once and charged with its draft window; when the budget covers
  them all, no decode-ready request is left out, whatever prefill work exists.\<close>

theorem decodes_come_first:
  assumes "sched_run c n s" and "config_ok c" and "n < 2 ^ 31" and "step s = (batch, s')"
  shows "bd_decodes batch = map (\<lambda>r. \<lparr>di_id = tr_id r, di_tokens = 1 + sc_draft_tokens_per_step c\<rparr>)
           (take (sc_token_budget c div (1 + sc_draft_tokens_per_step c)) (filter wants_decode (sd_running s))) \<and>
         (length (sd_running s) * (1 + sc_draft_tokens_per_step c) \<le> sc_token_budget c \<longrightarrow>
            map di_id (bd_decodes batch) = map tr_id (filter wants_decode (sd_running s)))"
proof -
  have inv: "sched_inv s" and c: "sd_config s = c" using sched_run_inv [OF assms(1-3)] by simp_all
  obtain b1 run1 reserve b2 ps2 run2 free3 wait3 ps3 new where
    "step_trace s batch s' b1 run1 reserve b2 ps2 run2 free3 wait3 ps3 new"
    using step_facts [OF inv assms(4)] by blast
  then have ds: "bd_decodes batch = map (\<lambda>r. \<lparr>di_id = tr_id r, di_tokens = 1 + sc_draft_tokens_per_step c\<rparr>)
      (take (sc_token_budget c div (1 + sc_draft_tokens_per_step c)) (filter wants_decode (sd_running s)))"
    unfolding step_trace_def Let_def c decode_cost [OF assms(2)] by blast
  have "length (filter wants_decode (sd_running s)) \<le> sc_token_budget c div (1 + sc_draft_tokens_per_step c)"
    if "length (sd_running s) * (1 + sc_draft_tokens_per_step c) \<le> sc_token_budget c"
  proof -
    have "length (sd_running s) \<le> sc_token_budget c div (1 + sc_draft_tokens_per_step c)"
      using that by (simp only: less_eq_div_iff_mult_less_eq zero_less_Suc plus_1_eq_Suc)
    then show ?thesis using length_filter_le order_trans by blast
  qed
  with ds show ?thesis by (auto simp: o_def)
qed

theorem decodes_come_first_witness: "map di_id (bd_decodes (fst (step example_sched))) = []"
  using decodes_come_first [OF example_run example_config_ok _ prod.collapse [symmetric]]
  by (simp add: example_sched_eq)

text \<open>A step that schedules nothing had nothing to do: every running request has produced its whole
  output, and the queue is empty or its head cannot be admitted. The scheduler never idles on work.\<close>

theorem idle_step_has_no_work:
  assumes "sched_run c n s" and "config_ok c" and "n < 2 ^ 31" and "1 < sc_token_budget c"
    and "sc_draft_tokens_per_step c < sc_token_budget c"
    and "step s = (batch, s')" and "bd_decodes batch = []" and "bd_prefills batch = []"
  shows "(\<forall>r \<in> set (sd_running s). tr_computed_tokens r = tr_prompt_tokens r + tr_max_output_tokens r) \<and>
         \<not> admission_can_proceed s"
proof -
  have inv: "sched_inv s" and c: "sd_config s = c" and n: "sd_total_blocks s = n"
    using sched_run_inv [OF assms(1-3)] by simp_all
  obtain b1 run1 reserve b2 ps2 run2 free3 wait3 ps3 new where
    tr: "step_trace s batch s' b1 run1 reserve b2 ps2 run2 free3 wait3 ps3 new"
    using step_facts [OF inv assms(6)] by blast
  note tr = tr [unfolded step_trace_def Let_def c n]
  have d: "decode_phase (tokens_per_decode_step c) (sc_token_budget c) (sd_running s) = (b1, [], run1)"
    and ps: "ps2 = []" "ps3 = []" and b1: "b1 = sc_token_budget c"
    and none: "take (sc_token_budget c div tokens_per_decode_step c) (filter wants_decode (sd_running s)) = []"
    using tr assms(7,8) by auto
  have same: "list_all2 same_request (sd_running s) run1" "list_all2 same_request run1 run2"
    and ok: "list_all (running_ok c) run1" and b2: "b2 + sum_list (map pi_tokens ps2) = b1"
    and p: "prefill_phase reserve (slice_of c) (rotation (sd_prefill_cursor s mod length run1) (length run1)) b1 run1 =
      (b2, ps2, run2)"
    and a: "\<exists>b3. admit_phase c (watermark_blocks c n) b2 (sd_free_blocks s) run2 (sd_waiting s) =
       (b3, free3, run2 @ new, wait3, ps3)"
    and r: "reserve = (if admission_can_proceed (s\<lparr>sd_running := run1\<rparr>)
       then sc_token_budget c div admission_reserve_fraction else 0)"
    using tr by blast+
  have "0 < sc_token_budget c div tokens_per_decode_step c"
    using assms(5) decode_cost [OF assms(2)] by (simp add: div_greater_zero_iff)
  then have nodec: "filter wants_decode (sd_running s) = []" using none by (cases "filter wants_decode (sd_running s)") auto
  then have run1: "run1 = sd_running s" using decode_phase_none [OF nodec] d by simp
  have len: "length run2 = length (sd_running s)" using same list_all2_lengthD by metis
  have blocked: "\<not> admission_can_proceed s"
  proof
    assume "admission_can_proceed s"
    then obtain req wait where "sd_waiting s = req # wait"
      "can_take c (watermark_blocks c n) b2 (sd_free_blocks s) run2 req"
      using can_proceed_take [OF inv _ _ len, of b2] b1 b2 ps assms(4) c n by auto
    with a admit_phase_head ps(2) show False by metis
  qed
  then have "reserve = 0" using r run1 by simp
  moreover have "0 < slice_of c" by (simp add: slice_of_def)
  ultimately have "\<forall>i < length run1. is_decode_ready (run1 ! i)"
    using prefill_phase_idle [OF p [unfolded ps(1)] _ _ ok] b1 assms(4) by (simp add: set_rotation)
  then have ready: "\<forall>r \<in> set (sd_running s). is_decode_ready r" using run1 by (metis in_set_conv_nth)
  show ?thesis
  proof (intro conjI ballI)
    fix r assume "r \<in> set (sd_running s)"
    then have "running_ok c r" "\<not> wants_decode r" "is_decode_ready r"
      using inv c nodec ready by (auto simp: sched_inv_def filter_empty_conv)
    then show "tr_computed_tokens r = tr_prompt_tokens r + tr_max_output_tokens r"
      by (auto simp: running_ok_def wants_decode_def full_seq_len_fit)
  qed (rule blocked)
qed

theorem idle_step_has_no_work_witness: "\<not> admission_can_proceed (sched_new example_config 10)"
proof -
  have idle: "step (sched_new example_config 10) =
      (\<lparr>bd_decodes = [], bd_prefills = []\<rparr>, sched_new example_config 10)"
    by (simp add: step_def sched_new_def Let_def)
  show ?thesis
    using idle_step_has_no_work [OF sched_run.New example_config_ok _ _ _ idle]
    by (simp add: example_config_def)
qed

text \<open>Finishing a running request returns exactly its reservation to the pool and removes that request
  only; finishing an unknown one changes nothing.\<close>

theorem finish_releases_reservation:
  assumes "sched_run c n s" and "config_ok c" and "n < 2 ^ 31"
  shows "case reserved_attention_blocks s i of
      None \<Rightarrow> finish_request s i = (False, s)
    | Some k \<Rightarrow> (\<exists>s'. finish_request s i = (True, s') \<and> sd_free_blocks s' = sd_free_blocks s + k \<and>
                  sd_waiting s' = sd_waiting s \<and>
                  (\<exists>r \<in> set (sd_running s). tr_id r = i \<and> mset (sd_running s) = add_mset r (mset (sd_running s'))))"
proof -
  have inv: "sched_inv s" using sched_run_inv [OF assms] by simp
  have find: "find p rs = (case position p rs of None \<Rightarrow> None | Some k \<Rightarrow> Some (rs ! k))"
    for p and rs :: "tracked_request list"
    by (induction rs) (auto split: option.splits)
  show ?thesis
  proof (cases "position (\<lambda>r. tr_id r = i) (sd_running s)")
    case None
    then show ?thesis by (simp add: reserved_attention_blocks_def find finish_request_def)
  next
    case (Some pos)
    let ?r = "sd_running s ! pos"
    have pos: "pos < length (sd_running s)" "tr_id ?r = i" using position_Some [OF Some] by simp_all
    have run: "sd_running (snd (release_running s pos)) = remove_at pos (sd_running s)"
      "sd_waiting (snd (release_running s pos)) = sd_waiting s"
      by (simp_all add: release_running_def Let_def)
    have "?r \<in> set (sd_running s)" "mset (sd_running s) = add_mset ?r (mset (remove_at pos (sd_running s)))"
      using pos mset_remove_at by simp_all
    then show ?thesis
      using Some pos release_running_inv(2) [OF inv Some] run
      by (auto simp: reserved_attention_blocks_def find finish_request_def)
  qed
qed

theorem finish_releases_reservation_witness:
  "finish_request example_sched 9 = (False, example_sched)"
  using finish_releases_reservation [OF example_run example_config_ok, of 9]
  by (simp add: reserved_attention_blocks_def example_sched_eq)

text \<open>The per-slot ceiling divides the pool fairly: as many requests as there are slots, each within
  the ceiling, need together no more blocks than exist.\<close>

theorem per_slot_ceiling_fits_pool:
  assumes "sched_run c n s" and "config_ok c" and "n < 2 ^ 31"
    and "0 < per_slot_token_ceiling s" and "len \<le> per_slot_token_ceiling s"
  shows "sc_max_concurrent_decodes c * blocks_needed c len \<le> n"
proof -
  have c: "sd_config s = c" and n: "sd_total_blocks s = n" using sched_run_inv [OF assms(1-3)] by simp_all
  let ?slots = "max (sc_max_concurrent_decodes c) 1" and ?d = "sc_draft_tokens_per_step c"
  let ?share = "n div ?slots" and ?bs = "sc_block_size c"
  have ceiling: "per_slot_token_ceiling s = smul 32 ?share ?bs - ?d"
    by (simp add: per_slot_token_ceiling_def Let_def c n)
  then have "len + ?d \<le> smul 32 ?share ?bs" using assms(4,5) by linarith
  then have le: "len + ?d \<le> ?share * ?bs" and small: "len + ?d < 2 ^ 32"
    by (simp_all add: smul_def)
  have "blocks_needed c len \<le> ?share"
    using le small assms(2) by (simp add: blocks_needed_fit div_ceil_le_iff config_ok_def)
  then have "sc_max_concurrent_decodes c * blocks_needed c len \<le> ?slots * ?share"
    by (intro mult_le_mono) simp_all
  also have "\<dots> \<le> n" by simp
  finally show ?thesis .
qed

theorem per_slot_ceiling_fits_pool_witness: "3 * blocks_needed example_config 5 \<le> 10"
  using per_slot_ceiling_fits_pool [OF example_run example_config_ok, of 5]
  by (simp add: per_slot_token_ceiling_def example_sched_eq smul_def)
    (simp add: example_config_def smul_def)

text \<open>The admission check computes a request's block need with a wrapping addition of the draft
  window: a request whose lifetime saturates at the largest 32-bit length is admitted to a pool of ten
  blocks, although it could never fit.\<close>

theorem saturated_length_is_admitted:
  "can_admit (sched_new example_config 10) \<lparr>nr_id = 1, nr_prompt_tokens = 2 ^ 32 - 1, nr_max_output_tokens = 1\<rparr> \<and>
   10 < div_ceil (2 ^ 32 - 1 + sc_draft_tokens_per_step example_config) (sc_block_size example_config)"
  by (simp add: can_admit_def refusal_for_def Let_def sched_new_def new_full_seq_len_def sadd_def
      blocks_needed_def wadd_def div_ceil_def example_config_def)

text \<open>The construction check \<open>token_budget > block_size + max_concurrent_decodes\<close> ignores the draft
  window each decode is charged: an accepted configuration reaches a state with a free slot and an
  admissible queue head in which the decodes take the whole budget and the head does not start.\<close>

theorem drafts_can_starve_admission:
  "sched_config_new 8 2 3 (Finite 0) 3 = Inr drafting_config \<and>
   sched_run drafting_config 100 drafting_sched \<and> admission_can_proceed drafting_sched \<and>
   bd_prefills (fst (step drafting_sched)) = []"
proof (intro conjI)
  show "sched_config_new 8 2 3 (Finite 0) 3 = Inr drafting_config"
    by (simp add: sched_config_new_Inr in_unit_range_def wadd_def smul_def drafting_config_def
        default_waiting_requests_multiplier_def)
  have "lengths_fit drafting_config (nr_prompt_tokens (small_request i)) (nr_max_output_tokens (small_request i))" for i
    by (simp add: lengths_fit_def drafting_config_def small_request_def)
  then show "sched_run drafting_config 100 drafting_sched"
    unfolding drafting_sched_def admit_def by (intro sched_run.Admit sched_run.Step sched_run.New)
  have eq: "drafting_sched = \<lparr>sd_config = drafting_config, sd_total_blocks = 100, sd_free_blocks = 90,
     sd_waiting = [\<lparr>tr_id = 3, tr_prompt_tokens = 1, tr_max_output_tokens = 5, tr_computed_tokens = 0,
       tr_blocks_reserved = 0\<rparr>],
     sd_running = [\<lparr>tr_id = 1, tr_prompt_tokens = 1, tr_max_output_tokens = 5, tr_computed_tokens = 1,
       tr_blocks_reserved = 5\<rparr>, \<lparr>tr_id = 2, tr_prompt_tokens = 1, tr_max_output_tokens = 5,
       tr_computed_tokens = 1, tr_blocks_reserved = 5\<rparr>], sd_prefill_cursor = 0\<rparr>"
    by (simp add: drafting_sched_def admit_def admit_with_prefix_def sched_new_def small_request_def
        new_full_seq_len_def sadd_def blocks_needed_def wadd_def div_ceil_def track_def step_def Let_def
        full_seq_len_def drafting_config_def admit_phase.simps slice_of_def grant_def remaining_prompt_def
        wsub_def)
  show "admission_can_proceed drafting_sched"
    by (simp add: eq admission_can_proceed_def blocks_needed_def full_seq_len_def wadd_def div_ceil_def
        drafting_config_def)
  show "bd_prefills (fst (step drafting_sched)) = []"
    by (simp add: eq step_def Let_def wants_decode_def is_decode_ready_def full_seq_len_def wadd_def
        tokens_per_decode_step_def drafting_config_def rotation_def upt_rec prefill_phase.simps
        admit_phase.simps)
qed

end
