(* ===== verification/Router.thy ===== *)
theory Router
  imports Prelude Float64
begin

text \<open>
  Cache-aware routing, \<open>crates/xabe-engine/src/router.rs\<close>: the score of a worker for a request, in
  binary64 arithmetic with its roundings, and the choice of the best admissible worker.
\<close>

type_synonym worker_id = nat

record router_config =
  rc_prefix_weight :: f64
  rc_queue_weight :: f64
  rc_kv_weight :: f64
  rc_residency_weight :: f64

definition balanced :: router_config where
  "balanced = \<lparr>rc_prefix_weight = f64_of_rat 1, rc_queue_weight = f64_of_rat (3 / 10),
     rc_kv_weight = f64_of_rat (1 / 2), rc_residency_weight = f64_of_rat 2\<rparr>"

definition max_preference_swing :: "router_config \<Rightarrow> f64" where
  "max_preference_swing cfg = f64_add (rc_prefix_weight cfg) (rc_kv_weight cfg)"

definition balances_before_it_prefers_cache :: "router_config \<Rightarrow> bool" where
  "balances_before_it_prefers_cache cfg = f64_less (max_preference_swing cfg) (rc_residency_weight cfg)"

record worker_load =
  wl_id :: worker_id
  wl_matched_tokens :: nat
  wl_queued_tokens :: nat
  wl_kv_utilization :: f64
  wl_resident_sequences :: nat
  wl_can_admit :: bool

definition prefix_fraction :: "worker_load \<Rightarrow> nat \<Rightarrow> f64" where
  "prefix_fraction l prompt_tokens =
     (if prompt_tokens = 0 then Finite 0
      else f64_div (f64_of_u32 (min (wl_matched_tokens l) prompt_tokens)) (f64_of_u32 prompt_tokens))"

definition queue_pressure :: "worker_load \<Rightarrow> nat \<Rightarrow> f64" where
  "queue_pressure l token_budget =
     (if token_budget = 0 then Finite 0
      else f64_div (f64_of_u32 (wl_queued_tokens l)) (f64_of_u32 token_budget))"

definition score :: "worker_load \<Rightarrow> router_config \<Rightarrow> nat \<Rightarrow> nat \<Rightarrow> f64" where
  "score l cfg prompt_tokens token_budget =
     f64_sub (f64_sub (f64_sub
       (f64_mul (rc_prefix_weight cfg) (prefix_fraction l prompt_tokens))
       (f64_mul (rc_queue_weight cfg) (queue_pressure l token_budget)))
       (f64_mul (rc_kv_weight cfg) (wl_kv_utilization l)))
       (f64_mul (rc_residency_weight cfg) (f64_of_u32 (wl_resident_sequences l)))"

datatype routing_error = NoWorkers | AllWorkersSaturated

record routed =
  rt_worker :: worker_id
  rt_score :: f64
  rt_matched_tokens :: nat

text \<open>The loop body: a strictly greater score replaces the best so far.\<close>

definition consider_load :: "router_config \<Rightarrow> nat \<Rightarrow> nat \<Rightarrow> worker_load \<Rightarrow> routed option \<Rightarrow> routed option" where
  "consider_load cfg prompt_tokens token_budget l best =
     (let s = score l cfg prompt_tokens token_budget;
          better = (case best of None \<Rightarrow> True | Some b \<Rightarrow> f64_less (rt_score b) s)
      in if better then Some \<lparr>rt_worker = wl_id l, rt_score = s, rt_matched_tokens = wl_matched_tokens l\<rparr>
         else best)"

definition route :: "router_config \<Rightarrow> worker_load list \<Rightarrow> nat \<Rightarrow> nat \<Rightarrow> routing_error + routed" where
  "route cfg loads prompt_tokens token_budget =
     (if loads = [] then Inl NoWorkers
      else case fold (consider_load cfg prompt_tokens token_budget) (filter wl_can_admit loads) None of
        Some r \<Rightarrow> Inr r
      | None \<Rightarrow> Inl AllWorkersSaturated)"

section \<open>Order of scores\<close>

lemma f64_less_irrefl [simp]: "\<not> f64_less x x"
  by (cases x) auto

lemma f64_less_trans: "f64_less x y \<Longrightarrow> f64_less y z \<Longrightarrow> f64_less x z"
  by (cases x; cases y; cases z) auto

lemma f64_not_less_trans:
  "y \<noteq> NaN \<Longrightarrow> \<not> f64_less y x \<Longrightarrow> f64_less y z \<Longrightarrow> f64_less x z \<or> x = NaN"
  by (cases x; cases y; cases z) auto

lemma f64_not_less_le:
  "y \<noteq> NaN \<Longrightarrow> \<not> f64_less x y \<Longrightarrow> \<not> f64_less y z \<Longrightarrow> \<not> f64_less x z"
  by (cases x; cases y; cases z) auto

section \<open>The loop keeps the first best\<close>

definition routed_of :: "(worker_load \<Rightarrow> f64) \<Rightarrow> worker_load \<Rightarrow> routed" where
  "routed_of f l = \<lparr>rt_worker = wl_id l, rt_score = f l, rt_matched_tokens = wl_matched_tokens l\<rparr>"

lemma consider_load_None: "consider_load cfg p t l None = Some (routed_of (\<lambda>l. score l cfg p t) l)"
  by (simp add: consider_load_def routed_of_def)

lemma consider_load_Some:
  "consider_load cfg p t l (Some (routed_of (\<lambda>l. score l cfg p t) k)) =
     Some (routed_of (\<lambda>l. score l cfg p t) (if f64_less (score k cfg p t) (score l cfg p t) then l else k))"
  by (simp add: consider_load_def routed_of_def Let_def)

lemma consider_loads_first_best:
  assumes "xs \<noteq> []" and "\<forall>l \<in> set xs. score l cfg p t \<noteq> NaN"
  shows "\<exists>i < length xs. fold (consider_load cfg p t) xs None = Some (routed_of (\<lambda>l. score l cfg p t) (xs ! i)) \<and>
     (\<forall>j < length xs. \<not> f64_less (score (xs ! i) cfg p t) (score (xs ! j) cfg p t)) \<and>
     (\<forall>j < i. f64_less (score (xs ! j) cfg p t) (score (xs ! i) cfg p t))"
  using assms
proof (induction xs rule: rev_nonempty_induct)
  case (single x)
  then show ?case by (simp add: consider_load_None)
next
  case (snoc x xs)
  let ?f = "\<lambda>l. score l cfg p t"
  obtain i where i: "i < length xs" and best: "fold (consider_load cfg p t) xs None = Some (routed_of ?f (xs ! i))"
    and max: "\<forall>j < length xs. \<not> f64_less (?f (xs ! i)) (?f (xs ! j))"
    and first: "\<forall>j < i. f64_less (?f (xs ! j)) (?f (xs ! i))" using snoc by auto
  have nan: "?f (xs ! i) \<noteq> NaN" "?f x \<noteq> NaN" using snoc.prems i by auto
  show ?case
  proof (cases "f64_less (?f (xs ! i)) (?f x)")
    case True
    have below: "f64_less (?f (xs ! j)) (?f x)" if "j < length xs" for j
      using f64_not_less_trans [OF nan(1) _ True] max snoc.prems that by (metis nth_mem butlast_snoc in_set_butlastD)
    have "\<not> f64_less (?f x) (?f ((xs @ [x]) ! j))" if "j < length (xs @ [x])" for j
      using below f64_less_trans that by (cases "j = length xs") (fastforce simp: nth_append less_Suc_eq)+
    then show ?thesis
      using True best below
      by (intro exI [of _ "length xs"]) (auto simp: consider_load_Some nth_append)
  next
    case False
    then show ?thesis
      using best max first i
      by (intro exI [of _ i]) (auto simp: consider_load_Some nth_append less_Suc_eq)
  qed
qed

section \<open>Properties\<close>

text \<open>Routing returns an admissible worker of maximal score, the earliest of them on a tie, together
  with its score and matched length; it reports \<open>NoWorkers\<close> exactly on an empty fleet and
  \<open>AllWorkersSaturated\<close> exactly when no worker can admit. No score may be NaN.\<close>

theorem route_picks_first_best:
  assumes "\<forall>l \<in> set loads. wl_can_admit l \<longrightarrow> score l cfg p t \<noteq> NaN"
  shows "case route cfg loads p t of
      Inl NoWorkers \<Rightarrow> loads = []
    | Inl AllWorkersSaturated \<Rightarrow> loads \<noteq> [] \<and> (\<forall>l \<in> set loads. \<not> wl_can_admit l)
    | Inr r \<Rightarrow> (\<exists>i < length (filter wl_can_admit loads). let xs = filter wl_can_admit loads in
        r = \<lparr>rt_worker = wl_id (xs ! i), rt_score = score (xs ! i) cfg p t,
             rt_matched_tokens = wl_matched_tokens (xs ! i)\<rparr> \<and>
        (\<forall>j < length xs. \<not> f64_less (score (xs ! i) cfg p t) (score (xs ! j) cfg p t)) \<and>
        (\<forall>j < i. f64_less (score (xs ! j) cfg p t) (score (xs ! i) cfg p t)))"
proof (cases "filter wl_can_admit loads = []")
  case True
  then show ?thesis by (auto simp: route_def filter_empty_conv)
next
  case False
  then have "loads \<noteq> []" by auto
  with consider_loads_first_best [OF False, of cfg p t] assms show ?thesis
    by (auto simp: route_def routed_of_def Let_def)
qed

theorem route_picks_first_best_witness:
  "route balanced [\<lparr>wl_id = 0, wl_matched_tokens = 0, wl_queued_tokens = 0, wl_kv_utilization = Finite 0,
      wl_resident_sequences = 0, wl_can_admit = False\<rparr>] 0 0 = Inl AllWorkersSaturated"
  using route_picks_first_best [of "[\<lparr>wl_id = 0, wl_matched_tokens = 0, wl_queued_tokens = 0,
      wl_kv_utilization = Finite 0, wl_resident_sequences = 0, wl_can_admit = False\<rparr>]" balanced 0 0]
  by (auto split: sum.splits routing_error.splits)

end
