(* ===== verification/Drafter.thy ===== *)
theory Drafter
  imports Prelude
begin

text \<open>
  The interface every self-speculative drafter of \<open>crates/xabe-sched\<close> offers the runtime (the four calls
  of \<open>SelfSpeculator\<close> in \<open>spec.rs\<close>): \<open>observe_all\<close> for prompt chunks, \<open>observe\<close> for a generated token,
  \<open>propose_into\<close> before a decode step and \<open>accept\<close> after verification. A call that would panic gives
  \<open>None\<close>. The locale states the contract and proves once what holds for every sequence of calls; the
  variants interpret it.
\<close>

type_synonym token = int

text \<open>The four calls, with the capacity and contents of the vector handed to \<open>propose_into\<close>.\<close>

datatype draft_call = Observe token | ObserveAll "token list" | Propose nat "token list" | Accept nat

record 's drafter_ops =
  op_observe :: "'s \<Rightarrow> token \<Rightarrow> 's option"
  op_observe_all :: "'s \<Rightarrow> token list \<Rightarrow> 's option"
  op_propose :: "'s \<Rightarrow> nat \<Rightarrow> token list \<Rightarrow> (nat \<times> token list \<times> 's) option"
  op_accept :: "'s \<Rightarrow> nat \<Rightarrow> 's option"

fun draft_call_step :: "'s drafter_ops \<Rightarrow> draft_call \<Rightarrow> 's \<Rightarrow> 's option" where
  "draft_call_step ops (Observe t) s = op_observe ops s t"
| "draft_call_step ops (ObserveAll ts) s = op_observe_all ops s ts"
| "draft_call_step ops (Propose cap out) s = map_option (\<lambda>(_, _, s). s) (op_propose ops s cap out)"
| "draft_call_step ops (Accept k) s = op_accept ops s k"

fun draft_calls :: "'s drafter_ops \<Rightarrow> draft_call list \<Rightarrow> 's \<Rightarrow> 's option" where
  "draft_calls ops [] s = Some s"
| "draft_calls ops (c # cs) s = Option.bind (draft_call_step ops c s) (draft_calls ops cs)"

text \<open>What \<open>propose_into\<close> promises of its output vector: only tokens appended, their number returned, at
  most \<open>limit\<close> of them, and never beyond the reserved capacity (the buffer is not grown).\<close>

definition draft_fits :: "nat \<Rightarrow> nat \<Rightarrow> token list \<Rightarrow> nat \<Rightarrow> token list \<Rightarrow> bool" where
  "draft_fits limit cap out k out' \<longleftrightarrow> (\<exists>draft. out' = out @ draft \<and> k = length draft \<and>
     k \<le> limit \<and> (draft \<noteq> [] \<longrightarrow> length out' \<le> cap))"

lemma draft_fitsI: "k = length draft \<Longrightarrow> k \<le> min (cap - length out) limit \<Longrightarrow> draft_fits limit cap out k (out @ draft)"
  by (auto simp: draft_fits_def neq_Nil_conv)

lemma draft_fits_none [simp]: "draft_fits limit cap out 0 out"
  by (simp add: draft_fits_def)

locale drafter =
  fixes inv :: "'s \<Rightarrow> bool" and limit :: "'s \<Rightarrow> nat" and ops :: "'s drafter_ops"
  assumes observe_ok: "inv s \<Longrightarrow> \<exists>s'. op_observe ops s t = Some s' \<and> inv s' \<and> limit s' = limit s"
    and observe_all_ok: "inv s \<Longrightarrow> \<exists>s'. op_observe_all ops s ts = Some s' \<and> inv s' \<and> limit s' = limit s"
    and propose_ok: "inv s \<Longrightarrow> \<exists>k out' s'. op_propose ops s cap out = Some (k, out', s') \<and> inv s' \<and>
      limit s' = limit s \<and> draft_fits (limit s) cap out k out'"
    and accept_ok: "inv s \<Longrightarrow> \<exists>s'. op_accept ops s j = Some s' \<and> inv s' \<and> limit s' = limit s"
begin

lemma step_ok: "inv s \<Longrightarrow> \<exists>s'. draft_call_step ops c s = Some s' \<and> inv s' \<and> limit s' = limit s"
proof (cases c)
  case (Propose cap out)
  assume "inv s"
  then obtain k out' s' where "op_propose ops s cap out = Some (k, out', s')" "inv s'" "limit s' = limit s"
    using propose_ok by meson
  then show ?thesis using Propose by simp
qed (use observe_ok observe_all_ok accept_ok in auto)

lemma calls_ok: "inv s \<Longrightarrow> \<exists>s'. draft_calls ops cs s = Some s' \<and> inv s' \<and> limit s' = limit s"
proof (induction cs arbitrary: s)
  case (Cons c cs)
  obtain s1 where s1: "draft_call_step ops c s = Some s1" "inv s1" "limit s1 = limit s"
    using step_ok [OF Cons.prems] by blast
  then show ?case using Cons.IH [of s1] by simp
qed simp

lemma propose_after_calls:
  assumes "inv s"
  shows "\<exists>s' k out' s''. draft_calls ops cs s = Some s' \<and> inv s' \<and> limit s' = limit s \<and>
    op_propose ops s' cap out = Some (k, out', s'') \<and> draft_fits (limit s) cap out k out'"
  using calls_ok [OF assms] propose_ok by metis

end

section \<open>Drafters that share state\<close>

text \<open>A worker drives one drafter per sequence, and the drafters may share state (the \<open>ngram-mod\<close> table
  behind \<open>Rc<RefCell>\<close>). A call on sequence \<open>i\<close> sees the shared state the calls before it left, whatever
  sequences they were made on.\<close>

fun shared_call :: "('s \<times> 't) drafter_ops \<Rightarrow> nat \<times> draft_call \<Rightarrow> 's list \<times> 't \<Rightarrow> ('s list \<times> 't) option" where
  "shared_call ops (i, c) (ss, t) =
     (if i < length ss
      then map_option (\<lambda>(s', t'). (ss[i := s'], t')) (draft_call_step ops c (ss ! i, t)) else None)"

fun shared_calls :: "('s \<times> 't) drafter_ops \<Rightarrow> (nat \<times> draft_call) list \<Rightarrow> 's list \<times> 't \<Rightarrow> ('s list \<times> 't) option" where
  "shared_calls ops [] w = Some w"
| "shared_calls ops (c # cs) w = Option.bind (shared_call ops c w) (shared_calls ops cs)"

locale shared_drafter = drafter "\<lambda>(s, t). sinv s \<and> tinv t" "\<lambda>_. bound" ops
  for sinv :: "'s \<Rightarrow> bool" and tinv :: "'t \<Rightarrow> bool" and bound :: nat and ops :: "('s \<times> 't) drafter_ops"
begin

lemma shared_calls_ok:
  assumes "list_all sinv ss" and "tinv t" and "\<forall>(i, c) \<in> set cs. i < length ss"
  shows "\<exists>ss' t'. shared_calls ops cs (ss, t) = Some (ss', t') \<and> length ss' = length ss \<and> list_all sinv ss' \<and> tinv t'"
  using assms
proof (induction cs arbitrary: ss t)
  case (Cons ic cs)
  obtain i c where ic: "ic = (i, c)" by fastforce
  have i: "i < length ss" using Cons.prems(3) ic by simp
  then obtain s1 t1 where s1: "draft_call_step ops c (ss ! i, t) = Some (s1, t1)" "sinv s1" "tinv t1"
    using step_ok [of "(ss ! i, t)" c] Cons.prems(1,2) by (auto simp: list_all_length)
  then have "list_all sinv (ss[i := s1])" using Cons.prems(1) i by (auto simp: list_all_length nth_list_update)
  moreover have "\<forall>(j, d) \<in> set cs. j < length (ss[i := s1])" using Cons.prems(3) by simp
  ultimately obtain ss' t' where "shared_calls ops cs (ss[i := s1], t1) = Some (ss', t')"
    "length ss' = length ss" "list_all sinv ss'" "tinv t'"
    using Cons.IH [of "ss[i := s1]" t1] s1(3) by auto
  then show ?case using s1(1) i ic by simp
qed simp

lemma shared_propose_ok:
  assumes "list_all sinv ss" and "tinv t" and "\<forall>(i, c) \<in> set cs. i < length ss" and "i < length ss"
  shows "\<exists>ss' t' k out' w. shared_calls ops cs (ss, t) = Some (ss', t') \<and>
    op_propose ops (ss' ! i, t') cap out = Some (k, out', w) \<and> draft_fits bound cap out k out'"
proof -
  obtain ss' t' where w: "shared_calls ops cs (ss, t) = Some (ss', t')" "length ss' = length ss"
    "list_all sinv ss'" "tinv t'" using shared_calls_ok [OF assms(1-3)] by blast
  then have "sinv (ss' ! i)" using assms(4) by (simp add: list_all_length)
  then show ?thesis using w(1,4) propose_ok [of "(ss' ! i, t')" cap out] by auto
qed

end

end
