(* ===== verification/Ngram.thy ===== *)
theory Ngram
  imports Drafter "HOL-Library.Word"
begin

unbundle bit_operations_syntax

text \<open>
  Per-sequence n-gram drafting, \<open>crates/xabe-sched/src/ngram.rs\<close>: a ring buffer of committed tokens with
  one direct-mapped hash table per n-gram length, and the greedy verification of a draft. The hash is
  the source's 64-bit multiplicative mix. An output vector is its contents and its capacity.

  \<open>window\<close> is the abstraction of the ring: the retained tokens, oldest first.
\<close>

datatype ngram_config_error = InvalidNgramRange | ZeroDraftTokens | HistoryTooShort | ZeroMinHits

record ngram_config =
  ng_min_ngram :: nat
  ng_max_ngram :: nat
  ng_max_draft_tokens :: nat
  ng_history_capacity :: nat

definition ngram_config_new :: "nat \<Rightarrow> nat \<Rightarrow> nat \<Rightarrow> nat \<Rightarrow> ngram_config_error + ngram_config" where
  "ngram_config_new min_ngram max_ngram max_draft_tokens history_capacity =
     (if min_ngram = 0 \<or> max_ngram < min_ngram then Inl InvalidNgramRange
      else if max_draft_tokens = 0 then Inl ZeroDraftTokens
      else if history_capacity \<le> max_ngram then Inl HistoryTooShort
      else Inr \<lparr>ng_min_ngram = min_ngram, ng_max_ngram = max_ngram,
                ng_max_draft_tokens = max_draft_tokens, ng_history_capacity = history_capacity\<rparr>)"

definition max_table_entries :: nat where
  "max_table_entries = 2 ^ 20"

definition mix :: "64 word \<Rightarrow> token \<Rightarrow> 64 word" where
  "mix hash token = (word_rotl 5 hash XOR word_of_int (token mod 2 ^ 32)) * 0x517cc1b727220a95"

record ngram_speculator =
  ns_config :: ngram_config
  ns_history :: "token list"
  ns_start :: nat
  ns_len :: nat
  ns_total :: nat
  ns_tables :: "nat list list"
  ns_table_mask :: "64 word"

text \<open>\<open>usize::next_power_of_two\<close>\<close>

fun next_power_of_two_from :: "nat \<Rightarrow> nat \<Rightarrow> nat \<Rightarrow> nat" where
  "next_power_of_two_from 0 p n = p"
| "next_power_of_two_from (Suc fuel) p n = (if n \<le> p then p else next_power_of_two_from fuel (2 * p) n)"

definition next_power_of_two :: "nat \<Rightarrow> nat" where
  "next_power_of_two n = next_power_of_two_from 64 1 n"

definition ngram_new :: "ngram_config \<Rightarrow> ngram_speculator" where
  "ngram_new config =
     (let entries = min (next_power_of_two (ng_history_capacity config * 2)) max_table_entries in
      \<lparr>ns_config = config, ns_history = replicate (ng_history_capacity config) 0, ns_start = 0, ns_len = 0,
       ns_total = 0,
       ns_tables = replicate (ng_max_ngram config + 1 - ng_min_ngram config) (replicate entries 0),
       ns_table_mask = of_nat (entries - 1)\<rparr>)"

text \<open>\<open>self.at(logical)\<close>\<close>

definition at :: "ngram_speculator \<Rightarrow> nat \<Rightarrow> token" where
  "at s logical = ns_history s ! ((ns_start s + logical) mod length (ns_history s))"

definition hash_range :: "ngram_speculator \<Rightarrow> nat \<Rightarrow> nat \<Rightarrow> 64 word" where
  "hash_range s lo hi = fold (\<lambda>i h. mix h (at s i)) [lo..<hi] 0"

definition slot_of :: "ngram_speculator \<Rightarrow> 64 word \<Rightarrow> nat" where
  "slot_of s hash = unat (hash AND ns_table_mask s)"

definition store_token :: "ngram_speculator \<Rightarrow> token \<Rightarrow> ngram_speculator" where
  "store_token s token =
     (if ns_len s < length (ns_history s) then
        s\<lparr>ns_history := (ns_history s)[(ns_start s + ns_len s) mod length (ns_history s) := token],
          ns_len := ns_len s + 1, ns_total := wadd 64 (ns_total s) 1\<rparr>
      else
        s\<lparr>ns_history := (ns_history s)[ns_start s := token],
          ns_start := (ns_start s + 1) mod length (ns_history s), ns_total := wadd 64 (ns_total s) 1\<rparr>)"

text \<open>The indexing loop over \<open>n = min_ngram ..= max_ngram\<close> with table number \<open>j\<close>; it stops at the
  first length the history cannot hold.\<close>

fun index_loop :: "ngram_speculator \<Rightarrow> nat \<Rightarrow> (nat \<times> nat) list \<Rightarrow> nat list list \<Rightarrow> nat list list" where
  "index_loop s e [] tables = tables"
| "index_loop s e ((j, n) # js) tables =
     (if e < n then tables
      else index_loop s e js
        (tables[j := (tables ! j)[slot_of s (hash_range s (e - n) e) := wsub 64 (ns_total s) 1]]))"

definition lengths_of :: "ngram_config \<Rightarrow> (nat \<times> nat) list" where
  "lengths_of c = map (\<lambda>n. (n - ng_min_ngram c, n)) [ng_min_ngram c..<ng_max_ngram c + 1]"

definition observe :: "ngram_speculator \<Rightarrow> token \<Rightarrow> ngram_speculator" where
  "observe s token =
     (let s' = store_token s token
      in s'\<lparr>ns_tables := index_loop s' (ns_len s' - 1) (lengths_of (ns_config s')) (ns_tables s')\<rparr>)"

definition observe_all :: "ngram_speculator \<Rightarrow> token list \<Rightarrow> ngram_speculator" where
  "observe_all s tokens = fold (\<lambda>t s. observe s t) tokens s"

text \<open>One attempt of \<open>propose_into\<close> at length \<open>n\<close>: the tokens to draft, or \<open>None\<close> to try a shorter
  length.\<close>

definition try_length :: "ngram_speculator \<Rightarrow> nat \<Rightarrow> nat \<Rightarrow> token list option" where
  "try_length s room n =
     (let j = n - ng_min_ngram (ns_config s);
          end_abs = ns_tables s ! j ! slot_of s (hash_range s (ns_len s - n) (ns_len s));
          window_base = wsub 64 (ns_total s) (ns_len s)
      in if end_abs = 0 then None
         else if ns_total s \<le> end_abs \<or> end_abs < wadd 64 window_base n then None
         else
           (let e = wsub 64 end_abs window_base; suffix = ns_len s - n
            in if \<not> list_all (\<lambda>i. at s (e - n + i) = at s (suffix + i)) [0..<n] then None
               else Some (map (\<lambda>i. at s (e + i)) [0..<min room (ns_len s - e)])))"

fun try_lengths :: "ngram_speculator \<Rightarrow> nat \<Rightarrow> nat list \<Rightarrow> token list" where
  "try_lengths s room [] = []"
| "try_lengths s room (n # ns) = (case try_length s room n of
     Some draft \<Rightarrow> draft
   | None \<Rightarrow> try_lengths s room ns)"

definition propose_into :: "ngram_speculator \<Rightarrow> nat \<Rightarrow> token list \<Rightarrow> nat \<times> token list" where
  "propose_into s capacity out =
     (let room = min (capacity - length out) (ng_max_draft_tokens (ns_config s)) in
      if room = 0 then (0, out)
      else
        (let max_n = min (ng_max_ngram (ns_config s)) (ns_len s);
             draft = try_lengths s room (rev [ng_min_ngram (ns_config s)..<max_n + 1])
         in (length draft, out @ draft)))"

record verification =
  vf_accepted :: nat
  vf_next_token :: token

definition verify_greedy :: "token list \<Rightarrow> token list \<Rightarrow> verification option" where
  "verify_greedy draft target =
     (if length target < length draft + 1 then None
      else
        (let accepted = length (takeWhile (\<lambda>(d, a). d = a) (zip draft target))
         in Some \<lparr>vf_accepted = accepted, vf_next_token = target ! accepted\<rparr>))"

section \<open>The ring refines a bounded list\<close>

definition window :: "ngram_speculator \<Rightarrow> token list" where
  "window s = map (at s) [0..<ns_len s]"

definition ring_ok :: "ngram_speculator \<Rightarrow> bool" where
  "ring_ok s \<longleftrightarrow> length (ns_history s) = ng_history_capacity (ns_config s) \<and>
     0 < ng_history_capacity (ns_config s) \<and> ns_start s < ng_history_capacity (ns_config s) \<and>
     ns_len s \<le> ng_history_capacity (ns_config s) \<and>
     (ns_len s < ng_history_capacity (ns_config s) \<longrightarrow> ns_start s = 0)"

text \<open>The abstract history: the last \<open>cap\<close> tokens of the stream.\<close>

definition last_tokens :: "nat \<Rightarrow> token list \<Rightarrow> token list" where
  "last_tokens cap ts = drop (length ts - cap) ts"

lemma index_loop_total: "length (index_loop s e js tables) = length tables"
  by (induction s e js tables rule: index_loop.induct) auto

lemma observe_fields [simp]:
  "ns_config (observe s t) = ns_config s" "ns_history (observe s t) = ns_history (store_token s t)"
  "ns_start (observe s t) = ns_start (store_token s t)" "ns_len (observe s t) = ns_len (store_token s t)"
  "ns_total (observe s t) = wadd 64 (ns_total s) 1"
  by (simp_all add: observe_def Let_def store_token_def)

lemma window_observe [simp]: "window (observe s t) = window (store_token s t)"
  by (simp add: window_def at_def [abs_def])

lemma window_store:
  assumes "ring_ok s"
  shows "window (store_token s t) = last_tokens (ng_history_capacity (ns_config s)) (window s @ [t]) \<and>
         ring_ok (store_token s t)"
proof (cases "ns_len s < ng_history_capacity (ns_config s)")
  case True
  then have start: "ns_start s = 0" and len: "length (ns_history s) = ng_history_capacity (ns_config s)"
    using assms by (simp_all add: ring_ok_def)
  have "map (at (store_token s t)) [0..<ns_len s] = map (at s) [0..<ns_len s]"
    using True start len by (intro map_cong) (auto simp: at_def store_token_def)
  then show ?thesis
    using assms True start len
    by (auto simp: window_def last_tokens_def at_def store_token_def ring_ok_def)
next
  case False
  let ?cap = "ng_history_capacity (ns_config s)" and ?s = "store_token s t"
  have full: "ns_len s = ?cap" and len: "length (ns_history s) = ?cap" and pos: "0 < ?cap"
    and start: "ns_start s < ?cap" using assms False by (simp_all add: ring_ok_def)
  have at': "at ?s i = (if i + 1 < ?cap then at s (i + 1) else t)" if "i < ?cap" for i
  proof (cases "i + 1 < ?cap")
    case True
    have ne: "(ns_start s + (i + 1)) mod ?cap \<noteq> ns_start s"
      using True start by (cases "ns_start s + (i + 1) < ?cap") (auto simp: mod_if)
    have "((ns_start s + 1) mod ?cap + i) mod ?cap = (ns_start s + (i + 1)) mod ?cap"
      by (metis add.assoc add.commute mod_add_left_eq)
    then show ?thesis using False full len True ne by (simp add: at_def store_token_def)
  next
    case last: False
    then have "i + 1 = ?cap" using that by simp
    then have "((ns_start s + 1) mod ?cap + i) mod ?cap = (ns_start s + ?cap) mod ?cap"
      by (metis add.assoc add.commute mod_add_left_eq)
    then show ?thesis using False full len last start by (simp add: at_def store_token_def)
  qed
  have len': "ns_len ?s = ?cap" using False full len by (simp add: store_token_def)
  have "window ?s = map (\<lambda>i. if i + 1 < ?cap then at s (i + 1) else t) [0..<?cap]"
    unfolding window_def len' using at' by (intro map_cong) auto
  also have "\<dots> = drop 1 (window s @ [t])"
    using full pos by (intro nth_equalityI) (auto simp: window_def nth_append)
  finally show ?thesis
    using assms full len pos by (simp add: last_tokens_def window_def ring_ok_def store_token_def)
qed

lemma last_tokens_snoc: "last_tokens cap (last_tokens cap ts @ [t]) = last_tokens cap (ts @ [t])"
proof -
  have "last_tokens cap ts @ [t] = drop (length ts - cap) (ts @ [t])" by (simp add: last_tokens_def)
  moreover have "length (drop (length ts - cap) (ts @ [t])) - cap + (length ts - cap) = length (ts @ [t]) - cap"
    by simp
  ultimately show ?thesis by (simp only: last_tokens_def drop_drop)
qed

lemma observe_ring: "ring_ok s \<Longrightarrow> ring_ok (observe s t)"
  using window_store [of s t] by (simp add: ring_ok_def store_token_def split: if_splits)

lemma observe_all_ring:
  assumes "ring_ok s" and "window s = last_tokens (ng_history_capacity (ns_config s)) ts"
  shows "ring_ok (observe_all s us) \<and> ns_config (observe_all s us) = ns_config s \<and>
         window (observe_all s us) = last_tokens (ng_history_capacity (ns_config s)) (ts @ us)"
  using assms
proof (induction us arbitrary: s ts)
  case (Cons u us)
  have w: "window (observe s u) = last_tokens (ng_history_capacity (ns_config s)) (ts @ [u])"
    using window_store [OF Cons.prems(1), of u] Cons.prems(2) by (simp add: last_tokens_snoc)
  moreover have "ring_ok (observe s u)" using Cons.prems(1) by (rule observe_ring)
  ultimately show ?case using Cons.IH [of "observe s u" "ts @ [u]"] by (simp add: observe_all_def)
qed (simp add: observe_all_def)

lemma observe_all_total: "ns_total (observe_all s us) = (if us = [] then ns_total s else (ns_total s + length us) mod 2 ^ 64)"
proof (induction us arbitrary: s)
  case (Cons u us)
  then show ?case by (simp add: observe_all_def wadd_def mod_add_left_eq)
qed (simp add: observe_all_def)

lemma ngram_new_ring:
  "0 < ng_history_capacity c \<Longrightarrow>
   ring_ok (ngram_new c) \<and> window (ngram_new c) = last_tokens (ng_history_capacity c) []"
  by (simp add: ring_ok_def ngram_new_def window_def last_tokens_def Let_def)

section \<open>Drafts\<close>

lemma window_nth: "i < ns_len s \<Longrightarrow> window s ! i = at s i"
  by (simp add: window_def)

lemma length_window [simp]: "length (window s) = ns_len s"
  by (simp add: window_def)

lemma window_slice:
  "e + k \<le> ns_len s \<Longrightarrow> map (\<lambda>i. at s (e + i)) [0..<k] = take k (drop e (window s))"
  by (intro nth_equalityI) (auto simp: window_nth)

text \<open>A draft taken at length \<open>n\<close>: the retained history holds the current \<open>n\<close>-token suffix a second
  time, ending at \<open>e\<close>, and the draft is what follows it there.\<close>

definition drafted_from :: "token list \<Rightarrow> nat \<Rightarrow> nat \<Rightarrow> token list \<Rightarrow> bool" where
  "drafted_from w n e draft \<longleftrightarrow> n \<le> e \<and> e < length w \<and>
     take n (drop (e - n) w) = drop (length w - n) w \<and> draft = take (length draft) (drop e w) \<and>
     draft \<noteq> []"

lemma try_length_sound:
  assumes "try_length s room n = Some draft" and "0 < room" and "n \<le> ns_len s"
    and "ns_len s \<le> ns_total s" and "ns_total s < 2 ^ 64"
  shows "length draft \<le> room \<and> (\<exists>e. drafted_from (window s) n e draft)"
proof -
  define a where "a = ns_tables s ! (n - ng_min_ngram (ns_config s)) !
      slot_of s (hash_range s (ns_len s - n) (ns_len s))"
  define base where "base = ns_total s - ns_len s"
  have base: "wsub 64 (ns_total s) (ns_len s) = base"
    using assms(4,5) by (simp add: base_def wsub_nowrap)
  have add: "wadd 64 base n = base + n"
    using assms(3-5) by (intro wadd_nowrap) (simp add: base_def)
  note eq = assms(1) [unfolded try_length_def Let_def a_def [symmetric] base add]
  have a: "a < ns_total s" "base + n \<le> a" using eq by (auto split: if_splits)
  define e where "e = a - base"
  have e: "wsub 64 a base = e" using a assms(5) by (simp add: e_def wsub_nowrap)
  have le: "n \<le> e" "e < ns_len s" using a assms(4) by (simp_all add: e_def base_def)
  have all: "list_all (\<lambda>i. at s (e - n + i) = at s (ns_len s - n + i)) [0..<n]"
    and d: "draft = map (\<lambda>i. at s (e + i)) [0..<min room (ns_len s - e)]"
    using eq unfolding e by (auto split: if_splits)
  have "map (\<lambda>i. at s (e - n + i)) [0..<n] = map (\<lambda>i. at s (ns_len s - n + i)) [0..<n]"
    using all by (intro map_cong) (auto simp: list_all_iff)
  moreover have "map (\<lambda>i. at s (e - n + i)) [0..<n] = take n (drop (e - n) (window s))"
    using le by (intro window_slice) simp
  moreover have "map (\<lambda>i. at s (ns_len s - n + i)) [0..<n] = take n (drop (ns_len s - n) (window s))"
    using assms(3) by (intro window_slice) simp
  ultimately have "take n (drop (e - n) (window s)) = take n (drop (ns_len s - n) (window s))" by simp
  moreover have "draft = take (min room (ns_len s - e)) (drop e (window s))"
    unfolding d using le by (intro window_slice) simp
  ultimately have "drafted_from (window s) n e draft"
    using le assms(2,3) by (auto simp: drafted_from_def)
  then show ?thesis using d by auto
qed

lemma try_lengths_sound:
  assumes "\<forall>n \<in> set ns. n \<le> ns_len s" and "0 < room" and "ns_len s \<le> ns_total s" and "ns_total s < 2 ^ 64"
    and "try_lengths s room ns = draft" and "draft \<noteq> []"
  shows "length draft \<le> room \<and> (\<exists>n \<in> set ns. \<exists>e. drafted_from (window s) n e draft)"
  using assms(1,5)
proof (induction ns)
  case (Cons n ns)
  show ?case
  proof (cases "try_length s room n")
    case None
    then show ?thesis using Cons by auto
  next
    case (Some d)
    then show ?thesis using try_length_sound [OF Some assms(2) _ assms(3,4)] Cons.prems by auto
  qed
qed (use assms(6) in simp)

section \<open>The drafter contract\<close>

definition ngram_ops :: "ngram_speculator drafter_ops" where
  "ngram_ops = \<lparr>op_observe = \<lambda>s t. Some (observe s t), op_observe_all = \<lambda>s ts. Some (observe_all s ts),
     op_propose = \<lambda>s cap out. (case propose_into s cap out of (k, out') \<Rightarrow> Some (k, out', s)),
     op_accept = \<lambda>s k. Some s\<rparr>"

lemma try_lengths_length: "length (try_lengths s room ns) \<le> room"
proof (induction ns)
  case (Cons n ns)
  have "length d \<le> room" if "try_length s room n = Some d" for d
    using that by (auto simp: try_length_def Let_def split: if_splits)
  then show ?case using Cons by (auto split: option.split)
qed simp

lemma propose_into_fits:
  "draft_fits (ng_max_draft_tokens (ns_config s)) cap out (fst (propose_into s cap out)) (snd (propose_into s cap out))"
proof -
  define ns where "ns = rev [ng_min_ngram (ns_config s)..<min (ng_max_ngram (ns_config s)) (ns_len s) + 1]"
  show ?thesis unfolding propose_into_def Let_def ns_def [symmetric]
    using try_lengths_length [of s "min (cap - length out) (ng_max_draft_tokens (ns_config s))" ns]
    by (auto intro: draft_fitsI)
qed

lemma observe_all_keeps: "ring_ok s \<Longrightarrow> ring_ok (observe_all s ts) \<and> ns_config (observe_all s ts) = ns_config s"
  unfolding observe_all_def by (induction ts arbitrary: s) (auto simp: observe_ring)

interpretation ngram: drafter ring_ok "\<lambda>s. ng_max_draft_tokens (ns_config s)" ngram_ops
  using observe_all_keeps
  by unfold_locales (auto simp: ngram_ops_def observe_ring propose_into_fits case_prod_unfold)

section \<open>Properties\<close>

text \<open>The ring buffer is exactly a bounded history: after any sequence of observed tokens, reading it
  from oldest to newest gives the last \<open>history_capacity\<close> tokens of the stream.\<close>

theorem ring_holds_last_tokens:
  assumes "ngram_config_new mi ma md cap = Inr c"
  shows "window (observe_all (ngram_new c) ts) = last_tokens cap ts"
proof -
  have cap: "ng_history_capacity c = cap" "0 < cap"
    using assms by (auto simp: ngram_config_new_def split: if_splits)
  then show ?thesis
    using observe_all_ring [of "ngram_new c" "[]" ts] ngram_new_ring [of c]
    by (simp add: ngram_new_def Let_def)
qed

theorem ring_holds_last_tokens_witness:
  "window (observe_all (ngram_new \<lparr>ng_min_ngram = 1, ng_max_ngram = 2, ng_max_draft_tokens = 3,
     ng_history_capacity = 3\<rparr>) [1, 2, 3, 4]) = [2, 3, 4]"
  using ring_holds_last_tokens [of 1 2 3 3 _ "[1, 2, 3, 4]"]
  by (simp add: ngram_config_new_def last_tokens_def)

text \<open>C35: Every draft is verified history, never a hash collision: a non-empty draft fits the capacity the
  caller reserved and the configured maximum, and it is what followed an earlier occurrence, still in
  the retained window, of the sequence's own last \<open>n\<close> tokens, for some \<open>n\<close> in the configured range.\<close>

theorem draft_continues_a_repeated_suffix:
  assumes "ngram_config_new mi ma md cap = Inr c" and "length ts < 2 ^ 64"
    and "propose_into (observe_all (ngram_new c) ts) capacity out = (k, out')"
  shows "\<exists>draft. out' = out @ draft \<and> k = length draft \<and> k \<le> md \<and> (draft \<noteq> [] \<longrightarrow>
     length out' \<le> capacity \<and>
     (\<exists>n e. mi \<le> n \<and> n \<le> ma \<and> drafted_from (last_tokens cap ts) n e draft))"
proof -
  let ?s = "observe_all (ngram_new c) ts"
  have c: "ng_history_capacity c = cap" "0 < cap" "ng_min_ngram c = mi" "ng_max_ngram c = ma"
    "ng_max_draft_tokens c = md"
    using assms(1) by (auto simp: ngram_config_new_def split: if_splits)
  have cfg: "ns_config ?s = c" and w: "window ?s = last_tokens cap ts"
    using observe_all_ring [of "ngram_new c" "[]" ts] ngram_new_ring [of c] c
    by (simp_all add: ngram_new_def Let_def)
  have tot: "ns_total ?s = length ts" using observe_all_total [of "ngram_new c" ts] assms(2)
    by (simp add: ngram_new_def Let_def)
  have len: "ns_len ?s \<le> ns_total ?s" using arg_cong [OF w, of length] tot by (simp add: last_tokens_def)
  let ?room = "min (capacity - length out) md"
  have small: "ns_total ?s < 2 ^ 64" using tot assms(2) by simp
  let ?ns = "rev [mi..<min ma (ns_len ?s) + 1]"
  have ns: "\<forall>n \<in> set ?ns. mi \<le> n \<and> n \<le> ma \<and> n \<le> ns_len ?s"
    by (simp only: set_rev set_upt) (simp add: less_Suc_eq_le)
  let ?draft = "try_lengths ?s ?room ?ns"
  have eq: "(k, out') = (if ?room = 0 then (0, out) else (length ?draft, out @ ?draft))"
    unfolding assms(3) [symmetric] by (simp only: propose_into_def Let_def cfg c)
  show ?thesis
  proof (cases "?room = 0 \<or> ?draft = []")
    case True
    then have "k = 0" "out' = out" using eq by (auto split: if_splits)
    then show ?thesis by simp
  next
    case False
    then have r: "0 < ?room" and d: "?draft \<noteq> []" by auto
    have "\<forall>n \<in> set ?ns. n \<le> ns_len ?s" using ns by blast
    then have "length ?draft \<le> ?room \<and> (\<exists>n \<in> set ?ns. \<exists>e. drafted_from (window ?s) n e ?draft)"
      using r len small refl d by (rule try_lengths_sound)
    then obtain n e where "length ?draft \<le> ?room" "mi \<le> n" "n \<le> ma" "drafted_from (last_tokens cap ts) n e ?draft"
      unfolding w using ns by blast
    moreover have "(k, out') = (length ?draft, out @ ?draft)" using eq r by (simp only: not_gr_zero [symmetric] not_True_eq_False if_False)
    then have k: "k = length ?draft" and o: "out' = out @ ?draft" by (simp_all only: prod.inject)
    moreover have "k \<le> ?room \<Longrightarrow> k \<le> md \<and> length out + k \<le> capacity" using r by linarith
    moreover have "length out' = length out + k" unfolding k o by (rule length_append)
    ultimately show ?thesis by metis
  qed
qed

theorem draft_continues_a_repeated_suffix_witness:
  "\<exists>draft. propose_into (observe_all (ngram_new \<lparr>ng_min_ngram = 1, ng_max_ngram = 1,
     ng_max_draft_tokens = 2, ng_history_capacity = 4\<rparr>) []) 8 [5] = (length draft, [5] @ draft)"
proof -
  let ?c = "\<lparr>ng_min_ngram = 1, ng_max_ngram = 1, ng_max_draft_tokens = 2, ng_history_capacity = 4\<rparr>"
  obtain k out' where r: "propose_into (observe_all (ngram_new ?c) []) 8 [5] = (k, out')" by (rule prod.exhaust)
  have cfg: "ngram_config_new 1 1 2 4 = Inr ?c" by (simp add: ngram_config_new_def)
  have "length ([] :: token list) < 2 ^ 64" by simp
  from draft_continues_a_repeated_suffix [OF cfg this r] show ?thesis using r by blast
qed

text \<open>C37: Greedy verification is lossless: the accepted draft tokens followed by the next token are
  exactly the target model's own first tokens, acceptance stops at the first disagreement, and
  verification is refused exactly when the target run is too short.\<close>

theorem verify_greedy_lossless:
  "case verify_greedy draft target of
      None \<Rightarrow> length target \<le> length draft
    | Some v \<Rightarrow> vf_accepted v \<le> length draft \<and> vf_accepted v < length target \<and>
        take (vf_accepted v) draft @ [vf_next_token v] = take (vf_accepted v + 1) target \<and>
        (vf_accepted v < length draft \<longrightarrow> draft ! vf_accepted v \<noteq> target ! vf_accepted v)"
proof (cases "length target < length draft + 1")
  case True
  then show ?thesis by (simp add: verify_greedy_def)
next
  case False
  let ?z = "zip draft target" and ?P = "\<lambda>(d, a). d = a"
  let ?k = "length (takeWhile ?P ?z)"
  have len: "length ?z = length draft" using False by simp
  have k: "?k \<le> length draft" using length_takeWhile_le [of ?P ?z] len by simp
  have same: "draft ! i = target ! i" if "i < ?k" for i
  proof -
    have "takeWhile ?P ?z ! i \<in> set (takeWhile ?P ?z)" using that by (rule nth_mem)
    then have "?P (takeWhile ?P ?z ! i)" by (rule conjunct2 [OF set_takeWhileD])
    then show ?thesis using that k False by (simp add: takeWhile_nth)
  qed
  have "take ?k draft @ [target ! ?k] = take (?k + 1) target"
    using same k False by (intro nth_equalityI) (auto simp: nth_append less_Suc_eq)
  moreover have "draft ! ?k \<noteq> target ! ?k" if "?k < length draft"
    using nth_length_takeWhile [of ?P ?z] that len False by simp
  ultimately show ?thesis using False k by (simp add: verify_greedy_def Let_def)
qed

theorem verify_greedy_lossless_witness:
  "verify_greedy [4, 5] [4, 6, 7] = Some \<lparr>vf_accepted = 1, vf_next_token = 6\<rparr> \<and>
   take 1 [4, 5] @ [6] = take 2 [4, 6, 7 :: int]"
  using verify_greedy_lossless [of "[4, 5]" "[4, 6, 7]"] by (simp add: verify_greedy_def)

end
