(* ===== verification/NgramMap.thy ===== *)
theory NgramMap
  imports Ngram
begin

text \<open>
  The fixed-length n-gram drafters, \<open>crates/xabe-sched/src/ngram_map.rs\<close>: \<open>ngram-simple\<close> (a backward
  scan) and \<open>ngram-map-k\<close> / \<open>ngram-map-k4v\<close> (a hash map from n-grams to history positions, with
  statistics per key). A slice expression out of range panics; \<open>slice\<close> gives \<open>None\<close> there, and every
  definition that takes a slice returns an option, so that the absence of panics is a theorem. Sizes
  and positions are \<open>nat\<close>: they are positions in one token history, whose sums stay far below
  \<open>2 ^ 64\<close>; positions stored as \<open>u32\<close> and counts stored as \<open>u16\<close> / \<open>i16\<close> are cut to their width.
  A vector's capacity is the one it was allocated with.
\<close>

section \<open>Slices\<close>

definition slice :: "nat \<Rightarrow> nat \<Rightarrow> 'a list \<Rightarrow> 'a list option" where
  "slice lo hi xs = (if lo \<le> hi \<and> hi \<le> length xs then Some (take (hi - lo) (drop lo xs)) else None)"

definition ngram_map_max_values :: nat where
  "ngram_map_max_values = 4"

definition ngram_map_hash_map_size :: nat where
  "ngram_map_hash_map_size = 262144"

definition max_value_count :: nat where
  "max_value_count = 16380"

definition map_hash :: "token list \<Rightarrow> 32 word" where
  "map_hash tokens = fold (\<lambda>t h. h * 2654435761 + word_of_int t) tokens 0"

text \<open>\<open>push_bounded\<close> in a release build: a token beyond the reserved capacity is dropped.\<close>

definition push_bounded :: "nat \<Rightarrow> token list \<Rightarrow> token \<Rightarrow> token list" where
  "push_bounded cap history token = (if length history < cap then history @ [token] else history)"

definition push_all :: "nat \<Rightarrow> token list \<Rightarrow> token list \<Rightarrow> token list" where
  "push_all cap history tokens = fold (\<lambda>t h. push_bounded cap h t) tokens history"

text \<open>The backward scans \<open>while j > stop { if h[j..j + n] == key { match_pos = j; break } j -= 1 }\<close>:
  the position found, 0 for none.\<close>

fun scan_back :: "token list \<Rightarrow> nat \<Rightarrow> token list \<Rightarrow> nat \<Rightarrow> nat \<Rightarrow> nat option" where
  "scan_back h n key stop j =
     (if j \<le> stop then Some 0
      else case slice j (j + n) h of
        None \<Rightarrow> None
      | Some s \<Rightarrow> if s = key then Some j else scan_back h n key stop (j - 1))"

declare scan_back.simps [simp del]

section \<open>ngram-simple\<close>

record ngram_simple_config =
  sc_size_n :: nat
  sc_size_m :: nat
  sc_history_capacity :: nat

definition simple_config_new :: "nat \<Rightarrow> nat \<Rightarrow> nat \<Rightarrow> ngram_config_error + ngram_simple_config" where
  "simple_config_new size_n size_m history_capacity =
     (if size_n = 0 then Inl InvalidNgramRange
      else if size_m = 0 then Inl ZeroDraftTokens
      else if history_capacity \<le> size_n + size_m + 1 then Inl HistoryTooShort
      else Inr \<lparr>sc_size_n = size_n, sc_size_m = size_m, sc_history_capacity = history_capacity\<rparr>)"

record simple_speculator =
  ss_config :: ngram_simple_config
  ss_history :: "token list"

definition simple_new :: "ngram_simple_config \<Rightarrow> simple_speculator" where
  "simple_new config = \<lparr>ss_config = config, ss_history = []\<rparr>"

definition simple_observe :: "simple_speculator \<Rightarrow> token \<Rightarrow> simple_speculator" where
  "simple_observe s token =
     s\<lparr>ss_history := push_bounded (sc_history_capacity (ss_config s)) (ss_history s) token\<rparr>"

definition simple_observe_all :: "simple_speculator \<Rightarrow> token list \<Rightarrow> simple_speculator" where
  "simple_observe_all s tokens =
     s\<lparr>ss_history := push_all (sc_history_capacity (ss_config s)) (ss_history s) tokens\<rparr>"

definition simple_propose_into ::
  "simple_speculator \<Rightarrow> nat \<Rightarrow> token list \<Rightarrow> (nat \<times> token list) option" where
  "simple_propose_into s capacity out =
     (let h = ss_history s; n = sc_size_n (ss_config s); m = sc_size_m (ss_config s);
          room = min (capacity - length out) m; cur_len = length h - 1
      in if room = 0 \<or> h = [] then Some (0, out)
         else if cur_len \<le> n + m + 1 then Some (0, out)
         else
           (case slice (length h - n) (length h) h of None \<Rightarrow> None | Some pattern \<Rightarrow>
            (case scan_back h n pattern 0 (cur_len - n - 1) of None \<Rightarrow> None | Some match_pos \<Rightarrow>
               if match_pos = 0 then Some (0, out)
               else
                 (let copy_max = min m (cur_len - (match_pos + n)) in
                  if copy_max < n then Some (0, out)
                  else
                    (let c = min copy_max room in
                     case slice (match_pos + n) (match_pos + n + c) h of
                       None \<Rightarrow> None
                     | Some draft \<Rightarrow> Some (c, out @ draft))))))"

section \<open>ngram-map\<close>

record ngram_map_config =
  mc_size_n :: nat
  mc_size_m :: nat
  mc_key_only :: bool
  mc_min_hits :: nat
  mc_history_capacity :: nat

definition map_config_new ::
  "nat \<Rightarrow> nat \<Rightarrow> bool \<Rightarrow> nat \<Rightarrow> nat \<Rightarrow> ngram_config_error + ngram_map_config" where
  "map_config_new size_n size_m key_only min_hits history_capacity =
     (if size_n = 0 then Inl InvalidNgramRange
      else if size_m = 0 then Inl ZeroDraftTokens
      else if min_hits = 0 then Inl ZeroMinHits
      else if history_capacity < 2 * size_n + size_m + 1 then Inl HistoryTooShort
      else Inr \<lparr>mc_size_n = size_n, mc_size_m = size_m, mc_key_only = key_only, mc_min_hits = min_hits,
                mc_history_capacity = history_capacity\<rparr>)"

record map_value =
  mv_value_idx :: nat
  mv_value_num :: nat
  mv_n_accepted :: int

record map_key =
  mk_key_idx :: nat
  mk_stat_idx :: nat
  mk_key_num :: nat
  mk_values :: "map_value list"

record map_speculator =
  ms_config :: ngram_map_config
  ms_history :: "token list"
  ms_keys :: "map_key list"
  ms_key_map :: "nat list"
  ms_key_map_last_idx :: nat
  ms_size_last_begin :: nat
  ms_generation_started :: bool
  ms_last_draft_created :: bool
  ms_last_draft_key_idx :: nat
  ms_last_draft_value_idx :: nat
  ms_idx_last_check :: nat

definition map_new :: "ngram_map_config \<Rightarrow> map_speculator" where
  "map_new config = \<lparr>ms_config = config, ms_history = [], ms_keys = [],
     ms_key_map = replicate ngram_map_hash_map_size 0, ms_key_map_last_idx = 0, ms_size_last_begin = 0,
     ms_generation_started = False, ms_last_draft_created = False, ms_last_draft_key_idx = 0,
     ms_last_draft_value_idx = 0, ms_idx_last_check = 0\<rparr>"

definition map_observe :: "map_speculator \<Rightarrow> token \<Rightarrow> map_speculator" where
  "map_observe s token =
     (let s = (if \<not> ms_generation_started s then
                 s\<lparr>ms_generation_started := True, ms_size_last_begin := length (ms_history s),
                   ms_idx_last_check := length (ms_history s)\<rparr>
               else s)
      in s\<lparr>ms_history := push_bounded (mc_history_capacity (ms_config s)) (ms_history s) token\<rparr>)"

definition map_observe_all :: "map_speculator \<Rightarrow> token list \<Rightarrow> map_speculator" where
  "map_observe_all s tokens =
     s\<lparr>ms_history := push_all (mc_history_capacity (ms_config s)) (ms_history s) tokens\<rparr>"

text \<open>\<open>as i16\<close>\<close>

definition as_i16 :: "int \<Rightarrow> int" where
  "as_i16 x = (x + 2 ^ 15) mod 2 ^ 16 - 2 ^ 15"

text \<open>The lookup of \<open>propose_into\<close>: the hash map first, then the two linear scans; 0 for no match.\<close>

definition key_slot :: "nat list \<Rightarrow> token list \<Rightarrow> nat" where
  "key_slot key_map key = unat (map_hash key) mod length key_map"

definition hashed_match :: "map_speculator \<Rightarrow> token list \<Rightarrow> nat option" where
  "hashed_match s key =
     (let h = ms_history s; n = mc_size_n (ms_config s); m = mc_size_m (ms_config s);
          cur_len = length h - 1
      in if ms_key_map s = [] then Some 0
         else
           (let idx_key = ms_key_map s ! key_slot (ms_key_map s) key in
            if idx_key \<noteq> 0 \<and> idx_key < cur_len - n - m - 1 then
              (case slice idx_key (idx_key + n) h of
                 None \<Rightarrow> None
               | Some w \<Rightarrow> Some (if w = key then idx_key else 0))
            else Some 0))"

definition prompt_match :: "map_speculator \<Rightarrow> token list \<Rightarrow> nat \<Rightarrow> nat option" where
  "prompt_match s key match_pos =
     (let n = mc_size_n (ms_config s); m = mc_size_m (ms_config s) in
      if match_pos = 0 \<and> n + m + 1 < ms_size_last_begin s then
        scan_back (ms_history s) n key (ms_key_map_last_idx s) (ms_size_last_begin s - n - m - 1)
      else Some match_pos)"

definition generated_match :: "map_speculator \<Rightarrow> token list \<Rightarrow> nat \<Rightarrow> nat option" where
  "generated_match s key match_pos =
     (let n = mc_size_n (ms_config s); m = mc_size_m (ms_config s); cur_len = length (ms_history s) - 1 in
      if match_pos = 0 then
        scan_back (ms_history s) n key (max (ms_size_last_begin s) (ms_key_map_last_idx s)) (cur_len - n - m - 1)
      else Some match_pos)"

definition find_match :: "map_speculator \<Rightarrow> token list \<Rightarrow> nat option" where
  "find_match s key =
     Option.bind (hashed_match s key) (\<lambda>p. Option.bind (prompt_match s key p) (generated_match s key))"

text \<open>The indexing loops \<open>while j > stop { ... j -= 1 }\<close>.\<close>

fun index_back :: "token list \<Rightarrow> nat \<Rightarrow> nat \<Rightarrow> nat \<Rightarrow> nat list \<Rightarrow> nat list option" where
  "index_back h n stop j key_map =
     (if j \<le> stop then Some key_map
      else case slice j (j + n) h of
        None \<Rightarrow> None
      | Some w \<Rightarrow>
          (let i = key_slot key_map w
           in index_back h n stop (j - 1)
                (if key_map ! i = 0 then key_map[i := j mod 2 ^ 32] else key_map)))"

declare index_back.simps [simp del]

definition index_ngrams :: "map_speculator \<Rightarrow> map_speculator option" where
  "index_ngrams s =
     (let h = ms_history s; n = mc_size_n (ms_config s); m = mc_size_m (ms_config s);
          cur_len = length h - 1; indexed = ms_key_map_last_idx s
      in if ms_key_map s = [] then Some s
         else
           (case (if n + m + 1 < ms_size_last_begin s
                  then index_back h n indexed (ms_size_last_begin s - n - m - 1) (ms_key_map s)
                  else Some (ms_key_map s)) of
              None \<Rightarrow> None
            | Some km \<Rightarrow>
                (case index_back h n (max (ms_size_last_begin s) indexed) (cur_len - n - m - 1) km of
                   None \<Rightarrow> None
                 | Some km \<Rightarrow>
                     Some (s\<lparr>ms_key_map := km,
                       ms_key_map_last_idx := max indexed ((cur_len - n - m - 1) mod 2 ^ 32)\<rparr>))))"

text \<open>The entry of the key's statistics: the first whose n-gram is the key, or a new one.\<close>

fun find_key :: "token list \<Rightarrow> nat \<Rightarrow> token list \<Rightarrow> map_key list \<Rightarrow> nat option" where
  "find_key h n key [] = Some 0"
| "find_key h n key (k # ks) = (case slice (mk_key_idx k) (mk_key_idx k + n) h of
     None \<Rightarrow> None
   | Some w \<Rightarrow> if w = key then Some 0 else map_option Suc (find_key h n key ks))"

definition new_key :: "nat \<Rightarrow> nat \<Rightarrow> map_key" where
  "new_key m match_pos = \<lparr>mk_key_idx = match_pos, mk_stat_idx = 0, mk_key_num = 0,
     mk_values = replicate ngram_map_max_values
       \<lparr>mv_value_idx = 0, mv_value_num = 0, mv_n_accepted = as_i16 (int m)\<rparr>\<rparr>"

definition bump :: "nat \<Rightarrow> nat" where
  "bump k = min (k + 1) max_value_count"

text \<open>One occurrence of the key, its continuation starting at \<open>value_start\<close>: the slot found or taken
  (counted from \<open>v\<close>), and the slots.\<close>

fun value_slot :: "token list \<Rightarrow> nat \<Rightarrow> nat \<Rightarrow> nat \<Rightarrow> map_value list \<Rightarrow> (nat option \<times> map_value list) option" where
  "value_slot h m value_start v [] = Some (None, [])"
| "value_slot h m value_start v (x # xs) =
     (if mv_value_idx x = 0 then
        Some (Some v, x\<lparr>mv_value_idx := value_start, mv_value_num := 0, mv_n_accepted := as_i16 (int m)\<rparr> # xs)
      else
        (case (slice value_start (value_start + m) h, slice (mv_value_idx x) (mv_value_idx x + m) h) of
           (Some a, Some b) \<Rightarrow>
             if a = b then Some (Some v, x # xs)
             else map_option (\<lambda>(i, ys). (i, x # ys)) (value_slot h m value_start (Suc v) xs)
         | _ \<Rightarrow> None))"

definition count_value :: "nat option \<Rightarrow> map_value list \<Rightarrow> map_value list" where
  "count_value idx values = (case idx of
     None \<Rightarrow> values
   | Some v \<Rightarrow> values[v := (values ! v)\<lparr>mv_value_num := bump (mv_value_num (values ! v))\<rparr>])"

fun fold_occurrences :: "token list \<Rightarrow> nat \<Rightarrow> nat \<Rightarrow> token list \<Rightarrow> nat list \<Rightarrow> map_value list \<Rightarrow> map_value list option" where
  "fold_occurrences h n m key [] values = Some values"
| "fold_occurrences h n m key (i # is) values = (case slice i (i + n) h of
     None \<Rightarrow> None
   | Some w \<Rightarrow>
       if w \<noteq> key then fold_occurrences h n m key is values
       else (case value_slot h m (i + n) 0 values of
               None \<Rightarrow> None
             | Some (idx, values) \<Rightarrow> fold_occurrences h n m key is (count_value idx values)))"

definition dominant :: "map_value list \<Rightarrow> nat \<times> nat" where
  "dominant values = fold (\<lambda>(v, x) (slot_max, max_occur).
     if max_occur < mv_value_num x then (v, mv_value_num x) else (slot_max, max_occur))
     (enumerate 0 values) (0, 0)"

definition others_sum :: "nat \<Rightarrow> map_value list \<Rightarrow> nat" where
  "others_sum slot_max values =
     sum_list (map (\<lambda>(v, x). mv_value_num x) (filter (\<lambda>(v, x). v \<noteq> slot_max) (enumerate 0 values)))"

text \<open>The tail shared by both kinds: draft at most what the value's last draft got accepted.\<close>

definition emit_draft ::
  "map_speculator \<Rightarrow> nat \<Rightarrow> nat \<Rightarrow> nat \<Rightarrow> nat \<Rightarrow> token list \<Rightarrow> (nat \<times> token list \<times> map_speculator) option" where
  "emit_draft s room match_pos key_offset slot out =
     (let n = mc_size_n (ms_config s); m = mc_size_m (ms_config s);
          n_accepted = mv_n_accepted (mk_values (ms_keys s ! key_offset) ! slot);
          c = min (nat (max (min (int m) n_accepted) 0)) room
      in case slice (match_pos + n) (match_pos + n + c) (ms_history s) of
           None \<Rightarrow> None
         | Some draft \<Rightarrow> Some (c, out @ draft,
             s\<lparr>ms_last_draft_created := True, ms_last_draft_key_idx := key_offset,
               ms_last_draft_value_idx := slot\<rparr>))"

definition key_entry :: "map_speculator \<Rightarrow> token list \<Rightarrow> nat \<Rightarrow> (nat \<times> map_speculator) option" where
  "key_entry s key match_pos =
     (case find_key (ms_history s) (mc_size_n (ms_config s)) key (ms_keys s) of
        None \<Rightarrow> None
      | Some key_offset \<Rightarrow>
          (let keys = (if key_offset = length (ms_keys s)
                       then ms_keys s @ [new_key (mc_size_m (ms_config s)) match_pos] else ms_keys s);
               k = keys ! key_offset
           in Some (key_offset, s\<lparr>ms_keys := keys[key_offset := k\<lparr>mk_key_num := bump (mk_key_num k)\<rparr>]\<rparr>)))"

definition draft_match ::
  "map_speculator \<Rightarrow> token list \<Rightarrow> nat \<Rightarrow> nat \<Rightarrow> nat \<Rightarrow> token list \<Rightarrow> (nat \<times> token list \<times> map_speculator) option" where
  "draft_match s key room match_pos key_offset out =
     (let c = ms_config s; k = ms_keys s ! key_offset in
      if mc_key_only c then emit_draft s room match_pos key_offset 0 out
      else if mk_key_num k < mc_min_hits c then Some (0, out, s)
      else
        (case fold_occurrences (ms_history s) (mc_size_n c) (mc_size_m c) key
                [mk_stat_idx k..<match_pos + 1] (mk_values k) of
           None \<Rightarrow> None
         | Some values \<Rightarrow>
             (let s = s\<lparr>ms_keys := (ms_keys s)[key_offset := k\<lparr>mk_values := values, mk_stat_idx := match_pos\<rparr>]\<rparr>;
                  (slot_max, max_occur) = dominant values;
                  sum_occur = others_sum slot_max values
              in if 0 < sum_occur \<and> max_occur < 2 * sum_occur then Some (0, out, s)
                 else emit_draft s room match_pos key_offset slot_max out)))"

definition map_propose_into ::
  "map_speculator \<Rightarrow> nat \<Rightarrow> token list \<Rightarrow> (nat \<times> token list \<times> map_speculator) option" where
  "map_propose_into s capacity out =
     (let s = s\<lparr>ms_last_draft_created := False, ms_last_draft_key_idx := 0, ms_last_draft_value_idx := 0\<rparr>;
          h = ms_history s; n = mc_size_n (ms_config s); m = mc_size_m (ms_config s);
          room = min (capacity - length out) m; cur_len = length h - 1
      in if room = 0 \<or> h = [] then Some (0, out, s)
         else if cur_len < 2 * n + m then Some (0, out, s)
         else
           (let s = s\<lparr>ms_idx_last_check := cur_len\<rparr> in
            case slice (length h - n) (length h) h of None \<Rightarrow> None | Some key \<Rightarrow>
            (case find_match s key of None \<Rightarrow> None | Some match_pos \<Rightarrow>
             (case index_ngrams s of None \<Rightarrow> None | Some s \<Rightarrow>
                if match_pos = 0 then Some (0, out, s)
                else
                  (case key_entry s key match_pos of None \<Rightarrow> None | Some (key_offset, s) \<Rightarrow>
                     draft_match s key room match_pos key_offset out)))))"

definition map_accept :: "map_speculator \<Rightarrow> nat \<Rightarrow> map_speculator option" where
  "map_accept s n_accepted =
     (if \<not> ms_last_draft_created s then Some s
      else if ms_last_draft_key_idx s < length (ms_keys s) \<and>
              ms_last_draft_value_idx s < length (mk_values (ms_keys s ! ms_last_draft_key_idx s)) then
        (let k = ms_keys s ! ms_last_draft_key_idx s; v = mk_values k ! ms_last_draft_value_idx s
         in Some (s\<lparr>ms_keys := (ms_keys s)[ms_last_draft_key_idx s :=
              k\<lparr>mk_values := (mk_values k)[ms_last_draft_value_idx s :=
                v\<lparr>mv_n_accepted := int (min n_accepted (2 ^ 15 - 1))\<rparr>]\<rparr>]\<rparr>))
      else None)"

section \<open>Slices and scans\<close>

lemma slice_in [simp]: "hi \<le> length xs \<Longrightarrow> lo \<le> hi \<Longrightarrow> slice lo hi xs = Some (take (hi - lo) (drop lo xs))"
  by (simp add: slice_def)

lemma length_push_bounded: "length h \<le> length (push_bounded cap h t)"
  by (simp add: push_bounded_def)

lemma length_push_all: "length h \<le> length (push_all cap h ts)"
  unfolding push_all_def
proof (induction ts arbitrary: h)
  case (Cons t ts)
  then show ?case using length_push_bounded [of h cap t] by (auto intro: order_trans)
qed simp

text \<open>\<open>occurs h n key p\<close>: the n-gram at \<open>p\<close> is the key.\<close>

definition occurs :: "token list \<Rightarrow> nat \<Rightarrow> token list \<Rightarrow> nat \<Rightarrow> bool" where
  "occurs h n key p \<longleftrightarrow> take n (drop p h) = key"

text \<open>A backward scan inside the history always ends, at the newest occurrence above \<open>stop\<close>.\<close>

lemma scan_back_spec:
  assumes "j + n \<le> length h"
  shows "\<exists>p. scan_back h n key stop j = Some p \<and> p \<le> j \<and> (p \<noteq> 0 \<longrightarrow> stop < p \<and> occurs h n key p) \<and>
    (\<forall>q. max p stop < q \<and> q \<le> j \<longrightarrow> \<not> occurs h n key q)"
  using assms
proof (induction h n key stop j rule: scan_back.induct)
  case (1 h n key stop j)
  show ?case
  proof (cases "j \<le> stop \<or> occurs h n key j")
    case True
    then show ?thesis using 1(2) by (subst scan_back.simps) (auto simp: occurs_def)
  next
    case False
    then have "scan_back h n key stop j = scan_back h n key stop (j - 1)"
      using 1(2) by (subst scan_back.simps) (simp add: occurs_def)
    moreover have "\<exists>p. scan_back h n key stop (j - 1) = Some p \<and> p \<le> j - 1 \<and>
      (p \<noteq> 0 \<longrightarrow> stop < p \<and> occurs h n key p) \<and>
      (\<forall>q. max p stop < q \<and> q \<le> j - 1 \<longrightarrow> \<not> occurs h n key q)"
      using 1(2) False by (intro 1(1) [of "take n (drop j h)"]) (auto simp: occurs_def)
    then obtain p where p: "scan_back h n key stop (j - 1) = Some p" "p \<le> j - 1"
      "p \<noteq> 0 \<longrightarrow> stop < p \<and> occurs h n key p"
      "\<forall>q. max p stop < q \<and> q \<le> j - 1 \<longrightarrow> \<not> occurs h n key q" by blast
    moreover have "\<not> occurs h n key q" if "max p stop < q \<and> q \<le> j" for q
      using p(4) that False by (cases "q = j") auto
    ultimately show ?thesis by (intro exI [of _ p]) auto
  qed
qed

lemma index_back_total:
  assumes "j + n \<le> length h"
  shows "\<exists>km. index_back h n stop j key_map = Some km"
  using assms
proof (induction h n stop j key_map rule: index_back.induct)
  case (1 h n stop j key_map)
  then show ?case by (cases "j \<le> stop") (subst index_back.simps, auto simp: Let_def)+
qed

lemma drafted_from_occurrence:
  assumes "occurs h n (drop (length h - n) h) p" and "p + n + c \<le> length h" and "0 < c"
  shows "drafted_from h n (p + n) (take c (drop (p + n) h))"
  using assms by (auto simp: drafted_from_def occurs_def)

section \<open>ngram-simple\<close>

lemma simple_propose_cases:
  fixes s :: simple_speculator
  defines "h \<equiv> ss_history s" and "n \<equiv> sc_size_n (ss_config s)" and "m \<equiv> sc_size_m (ss_config s)"
  assumes "0 < n" "n + m + 2 < length h" "length out < capacity" "0 < m"
  obtains p where "p + n + 2 \<le> length h" "p \<noteq> 0 \<longrightarrow> occurs h n (drop (length h - n) h) p"
    "\<forall>q. p < q \<and> q + n + 2 \<le> length h \<longrightarrow> \<not> occurs h n (drop (length h - n) h) q"
    "simple_propose_into s capacity out =
       (if p = 0 \<or> min m (length h - 1 - (p + n)) < n then Some (0, out)
        else (let c = min (min m (length h - 1 - (p + n))) (min (capacity - length out) m)
              in Some (c, out @ take c (drop (p + n) h))))"
proof -
  let ?key = "drop (length h - n) h"
  obtain p where p: "scan_back h n ?key 0 (length h - 1 - n - 1) = Some p" "p \<le> length h - 1 - n - 1"
    "p \<noteq> 0 \<longrightarrow> occurs h n ?key p" "\<forall>q. max p 0 < q \<and> q \<le> length h - 1 - n - 1 \<longrightarrow> \<not> occurs h n ?key q"
    using scan_back_spec [of "length h - 1 - n - 1" n h ?key 0] assms by auto
  have "simple_propose_into s capacity out =
       (if p = 0 \<or> min m (length h - 1 - (p + n)) < n then Some (0, out)
        else (let c = min (min m (length h - 1 - (p + n))) (min (capacity - length out) m)
              in Some (c, out @ take c (drop (p + n) h))))"
    using assms p(1,2) unfolding simple_propose_into_def Let_def h_def [symmetric] n_def [symmetric] m_def [symmetric]
    by (auto simp: slice_def)
  moreover have "p + n + 2 \<le> length h" using p(2) assms by linarith
  moreover have "\<forall>q. p < q \<and> q + n + 2 \<le> length h \<longrightarrow> \<not> occurs h n ?key q" using p(4) by auto
  ultimately show ?thesis using that p(3) by blast
qed

lemma simple_config_newD:
  "simple_config_new n m cap = Inr c \<Longrightarrow> sc_size_n c = n \<and> sc_size_m c = m \<and> 0 < n \<and> 0 < m"
  by (auto simp: simple_config_new_def split: if_splits)

definition simple_ok :: "simple_speculator \<Rightarrow> bool" where
  "simple_ok s \<longleftrightarrow> 0 < sc_size_n (ss_config s) \<and> 0 < sc_size_m (ss_config s)"

definition simple_ops :: "simple_speculator drafter_ops" where
  "simple_ops = \<lparr>op_observe = \<lambda>s t. Some (simple_observe s t),
     op_observe_all = \<lambda>s ts. Some (simple_observe_all s ts),
     op_propose = \<lambda>s cap out. map_option (\<lambda>(k, out'). (k, out', s)) (simple_propose_into s cap out),
     op_accept = \<lambda>s k. Some s\<rparr>"

text \<open>Every draft of \<open>ngram-simple\<close> continues the newest earlier occurrence of the current tail.\<close>

lemma simple_propose_spec:
  fixes s :: simple_speculator
  defines "h \<equiv> ss_history s" and "n \<equiv> sc_size_n (ss_config s)" and "m \<equiv> sc_size_m (ss_config s)"
  assumes "simple_ok s"
  shows "\<exists>k draft. simple_propose_into s capacity out = Some (k, out @ draft) \<and> k = length draft \<and>
    k \<le> min (capacity - length out) m \<and>
    (draft \<noteq> [] \<longrightarrow> (\<exists>e. drafted_from h n e draft \<and>
      (\<forall>e'. e < e' \<and> e' + 2 \<le> length h \<longrightarrow> take n (drop (e' - n) h) \<noteq> drop (length h - n) h)))"
proof (cases "capacity \<le> length out \<or> length h \<le> n + m + 2")
  case True
  then have "simple_propose_into s capacity out = Some (0, out)"
    unfolding simple_propose_into_def Let_def h_def [symmetric] n_def [symmetric] m_def [symmetric] by auto
  then show ?thesis by simp
next
  case False
  then have pre: "0 < n" "n + m + 2 < length h" "length out < capacity" "0 < m"
    using assms(4) by (auto simp: simple_ok_def n_def m_def)
  let ?key = "drop (length h - n) h"
  obtain p where p: "p + n + 2 \<le> length h" "p \<noteq> 0 \<longrightarrow> occurs h n ?key p"
    "\<forall>q. p < q \<and> q + n + 2 \<le> length h \<longrightarrow> \<not> occurs h n ?key q"
    "simple_propose_into s capacity out =
       (if p = 0 \<or> min m (length h - 1 - (p + n)) < n then Some (0, out)
        else (let c = min (min m (length h - 1 - (p + n))) (min (capacity - length out) m)
              in Some (c, out @ take c (drop (p + n) h))))"
    using pre unfolding h_def n_def m_def by (rule simple_propose_cases)
  define c where "c = min (min m (length h - 1 - (p + n))) (min (capacity - length out) m)"
  show ?thesis
  proof (cases "p = 0 \<or> min m (length h - 1 - (p + n)) < n")
    case True
    then show ?thesis using p(4) by simp
  next
    case hit: False
    have c: "0 < c" "p + n + c \<le> length h" using pre hit p(1) by (auto simp: c_def)
    have "drafted_from h n (p + n) (take c (drop (p + n) h))"
      using p(2) hit c by (intro drafted_from_occurrence) auto
    moreover have "take n (drop (e' - n) h) \<noteq> ?key" if "p + n < e'" "e' + 2 \<le> length h" for e'
      using p(3) [rule_format, of "e' - n"] that by (simp add: occurs_def)
    moreover have "simple_propose_into s capacity out = Some (c, out @ take c (drop (p + n) h))"
      using p(4) hit by (simp add: c_def Let_def)
    moreover have "c \<le> min (capacity - length out) m" unfolding c_def by (rule min.cobounded2)
    ultimately show ?thesis using c by (intro exI [of _ c] exI [of _ "take c (drop (p + n) h)"]) auto
  qed
qed

interpretation simple: drafter simple_ok "\<lambda>s. sc_size_m (ss_config s)" simple_ops
proof unfold_locales
  fix s cap out assume "simple_ok s"
  then obtain k draft where "simple_propose_into s cap out = Some (k, out @ draft)" "k = length draft"
    "k \<le> min (cap - length out) (sc_size_m (ss_config s))"
    using simple_propose_spec [of s cap out] by blast
  then show "\<exists>k out' s'. op_propose simple_ops s cap out = Some (k, out', s') \<and> simple_ok s' \<and>
      sc_size_m (ss_config s') = sc_size_m (ss_config s) \<and> draft_fits (sc_size_m (ss_config s)) cap out k out'"
    using \<open>simple_ok s\<close> by (auto simp: simple_ops_def intro: draft_fitsI)
qed (auto simp: simple_ops_def simple_observe_def simple_observe_all_def simple_ok_def)

section \<open>ngram-map\<close>

text \<open>What keeps every slice of \<open>ngram-map\<close> in range: the generation boundary, the key positions and the
  value positions lie inside the history, and the last draft's indices name a value slot.\<close>

definition value_ok :: "token list \<Rightarrow> nat \<Rightarrow> map_value \<Rightarrow> bool" where
  "value_ok h m v \<longleftrightarrow> mv_value_idx v = 0 \<or> mv_value_idx v + m \<le> length h"

definition key_ok :: "token list \<Rightarrow> nat \<Rightarrow> nat \<Rightarrow> map_key \<Rightarrow> bool" where
  "key_ok h n m k \<longleftrightarrow> mk_key_idx k + n \<le> length h \<and> length (mk_values k) = ngram_map_max_values \<and>
     list_all (value_ok h m) (mk_values k)"

definition keys_ok :: "map_speculator \<Rightarrow> bool" where
  "keys_ok s \<longleftrightarrow> list_all (key_ok (ms_history s) (mc_size_n (ms_config s)) (mc_size_m (ms_config s))) (ms_keys s)"

definition map_ok :: "map_speculator \<Rightarrow> bool" where
  "map_ok s \<longleftrightarrow> 0 < mc_size_n (ms_config s) \<and> 0 < mc_size_m (ms_config s) \<and>
     ms_size_last_begin s \<le> length (ms_history s) \<and> keys_ok s \<and>
     (ms_last_draft_created s \<longrightarrow> ms_last_draft_key_idx s < length (ms_keys s) \<and>
        ms_last_draft_value_idx s < ngram_map_max_values)"

lemma map_new_ok: "map_config_new n m ko mh cap = Inr c \<Longrightarrow> map_ok (map_new c) \<and> ms_config (map_new c) = c"
  by (auto simp: map_config_new_def map_new_def map_ok_def keys_ok_def split: if_splits)

lemma value_ok_mono: "value_ok h m v \<Longrightarrow> length h \<le> length h' \<Longrightarrow> value_ok h' m v"
  by (auto simp: value_ok_def)

lemma key_ok_mono: "key_ok h n m k \<Longrightarrow> length h \<le> length h' \<Longrightarrow> key_ok h' n m k"
  by (auto simp: key_ok_def list_all_iff intro: value_ok_mono)

lemma map_ok_grow:
  "map_ok s \<Longrightarrow> length (ms_history s) \<le> length h \<Longrightarrow> map_ok (s\<lparr>ms_history := h\<rparr>)"
  by (auto simp: map_ok_def keys_ok_def list_all_iff intro: key_ok_mono)

lemma map_observe_ok: "map_ok s \<Longrightarrow> map_ok (map_observe s t) \<and> ms_config (map_observe s t) = ms_config s"
  unfolding map_observe_def Let_def
  by (auto intro!: map_ok_grow simp: length_push_bounded) (auto simp: map_ok_def keys_ok_def)

lemma map_observe_all_ok:
  "map_ok s \<Longrightarrow> map_ok (map_observe_all s ts) \<and> ms_config (map_observe_all s ts) = ms_config s"
  unfolding map_observe_all_def by (auto intro: map_ok_grow simp: length_push_all)

lemma map_accept_ok:
  assumes "map_ok s"
  shows "\<exists>s'. map_accept s k = Some s' \<and> map_ok s' \<and> ms_config s' = ms_config s"
proof (cases "ms_last_draft_created s")
  case True
  let ?k = "ms_keys s ! ms_last_draft_key_idx s"
  have idx: "ms_last_draft_key_idx s < length (ms_keys s)" "ms_last_draft_value_idx s < ngram_map_max_values"
    and keys: "list_all (key_ok (ms_history s) (mc_size_n (ms_config s)) (mc_size_m (ms_config s))) (ms_keys s)"
    using assms True by (auto simp: map_ok_def keys_ok_def)
  then have k: "key_ok (ms_history s) (mc_size_n (ms_config s)) (mc_size_m (ms_config s)) ?k"
    by (auto simp: list_all_length)
  let ?v = "mk_values ?k ! ms_last_draft_value_idx s"
  have "value_ok (ms_history s) (mc_size_m (ms_config s)) (?v\<lparr>mv_n_accepted := x\<rparr>)" for x
    using k idx by (auto simp: key_ok_def list_all_length value_ok_def)
  then show ?thesis using True assms keys k idx
    by (auto simp: map_accept_def map_ok_def keys_ok_def key_ok_def list_all_iff Let_def
        dest!: set_update_subset_insert [THEN subsetD])
qed (use assms in \<open>simp add: map_accept_def\<close>)

text \<open>A match is a position from which key, value and the current tail all fit.\<close>

definition match_ok :: "map_speculator \<Rightarrow> token list \<Rightarrow> nat \<Rightarrow> bool" where
  "match_ok s key p \<longleftrightarrow> p \<noteq> 0 \<longrightarrow> occurs (ms_history s) (mc_size_n (ms_config s)) key p \<and>
     p + mc_size_n (ms_config s) + mc_size_m (ms_config s) < length (ms_history s)"

lemma scan_match:
  assumes "j + mc_size_n (ms_config s) + mc_size_m (ms_config s) < length (ms_history s)"
  shows "\<exists>p. scan_back (ms_history s) (mc_size_n (ms_config s)) key stop j = Some p \<and> match_ok s key p"
proof -
  obtain p where "scan_back (ms_history s) (mc_size_n (ms_config s)) key stop j = Some p" "p \<le> j"
    "p \<noteq> 0 \<longrightarrow> stop < p \<and> occurs (ms_history s) (mc_size_n (ms_config s)) key p"
    using scan_back_spec [of j "mc_size_n (ms_config s)" "ms_history s" key stop] assms by auto
  then show ?thesis using assms by (auto simp: match_ok_def)
qed

lemma find_match_ok:
  assumes "map_ok s" and "2 * mc_size_n (ms_config s) + mc_size_m (ms_config s) < length (ms_history s)"
  shows "\<exists>p. find_match s key = Some p \<and> match_ok s key p"
proof -
  let ?h = "ms_history s" and ?n = "mc_size_n (ms_config s)" and ?m = "mc_size_m (ms_config s)"
  have n: "0 < ?n" and b: "ms_size_last_begin s \<le> length ?h" using assms(1) by (auto simp: map_ok_def)
  have "\<exists>p. hashed_match s key = Some p \<and> match_ok s key p"
    by (auto simp: hashed_match_def match_ok_def occurs_def Let_def)
  then obtain p1 where p1: "hashed_match s key = Some p1" "match_ok s key p1" by blast
  have "\<exists>p. prompt_match s key p1 = Some p \<and> match_ok s key p"
    using p1(2) scan_match [of "ms_size_last_begin s - ?n - ?m - 1" s key "ms_key_map_last_idx s"] b
    unfolding prompt_match_def Let_def by (cases "p1 = 0 \<and> ?n + ?m + 1 < ms_size_last_begin s") auto
  then obtain p2 where p2: "prompt_match s key p1 = Some p2" "match_ok s key p2" by blast
  have "\<exists>p. generated_match s key p2 = Some p \<and> match_ok s key p"
    using p2(2) scan_match [of "length ?h - 1 - ?n - ?m - 1" s key
      "max (ms_size_last_begin s) (ms_key_map_last_idx s)"] assms(2) n
    unfolding generated_match_def Let_def by (cases "p2 = 0") auto
  then show ?thesis using p1 p2 by (simp add: find_match_def)
qed

lemma index_ngrams_ok:
  assumes "map_ok s" and "2 * mc_size_n (ms_config s) + mc_size_m (ms_config s) < length (ms_history s)"
  shows "\<exists>km i. index_ngrams s = Some (s\<lparr>ms_key_map := km, ms_key_map_last_idx := i\<rparr>)"
proof -
  let ?h = "ms_history s" and ?n = "mc_size_n (ms_config s)" and ?m = "mc_size_m (ms_config s)"
  have n: "0 < ?n" and b: "ms_size_last_begin s \<le> length ?h" using assms(1) by (auto simp: map_ok_def)
  have "ms_size_last_begin s - ?n - ?m - 1 + ?n \<le> length ?h" using b assms(2) by arith
  from index_back_total [OF this] obtain km1 where km1: "(if ?n + ?m + 1 < ms_size_last_begin s
      then index_back ?h ?n (ms_key_map_last_idx s) (ms_size_last_begin s - ?n - ?m - 1) (ms_key_map s)
      else Some (ms_key_map s)) = Some km1"
    by (cases "?n + ?m + 1 < ms_size_last_begin s") auto
  obtain km2 where "index_back ?h ?n (max (ms_size_last_begin s) (ms_key_map_last_idx s))
      (length ?h - 1 - ?n - ?m - 1) km1 = Some km2"
    using index_back_total [of "length ?h - 1 - ?n - ?m - 1" ?n ?h] assms(2) n by fastforce
  with km1 have "\<exists>km i. index_ngrams s = Some (s\<lparr>ms_key_map := km, ms_key_map_last_idx := i\<rparr>)"
    if "ms_key_map s \<noteq> []" using that by (auto simp: index_ngrams_def Let_def)
  moreover have "index_ngrams s = Some (s\<lparr>ms_key_map := [], ms_key_map_last_idx := ms_key_map_last_idx s\<rparr>)"
    if "ms_key_map s = []" using that by (cases s) (simp add: index_ngrams_def Let_def)
  ultimately show ?thesis by blast
qed

lemma find_key_ok:
  assumes "list_all (key_ok h n m) ks"
  shows "\<exists>i. find_key h n key ks = Some i \<and> i \<le> length ks"
  using assms by (induction ks) (auto simp: key_ok_def)

text \<open>The entry exists, belongs to a well-formed key list, and nothing else changes.\<close>

lemma key_entry_ok:
  assumes "map_ok s" and "match_ok s key p" and "p \<noteq> 0"
  shows "\<exists>i ks. key_entry s key p = Some (i, s\<lparr>ms_keys := ks\<rparr>) \<and> i < length ks \<and> keys_ok (s\<lparr>ms_keys := ks\<rparr>)"
proof -
  let ?ok = "key_ok (ms_history s) (mc_size_n (ms_config s)) (mc_size_m (ms_config s))"
  have keys: "list_all ?ok (ms_keys s)" using assms(1) by (simp add: map_ok_def keys_ok_def)
  then obtain i where i: "find_key (ms_history s) (mc_size_n (ms_config s)) key (ms_keys s) = Some i"
    "i \<le> length (ms_keys s)" using find_key_ok by blast
  define ks where "ks = (if i = length (ms_keys s) then ms_keys s @ [new_key (mc_size_m (ms_config s)) p] else ms_keys s)"
  have "?ok (new_key (mc_size_m (ms_config s)) p)"
    using assms(2,3) by (auto simp: new_key_def key_ok_def match_ok_def value_ok_def list_all_iff)
  then have ks: "list_all ?ok ks" "i < length ks" using keys i(2) by (auto simp: ks_def)
  then have "?ok ((ks ! i)\<lparr>mk_key_num := b\<rparr>)" for b by (auto simp: list_all_length key_ok_def)
  then have "list_all ?ok (ks[i := (ks ! i)\<lparr>mk_key_num := b\<rparr>])" for b
    using ks by (auto simp: list_all_iff dest!: set_update_subset_insert [THEN subsetD])
  then show ?thesis using i(1) ks
    by (auto simp: key_entry_def Let_def ks_def [symmetric] keys_ok_def)
qed

lemma value_slot_ok:
  assumes "list_all (value_ok h m) vs" and "b + m \<le> length h"
  shows "\<exists>i vs'. value_slot h m b v vs = Some (i, vs') \<and> length vs' = length vs \<and>
    list_all (value_ok h m) vs' \<and> (case i of None \<Rightarrow> True | Some j \<Rightarrow> v \<le> j \<and> j < v + length vs)"
  using assms
proof (induction vs arbitrary: v)
  case (Cons x xs)
  show ?case
  proof (cases "mv_value_idx x = 0")
    case False
    obtain i ys where "value_slot h m b (Suc v) xs = Some (i, ys)" "length ys = length xs"
      "list_all (value_ok h m) ys" "case i of None \<Rightarrow> True | Some j \<Rightarrow> Suc v \<le> j \<and> j < Suc v + length xs"
      using Cons.IH [of "Suc v"] Cons.prems by auto
    moreover have "mv_value_idx x + m \<le> length h" using False Cons.prems by (simp add: value_ok_def)
    ultimately show ?thesis using False Cons.prems by (auto split: option.splits)
  qed (use Cons.prems in \<open>simp add: value_ok_def\<close>)
qed simp

lemma count_value_ok:
  assumes "list_all (value_ok h m) vs" and "case i of None \<Rightarrow> True | Some j \<Rightarrow> j < length vs"
  shows "length (count_value i vs) = length vs \<and> list_all (value_ok h m) (count_value i vs)"
  using assms
  by (cases i) (auto simp: count_value_def list_all_length value_ok_def nth_list_update)

lemma fold_occurrences_ok:
  assumes "list_all (value_ok h m) vs" and "\<forall>i \<in> set is. i + n + m \<le> length h"
  shows "\<exists>vs'. fold_occurrences h n m key is vs = Some vs' \<and> length vs' = length vs \<and> list_all (value_ok h m) vs'"
  using assms
proof (induction "is" arbitrary: vs)
  case (Cons i "is")
  obtain j vs' where v: "value_slot h m (i + n) 0 vs = Some (j, vs')" "length vs' = length vs"
    "list_all (value_ok h m) vs'" "case j of None \<Rightarrow> True | Some k \<Rightarrow> k < length vs"
    using value_slot_ok [OF Cons.prems(1), of "i + n" 0] Cons.prems(2) by (auto split: option.splits)
  have c: "length (count_value j vs') = length vs" "list_all (value_ok h m) (count_value j vs')"
    using count_value_ok [of h m vs' j] v by (auto split: option.splits)
  show ?case using Cons.IH [OF Cons.prems(1)] Cons.IH [OF c(2)] c(1) v(1) Cons.prems(2) by auto
qed simp

lemma dominant_bound: "values \<noteq> [] \<Longrightarrow> fst (dominant values) < length values"
proof -
  have "fst (fold (\<lambda>(v, x) (slot_max, max_occur).
     if max_occur < mv_value_num x then (v, mv_value_num x) else (slot_max, max_occur)) vs (a, b)) < N"
    if "a < N" "\<forall>v \<in> fst ` set vs. v < N" for vs :: "(nat \<times> map_value) list" and a b N
    using that by (induction vs arbitrary: a b) auto
  moreover assume "values \<noteq> []"
  ultimately show ?thesis unfolding dominant_def by (auto simp: in_set_enumerate_eq)
qed

text \<open>\<open>drafts s limit out r\<close>: the call appends a draft of at most \<open>room\<close> tokens that continues an
  earlier occurrence of the current tail, and leaves a well-formed drafter.\<close>

definition map_drafts :: "map_speculator \<Rightarrow> nat \<Rightarrow> token list \<Rightarrow> nat \<times> token list \<times> map_speculator \<Rightarrow> bool" where
  "map_drafts s room out r = (case r of (k, out', s') \<Rightarrow> map_ok s' \<and> ms_config s' = ms_config s \<and>
     ms_history s' = ms_history s \<and> (\<exists>draft. out' = out @ draft \<and> k = length draft \<and> k \<le> room \<and>
       (draft \<noteq> [] \<longrightarrow> (\<exists>e. drafted_from (ms_history s) (mc_size_n (ms_config s)) e draft))))"

lemma map_drafts_none:
  "map_ok s' \<Longrightarrow> ms_config s' = ms_config s \<Longrightarrow> ms_history s' = ms_history s \<Longrightarrow> map_drafts s room out (0, out, s')"
  by (simp add: map_drafts_def)

lemma emit_draft_ok:
  assumes "map_ok s" and "match_ok s (drop (length (ms_history s) - mc_size_n (ms_config s)) (ms_history s)) p"
    and "p \<noteq> 0" and "room \<le> mc_size_m (ms_config s)" and "i < length (ms_keys s)" and "j < ngram_map_max_values"
  shows "\<exists>r. emit_draft s room p i j out = Some r \<and> map_drafts s room out r"
proof -
  let ?h = "ms_history s" and ?n = "mc_size_n (ms_config s)" and ?m = "mc_size_m (ms_config s)"
  define c where "c = min (nat (max (min (int ?m) (mv_n_accepted (mk_values (ms_keys s ! i) ! j))) 0)) room"
  have c: "c \<le> room" "c \<le> ?m" using assms(4) by (auto simp: c_def)
  have fit: "p + ?n + c \<le> length ?h" using assms(2,3) c by (auto simp: match_ok_def)
  have "drafted_from ?h ?n (p + ?n) (take c (drop (p + ?n) ?h))" if "0 < c"
    using assms(2,3) fit that by (intro drafted_from_occurrence) (auto simp: match_ok_def)
  then show ?thesis using assms(1,5,6) c fit
    by (auto simp: emit_draft_def Let_def c_def [symmetric] map_drafts_def map_ok_def keys_ok_def)
qed

lemma draft_match_ok:
  assumes "map_ok s" and "match_ok s (drop (length (ms_history s) - mc_size_n (ms_config s)) (ms_history s)) p"
    and "p \<noteq> 0" and "room \<le> mc_size_m (ms_config s)" and i: "i < length (ms_keys s)"
  shows "\<exists>r. draft_match s key room p i out = Some r \<and> map_drafts s room out r"
proof -
  let ?h = "ms_history s" and ?n = "mc_size_n (ms_config s)" and ?m = "mc_size_m (ms_config s)"
  let ?k = "ms_keys s ! i"
  have k: "key_ok ?h ?n ?m ?k" using assms(1) i by (simp add: map_ok_def keys_ok_def list_all_length)
  define occ where "occ = [mk_stat_idx ?k..<p + 1]"
  have "\<forall>i \<in> set occ. i + ?n + ?m \<le> length ?h" using assms(2,3) by (auto simp: occ_def match_ok_def)
  then obtain vs where vs: "fold_occurrences ?h ?n ?m key occ (mk_values ?k) = Some vs"
    "length vs = ngram_map_max_values" "list_all (value_ok ?h ?m) vs"
    using fold_occurrences_ok [of ?h ?m "mk_values ?k" occ ?n key] k by (auto simp: key_ok_def)
  define s' where "s' = s\<lparr>ms_keys := (ms_keys s)[i := ?k\<lparr>mk_values := vs, mk_stat_idx := p\<rparr>]\<rparr>"
  have "key_ok ?h ?n ?m (?k\<lparr>mk_values := vs, mk_stat_idx := p\<rparr>)" using k vs by (simp add: key_ok_def)
  then have ok: "map_ok s'" using assms(1)
    by (auto simp: s'_def map_ok_def keys_ok_def list_all_iff dest!: set_update_subset_insert [THEN subsetD])
  have same: "ms_config s' = ms_config s" "ms_history s' = ?h" "length (ms_keys s') = length (ms_keys s)"
    by (simp_all add: s'_def)
  have slot: "fst (dominant vs) < ngram_map_max_values"
    using dominant_bound [of vs] vs(2) by (cases vs) (auto simp: ngram_map_max_values_def)
  have "\<exists>r. emit_draft s' room p i (fst (dominant vs)) out = Some r \<and> map_drafts s' room out r"
    using ok assms(2-5) slot same by (intro emit_draft_ok) (simp_all add: match_ok_def)
  moreover have "map_drafts s' room out r = map_drafts s room out r" for r
    by (simp add: map_drafts_def same)
  moreover have "\<exists>r. emit_draft s room p i 0 out = Some r \<and> map_drafts s room out r"
    using assms by (intro emit_draft_ok) (simp_all add: ngram_map_max_values_def)
  ultimately show ?thesis
    unfolding draft_match_def Let_def occ_def [symmetric] vs(1) option.case s'_def [symmetric] case_prod_unfold
    using ok same assms(1) by (auto intro: map_drafts_none)
qed

lemma map_propose_ok:
  assumes "map_ok s"
  shows "\<exists>r. map_propose_into s capacity out = Some r \<and>
    map_drafts s (min (capacity - length out) (mc_size_m (ms_config s))) out r"
proof -
  let ?h = "ms_history s" and ?n = "mc_size_n (ms_config s)" and ?m = "mc_size_m (ms_config s)"
  let ?room = "min (capacity - length out) ?m"
  define s1 where "s1 = s\<lparr>ms_last_draft_created := False, ms_last_draft_key_idx := 0, ms_last_draft_value_idx := 0\<rparr>"
  define s2 where "s2 = s1\<lparr>ms_idx_last_check := length ?h - 1\<rparr>"
  have s1: "map_ok s1" "ms_config s1 = ms_config s" "ms_history s1 = ?h"
    and s2: "map_ok s2" "ms_config s2 = ms_config s" "ms_history s2 = ?h" "\<not> ms_last_draft_created s2"
    using assms by (auto simp: s1_def s2_def map_ok_def keys_ok_def)
  show ?thesis
  proof (cases "?room = 0 \<or> ?h = [] \<or> length ?h - 1 < 2 * ?n + ?m")
    case True
    then have "map_propose_into s capacity out = Some (0, out, s1)"
      unfolding map_propose_into_def Let_def s1_def [symmetric] s1 by auto
    then show ?thesis using s1 by (auto intro: map_drafts_none)
  next
    case False
    then have long: "2 * mc_size_n (ms_config s2) + mc_size_m (ms_config s2) < length (ms_history s2)"
      using s2 by auto
    let ?key = "drop (length ?h - ?n) ?h"
    have key: "slice (length ?h - ?n) (length ?h) ?h = Some ?key" using long s2 by simp
    obtain p where p: "find_match s2 ?key = Some p" "match_ok s2 ?key p"
      using find_match_ok [OF s2(1) long] by blast
    obtain km l where km: "index_ngrams s2 = Some (s2\<lparr>ms_key_map := km, ms_key_map_last_idx := l\<rparr>)"
      using index_ngrams_ok [OF s2(1) long] by blast
    define s3 where "s3 = s2\<lparr>ms_key_map := km, ms_key_map_last_idx := l\<rparr>"
    have s3: "map_ok s3" "ms_config s3 = ms_config s" "ms_history s3 = ?h" "match_ok s3 ?key p"
      using s2 p(2) by (auto simp: s3_def map_ok_def keys_ok_def match_ok_def)
    have run: "(?room = 0 \<or> ?h = []) = False" "(length ?h - 1 < 2 * ?n + ?m) = False" using False by blast+
    have eq: "map_propose_into s capacity out =
      (if p = 0 then Some (0, out, s3)
       else (case key_entry s3 ?key p of None \<Rightarrow> None | Some (i, s) \<Rightarrow> draft_match s ?key ?room p i out))"
      unfolding map_propose_into_def Let_def s1_def [symmetric] s1 s2_def [symmetric] run
      by (simp only: if_False key p(1) km s3_def [symmetric] option.case)
    show ?thesis
    proof (cases "p = 0")
      case True
      then show ?thesis using eq s3 by (auto intro: map_drafts_none)
    next
      case hit: False
      obtain i ks where ks: "key_entry s3 ?key p = Some (i, s3\<lparr>ms_keys := ks\<rparr>)" "i < length ks"
        "keys_ok (s3\<lparr>ms_keys := ks\<rparr>)" using key_entry_ok [OF s3(1,4) hit] by blast
      define s4 where "s4 = s3\<lparr>ms_keys := ks\<rparr>"
      have s4: "map_ok s4" "ms_config s4 = ms_config s" "ms_history s4 = ?h" "i < length (ms_keys s4)"
        using s3 s2(4) ks(2,3) by (auto simp: s4_def s3_def map_ok_def)
      have "\<exists>r. draft_match s4 ?key ?room p i out = Some r \<and> map_drafts s4 ?room out r"
        using s4 s3(2-4) hit by (intro draft_match_ok) (simp_all add: match_ok_def)
      then show ?thesis using eq hit ks(1) s4 by (simp add: s4_def [symmetric] map_drafts_def)
    qed
  qed
qed

definition map_ops :: "map_speculator drafter_ops" where
  "map_ops = \<lparr>op_observe = \<lambda>s t. Some (map_observe s t), op_observe_all = \<lambda>s ts. Some (map_observe_all s ts),
     op_propose = map_propose_into, op_accept = map_accept\<rparr>"

interpretation ngmap: drafter "\<lambda>s. map_ok s \<and> ms_config s = c" "\<lambda>s. mc_size_m (ms_config s)" map_ops for c
proof unfold_locales
  fix s cap out assume s: "map_ok s \<and> ms_config s = c"
  then obtain k out' s' where r: "map_propose_into s cap out = Some (k, out', s')"
    "map_drafts s (min (cap - length out) (mc_size_m (ms_config s))) out (k, out', s')"
    using map_propose_ok [of s cap out] by (metis prod.exhaust)
  then show "\<exists>k out' s'. op_propose map_ops s cap out = Some (k, out', s') \<and> (map_ok s' \<and> ms_config s' = c) \<and>
      mc_size_m (ms_config s') = mc_size_m (ms_config s) \<and> draft_fits (mc_size_m (ms_config s)) cap out k out'"
    using s by (auto simp: map_ops_def map_drafts_def intro: draft_fitsI)
next
  fix s j assume "map_ok s \<and> ms_config s = c"
  then show "\<exists>s'. op_accept map_ops s j = Some s' \<and> (map_ok s' \<and> ms_config s' = c) \<and>
      mc_size_m (ms_config s') = mc_size_m (ms_config s)"
    using map_accept_ok [of s j] by (auto simp: map_ops_def)
qed (auto simp: map_ops_def map_observe_ok map_observe_all_ok)

section \<open>Properties\<close>

text \<open>\<open>ngram-simple\<close> never panics, never grows the caller's buffer, and drafts only what followed the
  newest earlier occurrence of the sequence's own last \<open>size_n\<close> tokens.\<close>

theorem simple_drafts_newest_match:
  assumes "simple_config_new n m cap = Inr (ss_config s)"
  shows "\<exists>k draft. simple_propose_into s capacity out = Some (k, out @ draft) \<and> k = length draft \<and> k \<le> m \<and>
    (draft \<noteq> [] \<longrightarrow> length (out @ draft) \<le> capacity \<and> (\<exists>e. drafted_from (ss_history s) n e draft \<and>
      (\<forall>e'. e < e' \<and> e' + 2 \<le> length (ss_history s) \<longrightarrow>
         take n (drop (e' - n) (ss_history s)) \<noteq> drop (length (ss_history s) - n) (ss_history s))))"
proof -
  have c: "sc_size_n (ss_config s) = n" "sc_size_m (ss_config s) = m" "simple_ok s"
    using simple_config_newD [OF assms] by (simp_all add: simple_ok_def)
  obtain k draft where d: "simple_propose_into s capacity out = Some (k, out @ draft)" "k = length draft"
    "k \<le> min (capacity - length out) m"
    "draft \<noteq> [] \<longrightarrow> (\<exists>e. drafted_from (ss_history s) n e draft \<and>
      (\<forall>e'. e < e' \<and> e' + 2 \<le> length (ss_history s) \<longrightarrow>
         take n (drop (e' - n) (ss_history s)) \<noteq> drop (length (ss_history s) - n) (ss_history s)))"
    using simple_propose_spec [OF c(3), of capacity out] unfolding c by blast
  have "length (out @ draft) \<le> capacity" if "draft \<noteq> []"
    using d(2,3) that by (cases draft) auto
  then show ?thesis using d by (intro exI [of _ k] exI [of _ draft]) auto
qed

theorem simple_drafts_newest_match_witness:
  "let s = \<lparr>ss_config = \<lparr>sc_size_n = 1, sc_size_m = 2, sc_history_capacity = 16\<rparr>,
            ss_history = [9, 7, 5, 6, 3, 2, 7]\<rparr>
   in \<exists>k draft. simple_propose_into s 4 [] = Some (k, draft) \<and> k = length draft \<and> k \<le> 2"
proof -
  let ?s = "\<lparr>ss_config = \<lparr>sc_size_n = 1, sc_size_m = 2, sc_history_capacity = 16\<rparr>,
            ss_history = [9, 7, 5, 6, 3, 2, 7]\<rparr>"
  have "simple_config_new 1 2 16 = Inr (ss_config ?s)" by (simp add: simple_config_new_def)
  from simple_drafts_newest_match [OF this, of 4 "[]"] show ?thesis by (simp only: append_Nil Let_def) blast
qed

text \<open>After any sequence of calls, in any order, \<open>ngram-map\<close> (both kinds) has not panicked and does
  not panic when asked to draft: every slice and index it takes is in range. Its draft is never longer
  than \<open>size_m\<close> or the reserved room, and it continues an earlier occurrence of the sequence's own last
  \<open>size_n\<close> tokens.\<close>

theorem map_drafts_never_panic:
  assumes "map_config_new n m ko hits cap = Inr c"
  shows "\<exists>s k draft s'. draft_calls map_ops cs (map_new c) = Some s \<and>
    map_propose_into s capacity out = Some (k, out @ draft, s') \<and> k = length draft \<and> k \<le> m \<and>
    (draft \<noteq> [] \<longrightarrow> length (out @ draft) \<le> capacity \<and> (\<exists>e. drafted_from (ms_history s) n e draft))"
proof -
  have c: "mc_size_n c = n" "mc_size_m c = m" using assms by (auto simp: map_config_new_def split: if_splits)
  obtain s where s: "draft_calls map_ops cs (map_new c) = Some s" "map_ok s" "ms_config s = c"
    using ngmap.calls_ok [of "map_new c" c cs] map_new_ok [OF assms] by blast
  obtain r where r: "map_propose_into s capacity out = Some r" "map_drafts s (min (capacity - length out) m) out r"
    using map_propose_ok [OF s(2), of capacity out] unfolding s(3) c by blast
  then obtain k draft s' where d: "r = (k, out @ draft, s')" "k = length draft" "k \<le> min (capacity - length out) m"
    "draft \<noteq> [] \<longrightarrow> (\<exists>e. drafted_from (ms_history s) n e draft)"
    unfolding map_drafts_def s(3) c by (cases r) auto
  have "length (out @ draft) \<le> capacity" if "draft \<noteq> []" using d(2,3) that by (cases draft) auto
  moreover have "k \<le> m" using d(3) by simp
  ultimately show ?thesis using s(1) r(1) d(1,2,4) by blast
qed

theorem map_drafts_never_panic_witness:
  "\<exists>s. draft_calls map_ops [ObserveAll [0, 7, 8, 9], Observe 7, Propose 4 [], Accept 1]
     (map_new \<lparr>mc_size_n = 1, mc_size_m = 2, mc_key_only = True, mc_min_hits = 1, mc_history_capacity = 16\<rparr>) = Some s"
proof -
  let ?c = "\<lparr>mc_size_n = 1, mc_size_m = 2, mc_key_only = True, mc_min_hits = 1, mc_history_capacity = 16\<rparr>"
  have "map_config_new 1 2 True 1 16 = Inr ?c" by (simp add: map_config_new_def)
  from map_drafts_never_panic [OF this, of "[ObserveAll [0, 7, 8, 9], Observe 7, Propose 4 [], Accept 1]"]
  show ?thesis by blast
qed

end
