(* ===== verification/NgramMod.thy ===== *)
theory NgramMod
  imports NgramMap Float64
begin

text \<open>
  The worker-shared n-gram table and its drafter, \<open>crates/xabe-sched/src/ngram_mod.rs\<close>. The table sits
  behind \<open>Rc<RefCell>\<close> in the source; here every operation of a sequence's drafter takes the table and
  returns it. The chain buffer \<open>scratch\<close> is a local value: the source clears it before each use. Indexing
  out of range and the remainder by an empty table panic, which is \<open>None\<close>.
\<close>

definition ngram_mod_table_entries :: nat where
  "ngram_mod_table_entries = 4 * 1024 * 1024"

definition ngram_mod_empty :: token where
  "ngram_mod_empty = - 1"

definition occupancy_reset_fraction :: f64 where
  "occupancy_reset_fraction = Finite (1 / 4)"

definition low_acceptance_fraction :: f64 where
  "low_acceptance_fraction = Finite (1 / 4)"

definition low_acceptance_streak :: nat where
  "low_acceptance_streak = 5"

section \<open>The table\<close>

record ngram_mod_table =
  mt_n :: nat
  mt_used :: nat
  mt_entries :: "token list"

definition mod_table_new :: "nat \<Rightarrow> nat \<Rightarrow> ngram_mod_table" where
  "mod_table_new n entries = \<lparr>mt_n = n, mt_used = 0, mt_entries = replicate entries ngram_mod_empty\<rparr>"

definition mod_hash :: "token list \<Rightarrow> 64 word" where
  "mod_hash tokens = fold (\<lambda>t res. res * 6364136223846793005 + word_of_int t) tokens 0"

definition mod_idx :: "ngram_mod_table \<Rightarrow> token list \<Rightarrow> nat option" where
  "mod_idx table tokens =
     (case slice 0 (mt_n table) tokens of
        None \<Rightarrow> None
      | Some key \<Rightarrow> if mt_entries table = [] then None
                    else Some (unat (mod_hash key) mod length (mt_entries table)))"

definition mod_add :: "ngram_mod_table \<Rightarrow> token list \<Rightarrow> ngram_mod_table option" where
  "mod_add table tokens =
     (case mod_idx table tokens of
        None \<Rightarrow> None
      | Some i \<Rightarrow>
          (let used = (if mt_entries table ! i = ngram_mod_empty then mt_used table + 1 else mt_used table)
           in if mt_n table < length tokens
              then Some (table\<lparr>mt_used := used, mt_entries := (mt_entries table)[i := tokens ! mt_n table]\<rparr>)
              else None))"

definition mod_get :: "ngram_mod_table \<Rightarrow> token list \<Rightarrow> token option" where
  "mod_get table tokens = map_option (\<lambda>i. mt_entries table ! i) (mod_idx table tokens)"

definition mod_reset :: "ngram_mod_table \<Rightarrow> ngram_mod_table" where
  "mod_reset table = table\<lparr>mt_entries := replicate (length (mt_entries table)) ngram_mod_empty, mt_used := 0\<rparr>"

section \<open>The drafter\<close>

record ngram_mod_config =
  md_n_match :: nat
  md_n_min :: nat
  md_n_max :: nat
  md_history_capacity :: nat

definition mod_config_new :: "nat \<Rightarrow> nat \<Rightarrow> nat \<Rightarrow> nat \<Rightarrow> ngram_config_error + ngram_mod_config" where
  "mod_config_new n_match n_min n_max history_capacity =
     (if n_match = 0 then Inl InvalidNgramRange
      else if n_max = 0 then Inl ZeroDraftTokens
      else if history_capacity \<le> n_match then Inl HistoryTooShort
      else Inr \<lparr>md_n_match = n_match, md_n_min = n_min, md_n_max = n_max, md_history_capacity = history_capacity\<rparr>)"

record mod_speculator =
  mo_config :: ngram_mod_config
  mo_history :: "token list"
  mo_generation_started :: bool
  mo_i_last :: nat
  mo_n_draft_last :: nat
  mo_n_low :: nat

definition mod_new :: "ngram_mod_config \<Rightarrow> mod_speculator" where
  "mod_new config = \<lparr>mo_config = config, mo_history = [], mo_generation_started = False, mo_i_last = 0,
     mo_n_draft_last = 0, mo_n_low = 0\<rparr>"

text \<open>\<open>for i in lo..hi { table.add(&self.history[i..=i + n]) }\<close>\<close>

fun add_ngrams :: "token list \<Rightarrow> nat \<Rightarrow> nat list \<Rightarrow> ngram_mod_table \<Rightarrow> ngram_mod_table option" where
  "add_ngrams h n [] table = Some table"
| "add_ngrams h n (i # is) table =
     Option.bind (slice i (i + n + 1) h) (\<lambda>w. Option.bind (mod_add table w) (add_ngrams h n is))"

definition mod_begin :: "mod_speculator \<times> ngram_mod_table \<Rightarrow> (mod_speculator \<times> ngram_mod_table) option" where
  "mod_begin st =
     (let (s, table) = st; s = s\<lparr>mo_i_last := 0, mo_n_draft_last := 0\<rparr>;
          n = md_n_match (mo_config s); h = mo_history s
      in if length h < n then Some (s, table)
         else (case add_ngrams h n [0..<length h - n] table of
                 None \<Rightarrow> None
               | Some table \<Rightarrow>
                   (let occupancy = f64_div (f64_of_u64 (mt_used table)) (f64_of_u64 (length (mt_entries table)))
                    in Some (s\<lparr>mo_i_last := length h - n\<rparr>,
                         if f64_less occupancy_reset_fraction occupancy then mod_reset table else table))))"

definition mod_push :: "mod_speculator \<Rightarrow> token \<Rightarrow> mod_speculator" where
  "mod_push s token = s\<lparr>mo_history := push_bounded (md_history_capacity (mo_config s)) (mo_history s) token\<rparr>"

definition mod_observe ::
  "mod_speculator \<times> ngram_mod_table \<Rightarrow> token \<Rightarrow> (mod_speculator \<times> ngram_mod_table) option" where
  "mod_observe st token =
     (let (s, table) = st in
      map_option (\<lambda>(s, table). (mod_push s token, table))
        (if \<not> mo_generation_started s then mod_begin (s\<lparr>mo_generation_started := True\<rparr>, table) else Some (s, table)))"

definition mod_observe_all ::
  "mod_speculator \<times> ngram_mod_table \<Rightarrow> token list \<Rightarrow> (mod_speculator \<times> ngram_mod_table) option" where
  "mod_observe_all st tokens =
     (let (s, table) = st
      in Some (s\<lparr>mo_history := push_all (md_history_capacity (mo_config s)) (mo_history s) tokens\<rparr>, table))"

text \<open>The chain of lookups: iteration \<open>i\<close> of \<open>rounds\<close> more; \<open>Some None\<close> is the early \<open>return 0\<close>.\<close>

fun mod_chain :: "ngram_mod_table \<Rightarrow> nat \<Rightarrow> nat \<Rightarrow> nat \<Rightarrow> nat \<Rightarrow> token list \<Rightarrow> token list option option" where
  "mod_chain table n n_min i 0 scratch = Some (Some scratch)"
| "mod_chain table n n_min i (Suc rounds) scratch =
     Option.bind (slice i (i + n) scratch) (\<lambda>w. Option.bind (mod_get table w) (\<lambda>token.
       if token = ngram_mod_empty then (if i < n_min then Some None else Some (Some scratch))
       else mod_chain table n n_min (i + 1) rounds (scratch @ [token])))"

text \<open>The n-grams observed since the last draft, indexed in chunks of at least 32.\<close>

definition mod_index_new :: "mod_speculator \<times> ngram_mod_table \<Rightarrow> (mod_speculator \<times> ngram_mod_table) option" where
  "mod_index_new st =
     (let (s, table) = st; h = mo_history s; n = md_n_match (mo_config s); cur_len = length h - 1
      in if mo_i_last s + 32 < cur_len
         then map_option (\<lambda>table. (s\<lparr>mo_i_last := cur_len - n\<rparr>, table))
                (add_ngrams h n [mo_i_last s..<cur_len - n] table)
         else Some (s, table))"

definition mod_propose_into ::
  "mod_speculator \<times> ngram_mod_table \<Rightarrow> nat \<Rightarrow> token list \<Rightarrow>
   (nat \<times> token list \<times> mod_speculator \<times> ngram_mod_table) option" where
  "mod_propose_into st capacity out =
     (let (s, table) = st; s = s\<lparr>mo_n_draft_last := 0\<rparr>; c = mo_config s; h = mo_history s;
          room = min (capacity - length out) (md_n_max c); n = md_n_match c; cur_len = length h - 1
      in if room = 0 \<or> h = [] then Some (0, out, s, table)
         else if cur_len < n then Some (0, out, s, table)
         else
           (case mod_index_new (s, table) of
              None \<Rightarrow> None
            | Some (s, table) \<Rightarrow>
                (case slice (length h - n) (length h) h of None \<Rightarrow> None | Some tail \<Rightarrow>
                 (case mod_chain table n (md_n_min c) 0 (md_n_max c) tail of
                    None \<Rightarrow> None
                  | Some None \<Rightarrow> Some (0, out, s, table)
                  | Some (Some scratch) \<Rightarrow>
                      (let draft = drop n scratch; k = min (length draft) room
                       in Some (k, out @ take k draft, s\<lparr>mo_n_draft_last := k\<rparr>, table))))))"

definition mod_accept ::
  "mod_speculator \<times> ngram_mod_table \<Rightarrow> nat \<Rightarrow> (mod_speculator \<times> ngram_mod_table) option" where
  "mod_accept st n_accepted =
     (let (s, table) = st in
      if mo_n_draft_last s = 0 then Some (s, table)
      else
        (let f_acc = f64_div (f64_of_u64 n_accepted) (f64_of_u64 (mo_n_draft_last s)) in
         if f64_less f_acc low_acceptance_fraction then
           (let s = s\<lparr>mo_n_low := mo_n_low s + 1\<rparr> in
            if low_acceptance_streak \<le> mo_n_low s
            then Some (s\<lparr>mo_n_low := 0, mo_i_last := 0\<rparr>, mod_reset table) else Some (s, table))
         else Some (s\<lparr>mo_n_low := 0\<rparr>, table)))"

section \<open>Invariants\<close>

text \<open>The table keeps its geometry, and \<open>used\<close> never undercounts the occupied slots; it is their exact
  number while no observed token is the empty marker.\<close>

definition occupied :: "ngram_mod_table \<Rightarrow> nat" where
  "occupied table = length (filter (\<lambda>e. e \<noteq> ngram_mod_empty) (mt_entries table))"

definition table_ok :: "nat \<Rightarrow> ngram_mod_table \<Rightarrow> bool" where
  "table_ok n table \<longleftrightarrow> mt_n table = n \<and> mt_entries table \<noteq> [] \<and> occupied table \<le> mt_used table"

lemma occupied_update:
  assumes "i < length es"
  shows "length (filter P (es[i := x])) + (if P (es ! i) then 1 else 0) = length (filter P es) + (if P x then 1 else 0)"
proof -
  have e: "es = take i es @ es ! i # drop (Suc i) es" using assms by (rule id_take_nth_drop)
  have "es[i := x] = take i es @ x # drop (Suc i) es" using assms by (simp add: upd_conv_take_nth_drop)
  then show ?thesis using arg_cong [OF e, of "\<lambda>es. length (filter P es)"] by simp
qed

lemma mod_idx_ok:
  "table_ok n table \<Longrightarrow> n \<le> length tokens \<Longrightarrow>
   \<exists>i. mod_idx table tokens = Some i \<and> i < length (mt_entries table)"
  by (auto simp: mod_idx_def table_ok_def)

lemma mod_add_ok:
  assumes "table_ok n table" and "n < length tokens"
  shows "\<exists>t'. mod_add table tokens = Some t' \<and> table_ok n t' \<and>
    (occupied table = mt_used table \<and> tokens ! n \<noteq> ngram_mod_empty \<longrightarrow> occupied t' = mt_used t')"
proof -
  obtain i where i: "mod_idx table tokens = Some i" "i < length (mt_entries table)"
    using mod_idx_ok [OF assms(1), of tokens] assms(2) by auto
  then show ?thesis
    using assms occupied_update [OF i(2), of "\<lambda>e. e \<noteq> ngram_mod_empty" "tokens ! n"]
    by (auto simp: mod_add_def Let_def table_ok_def occupied_def split: if_splits)
qed

lemma mod_reset_ok: "table_ok n table \<Longrightarrow> table_ok n (mod_reset table) \<and> occupied (mod_reset table) = mt_used (mod_reset table)"
  by (simp add: mod_reset_def table_ok_def occupied_def)

lemma add_ngrams_ok:
  assumes "table_ok n table" and "\<forall>i \<in> set is. i + n < length h"
  shows "\<exists>t'. add_ngrams h n is table = Some t' \<and> table_ok n t'"
  using assms
proof (induction "is" arbitrary: table)
  case (Cons i "is")
  have "n < length (take (i + n + 1 - i) (drop i h))" using Cons.prems(2) by (simp add: less_diff_conv)
  then obtain t1 where t1: "mod_add table (take (i + n + 1 - i) (drop i h)) = Some t1" "table_ok n t1"
    using mod_add_ok [OF Cons.prems(1)] by blast
  then show ?case using Cons.IH [OF t1(2)] Cons.prems(2) by (auto simp: slice_def)
qed simp

lemma mod_chain_ok:
  assumes "table_ok n table" and "length scratch = i + n"
  shows "\<exists>r. mod_chain table n n_min i rounds scratch = Some r \<and>
    (case r of None \<Rightarrow> True | Some sc \<Rightarrow> \<exists>d. sc = scratch @ d \<and> length d \<le> rounds)"
  using assms(2)
proof (induction rounds arbitrary: i scratch)
  case (Suc rounds)
  obtain j where j: "mod_idx table (take n (drop i scratch)) = Some j"
    using mod_idx_ok [OF assms(1), of "take n (drop i scratch)"] Suc.prems by auto
  let ?t = "mt_entries table ! j"
  show ?case
  proof (cases "?t = ngram_mod_empty")
    case False
    have "length (scratch @ [?t]) = (i + 1) + n" using Suc.prems by simp
    then obtain r where r: "mod_chain table n n_min (i + 1) rounds (scratch @ [?t]) = Some r"
      "case r of None \<Rightarrow> True | Some sc \<Rightarrow> \<exists>d. sc = (scratch @ [?t]) @ d \<and> length d \<le> rounds"
      using Suc.IH by blast
    have "mod_chain table n n_min i (Suc rounds) scratch = Some r"
      using j False Suc.prems r(1) by (simp add: mod_get_def)
    then show ?thesis using r(2) by (cases r) auto
  qed (use j Suc.prems in \<open>auto simp: mod_get_def\<close>)
qed simp

definition mod_ok :: "ngram_mod_config \<Rightarrow> mod_speculator \<Rightarrow> bool" where
  "mod_ok c s \<longleftrightarrow> mo_config s = c \<and> 0 < md_n_match c \<and> mo_n_low s < low_acceptance_streak"

definition mod_ops :: "(mod_speculator \<times> ngram_mod_table) drafter_ops" where
  "mod_ops = \<lparr>op_observe = mod_observe, op_observe_all = mod_observe_all,
     op_propose = mod_propose_into, op_accept = mod_accept\<rparr>"

lemma mod_begin_ok:
  assumes "mod_ok c s" and "table_ok (md_n_match c) t"
  shows "\<exists>s' t'. mod_begin (s, t) = Some (s', t') \<and> mod_ok c s' \<and> table_ok (md_n_match c) t'"
proof -
  let ?n = "md_n_match c" and ?h = "mo_history s"
  have "\<forall>i \<in> set [0..<length ?h - ?n]. i + ?n < length ?h" by auto
  then obtain t1 where "add_ngrams ?h ?n [0..<length ?h - ?n] t = Some t1" "table_ok ?n t1"
    using add_ngrams_ok [OF assms(2)] by blast
  then show ?thesis using assms mod_reset_ok [of ?n t1] by (auto simp: mod_begin_def Let_def mod_ok_def)
qed

lemma mod_observe_ok:
  assumes "mod_ok c s" and "table_ok (md_n_match c) t"
  shows "\<exists>s' t'. mod_observe (s, t) token = Some (s', t') \<and> mod_ok c s' \<and> table_ok (md_n_match c) t'"
proof -
  have push: "mod_ok c s \<Longrightarrow> mod_ok c (mod_push s token)" for s by (simp add: mod_ok_def mod_push_def)
  have "mod_ok c (s\<lparr>mo_generation_started := True\<rparr>)" using assms(1) by (simp add: mod_ok_def)
  then obtain s' t' where "mod_begin (s\<lparr>mo_generation_started := True\<rparr>, t) = Some (s', t')" "mod_ok c s'"
    "table_ok (md_n_match c) t'" using mod_begin_ok assms(2) by blast
  then show ?thesis using assms push by (auto simp: mod_observe_def)
qed

lemma mod_accept_ok:
  assumes "mod_ok c s" and "table_ok (md_n_match c) t"
  shows "\<exists>s' t'. mod_accept (s, t) k = Some (s', t') \<and> mod_ok c s' \<and> table_ok (md_n_match c) t'"
  using assms mod_reset_ok [OF assms(2)]
  by (auto simp: mod_accept_def Let_def mod_ok_def low_acceptance_streak_def)

lemma mod_index_new_ok:
  assumes "mod_ok c s" and "table_ok (md_n_match c) t"
  shows "\<exists>s' t'. mod_index_new (s, t) = Some (s', t') \<and> mod_ok c s' \<and> table_ok (md_n_match c) t'"
proof -
  let ?n = "md_n_match c" and ?h = "mo_history s"
  have "\<forall>i \<in> set [mo_i_last s..<length ?h - 1 - ?n]. i + ?n < length ?h" by auto
  then obtain t1 where "add_ngrams ?h ?n [mo_i_last s..<length ?h - 1 - ?n] t = Some t1" "table_ok ?n t1"
    using add_ngrams_ok [OF assms(2)] by blast
  then show ?thesis using assms
    by (cases "mo_i_last s + 32 < length ?h - 1") (auto simp: mod_index_new_def Let_def mod_ok_def)
qed

lemma mod_propose_ok:
  assumes "mod_ok c s" and "table_ok (md_n_match c) t"
  shows "\<exists>k out' s' t'. mod_propose_into (s, t) capacity out = Some (k, out', s', t') \<and> mod_ok c s' \<and>
    table_ok (md_n_match c) t' \<and> draft_fits (md_n_max c) capacity out k out'"
proof -
  let ?n = "md_n_match c" and ?h = "mo_history s" and ?room = "min (capacity - length out) (md_n_max c)"
  let ?s = "s\<lparr>mo_n_draft_last := 0\<rparr>"
  have c: "mo_config s = c" and ok: "mod_ok c ?s" using assms(1) by (simp_all add: mod_ok_def)
  have same: "mo_config ?s = c" "mo_history ?s = ?h" using c by simp_all
  show ?thesis
  proof (cases "?room = 0 \<or> ?h = [] \<or> length ?h - 1 < ?n")
    case True
    then have "mod_propose_into (s, t) capacity out = Some (0, out, ?s, t)"
      by (auto simp: mod_propose_into_def Let_def c)
    then show ?thesis using ok assms(2) by simp
  next
    case False
    then have run: "(?room = 0 \<or> ?h = []) = False" "(length ?h - 1 < ?n) = False" by blast+
    obtain s2 t2 where r: "mod_index_new (?s, t) = Some (s2, t2)" "mod_ok c s2" "table_ok ?n t2"
      using mod_index_new_ok [OF ok assms(2)] by blast
    let ?tail = "drop (length ?h - ?n) ?h"
    have tail: "slice (length ?h - ?n) (length ?h) ?h = Some ?tail" "length ?tail = 0 + ?n" using False by auto
    obtain sc where sc: "mod_chain t2 ?n (md_n_min c) 0 (md_n_max c) ?tail = Some sc"
      "case sc of None \<Rightarrow> True | Some x \<Rightarrow> \<exists>d. x = ?tail @ d \<and> length d \<le> md_n_max c"
      using mod_chain_ok [OF r(3) tail(2)] by blast
    have eq: "mod_propose_into (s, t) capacity out = (case sc of None \<Rightarrow> Some (0, out, s2, t2)
      | Some x \<Rightarrow> (let draft = drop ?n x; k = min (length draft) ?room
                    in Some (k, out @ take k draft, s2\<lparr>mo_n_draft_last := k\<rparr>, t2)))"
      by (simp only: mod_propose_into_def Let_def prod.case same run if_False r(1) tail(1) sc(1)
          option.case)
    have "mod_ok c (s2\<lparr>mo_n_draft_last := k\<rparr>)" for k using r(2) by (simp add: mod_ok_def)
    then show ?thesis using eq r(2,3) tail(2) by (cases sc) (auto simp: Let_def intro!: draft_fitsI)
  qed
qed

interpretation ngmod: shared_drafter "mod_ok c" "table_ok (md_n_match c)" "md_n_max c" mod_ops for c
proof unfold_locales
  fix st :: "mod_speculator \<times> ngram_mod_table" and tok toks cap out j
  assume "case st of (s, t) \<Rightarrow> mod_ok c s \<and> table_ok (md_n_match c) t"
  then obtain s t where st: "st = (s, t)" "mod_ok c s" "table_ok (md_n_match c) t" by (cases st) auto
  show "\<exists>s'. op_observe mod_ops st tok = Some s' \<and> (case s' of (s, t) \<Rightarrow> mod_ok c s \<and> table_ok (md_n_match c) t) \<and>
      md_n_max c = md_n_max c"
    using mod_observe_ok [OF st(2,3), of tok] st(1) by (auto simp: mod_ops_def)
  show "\<exists>s'. op_observe_all mod_ops st toks = Some s' \<and> (case s' of (s, t) \<Rightarrow> mod_ok c s \<and> table_ok (md_n_match c) t) \<and>
      md_n_max c = md_n_max c"
    using st by (simp add: mod_ops_def mod_observe_all_def mod_ok_def)
  show "\<exists>k out' s'. op_propose mod_ops st cap out = Some (k, out', s') \<and>
      (case s' of (s, t) \<Rightarrow> mod_ok c s \<and> table_ok (md_n_match c) t) \<and>
      md_n_max c = md_n_max c \<and> draft_fits (md_n_max c) cap out k out'"
    using mod_propose_ok [OF st(2,3), of cap out] st(1) by (auto simp: mod_ops_def)
  show "\<exists>s'. op_accept mod_ops st j = Some s' \<and> (case s' of (s, t) \<Rightarrow> mod_ok c s \<and> table_ok (md_n_match c) t) \<and>
      md_n_max c = md_n_max c"
    using mod_accept_ok [OF st(2,3), of j] st(1) by (auto simp: mod_ops_def)
qed

section \<open>Properties\<close>

text \<open>The shared table behaves as a direct-mapped cache: adding an n-gram with its continuation makes a
  lookup of that n-gram return the continuation, a lookup of an n-gram in another slot is unchanged, and
  the occupancy counter stays the exact number of occupied slots as long as no continuation is the
  empty marker.\<close>

theorem mod_table_add_get:
  assumes "table_ok n table" and "length key = n" and "length key' = n" and "token \<noteq> ngram_mod_empty"
  shows "\<exists>table'. mod_add table (key @ [token]) = Some table' \<and> table_ok n table' \<and>
    mod_get table' key = Some token \<and>
    (mod_idx table key' \<noteq> mod_idx table key \<longrightarrow> mod_get table' key' = mod_get table key') \<and>
    (occupied table = mt_used table \<longrightarrow> occupied table' = mt_used table')"
proof -
  obtain t' where t': "mod_add table (key @ [token]) = Some t'" "table_ok n t'"
    "occupied table = mt_used table \<longrightarrow> occupied t' = mt_used t'"
    using mod_add_ok [OF assms(1), of "key @ [token]"] assms(2,4) by (auto simp: nth_append)
  have idx: "mod_idx t' ks = mod_idx table ks" for ks
    using t'(1) by (auto simp: mod_add_def mod_idx_def Let_def split: option.splits if_splits)
  obtain i where i: "mod_idx table key = Some i" "i < length (mt_entries table)"
    using mod_idx_ok [OF assms(1)] assms(2) by blast
  have "mod_idx table (key @ [token]) = Some i"
    using i(1) assms(1,2) by (simp add: mod_idx_def table_ok_def slice_def split: if_splits)
  then have e: "mt_entries t' = (mt_entries table)[i := token]"
    using t'(1) assms(1,2) by (auto simp: mod_add_def Let_def table_ok_def nth_append)
  have "mod_get t' key = Some token" using i by (simp add: mod_get_def idx e)
  moreover have "mod_get t' key' = mod_get table key'" if "mod_idx table key' \<noteq> mod_idx table key"
    using that i by (cases "mod_idx table key'") (auto simp: mod_get_def idx e)
  ultimately show ?thesis using t' by blast
qed

theorem mod_table_add_get_witness:
  "\<exists>table'. mod_add (mod_table_new 2 8) [3, 4, 9] = Some table' \<and> mod_get table' [3, 4] = Some 9 \<and>
     occupied table' = mt_used table'"
proof -
  have "table_ok 2 (mod_table_new 2 8)" and "occupied (mod_table_new 2 8) = mt_used (mod_table_new 2 8)"
    by (simp_all add: table_ok_def mod_table_new_def occupied_def)
  then show ?thesis using mod_table_add_get [of 2 "mod_table_new 2 8" "[3, 4]" "[3, 4]" 9]
    by (auto simp: ngram_mod_empty_def)
qed

end
