(* ===== verification/SelfSpec.thy ===== *)
theory SelfSpec
  imports NgramMod
begin

text \<open>
  The handle over every self-speculative drafter, \<open>crates/xabe-sched/src/spec.rs\<close>: the configuration, the
  per-worker factory with the \<open>ngram-mod\<close> table its sequences share, and the dispatch of the four calls.
  A call takes the sequence's drafter and the worker's table and returns both.
\<close>

datatype self_spec_config =
    NgramC ngram_config | SimpleC ngram_simple_config | ModC ngram_mod_config | MapC ngram_map_config

fun max_draft_tokens :: "self_spec_config \<Rightarrow> nat" where
  "max_draft_tokens (NgramC c) = ng_max_draft_tokens c"
| "max_draft_tokens (SimpleC c) = sc_size_m c"
| "max_draft_tokens (ModC c) = md_n_max c"
| "max_draft_tokens (MapC c) = mc_size_m c"

record self_spec_factory =
  sf_config :: self_spec_config
  sf_mod_table :: "ngram_mod_table option"

definition factory_new :: "self_spec_config \<Rightarrow> self_spec_factory" where
  "factory_new config = \<lparr>sf_config = config, sf_mod_table = (case config of
     ModC c \<Rightarrow> Some (mod_table_new (md_n_match c) ngram_mod_table_entries)
   | _ \<Rightarrow> None)\<rparr>"

datatype self_speculator =
    NgramS ngram_speculator | SimpleS simple_speculator | ModS mod_speculator | MapS map_speculator

text \<open>\<open>new_speculator\<close>: \<open>None\<close> is the failed \<open>expect\<close> of a \<open>Mod\<close> factory without a table.\<close>

definition new_speculator :: "self_spec_factory \<Rightarrow> self_speculator option" where
  "new_speculator f = (case sf_config f of
     NgramC c \<Rightarrow> Some (NgramS (ngram_new c))
   | SimpleC c \<Rightarrow> Some (SimpleS (simple_new c))
   | ModC c \<Rightarrow> map_option (\<lambda>table. ModS (mod_new c)) (sf_mod_table f)
   | MapC c \<Rightarrow> Some (MapS (map_new c)))"

text \<open>The shared table is present whenever a sequence holds a handle to it.\<close>

definition with_mod ::
  "(mod_speculator \<times> ngram_mod_table \<Rightarrow> (mod_speculator \<times> ngram_mod_table) option) \<Rightarrow> mod_speculator \<Rightarrow>
   ngram_mod_table option \<Rightarrow> (self_speculator \<times> ngram_mod_table option) option" where
  "with_mod f s table =
     Option.bind table (\<lambda>t. map_option (\<lambda>(s', t'). (ModS s', Some t')) (f (s, t)))"

fun spec_observe ::
  "self_speculator \<times> ngram_mod_table option \<Rightarrow> token \<Rightarrow> (self_speculator \<times> ngram_mod_table option) option" where
  "spec_observe (NgramS s, table) token = Some (NgramS (observe s token), table)"
| "spec_observe (SimpleS s, table) token = Some (SimpleS (simple_observe s token), table)"
| "spec_observe (ModS s, table) token = with_mod (\<lambda>st. mod_observe st token) s table"
| "spec_observe (MapS s, table) token = Some (MapS (map_observe s token), table)"

fun spec_observe_all ::
  "self_speculator \<times> ngram_mod_table option \<Rightarrow> token list \<Rightarrow> (self_speculator \<times> ngram_mod_table option) option" where
  "spec_observe_all (NgramS s, table) tokens = Some (NgramS (observe_all s tokens), table)"
| "spec_observe_all (SimpleS s, table) tokens = Some (SimpleS (simple_observe_all s tokens), table)"
| "spec_observe_all (ModS s, table) tokens = with_mod (\<lambda>st. mod_observe_all st tokens) s table"
| "spec_observe_all (MapS s, table) tokens = Some (MapS (map_observe_all s tokens), table)"

fun spec_propose_into ::
  "self_speculator \<times> ngram_mod_table option \<Rightarrow> nat \<Rightarrow> token list \<Rightarrow>
   (nat \<times> token list \<times> self_speculator \<times> ngram_mod_table option) option" where
  "spec_propose_into (NgramS s, table) cap out =
     (let (k, out') = propose_into s cap out in Some (k, out', NgramS s, table))"
| "spec_propose_into (SimpleS s, table) cap out =
     map_option (\<lambda>(k, out'). (k, out', SimpleS s, table)) (simple_propose_into s cap out)"
| "spec_propose_into (ModS s, table) cap out =
     Option.bind table (\<lambda>t. map_option (\<lambda>(k, out', s', t'). (k, out', ModS s', Some t')) (mod_propose_into (s, t) cap out))"
| "spec_propose_into (MapS s, table) cap out =
     map_option (\<lambda>(k, out', s'). (k, out', MapS s', table)) (map_propose_into s cap out)"

fun spec_accept ::
  "self_speculator \<times> ngram_mod_table option \<Rightarrow> nat \<Rightarrow> (self_speculator \<times> ngram_mod_table option) option" where
  "spec_accept (NgramS s, table) k = Some (NgramS s, table)"
| "spec_accept (SimpleS s, table) k = Some (SimpleS s, table)"
| "spec_accept (ModS s, table) k = with_mod (\<lambda>st. mod_accept st k) s table"
| "spec_accept (MapS s, table) k = map_option (\<lambda>s'. (MapS s', table)) (map_accept s k)"

definition spec_ops :: "(self_speculator \<times> ngram_mod_table option) drafter_ops" where
  "spec_ops = \<lparr>op_observe = spec_observe, op_observe_all = spec_observe_all,
     op_propose = spec_propose_into, op_accept = spec_accept\<rparr>"

section \<open>The contract\<close>

text \<open>A configuration is well formed when the variant's own constructor accepts it.\<close>

fun config_valid :: "self_spec_config \<Rightarrow> bool" where
  "config_valid (NgramC c) \<longleftrightarrow> (\<exists>a b d e. ngram_config_new a b d e = Inr c)"
| "config_valid (SimpleC c) \<longleftrightarrow> (\<exists>a b d. simple_config_new a b d = Inr c)"
| "config_valid (ModC c) \<longleftrightarrow> (\<exists>a b d e. mod_config_new a b d e = Inr c)"
| "config_valid (MapC c) \<longleftrightarrow> (\<exists>a b d e f. map_config_new a b d e f = Inr c)"

fun spec_ok :: "self_spec_config \<Rightarrow> self_speculator \<Rightarrow> bool" where
  "spec_ok (NgramC c) (NgramS s) \<longleftrightarrow> ring_ok s \<and> ns_config s = c"
| "spec_ok (SimpleC c) (SimpleS s) \<longleftrightarrow> simple_ok s \<and> ss_config s = c"
| "spec_ok (ModC c) (ModS s) \<longleftrightarrow> mod_ok c s"
| "spec_ok (MapC c) (MapS s) \<longleftrightarrow> map_ok s \<and> ms_config s = c"
| "spec_ok _ _ \<longleftrightarrow> False"

fun shared_ok :: "self_spec_config \<Rightarrow> ngram_mod_table option \<Rightarrow> bool" where
  "shared_ok (ModC c) table \<longleftrightarrow> (\<exists>t. table = Some t \<and> table_ok (md_n_match c) t)"
| "shared_ok _ table \<longleftrightarrow> True"

lemma spec_ok_cases:
  assumes "spec_ok c s" and "shared_ok c t"
  obtains (ngram) nc ns where "c = NgramC nc" "s = NgramS ns" "ring_ok ns" "ns_config ns = nc"
    | (simple) sc ss where "c = SimpleC sc" "s = SimpleS ss" "simple_ok ss" "ss_config ss = sc"
    | (modulo) dc ds dt where "c = ModC dc" "s = ModS ds" "mod_ok dc ds" "t = Some dt" "table_ok (md_n_match dc) dt"
    | (map) mc ms where "c = MapC mc" "s = MapS ms" "map_ok ms" "ms_config ms = mc"
  using assms by (cases c; cases s) auto

lemma spec_observe_ok:
  assumes "spec_ok c s" and "shared_ok c t"
  shows "\<exists>s' t'. spec_observe (s, t) token = Some (s', t') \<and> spec_ok c s' \<and> shared_ok c t'"
  using assms
proof (cases rule: spec_ok_cases)
  case (modulo dc ds dt)
  then show ?thesis using mod_observe_ok [OF modulo(3,5), of token] by (auto simp: with_mod_def)
qed (auto simp: observe_ring map_observe_ok simple_observe_def simple_ok_def)

lemma spec_observe_all_ok:
  assumes "spec_ok c s" and "shared_ok c t"
  shows "\<exists>s' t'. spec_observe_all (s, t) tokens = Some (s', t') \<and> spec_ok c s' \<and> shared_ok c t'"
  using assms
  by (cases rule: spec_ok_cases)
     (auto simp: observe_all_keeps map_observe_all_ok simple_observe_all_def simple_ok_def with_mod_def
        mod_observe_all_def mod_ok_def)

lemma spec_accept_ok:
  assumes "spec_ok c s" and "shared_ok c t"
  shows "\<exists>s' t'. spec_accept (s, t) k = Some (s', t') \<and> spec_ok c s' \<and> shared_ok c t'"
  using assms
proof (cases rule: spec_ok_cases)
  case (modulo dc ds dt)
  then show ?thesis using mod_accept_ok [OF modulo(3,5), of k] by (auto simp: with_mod_def)
next
  case (map mc ms)
  then show ?thesis using map_accept_ok [OF map(3), of k] by auto
qed auto

lemma spec_propose_ok:
  assumes "spec_ok c s" and "shared_ok c t"
  shows "\<exists>k out' s' t'. spec_propose_into (s, t) cap out = Some (k, out', s', t') \<and> spec_ok c s' \<and>
    shared_ok c t' \<and> draft_fits (max_draft_tokens c) cap out k out'"
  using assms
proof (cases rule: spec_ok_cases)
  case (ngram nc ns)
  then show ?thesis using propose_into_fits [of ns cap out] by (auto simp: case_prod_unfold Let_def)
next
  case (simple sc ss)
  then show ?thesis using simple.propose_ok [OF simple(3), of cap out] by (auto simp: simple_ops_def)
next
  case (modulo dc ds dt)
  then show ?thesis using mod_propose_ok [OF modulo(3,5), of cap out] by auto
next
  case (map mc ms)
  then show ?thesis using ngmap.propose_ok [of ms mc cap out] by (auto simp: map_ops_def)
qed

interpretation spec: shared_drafter "spec_ok c" "shared_ok c" "max_draft_tokens c" spec_ops for c
proof unfold_locales
  fix st :: "self_speculator \<times> ngram_mod_table option" and tok toks cap out j
  assume "case st of (s, t) \<Rightarrow> spec_ok c s \<and> shared_ok c t"
  then obtain s t where st: "st = (s, t)" "spec_ok c s" "shared_ok c t" by (cases st) auto
  show "\<exists>s'. op_observe spec_ops st tok = Some s' \<and> (case s' of (s, t) \<Rightarrow> spec_ok c s \<and> shared_ok c t) \<and>
      max_draft_tokens c = max_draft_tokens c"
    using spec_observe_ok [OF st(2,3), of tok] st(1) by (auto simp: spec_ops_def)
  show "\<exists>s'. op_observe_all spec_ops st toks = Some s' \<and> (case s' of (s, t) \<Rightarrow> spec_ok c s \<and> shared_ok c t) \<and>
      max_draft_tokens c = max_draft_tokens c"
    using spec_observe_all_ok [OF st(2,3), of toks] st(1) by (auto simp: spec_ops_def)
  show "\<exists>k out' s'. op_propose spec_ops st cap out = Some (k, out', s') \<and>
      (case s' of (s, t) \<Rightarrow> spec_ok c s \<and> shared_ok c t) \<and>
      max_draft_tokens c = max_draft_tokens c \<and> draft_fits (max_draft_tokens c) cap out k out'"
    using spec_propose_ok [OF st(2,3), of cap out] st(1) by (auto simp: spec_ops_def)
  show "\<exists>s'. op_accept spec_ops st j = Some s' \<and> (case s' of (s, t) \<Rightarrow> spec_ok c s \<and> shared_ok c t) \<and>
      max_draft_tokens c = max_draft_tokens c"
    using spec_accept_ok [OF st(2,3), of j] st(1) by (auto simp: spec_ops_def)
qed

lemma new_speculator_ok:
  assumes "config_valid c"
  shows "\<exists>s. new_speculator (factory_new c) = Some s \<and> spec_ok c s \<and> shared_ok c (sf_mod_table (factory_new c))"
proof (cases c)
  case (NgramC nc)
  then have "0 < ng_history_capacity nc" using assms by (auto simp: ngram_config_new_def split: if_splits)
  then show ?thesis using NgramC ngram_new_ring [of nc]
    by (simp add: new_speculator_def factory_new_def ngram_new_def Let_def)
next
  case (SimpleC sc)
  then show ?thesis using assms
    by (auto simp: new_speculator_def factory_new_def simple_new_def simple_ok_def dest!: simple_config_newD)
next
  case (ModC dc)
  then have "0 < md_n_match dc" using assms by (auto simp: mod_config_new_def split: if_splits)
  then show ?thesis using ModC
    by (auto simp: new_speculator_def factory_new_def mod_new_def mod_ok_def table_ok_def mod_table_new_def
        occupied_def low_acceptance_streak_def ngram_mod_table_entries_def)
next
  case (MapC mc)
  then show ?thesis using assms map_new_ok by (auto simp: new_speculator_def factory_new_def)
qed

section \<open>Properties\<close>



end
