(* ===== verification/Reservations.thy ===== *)
theory Reservations
  imports Scheduler
begin

text \<open>
  The scheduler as its owner, the worker, sees it (\<open>crates/xabe-engine/src/worker.rs\<close> keeps the physical
  block pools in step with the scheduler's accounting): which requests hold a reservation and of how many
  blocks, and which wait. The locale states what the worker relies on; the scheduler interprets it.
\<close>

section \<open>The contract\<close>

locale block_reserver =
  fixes inv :: "'s \<Rightarrow> bool" and reserved :: "'s \<Rightarrow> 'i \<Rightarrow> nat option" and queued :: "'s \<Rightarrow> 'i set"
    and capacity :: "'s \<Rightarrow> nat" and width :: "'s \<Rightarrow> nat"
  assumes reserved_finite: "inv s \<Longrightarrow> finite (dom (reserved s))"
    and reserved_sum: "inv s \<Longrightarrow> (\<Sum>i\<in>dom (reserved s). the (reserved s i)) \<le> capacity s"
    and reserved_width: "inv s \<Longrightarrow> card (dom (reserved s)) \<le> width s"
    and queued_apart: "inv s \<Longrightarrow> dom (reserved s) \<inter> queued s = {}"
begin

text \<open>Whoever backs only some of the reservations, \<open>S\<close>, still has room for one more of them.\<close>

lemma room_for_one_more:
  assumes "inv s" and "S \<subseteq> dom (reserved s)" and "i \<in> dom (reserved s)" and "i \<notin> S"
  shows "(\<Sum>j\<in>S. the (reserved s j)) + the (reserved s i) \<le> capacity s \<and> card S < width s"
proof -
  have fin: "finite (dom (reserved s))" using assms(1) by (rule reserved_finite)
  have finS: "finite S" using fin assms(2) by (rule rev_finite_subset)
  have sub: "insert i S \<subseteq> dom (reserved s)" using assms(2,3) by blast
  have "(\<Sum>j\<in>insert i S. the (reserved s j)) \<le> (\<Sum>j\<in>dom (reserved s). the (reserved s j))"
    using fin sub by (intro sum_mono2) auto
  moreover have "card (insert i S) \<le> card (dom (reserved s))" using fin sub by (rule card_mono)
  ultimately show ?thesis
    using reserved_sum [OF assms(1)] reserved_width [OF assms(1)] finS assms(4) by simp
qed

end

section \<open>The scheduler keeps the contract\<close>

definition sched_ids :: "scheduler \<Rightarrow> request_id list" where
  "sched_ids s = map tr_id (sd_running s) @ map tr_id (sd_waiting s)"

definition waiting_ids :: "scheduler \<Rightarrow> request_id set" where
  "waiting_ids s = tr_id ` set (sd_waiting s)"

text \<open>The scheduler invariant with distinct request ids, which its callers guarantee.\<close>

definition sched_ok :: "scheduler \<Rightarrow> bool" where
  "sched_ok s \<longleftrightarrow> sched_inv s \<and> distinct (sched_ids s)"

definition block_map :: "tracked_request list \<Rightarrow> request_id \<Rightarrow> nat option" where
  "block_map rs = map_of (map (\<lambda>r. (tr_id r, tr_blocks_reserved r)) rs)"

lemma reserved_eq: "reserved_attention_blocks s = block_map (sd_running s)"
proof
  fix i
  have "map_option tr_blocks_reserved (find (\<lambda>r. tr_id r = i) rs) = block_map rs i" for rs
    by (induction rs) (auto simp: block_map_def)
  then show "reserved_attention_blocks s i = block_map (sd_running s) i"
    by (simp add: reserved_attention_blocks_def)
qed

lemma dom_block_map: "dom (block_map rs) = tr_id ` set rs"
  by (simp add: block_map_def dom_map_of_conv_image_fst image_image)

lemma is_running_iff: "is_running s i \<longleftrightarrow> i \<in> dom (reserved_attention_blocks s)"
  by (auto simp: reserved_eq dom_block_map is_running_def list_ex_iff)

lemma is_waiting_iff: "is_waiting s i \<longleftrightarrow> i \<in> waiting_ids s"
  by (auto simp: waiting_ids_def is_waiting_def list_ex_iff)

lemma block_map_same: "list_all2 same_request rs rs' \<Longrightarrow> block_map rs' = block_map rs"
  unfolding block_map_def by (induction rule: list_all2_induct) (simp_all add: same_request_def)

lemma block_map_append: "block_map (xs @ ys) = block_map ys ++ block_map xs"
  by (simp add: block_map_def)

lemma block_map_sum:
  "distinct (map tr_id rs) \<Longrightarrow> (\<Sum>i\<in>dom (block_map rs). the (block_map rs i)) = sum_list (map tr_blocks_reserved rs)"
proof (induction rs)
  case (Cons r rs)
  have r: "tr_id r \<notin> dom (block_map rs)" using Cons.prems by (auto simp: dom_block_map)
  have m: "block_map (r # rs) = (block_map rs)(tr_id r \<mapsto> tr_blocks_reserved r)" by (simp add: block_map_def)
  have "(\<Sum>i\<in>dom (block_map rs). the (((block_map rs)(tr_id r \<mapsto> tr_blocks_reserved r)) i)) =
      (\<Sum>i\<in>dom (block_map rs). the (block_map rs i))" using r by (intro sum.cong) auto
  moreover have "dom (block_map (r # rs)) = insert (tr_id r) (dom (block_map rs))" by (simp add: m)
  moreover have "finite (dom (block_map rs))" by (simp add: dom_block_map)
  ultimately show ?case using Cons r by (simp add: m del: fun_upd_apply) simp
qed (simp add: block_map_def)

interpretation sched: block_reserver sched_ok reserved_attention_blocks waiting_ids sd_total_blocks
  "\<lambda>s. sc_max_concurrent_decodes (sd_config s)"
proof unfold_locales
  fix s assume ok: "sched_ok s"
  then have inv: "sched_inv s" and d: "distinct (map tr_id (sd_running s))"
    and apart: "tr_id ` set (sd_running s) \<inter> waiting_ids s = {}"
    by (auto simp: sched_ok_def sched_ids_def waiting_ids_def)
  show "finite (dom (reserved_attention_blocks s))" by (simp add: reserved_eq dom_block_map)
  show "(\<Sum>i\<in>dom (reserved_attention_blocks s). the (reserved_attention_blocks s i)) \<le> sd_total_blocks s"
    using block_map_sum [OF d] inv by (simp add: reserved_eq sched_inv_def)
  have "card (dom (reserved_attention_blocks s)) \<le> length (sd_running s)"
    unfolding reserved_eq dom_block_map by (metis card_length image_set length_map)
  then show "card (dom (reserved_attention_blocks s)) \<le> sc_max_concurrent_decodes (sd_config s)"
    using inv by (simp add: sched_inv_def)
  show "dom (reserved_attention_blocks s) \<inter> waiting_ids s = {}"
    using apart by (simp add: reserved_eq dom_block_map)
qed

section \<open>What each operation does to the reservations\<close>

lemma sched_new_ok:
  "config_ok c \<Longrightarrow> n < 2 ^ 31 \<Longrightarrow> sched_ok (sched_new c n) \<and> reserved_attention_blocks (sched_new c n) = Map.empty \<and>
   waiting_ids (sched_new c n) = {}"
  by (simp add: sched_ok_def sched_inv_new reserved_eq) (simp add: sched_ids_def sched_new_def block_map_def waiting_ids_def)

lemma admit_ok:
  assumes "sched_ok s" and "lengths_fit (sd_config s) (nr_prompt_tokens req) (nr_max_output_tokens req)"
    and "nr_id req \<notin> dom (reserved_attention_blocks s)" and "nr_id req \<notin> waiting_ids s"
    and "admit_with_prefix s req k = (r, s')"
  shows "sched_ok s' \<and> reserved_attention_blocks s' = reserved_attention_blocks s \<and>
    sd_config s' = sd_config s \<and> sd_total_blocks s' = sd_total_blocks s \<and>
    waiting_ids s' = (case r of Inl _ \<Rightarrow> waiting_ids s | Inr i \<Rightarrow> insert (nr_id req) (waiting_ids s)) \<and>
    (case r of Inl _ \<Rightarrow> True | Inr i \<Rightarrow> i = nr_id req)"
proof -
  have inv: "sched_inv s'" using admit_inv [of s req k] assms(1,2,5) by (simp add: sched_ok_def)
  have "s' = s \<and> (\<exists>e. r = Inl e) \<or> s' = s\<lparr>sd_waiting := sd_waiting s @ [track req k]\<rparr> \<and> r = Inr (nr_id req)"
    using assms(5) by (auto simp: admit_with_prefix_def Let_def split: if_splits)
  then show ?thesis
  proof
    assume "s' = s\<lparr>sd_waiting := sd_waiting s @ [track req k]\<rparr> \<and> r = Inr (nr_id req)"
    then show ?thesis using inv assms(1,3,4)
      by (auto simp: sched_ok_def sched_ids_def waiting_ids_def reserved_eq dom_block_map track_def)
  qed (use assms(1) in auto)
qed

lemma distinct_remove_at:
  assumes "i < length xs" and "distinct (map f xs)"
  shows "distinct (map f (remove_at i xs)) \<and> f ` set (remove_at i xs) = f ` set xs - {f (xs ! i)}"
proof -
  have m: "mset (map f xs) = add_mset (f (xs ! i)) (mset (map f (remove_at i xs)))"
    using mset_remove_at [OF assms(1)] by simp
  then have "distinct (f (xs ! i) # map f (remove_at i xs))"
    using assms(2) by (metis mset.simps(2) mset_eq_imp_distinct_iff)
  moreover have "set (map f xs) = insert (f (xs ! i)) (set (map f (remove_at i xs)))"
    using arg_cong [OF m, of set_mset] by simp
  ultimately show ?thesis by auto
qed

lemma block_map_remove_at:
  assumes "i < length rs" and "distinct (map tr_id rs)"
  shows "block_map (remove_at i rs) = (block_map rs)(tr_id (rs ! i) := None)"
proof -
  have e: "rs = take i rs @ rs ! i # drop (Suc i) rs" using assms(1) by (rule id_take_nth_drop)
  have "tr_id (rs ! i) \<notin> tr_id ` set (take i rs)" "tr_id (rs ! i) \<notin> tr_id ` set (drop (Suc i) rs)"
    using arg_cong [OF e, of "map tr_id"] assms(2) by (metis (no_types, lifting) distinct.simps(2) distinct_append
        list.simps(9) map_append not_distinct_conv_prefix set_map)+
  then have "block_map (take i rs) (tr_id (rs ! i)) = None" "block_map (drop (Suc i) rs) (tr_id (rs ! i)) = None"
    using dom_block_map by blast+
  moreover have "block_map rs = block_map (rs ! i # drop (Suc i) rs) ++ block_map (take i rs)"
    by (subst e) (rule block_map_append)
  moreover have "block_map (rs ! i # xs) = (block_map xs)(tr_id (rs ! i) \<mapsto> tr_blocks_reserved (rs ! i))" for xs
    by (simp add: block_map_def)
  ultimately show ?thesis
    by (auto simp: remove_at_def block_map_append fun_eq_iff map_add_def split: option.splits)
qed

lemma finish_ok:
  assumes "sched_ok s" and "finish_request s i = (b, s')"
  shows "sched_ok s' \<and> reserved_attention_blocks s' = (reserved_attention_blocks s)(i := None) \<and>
    waiting_ids s' = waiting_ids s \<and> sd_config s' = sd_config s \<and> sd_total_blocks s' = sd_total_blocks s \<and>
    (b \<longleftrightarrow> i \<in> dom (reserved_attention_blocks s))"
proof (cases "position (\<lambda>r. tr_id r = i) (sd_running s)")
  case None
  then have "i \<notin> dom (reserved_attention_blocks s)" by (auto simp: position_None reserved_eq dom_block_map)
  then show ?thesis using None assms by (auto simp: finish_request_def fun_eq_iff)
next
  case (Some pos)
  have pos: "pos < length (sd_running s)" "tr_id (sd_running s ! pos) = i" using position_Some [OF Some] by auto
  have d: "distinct (map tr_id (sd_running s))" using assms(1) by (simp add: sched_ok_def sched_ids_def)
  have s': "s' = snd (release_running s pos)" "b" using assms(2) Some by (simp_all add: finish_request_def)
  have fields: "sd_running s' = remove_at pos (sd_running s)" "sd_waiting s' = sd_waiting s"
    "sd_config s' = sd_config s" "sd_total_blocks s' = sd_total_blocks s"
    by (simp_all add: s' release_running_def Let_def)
  have inv: "sched_inv s'" using finish_inv [of s i] assms by (simp add: sched_ok_def)
  have "distinct (sched_ids s')"
    using assms(1) distinct_remove_at [OF pos(1) d] by (auto simp: sched_ok_def sched_ids_def fields)
  moreover have "i \<in> dom (reserved_attention_blocks s)" using pos by (auto simp: reserved_eq dom_block_map)
  ultimately show ?thesis using inv s'(2) block_map_remove_at [OF pos(1) d] pos(2)
    by (simp add: sched_ok_def reserved_eq fields waiting_ids_def)
qed

lemma cancel_ok:
  assumes "sched_ok s" and "cancel_request s i = (b, s')"
  shows "sched_ok s' \<and> reserved_attention_blocks s' = (reserved_attention_blocks s)(i := None) \<and>
    waiting_ids s' = waiting_ids s - {i} \<and> sd_config s' = sd_config s \<and> sd_total_blocks s' = sd_total_blocks s \<and>
    (b \<longleftrightarrow> i \<in> dom (reserved_attention_blocks s) \<or> i \<in> waiting_ids s)"
proof -
  obtain f s1 where f: "finish_request s i = (f, s1)" by fastforce
  note fin = finish_ok [OF assms(1) f]
  have apart: "dom (reserved_attention_blocks s) \<inter> waiting_ids s = {}"
    using assms(1) by (rule sched.queued_apart)
  show ?thesis
  proof (cases f)
    case True
    then have "s' = s1" "b" using assms(2) f by (simp_all add: cancel_request_def)
    moreover have "i \<in> dom (reserved_attention_blocks s)" using fin True by blast
    ultimately show ?thesis using fin apart by auto
  next
    case False
    then have no: "i \<notin> dom (reserved_attention_blocks s)" using fin by blast
    have ok1: "sched_ok s1" using fin by blast
    show ?thesis
    proof (cases "position (\<lambda>r. tr_id r = i) (sd_waiting s1)")
      case None
      then have "i \<notin> waiting_ids s1" by (auto simp: position_None waiting_ids_def)
      moreover have "s' = s1" "\<not> b" using assms(2) f False None by (simp_all add: cancel_request_def)
      ultimately show ?thesis using fin no by auto
    next
      case (Some pos)
      have pos: "pos < length (sd_waiting s1)" "tr_id (sd_waiting s1 ! pos) = i" using position_Some [OF Some] by auto
      have s': "s' = s1\<lparr>sd_waiting := remove_at pos (sd_waiting s1)\<rparr>" "b"
        using assms(2) f False Some by (simp_all add: cancel_request_def)
      have d: "distinct (map tr_id (sd_waiting s1))" using ok1 by (simp add: sched_ok_def sched_ids_def)
      note rem = distinct_remove_at [OF pos(1) d]
      have "sched_inv s'" using cancel_inv [of s i] assms by (simp add: sched_ok_def)
      moreover have "distinct (sched_ids s')" using ok1 rem by (auto simp: sched_ok_def sched_ids_def s')
      moreover have "waiting_ids s' = waiting_ids s1 - {i}" using rem pos(2) by (simp add: waiting_ids_def s')
      moreover have "i \<in> waiting_ids s1" using pos by (auto simp: waiting_ids_def)
      ultimately show ?thesis using fin s'(2) by (simp add: sched_ok_def reserved_eq s'(1))
    qed
  qed
qed

lemma advance_ok:
  assumes "sched_ok s" and "advance_speculative s i k = (b, s')"
  shows "sched_ok s' \<and> reserved_attention_blocks s' = reserved_attention_blocks s \<and> waiting_ids s' = waiting_ids s \<and>
    sd_config s' = sd_config s \<and> sd_total_blocks s' = sd_total_blocks s"
proof -
  let ?f = "update_first (\<lambda>r. tr_id r = i) (advance_request k)"
  have m: "map g (?f rs) = map g rs" if "\<And>r. g (advance_request k r) = g r" for g rs
    using that by (rule map_update_first)
  have "map tr_id (?f rs) = map tr_id rs" "map (\<lambda>r. (tr_id r, tr_blocks_reserved r)) (?f rs) =
      map (\<lambda>r. (tr_id r, tr_blocks_reserved r)) rs" for rs
    by (rule m, simp add: advance_request_def)+
  moreover have "sched_inv s'" using advance_inv [of s i k] assms by (simp add: sched_ok_def)
  moreover have "s' = s \<or> s' = s\<lparr>sd_running := ?f (sd_running s)\<rparr>"
    using assms(2) by (auto simp: advance_speculative_def split: if_splits)
  ultimately have "sched_ids s' = sched_ids s" "block_map (sd_running s') = block_map (sd_running s)"
    "sd_waiting s' = sd_waiting s" "sd_config s' = sd_config s" "sd_total_blocks s' = sd_total_blocks s" "sched_inv s'"
    by (auto simp: sched_ids_def block_map_def)
  then show ?thesis using assms(1) by (simp add: sched_ok_def reserved_eq waiting_ids_def)
qed

text \<open>A step keeps every reservation and adds those of a prefix of the queue; every prefill item is of a
  request that now holds one.\<close>

lemma prefill_phase_ids:
  "prefill_phase reserve slice idx budget rs = (b, ps, rs') \<Longrightarrow> \<forall>i \<in> set idx. i < length rs \<Longrightarrow>
   pi_id ` set ps \<subseteq> tr_id ` set rs"
proof (induction idx arbitrary: budget rs b ps rs')
  case (Cons i idx)
  let ?r = "rs ! i"
  let ?chunk = "min (min (remaining_prompt ?r) slice) (budget - reserve)"
  consider (stop) "budget - reserve = 0" | (skip) "budget - reserve \<noteq> 0" "is_decode_ready ?r \<or> ?chunk = 0"
    | (grant) "budget - reserve \<noteq> 0" "\<not> is_decode_ready ?r" "?chunk \<noteq> 0" by blast
  then show ?case
  proof cases
    case stop
    then show ?thesis using Cons.prems by (simp add: prefill_phase_stop)
  next
    case skip
    then have "prefill_phase reserve slice idx budget rs = (b, ps, rs')"
      using Cons.prems(1) prefill_phase_skip [OF skip, of idx] by simp
    from Cons.IH [OF this] Cons.prems(2) show ?thesis by simp
  next
    case grant
    let ?rs = "rs[i := grant ?chunk ?r]"
    obtain b1 ps1 rs1 where rec: "prefill_phase reserve slice idx (budget - ?chunk) ?rs = (b1, ps1, rs1)"
      by (metis prod_cases3)
    have ps: "ps = \<lparr>pi_id = tr_id ?r, pi_tokens = ?chunk\<rparr> # ps1"
      using Cons.prems(1) prefill_phase_grant [OF grant(1,2) refl grant(3) rec] by simp
    have i: "i < length rs" using Cons.prems(2) by simp
    have "map tr_id ?rs = map tr_id rs" using i by (simp add: map_update grant_def list_update_same_conv)
    then have "tr_id ` set ?rs = tr_id ` set rs" by (metis image_set)
    moreover have "pi_id ` set ps1 \<subseteq> tr_id ` set ?rs" using Cons.IH [OF rec] Cons.prems(2) by simp
    ultimately show ?thesis using ps i by auto
  qed
qed simp

lemma step_reserves:
  assumes "sched_ok s" and "step s = (batch, s')"
  shows "\<exists>new. sched_ok s' \<and> new \<subseteq> waiting_ids s \<and> waiting_ids s' = waiting_ids s - new \<and>
    dom (reserved_attention_blocks s') = dom (reserved_attention_blocks s) \<union> new \<and>
    (\<forall>i \<in> dom (reserved_attention_blocks s). reserved_attention_blocks s' i = reserved_attention_blocks s i) \<and>
    pi_id ` set (bd_prefills batch) \<subseteq> dom (reserved_attention_blocks s') \<and>
    sd_config s' = sd_config s \<and> sd_total_blocks s' = sd_total_blocks s"
proof -
  have inv: "sched_inv s" using assms(1) by (simp add: sched_ok_def)
  obtain b1 run1 reserve b2 ps2 run2 free3 wait3 ps3 new where
    tr: "step_trace s batch s' b1 run1 reserve b2 ps2 run2 free3 wait3 ps3 new"
    using step_facts [OF inv assms(2)] by blast
  then have p: "prefill_phase reserve (slice_of (sd_config s))
       (rotation (sd_prefill_cursor s mod length run1) (length run1)) b1 run1 = (b2, ps2, run2)"
    and ps: "bd_prefills batch = ps2 @ ps3" "map pi_id ps3 = map tr_id new"
    and s': "s' = s\<lparr>sd_running := run2 @ new, sd_waiting := wait3, sd_free_blocks := free3,
            sd_prefill_cursor := (if ps2 \<noteq> [] then wadd 64 (sd_prefill_cursor s) 1 else sd_prefill_cursor s)\<rparr>"
    and 1: "list_all2 same_request (sd_running s) run1" and 2: "list_all2 same_request run1 run2"
    and ids: "map tr_id (sd_waiting s) = map tr_id new @ map tr_id wait3"
    unfolding step_trace_def Let_def by blast+
  note same = same_requests_trans [OF 1 2]
  have run: "map tr_id run2 = map tr_id (sd_running s)" "map tr_id run1 = map tr_id (sd_running s)"
    using same_requests_ids [OF same] same_requests_ids [OF 1] by simp_all
  have all: "sched_ids s' = sched_ids s" using run ids by (simp add: sched_ids_def s')
  have ok: "sched_ok s'" using step_inv(1) [OF inv assms(2)] assms(1) all by (simp add: sched_ok_def)
  let ?new = "tr_id ` set new"
  have w: "waiting_ids s = ?new \<union> waiting_ids s'"
    using arg_cong [OF ids, of set] by (simp add: waiting_ids_def s')
  have "distinct (map tr_id new @ map tr_id wait3)" using assms(1) ids by (simp add: sched_ok_def sched_ids_def)
  then have apart: "?new \<inter> waiting_ids s' = {}" by (auto simp: waiting_ids_def s')
  have m: "reserved_attention_blocks s' = block_map new ++ reserved_attention_blocks s"
    using block_map_same [OF same] by (simp add: reserved_eq s' block_map_append)
  have "pi_id ` set ps2 \<subseteq> tr_id ` set run1" using prefill_phase_ids [OF p] rotation_bounds by blast
  then have "pi_id ` set ps2 \<subseteq> dom (reserved_attention_blocks s)"
    using arg_cong [OF run(2), of set] by (simp add: reserved_eq dom_block_map)
  moreover have "pi_id ` set ps3 = ?new" using arg_cong [OF ps(2), of set] by simp
  moreover have "dom (reserved_attention_blocks s') = dom (reserved_attention_blocks s) \<union> ?new"
    by (auto simp: m dom_block_map)
  ultimately have "pi_id ` set (bd_prefills batch) \<subseteq> dom (reserved_attention_blocks s')"
    by (auto simp: ps(1))
  moreover have "\<forall>i \<in> dom (reserved_attention_blocks s). reserved_attention_blocks s' i = reserved_attention_blocks s i"
    by (auto simp: m)
  ultimately show ?thesis
    using ok w apart step_inv(2,3) [OF inv assms(2)] m by (intro exI [of _ ?new]) (auto simp: dom_block_map)
qed

end
