(* ===== verification/Worker.thy ===== *)
theory Worker
  imports Reservations BlockPool CacheConfig Router SelfSpec
begin

text \<open>
  One worker, \<open>crates/xabe-engine/src/worker.rs\<close>: the scheduler, the two physical block pools, the
  reservation slots that back running requests with real blocks, and the prompts of admitted requests
  that have not reached the device yet.

  The device runtime is a parameter: \<open>runtime_ops\<close> gives what its handle's calls (\<open>admit\<close>,
  \<open>admit_restored\<close>, \<open>execute\<close>, \<open>remove\<close>) answer, over a state of its own, and nothing is assumed of it.
  Images, sampling parameters and grammar constraints are carried through unread, as one payload. A
  failed \<open>expect\<close> is the error \<open>Panicked\<close>. The reusable batch buffer is a local value here.
\<close>

section \<open>Data\<close>

text \<open>\<open>SequenceSnapshot\<close> as the host reads it: where it resumes and what the model predicted there.\<close>

record sequence_snapshot =
  sn_position :: nat
  sn_next_token :: "token option"

datatype 'e runtime_error =
    DuplicateRequest request_id
  | PromptLength nat nat
  | TokenOutOfRange token nat
  | SnapshotPrefix nat nat
  | Speculation ngram_config_error
  | Schema string
  | Device 'e

datatype 'e worker_error =
    RuntimeErr "'e runtime_error"
  | AdmissionErr admission_error
  | CacheErr pool_error
  | NotBound
  | Panicked

record cache_reservation =
  rs_request :: "request_id option"
  rs_attention :: "block_id list"
  rs_gdn :: "block_id option"

record 'x pending_sequence =
  pd_request :: new_request
  pd_prompt :: "token list"
  pd_snapshot :: "sequence_snapshot option"
  pd_payload :: 'x

record runtime_step =
  rs_scheduled :: batch_description
  rs_generated :: "(request_id \<times> token) list"
  rs_completed :: "request_id list"
  rs_stopped :: "request_id list"
  rs_retained :: "(request_id \<times> sequence_snapshot) list"

record device_step =
  ds_decode_items :: nat
  ds_prefill_items :: nat
  ds_generated :: "(request_id \<times> token) list"
  ds_completed :: "request_id list"
  ds_stopped :: "request_id list"
  ds_retained :: "(request_id \<times> sequence_snapshot) list"

record ('x, 'rt, 'e) runtime_ops =
  rt_admit :: "'rt \<Rightarrow> 'x pending_sequence \<Rightarrow> 'rt \<times> 'e runtime_error option"
  rt_admit_restored :: "'rt \<Rightarrow> 'x pending_sequence \<Rightarrow> sequence_snapshot \<Rightarrow> 'rt \<times> 'e runtime_error option"
  rt_execute :: "'rt \<Rightarrow> batch_description \<Rightarrow> 'rt \<times> ('e runtime_error + runtime_step)"
  rt_remove :: "'rt \<Rightarrow> request_id \<Rightarrow> 'rt"

record ('x, 'rt) worker =
  wk_id :: worker_id
  wk_device_ordinal :: nat
  wk_cache :: cache_config
  wk_attention_pool :: block_pool
  wk_gdn_pool :: block_pool
  wk_scheduler :: scheduler
  wk_runtime :: "'rt option"
  wk_pending :: "request_id \<Rightarrow> 'x pending_sequence option"
  wk_reservations :: "cache_reservation list"
  wk_vocab :: "nat option"

definition empty_reservation :: cache_reservation where
  "empty_reservation = \<lparr>rs_request = None, rs_attention = [], rs_gdn = None\<rparr>"

text \<open>\<open>Worker::new\<close>; \<open>None\<close> when a page size divides by zero.\<close>

definition worker_new ::
  "worker_id \<Rightarrow> nat \<Rightarrow> cache_config \<Rightarrow> sched_config \<Rightarrow> nat \<Rightarrow> nat \<Rightarrow> ('x, 'rt) worker option" where
  "worker_new i ordinal cache sched attention_blocks gdn_slots =
     (case (attention_page_bytes cache, gdn_page_bytes cache) of
        (Some att, Some gdn) \<Rightarrow>
          Some \<lparr>wk_id = i, wk_device_ordinal = ordinal, wk_cache = cache,
            wk_attention_pool = pool_new ''attention'' att attention_blocks,
            wk_gdn_pool = pool_new ''gdn'' gdn gdn_slots,
            wk_scheduler = sched_new sched attention_blocks, wk_runtime = None, wk_pending = Map.empty,
            wk_reservations = replicate (sc_max_concurrent_decodes sched) empty_reservation,
            wk_vocab = None\<rparr>
      | _ \<Rightarrow> None)"

section \<open>Reports\<close>

definition worker_capacity :: "('x, 'rt) worker \<Rightarrow> capacity_report option" where
  "worker_capacity w = map_option (\<lambda>page.
     \<lparr>cr_attention_free_blocks = pool_free_count (wk_attention_pool w),
      cr_attention_total_blocks = bp_total (wk_attention_pool w),
      cr_attention_block_size = cc_attention_block_size (wk_cache w),
      cr_gdn_free_slots = pool_free_count (wk_gdn_pool w),
      cr_gdn_total_slots = bp_total (wk_gdn_pool w),
      cr_gdn_bytes_per_slot = page\<rparr>) (gdn_page_bytes (wk_cache w))"

definition kv_utilization :: "('x, 'rt) worker \<Rightarrow> f64" where
  "kv_utilization w =
     (let n = bp_total (wk_attention_pool w) in
      if n = 0 then Finite 1
      else f64_div (f64_of_u32 (wsub 32 n (pool_free_count (wk_attention_pool w)))) (f64_of_u32 n))"

definition resident_sequences :: "('x, 'rt) worker \<Rightarrow> nat" where
  "resident_sequences w =
     (length (sd_waiting (wk_scheduler w)) + length (sd_running (wk_scheduler w))) mod 2 ^ 32"

definition queued_tokens :: "('x, 'rt) worker \<Rightarrow> nat" where
  "queued_tokens w =
     (let c = sd_config (wk_scheduler w);
          waiting = length (sd_waiting (wk_scheduler w)) mod 2 ^ 32;
          running = length (sd_running (wk_scheduler w)) mod 2 ^ 32
      in wadd 32 (smul 32 waiting (sc_token_budget c)) (smul 32 running (tokens_per_decode_step c)))"

definition load_for :: "('x, 'rt) worker \<Rightarrow> nat \<Rightarrow> new_request \<Rightarrow> worker_load" where
  "load_for w matched_tokens req = \<lparr>wl_id = wk_id w, wl_matched_tokens = matched_tokens,
     wl_queued_tokens = queued_tokens w, wl_kv_utilization = kv_utilization w,
     wl_resident_sequences = resident_sequences w, wl_can_admit = can_admit (wk_scheduler w) req\<rparr>"

definition is_device_bound :: "('x, 'rt) worker \<Rightarrow> bool" where
  "is_device_bound w \<longleftrightarrow> wk_runtime w \<noteq> None"

section \<open>Binding\<close>

datatype speculation =
    SpecNone
  | SpecNgram nat nat
  | SpecNgramSimple nat
  | SpecNgramMod nat nat
  | SpecNgramMapK nat nat
  | SpecNgramMapK4v nat nat
  | SpecMtp
  | SpecDFlash

text \<open>The self-speculative configuration \<open>bind_device_inner\<close> derives: the draft count is the
  scheduler's, the history the whole attention pool (\<open>total * block_size\<close> in 32 bits).\<close>

definition map_err :: "('a \<Rightarrow> 'b) \<Rightarrow> ngram_config_error + 'a \<Rightarrow> 'e runtime_error + 'b option" where
  "map_err f r = (case r of Inl e \<Rightarrow> Inl (Speculation e) | Inr c \<Rightarrow> Inr (Some (f c)))"

definition spec_for :: "speculation \<Rightarrow> nat \<Rightarrow> nat \<Rightarrow> 'e runtime_error + self_spec_config option" where
  "spec_for speculation drafts history_capacity =
     (if drafts = 0 then Inr None
      else (case speculation of
        SpecNone \<Rightarrow> Inr None
      | SpecMtp \<Rightarrow> Inr None
      | SpecDFlash \<Rightarrow> Inr None
      | SpecNgram min_n max_n \<Rightarrow> map_err NgramC (ngram_config_new min_n max_n drafts history_capacity)
      | SpecNgramSimple size_n \<Rightarrow> map_err SimpleC (simple_config_new size_n drafts history_capacity)
      | SpecNgramMod n_match n_min \<Rightarrow> map_err ModC (mod_config_new n_match n_min drafts history_capacity)
      | SpecNgramMapK size_n min_hits \<Rightarrow>
          map_err MapC (map_config_new size_n drafts True min_hits history_capacity)
      | SpecNgramMapK4v size_n min_hits \<Rightarrow>
          map_err MapC (map_config_new size_n drafts False min_hits history_capacity)))"

text \<open>\<open>bind_device_inner\<close>: \<open>spawn\<close> stands for the creation of the device half, and gets what the worker
  derives for it: batch width, drafter, trained-head draft count and whether a drafter file is used.\<close>

definition bind_device ::
  "(self_spec_config option \<Rightarrow> nat \<Rightarrow> nat \<Rightarrow> (string \<times> nat) option \<Rightarrow> 'e runtime_error + 'rt) \<Rightarrow>
   speculation \<Rightarrow> string option \<Rightarrow> nat \<Rightarrow> ('x, 'rt) worker \<Rightarrow> ('e runtime_error + unit) \<times> ('x, 'rt) worker" where
  "bind_device spawn speculation dflash_gguf vocab w =
     (let c = sd_config (wk_scheduler w);
          max_batch = sc_max_concurrent_decodes c; drafts = sc_draft_tokens_per_step c;
          history_capacity = wmul 32 (bp_total (wk_attention_pool w)) (cc_attention_block_size (wk_cache w))
      in case spec_for speculation drafts history_capacity of
           Inl e \<Rightarrow> (Inl e, w)
         | Inr spec \<Rightarrow>
             (let mtp_drafts = (if speculation = SpecMtp then drafts else 0)
              in case (if speculation = SpecDFlash \<and> 0 < drafts
                       then (case dflash_gguf of
                               None \<Rightarrow> Inl (Schema ''--spec-type dflash needs a drafter GGUF (dflash_gguf)'')
                             | Some path \<Rightarrow> Inr (Some (path, drafts)))
                       else Inr None) of
                   Inl e \<Rightarrow> (Inl e, w)
                 | Inr dflash \<Rightarrow>
                     (case spawn spec max_batch mtp_drafts dflash of
                        Inl e \<Rightarrow> (Inl e, w)
                      | Inr rt \<Rightarrow> (Inr (), w\<lparr>wk_runtime := Some rt, wk_vocab := Some vocab\<rparr>))))"

section \<open>Reservations\<close>

definition reserve_cache :: "('x, 'rt) worker \<Rightarrow> request_id \<Rightarrow> ('e worker_error + unit) \<times> ('x, 'rt) worker" where
  "reserve_cache w i =
     (case reserved_attention_blocks (wk_scheduler w) i of
        None \<Rightarrow> (Inl Panicked, w)
      | Some blocks \<Rightarrow>
          (case position (\<lambda>sl. rs_request sl = None) (wk_reservations w) of
             None \<Rightarrow> (Inl Panicked, w)
           | Some k \<Rightarrow>
               (let slot = wk_reservations w ! k;
                    (r, att_pool, att) = pool_alloc_into (wk_attention_pool w) blocks (rs_attention slot)
                in case r of
                     Inl e \<Rightarrow> (Inl (CacheErr e), w\<lparr>wk_attention_pool := att_pool,
                                wk_reservations := (wk_reservations w)[k := slot\<lparr>rs_attention := att\<rparr>]\<rparr>)
                   | Inr _ \<Rightarrow>
                       (case pool_alloc (wk_gdn_pool w) of
                          (Inr gdn, gdn_pool) \<Rightarrow>
                            (Inr (), w\<lparr>wk_attention_pool := att_pool, wk_gdn_pool := gdn_pool,
                               wk_reservations := (wk_reservations w)[k :=
                                 \<lparr>rs_request = Some i, rs_attention = att, rs_gdn = Some gdn\<rparr>]\<rparr>)
                        | (Inl e, gdn_pool) \<Rightarrow>
                            (Inl (CacheErr e), w\<lparr>wk_attention_pool := pool_free_blocks att_pool att,
                               wk_gdn_pool := gdn_pool,
                               wk_reservations := (wk_reservations w)[k := slot\<lparr>rs_attention := []\<rparr>]\<rparr>)))))"

definition release_cache :: "('x, 'rt) worker \<Rightarrow> request_id \<Rightarrow> ('x, 'rt) worker" where
  "release_cache w i =
     (case position (\<lambda>sl. rs_request sl = Some i) (wk_reservations w) of
        None \<Rightarrow> w
      | Some k \<Rightarrow>
          (let slot = wk_reservations w ! k in
           w\<lparr>wk_attention_pool := pool_free_blocks (wk_attention_pool w) (rs_attention slot),
             wk_gdn_pool := (case rs_gdn slot of
                None \<Rightarrow> wk_gdn_pool w | Some g \<Rightarrow> pool_free_block (wk_gdn_pool w) g),
             wk_reservations := (wk_reservations w)[k := empty_reservation]\<rparr>))"

section \<open>Admission and cancellation\<close>

definition validate_pending ::
  "('x, 'rt) worker \<Rightarrow> new_request \<Rightarrow> token list \<Rightarrow> sequence_snapshot option \<Rightarrow> 'e worker_error + unit" where
  "validate_pending w req prompt snapshot =
     (case wk_vocab w of
        None \<Rightarrow> Inl NotBound
      | Some vocab \<Rightarrow>
          if wk_pending w (nr_id req) \<noteq> None \<or> is_waiting (wk_scheduler w) (nr_id req) \<or>
             is_running (wk_scheduler w) (nr_id req) then
            Inl (RuntimeErr (DuplicateRequest (nr_id req)))
          else if length prompt \<noteq> nr_prompt_tokens req then
            Inl (RuntimeErr (PromptLength (nr_prompt_tokens req) (length prompt)))
          else (case find (\<lambda>t. t < 0 \<or> int vocab \<le> t mod 2 ^ 32) prompt of
            Some token \<Rightarrow> Inl (RuntimeErr (TokenOutOfRange token vocab))
          | None \<Rightarrow>
              (case snapshot of
                 Some sn \<Rightarrow> if length prompt < sn_position sn
                            then Inl (RuntimeErr (SnapshotPrefix (sn_position sn) (length prompt))) else Inr ()
               | None \<Rightarrow> Inr ())))"

text \<open>\<open>admit_tokens\<close> and \<open>admit_tokens_restored\<close>, which differ in the snapshot.\<close>

definition admit_pending ::
  "('x, 'rt) worker \<Rightarrow> new_request \<Rightarrow> token list \<Rightarrow> 'x \<Rightarrow> sequence_snapshot option \<Rightarrow>
   ('e worker_error + request_id) \<times> ('x, 'rt) worker" where
  "admit_pending w req prompt payload snapshot =
     (case validate_pending w req prompt snapshot of
        Inl e \<Rightarrow> (Inl e, w)
      | Inr _ \<Rightarrow>
          (let prefix = (case snapshot of None \<Rightarrow> 0 | Some sn \<Rightarrow> sn_position sn mod 2 ^ 32) in
           case admit_with_prefix (wk_scheduler w) req prefix of
             (Inl e, s) \<Rightarrow> (Inl (AdmissionErr e), w\<lparr>wk_scheduler := s\<rparr>)
           | (Inr i, s) \<Rightarrow>
               (Inr i, w\<lparr>wk_scheduler := s, wk_pending := (wk_pending w)(i \<mapsto>
                  \<lparr>pd_request = req, pd_prompt = prompt, pd_snapshot = snapshot, pd_payload = payload\<rparr>)\<rparr>)))"

definition admit_tokens ::
  "('x, 'rt) worker \<Rightarrow> new_request \<Rightarrow> token list \<Rightarrow> 'x \<Rightarrow> ('e worker_error + request_id) \<times> ('x, 'rt) worker" where
  "admit_tokens w req prompt payload = admit_pending w req prompt payload None"

definition admit_tokens_restored ::
  "('x, 'rt) worker \<Rightarrow> new_request \<Rightarrow> token list \<Rightarrow> 'x \<Rightarrow> sequence_snapshot \<Rightarrow>
   ('e worker_error + request_id) \<times> ('x, 'rt) worker" where
  "admit_tokens_restored w req prompt payload snapshot = admit_pending w req prompt payload (Some snapshot)"

definition worker_cancel :: "('x, 'rt, 'e) runtime_ops \<Rightarrow> ('x, 'rt) worker \<Rightarrow> request_id \<Rightarrow> bool \<times> ('x, 'rt) worker" where
  "worker_cancel ops w i =
     (let pending = (wk_pending w i \<noteq> None);
          running = is_running (wk_scheduler w) i;
          w1 = w\<lparr>wk_pending := (wk_pending w)(i := None),
                 wk_runtime := (if running then map_option (\<lambda>rt. rt_remove ops rt i) (wk_runtime w) else wk_runtime w)\<rparr>;
          (c, s) = cancel_request (wk_scheduler w) i;
          cancelled = (c \<or> pending);
          w2 = w1\<lparr>wk_scheduler := s\<rparr>
      in (cancelled, if cancelled then release_cache w2 i else w2))"

text \<open>\<open>Worker::admit\<close> and \<open>Worker::step\<close>, for a host-only worker: no prompt is kept for the device.\<close>

definition worker_admit :: "('x, 'rt) worker \<Rightarrow> new_request \<Rightarrow> (admission_error + request_id) \<times> ('x, 'rt) worker" where
  "worker_admit w req = (let (r, s) = admit (wk_scheduler w) req in (r, w\<lparr>wk_scheduler := s\<rparr>))"

definition worker_step :: "('x, 'rt) worker \<Rightarrow> batch_description \<times> ('x, 'rt) worker" where
  "worker_step w = (let (batch, s) = step (wk_scheduler w) in (batch, w\<lparr>wk_scheduler := s\<rparr>))"

section \<open>The device step\<close>

text \<open>The loop over the batch's prefills: the first prefill of a request moves it to the device.\<close>

fun admit_prefills ::
  "('x, 'rt, 'e) runtime_ops \<Rightarrow> request_id list \<Rightarrow> ('x, 'rt) worker \<Rightarrow> 'e worker_error option \<times> ('x, 'rt) worker" where
  "admit_prefills ops [] w = (None, w)"
| "admit_prefills ops (i # is) w = (case wk_pending w i of
     None \<Rightarrow> admit_prefills ops is w
   | Some p \<Rightarrow>
       (case reserve_cache w i of
          (Inl e, w1) \<Rightarrow> (Some e, w1)
        | (Inr _, w1) \<Rightarrow>
            (let w2 = w1\<lparr>wk_pending := (wk_pending w1)(i := None)\<rparr> in
             case wk_runtime w2 of
               None \<Rightarrow> (Some Panicked, w2)
             | Some rt \<Rightarrow>
                 (let (rt', err) = (case pd_snapshot p of
                        Some sn \<Rightarrow> rt_admit_restored ops rt p sn
                      | None \<Rightarrow> rt_admit ops rt p);
                      w3 = w2\<lparr>wk_runtime := Some rt'\<rparr>
                  in case err of
                       Some e \<Rightarrow> (Some (RuntimeErr e), w3)
                     | None \<Rightarrow> admit_prefills ops is w3))))"

definition emitted :: "runtime_step \<Rightarrow> request_id \<Rightarrow> nat" where
  "emitted st i = length (filter (\<lambda>(j, _). j = i) (rs_generated st)) mod 2 ^ 32"

definition advance_decode :: "runtime_step \<Rightarrow> decode_item \<Rightarrow> ('x, 'rt) worker \<Rightarrow> ('x, 'rt) worker" where
  "advance_decode st d w =
     (if 1 < emitted st (di_id d)
      then w\<lparr>wk_scheduler := snd (advance_speculative (wk_scheduler w) (di_id d) (emitted st (di_id d) - 1))\<rparr> else w)"

definition complete_request :: "request_id \<Rightarrow> ('x, 'rt) worker \<Rightarrow> ('x, 'rt) worker" where
  "complete_request i w = release_cache (w\<lparr>wk_scheduler := snd (finish_request (wk_scheduler w) i)\<rparr>) i"

definition apply_runtime_step :: "runtime_step \<Rightarrow> ('x, 'rt) worker \<Rightarrow> ('x, 'rt) worker" where
  "apply_runtime_step st w =
     fold complete_request (rs_completed st) (fold (advance_decode st) (bd_decodes (rs_scheduled st)) w)"

text \<open>What is done with the answer of \<open>execute\<close>.\<close>

definition device_result ::
  "'rt \<times> ('e runtime_error + runtime_step) \<Rightarrow> ('x, 'rt) worker \<Rightarrow>
   ('e worker_error + device_step) \<times> ('x, 'rt) worker" where
  "device_result answer w =
     (case answer of
        (rt', Inl e) \<Rightarrow> (Inl (RuntimeErr e), w\<lparr>wk_runtime := Some rt'\<rparr>)
      | (rt', Inr st) \<Rightarrow>
          (Inr \<lparr>ds_decode_items = length (bd_decodes (rs_scheduled st)),
                ds_prefill_items = length (bd_prefills (rs_scheduled st)),
                ds_generated = rs_generated st, ds_completed = rs_completed st,
                ds_stopped = rs_stopped st, ds_retained = rs_retained st\<rparr>,
           apply_runtime_step st (w\<lparr>wk_runtime := Some rt'\<rparr>)))"

definition step_device ::
  "('x, 'rt, 'e) runtime_ops \<Rightarrow> ('x, 'rt) worker \<Rightarrow> ('e worker_error + device_step) \<times> ('x, 'rt) worker" where
  "step_device ops w =
     (let (batch, s) = step (wk_scheduler w); w0 = w\<lparr>wk_scheduler := s\<rparr> in
      if wk_runtime w0 = None then (Inl NotBound, w0)
      else
        (case admit_prefills ops (map pi_id (bd_prefills batch)) w0 of
           (Some e, w1) \<Rightarrow> (Inl e, w1)
         | (None, w1) \<Rightarrow>
             (case wk_runtime w1 of
                None \<Rightarrow> (Inl Panicked, w1)
              | Some rt \<Rightarrow>
                  device_result (rt_execute ops rt batch) w1)))"

end
