(* ===== verification/WorkerInv.thy ===== *)
theory WorkerInv
  imports Worker
begin

text \<open>
  The worker's invariant: the physical pools mirror the scheduler's accounting. Every running request
  that has reached the device owns one reservation slot holding exactly the blocks the scheduler
  reserved for it and one state slot; everything else is free. From it follows that backing a request
  with blocks cannot fail.
\<close>

section \<open>Reservation slots\<close>

definition slot_ids :: "cache_reservation list \<Rightarrow> request_id list" where
  "slot_ids rs = List.map_filter rs_request rs"

definition gdn_list :: "cache_reservation \<Rightarrow> block_id list" where
  "gdn_list sl = (case rs_gdn sl of None \<Rightarrow> [] | Some g \<Rightarrow> [g])"

definition slot_ok :: "(request_id \<Rightarrow> nat option) \<Rightarrow> cache_reservation \<Rightarrow> bool" where
  "slot_ok m sl \<longleftrightarrow> (case rs_request sl of
     None \<Rightarrow> rs_attention sl = [] \<and> rs_gdn sl = None
   | Some i \<Rightarrow> m i = Some (length (rs_attention sl)) \<and> rs_gdn sl \<noteq> None)"

text \<open>The slots back exactly the reservations \<open>m\<close> outside \<open>P\<close> (the requests still pending).\<close>

definition slots_back :: "cache_reservation list \<Rightarrow> (request_id \<Rightarrow> nat option) \<Rightarrow> request_id set \<Rightarrow> bool" where
  "slots_back rs m P \<longleftrightarrow> distinct (slot_ids rs) \<and> set (slot_ids rs) = dom m - P \<and> list_all (slot_ok m) rs"

lemma slot_ids_split:
  "k < length rs \<Longrightarrow> slot_ids (rs[k := sl]) =
     slot_ids (take k rs) @ (case rs_request sl of None \<Rightarrow> [] | Some i \<Rightarrow> [i]) @ slot_ids (drop (Suc k) rs)"
  by (simp add: upd_conv_take_nth_drop slot_ids_def List.map_filter_def split: option.split)

lemma slot_ids_nth:
  assumes "k < length rs"
  shows "slot_ids rs = slot_ids (take k rs) @ (case rs_request (rs ! k) of None \<Rightarrow> [] | Some i \<Rightarrow> [i]) @
     slot_ids (drop (Suc k) rs)"
  using slot_ids_split [OF assms, of "rs ! k"] by simp

lemma held_update:
  assumes "k < length rs"
  shows "mset (concat (map f (rs[k := sl]))) + mset (f (rs ! k)) = mset (concat (map f rs)) + mset (f sl)"
proof -
  have e: "rs = take k rs @ rs ! k # drop (Suc k) rs" using assms by (rule id_take_nth_drop)
  have "mset (concat (map f rs)) = mset (concat (map f (take k rs))) + mset (f (rs ! k)) + mset (concat (map f (drop (Suc k) rs)))"
    using arg_cong [OF e, of "\<lambda>rs. mset (concat (map f rs))"] by simp
  then show ?thesis using assms by (simp add: upd_conv_take_nth_drop)
qed

lemma slots_back_sum:
  assumes "slots_back rs m P"
  shows "length (concat (map rs_attention rs)) = (\<Sum>i\<in>dom m - P. the (m i))"
    and "length (concat (map gdn_list rs)) = card (dom m - P)"
proof -
  have d: "distinct (slot_ids rs)" and s: "set (slot_ids rs) = dom m - P" and ok: "list_all (slot_ok m) rs"
    using assms by (auto simp: slots_back_def)
  have "length (concat (map rs_attention rs)) = sum_list (map (\<lambda>i. the (m i)) (slot_ids rs)) \<and>
      length (concat (map gdn_list rs)) = length (slot_ids rs)"
    using ok by (induction rs)
      (auto simp: slot_ids_def List.map_filter_simps slot_ok_def gdn_list_def split: option.splits)
  then show "length (concat (map rs_attention rs)) = (\<Sum>i\<in>dom m - P. the (m i))"
    "length (concat (map gdn_list rs)) = card (dom m - P)"
    using d s by (simp_all add: sum_list_distinct_conv_sum_set distinct_card [symmetric])
qed

lemma length_slot_ids: "length (slot_ids rs) \<le> length rs"
  by (induction rs) (auto simp: slot_ids_def List.map_filter_simps split: option.split)

lemma free_slot:
  assumes "slots_back rs m P" and "card (dom m - P) < length rs"
  obtains k where "position (\<lambda>sl. rs_request sl = None) rs = Some k" "k < length rs" "rs ! k = empty_reservation"
proof -
  have "\<exists>sl \<in> set rs. rs_request sl = None"
  proof (rule ccontr)
    assume "\<not> (\<exists>sl \<in> set rs. rs_request sl = None)"
    then have "length (slot_ids rs) = length rs"
      by (induction rs) (auto simp: slot_ids_def List.map_filter_simps)
    moreover have "length (slot_ids rs) = card (dom m - P)"
      using assms(1) by (simp add: slots_back_def distinct_card [symmetric])
    ultimately show False using assms(2) by simp
  qed
  then have "position (\<lambda>sl. rs_request sl = None) rs \<noteq> None" by (simp add: position_None)
  then obtain k where k: "position (\<lambda>sl. rs_request sl = None) rs = Some k" by blast
  have p: "k < length rs" "rs_request (rs ! k) = None" using position_Some [OF k] by simp_all
  then have "slot_ok m (rs ! k)" using assms(1) by (simp add: slots_back_def list_all_length)
  then have "rs ! k = empty_reservation" using p(2) by (cases "rs ! k") (simp add: slot_ok_def empty_reservation_def)
  with k p that show ?thesis by blast
qed

lemma slots_back_fill:
  assumes "slots_back rs m P" and "k < length rs" and "rs_request (rs ! k) = None"
    and "m i = Some (length att)" and "i \<in> P"
  shows "slots_back (rs[k := \<lparr>rs_request = Some i, rs_attention = att, rs_gdn = Some g\<rparr>]) m (P - {i})"
proof -
  let ?sl = "\<lparr>rs_request = Some i, rs_attention = att, rs_gdn = Some g\<rparr>"
  have ids: "slot_ids rs = slot_ids (take k rs) @ slot_ids (drop (Suc k) rs)"
    using slot_ids_nth [OF assms(2)] assms(3) by simp
  have "slot_ok m ?sl" using assms(4) by (simp add: slot_ok_def)
  then have "list_all (slot_ok m) (rs[k := ?sl])"
    using assms(1) by (auto simp: slots_back_def list_all_iff dest!: set_update_subset_insert [THEN subsetD])
  moreover have "i \<in> dom m" using assms(4) by blast
  ultimately show ?thesis
    using assms(1,5) ids slot_ids_split [OF assms(2), of ?sl] by (auto simp: slots_back_def)
qed

lemma slots_back_free:
  assumes "slots_back rs m P" and "k < length rs" and "rs_request (rs ! k) = Some i"
  shows "slots_back (rs[k := empty_reservation]) (m(i := None)) P"
proof -
  have ids: "slot_ids rs = slot_ids (take k rs) @ i # slot_ids (drop (Suc k) rs)"
    using slot_ids_nth [OF assms(2)] assms(3) by simp
  have ids': "slot_ids (rs[k := empty_reservation]) = slot_ids (take k rs) @ slot_ids (drop (Suc k) rs)"
    using slot_ids_split [OF assms(2), of empty_reservation] by (simp add: empty_reservation_def)
  have d: "i \<notin> set (slot_ids (rs[k := empty_reservation]))" "distinct (slot_ids (rs[k := empty_reservation]))"
    using assms(1) ids ids' by (auto simp: slots_back_def)
  have s: "set (slot_ids (rs[k := empty_reservation])) = dom m - P - {i}"
    using assms(1) d ids ids' by (auto simp: slots_back_def)
  have "slot_ok (m(i := None)) sl" if "sl \<in> set (rs[k := empty_reservation])" for sl
  proof (cases "rs_request sl")
    case None
    then show ?thesis using that assms(1)
      by (auto simp: slots_back_def list_all_iff slot_ok_def empty_reservation_def
          dest!: set_update_subset_insert [THEN subsetD])
  next
    case (Some j)
    then have "sl \<in> set rs" using that
      by (auto simp: empty_reservation_def dest!: set_update_subset_insert [THEN subsetD])
    moreover have "j \<in> set (slot_ids (rs[k := empty_reservation]))"
      using that Some by (auto simp: slot_ids_def List.map_filter_def intro!: rev_image_eqI)
    ultimately show ?thesis using Some assms(1) d(1)
      by (auto simp: slots_back_def list_all_iff slot_ok_def split: option.splits)
  qed
  then show ?thesis using d(2) s by (auto simp: slots_back_def list_all_iff)
qed

lemma slots_back_none:
  assumes "slots_back rs m P" and "position (\<lambda>sl. rs_request sl = Some i) rs = None"
  shows "i \<notin> dom m - P"
proof
  assume "i \<in> dom m - P"
  then have "i \<in> set (slot_ids rs)" using assms(1) by (simp add: slots_back_def)
  then show False using assms(2) by (auto simp: position_None slot_ids_def List.map_filter_def)
qed

text \<open>New reservations of pending requests need no slot yet; a lost reservation that had none is no loss.\<close>

lemma slots_back_extend:
  assumes "slots_back rs m P" and "dom m \<subseteq> dom m'" and "dom m' - dom m \<subseteq> P" and "\<forall>i \<in> dom m. m' i = m i"
  shows "slots_back rs m' P"
proof -
  have "m' j = Some x" if "m j = Some x" for j x using assms(4) that by (metis domI)
  then have "slot_ok m' sl" if "slot_ok m sl" for sl
    using that by (auto simp: slot_ok_def split: option.splits)
  then have "list_all (slot_ok m') rs" using assms(1) by (auto simp: slots_back_def list_all_iff)
  moreover have "dom m' - P = dom m - P" using assms(2,3) by blast
  ultimately show ?thesis using assms(1) by (simp add: slots_back_def)
qed

lemma slots_back_drop:
  assumes "slots_back rs m P" and "i \<notin> dom m - P"
  shows "slots_back rs (m(i := None)) P" and "slots_back rs (m(i := None)) (P - {i})"
proof -
  have s: "set (slot_ids rs) = dom m - P" "list_all (slot_ok m) rs" using assms(1) by (auto simp: slots_back_def)
  have "slot_ok (m(i := None)) sl" if "sl \<in> set rs" for sl
  proof (cases "rs_request sl")
    case (Some j)
    then have "j \<in> set (slot_ids rs)" using that by (auto simp: slot_ids_def List.map_filter_def intro!: rev_image_eqI)
    then have "j \<noteq> i" using s(1) assms(2) by blast
    then show ?thesis using Some that s(2) by (auto simp: list_all_iff slot_ok_def)
  qed (use that s(2) in \<open>auto simp: list_all_iff slot_ok_def\<close>)
  then have ok: "list_all (slot_ok (m(i := None))) rs" by (simp add: list_all_iff)
  have "dom (m(i := None)) - P = dom m - P" "dom (m(i := None)) - (P - {i}) = dom m - P" using assms(2) by auto
  then show "slots_back rs (m(i := None)) P" "slots_back rs (m(i := None)) (P - {i})"
    using ok assms(1) by (simp_all add: slots_back_def)
qed

section \<open>The invariant\<close>

definition worker_inv :: "('x, 'rt) worker \<Rightarrow> bool" where
  "worker_inv w \<longleftrightarrow>
     sched_ok (wk_scheduler w) \<and> waiting_ids (wk_scheduler w) \<subseteq> dom (wk_pending w) \<and>
     length (wk_reservations w) = sc_max_concurrent_decodes (sd_config (wk_scheduler w)) \<and>
     slots_back (wk_reservations w) (reserved_attention_blocks (wk_scheduler w)) (dom (wk_pending w)) \<and>
     pool_ledger (wk_attention_pool w) (mset (concat (map rs_attention (wk_reservations w)))) \<and>
     bp_total (wk_attention_pool w) = sd_total_blocks (wk_scheduler w) \<and>
     pool_ledger (wk_gdn_pool w) (mset (concat (map gdn_list (wk_reservations w)))) \<and>
     sc_max_concurrent_decodes (sd_config (wk_scheduler w)) \<le> bp_total (wk_gdn_pool w)"

lemma pool_alloc_into_ledger:
  assumes "pool_ledger p M" and "n \<le> length (bp_free p)"
  shows "\<exists>p' att. pool_alloc_into p n [] = (Inr (), p', att) \<and> length att = n \<and> pool_ledger p' (M + mset att) \<and>
    bp_total p' = bp_total p"
  using pool_ledger_take [OF assms] assms(2) by (simp add: pool_alloc_into_eq)

lemma pool_alloc_ledger:
  assumes "pool_ledger p M" and "0 < length (bp_free p)"
  shows "\<exists>p' g. pool_alloc p = (Inr g, p') \<and> pool_ledger p' (add_mset g M) \<and> bp_total p' = bp_total p"
proof -
  have "bp_free p \<noteq> []" using assms(2) by simp
  then obtain xs x where f: "bp_free p = xs @ [x]" by (metis rev_exhaust)
  then have "pool_alloc p = (Inr x, p\<lparr>bp_free := xs\<rparr>)" by (simp add: pool_alloc_def)
  then show ?thesis using assms(1) f by (simp add: pool_ledger_def del: mset_upt)
qed

lemma reserve_cache_ok:
  assumes "worker_inv w" and "i \<in> dom (wk_pending w)" and "i \<in> dom (reserved_attention_blocks (wk_scheduler w))"
  shows "\<exists>w'. reserve_cache w i = (Inr () :: 'e worker_error + unit, w') \<and> worker_inv (w'\<lparr>wk_pending := (wk_pending w)(i := None)\<rparr>) \<and>
    wk_scheduler w' = wk_scheduler w \<and> wk_pending w' = wk_pending w \<and> wk_runtime w' = wk_runtime w"
proof -
  let ?s = "wk_scheduler w" and ?rs = "wk_reservations w" and ?P = "dom (wk_pending w)"
  let ?m = "reserved_attention_blocks ?s"
  have ok: "sched_ok ?s" and bk: "slots_back ?rs ?m ?P"
    and len: "length ?rs = sc_max_concurrent_decodes (sd_config ?s)"
    and led: "pool_ledger (wk_attention_pool w) (mset (concat (map rs_attention ?rs)))"
    and tot: "bp_total (wk_attention_pool w) = sd_total_blocks ?s"
    and gled: "pool_ledger (wk_gdn_pool w) (mset (concat (map gdn_list ?rs)))"
    and gtot: "sc_max_concurrent_decodes (sd_config ?s) \<le> bp_total (wk_gdn_pool w)"
    using assms(1) by (auto simp: worker_inv_def)
  obtain blocks where b: "?m i = Some blocks" using assms(3) by blast
  have room: "(\<Sum>j\<in>dom ?m - ?P. the (?m j)) + blocks \<le> sd_total_blocks ?s" "card (dom ?m - ?P) < length ?rs"
    using sched.room_for_one_more [OF ok, of "dom ?m - ?P" i] assms(2,3) b len by auto
  obtain k where k: "position (\<lambda>sl. rs_request sl = None) ?rs = Some k" "k < length ?rs" "?rs ! k = empty_reservation"
    using free_slot [OF bk room(2)] by blast
  have "blocks \<le> length (bp_free (wk_attention_pool w))"
    using pool_ledger_free_count(2) [OF led] slots_back_sum(1) [OF bk] room(1) tot by simp
  then obtain ap att where ap: "pool_alloc_into (wk_attention_pool w) blocks [] = (Inr (), ap, att)"
    "length att = blocks" "pool_ledger ap (mset (concat (map rs_attention ?rs)) + mset att)"
    "bp_total ap = bp_total (wk_attention_pool w)"
    using pool_alloc_into_ledger [OF led] by blast
  have "0 < length (bp_free (wk_gdn_pool w))"
    using pool_ledger_free_count(2) [OF gled] slots_back_sum(2) [OF bk] room(2) gtot len
    by (cases "bp_free (wk_gdn_pool w)") simp_all
  then obtain gp g where gp: "pool_alloc (wk_gdn_pool w) = (Inr g, gp)"
    "pool_ledger gp (add_mset g (mset (concat (map gdn_list ?rs))))" "bp_total gp = bp_total (wk_gdn_pool w)"
    using pool_alloc_ledger [OF gled] by blast
  let ?sl = "\<lparr>rs_request = Some i, rs_attention = att, rs_gdn = Some g\<rparr>"
  define w' where "w' = w\<lparr>wk_attention_pool := ap, wk_gdn_pool := gp, wk_reservations := ?rs[k := ?sl]\<rparr>"
  have eq: "reserve_cache w i = (Inr () :: 'e worker_error + unit, w')"
    using b k ap(1) gp(1) by (simp add: reserve_cache_def w'_def empty_reservation_def)
  have "mset (concat (map rs_attention (?rs[k := ?sl]))) = mset (concat (map rs_attention ?rs)) + mset att"
    using held_update [OF k(2), of rs_attention ?sl] k(3) by (simp add: empty_reservation_def)
  moreover have "mset (concat (map gdn_list (?rs[k := ?sl]))) = add_mset g (mset (concat (map gdn_list ?rs)))"
    using held_update [OF k(2), of gdn_list ?sl] k(3) by (simp add: empty_reservation_def gdn_list_def)
  moreover have "slots_back (?rs[k := ?sl]) ?m (?P - {i})"
    using bk k(2,3) b ap(2) assms(2) by (intro slots_back_fill) (auto simp: empty_reservation_def)
  moreover have "waiting_ids ?s \<subseteq> ?P - {i}"
    using sched.queued_apart [OF ok] assms(1,3) by (auto simp: worker_inv_def)
  ultimately have "worker_inv (w'\<lparr>wk_pending := (wk_pending w)(i := None)\<rparr>)"
    using ok len ap(3,4) tot gp(2,3) gtot by (simp add: worker_inv_def w'_def)
  then show ?thesis using eq by (simp add: w'_def)
qed

text \<open>Releasing a request's slot, together with the loss of its reservation.\<close>

lemma release_cache_ok:
  assumes "worker_inv w"
    and "sched_ok s'" and "reserved_attention_blocks s' = (reserved_attention_blocks (wk_scheduler w))(i := None)"
    and "waiting_ids s' \<subseteq> dom (wk_pending w)"
    and "sd_config s' = sd_config (wk_scheduler w)" and "sd_total_blocks s' = sd_total_blocks (wk_scheduler w)"
  shows "worker_inv (release_cache (w\<lparr>wk_scheduler := s'\<rparr>) i)"
proof -
  let ?rs = "wk_reservations w" and ?P = "dom (wk_pending w)" and ?m = "reserved_attention_blocks (wk_scheduler w)"
  have bk: "slots_back ?rs ?m ?P"
    and len: "length ?rs = sc_max_concurrent_decodes (sd_config (wk_scheduler w))"
    and led: "pool_ledger (wk_attention_pool w) (mset (concat (map rs_attention ?rs)))"
    and tot: "bp_total (wk_attention_pool w) = sd_total_blocks (wk_scheduler w)"
    and gled: "pool_ledger (wk_gdn_pool w) (mset (concat (map gdn_list ?rs)))"
    and gtot: "sc_max_concurrent_decodes (sd_config (wk_scheduler w)) \<le> bp_total (wk_gdn_pool w)"
    using assms(1) by (auto simp: worker_inv_def)
  show ?thesis
  proof (cases "position (\<lambda>sl. rs_request sl = Some i) ?rs")
    case None
    then have "slots_back ?rs (?m(i := None)) ?P"
      using slots_back_drop(1) [OF bk slots_back_none [OF bk None]] by simp
    then show ?thesis using None assms led tot gled gtot len by (simp add: release_cache_def worker_inv_def)
  next
    case (Some k)
    have k: "k < length ?rs" "rs_request (?rs ! k) = Some i" using position_Some [OF Some] by simp_all
    have "slot_ok ?m (?rs ! k)" using bk k(1) by (simp add: slots_back_def list_all_length)
    then obtain g where g: "rs_gdn (?rs ! k) = Some g" using k(2) by (auto simp: slot_ok_def)
    let ?att = "rs_attention (?rs ! k)" and ?rs' = "?rs[k := empty_reservation]"
    have a: "mset (concat (map rs_attention ?rs)) = mset (concat (map rs_attention ?rs')) + mset ?att"
      using held_update [OF k(1), of rs_attention empty_reservation] by (simp add: empty_reservation_def)
    have b: "mset (concat (map gdn_list ?rs)) = add_mset g (mset (concat (map gdn_list ?rs')))"
      using held_update [OF k(1), of gdn_list empty_reservation] g by (simp add: empty_reservation_def gdn_list_def)
    have "pool_ledger (pool_free_blocks (wk_attention_pool w) ?att) (mset (concat (map rs_attention ?rs')))"
      using pool_ledger_give [OF led, of ?att] by (simp add: a)
    moreover have "pool_ledger (pool_free_block (wk_gdn_pool w) g) (mset (concat (map gdn_list ?rs')))"
      using pool_ledger_give [OF gled, of "[g]"] by (simp add: b pool_free_blocks_def)
    moreover have "slots_back ?rs' (?m(i := None)) ?P" using bk k by (rule slots_back_free)
    moreover have "bp_total (pool_free_block p g) = bp_total p" "bp_total (pool_free_blocks p bs) = bp_total p" for p bs
      by (simp_all add: pool_free_block_def pool_free_blocks_eq)
    ultimately show ?thesis using Some g assms tot gtot len
      by (simp add: release_cache_def worker_inv_def Let_def)
  qed
qed

section \<open>Every operation keeps it\<close>

lemma worker_inv_runtime [simp]: "worker_inv (w\<lparr>wk_runtime := r\<rparr>) = worker_inv w"
  by (simp add: worker_inv_def)

lemma worker_inv_bound [simp]: "worker_inv (w\<lparr>wk_runtime := r, wk_vocab := v\<rparr>) = worker_inv w"
  by (simp add: worker_inv_def)

lemma worker_new_inv:
  assumes "worker_new i ordinal cache sched n slots = Some w" and "config_ok sched" and "n < 2 ^ 31"
    and "slots < 2 ^ 32" and "sc_max_concurrent_decodes sched \<le> slots"
  shows "worker_inv w"
proof -
  have "slots_back (replicate k empty_reservation) Map.empty {}" for k
    by (induction k) (auto simp: slots_back_def slot_ids_def List.map_filter_simps empty_reservation_def slot_ok_def)
  moreover have "rs_attention empty_reservation = []" "gdn_list empty_reservation = []"
    by (simp_all add: empty_reservation_def gdn_list_def)
  moreover have "bp_total (pool_new l b k) = k" for l b k by (simp add: pool_new_def)
  moreover have "sd_config (sched_new sched n) = sched" "sd_total_blocks (sched_new sched n) = n"
    by (simp_all add: sched_new_def)
  ultimately show ?thesis
    using assms sched_new_ok [OF assms(2,3)] pool_ledger_new [of n] pool_ledger_new [of slots]
    by (auto simp: worker_new_def worker_inv_def split: option.splits)
qed

text \<open>Errors a worker may report once it is bound: the runtime's own.\<close>

fun runtime_fault :: "'e worker_error \<Rightarrow> bool" where
  "runtime_fault (RuntimeErr e) = True"
| "runtime_fault _ = False"

lemma admit_prefills_ok:
  assumes "worker_inv w" and "set is \<subseteq> dom (reserved_attention_blocks (wk_scheduler w))" and "wk_runtime w \<noteq> None"
    and "admit_prefills ops is w = (r, w')"
  shows "worker_inv w' \<and> (case r of None \<Rightarrow> wk_runtime w' \<noteq> None \<and> (\<forall>i \<in> set is. wk_pending w' i = None)
      | Some e \<Rightarrow> runtime_fault e) \<and> dom (wk_pending w') \<subseteq> dom (wk_pending w) \<and> wk_scheduler w' = wk_scheduler w"
  using assms
proof (induction "is" arbitrary: w)
  case (Cons i "is")
  show ?case
  proof (cases "wk_pending w i")
    case None
    then have "admit_prefills ops is w = (r, w')" using Cons.prems(4) by simp
    from Cons.IH [OF Cons.prems(1) _ Cons.prems(3) this] Cons.prems(2) None show ?thesis
      by (auto split: option.splits)
  next
    case (Some p)
    obtain w1 where w1: "reserve_cache w i = (Inr () :: 'c worker_error + unit, w1)"
      "worker_inv (w1\<lparr>wk_pending := (wk_pending w)(i := None)\<rparr>)"
      "wk_scheduler w1 = wk_scheduler w" "wk_pending w1 = wk_pending w" "wk_runtime w1 = wk_runtime w"
      using reserve_cache_ok [of w i] Cons.prems(1,2) Some by auto
    obtain rt where rt: "wk_runtime w = Some rt" using Cons.prems(3) by blast
    obtain rt' err where res: "(case pd_snapshot p of Some sn \<Rightarrow> rt_admit_restored ops rt p sn
      | None \<Rightarrow> rt_admit ops rt p) = (rt', err)" by (metis prod.exhaust)
    define w3 where "w3 = w1\<lparr>wk_pending := (wk_pending w)(i := None), wk_runtime := Some rt'\<rparr>"
    have w3: "worker_inv w3" "wk_scheduler w3 = wk_scheduler w" "wk_runtime w3 \<noteq> None"
      "dom (wk_pending w3) = dom (wk_pending w) - {i}"
      using w1 by (simp_all add: w3_def)
    have eq: "admit_prefills ops (i # is) w =
      (case err of Some e \<Rightarrow> (Some (RuntimeErr e), w3) | None \<Rightarrow> admit_prefills ops is w3)"
      using Some w1 rt res by (cases err) (simp_all add: w3_def Let_def)
    show ?thesis
    proof (cases err)
      case None
      then have "admit_prefills ops is w3 = (r, w')" using eq Cons.prems(4) by simp
      from Cons.IH [OF w3(1) _ w3(3) this] Cons.prems(2) w3(2,4)
      have ih: "worker_inv w'" "case r of None \<Rightarrow> wk_runtime w' \<noteq> None \<and> (\<forall>i \<in> set is. wk_pending w' i = None)
          | Some e \<Rightarrow> runtime_fault e" "dom (wk_pending w') \<subseteq> dom (wk_pending w) - {i}" "wk_scheduler w' = wk_scheduler w"
        by auto
      moreover have "wk_pending w' i = None" using ih(3) by blast
      ultimately show ?thesis by (auto split: option.splits)
    next
      case (Some e)
      then have "r = Some (RuntimeErr e)" "w' = w3" using eq Cons.prems(4) by simp_all
      then show ?thesis using w3 by simp
    qed
  qed
qed simp

lemma complete_request_ok: "worker_inv w \<Longrightarrow> worker_inv (complete_request i w) \<and> dom (wk_pending (complete_request i w)) = dom (wk_pending w)"
proof -
  assume inv: "worker_inv w"
  then have ok: "sched_ok (wk_scheduler w)" and wait: "waiting_ids (wk_scheduler w) \<subseteq> dom (wk_pending w)"
    by (simp_all add: worker_inv_def)
  obtain b s' where f: "finish_request (wk_scheduler w) i = (b, s')" by fastforce
  note fin = finish_ok [OF ok f]
  have "worker_inv (release_cache (w\<lparr>wk_scheduler := s'\<rparr>) i)"
    using inv fin wait by (intro release_cache_ok) auto
  then show ?thesis using f by (simp add: complete_request_def release_cache_def Let_def split: option.split)
qed

lemma advance_decode_ok: "worker_inv w \<Longrightarrow> worker_inv (advance_decode st d w)"
proof -
  assume inv: "worker_inv w"
  obtain b s' where a: "advance_speculative (wk_scheduler w) (di_id d) (emitted st (di_id d) - 1) = (b, s')" by fastforce
  have "sched_ok (wk_scheduler w)" using inv by (simp add: worker_inv_def)
  from advance_ok [OF this a] inv a show ?thesis by (auto simp: advance_decode_def worker_inv_def)
qed

lemma apply_runtime_step_ok: "worker_inv w \<Longrightarrow> worker_inv (apply_runtime_step st w)"
proof -
  have "worker_inv (fold (advance_decode st) ds w)" if "worker_inv w" for ds and w :: "('a, 'b) worker"
    using that by (induction ds arbitrary: w) (auto intro: advance_decode_ok)
  moreover have "worker_inv (fold complete_request is w)" if "worker_inv w" for "is" and w :: "('a, 'b) worker"
    using that by (induction "is" arbitrary: w) (auto simp: complete_request_ok)
  ultimately show "worker_inv w \<Longrightarrow> worker_inv (apply_runtime_step st w)" by (simp add: apply_runtime_step_def)
qed

lemma device_result_ok:
  assumes "worker_inv w" and "(r, w') = device_result x w"
  shows "worker_inv w' \<and> (case r of Inl e \<Rightarrow> runtime_fault e \<or> e = NotBound \<and> P | Inr st \<Rightarrow> True)"
proof -
  obtain rt' res where x: "x = (rt', res)" by fastforce
  show ?thesis using assms by (cases res) (auto simp: device_result_def x intro: apply_runtime_step_ok)
qed

lemma step_device_ok:
  assumes "worker_inv w" and "step_device ops w = (r, w')"
  shows "worker_inv w' \<and> (case r of Inl e \<Rightarrow> runtime_fault e \<or> e = NotBound \<and> wk_runtime w = None | Inr st \<Rightarrow> True)"
proof -
  let ?s = "wk_scheduler w"
  have ok: "sched_ok ?s" and wait: "waiting_ids ?s \<subseteq> dom (wk_pending w)"
    and bk: "slots_back (wk_reservations w) (reserved_attention_blocks ?s) (dom (wk_pending w))"
    using assms(1) by (auto simp: worker_inv_def)
  obtain batch s1 where st: "step ?s = (batch, s1)" by fastforce
  obtain new where new: "sched_ok s1" "new \<subseteq> waiting_ids ?s" "waiting_ids s1 = waiting_ids ?s - new"
    "dom (reserved_attention_blocks s1) = dom (reserved_attention_blocks ?s) \<union> new"
    "\<forall>i \<in> dom (reserved_attention_blocks ?s). reserved_attention_blocks s1 i = reserved_attention_blocks ?s i"
    "pi_id ` set (bd_prefills batch) \<subseteq> dom (reserved_attention_blocks s1)"
    "sd_config s1 = sd_config ?s" "sd_total_blocks s1 = sd_total_blocks ?s"
    using step_reserves [OF ok st] by (elim exE conjE) (rule that)
  let ?w0 = "w\<lparr>wk_scheduler := s1\<rparr>"
  have "slots_back (wk_reservations w) (reserved_attention_blocks s1) (dom (wk_pending w))"
    by (rule slots_back_extend [OF bk _ _ new(5)]) (use new(2,4) wait in blast)+
  moreover have "waiting_ids s1 \<subseteq> dom (wk_pending w)" using new(3) wait by blast
  ultimately have inv0: "worker_inv ?w0" using assms(1) new(1,7,8) by (simp add: worker_inv_def)
  define ids where "ids = map pi_id (bd_prefills batch)"
  define w0 where "w0 = ?w0"
  have inv0: "worker_inv w0" and rt0: "wk_runtime w0 = wk_runtime w"
    and ids: "set ids \<subseteq> dom (reserved_attention_blocks (wk_scheduler w0))"
    using inv0 new(6) by (simp_all add: w0_def ids_def)
  have eq: "(r, w') = (if wk_runtime w0 = None then (Inl NotBound, w0)
      else (case admit_prefills ops ids w0 of
           (Some e, w1) \<Rightarrow> (Inl e, w1)
         | (None, w1) \<Rightarrow> (case wk_runtime w1 of None \<Rightarrow> (Inl Panicked, w1)
              | Some rt \<Rightarrow> device_result (rt_execute ops rt batch) w1)))"
    unfolding assms(2) [symmetric] step_device_def st Let_def prod.case w0_def ids_def
    by (rule refl)
  show ?thesis
  proof (cases "wk_runtime w")
    case None
    then have "r = Inl NotBound" "w' = w0" using eq rt0 by simp_all
    then show ?thesis using None inv0 by simp
  next
    case (Some rt)
    obtain r1 w1 where a: "admit_prefills ops ids w0 = (r1, w1)" by fastforce
    have adm: "worker_inv w1" "case r1 of None \<Rightarrow> wk_runtime w1 \<noteq> None | Some e \<Rightarrow> runtime_fault e"
      using admit_prefills_ok [OF inv0 ids _ a] Some rt0 by (auto split: option.splits)
    show ?thesis
    proof (cases r1)
      case None
      then obtain rt1 where rt1: "wk_runtime w1 = Some rt1" using adm(2) by auto
      have "(r, w') = device_result (rt_execute ops rt1 batch) w1" using eq Some rt0 a None rt1 by simp
      then show ?thesis by (rule device_result_ok [OF adm(1)])
    next
      case (Some e)
      then have "r = Inl e" "w' = w1" using eq rt0 \<open>wk_runtime w = Some rt\<close> a by simp_all
      then show ?thesis using adm Some by simp
    qed
  qed
qed

lemma admit_pending_ok:
  assumes "worker_inv w" and "lengths_fit (sd_config (wk_scheduler w)) (nr_prompt_tokens req) (nr_max_output_tokens req)"
    and "admit_pending w req prompt payload snapshot = (r, w')"
  shows "worker_inv w' \<and> (case r of Inl e \<Rightarrow> w' = w | Inr i \<Rightarrow> i = nr_id req \<and> is_waiting (wk_scheduler w') i)"
proof (cases "validate_pending w req prompt snapshot :: 'c worker_error + unit")
  case (Inl e)
  then show ?thesis using assms(1,3) by (auto simp: admit_pending_def)
next
  case (Inr u)
  let ?s = "wk_scheduler w"
  have fresh: "nr_id req \<notin> dom (wk_pending w)" "nr_id req \<notin> waiting_ids ?s" "nr_id req \<notin> dom (reserved_attention_blocks ?s)"
    using Inr by (auto simp: validate_pending_def is_waiting_iff [symmetric] is_running_iff [symmetric] split: option.splits if_splits)
  have ok: "sched_ok ?s" using assms(1) by (simp add: worker_inv_def)
  define prefix where "prefix = (case snapshot of None \<Rightarrow> 0 | Some sn \<Rightarrow> sn_position sn mod 2 ^ 32)"
  obtain r1 s1 where a: "admit_with_prefix ?s req prefix = (r1, s1)" by fastforce
  note adm = admit_ok [OF ok assms(2) fresh(3,2) a]
  have bk: "slots_back (wk_reservations w) (reserved_attention_blocks ?s) (dom (wk_pending w))"
    using assms(1) by (simp add: worker_inv_def)
  show ?thesis
  proof (cases r1)
    case (Inl e)
    then have "s1 = ?s" using a by (auto simp: admit_with_prefix_def Let_def split: if_splits)
    then show ?thesis using assms Inl Inr a by (auto simp: admit_pending_def prefix_def [symmetric])
  next
    case r1: (Inr i)
    let ?P = "insert (nr_id req) (dom (wk_pending w))"
    have "slots_back (wk_reservations w) (reserved_attention_blocks ?s) ?P"
      using bk fresh(3) by (auto simp: slots_back_def)
    then show ?thesis using assms(1,3) Inr r1 a adm
      by (auto simp: admit_pending_def prefix_def [symmetric] worker_inv_def is_waiting_iff)
  qed
qed

lemma worker_cancel_ok:
  assumes "worker_inv w" and "worker_cancel ops w i = (b, w')"
  shows "worker_inv w' \<and> i \<notin> dom (wk_pending w') \<and> \<not> is_waiting (wk_scheduler w') i \<and> \<not> is_running (wk_scheduler w') i"
proof -
  let ?s = "wk_scheduler w" and ?P = "dom (wk_pending w)"
  have ok: "sched_ok ?s" and wait: "waiting_ids ?s \<subseteq> ?P"
    and bk: "slots_back (wk_reservations w) (reserved_attention_blocks ?s) ?P"
    using assms(1) by (auto simp: worker_inv_def)
  obtain c s1 where c: "cancel_request ?s i = (c, s1)" by fastforce
  note can = cancel_ok [OF ok c]
  define w1 where "w1 = w\<lparr>wk_pending := (wk_pending w)(i := None),
     wk_runtime := (if is_running ?s i then map_option (\<lambda>rt. rt_remove ops rt i) (wk_runtime w) else wk_runtime w)\<rparr>"
  have w': "w' = (if c \<or> wk_pending w i \<noteq> None then release_cache (w1\<lparr>wk_scheduler := s1\<rparr>) i else w1\<lparr>wk_scheduler := s1\<rparr>)"
    using assms(2) [unfolded worker_cancel_def Let_def c prod.case w1_def [symmetric]] by (auto split: if_splits)
  show ?thesis
  proof (cases "i \<in> ?P")
    case True
    have no: "i \<notin> dom (reserved_attention_blocks ?s) - ?P" using True by blast
    define w2 where "w2 = w1\<lparr>wk_scheduler := s1\<rparr>"
    have inv2: "worker_inv w2"
      using assms(1) can slots_back_drop(2) [OF bk no] wait by (auto simp: w2_def w1_def worker_inv_def)
    have "position (\<lambda>sl. rs_request sl = Some i) (wk_reservations w) = None"
    proof (rule ccontr)
      assume "position (\<lambda>sl. rs_request sl = Some i) (wk_reservations w) \<noteq> None"
      then obtain sl where "sl \<in> set (wk_reservations w)" "rs_request sl = Some i" by (auto simp: position_None)
      then have "i \<in> set (slot_ids (wk_reservations w))"
        by (auto simp: slot_ids_def List.map_filter_def intro!: rev_image_eqI)
      then show False using bk True by (auto simp: slots_back_def)
    qed
    then have "w' = w2" using w' by (simp add: w2_def w1_def release_cache_def)
    then show ?thesis using inv2 can by (auto simp: w2_def w1_def is_waiting_iff is_running_iff)
  next
    case False
    then have w1: "wk_pending w1 = wk_pending w" "wk_scheduler w1 = ?s" "worker_inv w1"
      using assms(1) by (auto simp: w1_def worker_inv_def fun_upd_idem_iff [THEN iffD2])
    have iw: "i \<notin> waiting_ids ?s" using False wait by blast
    have rel: "worker_inv (release_cache (w1\<lparr>wk_scheduler := s1\<rparr>) i)"
      using w1 can wait by (intro release_cache_ok) auto
    have "w1\<lparr>wk_scheduler := s1\<rparr> = w1" if "\<not> c"
    proof -
      have "s1 = ?s" using that c
        by (auto simp: cancel_request_def finish_request_def split: option.splits)
      then show ?thesis by (simp add: w1(2) [symmetric])
    qed
    then have "worker_inv w'" using w' rel w1(3) by (cases c) (auto simp: False)
    moreover have "wk_pending w' = wk_pending w" "wk_scheduler w' = s1"
      using w' w1(1) by (auto simp: release_cache_def Let_def split: option.splits)
    ultimately show ?thesis using False can by (auto simp: is_waiting_iff is_running_iff)
  qed
qed

section \<open>Runs\<close>

lemma bind_device_inv: "worker_inv w \<Longrightarrow> worker_inv (snd (bind_device spawn sp gguf vocab w))"
  by (simp add: bind_device_def Let_def split: sum.split)

text \<open>A worker driven by the engine: it is bound, requests are admitted with their prompts, cancelled, and
  device steps are executed, in any order and with any answers of the device. The host-only entry points
  \<open>admit\<close> and \<open>step\<close>, which keep no prompt for a device, are not part of such a run.\<close>

inductive worker_run :: "('x, 'rt, 'e) runtime_ops \<Rightarrow> ('x, 'rt) worker \<Rightarrow> ('x, 'rt) worker \<Rightarrow> bool"
  for ops :: "('x, 'rt, 'e) runtime_ops" and w0 :: "('x, 'rt) worker" where
  Start: "worker_run ops w0 w0"
| Bind: "worker_run ops w0 w \<Longrightarrow> bind_device spawn sp gguf vocab w = (r :: 'e runtime_error + unit, w') \<Longrightarrow>
    worker_run ops w0 w'"
| Admit: "worker_run ops w0 w \<Longrightarrow>
    lengths_fit (sd_config (wk_scheduler w)) (nr_prompt_tokens req) (nr_max_output_tokens req) \<Longrightarrow>
    admit_tokens w req prompt payload = (r :: 'e worker_error + request_id, w') \<Longrightarrow> worker_run ops w0 w'"
| Restore: "worker_run ops w0 w \<Longrightarrow>
    lengths_fit (sd_config (wk_scheduler w)) (nr_prompt_tokens req) (nr_max_output_tokens req) \<Longrightarrow>
    admit_tokens_restored w req prompt payload snapshot = (r :: 'e worker_error + request_id, w') \<Longrightarrow>
    worker_run ops w0 w'"
| Cancel: "worker_run ops w0 w \<Longrightarrow> worker_cancel ops w i = (b, w') \<Longrightarrow> worker_run ops w0 w'"
| Step: "worker_run ops w0 w \<Longrightarrow> step_device ops w = (r, w') \<Longrightarrow> worker_run ops w0 w'"

lemma worker_run_inv: "worker_run ops w0 w \<Longrightarrow> worker_inv w0 \<Longrightarrow> worker_inv w"
proof (induction rule: worker_run.induct)
  case (Bind w spawn sp gguf vocab r w')
  then show ?case using bind_device_inv [of w spawn sp gguf vocab] by simp
next
  case (Admit w req prompt payload r w')
  then show ?case using admit_pending_ok [of w req prompt payload None r w'] by (simp add: admit_tokens_def)
next
  case (Restore w req prompt payload snapshot r w')
  then show ?case using admit_pending_ok [of w req prompt payload "Some snapshot" r w']
    by (simp add: admit_tokens_restored_def)
next
  case (Cancel w i b w')
  then show ?case using worker_cancel_ok by blast
next
  case (Step w r w')
  then show ?case using step_device_ok by blast
qed

text \<open>A device that accepts every request and never generates, and a small worker over it.\<close>

definition idle_device :: "(unit, unit, unit) runtime_ops" where
  "idle_device = \<lparr>rt_admit = \<lambda>rt p. (rt, None), rt_admit_restored = \<lambda>rt p sn. (rt, None),
     rt_execute = \<lambda>rt batch. (rt, Inr \<lparr>rs_scheduled = batch, rs_generated = [], rs_completed = [],
       rs_stopped = [], rs_retained = []\<rparr>), rt_remove = \<lambda>rt i. rt\<rparr>"

definition example_cache :: cache_config where
  "example_cache = \<lparr>cc_model = qwen3_6_35b_a3b, cc_attention_block_size = 256,
     cc_gdn_retention_interval = 2048, cc_elem_size = 2\<rparr>"

definition example_worker :: "(unit, unit) worker" where
  "example_worker = the (worker_new 0 0 example_cache example_config 10 3)"

lemma example_worker_new: "worker_new 0 0 example_cache example_config 10 3 = Some example_worker"
proof -
  have "attention_page_bytes example_cache \<noteq> None" "gdn_page_bytes example_cache \<noteq> None"
    by (simp_all add: attention_page_bytes_def gdn_page_bytes_def example_cache_def kv_bytes_per_token_def
        gdn_state_bytes_per_sequence_def num_attention_layers_def num_gdn_layers_def checked_div_def qwen3_6_35b_a3b_def)
  then show ?thesis by (auto simp: example_worker_def worker_new_def)
qed

text \<open>The same worker bound to the idle device, with one request waiting.\<close>

definition bound_worker :: "(unit, unit) worker" where
  "bound_worker = snd (bind_device (\<lambda>spec batch mtp dflash. Inr () :: unit runtime_error + unit)
     SpecNone None 100 example_worker)"

definition busy_worker :: "(unit, unit) worker" where
  "busy_worker = snd (admit_tokens bound_worker example_request [1, 2, 3, 4, 5] () ::
     (unit worker_error + request_id) \<times> (unit, unit) worker)"

lemma bound_worker_eq: "bound_worker = example_worker\<lparr>wk_runtime := Some (), wk_vocab := Some 100\<rparr>"
  by (simp add: bound_worker_def bind_device_def spec_for_def Let_def)

lemma example_worker_scheduler: "wk_scheduler example_worker = sched_new example_config 10"
proof -
  have "wk_scheduler w = sched_new c n" if "worker_new i ordinal cache c n slots = Some w"
    for i ordinal cache c n slots and w :: "(unit, unit) worker"
    using that by (auto simp: worker_new_def split: option.splits)
  then show ?thesis using example_worker_new by blast
qed

lemma busy_worker_run: "worker_run idle_device example_worker busy_worker"
proof -
  have bound: "worker_run idle_device example_worker bound_worker"
    unfolding bound_worker_def by (rule worker_run.Bind [OF worker_run.Start]) (rule prod.collapse [symmetric])
  have "sd_config (wk_scheduler bound_worker) = example_config"
    by (simp add: bound_worker_eq example_worker_scheduler sched_new_def)
  then have "lengths_fit (sd_config (wk_scheduler bound_worker)) (nr_prompt_tokens example_request)
      (nr_max_output_tokens example_request)"
    by (simp add: lengths_fit_def example_config_def example_request_def)
  then show ?thesis
    unfolding busy_worker_def by (rule worker_run.Admit [OF bound]) (rule prod.collapse [symmetric])
qed

lemma admit_pending_runtime: "wk_runtime (snd (admit_pending w req prompt payload sn)) = wk_runtime w"
  by (simp add: admit_pending_def Let_def split: option.split sum.split prod.split)

lemma busy_worker_bound: "is_device_bound busy_worker"
  by (simp add: is_device_bound_def busy_worker_def admit_tokens_def admit_pending_runtime bound_worker_eq)

lemma map_err_Inr: "map_err f r = Inr (Some spec) \<longleftrightarrow> (\<exists>c. r = Inr c \<and> spec = f c)"
  by (cases r) (auto simp: map_err_def)

lemma new_config_drafts:
  "ngram_config_new a b d e = Inr nc \<Longrightarrow> max_draft_tokens (NgramC nc) = d"
  "simple_config_new a d e = Inr sc \<Longrightarrow> max_draft_tokens (SimpleC sc) = d"
  "mod_config_new a b d e = Inr mc \<Longrightarrow> max_draft_tokens (ModC mc) = d"
  "map_config_new a d k b e = Inr pc \<Longrightarrow> max_draft_tokens (MapC pc) = d"
  by (auto simp: ngram_config_new_def simple_config_new_def mod_config_new_def map_config_new_def
      split: if_splits)

lemma spec_for_drafter:
  assumes "spec_for speculation drafts history_capacity = Inr (Some spec)"
  shows "config_valid spec \<and> max_draft_tokens spec = drafts"
proof (cases speculation)
  case (SpecNgram a b)
  then obtain c where "ngram_config_new a b drafts history_capacity = Inr c" "spec = NgramC c"
    using assms by (auto simp: spec_for_def map_err_Inr split: if_splits)
  then show ?thesis using new_config_drafts(1) by (auto simp only: config_valid.simps)
next
  case (SpecNgramSimple a)
  then obtain c where "simple_config_new a drafts history_capacity = Inr c" "spec = SimpleC c"
    using assms by (auto simp: spec_for_def map_err_Inr split: if_splits)
  then show ?thesis using new_config_drafts(2) by (auto simp only: config_valid.simps)
next
  case (SpecNgramMod a b)
  then obtain c where "mod_config_new a b drafts history_capacity = Inr c" "spec = ModC c"
    using assms by (auto simp: spec_for_def map_err_Inr split: if_splits)
  then show ?thesis using new_config_drafts(3) by (auto simp only: config_valid.simps)
next
  case (SpecNgramMapK a b)
  then obtain c where "map_config_new a drafts True b history_capacity = Inr c" "spec = MapC c"
    using assms by (auto simp: spec_for_def map_err_Inr split: if_splits)
  then show ?thesis using new_config_drafts(4) by (auto simp only: config_valid.simps intro!: exI)
next
  case (SpecNgramMapK4v a b)
  then obtain c where "map_config_new a drafts False b history_capacity = Inr c" "spec = MapC c"
    using assms by (auto simp: spec_for_def map_err_Inr split: if_splits)
  then show ?thesis using new_config_drafts(4) by (auto simp only: config_valid.simps intro!: exI)
qed (use assms in \<open>auto simp: spec_for_def split: if_splits\<close>)

section \<open>Properties\<close>

text \<open>C5: The physical pools never fail the scheduler: however requests are admitted, cancelled and
  finished, and whatever the device answers, a device step never runs out of attention blocks or state
  slots and none of its \<open>expect\<close>s can fail; the only errors are the device's own, or that the worker is
  not bound.\<close>

theorem step_device_never_exhausts:
  assumes "worker_new i ordinal cache c n slots = Some w0" and "config_ok c" and "n < 2 ^ 31"
    and "slots < 2 ^ 32" and "sc_max_concurrent_decodes c \<le> slots"
    and "worker_run ops w0 w" and "step_device ops w = (r, w')"
  shows "(\<exists>st. r = Inr st) \<or> (\<exists>e. r = Inl (RuntimeErr e)) \<or> r = Inl NotBound \<and> \<not> is_device_bound w"
proof -
  have "worker_inv w" using worker_run_inv [OF assms(6)] worker_new_inv [OF assms(1-5)] by simp
  from step_device_ok [OF this assms(7)] show ?thesis
    by (cases r) (auto simp: is_device_bound_def elim: runtime_fault.elims)
qed

theorem step_device_never_exhausts_witness:
  "is_device_bound busy_worker \<and>
   ((\<exists>st. fst (step_device idle_device busy_worker) = Inr st) \<or>
    (\<exists>e. fst (step_device idle_device busy_worker) = Inl (RuntimeErr e)))"
proof -
  obtain r w' where st: "step_device idle_device busy_worker = (r, w')" by fastforce
  have "(\<exists>st. r = Inr st) \<or> (\<exists>e. r = Inl (RuntimeErr e)) \<or> r = Inl NotBound \<and> \<not> is_device_bound busy_worker"
    using step_device_never_exhausts [OF example_worker_new example_config_ok _ _ _ busy_worker_run st]
    by (simp add: example_config_def)
  then show ?thesis using st busy_worker_bound by simp
qed

text \<open>C21: Scheduler accounting and device memory agree at every moment: a request holds a reservation slot
  exactly when the scheduler runs it and it has reached the device; its slot then holds exactly the
  number of blocks the scheduler reserved, plus one state slot; no block is in two slots or also free;
  and the pools' free counts are what remains.\<close>

theorem slots_mirror_reservations:
  assumes "worker_new i ordinal cache c n slots = Some w0" and "config_ok c" and "n < 2 ^ 31"
    and "slots < 2 ^ 32" and "sc_max_concurrent_decodes c \<le> slots" and "worker_run ops w0 w"
  shows "(\<forall>j. (\<exists>sl \<in> set (wk_reservations w). rs_request sl = Some j) \<longleftrightarrow>
             is_running (wk_scheduler w) j \<and> wk_pending w j = None) \<and>
         (\<forall>sl \<in> set (wk_reservations w). \<forall>j. rs_request sl = Some j \<longrightarrow>
             reserved_attention_blocks (wk_scheduler w) j = Some (length (rs_attention sl)) \<and> rs_gdn sl \<noteq> None) \<and>
         distinct (bp_free (wk_attention_pool w) @ concat (map rs_attention (wk_reservations w))) \<and>
         pool_free_count (wk_attention_pool w) + length (concat (map rs_attention (wk_reservations w))) =
           bp_total (wk_attention_pool w)"
proof -
  let ?rs = "wk_reservations w" and ?p = "wk_attention_pool w"
  have inv: "worker_inv w" using worker_run_inv [OF assms(6)] worker_new_inv [OF assms(1-5)] by simp
  then have bk: "slots_back ?rs (reserved_attention_blocks (wk_scheduler w)) (dom (wk_pending w))"
    and led: "pool_ledger ?p (mset (concat (map rs_attention ?rs)))" by (auto simp: worker_inv_def)
  have "(\<exists>sl \<in> set ?rs. rs_request sl = Some j) \<longleftrightarrow> j \<in> set (slot_ids ?rs)" for j
    by (auto simp: slot_ids_def List.map_filter_def intro!: rev_image_eqI)
  then have 1: "(\<exists>sl \<in> set ?rs. rs_request sl = Some j) \<longleftrightarrow> is_running (wk_scheduler w) j \<and> wk_pending w j = None" for j
    using bk by (auto simp: slots_back_def is_running_iff)
  have 2: "reserved_attention_blocks (wk_scheduler w) j = Some (length (rs_attention sl)) \<and> rs_gdn sl \<noteq> None"
    if "sl \<in> set ?rs" "rs_request sl = Some j" for sl j
    using bk that by (auto simp: slots_back_def list_all_iff slot_ok_def)
  have "mset (bp_free ?p @ concat (map rs_attention ?rs)) = mset [0..<bp_total ?p]"
    using led by (simp only: pool_ledger_def mset_append)
  then have 3: "distinct (bp_free ?p @ concat (map rs_attention ?rs))" by (metis distinct_upt mset_eq_imp_distinct_iff)
  have 4: "pool_free_count ?p + length (concat (map rs_attention ?rs)) = bp_total ?p"
    using pool_ledger_free_count [OF led] by simp
  show ?thesis using 1 2 3 4 by blast
qed

theorem slots_mirror_reservations_witness:
  "pool_free_count (wk_attention_pool busy_worker) +
   length (concat (map rs_attention (wk_reservations busy_worker))) = bp_total (wk_attention_pool busy_worker)"
  using slots_mirror_reservations [OF example_worker_new example_config_ok _ _ _ busy_worker_run] by (simp add: example_config_def)

text \<open>A worker's drafter is sized by its scheduler: whatever self-speculative variant is configured, the
  drafter the worker hands to its runtime is one its own constructor accepted, and its draft limit is
  the number of tokens the scheduler charges per decode beyond the first.\<close>

theorem drafter_matches_scheduler:
  assumes "spec_for speculation (sc_draft_tokens_per_step c) history_capacity = Inr (Some spec)"
    and "sc_draft_tokens_per_step c < 2 ^ 32 - 1"
  shows "config_valid spec \<and> tokens_per_decode_step c = 1 + max_draft_tokens spec"
proof -
  have cost: "tokens_per_decode_step c = 1 + sc_draft_tokens_per_step c"
    using assms(2) by (simp add: tokens_per_decode_step_def wadd_def)
  have "config_valid spec \<and> max_draft_tokens spec = sc_draft_tokens_per_step c"
    using assms(1) spec_for_drafter by blast
  then show ?thesis using cost by simp
qed

theorem drafter_matches_scheduler_witness:
  "tokens_per_decode_step drafting_config =
   1 + max_draft_tokens (SimpleC \<lparr>sc_size_n = 2, sc_size_m = 3, sc_history_capacity = 64\<rparr>)"
  using drafter_matches_scheduler [of "SpecNgramSimple 2" drafting_config 64]
  by (simp add: spec_for_def map_err_def simple_config_new_def drafting_config_def)

end
