(* ===== verification/Image.thy ===== *)
theory Image
  imports Prelude
begin

text \<open>
  Image placements (\<open>xabe-engine/src/image.rs\<close>) and the reference assignment of three-component rotary
  positions (\<open>xabe-kernels/src/mrope.rs\<close>). The engine computes the positions of one chunk of a prompt
  from the list of images; the reference walks the whole sequence. The digest of an image slot is a
  third-party hash and stays a parameter where it is used (theory \<open>Prefix\<close>).
\<close>

section \<open>Placements\<close>

record image_placement =
  ip_start :: usize
  ip_grid_h :: u32
  ip_grid_w :: u32
  ip_content_hash :: u64

definition image_tokens :: "image_placement \<Rightarrow> usize" where
  "image_tokens p = wmul 32 (ip_grid_h p) (ip_grid_w p)"

definition image_end :: "image_placement \<Rightarrow> usize" where
  "image_end p = wadd 64 (ip_start p) (image_tokens p)"

definition image_covers :: "usize \<Rightarrow> image_placement \<Rightarrow> bool" where
  "image_covers pos p = (ip_start p \<le> pos \<and> pos < image_end p)"

text \<open>\<open>swrap w\<close> is the two's-complement reading of an integer in \<open>w\<close> bits: \<open>as i32\<close>, \<open>as i64\<close> and the
  wrap-around of signed operators.\<close>

definition swrap :: "nat \<Rightarrow> int \<Rightarrow> int" where
  "swrap w x = (x + 2 ^ (w - 1)) mod 2 ^ w - 2 ^ (w - 1)"

definition rope_delta_at :: "image_placement list \<Rightarrow> usize \<Rightarrow> i32" where
  "rope_delta_at images pos =
     swrap 32 (fold (\<lambda>p delta. if image_end p \<le> pos
         then swrap 64 (delta + (int (max (ip_grid_h p) (ip_grid_w p)) - int (image_tokens p))) else delta) images 0)"

definition chunk_overlaps_images :: "image_placement list \<Rightarrow> usize \<Rightarrow> usize \<Rightarrow> bool" where
  "chunk_overlaps_images images start width =
     list_ex (\<lambda>p. ip_start p < wadd 64 start width \<and> start < image_end p) images"

text \<open>One iteration of \<open>fill_mrope_triples\<close>. A span that covers a position has a non-zero width, so the
  division is defined.\<close>

definition mrope_triple :: "image_placement list \<Rightarrow> usize \<Rightarrow> i32 list" where
  "mrope_triple images pos =
     (case List.find (image_covers pos) images of
        Some p \<Rightarrow>
          (let base = swrap 32 (swrap 32 (int (ip_start p)) + rope_delta_at images (ip_start p));
               k = (pos - ip_start p) mod 2 ^ 32
           in [base, swrap 32 (base + swrap 32 (int (k div ip_grid_w p))),
               swrap 32 (base + swrap 32 (int (k mod ip_grid_w p)))])
      | None \<Rightarrow>
          (let q = swrap 32 (swrap 32 (int pos) + rope_delta_at images pos) in [q, q, q]))"

definition fill_mrope_triples :: "image_placement list \<Rightarrow> usize \<Rightarrow> usize \<Rightarrow> i32 list" where
  "fill_mrope_triples images start width =
     concat (map (mrope_triple images) [start..<wadd 64 start width])"

datatype placement_fault =
    EmptyGrid nat
  | OverlapsPredecessor nat
  | SpansPast nat nat nat nat

fun validate_from :: "nat \<Rightarrow> usize \<Rightarrow> image_placement list \<Rightarrow> usize \<Rightarrow> placement_fault + unit" where
  "validate_from i previous_end [] prompt_len = Inr ()"
| "validate_from i previous_end (p # ps) prompt_len =
     (if ip_grid_h p = 0 \<or> ip_grid_w p = 0 then Inl (EmptyGrid i)
      else if ip_start p < previous_end then Inl (OverlapsPredecessor i)
      else if prompt_len < image_end p then Inl (SpansPast i (ip_start p) (image_end p) prompt_len)
      else validate_from (i + 1) (image_end p) ps prompt_len)"

definition validate_placements :: "image_placement list \<Rightarrow> usize \<Rightarrow> placement_fault + unit" where
  "validate_placements placements prompt_len = validate_from 0 0 placements prompt_len"

section \<open>The reference assignment\<close>

record mrope_pos =
  mp_t :: u32
  mp_h :: u32
  mp_w :: u32

definition mrope_text :: "u32 \<Rightarrow> mrope_pos" where
  "mrope_text p = \<lparr>mp_t = p, mp_h = p, mp_w = p\<rparr>"

definition mrope_is_scalar :: "mrope_pos \<Rightarrow> bool" where
  "mrope_is_scalar p = (mp_t p = mp_h p \<and> mp_h p = mp_w p)"

record image_span =
  sp_start :: usize
  sp_grid_h :: u32
  sp_grid_w :: u32

definition span_len :: "image_span \<Rightarrow> usize" where
  "span_len s = wmul 32 (sp_grid_h s) (sp_grid_w s)"

text \<open>The two \<open>while\<close> loops over text, and the loop over one image's grid.\<close>

fun text_run :: "nat \<Rightarrow> u32 \<Rightarrow> mrope_pos list \<times> u32" where
  "text_run 0 base = ([], base)"
| "text_run (Suc n) base =
     (let (ps, base') = text_run n (wadd 32 base 1) in (mrope_text base # ps, base'))"

definition grid_run :: "image_span \<Rightarrow> u32 \<Rightarrow> mrope_pos list" where
  "grid_run s base = map (\<lambda>k. \<lparr>mp_t = base, mp_h = wadd 32 base (k div sp_grid_w s),
     mp_w = wadd 32 base (k mod sp_grid_w s)\<rparr>) [0..<span_len s mod 2 ^ 32]"

text \<open>The loop over the spans at index \<open>i\<close> and base \<open>base\<close>; \<open>None\<close> is a failed \<open>assert!\<close>.\<close>

fun assign_from :: "usize \<Rightarrow> image_span list \<Rightarrow> usize \<Rightarrow> u32 \<Rightarrow> (mrope_pos list \<times> u32) option" where
  "assign_from seq_len [] i base = Some (text_run (seq_len - i) base)"
| "assign_from seq_len (s # ss) i base =
     (if sp_start s < i then None
      else if seq_len < wadd 64 (sp_start s) (span_len s) then None
      else (let (text, base') = text_run (sp_start s - i) base in
        case assign_from seq_len ss (wadd 64 (sp_start s) (span_len s))
               (wadd 32 base' (max (max (sp_grid_h s) (sp_grid_w s)) 1)) of
          None \<Rightarrow> None
        | Some (rest, next) \<Rightarrow> Some (text @ grid_run s base' @ rest, next)))"

definition assign_positions :: "usize \<Rightarrow> image_span list \<Rightarrow> (mrope_pos list \<times> u32) option" where
  "assign_positions seq_len spans = assign_from seq_len spans 0 0"

section \<open>Signed wrap-around\<close>

lemma swrap_id: "- (2 ^ (w - 1)) \<le> x \<Longrightarrow> x < 2 ^ (w - 1) \<Longrightarrow> 0 < w \<Longrightarrow> swrap w x = x"
proof -
  assume x: "- (2 ^ (w - 1)) \<le> x" "x < 2 ^ (w - 1)" "0 < w"
  have "(2 :: int) ^ w = 2 ^ (w - 1) + 2 ^ (w - 1)"
    using x(3) by (cases w) simp_all
  then show ?thesis using x(1,2) by (simp add: swrap_def)
qed

lemma swrap_cong: "x mod 2 ^ w = y mod 2 ^ w \<Longrightarrow> swrap w x = swrap w y"
  by (simp add: swrap_def) (metis mod_add_left_eq)

lemma swrap_mod: "swrap w x mod 2 ^ w = x mod 2 ^ w"
  by (simp add: swrap_def mod_simps)

lemma swrap_add_left: "swrap w (swrap w x + y) = swrap w (x + y)"
  by (rule swrap_cong) (metis mod_add_left_eq swrap_mod)

lemma swrap_add_right: "swrap w (x + swrap w y) = swrap w (x + y)"
  by (rule swrap_cong) (metis mod_add_right_eq swrap_mod)

lemma swrap_64_mod: "swrap 64 x mod 2 ^ 32 = x mod 2 ^ 32"
proof -
  have "(2 :: int) ^ 32 dvd 2 ^ 64" by (simp add: le_imp_power_dvd)
  then have "swrap 64 x mod 2 ^ 32 = swrap 64 x mod 2 ^ 64 mod 2 ^ 32" by (simp only: mod_mod_cancel)
  also have "\<dots> = x mod 2 ^ 64 mod 2 ^ 32" by (simp only: swrap_mod)
  also have "\<dots> = x mod 2 ^ 32" using \<open>2 ^ 32 dvd 2 ^ 64\<close> by (simp only: mod_mod_cancel)
  finally show ?thesis .
qed

lemma swrap_32_64: "swrap 32 (swrap 64 x + y) = swrap 32 (x + y)"
  by (rule swrap_cong) (metis mod_add_left_eq swrap_64_mod)

section \<open>Exact positions\<close>

text \<open>Well-placed images from index \<open>i\<close> on, and the positions without wrap-around when the rotary base
  runs \<open>d\<close> ahead of the token index (\<open>d\<close> is never positive).\<close>

definition span_of :: "image_placement \<Rightarrow> image_span" where
  "span_of p = \<lparr>sp_start = ip_start p, sp_grid_h = ip_grid_h p, sp_grid_w = ip_grid_w p\<rparr>"

definition grid_fits :: "image_placement \<Rightarrow> bool" where
  "grid_fits p \<longleftrightarrow> ip_grid_h p * ip_grid_w p < 2 ^ 32 \<and> ip_start p + ip_grid_h p * ip_grid_w p < 2 ^ 64"

fun placed_from :: "nat \<Rightarrow> image_placement list \<Rightarrow> nat \<Rightarrow> bool" where
  "placed_from i [] n \<longleftrightarrow> i \<le> n"
| "placed_from i (p # ps) n \<longleftrightarrow> 0 < ip_grid_h p \<and> 0 < ip_grid_w p \<and> i \<le> ip_start p \<and>
     image_tokens p = ip_grid_h p * ip_grid_w p \<and> image_end p = ip_start p + image_tokens p \<and>
     placed_from (image_end p) ps n"

definition drift :: "image_placement \<Rightarrow> int" where
  "drift p = int (max (ip_grid_h p) (ip_grid_w p)) - int (image_tokens p)"

definition exact_delta :: "image_placement list \<Rightarrow> nat \<Rightarrow> int" where
  "exact_delta images pos = sum_list (map drift (filter (\<lambda>p. image_end p \<le> pos) images))"

definition exact_triple :: "int \<Rightarrow> image_placement list \<Rightarrow> nat \<Rightarrow> int list" where
  "exact_triple d images pos =
     (case List.find (image_covers pos) images of
        Some p \<Rightarrow> (let base = int (ip_start p) + d + exact_delta images (ip_start p); k = pos - ip_start p
           in [base, base + int (k div ip_grid_w p), base + int (k mod ip_grid_w p)])
      | None \<Rightarrow> (let q = int pos + d + exact_delta images pos in [q, q, q]))"

definition pos_ints :: "mrope_pos \<Rightarrow> int list" where
  "pos_ints p = [int (mp_t p), int (mp_h p), int (mp_w p)]"

lemma validate_placed:
  "validate_from j i images n = Inr () \<Longrightarrow> \<forall>p \<in> set images. grid_fits p \<Longrightarrow> i \<le> n \<Longrightarrow> placed_from i images n"
  by (induction images arbitrary: i j)
    (auto simp: grid_fits_def image_end_def image_tokens_def wmul_nowrap wadd_nowrap split: if_splits)

lemma placed_le: "placed_from i images n \<Longrightarrow> i \<le> n"
  by (induction images arbitrary: i) fastforce+

lemma placed_later: "placed_from i images n \<Longrightarrow> p \<in> set images \<Longrightarrow>
  i \<le> ip_start p \<and> ip_start p < image_end p \<and> image_end p \<le> n"
  using placed_le by (induction images arbitrary: i) fastforce+

lemma drift_le: "0 < ip_grid_h p \<Longrightarrow> 0 < ip_grid_w p \<Longrightarrow> image_tokens p = ip_grid_h p * ip_grid_w p \<Longrightarrow>
    max (ip_grid_h p) (ip_grid_w p) \<le> image_tokens p"
  by simp

lemma exact_delta_simps [simp]: "exact_delta [] pos = 0"
  "exact_delta (p # ps) pos = (if image_end p \<le> pos then drift p else 0) + exact_delta ps pos"
  by (simp_all add: exact_delta_def)

lemma exact_delta_before: "placed_from i images n \<Longrightarrow> pos \<le> i \<Longrightarrow> exact_delta images pos = 0"
proof -
  assume "placed_from i images n" "pos \<le> i"
  then have "filter (\<lambda>p. image_end p \<le> pos) images = []"
    by (auto simp: filter_empty_conv dest!: placed_later)
  then show ?thesis by (simp add: exact_delta_def)
qed

lemma rope_delta_exact: "rope_delta_at images pos = swrap 32 (exact_delta images pos)"
proof -
  have "swrap 32 (fold (\<lambda>p delta. if image_end p \<le> pos
      then swrap 64 (delta + (int (max (ip_grid_h p) (ip_grid_w p)) - int (image_tokens p))) else delta) images x) =
    swrap 32 (x + exact_delta images pos)" for x
  proof (induction images arbitrary: x)
    case (Cons p ps)
    show ?case using swrap_32_64 [of "x + drift p" "exact_delta ps pos"]
      by (simp add: Cons.IH drift_def algebra_simps)
  qed simp
  from this [of 0] show ?thesis by (simp add: rope_delta_at_def)
qed

lemma text_run_eq: "base + m < 2 ^ 32 \<Longrightarrow> text_run m base = (map mrope_text [base..<base + m], base + m)"
proof (induction m arbitrary: base)
  case (Suc m)
  have "[base..<base + Suc m] = base # [Suc base..<Suc base + m]" by (simp add: upt_conv_Cons del: upt_Suc)
  then show ?case using Suc.IH [of "Suc base"] Suc.prems by (simp add: wadd_nowrap del: upt_Suc)
qed simp

lemma text_triples:
  assumes "\<forall>pos. i \<le> pos \<longrightarrow> pos < i + m \<longrightarrow>
      exact_triple (int base - int i) images pos = (let q = int pos + (int base - int i) in [q, q, q])"
  shows "map pos_ints (map mrope_text [base..<base + m]) = map (exact_triple (int base - int i) images) [i..<i + m]"
  using assms by (intro list_all2_all_nthI [THEN list_all2_eq [THEN iffD2]])
    (simp_all add: pos_ints_def mrope_text_def Let_def algebra_simps)

lemma find_covers_None:
  "placed_from i images n \<Longrightarrow> pos < i \<Longrightarrow> List.find (image_covers pos) images = None"
  by (auto simp: find_None_iff image_covers_def dest!: placed_later)

lemma exact_triple_before:
  assumes "placed_from i images n" and "pos < i"
  shows "exact_triple d images pos = (let q = int pos + d in [q, q, q])"
  using assms find_covers_None [OF assms] exact_delta_before [OF assms(1), of pos]
  by (simp add: exact_triple_def)

lemma grid_triples:
  assumes p: "0 < ip_grid_h p" "0 < ip_grid_w p" "image_tokens p = ip_grid_h p * ip_grid_w p"
      "image_end p = ip_start p + image_tokens p" and ps: "placed_from (image_end p) ps n"
    and b: "base + image_tokens p < 2 ^ 32" and d: "int base = int (ip_start p) + d"
  shows "map pos_ints (grid_run (span_of p) base) = map (exact_triple d (p # ps)) [ip_start p..<image_end p]"
proof (rule list_all2_all_nthI [THEN list_all2_eq [THEN iffD2]])
  have len: "span_len (span_of p) mod 2 ^ 32 = image_tokens p" using b
    by (simp add: span_len_def span_of_def image_tokens_def wmul_def)
  show "length (map pos_ints (grid_run (span_of p) base)) =
      length (map (exact_triple d (p # ps)) [ip_start p..<image_end p])"
    using p(4) by (simp add: grid_run_def len del: power_numeral)
  fix k assume "k < length (map pos_ints (grid_run (span_of p) base))"
  then have k: "k < image_tokens p" by (simp add: grid_run_def len del: power_numeral)
  have gw: "sp_grid_w (span_of p) = ip_grid_w p" by (simp add: span_of_def)
  have kd: "k div ip_grid_w p \<le> k" "k mod ip_grid_w p \<le> k" by simp_all
  have small: "base + k div ip_grid_w p < 2 ^ 32" "base + k mod ip_grid_w p < 2 ^ 32" using kd k b by linarith+
  have "exact_delta ps (ip_start p) = 0" using exact_delta_before [OF ps, of "ip_start p"] p(4) by simp
  then show "map pos_ints (grid_run (span_of p) base) ! k = map (exact_triple d (p # ps)) [ip_start p..<image_end p] ! k"
    using k p d small
    by (simp add: grid_run_def len gw pos_ints_def exact_triple_def image_covers_def wadd_nowrap Let_def
        del: power_numeral)
qed

lemma exact_triple_after:
  assumes "image_end p \<le> pos" and "placed_from (image_end p) ps n"
  shows "exact_triple d (p # ps) pos = exact_triple (d + drift p) ps pos"
proof -
  have "\<not> image_covers pos p" using assms(1) by (simp add: image_covers_def)
  moreover have "image_end p \<le> ip_start q" if "List.find (image_covers pos) ps = Some q" for q
    using that placed_later [OF assms(2)] by (auto simp: find_Some_iff)
  ultimately show ?thesis using assms(1) by (auto simp: exact_triple_def Let_def algebra_simps split: option.split)
qed

lemma upt_split: "a \<le> b \<Longrightarrow> b \<le> c \<Longrightarrow> [a..<c] = [a..<b] @ [b..<c]"
  using upt_add_eq_append [of a b "c - b"] by simp

lemma assign_from_exact:
  assumes "placed_from i images n" and "base \<le> i" and "n < 2 ^ 31"
  shows "\<exists>ps nb. assign_from n (map span_of images) i base = Some (ps, nb) \<and>
    map pos_ints ps = map (exact_triple (int base - int i) images) [i..<n] \<and> nb \<le> n \<and>
    int nb = int n + (int base - int i) + exact_delta images n"
  using assms(1,2)
proof (induction images arbitrary: i base)
  case Nil
  then have m: "base + (n - i) < 2 ^ 32" using assms(3) by simp
  have "map pos_ints (map mrope_text [base..<base + (n - i)]) =
      map (exact_triple (int base - int i) []) [i..<i + (n - i)]"
    by (rule text_triples) (simp add: exact_triple_def)
  then show ?case using text_run_eq [OF m] Nil by simp
next
  case (Cons p images)
  define d where "d = int base - int i"
  define base' where "base' = base + (ip_start p - i)"
  define next_base where "next_base = base' + max (ip_grid_h p) (ip_grid_w p)"
  have p: "0 < ip_grid_h p" "0 < ip_grid_w p" "image_tokens p = ip_grid_h p * ip_grid_w p"
      "image_end p = ip_start p + image_tokens p" "i \<le> ip_start p" "placed_from (image_end p) images n"
    using Cons.prems(1) by (auto simp only: placed_from.simps)
  have le: "max (ip_grid_h p) (ip_grid_w p) \<le> image_tokens p" using drift_le [OF p(1-3)] .
  have bounds: "image_end p \<le> n" "base' \<le> ip_start p" "next_base \<le> image_end p"
    using placed_le [OF p(6)] Cons.prems(2) p(4,5) le unfolding base'_def next_base_def by linarith+
  have lens: "span_len (span_of p) = image_tokens p" "sp_start (span_of p) = ip_start p"
      "max (max (sp_grid_h (span_of p)) (sp_grid_w (span_of p))) 1 = max (ip_grid_h p) (ip_grid_w p)"
    using p(1) by (simp_all add: span_len_def span_of_def image_tokens_def max_def)
  have fit: "wadd 64 (ip_start p) (image_tokens p) = image_end p"
      "wadd 32 base' (max (ip_grid_h p) (ip_grid_w p)) = next_base"
    using bounds assms(3) p(4) by (simp_all add: wadd_nowrap next_base_def)
  obtain rest nb where IH: "assign_from n (map span_of images) (image_end p) next_base = Some (rest, nb)"
      "map pos_ints rest = map (exact_triple (int next_base - int (image_end p)) images) [image_end p..<n]"
      "nb \<le> n" "int nb = int n + (int next_base - int (image_end p)) + exact_delta images n"
    using Cons.IH [OF p(6) bounds(3)] by blast
  have d': "int next_base - int (image_end p) = d + drift p"
    using p(4,5) by (simp add: next_base_def base'_def d_def drift_def)
  have run: "text_run (ip_start p - i) base = (map mrope_text [base..<base'], base')"
    using text_run_eq [of base "ip_start p - i"] bounds assms(3) p(4) by (simp add: base'_def)
  have text_pos: "map pos_ints (map mrope_text [base..<base']) = map (exact_triple d (p # images)) [i..<ip_start p]"
  proof -
    have start: "placed_from (ip_start p) (p # images) n" using p by (auto simp only: placed_from.simps)
    have "map pos_ints (map mrope_text [base..<base + (ip_start p - i)]) =
        map (exact_triple (int base - int i) (p # images)) [i..<i + (ip_start p - i)]"
      by (rule text_triples) (use exact_triple_before [OF start] in simp)
    then show ?thesis using p(5) by (simp add: base'_def d_def)
  qed
  have grid: "map pos_ints (grid_run (span_of p) base') = map (exact_triple d (p # images)) [ip_start p..<image_end p]"
    using grid_triples [OF p(1-4) p(6), of base' d] bounds assms(3) p(4,5) by (simp add: base'_def d_def)
  have tail: "map pos_ints rest = map (exact_triple d (p # images)) [image_end p..<n]"
    using IH(2) exact_triple_after [OF _ p(6)] d' by simp
  have split: "[i..<n] = [i..<ip_start p] @ [ip_start p..<image_end p] @ [image_end p..<n]"
    using p(4,5) bounds(1) by (simp add: upt_split [of i "ip_start p" n] upt_split [of "ip_start p" "image_end p" n])
  have "assign_from n (map span_of (p # images)) i base =
      Some (map mrope_text [base..<base'] @ grid_run (span_of p) base' @ rest, nb)"
    using p(5) bounds(1) by (simp add: lens lens(3) [simplified] fit run IH(1) Let_def)
  moreover have "int nb = int n + d + exact_delta (p # images) n" using IH(4) d' bounds(1) by simp
  ultimately show ?case using text_pos grid tail IH(3) by (simp add: split d_def)
qed

lemma exact_delta_nonpos: "placed_from i images n \<Longrightarrow> exact_delta images pos \<le> 0"
proof (induction images arbitrary: i)
  case (Cons p images)
  have p: "0 < ip_grid_h p" "0 < ip_grid_w p" "image_tokens p = ip_grid_h p * ip_grid_w p"
      "placed_from (image_end p) images n"
    using Cons.prems by (auto simp only: placed_from.simps)
  then have "drift p \<le> 0" using drift_le [of p] by (simp only: drift_def of_nat_le_iff diff_le_0_iff_le)
  then show ?case using Cons.IH [OF p(4)] by simp
qed simp

lemma exact_triple_le:
  assumes "placed_from i images n" and "x \<in> set (exact_triple 0 images pos)"
  shows "x \<le> int pos"
proof (cases "List.find (image_covers pos) images")
  case None
  then show ?thesis using assms exact_delta_nonpos [OF assms(1), of pos]
    by (auto simp: exact_triple_def Let_def)
next
  case (Some p)
  then have cov: "ip_start p \<le> pos" by (auto simp: find_Some_iff image_covers_def)
  define k where "k = pos - ip_start p"
  have "k div ip_grid_w p \<le> k" "k mod ip_grid_w p \<le> k" by simp_all
  then have "int (k div ip_grid_w p) \<le> int k" "int (k mod ip_grid_w p) \<le> int k" by (simp_all only: of_nat_le_iff)
  moreover have "int k = int pos - int (ip_start p)" using cov by (simp add: k_def)
  ultimately show ?thesis using Some assms(2) exact_delta_nonpos [OF assms(1), of "ip_start p"]
    by (auto simp: exact_triple_def Let_def k_def [symmetric])
qed

lemma mrope_triple_exact:
  assumes "placed_from i images n" and "n < 2 ^ 31"
  shows "mrope_triple images pos = map (swrap 32) (exact_triple 0 images pos)"
proof (cases "List.find (image_covers pos) images")
  case None
  then show ?thesis
    by (simp add: mrope_triple_def exact_triple_def rope_delta_exact swrap_add_left swrap_add_right Let_def)
next
  case (Some p)
  then have "p \<in> set images" "image_covers pos p" by (auto simp: find_Some_iff)
  then have "pos - ip_start p < 2 ^ 32" using placed_later [OF assms(1)] assms(2)
    by (fastforce simp: image_covers_def)
  then show ?thesis using Some
    by (simp add: mrope_triple_def exact_triple_def rope_delta_exact swrap_add_left swrap_add_right Let_def
        mod_less del: power_numeral)
qed

section \<open>Properties\<close>

text \<open>C36: The engine's per-chunk rotary positions are the reference's: for every validated list of images and
  every chunk of the prompt, \<open>fill_mrope_triples\<close> yields the triples that the reference assignment
  gives those positions of the whole sequence, the reference does not panic, and the scalar decode
  continues from is the reference's next base.\<close>

theorem mrope_chunks_match_reference:
  assumes "validate_placements images n = Inr ()" and "\<forall>p \<in> set images. grid_fits p" and "n < 2 ^ 31"
    and "start + width \<le> n"
  shows "\<exists>ps nb. assign_positions n (map span_of images) = Some (ps, nb) \<and> length ps = n \<and>
    fill_mrope_triples images start width = concat (map pos_ints (take width (drop start ps))) \<and>
    swrap 32 (int n + rope_delta_at images n) = int nb"
proof -
  have placed: "placed_from 0 images n" using validate_placed assms(1,2) by (simp add: validate_placements_def)
  obtain ps nb where r: "assign_from n (map span_of images) 0 0 = Some (ps, nb)"
      "map pos_ints ps = map (exact_triple 0 images) [0..<n]" "nb \<le> n" "int nb = int n + exact_delta images n"
    using assign_from_exact [OF placed, of 0] assms(3) by auto
  have small: "swrap 32 (int m) = int m" if "m < 2 ^ 31" for m using that by (intro swrap_id) simp_all
  have len: "length ps = n" using r(2) by (metis length_map length_upt diff_zero)
  have triple: "mrope_triple images pos = pos_ints (ps ! pos)" if "pos < n" for pos
  proof -
    have ex: "exact_triple 0 images pos = pos_ints (ps ! pos)"
      using arg_cong [OF r(2), of "\<lambda>l. l ! pos"] that len by simp
    then have "swrap 32 x = x" if "x \<in> set (pos_ints (ps ! pos))" for x
      using exact_triple_le [OF placed, of x pos] that \<open>pos < n\<close> assms(3)
      by (intro swrap_id) (auto simp: pos_ints_def)
    then have "map (swrap 32) (pos_ints (ps ! pos)) = pos_ints (ps ! pos)" by (rule map_idI)
    then show ?thesis using mrope_triple_exact [OF placed assms(3)] ex by simp
  qed
  have "map (mrope_triple images) [start..<start + width] = map pos_ints (take width (drop start ps))"
    using assms(4) len triple by (intro list_all2_all_nthI [THEN list_all2_eq [THEN iffD2]]) simp_all
  moreover have "wadd 64 start width = start + width" using assms(3,4) by (simp add: wadd_nowrap)
  moreover have "swrap 32 (int n + rope_delta_at images n) = int nb"
    using r(3,4) small [of nb] assms(3) by (simp add: rope_delta_exact swrap_add_right)
  ultimately show ?thesis using r(1) len by (simp add: assign_positions_def fill_mrope_triples_def)
qed

theorem mrope_chunks_match_reference_witness:
  "\<exists>ps nb. assign_positions 30 [\<lparr>sp_start = 3, sp_grid_h = 4, sp_grid_w = 2\<rparr>, \<lparr>sp_start = 15, sp_grid_h = 2, sp_grid_w = 5\<rparr>]
     = Some (ps, nb) \<and>
   fill_mrope_triples [\<lparr>ip_start = 3, ip_grid_h = 4, ip_grid_w = 2, ip_content_hash = 1\<rparr>,
     \<lparr>ip_start = 15, ip_grid_h = 2, ip_grid_w = 5, ip_content_hash = 2\<rparr>] 7 10 = concat (map pos_ints (take 10 (drop 7 ps)))"
  using mrope_chunks_match_reference [of "[\<lparr>ip_start = 3, ip_grid_h = 4, ip_grid_w = 2, ip_content_hash = 1\<rparr>,
     \<lparr>ip_start = 15, ip_grid_h = 2, ip_grid_w = 5, ip_content_hash = 2\<rparr>]" 30 7 10]
  by (auto simp: validate_placements_def image_end_def image_tokens_def wadd_def wmul_def grid_fits_def span_of_def)

end
