(* ===== verification/Prefix.thy ===== *)
theory Prefix
  imports RadixTree Router Image Drafter
begin

text \<open>
  What names a sequence's blocks and which snapshots are held for reuse (\<open>xabe-engine/src/prefix.rs\<close>).

  \<open>hash\<close> stands for \<open>hash_block\<close> and \<open>lane\<close> for the digest of an image slot; both are computed by the
  third-party \<open>FxHasher\<close>, so both are parameters, and no law is assumed of them: the theorems say what a
  collision of \<open>hash\<close> would have to be.
\<close>

section \<open>Sequence chains\<close>

record seq_chain =
  ch_block_size :: usize
  ch_hashes :: "block_hash list"
  ch_pending :: "u32 list"
  ch_prompt_len :: usize
  ch_images :: "image_placement list"
  ch_next_index :: usize

definition as_u32 :: "int \<Rightarrow> u32" where
  "as_u32 t = nat (t mod 2 ^ 32)"

definition slot_value :: "(u64 \<Rightarrow> usize \<Rightarrow> u32) \<Rightarrow> image_placement list \<Rightarrow> usize \<Rightarrow> token \<Rightarrow> u32" where
  "slot_value lane images index token =
     (case List.find (image_covers index) images of
        None \<Rightarrow> as_u32 token
      | Some img \<Rightarrow> lane (ip_content_hash img) (index - ip_start img))"

definition chain_parent :: "block_hash list \<Rightarrow> block_hash" where
  "chain_parent hs = (if hs = [] then root_hash else last hs)"

definition chain_push ::
  "(block_hash \<Rightarrow> u32 list \<Rightarrow> block_hash) \<Rightarrow> (u64 \<Rightarrow> usize \<Rightarrow> u32) \<Rightarrow> token \<Rightarrow> seq_chain \<Rightarrow> seq_chain" where
  "chain_push hash lane token ch =
     (let value = slot_value lane (ch_images ch) (ch_next_index ch) token;
          pending = ch_pending ch @ [value];
          ch1 = ch\<lparr>ch_next_index := wadd 64 (ch_next_index ch) 1\<rparr>
      in if length pending = ch_block_size ch
         then ch1\<lparr>ch_hashes := ch_hashes ch @ [hash (chain_parent (ch_hashes ch)) pending], ch_pending := []\<rparr>
         else ch1\<lparr>ch_pending := pending\<rparr>)"

definition chain_extend ::
  "(block_hash \<Rightarrow> u32 list \<Rightarrow> block_hash) \<Rightarrow> (u64 \<Rightarrow> usize \<Rightarrow> u32) \<Rightarrow> token list \<Rightarrow> seq_chain \<Rightarrow> seq_chain" where
  "chain_extend hash lane tokens ch = fold (chain_push hash lane) tokens ch"

definition chain_new ::
  "(block_hash \<Rightarrow> u32 list \<Rightarrow> block_hash) \<Rightarrow> (u64 \<Rightarrow> usize \<Rightarrow> u32) \<Rightarrow>
   u32 \<Rightarrow> token list \<Rightarrow> image_placement list \<Rightarrow> seq_chain" where
  "chain_new hash lane block_size prompt images =
     chain_extend hash lane prompt \<lparr>ch_block_size = max block_size 1, ch_hashes = [], ch_pending = [],
       ch_prompt_len = length prompt, ch_images = images, ch_next_index = 0\<rparr>"

definition chain_position :: "seq_chain \<Rightarrow> usize" where
  "chain_position ch = wadd 64 (wmul 64 (length (ch_hashes ch)) (ch_block_size ch)) (length (ch_pending ch))"

definition hashes_for :: "seq_chain \<Rightarrow> usize \<Rightarrow> block_hash list option" where
  "hashes_for ch pos =
     (if pos = 0 \<or> \<not> is_multiple_of pos (ch_block_size ch) then None
      else (let blocks = pos div ch_block_size ch in
        if blocks \<le> length (ch_hashes ch) then Some (take blocks (ch_hashes ch)) else None))"

definition generated_token_at :: "seq_chain \<Rightarrow> usize \<Rightarrow> u32 option" where
  "generated_token_at ch pos =
     (if pos < ch_prompt_len ch then None
      else (let hashed = wmul 64 (length (ch_hashes ch)) (ch_block_size ch) in
        if pos < hashed then None
        else if pos - hashed < length (ch_pending ch) then Some (ch_pending ch ! (pos - hashed)) else None))"

section \<open>Shared snapshots\<close>

record 'v held =
  hd_worker :: worker_id
  hd_value :: 'v
  hd_last_used :: u64

record 'v shared_snapshots =
  sh_entries :: "(block_hash \<times> 'v held) list"
  sh_clock :: u64

definition shared_new :: "'v shared_snapshots" where
  "shared_new = \<lparr>sh_entries = [], sh_clock = 0\<rparr>"

definition shared_contains :: "'v shared_snapshots \<Rightarrow> block_hash \<Rightarrow> bool" where
  "shared_contains s h = (map_of (sh_entries s) h \<noteq> None)"

definition take_for_reuse :: "'v shared_snapshots \<Rightarrow> block_hash \<Rightarrow> 'v option \<times> 'v shared_snapshots" where
  "take_for_reuse s h =
     (let clock = wadd 64 (sh_clock s) 1; s1 = s\<lparr>sh_clock := clock\<rparr> in
      case map_of (sh_entries s) h of
        None \<Rightarrow> (None, s1)
      | Some e \<Rightarrow> (Some (hd_value e), s1\<lparr>sh_entries := AList.update h (e\<lparr>hd_last_used := clock\<rparr>) (sh_entries s)\<rparr>))"

definition shared_publish :: "'v shared_snapshots \<Rightarrow> block_hash \<Rightarrow> worker_id \<Rightarrow> 'v \<Rightarrow> 'v shared_snapshots" where
  "shared_publish s h worker value =
     (let clock = wadd 64 (sh_clock s) 1 in
      s\<lparr>sh_clock := clock,
        sh_entries := AList.update h \<lparr>hd_worker = worker, hd_value = value, hd_last_used = clock\<rparr> (sh_entries s)\<rparr>)"

definition shared_remove :: "'v shared_snapshots \<Rightarrow> block_hash \<Rightarrow> 'v shared_snapshots" where
  "shared_remove s h = s\<lparr>sh_entries := AList.delete h (sh_entries s)\<rparr>"

definition shared_len :: "'v shared_snapshots \<Rightarrow> usize" where
  "shared_len s = length (sh_entries s)"

text \<open>The loop of \<open>reclaim_for\<close>. \<open>available\<close> gives the answers of the arena, call by call, since what a drop
  recovers is not known to this component; \<open>iter\<close> is the hash map's iteration order. That a victim is a
  key of the map holds for every iteration order; it is tested for termination only.\<close>

lemma length_delete_less: "h \<in> fst ` set es \<Longrightarrow> length (AList.delete h es) < length es"
  by (auto simp: AList.delete_eq intro!: length_filter_less)

definition reclaim_victim ::
  "((block_hash \<times> 'v held) list \<Rightarrow> (block_hash \<times> 'v held) list) \<Rightarrow> worker_id \<Rightarrow>
   (block_hash \<times> 'v held) list \<Rightarrow> block_hash option" where
  "reclaim_victim iter worker entries =
     map_option fst (min_by_key (\<lambda>e. hd_last_used (snd e)) (filter (\<lambda>e. hd_worker (snd e) = worker) (iter entries)))"

function reclaim_loop ::
  "((block_hash \<times> 'v held) list \<Rightarrow> (block_hash \<times> 'v held) list) \<Rightarrow> worker_id \<Rightarrow> usize \<Rightarrow>
   (nat \<Rightarrow> usize) \<Rightarrow> nat \<Rightarrow> (block_hash \<times> 'v held) list \<Rightarrow> bool \<times> (block_hash \<times> 'v held) list" where
  "reclaim_loop iter worker reserve available call entries =
     (if reserve \<le> available call then (True, entries)
      else (case reclaim_victim iter worker entries of
              None \<Rightarrow> (False, entries)
            | Some h \<Rightarrow>
                (if h \<in> fst ` set entries
                 then reclaim_loop iter worker reserve available (Suc call) (AList.delete h entries)
                 else (False, entries))))"
  by pat_completeness auto

termination
  by (relation "measure (\<lambda>(_, _, _, _, _, es). length es)") (auto simp: length_delete_less)

declare reclaim_loop.simps [simp del]

definition reclaim_for ::
  "((block_hash \<times> 'v held) list \<Rightarrow> (block_hash \<times> 'v held) list) \<Rightarrow> 'v shared_snapshots \<Rightarrow> worker_id \<Rightarrow> usize \<Rightarrow>
   (nat \<Rightarrow> usize) \<Rightarrow> bool \<times> 'v shared_snapshots" where
  "reclaim_for iter s worker reserve available =
     (let (ok, entries) = reclaim_loop iter worker reserve available 0 (sh_entries s)
      in (ok, s\<lparr>sh_entries := entries\<rparr>))"

section \<open>Chains name the sequence\<close>

text \<open>The reference: the stream of values a sequence is named over, and the chained names of its complete
  blocks.\<close>

definition named_stream :: "(u64 \<Rightarrow> usize \<Rightarrow> u32) \<Rightarrow> image_placement list \<Rightarrow> token list \<Rightarrow> u32 list" where
  "named_stream lane images tokens = map (\<lambda>i. slot_value lane images i (tokens ! i)) [0..<length tokens]"

definition block_at :: "nat \<Rightarrow> 'a list \<Rightarrow> nat \<Rightarrow> 'a list" where
  "block_at b xs k = take b (drop (k * b) xs)"

fun block_names :: "(block_hash \<Rightarrow> u32 list \<Rightarrow> block_hash) \<Rightarrow> nat \<Rightarrow> u32 list \<Rightarrow> nat \<Rightarrow> block_hash list" where
  "block_names hash b xs 0 = []"
| "block_names hash b xs (Suc k) =
     (let hs = block_names hash b xs k in hs @ [hash (chain_parent hs) (block_at b xs k)])"

definition chain_names :: "(block_hash \<Rightarrow> u32 list \<Rightarrow> block_hash) \<Rightarrow> (u64 \<Rightarrow> usize \<Rightarrow> u32) \<Rightarrow> seq_chain \<Rightarrow> token list \<Rightarrow> bool" where
  "chain_names hash lane ch tokens \<longleftrightarrow>
     (let b = ch_block_size ch; xs = named_stream lane (ch_images ch) tokens; k = length xs div b in
      0 < b \<and> ch_hashes ch = block_names hash b xs k \<and> ch_pending ch = drop (k * b) xs \<and>
      ch_next_index ch = length tokens)"

lemma length_named_stream [simp]: "length (named_stream lane images tokens) = length tokens"
  by (simp add: named_stream_def)

lemma named_stream_snoc: "named_stream lane images (ts @ [t]) =
  named_stream lane images ts @ [slot_value lane images (length ts) t]"
  by (simp add: named_stream_def nth_append)

lemma take_named_stream: "take n (named_stream lane images ts) = named_stream lane images (take n ts)"
  by (rule nth_equalityI) (simp_all add: named_stream_def)

lemma length_block_names [simp]: "length (block_names hash b xs k) = k"
  by (induction k) (simp_all add: Let_def)

lemma block_names_append: "k * b \<le> length xs \<Longrightarrow> block_names hash b (xs @ ys) k = block_names hash b xs k"
proof (induction k)
  case (Suc k)
  then have "block_at b (xs @ ys) k = block_at b xs k" by (simp add: block_at_def)
  then show ?case using Suc by simp
qed simp

lemma take_block_names: "j \<le> k \<Longrightarrow> take j (block_names hash b xs k) = block_names hash b xs j"
  by (induction k) (auto simp: Let_def le_Suc_eq)

lemma div_Suc_block: "0 < b \<Longrightarrow> Suc n div b = (if Suc (n mod b) = b then Suc (n div b) else n div b)"
  by (simp add: div_Suc mod_Suc)

lemma chain_push_names:
  assumes "chain_names hash lane ch ts" and "length ts < 2 ^ 64 - 1"
  shows "chain_names hash lane (chain_push hash lane t ch) (ts @ [t])"
proof -
  define b where "b = ch_block_size ch"
  define xs where "xs = named_stream lane (ch_images ch) ts"
  define v where "v = slot_value lane (ch_images ch) (length ts) t"
  define k where "k = length xs div b"
  have inv: "0 < b" "ch_hashes ch = block_names hash b xs k" "ch_pending ch = drop (k * b) xs"
      "ch_next_index ch = length ts" "length xs = length ts"
    using assms(1) by (simp_all add: chain_names_def b_def xs_def k_def Let_def)
  have kb: "k * b \<le> length xs" by (simp add: k_def)
  have lp: "length (ch_pending ch) = length xs mod b" by (simp add: inv(3) k_def minus_div_mult_eq_mod)
  have stream: "named_stream lane (ch_images ch) (ts @ [t]) = xs @ [v]" by (simp add: named_stream_snoc xs_def v_def)
  have next_index: "wadd 64 (length ts) 1 = length ts + 1" using assms(2) by (simp add: wadd_nowrap)
  have pend: "ch_pending ch @ [v] = drop (k * b) (xs @ [v])" using inv(3) kb by simp
  show ?thesis
  proof (cases "length (ch_pending ch @ [v]) = b")
    case True
    then have d: "length (xs @ [v]) div b = Suc k" using div_Suc_block [OF inv(1), of "length xs"] lp by (simp add: k_def)
    have blk: "block_at b (xs @ [v]) k = ch_pending ch @ [v]" unfolding block_at_def pend [symmetric] using True by simp
    have "length (xs @ [v]) = Suc k * b" using True kb inv(3) by simp
    then show ?thesis using True inv d blk stream next_index block_names_append [OF kb, of hash "[v]"]
      by (simp add: chain_names_def chain_push_def Let_def b_def [symmetric] v_def [symmetric])
  next
    case False
    then have d: "length (xs @ [v]) div b = k" using div_Suc_block [OF inv(1), of "length xs"] lp by (simp add: k_def)
    then show ?thesis using False inv stream next_index pend kb block_names_append [OF kb, of hash "[v]"]
      by (simp add: chain_names_def chain_push_def Let_def b_def [symmetric] v_def [symmetric])
  qed
qed

lemma chain_extend_names:
  "chain_names hash lane ch ts \<Longrightarrow> length ts + length us < 2 ^ 64 \<Longrightarrow>
   chain_names hash lane (chain_extend hash lane us ch) (ts @ us)"
proof (induction us arbitrary: ch ts)
  case (Cons u us)
  have "chain_names hash lane (chain_push hash lane u ch) (ts @ [u])"
    using Cons.prems by (intro chain_push_names) simp_all
  then show ?case using Cons.IH [of "chain_push hash lane u ch" "ts @ [u]"] Cons.prems(2)
    by (simp add: chain_extend_def)
qed (simp add: chain_extend_def)

lemma chain_push_fields: "ch_images (chain_push hash lane t ch) = ch_images ch"
  "ch_block_size (chain_push hash lane t ch) = ch_block_size ch"
  "ch_prompt_len (chain_push hash lane t ch) = ch_prompt_len ch"
  by (simp_all add: chain_push_def Let_def)

lemma chain_extend_fields: "ch_images (chain_extend hash lane us ch) = ch_images ch"
  "ch_block_size (chain_extend hash lane us ch) = ch_block_size ch"
  "ch_prompt_len (chain_extend hash lane us ch) = ch_prompt_len ch"
  by (induction us arbitrary: ch) (simp_all add: chain_extend_def chain_push_fields)

lemma chain_new_names:
  assumes "length prompt < 2 ^ 64"
  shows "chain_names hash lane (chain_new hash lane bs prompt images) prompt"
proof -
  have "chain_names hash lane \<lparr>ch_block_size = max bs 1, ch_hashes = [], ch_pending = [],
      ch_prompt_len = length prompt, ch_images = images, ch_next_index = 0\<rparr> []"
    by (simp add: chain_names_def named_stream_def)
  from chain_extend_names [OF this, of prompt] assms show ?thesis by (simp add: chain_new_def)
qed

lemma chain_new_fields: "ch_images (chain_new hash lane bs prompt images) = images"
  "ch_block_size (chain_new hash lane bs prompt images) = max bs 1"
  "ch_prompt_len (chain_new hash lane bs prompt images) = length prompt"
  by (simp_all add: chain_new_def chain_extend_fields)

lemma hashes_for_names:
  assumes "chain_names hash lane ch ts"
  shows "hashes_for ch pos =
     (if 0 < pos \<and> pos mod ch_block_size ch = 0 \<and> pos \<le> length ts
      then Some (block_names hash (ch_block_size ch) (named_stream lane (ch_images ch) ts) (pos div ch_block_size ch))
      else None)"
proof -
  define b where "b = ch_block_size ch"
  have b: "0 < b" and hs: "ch_hashes ch = block_names hash b (named_stream lane (ch_images ch) ts) (length ts div b)"
    using assms by (simp_all add: chain_names_def Let_def b_def)
  have fit: "pos div b \<le> length ts div b \<longleftrightarrow> pos \<le> length ts" if "pos mod b = 0"
  proof
    assume "pos div b \<le> length ts div b"
    then have "pos div b * b \<le> length ts" using b by (simp add: less_eq_div_iff_mult_less_eq)
    then show "pos \<le> length ts" using that mult_div_mod_eq [of b pos] by (simp add: mult.commute)
  qed (simp add: div_le_mono)
  show ?thesis using b fit
    by (auto simp: hashes_for_def Let_def is_multiple_of_def hs take_block_names b_def [symmetric])
qed

lemma chain_position_names:
  assumes "chain_names hash lane ch ts" and "length ts < 2 ^ 64"
  shows "chain_position ch = length ts"
proof -
  define b where "b = ch_block_size ch"
  have len: "length (ch_hashes ch) = length ts div b" "length (ch_pending ch) = length ts mod b"
    using assms(1) by (simp_all add: chain_names_def Let_def b_def minus_div_mult_eq_mod)
  have "length ts div b * b \<le> length ts" by simp
  then have "length ts div b * b < 2 ^ 64" using assms(2) by linarith
  then show ?thesis using len assms(2)
    by (simp add: chain_position_def b_def [symmetric] wmul_nowrap wadd_nowrap del: power_numeral)
qed

lemma generated_token_names:
  assumes "chain_names hash lane ch ts" and "length ts < 2 ^ 64" and "generated_token_at ch pos = Some v"
  shows "ch_prompt_len ch \<le> pos \<and> pos < length ts \<and> v = named_stream lane (ch_images ch) ts ! pos"
proof -
  define b where "b = ch_block_size ch"
  define xs where "xs = named_stream lane (ch_images ch) ts"
  have inv: "length (ch_hashes ch) = length ts div b" "ch_pending ch = drop (length ts div b * b) xs" "length xs = length ts"
    using assms(1) by (simp_all add: chain_names_def Let_def b_def xs_def)
  have le: "length ts div b * b \<le> length ts" by simp
  then have "length ts div b * b < 2 ^ 64" using assms(2) by linarith
  then have "wmul 64 (length (ch_hashes ch)) b = length ts div b * b"
    by (simp add: inv(1) wmul_nowrap del: power_numeral)
  then show ?thesis using assms(3) inv le
    by (auto simp: generated_token_at_def Let_def b_def [symmetric] xs_def [symmetric] split: if_splits)
qed

lemma block_names_agree:
  assumes "block_names hash b xs n = block_names hash b ys n" and "n * b \<le> length xs" and "n * b \<le> length ys"
  shows "take (n * b) xs = take (n * b) ys \<or>
    (\<exists>k < n. block_at b xs k \<noteq> block_at b ys k \<and>
       hash (chain_parent (block_names hash b xs k)) (block_at b xs k) =
       hash (chain_parent (block_names hash b xs k)) (block_at b ys k))"
  using assms
proof (induction n)
  case (Suc n)
  have eq: "block_names hash b xs n = block_names hash b ys n" and
      last_eq: "hash (chain_parent (block_names hash b xs n)) (block_at b xs n) =
        hash (chain_parent (block_names hash b xs n)) (block_at b ys n)"
    using Suc.prems(1) by (auto simp: Let_def)
  show ?case
  proof (cases "block_at b xs n = block_at b ys n")
    case True
    have "take (Suc n * b) zs = take (n * b) zs @ block_at b zs n" for zs :: "u32 list"
      by (simp add: block_at_def take_add add.commute [of b])
    moreover have "n * b \<le> length xs" "n * b \<le> length ys" using Suc.prems(2,3) by simp_all
    ultimately show ?thesis using Suc.IH [OF eq] True less_SucI by metis
  next
    case False
    then show ?thesis using last_eq by blast
  qed
qed simp

section \<open>Reclaiming\<close>

lemma reclaim_victim_Some:
  assumes "iteration_order iter" and "reclaim_victim iter worker entries = Some h"
  shows "\<exists>e. (h, e) \<in> set entries \<and> hd_worker e = worker \<and>
    (\<forall>(k, f) \<in> set entries. hd_worker f = worker \<longrightarrow> hd_last_used e \<le> hd_last_used f)"
proof -
  have "set (iter entries) = set entries" using assms(1) by (metis iteration_order_def set_mset_mset)
  then show ?thesis using assms(2) unfolding reclaim_victim_def by (fastforce dest: min_by_key_Some)
qed

lemma reclaim_victim_None:
  assumes "iteration_order iter" and "reclaim_victim iter worker entries = None"
  shows "\<forall>(k, f) \<in> set entries. hd_worker f \<noteq> worker"
proof -
  have "set (iter entries) = set entries" using assms(1) by (metis iteration_order_def set_mset_mset)
  then show ?thesis using assms(2) by (auto simp: reclaim_victim_def filter_empty_conv)
qed

definition reclaimed ::
  "worker_id \<Rightarrow> (block_hash \<times> 'v held) list \<Rightarrow> (block_hash \<times> 'v held) list \<Rightarrow> bool" where
  "reclaimed worker es es' \<longleftrightarrow> set es' \<subseteq> set es \<and> distinct (map fst es') \<and> length es' \<le> length es \<and>
     (\<forall>(k, e) \<in> set es - set es'. hd_worker e = worker \<and>
        (\<forall>(j, f) \<in> set es'. hd_worker f = worker \<longrightarrow> hd_last_used e \<le> hd_last_used f))"

lemma reclaimed_refl: "distinct (map fst es) \<Longrightarrow> reclaimed worker es es"
  by (simp add: reclaimed_def)

lemma length_delete_distinct:
  "distinct (map fst es) \<Longrightarrow> h \<in> fst ` set es \<Longrightarrow> length es = Suc (length (AList.delete h es))"
proof (induction es)
  case (Cons e es)
  show ?case
  proof (cases "fst e = h")
    case True
    then have "AList.delete h es = es" using Cons.prems(1) by (intro delete_id) auto
    then show ?thesis using True by (simp add: AList.delete_eq split_beta)
  next
    case False
    then show ?thesis using Cons by (auto simp: AList.delete_eq)
  qed
qed simp

lemma reclaimed_step:
  assumes "distinct (map fst es)" and "(h, e) \<in> set es" and "hd_worker e = worker"
    and least: "\<forall>(k, f) \<in> set es. hd_worker f = worker \<longrightarrow> hd_last_used e \<le> hd_last_used f"
    and step: "reclaimed worker (AList.delete h es) es'"
  shows "reclaimed worker es es'"
proof -
  have set_del: "set (AList.delete h es) = set es - {(h, e)}"
    using assms(1,2) by (auto simp: AList.delete_eq eq_key_imp_eq_value)
  have len: "length (AList.delete h es) \<le> length es" by (simp add: length_delete_le)
  have sub: "set es' \<subseteq> set es - {(h, e)}" and rest: "distinct (map fst es')" "length es' \<le> length (AList.delete h es)"
    using step set_del by (auto simp: reclaimed_def)
  have "hd_worker d = worker \<and> (\<forall>(j, f) \<in> set es'. hd_worker f = worker \<longrightarrow> hd_last_used d \<le> hd_last_used f)"
    if "(k, d) \<in> set es - set es'" for k d
  proof (cases "(k, d) = (h, e)")
    case True
    then show ?thesis using least sub assms(3) by fast
  next
    case False
    then have "(k, d) \<in> set (AList.delete h es) - set es'" using that set_del by blast
    then show ?thesis using step unfolding reclaimed_def by fast
  qed
  then show ?thesis using sub rest len unfolding reclaimed_def by fastforce
qed

lemma reclaim_loop_spec:
  "iteration_order iter \<Longrightarrow> distinct (map fst es) \<Longrightarrow>
   reclaim_loop iter worker reserve available call es = (ok, es') \<Longrightarrow>
    reclaimed worker es es' \<and>
    (\<forall>c < length es - length es'. available (call + c) < reserve) \<and>
    (if ok then reserve \<le> available (call + (length es - length es'))
     else \<forall>(k, f) \<in> set es'. hd_worker f \<noteq> worker)"
proof (induction iter worker reserve available call es rule: reclaim_loop.induct)
  case (1 iter worker reserve available call es)
  show ?case
  proof (cases "reserve \<le> available call")
    case True
    then show ?thesis using 1(3,4) by (simp add: reclaim_loop.simps reclaimed_refl)
  next
    case low: False
    show ?thesis
    proof (cases "reclaim_victim iter worker es")
      case None
      then have "ok = False" "es' = es" using low 1(4) by (simp_all add: reclaim_loop.simps)
      then show ?thesis using reclaim_victim_None [OF 1(2) None] 1(3) by (simp add: reclaimed_refl)
    next
      case (Some h)
      obtain e where e: "(h, e) \<in> set es" "hd_worker e = worker"
          "\<forall>(k, f) \<in> set es. hd_worker f = worker \<longrightarrow> hd_last_used e \<le> hd_last_used f"
        using reclaim_victim_Some [OF 1(2) Some] by blast
      have h: "h \<in> fst ` set es" using e(1) by force
      have loop: "reclaim_loop iter worker reserve available (Suc call) (AList.delete h es) = (ok, es')"
        using 1(4) low Some h by (subst (asm) reclaim_loop.simps) simp
      have IH: "reclaimed worker (AList.delete h es) es'"
          "\<forall>c < length (AList.delete h es) - length es'. available (Suc call + c) < reserve"
          "if ok then reserve \<le> available (Suc call + (length (AList.delete h es) - length es'))
           else \<forall>(k, f) \<in> set es'. hd_worker f \<noteq> worker"
        using 1(1) [OF low Some h 1(2) distinct_delete [OF 1(3)] loop] by blast+
      have len: "length es - length es' = Suc (length (AList.delete h es) - length es')"
        using length_delete_distinct [OF 1(3) h] IH(1) by (auto simp: reclaimed_def Suc_diff_le)
      have "available (call + c) < reserve" if "c < length es - length es'" for c
        using that IH(2) low len by (cases c) simp_all
      then show ?thesis using reclaimed_step [OF 1(3) e IH(1)] IH(3) len by (cases ok) simp_all
    qed
  qed
qed

section \<open>Properties\<close>

text \<open>A sequence's name does not depend on which of its tokens were prompt and which were generated: the
  chain built from the prompt and extended with the generated tokens names, for every position, exactly
  the complete blocks of the whole token stream (image slots replaced by their content digests), and
  nothing for a position inside a block or not reached; its position is the number of tokens, and a
  token it reports as generated is the one at that index.\<close>

theorem chain_names_whole_sequence:
  assumes "length prompt + length generated < 2 ^ 64"
  shows "let ch = chain_extend hash lane generated (chain_new hash lane bs prompt images); b = max bs 1;
             tokens = prompt @ generated; stream = named_stream lane images tokens
         in chain_position ch = length tokens \<and>
            (\<forall>pos. hashes_for ch pos = (if 0 < pos \<and> pos mod b = 0 \<and> pos \<le> length tokens
                                  then Some (block_names hash b stream (pos div b)) else None)) \<and>
            (\<forall>pos. hashes_for (chain_new hash lane bs tokens images) pos = hashes_for ch pos) \<and>
            (\<forall>pos v. generated_token_at ch pos = Some v \<longrightarrow> length prompt \<le> pos \<and> pos < length tokens \<and> v = stream ! pos)"
proof -
  define ch where "ch = chain_extend hash lane generated (chain_new hash lane bs prompt images)"
  have fields: "ch_images ch = images" "ch_block_size ch = max bs 1" "ch_prompt_len ch = length prompt"
    by (simp_all only: ch_def chain_extend_fields chain_new_fields)
  have names: "chain_names hash lane ch (prompt @ generated)"
    unfolding ch_def using assms by (intro chain_extend_names chain_new_names) simp_all
  have whole: "chain_names hash lane (chain_new hash lane bs (prompt @ generated) images) (prompt @ generated)"
    using assms by (intro chain_new_names) simp
  have "hashes_for (chain_new hash lane bs (prompt @ generated) images) pos = hashes_for ch pos" for pos
    by (simp only: hashes_for_names [OF whole] hashes_for_names [OF names] fields chain_new_fields)
  moreover have "length prompt \<le> pos \<and> pos < length (prompt @ generated) \<and>
      v = named_stream lane images (prompt @ generated) ! pos" if "generated_token_at ch pos = Some v" for pos v
    using generated_token_names [OF names _ that] assms unfolding fields by simp
  ultimately show ?thesis
    unfolding Let_def ch_def [symmetric] using chain_position_names [OF names] assms hashes_for_names [OF names]
    unfolding fields by simp
qed

theorem chain_names_whole_sequence_witness:
  "hashes_for (chain_extend (\<lambda>p ts. p + sum_list ts) (\<lambda>c i. c) [3, 4] (chain_new (\<lambda>p ts. p + sum_list ts) (\<lambda>c i. c) 2 [1, 2] [])) 4 =
   Some (block_names (\<lambda>p ts. p + sum_list ts) 2 (named_stream (\<lambda>c i. c) [] [1, 2, 3, 4]) 2)"
  using chain_names_whole_sequence [of "[1, 2]" "[3, 4]" "\<lambda>p ts. p + sum_list ts" "\<lambda>c i. c" 2 "[]"]
  by (simp add: Let_def max_def)



text \<open>Reclaiming yields only what it must and only its own worker's: it removes entries of that worker
  alone, least recently used first, one for each time the arena reported too little room; it stops at
  the first sufficient report, and gives up only when it holds nothing of that worker any more.\<close>

theorem reclaim_yields_least_recent:
  assumes "distinct (map fst (sh_entries s))" and "iteration_order iter"
    and "reclaim_for iter s worker reserve available = (ok, s')"
  shows "reclaimed worker (sh_entries s) (sh_entries s') \<and> sh_clock s' = sh_clock s \<and>
    (\<forall>c < shared_len s - shared_len s'. available c < reserve) \<and>
    (if ok then reserve \<le> available (shared_len s - shared_len s')
     else \<forall>(k, f) \<in> set (sh_entries s'). hd_worker f \<noteq> worker)"
proof -
  obtain es where loop: "reclaim_loop iter worker reserve available 0 (sh_entries s) = (ok, es)"
    and s': "s' = s\<lparr>sh_entries := es\<rparr>"
    using assms(3) by (auto simp: reclaim_for_def split: prod.splits)
  show ?thesis using reclaim_loop_spec [OF assms(2,1) loop] s' by (cases ok) (simp_all add: shared_len_def)
qed

theorem reclaim_yields_least_recent_witness:
  "\<exists>ok s'. reclaim_for id (shared_publish (shared_publish shared_new 1 0 (10 :: nat)) 2 0 20) 0 1 (\<lambda>n. n) = (ok, s') \<and>
     reclaimed 0 (sh_entries (shared_publish (shared_publish shared_new 1 0 10) 2 0 20)) (sh_entries s')"
proof -
  let ?s = "shared_publish (shared_publish shared_new 1 0 (10 :: nat)) 2 0 20"
  obtain ok s' where r: "reclaim_for id ?s 0 1 (\<lambda>n. n) = (ok, s')" by fastforce
  have "distinct (map fst (sh_entries ?s))" by (simp add: shared_publish_def shared_new_def Let_def)
  then show ?thesis using reclaim_yields_least_recent [OF _ _ r] r by (simp add: iteration_order_def)
qed

end
