(* ===== verification/Engine.thy ===== *)
theory Engine
  imports Worker Prefix
begin

text \<open>
  The engine (\<open>xabe-engine/src/engine.rs\<close>): several workers, one router, one shared prefix tree and one map of
  published snapshots. Every method runs its sections under the locks of the parts it touches; here a
  method is one atomic step, which is what the placement lock makes of routing and admission. The
  environment record holds what is not this program's code or not the host's: the block hash and the
  image digest, the iteration orders of the hash maps, the arena's readings and the device operations.
\<close>

section \<open>Data\<close>

datatype placement_error =
    RoutingErr routing_error
  | PlaceAdmission admission_error
  | PlacePanicked

datatype 'e engine_error =
    PlacementErr placement_error
  | WorkerErr worker_id "'e worker_error"
  | WorkerPanicked worker_id
  | SnapshotNotRetained nat nat
  | MissingWorker worker_id
  | EnginePanicked

record placement =
  pl_worker :: worker_id
  pl_request :: request_id
  pl_reusable_prefix_tokens :: u32
  pl_score :: f64

type_synonym request_key = "worker_id \<times> request_id"

record ('x, 'rt) engine =
  en_workers :: "('x, 'rt) worker list"
  en_tree :: radix_tree
  en_router :: router_config
  en_snapshots :: "sequence_snapshot shared_snapshots"
  en_chains :: "(request_key \<times> seq_chain) list"
  en_refs :: "(request_key \<times> block_hash list) list"
  en_max_prefix_nodes :: usize
  en_block_size :: u32
  en_slot_reserve :: usize

record ('x, 'rt, 'e) engine_env =
  env_hash :: "block_hash \<Rightarrow> u32 list \<Rightarrow> block_hash"
  env_lane :: "u64 \<Rightarrow> usize \<Rightarrow> u32"
  env_node_iter :: "(block_hash \<times> node) list \<Rightarrow> (block_hash \<times> node) list"
  env_held_iter :: "(block_hash \<times> sequence_snapshot held) list \<Rightarrow> (block_hash \<times> sequence_snapshot held) list"
  env_slots :: "'rt \<Rightarrow> nat \<Rightarrow> usize"
  env_ops :: "('x, 'rt, 'e) runtime_ops"

text \<open>\<open>Engine::new\<close>; \<open>None\<close> when a worker's page size divides by zero.\<close>

fun new_workers :: "worker_id \<Rightarrow> nat list \<Rightarrow> cache_config \<Rightarrow> sched_config \<Rightarrow> nat \<Rightarrow> nat \<Rightarrow> ('x, 'rt) worker list option" where
  "new_workers i [] cache sched blocks slots = Some []"
| "new_workers i (ordinal # ordinals) cache sched blocks slots =
     (case worker_new i ordinal cache sched blocks slots of
        None \<Rightarrow> None
      | Some w \<Rightarrow> map_option ((#) w) (new_workers (wadd 32 i 1) ordinals cache sched blocks slots))"

definition engine_new ::
  "nat list \<Rightarrow> cache_config \<Rightarrow> sched_config \<Rightarrow> nat \<Rightarrow> nat \<Rightarrow> router_config \<Rightarrow> ('x, 'rt) engine option" where
  "engine_new ordinals cache sched blocks slots router =
     map_option (\<lambda>ws. \<lparr>en_workers = ws, en_tree = radix_new (cc_attention_block_size cache), en_router = router,
         en_snapshots = shared_new, en_chains = [], en_refs = [], en_max_prefix_nodes = blocks,
         en_block_size = cc_attention_block_size cache, en_slot_reserve = slots\<rparr>)
       (new_workers 0 ordinals cache sched blocks slots)"

definition engine_worker :: "('x, 'rt) engine \<Rightarrow> worker_id \<Rightarrow> ('x, 'rt) worker option" where
  "engine_worker e i = (if i < length (en_workers e) then Some (en_workers e ! i) else None)"

definition set_worker :: "worker_id \<Rightarrow> ('x, 'rt) worker \<Rightarrow> ('x, 'rt) engine \<Rightarrow> ('x, 'rt) engine" where
  "set_worker i w e = e\<lparr>en_workers := (en_workers e)[i := w]\<rparr>"

text \<open>\<open>bind_devices\<close>: every worker binds, whatever the others do, and the first failing worker is the one
  reported. The devices are independent, so the threads are modelled one after the other.\<close>

fun bind_workers ::
  "(worker_id \<Rightarrow> self_spec_config option \<Rightarrow> nat \<Rightarrow> nat \<Rightarrow> (string \<times> nat) option \<Rightarrow> 'e runtime_error + 'rt) \<Rightarrow>
   speculation \<Rightarrow> string option \<Rightarrow> nat \<Rightarrow> ('x, 'rt) worker list \<Rightarrow>
   ((worker_id \<times> 'e runtime_error) + unit) \<times> ('x, 'rt) worker list" where
  "bind_workers spawn speculation dflash vocab [] = (Inr (), [])"
| "bind_workers spawn speculation dflash vocab (w # ws) =
     (let (res, w') = bind_device (spawn (wk_id w)) speculation dflash vocab w;
          (rest, ws') = bind_workers spawn speculation dflash vocab ws
      in (case res of Inl err \<Rightarrow> Inl (wk_id w, err) | Inr _ \<Rightarrow> rest, w' # ws'))"

definition bind_devices ::
  "(worker_id \<Rightarrow> self_spec_config option \<Rightarrow> nat \<Rightarrow> nat \<Rightarrow> (string \<times> nat) option \<Rightarrow> 'e runtime_error + 'rt) \<Rightarrow>
   speculation \<Rightarrow> string option \<Rightarrow> nat \<Rightarrow> ('x, 'rt) engine \<Rightarrow> ((worker_id \<times> 'e runtime_error) + unit) \<times> ('x, 'rt) engine" where
  "bind_devices spawn speculation dflash vocab e =
     (let (res, ws) = bind_workers spawn speculation dflash vocab (en_workers e) in (res, e\<lparr>en_workers := ws\<rparr>))"

section \<open>Placement\<close>

definition score_workers :: "('x, 'rt) engine \<Rightarrow> new_request \<Rightarrow> block_hash list \<Rightarrow> worker_load list" where
  "score_workers e req hashes =
     (let matched = match_prefix (en_tree e) hashes;
          usable = (case pm_gdn_snapshot_hash matched of
              Some h \<Rightarrow> if shared_contains (en_snapshots e) h then pm_gdn_matched_tokens matched else 0
            | None \<Rightarrow> 0)
      in map (\<lambda>w. load_for w usable req) (en_workers e))"

text \<open>The request with its output ceiling lowered, and what the ceiling was when it had to be.\<close>

definition cap_output_reservation :: "('x, 'rt) engine \<Rightarrow> new_request \<Rightarrow> nat option \<times> new_request" where
  "cap_output_reservation e req =
     (case en_workers e of
        [] \<Rightarrow> (None, req)
      | w # _ \<Rightarrow>
          (let ceiling = per_slot_token_ceiling (wk_scheduler w);
               floor_blocks = sc_block_size (sd_config (wk_scheduler w));
               headroom = max (ceiling - nr_prompt_tokens req) floor_blocks
           in if headroom < nr_max_output_tokens req
              then (Some (nr_max_output_tokens req), req\<lparr>nr_max_output_tokens := headroom\<rparr>)
              else (None, req)))"

definition routing_failure :: "('x, 'rt) engine \<Rightarrow> routing_error \<Rightarrow> new_request \<Rightarrow> placement_error" where
  "routing_failure e err req =
     (case (err, en_workers e) of
        (AllWorkersSaturated, w # _) \<Rightarrow>
          (case refusal_for (wk_scheduler w) req of Some r \<Rightarrow> PlaceAdmission r | None \<Rightarrow> RoutingErr err)
      | _ \<Rightarrow> RoutingErr err)"

definition step_budget :: "('x, 'rt) engine \<Rightarrow> nat" where
  "step_budget e = (case en_workers e of [] \<Rightarrow> 0 | w # _ \<Rightarrow> sc_token_budget (sd_config (wk_scheduler w)))"

definition place :: "('x, 'rt) engine \<Rightarrow> new_request \<Rightarrow> block_hash list \<Rightarrow> (placement_error + placement) \<times> ('x, 'rt) engine" where
  "place e req0 hashes =
     (let req = snd (cap_output_reservation e req0) in
      case route (en_router e) (score_workers e req hashes) (nr_prompt_tokens req) (step_budget e) of
        Inl err \<Rightarrow> (Inl (routing_failure e err req), e)
      | Inr r \<Rightarrow>
          (case engine_worker e (rt_worker r) of
             None \<Rightarrow> (Inl PlacePanicked, e)
           | Some w \<Rightarrow>
               (let (res, w') = worker_admit w req; e' = set_worker (rt_worker r) w' e in
                case res of
                  Inl err \<Rightarrow> (Inl (PlaceAdmission err), e')
                | Inr request \<Rightarrow> (Inr \<lparr>pl_worker = rt_worker r, pl_request = request,
                    pl_reusable_prefix_tokens = rt_matched_tokens r, pl_score = rt_score r\<rparr>, e'))))"

text \<open>The snapshot claimed for reuse: looked up under the match's snapshot name, and kept only when it
  leaves prompt to prefill or supplies the first token of a greedy request.\<close>

definition usable_snapshot :: "nat \<Rightarrow> bool \<Rightarrow> sequence_snapshot \<Rightarrow> bool" where
  "usable_snapshot prompt_len greedy sn = (sn_position sn < prompt_len \<or> greedy \<and> sn_next_token sn \<noteq> None)"

definition claim_snapshot ::
  "('x, 'rt) engine \<Rightarrow> block_hash list \<Rightarrow> nat \<Rightarrow> bool \<Rightarrow> sequence_snapshot option \<times> ('x, 'rt) engine" where
  "claim_snapshot e hashes prompt_len greedy =
     (case pm_gdn_snapshot_hash (match_prefix (en_tree e) hashes) of
        None \<Rightarrow> (None, e)
      | Some h \<Rightarrow>
          (let (taken, shared) = take_for_reuse (en_snapshots e) h in
           (case taken of
              Some sn \<Rightarrow> if usable_snapshot prompt_len greedy sn then Some sn else None
            | None \<Rightarrow> None,
            e\<lparr>en_snapshots := shared\<rparr>)))"

definition register_request ::
  "request_key \<Rightarrow> nat \<Rightarrow> seq_chain \<Rightarrow> ('x, 'rt) engine \<Rightarrow> ('x, 'rt) engine" where
  "register_request key referenced chain e =
     (let hashes = take referenced (ch_hashes chain);
          e1 = (if 0 < referenced
                then e\<lparr>en_tree := incr_ref_chain (en_tree e) hashes, en_refs := AList.update key hashes (en_refs e)\<rparr>
                else e)
      in e1\<lparr>en_chains := AList.update key chain (en_chains e1)\<rparr>)"

definition place_tokens ::
  "('x, 'rt, 'e) engine_env \<Rightarrow> ('x, 'rt) engine \<Rightarrow> new_request \<Rightarrow> token list \<Rightarrow> image_placement list \<Rightarrow> bool \<Rightarrow> 'x \<Rightarrow>
   ('e engine_error + placement) \<times> ('x, 'rt) engine" where
  "place_tokens env e req0 prompt placements greedy payload =
     (let req = snd (cap_output_reservation e req0);
          chain = chain_new (env_hash env) (env_lane env) (en_block_size e) prompt placements;
          (snapshot, e1) = claim_snapshot e (ch_hashes chain) (length prompt) greedy
      in case route (en_router e1) (score_workers e1 req (ch_hashes chain)) (nr_prompt_tokens req) (step_budget e) of
           Inl err \<Rightarrow> (Inl (PlacementErr (routing_failure e1 err req)), e1)
         | Inr r \<Rightarrow>
             (case engine_worker e1 (rt_worker r) of
                None \<Rightarrow> (Inl EnginePanicked, e1)
              | Some target \<Rightarrow>
                  (let (res, target') = (case snapshot of
                           Some sn \<Rightarrow> admit_tokens_restored target req prompt payload sn
                         | None \<Rightarrow> admit_tokens target req prompt payload);
                       e2 = set_worker (rt_worker r) target' e1
                   in case res of
                        Inl err \<Rightarrow> (Inl (WorkerErr (rt_worker r) err), e2)
                      | Inr request \<Rightarrow>
                          (let referenced = rt_matched_tokens r div en_block_size e2 in
                           if en_block_size e2 = 0 \<or> length (ch_hashes chain) < referenced then (Inl EnginePanicked, e2)
                           else (Inr \<lparr>pl_worker = rt_worker r, pl_request = request,
                                   pl_reusable_prefix_tokens = rt_matched_tokens r, pl_score = rt_score r\<rparr>,
                                 register_request (rt_worker r, request) referenced chain e2)))))"

section \<open>Cancellation\<close>

definition release_refs :: "request_key \<Rightarrow> ('x, 'rt) engine \<Rightarrow> ('x, 'rt) engine" where
  "release_refs key e =
     (let e1 = e\<lparr>en_chains := AList.delete key (en_chains e), en_refs := AList.delete key (en_refs e)\<rparr> in
      case map_of (en_refs e) key of
        Some hashes \<Rightarrow> e1\<lparr>en_tree := decr_ref_chain (en_tree e) hashes\<rparr>
      | None \<Rightarrow> e1)"

definition engine_cancel ::
  "('x, 'rt, 'e) engine_env \<Rightarrow> ('x, 'rt) engine \<Rightarrow> request_id \<Rightarrow> bool \<times> ('x, 'rt) engine" where
  "engine_cancel env e request =
     (case List.find (\<lambda>w. is_waiting (wk_scheduler w) request \<or> is_running (wk_scheduler w) request) (en_workers e) of
        None \<Rightarrow> (False, e)
      | Some found \<Rightarrow>
          (let i = wk_id found; e1 = release_refs (i, request) e in
           case engine_worker e1 i of
             None \<Rightarrow> (False, e1)
           | Some w \<Rightarrow> (let (cancelled, w') = worker_cancel (env_ops env) w request in (cancelled, set_worker i w' e1))))"

section \<open>Publishing snapshots\<close>

definition prefix_blocks :: "block_hash list \<Rightarrow> prefix_block list" where
  "prefix_blocks hashes = map (\<lambda>i. \<lparr>pb_hash = hashes ! i, pb_block = i mod 2 ^ 32,
     pb_gdn_snapshot = (if i + 1 = length hashes then Some 0 else None)\<rparr>) [0..<length hashes]"

text \<open>Room in the worker's arena: yields its entries until the reserve is free; a host-only worker has no
  arena.\<close>

definition make_room ::
  "('x, 'rt, 'e) engine_env \<Rightarrow> worker_id \<Rightarrow> 'rt option \<Rightarrow> ('x, 'rt) engine \<Rightarrow> bool \<times> ('x, 'rt) engine" where
  "make_room env i runtime e = (case runtime of
     None \<Rightarrow> (True, e)
   | Some rt \<Rightarrow> (let (ok, shared) = reclaim_for (env_held_iter env) (en_snapshots e) i (en_slot_reserve e) (env_slots env rt)
                in (ok, e\<lparr>en_snapshots := shared\<rparr>)))"

definition publish_snapshot ::
  "('x, 'rt, 'e) engine_env \<Rightarrow> worker_id \<Rightarrow> sequence_snapshot \<Rightarrow> block_hash list \<Rightarrow> ('x, 'rt) engine \<Rightarrow>
   ('e engine_error + bool) \<times> ('x, 'rt) engine" where
  "publish_snapshot env i sn hashes e =
     (if hashes = [] then (Inl EnginePanicked, e)
      else
        (let tree = radix_insert (en_tree e) (prefix_blocks hashes);
             shared = shared_publish (en_snapshots e) (last hashes) i sn;
             e1 = e\<lparr>en_tree := tree, en_snapshots := shared\<rparr>;
             excess = radix_len tree - en_max_prefix_nodes e
         in if excess = 0 then (Inr True, e1)
            else (case evict_unreferenced_entries (env_node_iter env) tree excess of
                    None \<Rightarrow> (Inl EnginePanicked, e1)
                  | Some (evicted, tree') \<Rightarrow>
                      (Inr True, e1\<lparr>en_tree := tree',
                         en_snapshots := fold (\<lambda>v s. shared_remove s (ev_hash v)) evicted shared\<rparr>))))"

definition chain_disagrees :: "seq_chain \<Rightarrow> sequence_snapshot \<Rightarrow> bool" where
  "chain_disagrees chain sn =
     (case (generated_token_at chain (sn_position sn), sn_next_token sn) of
        (Some followed, Some predicted) \<Rightarrow> followed \<noteq> as_u32 predicted
      | _ \<Rightarrow> False)"

definition install_snapshot ::
  "('x, 'rt, 'e) engine_env \<Rightarrow> worker_id \<Rightarrow> sequence_snapshot \<Rightarrow> seq_chain \<Rightarrow> ('x, 'rt) engine \<Rightarrow>
   ('e engine_error + bool) \<times> ('x, 'rt) engine" where
  "install_snapshot env i sn chain e =
     (case engine_worker e i of
        None \<Rightarrow> (Inl (MissingWorker i), e)
      | Some source \<Rightarrow>
          (let interval = cc_gdn_retention_interval (wk_cache source); pos = sn_position sn in
           if pos = 0 \<or> \<not> is_multiple_of (pos mod 2 ^ 32) interval then (Inl (SnapshotNotRetained pos interval), e)
           else (case hashes_for chain pos of
             None \<Rightarrow> (Inr False, e)
           | Some hashes \<Rightarrow>
               (if chain_disagrees chain sn then (Inr False, e)
                else (let (ok, e1) = make_room env i (wk_runtime source) e in
                  if ok then publish_snapshot env i sn hashes e1 else (Inr False, e1))))))"

section \<open>Steps\<close>

definition push_generated ::
  "('x, 'rt, 'e) engine_env \<Rightarrow> worker_id \<Rightarrow> request_id \<times> token \<Rightarrow> ('x, 'rt) engine \<Rightarrow> ('x, 'rt) engine" where
  "push_generated env i g e =
     e\<lparr>en_chains := AList.map_entry (i, fst g) (chain_push (env_hash env) (env_lane env) (snd g)) (en_chains e)\<rparr>"

fun install_retained ::
  "('x, 'rt, 'e) engine_env \<Rightarrow> worker_id \<Rightarrow> (request_id \<times> sequence_snapshot) list \<Rightarrow> ('x, 'rt) engine \<Rightarrow>
   'e engine_error option \<times> ('x, 'rt) engine" where
  "install_retained env i [] e = (None, e)"
| "install_retained env i ((request, sn) # rest) e =
     (case map_of (en_chains e) (i, request) of
        None \<Rightarrow> install_retained env i rest e
      | Some chain \<Rightarrow>
          (case install_snapshot env i sn chain e of
             (Inl err, e1) \<Rightarrow> (Some err, e1)
           | (Inr _, e1) \<Rightarrow> install_retained env i rest e1))"

definition apply_step ::
  "('x, 'rt, 'e) engine_env \<Rightarrow> worker_id \<Rightarrow> device_step \<Rightarrow> ('x, 'rt) engine \<Rightarrow>
   ('e engine_error + unit) \<times> ('x, 'rt) engine" where
  "apply_step env i st e =
     (let e1 = fold (push_generated env i) (ds_generated st) e in
      case install_retained env i (ds_retained st) e1 of
        (Some err, e2) \<Rightarrow> (Inl err, e2)
      | (None, e2) \<Rightarrow> (Inr (), fold (\<lambda>request. release_refs (i, request)) (ds_completed st) e2))"

text \<open>\<open>apply_step\<close> takes the retained snapshots out of the step it reports.\<close>

definition step_worker ::
  "('x, 'rt, 'e) engine_env \<Rightarrow> ('x, 'rt) engine \<Rightarrow> worker_id \<Rightarrow>
   ('e engine_error + device_step option) \<times> ('x, 'rt) engine" where
  "step_worker env e i =
     (case engine_worker e i of
        None \<Rightarrow> (Inl (MissingWorker i), e)
      | Some w \<Rightarrow>
          (if \<not> is_device_bound w then (Inr None, e)
           else (let (res, w') = step_device (env_ops env) w; e1 = set_worker i w' e in
             case res of
               Inl err \<Rightarrow> (Inl (WorkerErr i err), e1)
             | Inr st \<Rightarrow>
                 (let (applied, e2) = apply_step env i st e1 in
                  case applied of
                    Inl err \<Rightarrow> (Inl err, e2)
                  | Inr _ \<Rightarrow> (Inr (Some (st\<lparr>ds_retained := []\<rparr>)), e2)))))"

text \<open>\<open>step_devices\<close> joins one \<open>step_worker\<close> per worker; here they run in the order of the workers, and the
  first error in that order is the result.\<close>

fun step_all ::
  "('x, 'rt, 'e) engine_env \<Rightarrow> worker_id list \<Rightarrow> ('x, 'rt) engine \<Rightarrow>
   ('e engine_error + (worker_id \<times> device_step) list) \<times> ('x, 'rt) engine" where
  "step_all env [] e = (Inr [], e)"
| "step_all env (i # is) e =
     (let (res, e1) = step_worker env e i; (rest, e2) = step_all env is e1 in
      case res of
        Inl err \<Rightarrow> (Inl err, e2)
      | Inr None \<Rightarrow> (rest, e2)
      | Inr (Some st) \<Rightarrow> (map_sum id ((#) (i, st)) rest, e2))"

definition step_devices ::
  "('x, 'rt, 'e) engine_env \<Rightarrow> ('x, 'rt) engine \<Rightarrow> ('e engine_error + (worker_id \<times> device_step) list) \<times> ('x, 'rt) engine" where
  "step_devices env e = step_all env [0..<length (en_workers e)] e"

end
