(* ===== verification/RefLedger.thy ===== *)
theory RefLedger
  imports RadixTree
begin

text \<open>
  References into the shared tree. The engine keeps, per live request, the block names it holds a reference
  on. \<open>counted_index\<close> is the contract it relies on: counting up and down, publishing and evicting, seen
  through the reference counts alone. Inside it, the ledger lemmas: as long as every row's references are
  counted, every block of every row is cached. The tree of theory \<open>RadixTree\<close> keeps the contract.
\<close>

section \<open>The contract\<close>

locale counted_index =
  fixes inv :: "'t \<Rightarrow> bool"
    and refs :: "'t \<Rightarrow> 'h \<Rightarrow> nat"
    and cached :: "'t \<Rightarrow> 'h set"
    and incr :: "'t \<Rightarrow> 'h list \<Rightarrow> 't"
    and decr :: "'t \<Rightarrow> 'h list \<Rightarrow> 't"
    and ins :: "'t \<Rightarrow> 'b list \<Rightarrow> 't"
    and evict :: "'t \<Rightarrow> 't \<Rightarrow> bool"
    and limit :: nat
  assumes incr_inv: "inv t \<Longrightarrow> inv (incr t hs)"
    and incr_refs: "inv t \<Longrightarrow> set hs \<subseteq> cached t \<Longrightarrow> refs t h + length hs < limit \<Longrightarrow>
      refs (incr t hs) h = refs t h + count_list hs h"
    and decr_inv: "inv t \<Longrightarrow> inv (decr t hs)"
    and decr_refs: "inv t \<Longrightarrow> refs (decr t hs) h = refs t h - count_list hs h"
    and ins_inv: "inv t \<Longrightarrow> inv (ins t bs)"
    and ins_refs: "inv t \<Longrightarrow> refs (ins t bs) h = refs t h"
    and evict_inv: "inv t \<Longrightarrow> evict t t' \<Longrightarrow> inv t'"
    and evict_refs: "inv t \<Longrightarrow> evict t t' \<Longrightarrow> refs t' h = refs t h"
    and refs_cached: "0 < refs t h \<Longrightarrow> h \<in> cached t"
begin

definition total_refs :: "('k \<times> 'h list) list \<Rightarrow> 'h \<Rightarrow> nat" where
  "total_refs rows h = sum_list (map (\<lambda>row. count_list (snd row) h) rows)"

definition ledger :: "'t \<Rightarrow> ('k \<times> 'h list) list \<Rightarrow> bool" where
  "ledger t rows \<longleftrightarrow> inv t \<and> distinct (map fst rows) \<and> (\<forall>h. total_refs rows h \<le> refs t h)"

lemma total_update: "total_refs (AList.update k hs rows) h \<le> total_refs rows h + count_list hs h"
  by (induction rows) (auto simp: total_refs_def)

lemma total_delete:
  "distinct (map fst rows) \<Longrightarrow>
   total_refs (AList.delete k rows) h + (case map_of rows k of Some hs \<Rightarrow> count_list hs h | None \<Rightarrow> 0) = total_refs rows h"
proof (induction rows)
  case (Cons row rows)
  show ?case
  proof (cases "fst row = k")
    case True
    then have "AList.delete k rows = rows" using Cons.prems by (intro delete_id) auto
    then show ?thesis using True by (simp add: total_refs_def)
  next
    case False
    then show ?thesis using Cons by (simp add: total_refs_def)
  qed
qed (simp add: total_refs_def)

lemma ledger_empty: "inv t \<Longrightarrow> ledger t []"
  by (simp add: ledger_def total_refs_def)

lemma ledger_take:
  assumes "ledger t rows" and "set hs \<subseteq> cached t" and "\<forall>h. refs t h + length hs < limit"
  shows "ledger (incr t hs) (AList.update k hs rows)"
proof -
  have "total_refs (AList.update k hs rows) h \<le> refs (incr t hs) h" for h
  proof -
    have "total_refs rows h \<le> refs t h" "refs (incr t hs) h = refs t h + count_list hs h"
      using assms incr_refs [of t hs h] by (simp_all add: ledger_def)
    then show ?thesis using total_update [of k hs rows h] by linarith
  qed
  then show ?thesis using assms(1) by (simp add: ledger_def incr_inv distinct_update)
qed

lemma ledger_drop:
  assumes "ledger t rows" and "map_of rows k = Some hs"
  shows "ledger (decr t hs) (AList.delete k rows)"
proof -
  have "total_refs (AList.delete k rows) h \<le> refs (decr t hs) h" for h
  proof -
    have "total_refs (AList.delete k rows) h + count_list hs h = total_refs rows h"
      using total_delete [of rows k h] assms by (simp add: ledger_def)
    moreover have "total_refs rows h \<le> refs t h" "refs (decr t hs) h = refs t h - count_list hs h"
      using assms(1) decr_refs by (simp_all add: ledger_def)
    ultimately show ?thesis by linarith
  qed
  then show ?thesis using assms(1) by (simp add: ledger_def decr_inv distinct_delete)
qed

lemma ledger_drop_none: "ledger t rows \<Longrightarrow> map_of rows k = None \<Longrightarrow> ledger t (AList.delete k rows)"
  using total_delete [of rows k] by (fastforce simp: ledger_def distinct_delete)

lemma ledger_ins: "ledger t rows \<Longrightarrow> ledger (ins t bs) rows"
  by (simp add: ledger_def ins_inv ins_refs)

lemma ledger_evict: "ledger t rows \<Longrightarrow> evict t t' \<Longrightarrow> ledger t' rows"
  using evict_inv [of t t'] evict_refs [of t t'] by (simp add: ledger_def)

lemma ledger_holds:
  assumes "ledger t rows" and "(k, hs) \<in> set rows" and "h \<in> set hs"
  shows "0 < refs t h \<and> h \<in> cached t"
proof -
  have "0 < count_list hs h" using assms(3) by (simp add: count_list_0_iff flip: neq0_conv)
  moreover have "count_list hs h \<le> total_refs rows h"
    unfolding total_refs_def using sum_list_le_member [OF assms(2), of "\<lambda>row. count_list (snd row) h"] by simp
  ultimately have "0 < refs t h" using assms(1) by (simp add: ledger_def) (metis le_trans less_le_trans)
  then show ?thesis using refs_cached by blast
qed

end

section \<open>The tree keeps the contract\<close>

definition radix_evicts :: "radix_tree \<Rightarrow> radix_tree \<Rightarrow> bool" where
  "radix_evicts t t' \<longleftrightarrow> (\<exists>k hs. radix_evict_call t k hs t')"

lemma ref_count_modify:
  "ref_count (modify_node k f t) h = (if h = k then (case get_node t h of Some n \<Rightarrow> nd_ref_count (f n) | None \<Rightarrow> 0) else ref_count t h)"
  by (simp add: ref_count_def split: option.split)

lemma incr_ref_count:
  "set hs \<subseteq> radix_cached t \<Longrightarrow> ref_count t h + length hs < 2 ^ 32 \<Longrightarrow>
   ref_count (incr_ref_chain t hs) h = ref_count t h + count_list hs h"
proof (induction hs arbitrary: t)
  case (Cons k hs)
  let ?t = "modify_node k (\<lambda>n. n\<lparr>nd_ref_count := wadd 32 (nd_ref_count n) 1\<rparr>) t"
  obtain n where n: "get_node t k = Some n" using Cons.prems(1) by (auto simp: radix_cached_def radix_contains_def)
  have cached: "radix_cached ?t = radix_cached t" by (auto simp: radix_cached_def radix_contains_def)
  have step: "ref_count ?t h = ref_count t h + (if h = k then 1 else 0)"
    using Cons.prems(2) n by (auto simp: ref_count_modify ref_count_def wadd_nowrap)
  have "ref_count (incr_ref_chain ?t hs) h = ref_count ?t h + count_list hs h"
    using Cons.prems cached step by (intro Cons.IH) auto
  then show ?case using step by (simp add: incr_ref_chain_def)
qed (simp add: incr_ref_chain_def)

lemma decr_ref_count: "ref_count (decr_ref_chain t hs) h = ref_count t h - count_list hs h"
proof -
  have "ref_count (fold (\<lambda>k. modify_node k (decr_ref_node c)) hs t) h = ref_count t h - count_list hs h" for c t
  proof (induction hs arbitrary: t)
    case (Cons k hs)
    have "ref_count (modify_node k (decr_ref_node c) t) h = ref_count t h - (if h = k then 1 else 0)"
      by (auto simp: ref_count_modify ref_count_def decr_ref_node_def Let_def split: option.split)
    then show ?case using Cons.IH [of "modify_node k (decr_ref_node c) t"] by auto
  qed simp
  moreover have "ref_count (t\<lparr>rx_clock := c\<rparr>) h = ref_count t h" for c by (simp add: ref_count_def)
  ultimately show ?thesis by (simp add: decr_ref_chain_def Let_def)
qed

lemma insert_ref_count: "ref_count (radix_insert t pbs) h = ref_count t h"
proof -
  have vac: "ref_count (insert_vacant q te pb t) h = ref_count t h" for q te pb t
    using insert_vacant_existing [of t h _ q te pb] insert_vacant_other [of h pb t q te] insert_vacant_new [of t pb q te]
    by (cases "get_node t h"; cases "h = pb_hash pb") (fastforce simp: ref_count_def same_but_children_def new_node_def)+
  have "ref_count (insert_loop q ts pbs t) h = ref_count t h" for q ts
    by (induction q ts pbs t rule: insert_loop.induct) (simp_all add: Let_def vac)
  then show ?thesis by (simp add: radix_insert_def)
qed

lemma evicts_ref_count:
  assumes "evicts t es t'"
  shows "ref_count t' h = ref_count t h"
proof (cases "get_node t' h")
  case None
  have "ref_count t h = 0"
  proof (cases "get_node t h")
    case (Some n)
    then have "h \<in> ev_hash ` set es" using evicts_dom [OF assms, of h] None by auto
    then show ?thesis using evicts_entries [OF assms] Some by (fastforce simp: ref_count_def)
  qed (simp add: ref_count_def)
  then show ?thesis using None by (simp add: ref_count_def)
next
  case (Some n')
  then show ?thesis using evicts_result [OF assms Some] by (auto simp: ref_count_def same_but_children_def)
qed

interpretation rl: counted_index radix_wf ref_count radix_cached incr_ref_chain decr_ref_chain radix_insert radix_evicts "2 ^ 32"
proof unfold_locales
  fix t :: radix_tree and hs assume "radix_wf t"
  then show "radix_wf (incr_ref_chain t hs)" unfolding incr_ref_chain_def by (rule wf_fold_modify) simp_all
next
  fix t t' h assume "radix_wf t" "radix_evicts t t'"
  then show "radix_wf t'" "ref_count t' h = ref_count t h"
    using radix_evict_call_evicts evicts_wf evicts_ref_count unfolding radix_evicts_def by blast+
next
  fix t h assume "0 < ref_count t h"
  then show "h \<in> radix_cached t" by (auto simp: ref_count_def radix_cached_def radix_contains_def split: option.splits)
qed (auto simp: incr_ref_count decr_ref_count wf_decr_ref_chain wf_radix_insert insert_ref_count)

section \<open>Positions of nodes\<close>

text \<open>When names determine how many blocks precede them, a node's end position is the one its name says.\<close>

definition depth_nodes :: "(block_hash \<Rightarrow> nat) \<Rightarrow> nat \<Rightarrow> radix_tree \<Rightarrow> bool" where
  "depth_nodes depth bs t \<longleftrightarrow> rx_block_size t = bs \<and>
     (\<forall>h n. get_node t h = Some n \<longrightarrow> nd_token_end n = depth h * bs mod 2 ^ 32)"

lemma depth_modify:
  assumes "depth_nodes depth bs t" and "\<And>n. nd_token_end (f n) = nd_token_end n"
  shows "depth_nodes depth bs (fold (\<lambda>h. modify_node h f) hs t)"
  using assms(1)
proof (induction hs arbitrary: t)
  case (Cons h hs)
  have "depth_nodes depth bs (modify_node h f t)"
    using Cons.prems assms(2) by (auto simp: depth_nodes_def)
  with Cons.IH show ?case by simp
qed simp

lemma depth_incr: "depth_nodes depth bs t \<Longrightarrow> depth_nodes depth bs (incr_ref_chain t hs)"
  unfolding incr_ref_chain_def by (rule depth_modify) simp_all

lemma depth_decr: "depth_nodes depth bs t \<Longrightarrow> depth_nodes depth bs (decr_ref_chain t hs)"
  unfolding decr_ref_chain_def Let_def by (rule depth_modify) (simp_all add: depth_nodes_def)

lemma depth_evicts:
  assumes "evicts t es t'" and "depth_nodes depth bs t"
  shows "depth_nodes depth bs t'"
proof -
  have "rx_block_size t' = rx_block_size t"
    using assms(1) by (induction rule: evicts.induct) (simp_all add: unlink_node_def Let_def)
  then show ?thesis
    using assms(2) evicts_result [OF assms(1)] by (fastforce simp: depth_nodes_def same_but_children_def)
qed

lemma depth_insert_vacant:
  assumes "depth_nodes depth bs t" and "te = depth (pb_hash pb) * bs mod 2 ^ 32"
  shows "depth_nodes depth bs (insert_vacant q te pb t)"
proof -
  have "nd_token_end n = depth h * bs mod 2 ^ 32" if n: "get_node (insert_vacant q te pb t) h = Some n" for h n
  proof -
    consider (old) m where "get_node t h = Some m" "same_but_children m n"
      | (new) "h = pb_hash pb" "same_but_children (new_node q te pb) n"
      using n insert_vacant_existing [of t h _ q te pb] insert_vacant_new [of t pb q te]
        insert_vacant_other [of h pb t q te] by (cases "get_node t h") fastforce+
    then show ?thesis using assms by cases (auto simp: depth_nodes_def same_but_children_def new_node_def)
  qed
  then show ?thesis using assms(1) by (simp add: depth_nodes_def)
qed

lemma depth_insert:
  assumes "depth_nodes depth bs t" and "\<forall>j < length pbs. depth (pb_hash (pbs ! j)) = Suc j"
  shows "depth_nodes depth bs (radix_insert t pbs)"
proof -
  have "depth_nodes depth bs (insert_loop q ts pbs t)"
    if "depth_nodes depth bs t" "ts = i * bs mod 2 ^ 32" "\<forall>j < length pbs. depth (pb_hash (pbs ! j)) = Suc (i + j)" for q ts i
    using that
  proof (induction q ts pbs t arbitrary: i rule: insert_loop.induct)
    case (2 q ts pb pbs t)
    have bs: "rx_block_size t = bs" using 2(2) by (simp add: depth_nodes_def)
    have te: "wadd 32 ts bs = Suc i * bs mod 2 ^ 32"
      using 2(3) by (simp add: wadd_def mod_add_left_eq mod_add_right_eq add.commute)
    have "depth (pb_hash pb) = Suc i" using 2(4) by (auto dest: spec [of _ 0])
    then have "depth_nodes depth bs (insert_vacant q (wadd 32 ts bs) pb t)"
      using 2(2) te by (intro depth_insert_vacant) simp_all
    moreover have "\<forall>j < length pbs. depth (pb_hash (pbs ! j)) = Suc (Suc i + j)"
      using 2(4) [rule_format, of "Suc j" for j] by fastforce
    ultimately show ?case using 2(1) [of "wadd 32 ts bs" "Suc i"] bs te by (simp only: insert_loop.simps Let_def)
  qed simp
  from this [OF assms(1), of 0 0] show ?thesis using assms(2) by (simp add: radix_insert_def)
qed

end
