(* ===== verification/EngineInv.thy ===== *)
theory EngineInv
  imports Engine RefLedger
begin

text \<open>
  Runs of the engine, with two ghost records: the tokens each request was admitted with and generated
  since (\<open>T\<close>), and for every snapshot the device reported, the stream of values it is the state of (\<open>H\<close>).
  The first part shows that a snapshot handed to a new request is the state of exactly that request's own
  first tokens; the second that the blocks a live request references stay cached.
\<close>

section \<open>Runs\<close>

type_synonym token_log = "request_key \<Rightarrow> (image_placement list \<times> token list) option"
type_synonym state_log = "(sequence_snapshot \<times> u32 list) set"

definition log_token :: "worker_id \<Rightarrow> request_id \<times> token \<Rightarrow> token_log \<Rightarrow> token_log" where
  "log_token i g T = (case T (i, fst g) of
     None \<Rightarrow> T | Some (imgs, ts) \<Rightarrow> T((i, fst g) := Some (imgs, ts @ [snd g])))"

definition log_retained ::
  "(u64 \<Rightarrow> usize \<Rightarrow> u32) \<Rightarrow> worker_id \<Rightarrow> token_log \<Rightarrow> (request_id \<times> sequence_snapshot) list \<Rightarrow> state_log" where
  "log_retained lane i T retained =
     {(sn, take (sn_position sn) (named_stream lane imgs ts)) | sn imgs ts.
        \<exists>r. (r, sn) \<in> set retained \<and> T (i, r) = Some (imgs, ts)}"

definition log_fits :: "token_log \<Rightarrow> bool" where
  "log_fits T \<longleftrightarrow> (\<forall>k imgs ts. T k = Some (imgs, ts) \<longrightarrow> length ts < 2 ^ 32)"

text \<open>The engine's public operations in any order, with any answers of the devices. Sequences stay below
  \<open>2 ^ 32\<close> tokens and reference counts below \<open>2 ^ 32\<close>, where the code's counters would wrap.\<close>

inductive engine_run ::
  "('x, 'rt, 'e) engine_env \<Rightarrow> ('x, 'rt) engine \<Rightarrow> ('x, 'rt) engine \<Rightarrow> token_log \<Rightarrow> state_log \<Rightarrow> bool"
  for env :: "('x, 'rt, 'e) engine_env" and e0 :: "('x, 'rt) engine" where
  Start: "engine_run env e0 e0 (\<lambda>_. None) {}"
| Bind: "engine_run env e0 e T H \<Longrightarrow>
    bind_devices spawn speculation dflash vocab e = (r :: (worker_id \<times> 'e runtime_error) + unit, e') \<Longrightarrow>
    engine_run env e0 e' T H"
| Place: "engine_run env e0 e T H \<Longrightarrow> place e req hashes = (r, e') \<Longrightarrow> engine_run env e0 e' T H"
| PlaceTokens: "engine_run env e0 e T H \<Longrightarrow> length prompt < 2 ^ 32 \<Longrightarrow>
    \<forall>h. ref_count (en_tree e) h + length prompt < 2 ^ 32 \<Longrightarrow>
    place_tokens env e req prompt placements greedy payload = (Inr pl, e') \<Longrightarrow>
    engine_run env e0 e' (T((pl_worker pl, pl_request pl) := Some (placements, prompt))) H"
| Refused: "engine_run env e0 e T H \<Longrightarrow> length prompt < 2 ^ 32 \<Longrightarrow>
    place_tokens env e req prompt placements greedy payload = (Inl err, e') \<Longrightarrow> engine_run env e0 e' T H"
| Cancel: "engine_run env e0 e T H \<Longrightarrow> engine_cancel env e request = (b, e') \<Longrightarrow> engine_run env e0 e' T H"
| StepFails: "engine_run env e0 e T H \<Longrightarrow> engine_worker e i = Some w \<Longrightarrow> is_device_bound w \<Longrightarrow>
    step_device (env_ops env) w = (Inl err, w') \<Longrightarrow> engine_run env e0 (set_worker i w' e) T H"
| Step: "engine_run env e0 e T H \<Longrightarrow> engine_worker e i = Some w \<Longrightarrow> is_device_bound w \<Longrightarrow>
    step_device (env_ops env) w = (Inr st, w') \<Longrightarrow> T' = fold (log_token i) (ds_generated st) T \<Longrightarrow>
    log_fits T' \<Longrightarrow> apply_step env i st (set_worker i w' e) = (r, e') \<Longrightarrow>
    engine_run env e0 e' T' (H \<union> log_retained (env_lane env) i T' (ds_retained st))"

section \<open>Names and collisions\<close>

text \<open>A collision of the block hash on the blocks of two given streams: two blocks that differ in parent or
  content and get one name, or a block named like the root.\<close>

definition block_input :: "(block_hash \<Rightarrow> u32 list \<Rightarrow> block_hash) \<Rightarrow> nat \<Rightarrow> u32 list \<Rightarrow> nat \<Rightarrow> block_hash \<times> u32 list" where
  "block_input hash b xs i = (chain_parent (block_names hash b xs i), block_at b xs i)"

definition names_collide :: "(block_hash \<Rightarrow> u32 list \<Rightarrow> block_hash) \<Rightarrow> nat \<Rightarrow> u32 list \<Rightarrow> u32 list \<Rightarrow> bool" where
  "names_collide hash b xs ys \<longleftrightarrow>
     (\<exists>i < length xs div b. \<exists>j < length ys div b. block_input hash b xs i \<noteq> block_input hash b ys j \<and>
        case_prod hash (block_input hash b xs i) = case_prod hash (block_input hash b ys j)) \<or>
     (\<exists>i < length xs div b. case_prod hash (block_input hash b xs i) = root_hash) \<or>
     (\<exists>j < length ys div b. case_prod hash (block_input hash b ys j) = root_hash)"

lemma last_block_names: "last (block_names hash b xs (Suc k)) = case_prod hash (block_input hash b xs k)"
  by (simp add: Let_def block_input_def)

lemma chain_parent_names:
  "chain_parent (block_names hash b xs k) = (if k = 0 then root_hash else last (block_names hash b xs k))"
  by (cases k) (simp_all add: chain_parent_def Let_def)

lemma take_block_step: "take (Suc k * b) xs = take (k * b) xs @ block_at b xs k"
  by (simp add: block_at_def take_add add.commute [of b])

lemma last_names_agree:
  assumes "\<not> names_collide hash b xs ys" and "0 < b"
  shows "m < length xs div b \<Longrightarrow> k < length ys div b \<Longrightarrow>
    last (block_names hash b xs (Suc m)) = last (block_names hash b ys (Suc k)) \<Longrightarrow>
    m = k \<and> take (Suc m * b) xs = take (Suc m * b) ys"
proof (induction m arbitrary: k)
  case (0 k)
  then have same: "block_input hash b xs 0 = block_input hash b ys k"
    using assms(1) unfolding last_block_names names_collide_def by blast
  have "k = 0"
  proof (rule ccontr)
    assume "k \<noteq> 0"
    then obtain j where j: "k = Suc j" by (cases k) auto
    then have "root_hash = last (block_names hash b ys (Suc j))"
      using same by (simp add: block_input_def chain_parent_names del: block_names.simps)
    then show False using assms(1) 0(2) j unfolding last_block_names names_collide_def by (metis Suc_lessD)
  qed
  then show ?case using same by (simp add: block_input_def block_at_def)
next
  case (Suc m k)
  then have same: "block_input hash b xs (Suc m) = block_input hash b ys k"
    using assms(1) unfolding last_block_names names_collide_def by blast
  obtain j where j: "k = Suc j"
  proof (cases k)
    case 0
    then have "last (block_names hash b xs (Suc m)) = root_hash"
      using same by (simp add: block_input_def chain_parent_names del: block_names.simps)
    then have False using assms(1) Suc.prems(1) unfolding last_block_names names_collide_def by (metis Suc_lessD)
    then show ?thesis ..
  qed (use that in blast)
  have eq: "last (block_names hash b xs (Suc m)) = last (block_names hash b ys (Suc j))"
    using same j by (simp add: block_input_def chain_parent_names del: block_names.simps)
  have "m < length xs div b" "j < length ys div b" using Suc.prems(1,2) j by simp_all
  then have both: "m = j \<and> take (Suc m * b) xs = take (Suc m * b) ys" using eq by (rule Suc.IH)
  have mj: "m = j" using both by blast
  have pre: "take (Suc j * b) xs = take (Suc j * b) ys" using both unfolding mj by blast
  have "block_at b xs (Suc j) = block_at b ys (Suc j)" using same j mj by (simp add: block_input_def)
  then show ?case using j mj pre by (simp add: take_block_step [of "Suc j"] del: mult_Suc)
qed

lemma named_prefix:
  assumes "0 < b" and "h \<in> set (block_names hash b ys (length zs div b))" and "length xs = n" and "0 < n" and "n mod b = 0"
    and "h = last (block_names hash b xs (n div b))" and "length ys = length zs"
  shows "names_collide hash b xs ys \<or> xs = take n ys"
proof (cases "names_collide hash b xs ys")
  case False
  obtain k where k: "k < length ys div b" "h = block_names hash b ys (length ys div b) ! k"
    using assms(2,7) by (auto simp: in_set_conv_nth)
  have "h = last (take (Suc k) (block_names hash b ys (length ys div b)))" using k by (simp add: take_Suc_conv_app_nth)
  then have hk: "h = last (block_names hash b ys (Suc k))" using k(1) by (simp only: take_block_names Suc_leI)
  have nb: "n div b * b = n" using assms(5) by (simp add: mod_0_imp_dvd)
  then obtain m where m: "n div b = Suc m" using assms(4) by (cases "n div b") simp_all
  have "m = k \<and> take (Suc m * b) xs = take (Suc m * b) ys"
    by (rule last_names_agree [OF False assms(1)]) (use m k(1) hk assms(3,6) in \<open>simp_all del: block_names.simps\<close>)
  moreover have "Suc m * b = n" using m nb by (simp only:)
  ultimately have "take n xs = take n ys" by (simp only:)
  then show ?thesis using assms(3) by simp
qed simp

section \<open>Published snapshots are named by their states\<close>

definition entry_ok :: "(block_hash \<Rightarrow> u32 list \<Rightarrow> block_hash) \<Rightarrow> nat \<Rightarrow> state_log \<Rightarrow> block_hash \<Rightarrow> sequence_snapshot \<Rightarrow> bool" where
  "entry_ok hash b H h sn \<longleftrightarrow> (\<exists>xs. (sn, xs) \<in> H \<and> length xs = sn_position sn \<and> 0 < sn_position sn \<and>
     sn_position sn mod b = 0 \<and> h = last (block_names hash b xs (sn_position sn div b)))"

definition entries_ok ::
  "(block_hash \<Rightarrow> u32 list \<Rightarrow> block_hash) \<Rightarrow> nat \<Rightarrow> state_log \<Rightarrow> sequence_snapshot shared_snapshots \<Rightarrow> bool" where
  "entries_ok hash b H s \<longleftrightarrow> (\<forall>(h, d) \<in> set (sh_entries s). entry_ok hash b H h (hd_value d))"

definition chains_ok ::
  "(block_hash \<Rightarrow> u32 list \<Rightarrow> block_hash) \<Rightarrow> (u64 \<Rightarrow> usize \<Rightarrow> u32) \<Rightarrow> nat \<Rightarrow> token_log \<Rightarrow> (request_key \<times> seq_chain) list \<Rightarrow> bool" where
  "chains_ok hash lane b T cs \<longleftrightarrow> (\<forall>k ch. map_of cs k = Some ch \<longrightarrow>
     (\<exists>ts. T k = Some (ch_images ch, ts) \<and> chain_names hash lane ch ts \<and> ch_block_size ch = b))"

definition named_ok :: "('x, 'rt, 'e) engine_env \<Rightarrow> token_log \<Rightarrow> state_log \<Rightarrow> ('x, 'rt) engine \<Rightarrow> bool" where
  "named_ok env T H e \<longleftrightarrow> log_fits T \<and>
     chains_ok (env_hash env) (env_lane env) (max (en_block_size e) 1) T (en_chains e) \<and>
     entries_ok (env_hash env) (max (en_block_size e) 1) H (en_snapshots e)"

lemma entries_ok_subset: "entries_ok hash b H s \<Longrightarrow> set (sh_entries s') \<subseteq> set (sh_entries s) \<Longrightarrow> entries_ok hash b H s'"
  by (auto simp: entries_ok_def)

lemma entry_ok_mono: "entry_ok hash b H h sn \<Longrightarrow> H \<subseteq> H' \<Longrightarrow> entry_ok hash b H' h sn"
  by (auto simp: entry_ok_def)

lemma entries_ok_mono: "entries_ok hash b H s \<Longrightarrow> H \<subseteq> H' \<Longrightarrow> entries_ok hash b H' s"
  by (auto simp: entries_ok_def intro: entry_ok_mono)

lemma set_update_subset: "set (AList.update k v al) \<subseteq> insert (k, v) (set al)"
  by (induction al) auto

lemma entries_ok_publish:
  "entries_ok hash b H s \<Longrightarrow> entry_ok hash b H h sn \<Longrightarrow> entries_ok hash b H (shared_publish s h i sn)"
  using set_update_subset by (fastforce simp: entries_ok_def shared_publish_def Let_def)

lemma shared_remove_subset: "set (sh_entries (fold (\<lambda>v s. shared_remove s (ev_hash v)) vs s)) \<subseteq> set (sh_entries s)"
proof (induction vs arbitrary: s)
  case (Cons v vs)
  have "set (sh_entries (shared_remove s (ev_hash v))) \<subseteq> set (sh_entries s)"
    by (auto simp: shared_remove_def AList.delete_eq)
  then show ?case using Cons [of "shared_remove s (ev_hash v)"] by simp
qed simp

lemma reclaim_loop_subset: "set (snd (reclaim_loop iter worker reserve available call es)) \<subseteq> set es"
proof (induction iter worker reserve available call es rule: reclaim_loop.induct)
  case (1 iter worker reserve available call es)
  have del: "set (AList.delete h es) \<subseteq> set es" for h by (auto simp: AList.delete_eq)
  show ?case using 1 del
    by (subst reclaim_loop.simps) (auto split: option.split dest: subsetD)
qed

lemma reclaim_for_subset: "set (sh_entries (snd (reclaim_for iter s i reserve available))) \<subseteq> set (sh_entries s)"
  using reclaim_loop_subset [of iter i reserve available 0 "sh_entries s"]
  by (cases "reclaim_loop iter i reserve available 0 (sh_entries s)") (simp add: reclaim_for_def)

lemma take_for_reuse_ok:
  assumes "entries_ok hash b H s" and "take_for_reuse s h = (r, s')"
  shows "entries_ok hash b H s' \<and> (\<forall>sn. r = Some sn \<longrightarrow> entry_ok hash b H h sn)"
proof (cases "map_of (sh_entries s) h")
  case None
  then show ?thesis using assms by (auto simp: take_for_reuse_def Let_def entries_ok_def)
next
  case (Some d)
  then have d: "entry_ok hash b H h (hd_value d)" using assms(1) map_of_SomeD by (fastforce simp: entries_ok_def)
  have "r = Some (hd_value d)" "sh_entries s' = AList.update h (d\<lparr>hd_last_used := wadd 64 (sh_clock s) 1\<rparr>) (sh_entries s)"
    using assms(2) Some by (auto simp: take_for_reuse_def Let_def)
  then show ?thesis using d assms(1) set_update_subset [of h "d\<lparr>hd_last_used := wadd 64 (sh_clock s) 1\<rparr>" "sh_entries s"]
    unfolding entries_ok_def by fastforce
qed

text \<open>The name a match reports is one of the query's own.\<close>

lemma match_snapshot_own:
  assumes "pm_gdn_snapshot_hash (match_prefix t hs) = Some h"
  shows "h \<in> set (takeWhile (radix_contains t) hs) \<and> nd_gdn_snapshot (the (get_node t h)) \<noteq> None \<and>
    pm_gdn_matched_tokens (match_prefix t hs) = nd_token_end (the (get_node t h))"
proof -
  let ?ms = "takeWhile (radix_contains t) hs" and ?N = "\<lambda>h. the (get_node t h)"
  have m: "match_prefix t hs = fold (\<lambda>h. match_node h (?N h)) ?ms prefix_match_default"
    by (simp add: match_prefix_def match_loop_takeWhile)
  let ?ss = "filter (\<lambda>h. nd_gdn_snapshot (?N h) \<noteq> None) ?ms"
  have "?ss \<noteq> [] \<and> h = last ?ss"
    using assms match_fold_fields(6) [OF m] by (auto simp: prefix_match_default_def Let_def split: if_splits)
  moreover have "pm_gdn_matched_tokens (match_prefix t hs) = (if ?ss = [] then 0 else nd_token_end (?N (last ?ss)))"
    using match_fold_fields(4) [OF m] by (simp add: prefix_match_default_def Let_def)
  moreover have "last ?ss \<in> set ?ss" if "?ss \<noteq> []" using that by (rule last_in_set)
  ultimately show ?thesis by auto
qed

section \<open>Operations keep the names\<close>

lemma claim_snapshot_ok:
  assumes "entries_ok hash b H (en_snapshots e)" and "claim_snapshot e hashes n greedy = (r, e1)"
  shows "entries_ok hash b H (en_snapshots e1) \<and> e1 = e\<lparr>en_snapshots := en_snapshots e1\<rparr> \<and>
    (\<forall>sn. r = Some sn \<longrightarrow> usable_snapshot n greedy sn \<and> (\<exists>h \<in> set hashes. entry_ok hash b H h sn))"
proof (cases "pm_gdn_snapshot_hash (match_prefix (en_tree e) hashes)")
  case None
  then show ?thesis using assms by (simp add: claim_snapshot_def)
next
  case (Some h)
  obtain taken shared where t: "take_for_reuse (en_snapshots e) h = (taken, shared)" by fastforce
  have "h \<in> set hashes" using match_snapshot_own [OF Some] set_takeWhileD by fastforce
  then show ?thesis using assms Some t take_for_reuse_ok [OF assms(1) t]
    by (auto simp: claim_snapshot_def split: option.splits if_splits)
qed

lemma chains_okD: "chains_ok hash lane b T cs \<Longrightarrow> map_of cs k = Some ch \<Longrightarrow>
  \<exists>ts. T k = Some (ch_images ch, ts) \<and> chain_names hash lane ch ts \<and> ch_block_size ch = b"
  unfolding chains_ok_def by blast

lemma chains_ok_delete: "chains_ok hash lane b T cs \<Longrightarrow> chains_ok hash lane b T (AList.delete k cs)"
  by (auto simp: chains_ok_def map_of_delete_distinct split: if_splits)

lemma chains_ok_update:
  "chains_ok hash lane b T cs \<Longrightarrow> chain_names hash lane ch ts \<Longrightarrow> ch_block_size ch = b \<Longrightarrow>
   chains_ok hash lane b (T(k := Some (ch_images ch, ts))) (AList.update k ch cs)"
  by (auto simp: chains_ok_def update_conv')

lemma chains_ok_push:
  assumes "chains_ok hash lane b T cs" and "log_fits T"
  shows "chains_ok hash lane b (log_token i g T) (AList.map_entry (i, fst g) (chain_push hash lane (snd g)) cs)"
  unfolding chains_ok_def
proof (intro allI impI)
  fix k ch assume ch: "map_of (AList.map_entry (i, fst g) (chain_push hash lane (snd g)) cs) k = Some ch"
  show "\<exists>ts. log_token i g T k = Some (ch_images ch, ts) \<and> chain_names hash lane ch ts \<and> ch_block_size ch = b"
  proof (cases "k = (i, fst g)")
    case True
    then obtain c where c: "map_of cs k = Some c" "ch = chain_push hash lane (snd g) c"
      using ch by (auto simp: map_of_map_entry split: option.splits)
    then obtain ts where ts: "T k = Some (ch_images c, ts)" "chain_names hash lane c ts" "ch_block_size c = b"
      using chains_okD [OF assms(1)] by blast
    have "length ts < 2 ^ 32" using ts(1) assms(2) unfolding log_fits_def by blast
    then have "length ts < 2 ^ 64 - 1" by simp
    then show ?thesis using True ts c chain_push_names [OF ts(2)] by (auto simp: log_token_def chain_push_fields)
  next
    case False
    then have "map_of cs k = Some ch" using ch by (simp add: map_of_map_entry)
    moreover have "log_token i g T k = T k" using False by (auto simp: log_token_def split: option.split)
    ultimately show ?thesis using chains_okD [OF assms(1)] by simp
  qed
qed

lemma log_token_shorter: "log_fits (log_token i g T) \<Longrightarrow> log_fits T"
  unfolding log_fits_def
proof (intro allI impI)
  fix k imgs ts
  assume fit: "\<forall>k imgs ts. log_token i g T k = Some (imgs, ts) \<longrightarrow> length ts < 2 ^ 32" and t: "T k = Some (imgs, ts)"
  show "length ts < 2 ^ 32"
  proof (cases "k = (i, fst g)")
    case True
    then have "log_token i g T k = Some (imgs, ts @ [snd g])" using t by (simp add: log_token_def)
    then have "length (ts @ [snd g]) < 2 ^ 32" using fit by blast
    then show ?thesis by simp
  next
    case False
    then have "log_token i g T k = Some (imgs, ts)" using t by (simp add: log_token_def split: option.split)
    then show ?thesis using fit by blast
  qed
qed

lemma log_tokens_shorter: "log_fits (fold (log_token i) gs T) \<Longrightarrow> log_fits T"
  by (induction gs arbitrary: T) (auto dest: log_token_shorter)

lemma push_generated_fields:
  "en_snapshots (push_generated env i g e) = en_snapshots e" "en_block_size (push_generated env i g e) = en_block_size e"
  "en_tree (push_generated env i g e) = en_tree e" "en_refs (push_generated env i g e) = en_refs e"
  "en_workers (push_generated env i g e) = en_workers e"
  by (simp_all add: push_generated_def)

lemma push_all_ok:
  "named_ok env T H e \<Longrightarrow> log_fits (fold (log_token i) gs T) \<Longrightarrow>
   named_ok env (fold (log_token i) gs T) H (fold (push_generated env i) gs e)"
proof (induction gs arbitrary: T e)
  case (Cons g gs)
  have fit: "log_fits (log_token i g T)" using Cons.prems(2) log_tokens_shorter by simp
  then have "named_ok env (log_token i g T) H (push_generated env i g e)"
    using Cons.prems(1) chains_ok_push [of _ _ _ T] log_token_shorter [OF fit]
    by (simp add: named_ok_def push_generated_def)
  then show ?case using Cons.IH Cons.prems(2) by simp
qed simp

lemma make_room_ok:
  "entries_ok hash b H (en_snapshots e) \<Longrightarrow> make_room env i rt e = (ok, e1) \<Longrightarrow>
   entries_ok hash b H (en_snapshots e1) \<and> e1 = e\<lparr>en_snapshots := en_snapshots e1\<rparr>"
  using reclaim_for_subset [of "env_held_iter env" "en_snapshots e" i "en_slot_reserve e"] entries_ok_subset
  by (auto simp: make_room_def split: option.splits prod.splits) (metis snd_conv)

lemma publish_fields:
  assumes "publish_snapshot env i sn hashes e = (r, e1)"
  shows "en_chains e1 = en_chains e \<and> en_refs e1 = en_refs e \<and> en_block_size e1 = en_block_size e \<and>
    en_workers e1 = en_workers e"
  using assms by (auto simp: publish_snapshot_def Let_def split: if_splits option.splits prod.splits)

lemma publish_entries:
  assumes "entries_ok hash b H (en_snapshots e)" and "entry_ok hash b H (last hashes) sn"
    and "publish_snapshot env i sn hashes e = (r, e1)"
  shows "entries_ok hash b H (en_snapshots e1)"
proof -
  let ?pub = "shared_publish (en_snapshots e) (last hashes) i sn"
  have pub: "entries_ok hash b H ?pub" by (rule entries_ok_publish [OF assms(1,2)])
  then have removed: "entries_ok hash b H (fold (\<lambda>v s. shared_remove s (ev_hash v)) vs ?pub)" for vs
    by (rule entries_ok_subset [OF _ shared_remove_subset])
  show ?thesis using assms(1,3) pub removed
    by (auto simp: publish_snapshot_def Let_def split: if_splits option.splits prod.splits)
qed

lemma install_fields:
  assumes "install_snapshot env i sn chain e = (r, e1)"
  shows "en_chains e1 = en_chains e \<and> en_refs e1 = en_refs e \<and> en_block_size e1 = en_block_size e \<and>
    en_workers e1 = en_workers e"
proof -
  have room: "en_chains e' = en_chains e \<and> en_refs e' = en_refs e \<and> en_block_size e' = en_block_size e \<and>
      en_workers e' = en_workers e" if "make_room env i rt e = (ok, e')" for rt ok e'
    using that by (auto simp: make_room_def split: option.splits prod.splits)
  show ?thesis using assms
    by (auto simp: install_snapshot_def Let_def split: option.splits if_splits prod.splits dest!: room publish_fields)
qed

lemma install_entries:
  assumes "entries_ok hash b H (en_snapshots e)" and "chain_names hash lane chain ts" and "ch_block_size chain = b"
    and "(sn, take (sn_position sn) (named_stream lane (ch_images chain) ts)) \<in> H"
    and "install_snapshot env i sn chain e = (r, e1)"
  shows "entries_ok hash b H (en_snapshots e1)"
proof -
  let ?xs = "named_stream lane (ch_images chain) ts" and ?pos = "sn_position sn"
  have entry: "entry_ok hash b H (last hashes) sn" if h: "hashes_for chain ?pos = Some hashes" for hashes
  proof -
    have pos: "0 < ?pos" "?pos mod b = 0" "?pos \<le> length ts" "hashes = block_names hash b ?xs (?pos div b)"
      using h assms(3) by (auto simp: hashes_for_names [OF assms(2)] split: if_splits)
    then have "block_names hash b ?xs (?pos div b) = block_names hash b (take ?pos ?xs) (?pos div b)"
      using block_names_append [of "?pos div b" b "take ?pos ?xs" hash "drop ?pos ?xs"] by simp
    then show ?thesis unfolding entry_ok_def using pos assms(4) by (intro exI [of _ "take ?pos ?xs"]) simp
  qed
  show ?thesis using assms(1,5) entry
    by (auto simp: install_snapshot_def Let_def split: option.splits if_splits prod.splits
        dest!: make_room_ok [OF assms(1)] intro: publish_entries)
qed

lemma install_retained_ok:
  assumes "log_retained (env_lane env) i T retained \<subseteq> H"
  shows "named_ok env T H e \<Longrightarrow> install_retained env i retained e = (r, e') \<Longrightarrow> named_ok env T H e'"
  using assms
proof (induction env i retained e rule: install_retained.induct)
  case (2 env i request sn rest e)
  have sub: "log_retained (env_lane env) i T rest \<subseteq> H"
    using 2(5) by (fastforce simp: log_retained_def)
  show ?case
  proof (cases "map_of (en_chains e) (i, request)")
    case None
    then show ?thesis using 2(1) [OF None 2(3) _ sub] 2(4) by simp
  next
    case (Some chain)
    obtain q e1 where q: "install_snapshot env i sn chain e = (q, e1)" by fastforce
    obtain ts where ts: "T (i, request) = Some (ch_images chain, ts)" "chain_names (env_hash env) (env_lane env) chain ts"
        "ch_block_size chain = max (en_block_size e) 1"
      using 2(3) chains_okD [OF _ Some] unfolding named_ok_def by blast
    have "(sn, take (sn_position sn) (named_stream (env_lane env) (ch_images chain) ts)) \<in> H"
      using 2(5) ts(1) by (fastforce simp: log_retained_def)
    then have "named_ok env T H e1"
      using 2(3) install_entries [OF _ ts(2,3) _ q] install_fields [OF q] by (simp add: named_ok_def)
    then show ?thesis using 2(2) [OF Some q [symmetric]] 2(4) Some q sub by (cases q) auto
  qed
qed simp

lemma release_refs_fields: "en_snapshots (release_refs key e) = en_snapshots e"
  "en_block_size (release_refs key e) = en_block_size e" "en_workers (release_refs key e) = en_workers e"
  "en_chains (release_refs key e) = AList.delete key (en_chains e)"
  by (simp_all add: release_refs_def Let_def split: option.split)

lemma release_refs_named: "named_ok env T H e \<Longrightarrow> named_ok env T H (release_refs key e)"
  by (simp add: named_ok_def release_refs_fields chains_ok_delete)

lemma apply_step_ok:
  assumes "named_ok env T H e" and "T' = fold (log_token i) (ds_generated st) T" and "log_fits T'"
    and "apply_step env i st e = (r, e')"
  shows "named_ok env T' (H \<union> log_retained (env_lane env) i T' (ds_retained st)) e'"
proof -
  let ?H = "H \<union> log_retained (env_lane env) i T' (ds_retained st)"
  define e1 where "e1 = fold (push_generated env i) (ds_generated st) e"
  have "named_ok env T' H e1" using push_all_ok assms(1-3) by (simp add: e1_def)
  then have n1: "named_ok env T' ?H e1" using entries_ok_mono by (fastforce simp: named_ok_def)
  obtain q e2 where q: "install_retained env i (ds_retained st) e1 = (q, e2)" by fastforce
  have n2: "named_ok env T' ?H e2" using install_retained_ok [OF _ n1 q] by blast
  have "named_ok env T' ?H (fold (\<lambda>request. release_refs (i, request)) rs e3)" if "named_ok env T' ?H e3" for rs e3
    using that by (induction rs arbitrary: e3) (simp_all add: release_refs_named)
  then show ?thesis using assms(4) q n2 by (cases q) (auto simp: apply_step_def e1_def [symmetric])
qed

section \<open>Placement\<close>

lemma set_worker_fields: "en_snapshots (set_worker i w e) = en_snapshots e" "en_chains (set_worker i w e) = en_chains e"
  "en_block_size (set_worker i w e) = en_block_size e" "en_tree (set_worker i w e) = en_tree e"
  "en_refs (set_worker i w e) = en_refs e" "en_router (set_worker i w e) = en_router e"
  by (simp_all add: set_worker_def)

definition admit_placed ::
  "('x, 'rt) worker \<Rightarrow> new_request \<Rightarrow> token list \<Rightarrow> 'x \<Rightarrow> sequence_snapshot option \<Rightarrow> ('e worker_error + request_id) \<times> ('x, 'rt) worker" where
  "admit_placed target req prompt payload snapshot = (case snapshot of
     Some sn \<Rightarrow> admit_tokens_restored target req prompt payload sn
   | None \<Rightarrow> admit_tokens target req prompt payload)"

lemma admit_placed_eq: "admit_placed target req prompt payload snapshot = admit_pending target req prompt payload snapshot"
  by (cases snapshot) (simp_all add: admit_placed_def admit_tokens_def admit_tokens_restored_def)

text \<open>What an accepted and a refused placement did.\<close>

lemma place_tokens_Inr:
  fixes env :: "('x, 'rt, 'e) engine_env"
  assumes "place_tokens env e req0 prompt placements greedy payload = (Inr pl, e')"
  obtains req chain snapshot e1 r target target' where
    "req = snd (cap_output_reservation e req0)"
    "chain = chain_new (env_hash env) (env_lane env) (en_block_size e) prompt placements"
    "claim_snapshot e (ch_hashes chain) (length prompt) greedy = (snapshot, e1)"
    "route (en_router e1) (score_workers e1 req (ch_hashes chain)) (nr_prompt_tokens req) (step_budget e) = Inr r"
    "engine_worker e1 (rt_worker r) = Some target"
    "admit_pending target req prompt payload snapshot = (Inr (pl_request pl) :: 'e worker_error + request_id, target')"
    "pl_worker pl = rt_worker r" "pl_reusable_prefix_tokens pl = rt_matched_tokens r" "en_block_size e1 \<noteq> 0"
    "rt_matched_tokens r div en_block_size e1 \<le> length (ch_hashes chain)"
    "e' = register_request (pl_worker pl, pl_request pl) (rt_matched_tokens r div en_block_size e1) chain
       (set_worker (rt_worker r) target' e1)"
proof -
  define req where "req = snd (cap_output_reservation e req0)"
  define chain where "chain = chain_new (env_hash env) (env_lane env) (en_block_size e) prompt placements"
  obtain snapshot e1 where claim: "claim_snapshot e (ch_hashes chain) (length prompt) greedy = (snapshot, e1)" by fastforce
  note folds = req_def [symmetric] chain_def [symmetric]
  obtain r where r: "route (en_router e1) (score_workers e1 req (ch_hashes chain)) (nr_prompt_tokens req) (step_budget e) = Inr r"
    using assms by (auto simp: place_tokens_def Let_def folds claim split: sum.splits)
  obtain target where target: "engine_worker e1 (rt_worker r) = Some target"
    using assms by (auto simp: place_tokens_def Let_def folds claim r split: option.splits)
  obtain res target' where adm: "admit_pending target req prompt payload snapshot = (res :: 'e worker_error + request_id, target')" by fastforce
  have rest: "(case res of Inl err \<Rightarrow> (Inl (WorkerErr (rt_worker r) err), set_worker (rt_worker r) target' e1)
      | Inr request \<Rightarrow>
          (let referenced = rt_matched_tokens r div en_block_size e1 in
           if en_block_size e1 = 0 \<or> length (ch_hashes chain) < referenced
           then (Inl EnginePanicked, set_worker (rt_worker r) target' e1)
           else (Inr \<lparr>pl_worker = rt_worker r, pl_request = request, pl_reusable_prefix_tokens = rt_matched_tokens r,
                   pl_score = rt_score r\<rparr>,
                 register_request (rt_worker r, request) referenced chain (set_worker (rt_worker r) target' e1)))) = (Inr pl, e')"
    using assms adm [folded admit_placed_eq]
    by (cases res)
      (simp_all add: place_tokens_def Let_def folds claim r target admit_placed_def [symmetric] set_worker_fields)
  show thesis using rest that [OF req_def chain_def claim r target] adm
    by (cases res) (auto simp: Let_def not_less split: if_splits)
qed

lemma place_tokens_Inl:
  fixes env :: "('x, 'rt, 'e) engine_env"
  assumes "place_tokens env e req0 prompt placements greedy payload = (Inl err, e')"
  obtains chain snapshot e1 ws where
    "chain = chain_new (env_hash env) (env_lane env) (en_block_size e) prompt placements"
    "claim_snapshot e (ch_hashes chain) (length prompt) greedy = (snapshot, e1)" "e' = e1\<lparr>en_workers := ws\<rparr>"
proof -
  define req where "req = snd (cap_output_reservation e req0)"
  define chain where "chain = chain_new (env_hash env) (env_lane env) (en_block_size e) prompt placements"
  obtain snapshot e1 where claim: "claim_snapshot e (ch_hashes chain) (length prompt) greedy = (snapshot, e1)" by fastforce
  note folds = req_def [symmetric] chain_def [symmetric]
  have "\<exists>ws. e' = e1\<lparr>en_workers := ws\<rparr>"
  proof -
    have "e1 = e1\<lparr>en_workers := en_workers e1\<rparr>" by simp
    then have "e' = e1 \<or> (\<exists>i w. e' = set_worker i w e1)"
      using assms by (auto simp: place_tokens_def Let_def folds claim split: sum.splits option.splits prod.splits if_splits)
    then show ?thesis unfolding set_worker_def by (metis engine.surjective engine.update_convs(1))
  qed
  then show thesis using that [OF chain_def claim] by blast
qed

lemma register_fields: "en_snapshots (register_request k n chain e) = en_snapshots e"
  "en_chains (register_request k n chain e) = AList.update k chain (en_chains e)"
  "en_block_size (register_request k n chain e) = en_block_size e" "en_workers (register_request k n chain e) = en_workers e"
  by (simp_all add: register_request_def Let_def)

lemma log_fits_update: "log_fits T \<Longrightarrow> length ts < 2 ^ 32 \<Longrightarrow> log_fits (T(k := Some (imgs, ts)))"
  by (simp add: log_fits_def)

lemma place_tokens_named:
  assumes "named_ok env T H e" and "length prompt < 2 ^ 32"
    and "place_tokens env e req0 prompt placements greedy payload = (Inr pl, e')"
  shows "named_ok env (T((pl_worker pl, pl_request pl) := Some (placements, prompt))) H e'"
proof (rule place_tokens_Inr [OF assms(3)])
  fix req chain snapshot e1 r target target'
  assume chain: "chain = chain_new (env_hash env) (env_lane env) (en_block_size e) prompt placements"
    and claim: "claim_snapshot e (ch_hashes chain) (length prompt) greedy = (snapshot, e1)"
    and e': "e' = register_request (pl_worker pl, pl_request pl) (rt_matched_tokens r div en_block_size e1) chain
       (set_worker (rt_worker r) target' e1)"
  have names: "chain_names (env_hash env) (env_lane env) chain prompt"
    unfolding chain using assms(2) by (intro chain_new_names) simp
  have c: "entries_ok (env_hash env) (max (en_block_size e) 1) H (en_snapshots e1)" "e1 = e\<lparr>en_snapshots := en_snapshots e1\<rparr>"
    using claim_snapshot_ok [OF _ claim] assms(1) unfolding named_ok_def by blast+
  then obtain s where e1: "e1 = e\<lparr>en_snapshots := s\<rparr>" by blast
  have same: "en_chains e1 = en_chains e" "en_block_size e1 = en_block_size e" by (simp_all add: e1)
  have "chains_ok (env_hash env) (env_lane env) (max (en_block_size e) 1)
      (T((pl_worker pl, pl_request pl) := Some (ch_images chain, prompt))) (AList.update (pl_worker pl, pl_request pl) chain (en_chains e))"
    using assms(1) names by (intro chains_ok_update) (simp_all add: named_ok_def chain chain_new_fields)
  then show ?thesis using assms(1,2) c same log_fits_update
    by (simp add: named_ok_def e' register_fields set_worker_fields chain chain_new_fields)
qed

lemma named_ok_workers: "named_ok env T H (e\<lparr>en_workers := ws\<rparr>) \<longleftrightarrow> named_ok env T H e"
  by (simp add: named_ok_def)

lemma named_ok_set_worker: "named_ok env T H (set_worker i w e) \<longleftrightarrow> named_ok env T H e"
  by (simp add: set_worker_def named_ok_workers)

lemma engine_new_named: "engine_new ordinals cache sched blocks slots router = Some e \<Longrightarrow> named_ok env (\<lambda>_. None) {} e"
  by (auto simp: engine_new_def named_ok_def chains_ok_def entries_ok_def shared_new_def log_fits_def)

lemma place_workers:
  assumes "place e req hashes = (r, e')"
  obtains ws where "e' = e\<lparr>en_workers := ws\<rparr>"
proof -
  have "e' = e \<or> (\<exists>i w. e' = set_worker i w e)"
    using assms by (auto simp: place_def Let_def split: sum.splits option.splits prod.splits)
  then show thesis using that [of "en_workers e"] that unfolding set_worker_def by auto
qed

lemma engine_cancel_cases:
  assumes "engine_cancel env e request = (b, e')"
  obtains "e' = e" | i ws where "e' = (release_refs (i, request) e)\<lparr>en_workers := ws\<rparr>"
proof (cases "List.find (\<lambda>w. is_waiting (wk_scheduler w) request \<or> is_running (wk_scheduler w) request) (en_workers e)")
  case None
  then show thesis using assms that(1) by (simp add: engine_cancel_def)
next
  case (Some w)
  let ?e = "release_refs (wk_id w, request) e"
  have "e' = ?e \<or> (\<exists>w'. e' = set_worker (wk_id w) w' ?e)"
    using assms Some by (auto simp: engine_cancel_def Let_def split: option.splits prod.splits)
  then show thesis using that(2) [where i = "wk_id w" and ws = "en_workers ?e"] that(2) unfolding set_worker_def by auto
qed

lemma bind_devices_workers:
  assumes "bind_devices spawn speculation dflash vocab e = (r, e')"
  obtains ws where "e' = e\<lparr>en_workers := ws\<rparr>"
  using assms that by (auto simp: bind_devices_def split: prod.splits)

lemma engine_run_named: "engine_run env e0 e T H \<Longrightarrow> named_ok env (\<lambda>_. None) {} e0 \<Longrightarrow> named_ok env T H e"
proof (induction rule: engine_run.induct)
  case (Bind e T H spawn speculation dflash vocab r e')
  then show ?case using bind_devices_workers [OF Bind(2)] named_ok_workers by metis
next
  case (Place e T H req hashes r e')
  then show ?case using place_workers [OF Place(2)] named_ok_workers by metis
next
  case (PlaceTokens e T H prompt req placements greedy payload pl e')
  then have "named_ok env T H e" by blast
  then show ?case using PlaceTokens.hyps(2,4) by (rule place_tokens_named)
next
  case (Refused e T H prompt req placements greedy payload err e')
  have ok: "named_ok env T H e" using Refused by blast
  show ?case
  proof (rule place_tokens_Inl [OF Refused(3)])
    fix chain snapshot e1 ws
    assume claim: "claim_snapshot e (ch_hashes chain) (length prompt) greedy = (snapshot, e1)" and e': "e' = e1\<lparr>en_workers := ws\<rparr>"
    have c: "entries_ok (env_hash env) (max (en_block_size e) 1) H (en_snapshots e1)" "e1 = e\<lparr>en_snapshots := en_snapshots e1\<rparr>"
      using claim_snapshot_ok [OF _ claim] ok unfolding named_ok_def by blast+
    then obtain s where "e1 = e\<lparr>en_snapshots := s\<rparr>" by blast
    then show ?thesis using ok c(1) by (simp add: e' named_ok_def)
  qed
next
  case (Cancel e T H request b e')
  then show ?case by (metis engine_cancel_cases named_ok_workers release_refs_named)
next
  case (StepFails e T H i w err w')
  then show ?case by (simp add: named_ok_set_worker)
next
  case (Step e T H i w st w' T' r e')
  then show ?case using apply_step_ok [of env T H "set_worker i w' e"] by (simp add: named_ok_set_worker)
qed

lemma admit_pending_pending:
  "admit_pending w req prompt payload snapshot = (Inr i, w') \<Longrightarrow>
   (\<exists>p. wk_pending w' i = Some p \<and> pd_prompt p = prompt \<and> pd_snapshot p = snapshot) \<and>
   (\<forall>sn. snapshot = Some sn \<longrightarrow> sn_position sn \<le> length prompt)"
  by (auto simp: admit_pending_def validate_pending_def Let_def split: option.splits sum.splits prod.splits if_splits)

section \<open>References\<close>

definition length_determining :: "(block_hash \<Rightarrow> u32 list \<Rightarrow> block_hash) \<Rightarrow> (block_hash \<Rightarrow> nat) \<Rightarrow> bool" where
  "length_determining hash depth \<longleftrightarrow> depth root_hash = 0 \<and> (\<forall>p x. depth (hash p x) = Suc (depth p))"

definition tree_ok :: "(block_hash \<Rightarrow> nat) \<Rightarrow> ('x, 'rt) engine \<Rightarrow> bool" where
  "tree_ok depth e \<longleftrightarrow> rl.ledger (en_tree e) (en_refs e) \<and> depth_nodes depth (en_block_size e) (en_tree e)"

lemma depth_block_names:
  assumes "length_determining hash depth"
  shows "j < k \<Longrightarrow> depth (block_names hash b xs k ! j) = Suc j"
proof (induction k arbitrary: j)
  case (Suc k)
  have "depth (chain_parent (block_names hash b xs k)) = k"
  proof (cases k)
    case 0
    then show ?thesis using assms by (simp add: chain_parent_def length_determining_def)
  next
    case (Suc m)
    then have "chain_parent (block_names hash b xs k) = block_names hash b xs k ! m"
      using last_conv_nth [of "block_names hash b xs k"] length_block_names [of hash b xs k]
      by (auto simp: chain_parent_def)
    then show ?thesis using Suc.IH [of m] Suc by simp
  qed
  then show ?case using Suc assms by (cases "j = k") (simp_all add: Let_def nth_append length_determining_def)
qed simp

lemma fold_consider_from:
  "fold (consider_load cfg p t) loads best = Some r \<Longrightarrow>
   best = Some r \<or> (\<exists>l \<in> set loads. rt_matched_tokens r = wl_matched_tokens l \<and> rt_worker r = wl_id l)"
proof (induction loads arbitrary: best)
  case (Cons l loads)
  then have "consider_load cfg p t l best = Some r \<or>
      (\<exists>l \<in> set loads. rt_matched_tokens r = wl_matched_tokens l \<and> rt_worker r = wl_id l)" by simp
  moreover have "best = Some r \<or> rt_matched_tokens r = wl_matched_tokens l \<and> rt_worker r = wl_id l"
    if "consider_load cfg p t l best = Some r"
    using that by (auto simp: consider_load_def Let_def split: if_splits)
  ultimately show ?case by auto
qed simp

lemma route_from: "route cfg loads p t = Inr r \<Longrightarrow>
  \<exists>l \<in> set loads. rt_matched_tokens r = wl_matched_tokens l \<and> rt_worker r = wl_id l"
  using fold_consider_from [of cfg p t "filter wl_can_admit loads" None]
  by (auto simp: route_def split: if_splits option.splits)

text \<open>What a placement references is cached: the credited length never exceeds the matched blocks.\<close>

lemma credited_blocks_cached:
  assumes "length_determining hash depth" and "depth_nodes depth bs t" and "0 < bs"
    and "hs = block_names hash b xs n" and "pm_gdn_snapshot_hash (match_prefix t hs) = Some h"
  shows "set (take (pm_gdn_matched_tokens (match_prefix t hs) div bs) hs) \<subseteq> radix_cached t"
proof -
  let ?ms = "takeWhile (radix_contains t) hs"
  have h: "h \<in> set ?ms" "pm_gdn_matched_tokens (match_prefix t hs) = nd_token_end (the (get_node t h))"
    using match_snapshot_own [OF assms(5)] by blast+
  obtain k where k: "k < length ?ms" "h = ?ms ! k" using h(1) by (auto simp: in_set_conv_nth)
  then have hk: "h = hs ! k" "k < n" using takeWhile_nth [OF k(1)] length_takeWhile_le [of "radix_contains t" hs] assms(4)
    by auto
  obtain nd where "get_node t h = Some nd" using set_takeWhileD [OF h(1)] by (auto simp: radix_contains_def)
  then have "nd_token_end (the (get_node t h)) = Suc k * bs mod 2 ^ 32"
    using assms(2) depth_block_names [OF assms(1) hk(2)] hk(1) assms(4) by (simp add: depth_nodes_def)
  then have "pm_gdn_matched_tokens (match_prefix t hs) \<le> Suc k * bs" using h(2) by (simp del: mult_Suc)
  then have "pm_gdn_matched_tokens (match_prefix t hs) div bs \<le> Suc k" using assms(3) div_le_mono [of _ "Suc k * bs" bs] by fastforce
  then have le: "pm_gdn_matched_tokens (match_prefix t hs) div bs \<le> length ?ms" using k(1) by linarith
  have "take m hs = take m ?ms" if "m \<le> length ?ms" for m
    using that by (metis take_take min_absorb1 takeWhile_eq_take)
  then show ?thesis using le set_take_subset [of _ ?ms] set_takeWhileD by (fastforce simp: radix_cached_def)
qed

lemma release_refs_tree: "tree_ok depth e \<Longrightarrow> tree_ok depth (release_refs key e)"
  by (auto simp: tree_ok_def release_refs_def Let_def depth_decr split: option.split
      intro: rl.ledger_drop rl.ledger_drop_none)

lemma publish_tree:
  assumes "tree_ok depth e" and "iteration_order (env_node_iter env)" and "\<forall>j < length hashes. depth (hashes ! j) = Suc j"
    and "publish_snapshot env i sn hashes e = (r, e1)"
  shows "tree_ok depth e1"
proof (cases "hashes = []")
  case True
  then show ?thesis using assms by (simp add: publish_snapshot_def)
next
  case False
  let ?t = "radix_insert (en_tree e) (prefix_blocks hashes)"
  have ins: "rl.ledger ?t (en_refs e)" "depth_nodes depth (en_block_size e) ?t"
    using assms(1,3) by (auto simp: tree_ok_def prefix_blocks_def intro: rl.ledger_ins depth_insert)
  have ev: "rl.ledger t' (en_refs e) \<and> depth_nodes depth (en_block_size e) t'"
    if "evict_unreferenced_entries (env_node_iter env) ?t k = Some (es, t')" for k es t'
  proof -
    have call: "radix_evict_call ?t k (map ev_hash es) t'" using assms(2) that by (auto simp: radix_evict_call_def)
    have "radix_wf ?t" using ins(1) by (simp add: rl.ledger_def)
    then show ?thesis using radix_evict_call_evicts [OF _ call] call ins rl.ledger_evict [OF ins(1)] depth_evicts
      unfolding radix_evicts_def by blast
  qed
  show ?thesis using assms(4) False ins ev
    by (auto simp: publish_snapshot_def tree_ok_def Let_def split: if_splits option.splits prod.splits)
qed

lemma install_tree:
  assumes "tree_ok depth e" and "iteration_order (env_node_iter env)" and "length_determining (env_hash env) depth"
    and "chain_names (env_hash env) (env_lane env) chain ts" and "install_snapshot env i sn chain e = (r, e1)"
  shows "tree_ok depth e1"
proof -
  have room: "tree_ok depth e'" if "make_room env i rt e = (ok, e')" for rt ok e'
    using that assms(1) by (auto simp: make_room_def tree_ok_def split: option.splits prod.splits)
  have depth: "\<forall>j < length hashes. depth (hashes ! j) = Suc j" if "hashes_for chain (sn_position sn) = Some hashes" for hashes
    using that by (auto simp: hashes_for_names [OF assms(4)] depth_block_names [OF assms(3)] split: if_splits)
  show ?thesis using assms(1,5) depth
    by (auto simp: install_snapshot_def Let_def split: option.splits if_splits prod.splits
        intro: publish_tree [OF _ assms(2)] dest: room)
qed

lemma install_retained_tree:
  assumes "log_retained (env_lane env) i T retained \<subseteq> H" and "iteration_order (env_node_iter env)"
    and "length_determining (env_hash env) depth"
  shows "named_ok env T H e \<Longrightarrow> tree_ok depth e \<Longrightarrow> install_retained env i retained e = (r, e') \<Longrightarrow> tree_ok depth e'"
  using assms
proof (induction env i retained e rule: install_retained.induct)
  case (2 env i request sn rest e)
  have sub: "log_retained (env_lane env) i T rest \<subseteq> H" "log_retained (env_lane env) i T [(request, sn)] \<subseteq> H"
    using 2(6) by (fastforce simp: log_retained_def)+
  show ?case
  proof (cases "map_of (en_chains e) (i, request)")
    case None
    then show ?thesis using 2(1) [OF None 2(3,4) _ sub(1) 2(7,8)] 2(5) by simp
  next
    case (Some chain)
    obtain q e1 where q: "install_snapshot env i sn chain e = (q, e1)" by fastforce
    obtain ts where ts: "chain_names (env_hash env) (env_lane env) chain ts"
      using 2(3) chains_okD [OF _ Some] unfolding named_ok_def by blast
    have tree: "tree_ok depth e1" by (rule install_tree [OF 2(4) 2(7,8) ts q])
    have "install_retained env i [(request, sn)] e = (case q of Inl err \<Rightarrow> (Some err, e1) | Inr _ \<Rightarrow> (None, e1))"
      using Some q by (simp split: sum.split)
    then have "named_ok env T H e1"
      using install_retained_ok [OF sub(2) 2(3)] by (cases q) auto
    then show ?thesis using 2(2) [OF Some q [symmetric] _ _ tree] 2(5,7,8) Some q sub(1) tree by (cases q) auto
  qed
qed simp

lemma apply_step_tree:
  assumes "named_ok env T H e" and "tree_ok depth e" and "iteration_order (env_node_iter env)"
    and "length_determining (env_hash env) depth"
    and "T' = fold (log_token i) (ds_generated st) T" and "log_fits T'" and "apply_step env i st e = (r, e')"
  shows "tree_ok depth e'"
proof -
  let ?H = "H \<union> log_retained (env_lane env) i T' (ds_retained st)"
  define e1 where "e1 = fold (push_generated env i) (ds_generated st) e"
  have "named_ok env T' H e1" using push_all_ok assms(1,5,6) by (simp add: e1_def)
  then have n1: "named_ok env T' ?H e1" using entries_ok_mono by (fastforce simp: named_ok_def)
  have "tree_ok depth (fold (push_generated env i) gs e2)" if "tree_ok depth e2" for gs e2
    using that by (induction gs arbitrary: e2) (simp_all add: tree_ok_def push_generated_fields)
  then have t1: "tree_ok depth e1" using assms(2) by (simp add: e1_def)
  obtain q e2 where q: "install_retained env i (ds_retained st) e1 = (q, e2)" by fastforce
  have t2: "tree_ok depth e2" using install_retained_tree [OF _ assms(3,4) n1 t1 q] by blast
  have "tree_ok depth (fold (\<lambda>request. release_refs (i, request)) rs e3)" if "tree_ok depth e3" for rs e3
    using that by (induction rs arbitrary: e3) (simp_all add: release_refs_tree)
  then show ?thesis using assms(7) q t2 by (cases q) (auto simp: apply_step_def e1_def [symmetric])
qed

lemma place_tokens_tree:
  assumes "tree_ok depth e" and "length_determining (env_hash env) depth" and "length prompt < 2 ^ 32"
    and "\<forall>h. ref_count (en_tree e) h + length prompt < 2 ^ 32"
    and "place_tokens env e req prompt placements greedy payload = (Inr pl, e')"
  shows "tree_ok depth e'"
proof (rule place_tokens_Inr [OF assms(5)])
  fix q chain snapshot e1 r target target'
  assume chain: "chain = chain_new (env_hash env) (env_lane env) (en_block_size e) prompt placements"
    and claim: "claim_snapshot e (ch_hashes chain) (length prompt) greedy = (snapshot, e1)"
    and route: "route (en_router e1) (score_workers e1 q (ch_hashes chain)) (nr_prompt_tokens q) (step_budget e) = Inr r"
    and bs: "en_block_size e1 \<noteq> 0"
    and e': "e' = register_request (pl_worker pl, pl_request pl) (rt_matched_tokens r div en_block_size e1) chain
       (set_worker (rt_worker r) target' e1)"
  let ?hs = "take (rt_matched_tokens r div en_block_size e1) (ch_hashes chain)"
  have same: "en_tree e1 = en_tree e" "en_refs e1 = en_refs e" "en_block_size e1 = en_block_size e"
    using claim by (auto simp: claim_snapshot_def split: option.splits prod.splits)
  have names: "chain_names (env_hash env) (env_lane env) chain prompt"
    unfolding chain using assms(3) by (intro chain_new_names) simp
  then obtain b xs n where hs: "ch_hashes chain = block_names (env_hash env) b xs n" "n \<le> length prompt"
    unfolding chain_names_def Let_def by (metis div_le_dividend length_named_stream)
  have cached: "set ?hs \<subseteq> radix_cached (en_tree e)"
  proof -
    obtain l where "l \<in> set (score_workers e1 q (ch_hashes chain))" "rt_matched_tokens r = wl_matched_tokens l"
      using route_from [OF route] by blast
    then have "rt_matched_tokens r = 0 \<or> (\<exists>h. pm_gdn_snapshot_hash (match_prefix (en_tree e) (ch_hashes chain)) = Some h \<and>
        rt_matched_tokens r = pm_gdn_matched_tokens (match_prefix (en_tree e) (ch_hashes chain)))"
      by (auto simp: score_workers_def Let_def load_for_def same split: option.splits if_splits)
    moreover have "set (take (pm_gdn_matched_tokens (match_prefix (en_tree e) (ch_hashes chain)) div en_block_size e)
        (ch_hashes chain)) \<subseteq> radix_cached (en_tree e)"
      if "pm_gdn_snapshot_hash (match_prefix (en_tree e) (ch_hashes chain)) = Some h" for h
      using assms(1) bs same(3) by (intro credited_blocks_cached [OF assms(2) _ _ hs(1) that]) (simp_all add: tree_ok_def)
    ultimately show ?thesis unfolding same(3) by (elim disjE exE conjE) (simp_all only: div_0 take_0 set_simps empty_subsetI)
  qed
  have "\<forall>h. ref_count (en_tree e) h + length ?hs < 2 ^ 32"
  proof
    fix h
    have "length ?hs \<le> length prompt" using hs by simp
    then show "ref_count (en_tree e) h + length ?hs < 2 ^ 32" using assms(4) by (meson add_le_mono le_less_trans le_refl)
  qed
  then have "rl.ledger (incr_ref_chain (en_tree e) ?hs) (AList.update k ?hs (en_refs e))" for k
    using rl.ledger_take [OF _ cached, of "en_refs e" k] assms(1) unfolding tree_ok_def by blast
  then show ?thesis using assms(1)
    by (simp add: tree_ok_def e' register_request_def Let_def set_worker_fields same depth_incr)
qed

lemma engine_new_tree: "engine_new ordinals cache sched blocks slots router = Some e \<Longrightarrow> tree_ok depth e"
  by (auto simp: engine_new_def tree_ok_def depth_nodes_def radix_new_def rl.ledger_def rl.total_refs_def
      radix_wf_def links_ok_def links_def)

lemma tree_ok_workers: "tree_ok depth (e\<lparr>en_workers := ws\<rparr>) \<longleftrightarrow> tree_ok depth e"
  by (simp add: tree_ok_def)

lemma engine_run_tree:
  assumes "iteration_order (env_node_iter env)" and "length_determining (env_hash env) depth"
  shows "engine_run env e0 e T H \<Longrightarrow> named_ok env (\<lambda>_. None) {} e0 \<Longrightarrow> tree_ok depth e0 \<Longrightarrow> tree_ok depth e"
proof (induction rule: engine_run.induct)
  case (Bind e T H spawn speculation dflash vocab r e')
  then have "tree_ok depth e" by blast
  then show ?case using bind_devices_workers [OF Bind.hyps(2)] tree_ok_workers by metis
next
  case (Place e T H req hashes r e')
  then have "tree_ok depth e" by blast
  then show ?case using place_workers [OF Place.hyps(2)] tree_ok_workers by metis
next
  case (PlaceTokens e T H prompt req placements greedy payload pl e')
  then have "tree_ok depth e" by blast
  then show ?case using place_tokens_tree [OF _ assms(2) PlaceTokens.hyps(2,3,4)] by blast
next
  case (Refused e T H prompt req placements greedy payload err e')
  then have tree: "tree_ok depth e" by blast
  show ?case
  proof (rule place_tokens_Inl [OF Refused.hyps(3)])
    fix chain snapshot e1 ws
    assume "claim_snapshot e (ch_hashes chain) (length prompt) greedy = (snapshot, e1)" and "e' = e1\<lparr>en_workers := ws\<rparr>"
    then show ?thesis using tree by (auto simp: claim_snapshot_def tree_ok_def split: option.splits prod.splits)
  qed
next
  case (Cancel e T H request b e')
  then have tree: "tree_ok depth e" by blast
  show ?case
  proof (rule engine_cancel_cases [OF Cancel.hyps(2)])
    fix i ws assume "e' = (release_refs (i, request) e)\<lparr>en_workers := ws\<rparr>"
    then show ?thesis using release_refs_tree [OF tree] by (simp add: tree_ok_def)
  qed (use tree in simp)
next
  case (StepFails e T H i w err w')
  then show ?case by (simp add: tree_ok_def set_worker_fields)
next
  case (Step e T H i w st w' T' r e')
  have named: "named_ok env T H (set_worker i w' e)"
    using engine_run_named [OF Step.hyps(1) Step.prems(1)] by (simp add: named_ok_set_worker)
  have "tree_ok depth (set_worker i w' e)" using Step by (simp add: tree_ok_def set_worker_fields)
  then show ?case using apply_step_tree [OF named _ assms Step.hyps(5,6,7)] by blast
qed

end
