(* ===== verification/EngineSafety.thy ===== *)
theory EngineSafety
  imports EngineInv WorkerInv
begin

text \<open>
  What the engine promises its requests, with a concrete run for the witnesses: one worker of ten blocks on
  a device that reports a snapshot of request 7 after two tokens, which request 8 then resumes from.
\<close>

section \<open>An example run\<close>

definition demo_cache :: cache_config where
  "demo_cache = \<lparr>cc_model = qwen3_6_35b_a3b, cc_attention_block_size = 2, cc_gdn_retention_interval = 2, cc_elem_size = 2\<rparr>"

definition demo_sched :: sched_config where
  "demo_sched = \<lparr>sc_token_budget = 0, sc_block_size = 2, sc_max_concurrent_decodes = 1,
     sc_watermark_fraction = Finite 0, sc_draft_tokens_per_step = 0, sc_max_waiting_requests = 12, sc_prefill_slice = 0\<rparr>"

definition demo_snapshot :: sequence_snapshot where
  "demo_snapshot = \<lparr>sn_position = 2, sn_next_token = None\<rparr>"

definition demo_ops :: "(unit, unit, unit) runtime_ops" where
  "demo_ops = idle_device\<lparr>rt_execute := \<lambda>rt batch. (rt, Inr \<lparr>rs_scheduled = batch, rs_generated = [], rs_completed = [],
     rs_stopped = [], rs_retained = [(7, demo_snapshot)]\<rparr>)\<rparr>"

definition demo_env :: "(unit, unit, unit) engine_env" where
  "demo_env = \<lparr>env_hash = \<lambda>p ts. Suc p, env_lane = \<lambda>c i. c, env_node_iter = id, env_held_iter = id,
     env_slots = \<lambda>rt n. 9, env_ops = demo_ops\<rparr>"

definition demo_request :: "request_id \<Rightarrow> new_request" where
  "demo_request i = \<lparr>nr_id = i, nr_prompt_tokens = 3, nr_max_output_tokens = 1\<rparr>"

definition demo_worker :: "(request_id \<Rightarrow> unit pending_sequence option) \<Rightarrow> tracked_request list \<Rightarrow> (unit, unit) worker" where
  "demo_worker pending waiting = \<lparr>wk_id = 0, wk_device_ordinal = 0, wk_cache = demo_cache,
     wk_attention_pool = pool_new ''attention'' (the (attention_page_bytes demo_cache)) 10,
     wk_gdn_pool = pool_new ''gdn'' (the (gdn_page_bytes demo_cache)) 3,
     wk_scheduler = (sched_new demo_sched 10)\<lparr>sd_waiting := waiting\<rparr>, wk_runtime = Some (), wk_pending = pending,
     wk_reservations = [empty_reservation], wk_vocab = Some 100\<rparr>"

definition demo_e0 :: "(unit, unit) engine" where
  "demo_e0 = the (engine_new [0] demo_cache demo_sched 10 3 balanced)"

definition demo_e1 :: "(unit, unit) engine" where
  "demo_e1 = snd (bind_devices (\<lambda>i spec batch mtp dflash. Inr () :: unit runtime_error + unit) SpecNone None 100 demo_e0)"

lemma demo_pages: "attention_page_bytes demo_cache \<noteq> None" "gdn_page_bytes demo_cache \<noteq> None"
  by (simp_all add: attention_page_bytes_def gdn_page_bytes_def demo_cache_def kv_bytes_per_token_def
      gdn_state_bytes_per_sequence_def num_attention_layers_def num_gdn_layers_def checked_div_def qwen3_6_35b_a3b_def)

definition demo_engine :: "(unit, unit) worker \<Rightarrow> (unit, unit) engine" where
  "demo_engine w = \<lparr>en_workers = [w], en_tree = radix_new 2, en_router = balanced, en_snapshots = shared_new,
     en_chains = [], en_refs = [], en_max_prefix_nodes = 10, en_block_size = 2, en_slot_reserve = 3\<rparr>"

lemma demo_new: "engine_new [0] demo_cache demo_sched 10 3 balanced = Some demo_e0"
  and demo_e0_eq: "demo_e0 = demo_engine ((demo_worker Map.empty [])\<lparr>wk_runtime := None, wk_vocab := None\<rparr>)"
  using demo_pages by (auto simp: demo_e0_def engine_new_def worker_new_def demo_engine_def demo_worker_def demo_cache_def
      demo_sched_def sched_new_def)

lemma demo_e1_eq: "demo_e1 = demo_engine (demo_worker Map.empty [])"
  by (simp add: demo_e1_def bind_devices_def demo_e0_eq demo_engine_def bind_device_def spec_for_def Let_def demo_worker_def)

lemma route_single: "route cfg [l] p t = (if wl_can_admit l
  then Inr \<lparr>rt_worker = wl_id l, rt_score = score l cfg p t, rt_matched_tokens = wl_matched_tokens l\<rparr> else Inl AllWorkersSaturated)"
  by (simp add: route_def consider_load_def)

definition demo_pending :: "sequence_snapshot option \<Rightarrow> request_id \<Rightarrow> unit pending_sequence" where
  "demo_pending sn i = \<lparr>pd_request = demo_request i, pd_prompt = [1, 2, 3], pd_snapshot = sn, pd_payload = ()\<rparr>"

definition demo_tracked :: "nat \<Rightarrow> request_id \<Rightarrow> tracked_request" where
  "demo_tracked computed i = \<lparr>tr_id = i, tr_prompt_tokens = 3, tr_max_output_tokens = 1, tr_computed_tokens = computed,
     tr_blocks_reserved = 0\<rparr>"

definition demo_chain :: seq_chain where
  "demo_chain = \<lparr>ch_block_size = 2, ch_hashes = [Suc 0], ch_pending = [3], ch_prompt_len = 3, ch_images = [], ch_next_index = 3\<rparr>"

lemma demo_chain_eq: "chain_new (env_hash demo_env) (env_lane demo_env) 2 [1, 2, 3] [] = demo_chain"
  by (simp add: chain_new_def chain_extend_def chain_push_def Let_def demo_env_def demo_chain_def slot_value_def as_u32_def
      chain_parent_def root_hash_def wadd_def)

lemma demo_cap: "en_workers e = [demo_worker p ws] \<Longrightarrow> snd (cap_output_reservation e (demo_request i)) = demo_request i"
  by (simp add: cap_output_reservation_def demo_worker_def per_slot_token_ceiling_def sched_new_def demo_sched_def demo_request_def
     Let_def smul_def)

lemma demo_can_admit: "length ws < 2 \<Longrightarrow> can_admit (wk_scheduler (demo_worker p ws)) (demo_request i)"
  by (simp add: can_admit_def refusal_for_def Let_def demo_worker_def sched_new_def demo_sched_def demo_request_def
     new_full_seq_len_def sadd_def blocks_needed_def wadd_def div_ceil_def)

lemma demo_admit:
  assumes "\<forall>t \<in> set ws. tr_id t \<noteq> i" and "p i = None" and "length ws < 2"
    and "case sn of None \<Rightarrow> computed = 0 | Some s \<Rightarrow> sn_position s = 2 \<and> computed = 2"
  shows "admit_pending (demo_worker p ws) (demo_request i) [1, 2, 3] () sn =
    (Inr i :: unit worker_error + request_id, demo_worker (p(i := Some (demo_pending sn i))) (ws @ [demo_tracked computed i]))"
proof -
  have "admit_with_prefix (wk_scheduler (demo_worker p ws)) (demo_request i) computed =
      (Inr i, wk_scheduler (demo_worker p (ws @ [demo_tracked computed i])))"
    using assms(3,4) by (auto simp: admit_with_prefix_def demo_worker_def sched_new_def demo_sched_def demo_request_def
        new_full_seq_len_def sadd_def blocks_needed_def wadd_def div_ceil_def track_def demo_tracked_def Let_def split: option.splits)
  moreover have "validate_pending (demo_worker p ws) (demo_request i) [1, 2, 3] sn = (Inr () :: unit worker_error + unit)"
    using assms(1,2,4) by (auto simp: validate_pending_def demo_worker_def is_waiting_def is_running_def sched_new_def
        demo_request_def list_ex_iff Let_def split: option.splits)
  ultimately show ?thesis
    using assms(4) by (cases sn) (simp_all add: admit_pending_def admit_def demo_pending_def demo_worker_def)
qed

definition demo_placement :: "nat \<Rightarrow> request_id \<Rightarrow> f64 \<Rightarrow> placement" where
  "demo_placement reusable i sc = \<lparr>pl_worker = 0, pl_request = i, pl_reusable_prefix_tokens = reusable, pl_score = sc\<rparr>"

lemma demo_place:
  assumes e: "en_workers e = [demo_worker p ws]" "en_block_size e = 2"
    and claim: "claim_snapshot e [Suc 0] 3 True = (sn, e1)" and e1: "en_workers e1 = [demo_worker p ws]" "en_block_size e1 = 2"
    and loads: "score_workers e1 (demo_request i) [Suc 0] = [load_for (demo_worker p ws) u (demo_request i)]" and u: "u \<le> 2"
    and adm: "\<forall>t \<in> set ws. tr_id t \<noteq> i" "p i = None" "length ws < 2"
      "case sn of None \<Rightarrow> computed = 0 | Some s \<Rightarrow> sn_position s = 2 \<and> computed = 2"
  shows "\<exists>sc. place_tokens demo_env e (demo_request i) [1, 2, 3] [] True () = (Inr (demo_placement u i sc),
    register_request (0, i) (u div 2) demo_chain
      (set_worker 0 (demo_worker (p(i := Some (demo_pending sn i))) (ws @ [demo_tracked computed i])) e1))"
proof -
  have cap: "snd (cap_output_reservation e (demo_request i)) = demo_request i" by (rule demo_cap [OF e(1)])
  have claim': "claim_snapshot e [Suc 0] (Suc (Suc (Suc 0))) True = (sn, e1)" using claim by (simp only: numeral_3_eq_3)
  have hs: "ch_hashes demo_chain = [Suc 0]" by (simp add: demo_chain_def)
  have load: "wl_can_admit (load_for (demo_worker p ws) u (demo_request i))"
      "wl_id (load_for (demo_worker p ws) u (demo_request i)) = 0"
      "wl_matched_tokens (load_for (demo_worker p ws) u (demo_request i)) = u"
    using demo_can_admit [OF adm(3)] by (simp_all add: load_for_def) (simp add: demo_worker_def)
  have w: "engine_worker e1 0 = Some (demo_worker p ws)" by (simp add: engine_worker_def e1)
  have "u div 2 \<le> 1" using u by linarith
  then show ?thesis using demo_admit [where ws = ws and i = i and p = p and sn = sn and computed = computed] adm
    by (cases sn)
      (simp_all add: place_tokens_def cap e demo_chain_eq hs claim' loads route_single Let_def load w admit_tokens_def
        admit_tokens_restored_def set_worker_fields e1 demo_placement_def not_less)
qed

definition demo_w2 :: "(unit, unit) worker" where
  "demo_w2 = demo_worker [7 \<mapsto> demo_pending None 7] [demo_tracked 0 7]"

definition demo_e2 :: "(unit, unit) engine" where
  "demo_e2 = (demo_engine demo_w2)\<lparr>en_chains := [((0, 7), demo_chain)]\<rparr>"

lemma demo_place1: "\<exists>sc. place_tokens demo_env demo_e1 (demo_request 7) [1, 2, 3] [] True () = (Inr (demo_placement 0 7 sc), demo_e2)"
proof -
  have nomatch: "match_prefix (radix_new 2) [Suc 0] = prefix_match_default" "en_tree demo_e1 = radix_new 2"
    by (simp_all add: demo_e1_eq demo_engine_def match_prefix_def radix_new_def)
  have claim: "claim_snapshot demo_e1 [Suc 0] 3 True = (None, demo_e1)"
    by (simp add: claim_snapshot_def nomatch prefix_match_default_def)
  have "score_workers demo_e1 (demo_request 7) [Suc 0] = [load_for (demo_worker Map.empty []) 0 (demo_request 7)]"
    by (simp add: score_workers_def Let_def nomatch prefix_match_default_def) (simp add: demo_e1_eq demo_engine_def)
  from demo_place [OF _ _ claim _ _ this, of 0] show ?thesis
    by (simp add: register_request_def demo_e2_def demo_e1_eq demo_engine_def set_worker_def demo_w2_def)
qed

definition demo_step :: device_step where
  "demo_step = \<lparr>ds_decode_items = 0, ds_prefill_items = 0, ds_generated = [], ds_completed = [], ds_stopped = [],
     ds_retained = [(7, demo_snapshot)]\<rparr>"

lemma demo_step_eq: "step_device (env_ops demo_env) demo_w2 = (Inr demo_step, demo_w2)"
proof -
  have step: "step (wk_scheduler demo_w2) = (\<lparr>bd_decodes = [], bd_prefills = []\<rparr>, wk_scheduler demo_w2)"
    by (simp add: demo_w2_def demo_worker_def sched_new_def demo_sched_def step_def Let_def admit_phase.simps)
  have same: "wk_runtime demo_w2 = Some ()" "demo_w2\<lparr>wk_runtime := Some ()\<rparr> = demo_w2"
    by (simp_all add: demo_w2_def demo_worker_def)
  show ?thesis
    by (simp add: step_device_def step same demo_env_def demo_ops_def idle_device_def device_result_def
        apply_runtime_step_def demo_step_def)
qed

definition demo_e3 :: "(unit, unit) engine" where
  "demo_e3 = demo_e2\<lparr>en_tree := radix_insert (radix_new 2) [\<lparr>pb_hash = Suc 0, pb_block = 0, pb_gdn_snapshot = Some 0\<rparr>],
     en_snapshots := shared_publish shared_new (Suc 0) 0 demo_snapshot\<rparr>"

lemma demo_apply: "apply_step demo_env 0 demo_step (set_worker 0 demo_w2 demo_e2) = (Inr (), demo_e3)"
proof -
  have same: "set_worker 0 demo_w2 demo_e2 = demo_e2" by (simp add: set_worker_def demo_e2_def demo_engine_def)
  have w: "engine_worker demo_e2 0 = Some demo_w2" by (simp add: engine_worker_def demo_e2_def demo_engine_def)
  have cache: "wk_cache demo_w2 = demo_cache" "wk_runtime demo_w2 = Some ()" by (simp_all add: demo_w2_def demo_worker_def)
  have sn: "sn_position demo_snapshot = 2" "sn_next_token demo_snapshot = None" by (simp_all add: demo_snapshot_def)
  have agrees: "\<not> chain_disagrees demo_chain demo_snapshot" by (simp add: chain_disagrees_def sn split: option.split)
  have names: "hashes_for demo_chain 2 = Some [Suc 0]" by (simp add: hashes_for_def demo_chain_def is_multiple_of_def)
  have room: "make_room demo_env 0 (Some ()) demo_e2 = (True, demo_e2)"
    by (simp add: make_room_def reclaim_for_def reclaim_loop.simps demo_env_def demo_e2_def demo_engine_def shared_new_def)
  have tree: "en_tree demo_e2 = radix_new 2" "en_snapshots demo_e2 = shared_new" "en_max_prefix_nodes demo_e2 = 10"
    by (simp_all add: demo_e2_def demo_engine_def)
  have len: "radix_len (radix_insert (radix_new 2) [\<lparr>pb_hash = Suc 0, pb_block = 0, pb_gdn_snapshot = Some 0\<rparr>]) = 1"
    by (simp add: radix_len_def radix_insert_def radix_new_def insert_vacant_def root_hash_def)
  have pub: "publish_snapshot demo_env 0 demo_snapshot [Suc 0] demo_e2 = (Inr True, demo_e3)"
    by (simp add: publish_snapshot_def prefix_blocks_def Let_def tree len demo_e3_def)
  have "install_snapshot demo_env 0 demo_snapshot demo_chain demo_e2 = (Inr True, demo_e3)"
    by (simp add: install_snapshot_def w cache(2) Let_def sn agrees names room pub) (simp add: cache demo_cache_def is_multiple_of_def)
  then show ?thesis
    by (simp add: apply_step_def same demo_step_def) (simp add: demo_e2_def)
qed

definition demo_e4 :: "(unit, unit) engine" where
  "demo_e4 = register_request (0, 8) 1 demo_chain (set_worker 0
     (demo_worker [7 \<mapsto> demo_pending None 7, 8 \<mapsto> demo_pending (Some demo_snapshot) 8] [demo_tracked 0 7, demo_tracked 2 8])
     (demo_e3\<lparr>en_snapshots := snd (take_for_reuse (en_snapshots demo_e3) (Suc 0))\<rparr>))"

lemma demo_match: "pm_gdn_snapshot_hash (match_prefix (en_tree demo_e3) [Suc 0]) = Some (Suc 0)"
  "pm_gdn_matched_tokens (match_prefix (en_tree demo_e3) [Suc 0]) = 2"
  by (simp_all add: demo_e3_def match_prefix_def radix_insert_def radix_new_def insert_vacant_def root_hash_def new_node_def
      match_node_def wadd_def prefix_match_default_def)

lemma demo_take: "fst (take_for_reuse (en_snapshots demo_e3) (Suc 0)) = Some demo_snapshot"
  "shared_contains (snd (take_for_reuse (en_snapshots demo_e3) (Suc 0))) (Suc 0)"
  by (simp_all add: demo_e3_def take_for_reuse_def shared_publish_def shared_new_def shared_contains_def Let_def)

lemma demo_place2: "\<exists>sc. place_tokens demo_env demo_e3 (demo_request 8) [1, 2, 3] [] True () = (Inr (demo_placement 2 8 sc), demo_e4)"
proof -
  let ?e = "demo_e3\<lparr>en_snapshots := snd (take_for_reuse (en_snapshots demo_e3) (Suc 0))\<rparr>"
  have ws: "en_workers demo_e3 = [demo_w2]" "en_block_size demo_e3 = 2" by (simp_all add: demo_e3_def demo_e2_def demo_engine_def)
  note take = demo_take and match = demo_match
  have claim: "claim_snapshot demo_e3 [Suc 0] 3 True = (Some demo_snapshot, ?e)"
    using take(1) by (cases "take_for_reuse (en_snapshots demo_e3) (Suc 0)")
      (simp add: claim_snapshot_def match usable_snapshot_def demo_snapshot_def)
  have loads: "score_workers ?e (demo_request 8) [Suc 0] = [load_for demo_w2 2 (demo_request 8)]"
    by (simp add: score_workers_def match Let_def take(2) ws)
  show ?thesis
    using demo_place [OF _ _ claim _ _ loads [unfolded demo_w2_def], of 2] ws
    by (simp add: demo_w2_def demo_tracked_def [of 0] demo_snapshot_def demo_e4_def)
qed

definition demo_log :: token_log where
  "demo_log = (\<lambda>_. None)((0, 7) := Some ([], [1, 2, 3]))"

lemma demo_run: "engine_run demo_env demo_e0 demo_e3 demo_log {(demo_snapshot, [1, 2])}"
proof -
  obtain sc where p1: "place_tokens demo_env demo_e1 (demo_request 7) [1, 2, 3] [] True () = (Inr (demo_placement 0 7 sc), demo_e2)"
    using demo_place1 by blast
  have r1: "engine_run demo_env demo_e0 demo_e1 (\<lambda>_. None) {}"
    unfolding demo_e1_def by (rule engine_run.Bind [OF engine_run.Start]) (rule prod.collapse [symmetric])
  have refs: "\<forall>h. ref_count (en_tree demo_e1) h + length [1 :: token, 2, 3] < 2 ^ 32"
    by (simp add: demo_e1_eq demo_engine_def radix_new_def ref_count_def)
  have r2: "engine_run demo_env demo_e0 demo_e2 demo_log {}"
    using engine_run.PlaceTokens [OF r1 _ refs p1] by (simp add: demo_placement_def demo_log_def)
  have w: "engine_worker demo_e2 0 = Some demo_w2" "is_device_bound demo_w2"
    by (simp_all add: engine_worker_def demo_e2_def demo_engine_def is_device_bound_def demo_w2_def demo_worker_def)
  have "named_stream (env_lane demo_env) [] [1, 2, 3] = [1, 2, 3]"
    by (simp add: named_stream_def slot_value_def as_u32_def)
  then have "log_retained (env_lane demo_env) 0 demo_log (ds_retained demo_step) = {(demo_snapshot, [1, 2])}"
    by (auto simp: log_retained_def demo_step_def demo_log_def demo_snapshot_def)
  then show ?thesis
    using engine_run.Step [OF r2 w demo_step_eq refl _ demo_apply] by (simp add: demo_step_def demo_log_def log_fits_def)
qed

section \<open>Properties\<close>

text \<open>C1: A request never resumes from another prompt: whatever the engine did before, the snapshot handed to
  an accepted request is a state the device computed for exactly that request's own first tokens, image
  content included. The only alternative is a collision of the 64-bit block hash between the blocks of
  this prompt and of the sequence the snapshot came from.\<close>

theorem resumed_prefix_is_own:
  fixes env :: "('x, 'rt, 'e) engine_env"
  assumes "engine_new ordinals cache sched blocks slots router = Some e0" and "engine_run env e0 e T H"
    and "length prompt < 2 ^ 32" and "place_tokens env e req prompt placements greedy payload = (Inr pl, e')"
    and "engine_worker e' (pl_worker pl) = Some w" and "wk_pending w (pl_request pl) = Some p"
    and "pd_snapshot p = Some sn"
  shows "pd_prompt p = prompt \<and> sn_position sn \<le> length prompt \<and>
    (\<exists>xs. (sn, xs) \<in> H \<and> (xs = take (sn_position sn) (named_stream (env_lane env) placements prompt) \<or>
       names_collide (env_hash env) (max (en_block_size e) 1) xs (named_stream (env_lane env) placements prompt)))"
proof (rule place_tokens_Inr [OF assms(4)])
  fix q chain snapshot e1 r target target'
  assume chain: "chain = chain_new (env_hash env) (env_lane env) (en_block_size e) prompt placements"
    and claim: "claim_snapshot e (ch_hashes chain) (length prompt) greedy = (snapshot, e1)"
    and target: "engine_worker e1 (rt_worker r) = Some target"
    and adm: "admit_pending target q prompt payload snapshot = (Inr (pl_request pl) :: 'e worker_error + request_id, target')"
    and wk: "pl_worker pl = rt_worker r"
    and e': "e' = register_request (pl_worker pl, pl_request pl) (rt_matched_tokens r div en_block_size e1) chain
       (set_worker (rt_worker r) target' e1)"
  let ?b = "max (en_block_size e) 1" and ?ys = "named_stream (env_lane env) placements prompt"
  have "named_ok env T H e" using engine_run_named [OF assms(2)] engine_new_named [OF assms(1)] by blast
  then have c: "\<forall>sn. snapshot = Some sn \<longrightarrow> (\<exists>h \<in> set (ch_hashes chain). entry_ok (env_hash env) ?b H h sn)"
    using claim_snapshot_ok [OF _ claim] unfolding named_ok_def by blast
  have "w = target'" using assms(5) target wk
    by (auto simp: e' engine_worker_def register_fields set_worker_def split: if_splits)
  then have p: "pd_prompt p = prompt" "snapshot = Some sn"
    using admit_pending_pending [OF adm] assms(6,7) by simp_all
  have names: "chain_names (env_hash env) (env_lane env) chain prompt"
    unfolding chain using assms(3) by (intro chain_new_names) simp
  have fields: "ch_images chain = placements" "ch_block_size chain = ?b" by (simp_all only: chain chain_new_fields)
  have hs: "ch_hashes chain = block_names (env_hash env) ?b ?ys (length prompt div ?b)"
    using names unfolding chain_names_def Let_def fields length_named_stream by blast
  obtain h where h: "h \<in> set (ch_hashes chain)" "entry_ok (env_hash env) ?b H h sn" using c p(2) by blast
  obtain xs where xs: "(sn, xs) \<in> H" "length xs = sn_position sn" "0 < sn_position sn"
      "sn_position sn mod ?b = 0" "h = last (block_names (env_hash env) ?b xs (sn_position sn div ?b))"
    using h(2) unfolding entry_ok_def by (elim exE conjE) (rule that)
  have "names_collide (env_hash env) ?b xs ?ys \<or> xs = take (sn_position sn) ?ys"
    by (rule named_prefix [OF _ h(1) [unfolded hs] xs(2-5)]) simp_all
  then show ?thesis using p xs(1) admit_pending_pending [OF adm] by blast
qed

theorem resumed_prefix_is_own_witness:
  "\<exists>xs. (demo_snapshot, xs) \<in> {(demo_snapshot, [1, 2])} \<and> (xs = take 2 (named_stream (\<lambda>c i. c) [] [1, 2, 3]) \<or>
     names_collide (\<lambda>p ts. Suc p) 2 xs (named_stream (\<lambda>c i. c) [] [1, 2, 3]))"
proof -
  obtain sc where place: "place_tokens demo_env demo_e3 (demo_request 8) [1, 2, 3] [] True () = (Inr (demo_placement 2 8 sc), demo_e4)"
    using demo_place2 by blast
  let ?w = "demo_worker [7 \<mapsto> demo_pending None 7, 8 \<mapsto> demo_pending (Some demo_snapshot) 8] [demo_tracked 0 7, demo_tracked 2 8]"
  have w: "engine_worker demo_e4 (pl_worker (demo_placement 2 8 sc)) = Some ?w"
    by (simp add: demo_e4_def engine_worker_def register_fields set_worker_def demo_placement_def demo_e3_def demo_e2_def demo_engine_def)
  have p: "wk_pending ?w (pl_request (demo_placement 2 8 sc)) = Some (demo_pending (Some demo_snapshot) 8)"
    by (simp add: demo_worker_def demo_placement_def)
  have sn: "pd_snapshot (demo_pending (Some demo_snapshot) 8) = Some demo_snapshot" by (simp add: demo_pending_def)
  have "en_block_size demo_e3 = 2" "sn_position demo_snapshot = 2"
    by (simp_all add: demo_e3_def demo_e2_def demo_engine_def demo_snapshot_def)
  then show ?thesis
    using resumed_prefix_is_own [OF demo_new demo_run _ place w p sn] by (simp add: demo_env_def max_def)
qed



section \<open>Where the code falls short of its documentation\<close>

text \<open>A snapshot published for a prefix that is already in the tree as an interior node without one is never
  found: insertion leaves existing nodes untouched, so no lookup reports its name, while the snapshot
  keeps its arena slots.\<close>

lemma late_snapshot_is_unreachable:
  assumes "get_node t h = Some n" and "nd_gdn_snapshot n = None"
  shows "pm_gdn_snapshot_hash (match_prefix (radix_insert t pbs) hs) \<noteq> Some h"
proof
  assume found: "pm_gdn_snapshot_hash (match_prefix (radix_insert t pbs) hs) = Some h"
  obtain n' where n': "get_node (radix_insert t pbs) h = Some n'" "same_but_children n n'"
    using insert_loop_existing [OF assms(1)] unfolding radix_insert_def by blast
  then show False using match_snapshot_own [OF found] assms(2) by (simp add: same_but_children_def)
qed

text \<open>A request that samples and whose whole prompt the snapshot covers prefills everything, yet its placement
  still reports the snapshot's tokens as reusable.\<close>

lemma unused_snapshot_is_credited:
  "fst (claim_snapshot demo_e3 [Suc 0] 2 False) = None \<and>
   score_workers (snd (claim_snapshot demo_e3 [Suc 0] 2 False)) (demo_request 8) [Suc 0] =
     [load_for demo_w2 2 (demo_request 8)]"
proof -
  note take = demo_take and match = demo_match
  have ws: "en_workers demo_e3 = [demo_w2]" by (simp add: demo_e3_def demo_e2_def demo_engine_def)
  obtain taken shared where t: "take_for_reuse (en_snapshots demo_e3) (Suc 0) = (taken, shared)" by fastforce
  show ?thesis using take t
    by (simp add: claim_snapshot_def match usable_snapshot_def score_workers_def Let_def ws) (simp add: demo_snapshot_def)
qed

text \<open>When one of a step's snapshots is refused with an error, the step's completed requests keep their rows:
  their references are not released.\<close>

lemma failed_step_keeps_references:
  assumes "install_retained env i (ds_retained st) (fold (push_generated env i) (ds_generated st) e) = (Some err, e2)"
  shows "apply_step env i st e = (Inl err, e2) \<and> en_refs e2 = en_refs e"
proof -
  have push: "en_refs (fold (push_generated env i) gs e1) = en_refs e1" for gs e1
    by (induction gs arbitrary: e1) (simp_all add: push_generated_fields)
  have "en_refs e' = en_refs e1" if "install_retained env i rs e1 = (r, e')" for rs e1 r e'
    using that
  proof (induction env i rs e1 rule: install_retained.induct)
    case (2 env i request sn rest e1)
    then show ?case using install_fields
      by (cases "map_of (en_chains e1) (i, request)") (fastforce split: prod.splits sum.splits)+
  qed simp
  then show ?thesis using assms push by (simp add: apply_step_def)
qed

end
