(* ===== verification/Machine.thy ===== *)
theory Machine
  imports Prelude "HOL-Library.Monad_Syntax" "HOL-Library.Word"
begin

unbundle bit_operations_syntax

text \<open>
  The tool-call grammar as a byte-level nondeterministic machine
  (\<open>xabe-grammar/src/machine.rs\<close>, with the tool surface of \<open>spec.rs\<close> it is compiled from): the states,
  the cursor with its two registers, the builder that lays the states out back to front with patched
  placeholders, the Knuth-Morris-Pratt table of the closing delimiter, and the stepping functions.

  A byte is a \<open>char\<close> (the 256 byte values), the set of written parameters a 64-bit word. A state
  number is a \<open>u32\<close>, so \<open>add\<close> truncates the length of the state vector the way \<open>as u32\<close> does.
  \<open>None\<close> is a panic (an index out of bounds) or a loop that does not return; the scratch buffers of
  the source are local.
\<close>

type_synonym byte = char
type_synonym bytes = "byte list"

section \<open>The tool surface\<close>

datatype ValueSpec = Text | Literals "string list" | Boolean | Integer | Number | Null

record ParamSpec =
  pa_name :: string
  pa_required :: bool
  pa_value :: ValueSpec

record ToolSpec =
  to_name :: string
  to_params :: "ParamSpec list"

section \<open>States and cursors\<close>

abbreviation nl :: byte where
  "nl \<equiv> CHR 0x0A"

definition CLOSE :: bytes where
  "CLOSE = nl # ''</parameter>'' @ [nl]"

definition TRACKED_PARAMS :: usize where
  "TRACKED_PARAMS = 64"

datatype State =
    Byte byte u32
  | Split "u32 list"
  | EnterTool u16 u32
  | Mark u8 u32
  | RequireAll u32
  | Until u8 u32
  | Accept

record Cursor =
  cu_state :: u32
  cu_tool :: u16
  cu_written :: "64 word"

record Machine =
  m_states :: "State list"
  m_root :: u32
  m_required :: "64 word list"
  m_fallback :: "u8 list"
  m_triggers :: "bytes list"

definition param_bit :: "u8 \<Rightarrow> 64 word" where
  "param_bit param = (if param < TRACKED_PARAMS then push_bit param 1 else 0)"

definition push_unique :: "Cursor list \<Rightarrow> Cursor \<Rightarrow> Cursor list" where
  "push_unique cursors cursor = (if cursor \<in> set cursors then cursors else cursors @ [cursor])"

text \<open>Indexing with a panic out of range.\<close>

definition at_index :: "'a list \<Rightarrow> nat \<Rightarrow> 'a option" where
  "at_index xs i = (if i < length xs then Some (xs ! i) else None)"

section \<open>The delimiter scan\<close>

partial_function (option) kmp_border ::
  "u8 list \<Rightarrow> bytes \<Rightarrow> usize \<Rightarrow> usize \<Rightarrow> usize option" where
  [code]: "kmp_border fallback needle at border =
    (if 0 < border \<and> needle ! at \<noteq> needle ! border
     then do { border' \<leftarrow> at_index fallback border; kmp_border fallback needle at border' }
     else Some border)"

fun kmp_table :: "bytes \<Rightarrow> usize list \<Rightarrow> u8 list \<Rightarrow> usize \<Rightarrow> u8 list option" where
  "kmp_table needle [] fallback border = Some fallback"
| "kmp_table needle (at # ats) fallback border = do {
     b \<leftarrow> kmp_border fallback needle at border;
     let b' = (if needle ! at = needle ! b then b + 1 else b);
     kmp_table needle ats (fallback[at + 1 := b' mod 2 ^ 8]) b'
   }"

definition kmp_fallback :: "bytes \<Rightarrow> u8 list option" where
  "kmp_fallback needle =
    kmp_table needle [1..<length needle] (replicate (length needle + 1) 0) 0"

partial_function (option) advance_close :: "u8 list \<Rightarrow> u8 \<Rightarrow> byte \<Rightarrow> u8 option" where
  [code]: "advance_close fallback k byte = do {
     want \<leftarrow> at_index CLOSE k;
     if byte = want then Some (wadd 8 k 1)
     else if k = 0 then Some 0
     else do { k' \<leftarrow> at_index fallback k; advance_close fallback k' byte }
   }"

section \<open>The builder\<close>

definition add :: "State list \<Rightarrow> State \<Rightarrow> State list \<times> u32" where
  "add st s = (st @ [s], length st mod 2 ^ 32)"

definition literal :: "State list \<Rightarrow> bytes \<Rightarrow> u32 \<Rightarrow> State list \<times> u32" where
  "literal st bs nxt = fold (\<lambda>b (st, n). add st (Byte b n)) (rev bs) (st, nxt)"

definition split_alts :: "State list \<Rightarrow> u32 list \<Rightarrow> State list \<times> u32" where
  "split_alts st alts = add st (Split alts)"

definition until :: "State list \<Rightarrow> u32 \<Rightarrow> State list \<times> u32" where
  "until st nxt =
    (fold (\<lambda>k st. fst (add st (Until (k mod 2 ^ 8) nxt))) [0..<length CLOSE] st,
     length st mod 2 ^ 32)"

text \<open>The \<open>map\<close> over a byte range that adds one state per byte and collects their numbers.\<close>

fun byte_alts :: "State list \<Rightarrow> bytes \<Rightarrow> u32 \<Rightarrow> State list \<times> u32 list" where
  "byte_alts st [] nxt = (st, [])"
| "byte_alts st (b # bs) nxt =
    (let (st, i) = add st (Byte b nxt);
         (st, alts) = byte_alts st bs nxt
     in (st, i # alts))"

definition digit :: "State list \<Rightarrow> u32 \<Rightarrow> State list \<times> u32" where
  "digit st nxt =
    (let (st, alts) = byte_alts st ''0123456789'' nxt in add st (Split alts))"

definition digits :: "State list \<Rightarrow> u32 \<Rightarrow> State list \<times> u32" where
  "digits st nxt =
    (let (st, more) = add st (Split []);
         (st, again) = digit st more;
         st = st[more := Split [again, nxt]]
     in digit st more)"

text \<open>\<open>number\<close> in its three stretches: the exponent, the fraction and the magnitude.\<close>

definition number_tail :: "State list \<Rightarrow> u32 \<Rightarrow> State list \<times> u32" where
  "number_tail st nxt =
    (let (st, exponent_digits) = digits st nxt;
         (st, plus) = add st (Byte (CHR ''+'') exponent_digits);
         (st, minus_exponent) = add st (Byte (CHR ''-'') exponent_digits);
         (st, signed) = split_alts st [plus, minus_exponent, exponent_digits];
         (st, lower) = add st (Byte (CHR ''e'') signed);
         (st, upper) = add st (Byte (CHR ''E'') signed);
         (st, exponent) = split_alts st [lower, upper]
     in split_alts st [nxt, exponent])"

definition number_fraction :: "State list \<Rightarrow> u32 \<Rightarrow> State list \<times> u32" where
  "number_fraction st tail =
    (let (st, after_point) = digits st tail;
         (st, point) = add st (Byte (CHR ''.'') after_point)
     in split_alts st [tail, point])"

definition number_magnitude :: "State list \<Rightarrow> u32 \<Rightarrow> State list \<times> u32" where
  "number_magnitude st tail =
    (let (st, zero) = add st (Byte (CHR ''0'') tail);
         (st, more) = digits st tail;
         (st, rest) = split_alts st [tail, more];
         (st, leading) = byte_alts st ''123456789'' rest;
         (st, magnitude) = split_alts st (zero # leading);
         (st, minus) = add st (Byte (CHR ''-'') magnitude)
     in split_alts st [magnitude, minus])"

definition number :: "State list \<Rightarrow> u32 \<Rightarrow> bool \<Rightarrow> State list \<times> u32" where
  "number st nxt fractional =
    (let (st, tail) = number_tail st nxt;
         (st, tail) = (if fractional then number_fraction st tail else (st, tail))
     in number_magnitude st tail)"

fun literal_alts :: "State list \<Rightarrow> string list \<Rightarrow> u32 \<Rightarrow> State list \<times> u32 list" where
  "literal_alts st [] nxt = (st, [])"
| "literal_alts st (l # ls) nxt =
    (let (st, i) = literal st l nxt;
         (st, alts) = literal_alts st ls nxt
     in (st, i # alts))"

fun build_value :: "State list \<Rightarrow> ValueSpec \<Rightarrow> u32 \<Rightarrow> State list \<times> u32" where
  "build_value st Text args = until st args"
| "build_value st (Literals literals) args =
    (let (st, close) = literal st CLOSE args;
         (st, alts) = literal_alts st literals close
     in split_alts st alts)"
| "build_value st Boolean args =
    (let (st, close) = literal st CLOSE args;
         (st, yes) = literal st ''true'' close;
         (st, no) = literal st ''false'' close
     in split_alts st [yes, no])"
| "build_value st Null args =
    (let (st, close) = literal st CLOSE args in literal st ''null'' close)"
| "build_value st Integer args =
    (let (st, close) = literal st CLOSE args in number st close False)"
| "build_value st Number args =
    (let (st, close) = literal st CLOSE args in number st close True)"

text \<open>\<open>build\<close>: the loop over a tool's parameters, the loop over the tools, and the frame around them.\<close>

fun required_mask :: "usize \<Rightarrow> ParamSpec list \<Rightarrow> 64 word" where
  "required_mask i [] = 0"
| "required_mask i (spec # specs) =
    (if pa_required spec then param_bit (i mod 2 ^ 8) else 0) OR required_mask (Suc i) specs"

fun build_params ::
  "State list \<Rightarrow> u32 \<Rightarrow> usize \<Rightarrow> ParamSpec list \<Rightarrow> State list \<times> u32 list" where
  "build_params st args i [] = (st, [])"
| "build_params st args i (spec # specs) =
    (let (st, val) = build_value st (pa_value spec) args;
         (st, opn) = literal st (''<parameter='' @ pa_name spec @ [CHR ''>'', nl]) val;
         (st, mark) = add st (Mark (i mod 2 ^ 8) opn);
         (st, alts) = build_params st args (Suc i) specs
     in (st, mark # alts))"

definition build_tool :: "State list \<Rightarrow> u32 \<Rightarrow> usize \<Rightarrow> ToolSpec \<Rightarrow> State list \<times> u32" where
  "build_tool st call_close index tool =
    (let (st, args) = add st (Split []);
         (st, alts) = build_params st args 0 (to_params tool);
         (st, closing) = literal st (''</function>'' @ [nl]) call_close;
         (st, require) = add st (RequireAll closing);
         st = st[args := Split (alts @ [require])];
         (st, named) = literal st (''<function='' @ to_name tool @ [CHR ''>'', nl]) args
     in add st (EnterTool (index mod 2 ^ 16) named))"

fun build_tools ::
  "State list \<Rightarrow> u32 \<Rightarrow> usize \<Rightarrow> ToolSpec list \<Rightarrow> State list \<times> u32 list" where
  "build_tools st call_close index [] = (st, [])"
| "build_tools st call_close index (tool # tools) =
    (let (st, opener) = build_tool st call_close index tool;
         (st, openers) = build_tools st call_close (Suc index) tools
     in (st, opener # openers))"

definition build :: "ToolSpec list \<Rightarrow> bool \<Rightarrow> State list \<times> u32" where
  "build tools parallel =
    (let (st, accept) = add [] Accept;
         (st, after) = add st (Split []);
         (st, entry) = add st (Split []);
         (st, call_close) = literal st ''</tool_call>'' after;
         (st, openers) = build_tools st call_close 0 tools;
         st = st[entry := Split openers];
         (st, spaces) = byte_alts st [CHR '' '', CHR 0x09, nl, CHR 0x0D] after;
         (st, again) = (if parallel
           then let (st, again) = literal st (''<tool_call>'' @ [nl]) entry in (st, [again])
           else (st, []));
         st = st[after := Split (accept # spaces @ again)];
         (st, opened) = literal st (''<tool_call>'' @ [nl]) entry
     in split_alts st [opened, entry])"

definition triggers_of :: "ToolSpec list \<Rightarrow> bytes list" where
  "triggers_of tools =
    ''<tool_call>'' # map (\<lambda>tool. ''<function='' @ to_name tool @ ''>'') tools"

definition compile :: "ToolSpec list \<Rightarrow> bool \<Rightarrow> Machine option" where
  "compile tools parallel = do {
     let (states, root) = build tools parallel;
     fallback \<leftarrow> kmp_fallback CLOSE;
     Some \<lparr>m_states = states, m_root = root,
       m_required = map (\<lambda>tool. required_mask 0 (to_params tool)) tools,
       m_fallback = fallback, m_triggers = triggers_of tools\<rparr>
   }"

section \<open>Stepping\<close>

partial_function (option) close_loop ::
  "Machine \<Rightarrow> Cursor list \<Rightarrow> Cursor list \<Rightarrow> Cursor list option" where
  [code]: "close_loop m work cursors = (case vec_pop work of
      None \<Rightarrow> Some cursors
    | Some (cursor, work) \<Rightarrow> do {
        s \<leftarrow> at_index (m_states m) (cu_state cursor);
        case s of
          Byte b nxt \<Rightarrow> close_loop m work (push_unique cursors cursor)
        | Until k nxt \<Rightarrow> close_loop m work (push_unique cursors cursor)
        | Accept \<Rightarrow> close_loop m work (push_unique cursors cursor)
        | Split alts \<Rightarrow>
            close_loop m (work @ map (\<lambda>alt. cursor\<lparr>cu_state := alt\<rparr>) alts) cursors
        | EnterTool tool nxt \<Rightarrow>
            close_loop m (work @ [\<lparr>cu_state = nxt, cu_tool = tool, cu_written = 0\<rparr>]) cursors
        | Mark param nxt \<Rightarrow>
            let bit = param_bit param
            in if cu_written cursor AND bit = 0
               then close_loop m (work @ [cursor\<lparr>cu_state := nxt,
                      cu_written := cu_written cursor OR bit\<rparr>]) cursors
               else close_loop m work cursors
        | RequireAll nxt \<Rightarrow> do {
            required \<leftarrow> at_index (m_required m) (cu_tool cursor);
            if cu_written cursor AND required = required
            then close_loop m (work @ [cursor\<lparr>cu_state := nxt\<rparr>]) cursors
            else close_loop m work cursors
          }
      })"

definition close :: "Machine \<Rightarrow> Cursor list \<Rightarrow> Cursor list option" where
  "close m cursors = close_loop m cursors []"

definition start :: "Machine \<Rightarrow> Cursor list option" where
  "start m = close m [\<lparr>cu_state = m_root m, cu_tool = 2 ^ 16 - 1, cu_written = 0\<rparr>]"

definition until_k :: "Machine \<Rightarrow> u32 \<Rightarrow> u8 option" where
  "until_k m s = (case at_index (m_states m) s of Some (Until k nxt) \<Rightarrow> Some k | _ \<Rightarrow> None)"

text \<open>One cursor over one byte: the cursor it moves to, if any.\<close>

definition move :: "Machine \<Rightarrow> byte \<Rightarrow> Cursor \<Rightarrow> Cursor option option" where
  "move m byte cursor = do {
     s \<leftarrow> at_index (m_states m) (cu_state cursor);
     case s of
       Byte want nxt \<Rightarrow> Some (if want = byte then Some (cursor\<lparr>cu_state := nxt\<rparr>) else None)
     | Until k nxt \<Rightarrow> do {
         k' \<leftarrow> advance_close (m_fallback m) k byte;
         k0 \<leftarrow> until_k m (cu_state cursor);
         Some (Some (cursor\<lparr>cu_state :=
           (if k' = length CLOSE then nxt
            else wadd 32 (wsub 32 (cu_state cursor) k0) k')\<rparr>))
       }
     | _ \<Rightarrow> Some None
   }"

fun move_all :: "Machine \<Rightarrow> byte \<Rightarrow> Cursor list \<Rightarrow> Cursor list \<Rightarrow> Cursor list option" where
  "move_all m byte [] out = Some out"
| "move_all m byte (cursor # cursors) out = do {
     moved \<leftarrow> move m byte cursor;
     move_all m byte cursors (case moved of None \<Rightarrow> out | Some c \<Rightarrow> push_unique out c)
   }"

definition machine_step :: "Machine \<Rightarrow> Cursor list \<Rightarrow> byte \<Rightarrow> (Cursor list \<times> bool) option" where
  "machine_step m cursors byte = do {
     out \<leftarrow> move_all m byte cursors [];
     cursors \<leftarrow> close m out;
     Some (cursors, cursors \<noteq> [])
   }"

text \<open>The two queries are asked of cursor sets that \<open>close\<close> has just indexed.\<close>

definition accepts_end :: "Machine \<Rightarrow> Cursor list \<Rightarrow> bool" where
  "accepts_end m cursors \<longleftrightarrow> (\<exists>c \<in> set cursors. at_index (m_states m) (cu_state c) = Some Accept)"

definition is_free_text :: "Machine \<Rightarrow> Cursor list \<Rightarrow> bool" where
  "is_free_text m cursors \<longleftrightarrow>
    (\<forall>c \<in> set cursors. case at_index (m_states m) (cu_state c) of
       Some (Until k nxt) \<Rightarrow> k = 0 | _ \<Rightarrow> False)"

end
