(* ===== verification/Vocab.thy ===== *)
theory Vocab
  imports Machine
begin

unbundle bit_operations_syntax

text \<open>
  The vocabulary a grammar is masked against (\<open>xabe-grammar/src/vocab.rs\<close>): the byte trie over the
  token pieces in its flattened arrays, the free-text bitmask, the depth-first walk that carries the
  cursor set down each edge, and the pass that writes the mask into a row of logits.

  A logit is a value of an arbitrary type with a distinguished \<open>neg_inf\<close> (\<open>f32::NEG_INFINITY\<close>): the
  code only keeps or overwrites it. \<open>as u32\<close> and \<open>as i32\<close> are written out; \<open>None\<close> is a panic or a walk
  that does not return.
\<close>

record Vocab =
  edge_start :: "u32 list"
  edge_byte :: bytes
  edge_target :: "u32 list"
  node_token :: "i32 list"
  breaking :: "(u32 \<times> bytes) list"
  free_text :: "64 word list"
  eog :: "u32 list"
  piece_bytes :: bytes
  piece_start :: "u32 list"
  vocab_len :: usize

definition usize_as_u32 :: "nat \<Rightarrow> u32" where
  "usize_as_u32 n = n mod 2 ^ 32"

section \<open>Building the trie\<close>

type_synonym children = "(byte \<times> u32) list list"

text \<open>The descent along one piece, adding the nodes that are missing; the node it ends at.\<close>

fun trie_insert :: "children \<Rightarrow> i32 list \<Rightarrow> usize \<Rightarrow> bytes \<Rightarrow> children \<times> i32 list \<times> usize" where
  "trie_insert ch nt node [] = (ch, nt, node)"
| "trie_insert ch nt node (byte # bs) = (case find (\<lambda>(edge, _). edge = byte) (ch ! node) of
      Some (_, nxt) \<Rightarrow> trie_insert ch nt nxt bs
    | None \<Rightarrow>
        (let ch = ch @ [[]];
             nt = nt @ [- 1];
             nxt = length ch - 1;
             ch = ch[node := ch ! node @ [(byte, usize_as_u32 nxt)]]
         in trie_insert ch nt nxt bs))"

definition clear_bit :: "64 word list \<Rightarrow> usize \<Rightarrow> 64 word list" where
  "clear_bit ms token = ms[token div 64 := ms ! (token div 64) AND NOT (push_bit (token mod 64) 1)]"

record Building =
  b_children :: children
  b_node_token :: "i32 list"
  b_breaking :: "(u32 \<times> bytes) list"
  b_free_text :: "64 word list"
  b_piece_bytes :: bytes
  b_piece_start :: "u32 list"

definition add_piece :: "u32 list \<Rightarrow> usize \<times> bytes \<Rightarrow> Building \<Rightarrow> Building" where
  "add_piece eogs tp b =
    (let (token, piece) = tp;
         b = b\<lparr>b_piece_start := b_piece_start b @ [usize_as_u32 (length (b_piece_bytes b))],
               b_piece_bytes := b_piece_bytes b @ piece\<rparr>
     in if piece = [] \<or> usize_as_u32 token \<in> set eogs
        then b\<lparr>b_free_text := clear_bit (b_free_text b) token\<rparr>
        else
          (let b = (if CLOSE ! 0 \<in> set piece
                 then b\<lparr>b_breaking := b_breaking b @ [(usize_as_u32 token, piece)],
                        b_free_text := clear_bit (b_free_text b) token\<rparr> else b);
               (ch, nt, node) = trie_insert (b_children b) (b_node_token b) 0 piece
           in b\<lparr>b_children := ch, b_node_token := nt[node := as_i32 token]\<rparr>))"

text \<open>All bits of the vocabulary, less the end-of-generation tokens.\<close>

definition free_text_init :: "usize \<Rightarrow> u32 list \<Rightarrow> 64 word list" where
  "free_text_init len eogs =
    (let ms = replicate (div_ceil len 64) (- 1);
         ms = (if is_multiple_of len 64 then ms
           else ms[length ms - 1 := push_bit (len mod 64) 1 - 1])
     in fold (\<lambda>token ms. if token < len then clear_bit ms token else ms) eogs ms)"

fun flatten :: "children \<Rightarrow> u32 list \<times> bytes \<times> u32 list \<Rightarrow> u32 list \<times> bytes \<times> u32 list" where
  "flatten [] (starts, ebytes, targets) = (starts @ [usize_as_u32 (length ebytes)], ebytes, targets)"
| "flatten (edges # rest) (starts, ebytes, targets) =
    (let edges = sort_key (\<lambda>(byte, _). of_char byte :: nat) edges
     in flatten rest (starts @ [usize_as_u32 (length ebytes)], ebytes @ map fst edges, targets @ map snd edges))"

definition new_vocab :: "bytes list \<Rightarrow> u32 list \<Rightarrow> Vocab" where
  "new_vocab pieces eogs =
    (let b = fold (add_piece eogs) (enumerate 0 pieces)
           \<lparr>b_children = [[]], b_node_token = [- 1], b_breaking = [],
            b_free_text = free_text_init (length pieces) eogs, b_piece_bytes = [], b_piece_start = []\<rparr>;
         (starts, ebytes, targets) = flatten (b_children b) ([], [], [])
     in \<lparr>edge_start = starts, edge_byte = ebytes, edge_target = targets,
         node_token = b_node_token b, breaking = b_breaking b, free_text = b_free_text b,
         eog = eogs, piece_bytes = b_piece_bytes b,
         piece_start = b_piece_start b @ [usize_as_u32 (length (b_piece_bytes b))],
         vocab_len = length pieces\<rparr>)"

definition piece :: "Vocab \<Rightarrow> usize \<Rightarrow> bytes" where
  "piece v token =
    (if vocab_len v \<le> token then []
     else let from = piece_start v ! token; to = piece_start v ! (token + 1)
          in take (to - from) (drop from (piece_bytes v)))"

section \<open>The walk\<close>

record Frame =
  fr_node :: u32
  fr_edge :: u32
  fr_depth :: usize

definition allow_token :: "64 word list \<Rightarrow> usize \<Rightarrow> 64 word list option" where
  "allow_token allow token = do {
     w \<leftarrow> at_index allow (token div 64);
     Some (allow[token div 64 := w OR push_bit (token mod 64) 1])
   }"

partial_function (option) walk_loop ::
  "Vocab \<Rightarrow> Machine \<Rightarrow> 64 word list \<Rightarrow> Cursor list list \<Rightarrow> Frame list \<Rightarrow> 64 word list option" where
  [code]: "walk_loop v m allow levels frames = (case vec_pop frames of
      None \<Rightarrow> Some allow
    | Some (frame, below) \<Rightarrow> do {
        stop \<leftarrow> at_index (edge_start v) (fr_node frame + 1);
        if stop \<le> fr_edge frame then walk_loop v m allow levels below
        else do {
          let edge = fr_edge frame;
          let depth = fr_depth frame;
          let frames = below @ [frame\<lparr>fr_edge := edge + 1\<rparr>];
          byte \<leftarrow> at_index (edge_byte v) edge;
          target \<leftarrow> at_index (edge_target v) edge;
          let levels = (if length levels \<le> depth + 1 then levels @ [[]] else levels);
          (cursors, ok) \<leftarrow> machine_step m (levels ! depth) byte;
          let levels = levels[depth + 1 := cursors];
          if \<not> ok then walk_loop v m allow levels frames
          else do {
            token \<leftarrow> at_index (node_token v) target;
            allow \<leftarrow> (if 0 \<le> token then allow_token allow (nat token) else Some allow);
            e \<leftarrow> at_index (edge_start v) target;
            walk_loop v m allow levels
              (frames @ [\<lparr>fr_node = target, fr_edge = e, fr_depth = depth + 1\<rparr>])
          }
        }
      })"

definition walk :: "Vocab \<Rightarrow> Machine \<Rightarrow> Cursor list \<Rightarrow> 64 word list \<Rightarrow> 64 word list option" where
  "walk v m cursors allow = do {
     e \<leftarrow> at_index (edge_start v) 0;
     walk_loop v m allow [cursors] [\<lparr>fr_node = 0, fr_edge = e, fr_depth = 0\<rparr>]
   }"

section \<open>The mask\<close>

fun survives :: "Machine \<Rightarrow> Cursor list \<Rightarrow> bytes \<Rightarrow> bool option" where
  "survives m cursors [] = Some True"
| "survives m cursors (b # bs) = do {
     (cursors, ok) \<leftarrow> machine_step m cursors b;
     if ok then survives m cursors bs else Some False
   }"

fun admit_breaking ::
  "Machine \<Rightarrow> Cursor list \<Rightarrow> (u32 \<times> bytes) list \<Rightarrow> 64 word list \<Rightarrow> 64 word list option" where
  "admit_breaking m cursors [] allow = Some allow"
| "admit_breaking m cursors ((token, pc) # rest) allow = do {
     ok \<leftarrow> survives m cursors pc;
     allow \<leftarrow> (if ok then allow_token allow token else Some allow);
     admit_breaking m cursors rest allow
   }"

fun admit_eog :: "usize \<Rightarrow> u32 list \<Rightarrow> 64 word list \<Rightarrow> 64 word list option" where
  "admit_eog len [] allow = Some allow"
| "admit_eog len (token # tokens) allow = do {
     allow \<leftarrow> (if token < len then allow_token allow token else Some allow);
     admit_eog len tokens allow
   }"

text \<open>One word of the mask written into its stretch of the row.\<close>

definition write_word :: "'f \<Rightarrow> usize \<Rightarrow> usize \<Rightarrow> 64 word \<Rightarrow> 'f list \<Rightarrow> 'f list option" where
  "write_word neg_inf len word allow logits =
    (if allow = - 1 then Some logits
     else
       (let from = word * 64; to = min (from + 64) len
        in if length logits < to then None
           else if allow = 0
           then Some (take from logits @ replicate (to - from) neg_inf @ drop to logits)
           else Some (take from logits
             @ map (\<lambda>(b, logit). if allow AND push_bit b 1 = 0 then neg_inf else logit)
                 (enumerate 0 (take (to - from) (drop from logits)))
             @ drop to logits)))"

fun write_mask :: "'f \<Rightarrow> usize \<Rightarrow> usize \<Rightarrow> 64 word list \<Rightarrow> 'f list \<Rightarrow> 'f list option" where
  "write_mask neg_inf len word [] logits = Some logits"
| "write_mask neg_inf len word (allow # rest) logits = do {
     logits \<leftarrow> write_word neg_inf len word allow logits;
     write_mask neg_inf len (Suc word) rest logits
   }"

definition allowed :: "Vocab \<Rightarrow> Machine \<Rightarrow> Cursor list \<Rightarrow> 64 word list option" where
  "allowed v m cursors = do {
     allow \<leftarrow> (if is_free_text m cursors
       then admit_breaking m cursors (breaking v) (free_text v)
       else walk v m cursors (replicate (div_ceil (vocab_len v) 64) 0));
     if accepts_end m cursors then admit_eog (vocab_len v) (eog v) allow else Some allow
   }"

definition vocab_mask :: "'f \<Rightarrow> Vocab \<Rightarrow> Machine \<Rightarrow> Cursor list \<Rightarrow> 'f list \<Rightarrow> 'f list option" where
  "vocab_mask neg_inf v m cursors logits = do {
     allow \<leftarrow> allowed v m cursors;
     logits \<leftarrow> write_mask neg_inf (vocab_len v) 0 allow logits;
     Some (if vocab_len v < length logits
       then take (vocab_len v) logits @ replicate (length logits - vocab_len v) neg_inf else logits)
   }"

end
