(* ===== verification/VocabTrie.thy ===== *)
theory VocabTrie
  imports Vocab
begin

text \<open>
  The trie of \<open>Vocab::new\<close>. Every node has a spelling, edges go to later nodes and append their byte to
  it, and the token stored at a node is one whose piece is that spelling (\<open>trie\<close>); a token that is put
  into the trie is found along its own bytes. The flattened arrays hold the same edges.
\<close>

section \<open>Paths\<close>

fun path :: "children \<Rightarrow> nat \<Rightarrow> bytes \<Rightarrow> nat \<Rightarrow> bool" where
  "path ch n [] n' \<longleftrightarrow> n = n'"
| "path ch n (b # q) n' \<longleftrightarrow> (\<exists>t. (b, t) \<in> set (ch ! n) \<and> path ch t q n')"

lemma path_append: "path ch n (p @ q) n' \<longleftrightarrow> (\<exists>t. path ch n p t \<and> path ch t q n')"
  by (induction p arbitrary: n) auto

definition trie :: "children \<Rightarrow> bytes list \<Rightarrow> bool" where
  "trie ch sp \<longleftrightarrow> length sp = length ch \<and> sp \<noteq> [] \<and> sp ! 0 = []
     \<and> (\<forall>n b t. n < length ch \<longrightarrow> (b, t) \<in> set (ch ! n) \<longrightarrow> n < t \<and> t < length ch \<and> sp ! t = sp ! n @ [b])
     \<and> (\<forall>n < length ch. distinct (map fst (ch ! n))) \<and> Suc (length (concat ch)) = length ch"

lemma trieD:
  assumes "trie ch sp"
  shows "length sp = length ch" "sp \<noteq> []" "sp ! 0 = []"
    and "n < length ch \<Longrightarrow> (b, t) \<in> set (ch ! n) \<Longrightarrow> n < t \<and> t < length ch \<and> sp ! t = sp ! n @ [b]"
    and "n < length ch \<Longrightarrow> distinct (map fst (ch ! n))" and "Suc (length (concat ch)) = length ch"
  using assms unfolding trie_def by blast+

lemma path_spell:
  "trie ch sp \<Longrightarrow> n < length ch \<Longrightarrow> path ch n q n' \<Longrightarrow> n' < length ch \<and> sp ! n' = sp ! n @ q"
  by (induction q arbitrary: n) (auto dest: trieD(4))

text \<open>A trie that has grown: what was there is still there.\<close>

definition grown :: "children \<Rightarrow> children \<Rightarrow> bool" where
  "grown ch ch' \<longleftrightarrow> length ch \<le> length ch' \<and> (\<forall>n < length ch. set (ch ! n) \<subseteq> set (ch' ! n))"

lemma grown_refl: "grown ch ch"
  by (simp add: grown_def)

lemma grown_trans: "grown a b \<Longrightarrow> grown b c \<Longrightarrow> grown a c"
  unfolding grown_def by (meson le_trans less_le_trans subset_trans)

lemma path_grown:
  "trie ch sp \<Longrightarrow> grown ch ch' \<Longrightarrow> n < length ch \<Longrightarrow> path ch n q n' \<Longrightarrow> path ch' n q n'"
proof (induction q arbitrary: n)
  case (Cons b q)
  then obtain t where t: "(b, t) \<in> set (ch ! n)" "path ch t q n'" by auto
  then have "(b, t) \<in> set (ch' ! n)" using Cons.prems(2,3) by (auto simp: grown_def)
  moreover have "t < length ch" using trieD(4) [OF Cons.prems(1,3) t(1)] by simp
  ultimately show ?case using Cons.IH [OF Cons.prems(1,2) _ t(2)] by auto
qed simp

section \<open>Insertion\<close>

lemma find_SomeD: "find P xs = Some x \<Longrightarrow> x \<in> set xs \<and> P x"
  by (induction xs) (auto split: if_splits)

lemma trie_add:
  assumes tr: "trie ch sp" and n: "node < length ch"
    and new: "find (\<lambda>(edge, _). edge = b) (ch ! node) = None"
  defines "ch' \<equiv> (ch @ [[]])[node := ch ! node @ [(b, length ch)]]"
  shows "trie ch' (sp @ [sp ! node @ [b]])" and "grown ch ch'" and "(b, length ch) \<in> set (ch' ! node)"
    and "length ch' = Suc (length ch)"
proof -
  have fresh: "b \<notin> fst ` set (ch ! node)"
    using new by (auto simp: find_None_iff)
  have at: "ch' ! i = (if i = node then ch ! node @ [(b, length ch)] else if i = length ch then [] else ch ! i)"
    if "i \<le> length ch" for i
    using that n by (auto simp: ch'_def nth_list_update nth_append)
  show len: "length ch' = Suc (length ch)" by (simp add: ch'_def)
  show "grown ch ch'" using at len by (auto simp: grown_def)
  show "(b, length ch) \<in> set (ch' ! node)" using at n by simp
  have sp: "(sp @ [sp ! node @ [b]]) ! i = (if i < length ch then sp ! i else sp ! node @ [b])"
    if "i \<le> length ch" for i
    using that trieD(1) [OF tr] by (simp add: nth_append)
  have edges: "length (concat ch') = Suc (length (concat ch))"
  proof -
    have "length (concat ch') = sum_list ((map length (ch @ [[]]))[node := Suc (length (ch ! node))])"
      unfolding ch'_def length_concat map_update by simp
    also have "\<dots> = Suc (length (concat ch))"
      using n member_le_sum_list [of "length (ch ! node)" "map length ch"]
      by (simp add: sum_list_update nth_append length_concat)
    finally show ?thesis .
  qed
  show "trie ch' (sp @ [sp ! node @ [b]])"
    unfolding trie_def
  proof (intro conjI allI impI)
    show "Suc (length (concat ch')) = length ch'" using edges len trieD(6) [OF tr] by simp
    show "length (sp @ [sp ! node @ [b]]) = length ch'" using trieD(1) [OF tr] len by simp
    show "sp @ [sp ! node @ [b]] \<noteq> []" by simp
    show "(sp @ [sp ! node @ [b]]) ! 0 = []"
      using trieD(2,3) [OF tr] by (simp add: nth_append)
    fix i c t assume i: "i < length ch'" and e: "(c, t) \<in> set (ch' ! i)"
    then have i: "i \<le> length ch" using len by simp
    then consider "i < length ch" "(c, t) \<in> set (ch ! i)" | "i = node" "c = b" "t = length ch"
      using e at [OF i] n by (auto split: if_splits)
    then show "i < t" "t < length ch'" "(sp @ [sp ! node @ [b]]) ! t = (sp @ [sp ! node @ [b]]) ! i @ [c]"
      using trieD(4) [OF tr, of i c t] sp [of i] sp [of t] n len by (cases; auto)+
  next
    fix i assume "i < length ch'"
    then have i: "i \<le> length ch" using len by simp
    then show "distinct (map fst (ch' ! i))"
      using at [OF i] trieD(5) [OF tr] n fresh by (auto simp: image_iff)
  qed
qed

lemma trie_insert_correct:
  assumes "trie ch sp" and "length nt = length ch" and "node < length ch"
    and "length ch + length p \<le> 2 ^ 32" and "trie_insert ch nt node p = (ch', nt', node')"
  shows "\<exists>ext. trie ch' (sp @ ext) \<and> grown ch ch' \<and> path ch' node p node' \<and> node' < length ch'
    \<and> length ch' \<le> length ch + length p \<and> nt' = nt @ replicate (length ch' - length ch) (- 1)"
  using assms
proof (induction p arbitrary: ch sp nt node)
  case Nil
  then show ?case using grown_refl by (auto intro: exI [of _ "[]"])
next
  case (Cons b p)
  show ?case
  proof (cases "find (\<lambda>(edge, _). edge = b) (ch ! node)")
    case None
    let ?ch1 = "(ch @ [[]])[node := ch ! node @ [(b, length ch)]]"
    let ?sp1 = "sp @ [sp ! node @ [b]]"
    note one = trie_add [OF Cons.prems(1,3) None]
    have "usize_as_u32 (length ch) = length ch" using Cons.prems(4) by (simp add: usize_as_u32_def)
    then have ins: "trie_insert ?ch1 (nt @ [- 1]) (length ch) p = (ch', nt', node')"
      using Cons.prems(3,5) None by (simp add: nth_append Let_def)
    have "length (nt @ [- 1]) = length ?ch1" "length ch < length ?ch1"
        "length ?ch1 + length p \<le> 2 ^ 32"
      using Cons.prems(2,4) by simp_all
    from Cons.IH [OF one(1) this ins] obtain ext where
      ext: "trie ch' (?sp1 @ ext)" "grown ?ch1 ch'" "path ch' (length ch) p node'" "node' < length ch'"
        "length ch' \<le> length ?ch1 + length p" and nt': "nt' = (nt @ [- 1]) @ replicate (length ch' - length ?ch1) (- 1)"
      by blast
    have "(b, length ch) \<in> set (ch' ! node)"
    proof -
      have "node < length ?ch1" using one(4) Cons.prems(3) by simp
      then have "set (?ch1 ! node) \<subseteq> set (ch' ! node)" using ext(2) unfolding grown_def by blast
      then show ?thesis using one(3) by blast
    qed
    then have "path ch' node (b # p) node'" using ext(3) by auto
    moreover have "nt' = nt @ replicate (length ch' - length ch) (- 1)"
      using nt' ext(2) by (simp add: grown_def Suc_diff_Suc flip: replicate_Suc)
    ultimately show ?thesis using ext one(2) grown_trans
      by (intro exI [of _ "[sp ! node @ [b]] @ ext"]) auto
  next
    case (Some e)
    then obtain t where e: "e = (b, t)" and mem: "(b, t) \<in> set (ch ! node)"
      using find_SomeD [OF Some] by (cases e) auto
    have t: "t < length ch" using trieD(4) [OF Cons.prems(1,3) mem] by simp
    have ins: "trie_insert ch nt t p = (ch', nt', node')" using Cons.prems(5) Some e by simp
    have room: "length ch + length p \<le> 2 ^ 32" using Cons.prems(4) by simp
    from Cons.IH [OF Cons.prems(1,2) t room ins] obtain ext where
      ext: "trie ch' (sp @ ext)" "grown ch ch'" "path ch' t p node'" "node' < length ch'"
        "length ch' \<le> length ch + length p" "nt' = nt @ replicate (length ch' - length ch) (- 1)" by blast
    have "(b, t) \<in> set (ch' ! node)" using mem ext(2) Cons.prems(3) by (auto simp: grown_def)
    then show ?thesis using ext by (intro exI [of _ ext]) auto
  qed
qed

section \<open>Token bitmasks\<close>

definition tbit :: "64 word list \<Rightarrow> usize \<Rightarrow> bool" where
  "tbit ws t \<longleftrightarrow> bit (ws ! (t div 64)) (t mod 64)"

lemma same_place: "(t::nat) div 64 = u div 64 \<Longrightarrow> t mod 64 = u mod 64 \<Longrightarrow> t = u"
  by (metis div_mult_mod_eq)

lemma tbit_clear:
  assumes "t div 64 < length ws"
  shows "tbit (clear_bit ws t) u \<longleftrightarrow> u \<noteq> t \<and> tbit ws u" and "length (clear_bit ws t) = length ws"
proof -
  have "u mod 64 < 64" "t mod 64 < 64" by simp_all
  then show "tbit (clear_bit ws t) u \<longleftrightarrow> u \<noteq> t \<and> tbit ws u"
    using assms same_place [of t u]
    by (cases "u div 64 = t div 64") (auto simp: tbit_def clear_bit_def bit_simps)
  show "length (clear_bit ws t) = length ws" by (simp add: clear_bit_def)
qed

lemma bit_one_at: "bit ((2 :: 64 word) ^ i) j \<longleftrightarrow> j = i \<and> i < 64"
  by (auto simp: bit_simps)

lemma tbit_allow:
  assumes "t div 64 < length ws"
  shows "\<exists>ws'. allow_token ws t = Some ws' \<and> length ws' = length ws
    \<and> (\<forall>u. tbit ws' u \<longleftrightarrow> u = t \<or> tbit ws u)"
proof -
  let ?ws = "ws[t div 64 := ws ! (t div 64) OR push_bit (t mod 64) 1]"
  have "tbit ?ws u \<longleftrightarrow> u = t \<or> tbit ws u" for u
  proof -
    show ?thesis
    proof (cases "u div 64 = t div 64")
      case True
      then have "u = t \<longleftrightarrow> u mod 64 = t mod 64" using same_place [of t u] by auto
      then show ?thesis using True assms by (auto simp: tbit_def bit_or_iff bit_one_at)
    next
      case False
      then show ?thesis by (auto simp: tbit_def)
    qed
  qed
  then show ?thesis using assms by (simp add: allow_token_def at_index_def)
qed

lemma word_of_token: "t < len \<Longrightarrow> t div 64 < div_ceil len 64"
proof -
  assume "t < len"
  moreover have "len \<le> div_ceil len 64 * 64" by (rule div_ceil_bounds) simp
  ultimately show ?thesis by (simp add: less_mult_imp_div_less)
qed

lemma tbit_zero: "t < len \<Longrightarrow> \<not> tbit (replicate (div_ceil len 64) 0) t"
  using word_of_token [of t len] by (simp add: tbit_def)

lemma free_text_words:
  assumes "t < len"
  shows "tbit (if is_multiple_of len 64 then replicate (div_ceil len 64) (- 1)
      else (replicate (div_ceil len 64) (- 1))[div_ceil len 64 - 1 := push_bit (len mod 64) 1 - 1]) t"
proof (cases "is_multiple_of len 64")
  case True
  then show ?thesis using word_of_token [OF assms] by (simp add: tbit_def)
next
  case False
  let ?w = "push_bit (len mod 64) 1 - 1 :: 64 word"
  have w: "?w = mask (len mod 64)" by (simp add: push_bit_of_1 mask_eq_exp_minus_1)
  have up: "div_ceil len 64 = len div 64 + 1"
    using False by (simp add: div_ceil_def is_multiple_of_def)
  show ?thesis
  proof (cases "t div 64 = len div 64")
    case True
    then have "t mod 64 < len mod 64" using assms
      by (metis div_mult_mod_eq nat_add_left_cancel_less)
    then have "bit ?w (t mod 64)" unfolding w by (simp add: bit_mask_iff)
    then show ?thesis using False True by (simp add: tbit_def up del: replicate_Suc)
  next
    case neq: False
    then have "t div 64 < len div 64"
      using assms by (meson div_le_mono le_neq_implies_less less_imp_le_nat)
    then show ?thesis using False by (simp add: tbit_def up del: replicate_Suc)
  qed
qed

lemma tbit_free_text_init:
  "t < len \<Longrightarrow> tbit (free_text_init len eogs) t \<longleftrightarrow> t \<notin> set eogs"
  and length_free_text_init: "length (free_text_init len eogs) = div_ceil len 64"
proof -
  define ws where "ws = (if is_multiple_of len 64 then replicate (div_ceil len 64) (- 1 :: 64 word)
      else (replicate (div_ceil len 64) (- 1))[div_ceil len 64 - 1 := push_bit (len mod 64) 1 - 1])"
  have init: "free_text_init len eogs
      = fold (\<lambda>token ms. if token < len then clear_bit ms token else ms) eogs ws"
    by (simp add: free_text_init_def ws_def)
  have step: "length (fold (\<lambda>token ms. if token < len then clear_bit ms token else ms) es ms) = div_ceil len 64
      \<and> (\<forall>t < len. tbit (fold (\<lambda>token ms. if token < len then clear_bit ms token else ms) es ms) t
          \<longleftrightarrow> t \<notin> set es \<and> tbit ms t)"
    if "length ms = div_ceil len 64" for es ms
    using that
  proof (induction es arbitrary: ms)
    case (Cons e es)
    show ?case
    proof (cases "e < len")
      case True
      then have "e div 64 < length ms" using word_of_token Cons.prems by simp
      from tbit_clear [OF this] Cons.IH [of "clear_bit ms e"] Cons.prems True show ?thesis by auto
    next
      case False
      then show ?thesis using Cons.IH [of ms] Cons.prems by auto
    qed
  qed simp
  have "length ws = div_ceil len 64" by (simp add: ws_def)
  from step [OF this, of eogs] free_text_words [of _ len]
  show "t < len \<Longrightarrow> tbit (free_text_init len eogs) t \<longleftrightarrow> t \<notin> set eogs"
    and "length (free_text_init len eogs) = div_ceil len 64"
    unfolding init ws_def by auto
qed

section \<open>The vocabulary as built\<close>

text \<open>A token that is put into the trie: it spells something and does not end the generation.\<close>

definition spelt :: "bytes list \<Rightarrow> u32 list \<Rightarrow> nat \<Rightarrow> bool" where
  "spelt pieces eogs t \<longleftrightarrow> pieces ! t \<noteq> [] \<and> t \<notin> set eogs"

text \<open>Vocabularies the casts of the source are exact on, with no two such tokens spelt alike.\<close>

definition sized :: "bytes list \<Rightarrow> bool" where
  "sized pieces \<longleftrightarrow> length pieces \<le> 2 ^ 31 \<and> Suc (length (concat pieces)) \<le> 2 ^ 32"

definition unambiguous :: "bytes list \<Rightarrow> u32 list \<Rightarrow> bool" where
  "unambiguous pieces eogs \<longleftrightarrow> (\<forall>t < length pieces. \<forall>s < t.
     spelt pieces eogs s \<longrightarrow> spelt pieces eogs t \<longrightarrow> pieces ! s \<noteq> pieces ! t)"

definition filed :: "bytes list \<Rightarrow> u32 list \<Rightarrow> nat \<Rightarrow> children \<Rightarrow> i32 list \<Rightarrow> bytes list \<Rightarrow> bool" where
  "filed pieces eogs k ch nt sp \<longleftrightarrow> trie ch sp \<and> length nt = length ch
     \<and> length ch \<le> Suc (length (concat (take k pieces)))
     \<and> (\<forall>n < length ch. nt ! n = - 1 \<or> (\<exists>t < k. spelt pieces eogs t \<and> nt ! n = int t \<and> pieces ! t = sp ! n))
     \<and> (\<forall>t < k. spelt pieces eogs t \<longrightarrow> (\<exists>n. path ch 0 (pieces ! t) n \<and> nt ! n = int t))"

definition marked :: "bytes list \<Rightarrow> u32 list \<Rightarrow> nat \<Rightarrow> Building \<Rightarrow> bool" where
  "marked pieces eogs k b \<longleftrightarrow>
     b_breaking b = map (\<lambda>t. (t, pieces ! t)) (filter (\<lambda>t. spelt pieces eogs t \<and> nl \<in> set (pieces ! t)) [0..<k])
     \<and> length (b_free_text b) = div_ceil (length pieces) 64
     \<and> (\<forall>t < length pieces. tbit (b_free_text b) t \<longleftrightarrow>
          t \<notin> set eogs \<and> (t < k \<longrightarrow> spelt pieces eogs t \<and> nl \<notin> set (pieces ! t)))
     \<and> b_piece_bytes b = concat (take k pieces)
     \<and> b_piece_start b = map (\<lambda>i. length (concat (take i pieces))) [0..<k]"

lemma concat_take_le: "length (concat (take k pieces)) \<le> length (concat pieces)"
  by (metis append_take_drop_id concat_append le_add1 length_append)

lemma filed_insert:
  assumes f: "filed pieces eogs k ch nt sp" and k: "k < length pieces" and sz: "sized pieces"
    and un: "unambiguous pieces eogs" and spelt: "spelt pieces eogs k"
    and ins: "trie_insert ch nt 0 (pieces ! k) = (ch', nt', node)"
  shows "\<exists>sp'. filed pieces eogs (Suc k) ch' (nt'[node := as_i32 k]) sp'"
proof -
  have tr: "trie ch sp" and lnt: "length nt = length ch"
    and small: "length ch \<le> Suc (length (concat (take k pieces)))"
    and tok: "\<And>n. n < length ch \<Longrightarrow> nt ! n = - 1 \<or>
        (\<exists>t < k. spelt pieces eogs t \<and> nt ! n = int t \<and> pieces ! t = sp ! n)"
    and found: "\<And>t. t < k \<Longrightarrow> spelt pieces eogs t \<Longrightarrow> \<exists>n. path ch 0 (pieces ! t) n \<and> nt ! n = int t"
    using f unfolding filed_def by blast+
  have all: "length (concat (take (Suc k) pieces)) = length (concat (take k pieces)) + length (pieces ! k)"
    using k by (simp add: take_Suc_conv_app_nth)
  have "Suc (length (concat (take (Suc k) pieces))) \<le> 2 ^ 32"
    using concat_take_le [of "Suc k" pieces] sz unfolding sized_def by linarith
  then have room: "length ch + length (pieces ! k) \<le> 2 ^ 32" using small all by linarith
  have pos: "0 < length ch" using trieD(1,2) [OF tr] by (cases sp) auto
  obtain ext where tr': "trie ch' (sp @ ext)" and gr: "grown ch ch'" and pa: "path ch' 0 (pieces ! k) node"
    and node: "node < length ch'" and len: "length ch' \<le> length ch + length (pieces ! k)"
    and nt': "nt' = nt @ replicate (length ch' - length ch) (- 1)"
    using trie_insert_correct [OF tr lnt pos room ins] by blast
  have le: "length ch \<le> length ch'" using gr by (simp add: grown_def)
  have lnt': "length nt' = length ch'" using nt' lnt le by simp
  have i32: "as_i32 k = int k" using k sz by (simp add: as_i32_def sized_def)
  have pos': "0 < length ch'" using pos le by linarith
  have sp_node: "(sp @ ext) ! node = pieces ! k"
    using path_spell [OF tr' pos' pa] trieD(3) [OF tr'] by simp
  let ?nt = "nt'[node := as_i32 k]"
  have at: "?nt ! n = (if n = node then int k else if n < length ch then nt ! n else - 1)"
    if "n < length ch'" for n
    using that node lnt lnt' by (simp add: nth_list_update i32 nt' nth_append)
  have "?nt ! n = - 1 \<or> (\<exists>t < Suc k. spelt pieces eogs t \<and> ?nt ! n = int t \<and> pieces ! t = (sp @ ext) ! n)"
    if n: "n < length ch'" for n
  proof (cases "n = node \<or> length ch \<le> n")
    case True
    then show ?thesis using at [OF n] spelt sp_node by auto
  next
    case False
    then have "(sp @ ext) ! n = sp ! n" using trieD(1) [OF tr] by (simp add: nth_append)
    then show ?thesis using at [OF n] tok [of n] False by (auto simp: less_Suc_eq)
  qed
  moreover have "\<exists>n. path ch' 0 (pieces ! t) n \<and> ?nt ! n = int t"
    if t: "t < Suc k" "spelt pieces eogs t" for t
  proof (cases "t = k")
    case True
    then show ?thesis using pa at [OF node] by auto
  next
    case False
    then have "t < k" using t(1) by simp
    from found [OF this t(2)] obtain n where n: "path ch 0 (pieces ! t) n" "nt ! n = int t" by blast
    have nl: "n < length ch" using path_spell [OF tr pos n(1)] by simp
    have p': "path ch' 0 (pieces ! t) n" by (rule path_grown [OF tr gr pos n(1)])
    have "(sp @ ext) ! n = pieces ! t" using path_spell [OF tr' pos' p'] trieD(3) [OF tr'] by simp
    moreover have "pieces ! t \<noteq> pieces ! k" using un t False spelt k unfolding unambiguous_def by auto
    ultimately have "n \<noteq> node" using sp_node by auto
    then show ?thesis using p' at [of n] nl le n(2) by auto
  qed
  ultimately have "filed pieces eogs (Suc k) ch' ?nt (sp @ ext)"
    unfolding filed_def using tr' lnt' len small all by auto
  then show ?thesis by blast
qed

lemma marked_step:
  assumes m: "marked pieces eogs k b" and k: "k < length pieces" and sz: "sized pieces"
  shows "marked pieces eogs (Suc k) (add_piece eogs (k, pieces ! k) b)"
proof -
  have br: "b_breaking b = map (\<lambda>t. (t, pieces ! t))
        (filter (\<lambda>t. spelt pieces eogs t \<and> nl \<in> set (pieces ! t)) [0..<k])"
    and lf: "length (b_free_text b) = div_ceil (length pieces) 64"
    and ft: "\<And>t. t < length pieces \<Longrightarrow> tbit (b_free_text b) t \<longleftrightarrow>
          t \<notin> set eogs \<and> (t < k \<longrightarrow> spelt pieces eogs t \<and> nl \<notin> set (pieces ! t))"
    and pb: "b_piece_bytes b = concat (take k pieces)"
    and ps: "b_piece_start b = map (\<lambda>i. length (concat (take i pieces))) [0..<k]"
    using m unfolding marked_def by blast+
  have u32: "usize_as_u32 k = k" "usize_as_u32 (length (concat (take k pieces))) = length (concat (take k pieces))"
    using k sz concat_take_le [of k pieces] by (simp_all add: usize_as_u32_def sized_def)
  have word: "k div 64 < length (b_free_text b)" using word_of_token [OF k] lf by simp
  note clear = tbit_clear [OF word]
  have cat: "concat (take (Suc k) pieces) = concat (take k pieces) @ pieces ! k"
    using k by (simp add: take_Suc_conv_app_nth)
  show ?thesis
  proof (cases "spelt pieces eogs k")
    case False
    then show ?thesis
      using br lf ft clear u32 pb ps cat k
      by (auto simp: marked_def add_piece_def spelt_def less_Suc_eq)
  next
    case True
    show ?thesis
    proof (cases "nl \<in> set (pieces ! k)")
      case nl: True
      then show ?thesis using br lf ft clear u32 pb ps cat k True
        by (auto simp: marked_def add_piece_def spelt_def less_Suc_eq CLOSE_def split: prod.split)
    next
      case nl: False
      then show ?thesis using br lf ft clear u32 pb ps cat k True
        by (auto simp: marked_def add_piece_def spelt_def less_Suc_eq CLOSE_def split: prod.split)
    qed
  qed
qed

lemma filed_step:
  assumes f: "filed pieces eogs k (b_children b) (b_node_token b) sp" and k: "k < length pieces"
    and sz: "sized pieces" and un: "unambiguous pieces eogs"
  shows "\<exists>sp'. filed pieces eogs (Suc k) (b_children (add_piece eogs (k, pieces ! k) b))
      (b_node_token (add_piece eogs (k, pieces ! k) b)) sp'"
proof (cases "spelt pieces eogs k")
  case False
  have "usize_as_u32 k = k" using k sz by (simp add: usize_as_u32_def sized_def)
  then have "b_children (add_piece eogs (k, pieces ! k) b) = b_children b"
      "b_node_token (add_piece eogs (k, pieces ! k) b) = b_node_token b"
    using False by (auto simp: add_piece_def spelt_def)
  moreover have "filed pieces eogs (Suc k) (b_children b) (b_node_token b) sp"
    using f False k unfolding filed_def
    by (auto simp: less_Suc_eq take_Suc_conv_app_nth)
  ultimately show ?thesis by auto
next
  case True
  obtain ch' nt' node where ins: "trie_insert (b_children b) (b_node_token b) 0 (pieces ! k) = (ch', nt', node)"
    by (cases "trie_insert (b_children b) (b_node_token b) 0 (pieces ! k)")
  have "usize_as_u32 k = k" using k sz by (simp add: usize_as_u32_def sized_def)
  then have "b_children (add_piece eogs (k, pieces ! k) b) = ch'"
      "b_node_token (add_piece eogs (k, pieces ! k) b) = nt'[node := as_i32 k]"
    using True ins by (auto simp: add_piece_def spelt_def Let_def)
  then show ?thesis using filed_insert [OF f k sz un True ins] by simp
qed

lemma built:
  assumes sz: "sized pieces" and un: "unambiguous pieces eogs"
  defines "b \<equiv> fold (add_piece eogs) (enumerate 0 pieces)
      \<lparr>b_children = [[]], b_node_token = [- 1], b_breaking = [],
       b_free_text = free_text_init (length pieces) eogs, b_piece_bytes = [], b_piece_start = []\<rparr>"
  shows "\<exists>sp. filed pieces eogs (length pieces) (b_children b) (b_node_token b) sp"
    and "marked pieces eogs (length pieces) b"
proof -
  define b0 where "b0 = \<lparr>b_children = [[]], b_node_token = [- 1], b_breaking = [],
       b_free_text = free_text_init (length pieces) eogs, b_piece_bytes = [], b_piece_start = []\<rparr>"
  let ?b = "\<lambda>k. fold (add_piece eogs) (take k (enumerate 0 pieces)) b0"
  have next_b: "?b (Suc k) = add_piece eogs (k, pieces ! k) (?b k)" if "k < length pieces" for k
    using that by (simp add: take_Suc_conv_app_nth nth_enumerate_eq)
  have "(\<exists>sp. filed pieces eogs k (b_children (?b k)) (b_node_token (?b k)) sp) \<and> marked pieces eogs k (?b k)"
    if "k \<le> length pieces" for k
    using that
  proof (induction k)
    case 0
    have "filed pieces eogs 0 [[]] [- 1] [[]]" by (simp add: filed_def trie_def)
    moreover have "marked pieces eogs 0 b0"
      by (simp add: marked_def b0_def tbit_free_text_init length_free_text_init)
    ultimately show ?case by (auto simp: b0_def)
  next
    case (Suc k)
    then have k: "k < length pieces" by simp
    then show ?case
      using Suc.IH filed_step [OF _ k sz un] marked_step [OF _ k sz]
      unfolding next_b [OF k] by (meson less_imp_le_nat)
  qed
  from this [of "length pieces"] show "marked pieces eogs (length pieces) b"
      "\<exists>sp. filed pieces eogs (length pieces) (b_children b) (b_node_token b) sp"
    unfolding b_def b0_def by simp_all
qed

section \<open>The flattened arrays\<close>

definition edges_of :: "children \<Rightarrow> nat \<Rightarrow> (byte \<times> u32) list" where
  "edges_of ch n = sort_key (\<lambda>(byte, _). of_char byte :: nat) (ch ! n)"

definition offset :: "children \<Rightarrow> nat \<Rightarrow> nat" where
  "offset ch n = length (concat (take n ch))"

lemma length_edges_of [simp]: "length (edges_of ch n) = length (ch ! n)" "set (edges_of ch n) = set (ch ! n)"
  by (simp_all add: edges_of_def)

lemma flatten_eq:
  "flatten ch (s0, e0, t0) =
    (s0 @ map (\<lambda>i. usize_as_u32 (length e0 + offset ch i)) [0..<Suc (length ch)],
     e0 @ concat (map (\<lambda>n. map fst (edges_of ch n)) [0..<length ch]),
     t0 @ concat (map (\<lambda>n. map snd (edges_of ch n)) [0..<length ch]))"
proof (induction ch arbitrary: s0 e0 t0)
  case Nil
  then show ?case by (simp add: offset_def)
next
  case (Cons edges rest)
  have shift: "map f [0..<Suc n] = f 0 # map (\<lambda>i. f (Suc i)) [0..<n]" for f :: "nat \<Rightarrow> 'b" and n
    by (simp add: upt_conv_Cons map_Suc_upt [symmetric] del: upt_Suc)
  show ?case
    using Cons.IH
    by (simp add: shift [of _ "length rest"] shift [of _ "Suc (length rest)"] edges_of_def offset_def
        Let_def add.assoc del: upt_Suc)
qed

lemma nth_concat:
  "n < length xss \<Longrightarrow> j < length (xss ! n) \<Longrightarrow>
    length (concat (take n xss)) + j < length (concat xss)
    \<and> concat xss ! (length (concat (take n xss)) + j) = xss ! n ! j"
proof (induction xss arbitrary: n)
  case (Cons xs xss)
  then show ?case by (cases n) (auto simp: nth_append)
qed simp

lemma offset_Suc: "n < length ch \<Longrightarrow> offset ch (Suc n) = offset ch n + length (ch ! n)"
  by (simp add: offset_def take_Suc_conv_app_nth)

end
