(* ===== verification/MachineRun.thy ===== *)
theory MachineRun
  imports Machine
begin

text \<open>
  What the stepping functions of \<open>machine.rs\<close> compute, for any machine that is safe to run: the
  worklist of \<open>close\<close> is the set of cursors reachable over epsilon edges, and a run over a byte
  sequence keeps exactly the residual language of the root cursor (\<open>feed_residual\<close>). The language of a
  cursor is the inductive relation \<open>acc\<close>, which knows nothing of cursor lists, order or duplicates.
\<close>

section \<open>Epsilon edges\<close>

definition eps_next :: "Machine \<Rightarrow> Cursor \<Rightarrow> Cursor list option option" where
  "eps_next m c = do {
     s \<leftarrow> at_index (m_states m) (cu_state c);
     case s of
       Split alts \<Rightarrow> Some (Some (map (\<lambda>alt. c\<lparr>cu_state := alt\<rparr>) alts))
     | EnterTool tool nxt \<Rightarrow> Some (Some [\<lparr>cu_state = nxt, cu_tool = tool, cu_written = 0\<rparr>])
     | Mark param nxt \<Rightarrow> Some (Some (if cu_written c AND param_bit param = 0
         then [c\<lparr>cu_state := nxt, cu_written := cu_written c OR param_bit param\<rparr>] else []))
     | RequireAll nxt \<Rightarrow> do {
         required \<leftarrow> at_index (m_required m) (cu_tool c);
         Some (Some (if cu_written c AND required = required then [c\<lparr>cu_state := nxt\<rparr>] else []))
       }
     | _ \<Rightarrow> Some None
   }"

lemma close_loop_eps:
  "close_loop m (work @ [c]) out = do {
     e \<leftarrow> eps_next m c;
     case e of None \<Rightarrow> close_loop m work (push_unique out c)
     | Some cs \<Rightarrow> close_loop m (work @ cs) out
   }"
  by (subst close_loop.simps)
    (simp add: vec_pop_def eps_next_def Let_def split: State.split option.split bind_split)

lemma close_loop_Nil [simp]: "close_loop m [] out = Some out"
  by (subst close_loop.simps) (simp add: vec_pop_def)

inductive halts :: "Machine \<Rightarrow> Cursor \<Rightarrow> bool" for m where
  stop: "eps_next m c = Some None \<Longrightarrow> halts m c"
| expand: "eps_next m c = Some (Some cs) \<Longrightarrow> (\<And>d. d \<in> set cs \<Longrightarrow> halts m d) \<Longrightarrow> halts m c"

inductive eps_reach :: "Machine \<Rightarrow> Cursor \<Rightarrow> Cursor \<Rightarrow> bool" for m where
  here: "eps_next m c = Some None \<Longrightarrow> eps_reach m c c"
| there: "eps_next m c = Some (Some cs) \<Longrightarrow> d \<in> set cs \<Longrightarrow> eps_reach m d c' \<Longrightarrow> eps_reach m c c'"

inductive_simps eps_reach_iff: "eps_reach m c c'"

lemma set_push_unique [simp]: "set (push_unique out c) = insert c (set out)"
  by (auto simp: push_unique_def)

text \<open>A halting cursor on top of the stack is worked off before anything below it.\<close>

lemma work_off_list:
  assumes "\<And>d out. d \<in> set cs \<Longrightarrow> \<exists>out'. (\<forall>work. close_loop m (work @ [d]) out = close_loop m work out')
      \<and> set out' = set out \<union> {c'. eps_reach m d c'}"
  shows "\<exists>out'. (\<forall>work. close_loop m (work @ cs) out = close_loop m work out')
      \<and> set out' = set out \<union> {c'. \<exists>d \<in> set cs. eps_reach m d c'}"
  using assms
proof (induction cs arbitrary: out rule: rev_induct)
  case Nil
  then show ?case by auto
next
  case (snoc d cs)
  obtain out1 where one: "\<And>work. close_loop m (work @ [d]) out = close_loop m work out1"
    and set1: "set out1 = set out \<union> {c'. eps_reach m d c'}"
    using snoc.prems [of d out] by auto
  obtain out2 where two: "\<And>work. close_loop m (work @ cs) out1 = close_loop m work out2"
    and set2: "set out2 = set out1 \<union> {c'. \<exists>d \<in> set cs. eps_reach m d c'}"
    using snoc.IH [of out1] snoc.prems by auto
  have "close_loop m (work @ cs @ [d]) out = close_loop m work out2" for work
    using one [of "work @ cs"] two [of work] by simp
  then show ?case using set1 set2 by (intro exI [of _ out2]) auto
qed

lemma work_off:
  assumes "halts m c"
  shows "\<exists>out'. (\<forall>work. close_loop m (work @ [c]) out = close_loop m work out')
      \<and> set out' = set out \<union> {c'. eps_reach m c c'}"
  using assms
proof (induction arbitrary: out rule: halts.induct)
  case (stop c)
  then show ?case
    by (intro exI [of _ "push_unique out c"]) (auto simp: close_loop_eps eps_reach_iff [of m c])
next
  case (expand c cs)
  obtain out' where "\<And>work. close_loop m (work @ cs) out = close_loop m work out'"
    and "set out' = set out \<union> {c'. \<exists>d \<in> set cs. eps_reach m d c'}"
    using work_off_list [OF expand.IH, of cs out] by blast
  then show ?case using expand.hyps(1)
    by (intro exI [of _ out']) (auto simp: close_loop_eps eps_reach_iff [of m c])
qed

lemma close_correct:
  assumes "\<And>c. c \<in> set cs \<Longrightarrow> halts m c"
  shows "\<exists>out. close m cs = Some out \<and> set out = {c'. \<exists>c \<in> set cs. eps_reach m c c'}"
proof -
  obtain out where "\<And>work. close_loop m (work @ cs) [] = close_loop m work out"
    and "set out = {c'. \<exists>d \<in> set cs. eps_reach m d c'}"
    using work_off_list [of cs m "[]"] work_off assms by auto
  then show ?thesis by (metis append_Nil close_def close_loop_Nil)
qed

lemma eps_reach_stops: "eps_reach m c c' \<Longrightarrow> eps_next m c' = Some None"
  by (induction rule: eps_reach.induct) auto

section \<open>The language of a cursor\<close>

inductive acc :: "Machine \<Rightarrow> Cursor \<Rightarrow> bytes \<Rightarrow> bool" for m where
  finish: "at_index (m_states m) (cu_state c) = Some Accept \<Longrightarrow> acc m c []"
| eat: "move m b c = Some (Some c') \<Longrightarrow> acc m c' w \<Longrightarrow> acc m c (b # w)"
| eps: "eps_next m c = Some (Some cs) \<Longrightarrow> d \<in> set cs \<Longrightarrow> acc m d w \<Longrightarrow> acc m c w"

inductive_simps acc_iff: "acc m c w"

lemma stop_cases:
  assumes "eps_next m c = Some None"
  shows "(\<exists>b n. at_index (m_states m) (cu_state c) = Some (Byte b n))
    \<or> (\<exists>k n. at_index (m_states m) (cu_state c) = Some (Until k n))
    \<or> at_index (m_states m) (cu_state c) = Some Accept"
  using assms by (cases "at_index (m_states m) (cu_state c)")
    (auto simp: eps_next_def bind_eq_Some_conv split: State.splits)

lemma eps_no_move:
  assumes "eps_next m c = Some (Some cs)"
  shows "move m b c \<noteq> Some (Some d)"
proof -
  obtain s where s: "at_index (m_states m) (cu_state c) = Some s"
    using assms by (auto simp: eps_next_def bind_eq_Some_conv)
  show ?thesis using assms by (cases s) (simp_all add: eps_next_def move_def s)
qed

lemma eps_no_finish:
  "eps_next m c = Some (Some cs) \<Longrightarrow> at_index (m_states m) (cu_state c) \<noteq> Some Accept"
  by (auto simp: eps_next_def)

lemma acc_eps_iff:
  "eps_next m c = Some (Some cs) \<Longrightarrow> acc m c w \<longleftrightarrow> (\<exists>d \<in> set cs. acc m d w)"
  by (subst acc_iff) (auto dest: eps_no_move eps_no_finish)

lemma acc_eat_iff:
  "eps_next m c = Some None \<Longrightarrow> acc m c (b # w) \<longleftrightarrow> (\<exists>d. move m b c = Some (Some d) \<and> acc m d w)"
  by (subst acc_iff) auto

lemma acc_Nil_iff:
  "eps_next m c = Some None \<Longrightarrow> acc m c [] \<longleftrightarrow> at_index (m_states m) (cu_state c) = Some Accept"
  by (subst acc_iff) auto

lemma acc_reach:
  assumes "halts m c"
  shows "acc m c w \<longleftrightarrow> (\<exists>c'. eps_reach m c c' \<and> acc m c' w)"
  using assms
proof (induction rule: halts.induct)
  case (stop c)
  then show ?case by (auto simp: eps_reach_iff [of m c])
next
  case (expand c cs)
  then show ?case by (auto simp: eps_reach_iff [of m c] acc_eps_iff)
qed

section \<open>Runs\<close>

text \<open>
  The loop that feeds a token's bytes to the machine, stopping at the first byte no cursor survives:
  the armed branch of \<open>ToolConstraint::observe_bytes\<close>.
\<close>

fun feed :: "Machine \<Rightarrow> Cursor list \<Rightarrow> bytes \<Rightarrow> (Cursor list \<times> bool) option" where
  "feed m cursors [] = Some (cursors, True)"
| "feed m cursors (b # bs) = do {
     (cursors, ok) \<leftarrow> machine_step m cursors b;
     if ok then feed m cursors bs else Some (cursors, False)
   }"

text \<open>A set of cursors a machine can be run in: no panic, no endless closure, and closed under steps.\<close>

definition safe :: "Machine \<Rightarrow> (Cursor \<Rightarrow> bool) \<Rightarrow> bool" where
  "safe m G \<longleftrightarrow> (\<forall>c. G c \<longrightarrow> halts m c
     \<and> (\<forall>cs. eps_next m c = Some (Some cs) \<longrightarrow> (\<forall>d \<in> set cs. G d))
     \<and> (\<forall>b. move m b c \<noteq> None)
     \<and> (\<forall>b d. move m b c = Some (Some d) \<longrightarrow> G d))"

lemma safeD:
  assumes "safe m G" and "G c"
  shows "halts m c" and "eps_next m c = Some (Some cs) \<Longrightarrow> d \<in> set cs \<Longrightarrow> G d"
    and "\<exists>o'. move m b c = Some o'" and "move m b c = Some (Some d) \<Longrightarrow> G d"
  using assms unfolding safe_def by blast+

lemma safe_reach: "eps_reach m c c' \<Longrightarrow> safe m G \<Longrightarrow> G c \<Longrightarrow> G c'"
  by (induction rule: eps_reach.induct) (blast dest: safeD(2))+

lemma move_all_correct:
  assumes "safe m G" and "\<And>c. c \<in> set cs \<Longrightarrow> G c"
  shows "\<exists>out'. move_all m b cs out = Some out'
    \<and> set out' = set out \<union> {d. \<exists>c \<in> set cs. move m b c = Some (Some d)}"
  using assms(2)
proof (induction cs arbitrary: out)
  case Nil
  then show ?case by simp
next
  case (Cons c cs)
  obtain mv where mv: "move m b c = Some mv" using safeD(3) [OF assms(1)] Cons.prems by force
  from Cons.IH [of "case mv of None \<Rightarrow> out | Some d \<Rightarrow> push_unique out d"] Cons.prems
  show ?case using mv by (cases mv) auto
qed

text \<open>Closed cursor sets: what \<open>close\<close> leaves.\<close>

definition closed :: "Machine \<Rightarrow> (Cursor \<Rightarrow> bool) \<Rightarrow> Cursor list \<Rightarrow> bool" where
  "closed m G cs \<longleftrightarrow> (\<forall>c \<in> set cs. G c \<and> eps_next m c = Some None)"

definition lang :: "Machine \<Rightarrow> Cursor list \<Rightarrow> bytes set" where
  "lang m cs = {w. \<exists>c \<in> set cs. acc m c w}"

lemma close_lang:
  assumes safe: "safe m G" and G: "\<And>c. c \<in> set cs \<Longrightarrow> G c"
  shows "\<exists>out. close m cs = Some out \<and> closed m G out \<and> lang m out = lang m cs"
proof -
  have halt: "\<And>c. c \<in> set cs \<Longrightarrow> halts m c" using safeD(1) [OF safe] G by blast
  obtain out where out: "close m cs = Some out"
    and set_out: "set out = {c'. \<exists>c \<in> set cs. eps_reach m c c'}"
    using close_correct [of cs m] halt by blast
  have "closed m G out"
    unfolding closed_def set_out using safe_reach [OF _ safe] G eps_reach_stops by blast
  moreover have "lang m out = lang m cs"
    unfolding lang_def set_out using acc_reach [OF halt] by blast
  ultimately show ?thesis using out by blast
qed

lemma step_lang:
  assumes safe: "safe m G" and cl: "closed m G cs"
  shows "\<exists>out. machine_step m cs b = Some (out, out \<noteq> []) \<and> closed m G out
    \<and> (\<forall>w. w \<in> lang m out \<longleftrightarrow> b # w \<in> lang m cs)"
proof -
  have G: "\<And>c. c \<in> set cs \<Longrightarrow> G c" and stop: "\<And>c. c \<in> set cs \<Longrightarrow> eps_next m c = Some None"
    using cl by (auto simp: closed_def)
  obtain mid where mid: "move_all m b cs [] = Some mid"
    and set_mid: "set mid = {d. \<exists>c \<in> set cs. move m b c = Some (Some d)}"
    using move_all_correct [OF safe G, of cs b "[]"] by auto
  have "\<And>c. c \<in> set mid \<Longrightarrow> G c" using set_mid G safeD(4) [OF safe] by blast
  from close_lang [OF safe this] obtain out where "close m mid = Some out" and "closed m G out"
    and same: "lang m out = lang m mid" by blast
  moreover have "w \<in> lang m out \<longleftrightarrow> b # w \<in> lang m cs" for w
  proof -
    have "w \<in> lang m mid \<longleftrightarrow> b # w \<in> lang m cs"
      using acc_eat_iff [OF stop] by (auto simp: lang_def set_mid)
    then show ?thesis by (simp add: same)
  qed
  ultimately show ?thesis using mid by (auto simp: machine_step_def)
qed

lemma accepts_end_lang: "closed m G cs \<Longrightarrow> accepts_end m cs \<longleftrightarrow> [] \<in> lang m cs"
  by (auto simp: accepts_end_def lang_def closed_def acc_Nil_iff)

text \<open>
  The set a run ends in has exactly the residual language; a run that reports failure has died on a
  prefix, with nothing left to accept.
\<close>

lemma feed_residual:
  assumes safe: "safe m G"
  shows "closed m G cs \<Longrightarrow> \<exists>out ok. feed m cs u = Some (out, ok) \<and> closed m G out
    \<and> (ok \<longrightarrow> (\<forall>w. w \<in> lang m out \<longleftrightarrow> u @ w \<in> lang m cs))
    \<and> (\<not> ok \<longrightarrow> out = [] \<and> (\<forall>w. u @ w \<notin> lang m cs))"
proof (induction u arbitrary: cs)
  case Nil
  then show ?case by (intro exI [of _ cs] exI [of _ True]) simp
next
  case (Cons b u)
  obtain mid where mid: "machine_step m cs b = Some (mid, mid \<noteq> [])" "closed m G mid"
    and res: "\<And>w. w \<in> lang m mid \<longleftrightarrow> b # w \<in> lang m cs"
    using step_lang [OF safe Cons.prems] by blast
  show ?case
  proof (cases "mid = []")
    case True
    then have "\<And>w. b # w \<notin> lang m cs" using res by (simp add: lang_def)
    then show ?thesis using mid True by auto
  next
    case False
    from Cons.IH [OF mid(2)] show ?thesis using mid(1) False res by auto
  qed
qed

lemma closed_alive:
  assumes "\<And>c. G c \<Longrightarrow> eps_next m c = Some None \<Longrightarrow> \<exists>w. acc m c w" and "closed m G cs"
  shows "cs \<noteq> [] \<longleftrightarrow> (\<exists>w. w \<in> lang m cs)"
  using assms(1) [of "hd cs"] assms(2) by (cases cs) (auto simp: closed_def lang_def)

end
