(* ===== verification/MachineFrag.thy ===== *)
theory MachineFrag
  imports MachineRun
begin

text \<open>
  An algebra of compiled fragments. \<open>frag m I s n A\<close> says of a finished machine \<open>m\<close> that the states
  numbered \<open>I\<close>, entered at \<open>s\<close> and left at \<open>n\<close>, read exactly the byte strings of \<open>A\<close>, whatever the
  registers, and that they are sound to run: their edges stay inside the machine, their closures end,
  and from each of them the exit can still be reached. One rule per combinator of the builder (byte,
  sequence, alternative, repetition, free text); the languages of the number and value builders are
  composed from them.
\<close>

section \<open>Languages by state\<close>

definition conc :: "bytes set \<Rightarrow> bytes set \<Rightarrow> bytes set" where
  "conc A B = {u @ v | u v. u \<in> A \<and> v \<in> B}"

lemma conc_assoc: "conc (conc A B) C = conc A (conc B C)"
  unfolding conc_def by (auto, metis append.assoc, metis append.assoc)

lemma conc_eps [simp]: "conc {[]} A = A" "conc A {[]} = A"
  by (auto simp: conc_def)

lemma conc_Un: "conc (A \<union> B) C = conc A C \<union> conc B C"
  by (auto simp: conc_def)

lemma conc_UN: "conc (\<Union>x \<in> X. f x) C = (\<Union>x \<in> X. conc (f x) C)"
  by (auto simp: conc_def)

lemma conc_single: "conc {u} B = (\<lambda>v. u @ v) ` B"
  by (auto simp: conc_def)

lemma conc_single_single: "conc {u} {v} = {u @ v}"
  by (auto simp: conc_def)

lemma conc_nonempty: "A \<noteq> {} \<Longrightarrow> B \<noteq> {} \<Longrightarrow> conc A B \<noteq> {}"
  by (auto simp: conc_def)

lemma concI: "u \<in> A \<Longrightarrow> v \<in> B \<Longrightarrow> u @ v \<in> conc A B"
  by (auto simp: conc_def)

definition L :: "Machine \<Rightarrow> u32 \<Rightarrow> u16 \<Rightarrow> 64 word \<Rightarrow> bytes set" where
  "L m s t wr = {w. acc m \<lparr>cu_state = s, cu_tool = t, cu_written = wr\<rparr> w}"

abbreviation at_state :: "Machine \<Rightarrow> u32 \<Rightarrow> State option" where
  "at_state m i \<equiv> at_index (m_states m) i"

named_theorems frag_lang \<open>the language of a state from those of its successors\<close>

lemma L_eps:
  assumes "eps_next m \<lparr>cu_state = s, cu_tool = t, cu_written = wr\<rparr> = Some (Some cs)"
  shows "L m s t wr = (\<Union>d \<in> set cs. {w. acc m d w})"
  using acc_eps_iff [OF assms] by (auto simp: L_def)

lemma L_byte [frag_lang]:
  assumes "at_state m s = Some (Byte b n)"
  shows "L m s t wr = conc {[b]} (L m n t wr)"
proof -
  let ?c = "\<lparr>cu_state = s, cu_tool = t, cu_written = wr\<rparr>"
  have stop: "eps_next m ?c = Some None" by (simp add: eps_next_def assms)
  have "w \<in> L m s t wr \<longleftrightarrow> w \<in> conc {[b]} (L m n t wr)" for w
    using acc_eat_iff [OF stop] acc_Nil_iff [OF stop]
    by (cases w) (auto simp: L_def conc_single move_def assms)
  then show ?thesis by blast
qed

lemma L_split [frag_lang]:
  assumes "at_state m s = Some (Split alts)"
  shows "L m s t wr = (\<Union>a \<in> set alts. L m a t wr)"
proof -
  let ?c = "\<lparr>cu_state = s, cu_tool = t, cu_written = wr\<rparr>"
  have "eps_next m ?c = Some (Some (map (\<lambda>a. ?c\<lparr>cu_state := a\<rparr>) alts))"
    by (simp add: eps_next_def assms)
  from L_eps [OF this] show ?thesis by (auto simp: L_def)
qed

lemma L_enter [frag_lang]:
  assumes "at_state m s = Some (EnterTool tool n)"
  shows "L m s t wr = L m n tool 0"
proof -
  have "eps_next m \<lparr>cu_state = s, cu_tool = t, cu_written = wr\<rparr>
      = Some (Some [\<lparr>cu_state = n, cu_tool = tool, cu_written = 0\<rparr>])"
    by (simp add: eps_next_def assms)
  from L_eps [OF this] show ?thesis by (simp add: L_def)
qed

lemma L_mark [frag_lang]:
  assumes "at_state m s = Some (Mark p n)"
  shows "L m s t wr = (if wr AND param_bit p = 0 then L m n t (wr OR param_bit p) else {})"
proof -
  have "eps_next m \<lparr>cu_state = s, cu_tool = t, cu_written = wr\<rparr> = Some (Some
      (if wr AND param_bit p = 0
       then [\<lparr>cu_state = n, cu_tool = t, cu_written = wr OR param_bit p\<rparr>] else []))"
    by (simp add: eps_next_def assms)
  from L_eps [OF this] show ?thesis by (simp add: L_def)
qed

lemma L_require [frag_lang]:
  assumes "at_state m s = Some (RequireAll n)" and "at_index (m_required m) t = Some r"
  shows "L m s t wr = (if wr AND r = r then L m n t wr else {})"
proof -
  have "eps_next m \<lparr>cu_state = s, cu_tool = t, cu_written = wr\<rparr> = Some (Some
      (if wr AND r = r then [\<lparr>cu_state = n, cu_tool = t, cu_written = wr\<rparr>] else []))"
    by (simp add: eps_next_def assms)
  from L_eps [OF this] show ?thesis by (simp add: L_def)
qed

lemma L_accept [frag_lang]:
  assumes "at_state m s = Some Accept"
  shows "L m s t wr = {[]}"
proof -
  let ?c = "\<lparr>cu_state = s, cu_tool = t, cu_written = wr\<rparr>"
  have stop: "eps_next m ?c = Some None" by (simp add: eps_next_def assms)
  have "w \<in> L m s t wr \<longleftrightarrow> w = []" for w
    using acc_eat_iff [OF stop] acc_Nil_iff [OF stop]
    by (cases w) (auto simp: L_def move_def assms)
  then show ?thesis by blast
qed

section \<open>Sound states\<close>

text \<open>
  A scope assigns to a state the tool its cursors have committed to, if any. An edge may stay in its
  scope or leave it, and only \<open>EnterTool\<close> enters one.
\<close>

type_synonym scope = "u32 \<Rightarrow> u16 option"

definition in_scope :: "scope \<Rightarrow> u32 \<Rightarrow> u16 \<Rightarrow> bool" where
  "in_scope R i t \<longleftrightarrow> R i = None \<or> R i = Some t"

definition link :: "Machine \<Rightarrow> scope \<Rightarrow> u32 \<Rightarrow> u32 \<Rightarrow> bool" where
  "link m R i n \<longleftrightarrow> n < length (m_states m) \<and> (R n = None \<or> R n = R i)"

definition ok_state :: "Machine \<Rightarrow> scope \<Rightarrow> u32 \<Rightarrow> bool" where
  "ok_state m R i \<longleftrightarrow> (case at_state m i of
      None \<Rightarrow> False
    | Some (Byte b n) \<Rightarrow> link m R i n
    | Some (Split alts) \<Rightarrow> (\<forall>a \<in> set alts. link m R i a)
    | Some (EnterTool tool n) \<Rightarrow> n < length (m_states m) \<and> in_scope R n tool
    | Some (Mark p n) \<Rightarrow> link m R i n
    | Some (RequireAll n) \<Rightarrow> link m R i n \<and> (\<exists>t. R i = Some t \<and> t < length (m_required m))
    | Some (Until k n) \<Rightarrow> link m R i n \<and> k < length CLOSE \<and> k \<le> i \<and> i < 2 ^ 32
        \<and> (\<forall>j < length CLOSE. i - k + j < 2 ^ 32 \<and> link m R i (i - k + j))
    | Some Accept \<Rightarrow> True)"

definition ends :: "Machine \<Rightarrow> scope \<Rightarrow> u32 \<Rightarrow> bool" where
  "ends m R i \<longleftrightarrow> (\<forall>t wr. in_scope R i t \<longrightarrow>
     halts m \<lparr>cu_state = i, cu_tool = t, cu_written = wr\<rparr>)"

definition live :: "Machine \<Rightarrow> scope \<Rightarrow> u32 \<Rightarrow> bool" where
  "live m R i \<longleftrightarrow> (\<forall>t wr. in_scope R i t \<longrightarrow> L m i t wr \<noteq> {})"

definition fine :: "Machine \<Rightarrow> scope \<Rightarrow> u32 \<Rightarrow> bool" where
  "fine m R i \<longleftrightarrow> ok_state m R i \<and> ends m R i \<and> live m R i"

lemma link_scope: "link m R i n \<Longrightarrow> in_scope R i t \<Longrightarrow> in_scope R n t"
  by (auto simp: link_def in_scope_def)

lemma at_state_less: "at_state m i = Some s \<Longrightarrow> i < length (m_states m)"
  by (simp add: at_index_def split: if_splits)

lemma ends_stop: "at_state m i = Some s \<Longrightarrow> (\<exists>b n. s = Byte b n) \<or> (\<exists>k n. s = Until k n) \<or> s = Accept
  \<Longrightarrow> ends m R i"
  by (auto simp: ends_def eps_next_def intro!: halts.stop)

lemma ends_split:
  assumes "at_state m i = Some (Split alts)"
    and "\<And>a. a \<in> set alts \<Longrightarrow> link m R i a \<and> ends m R a"
  shows "ends m R i"
  unfolding ends_def
proof (intro allI impI)
  fix t wr assume sc: "in_scope R i t"
  let ?c = "\<lparr>cu_state = i, cu_tool = t, cu_written = wr\<rparr>"
  have nxt: "eps_next m ?c = Some (Some (map (\<lambda>a. ?c\<lparr>cu_state := a\<rparr>) alts))"
    by (simp add: eps_next_def assms(1))
  have each: "halts m (?c\<lparr>cu_state := a\<rparr>)" if "a \<in> set alts" for a
    using assms(2) [OF that] link_scope [OF _ sc] by (auto simp: ends_def)
  show "halts m ?c" by (rule halts.expand [OF nxt]) (use each in auto)
qed

lemma fine_byte:
  assumes "at_state m i = Some (Byte b n)" and "link m R i n" and "live m R n"
  shows "fine m R i"
proof -
  have "live m R i"
    using assms link_scope by (auto simp: live_def L_byte [OF assms(1)] conc_single)
  then show ?thesis using assms ends_stop [OF assms(1)] by (simp add: fine_def ok_state_def)
qed

lemma fine_split:
  assumes "at_state m i = Some (Split alts)"
    and "\<And>a. a \<in> set alts \<Longrightarrow> link m R i a \<and> ends m R a"
    and "\<exists>a \<in> set alts. live m R a"
  shows "fine m R i"
proof -
  have "live m R i"
    unfolding live_def L_split [OF assms(1)] using assms(2,3) link_scope
    by (fastforce simp: live_def)
  then show ?thesis using assms ends_split [OF assms(1,2)] by (simp add: fine_def ok_state_def)
qed

section \<open>Fragments\<close>

definition exit_ok :: "Machine \<Rightarrow> scope \<Rightarrow> u32 set \<Rightarrow> u16 option \<Rightarrow> u32 \<Rightarrow> bool" where
  "exit_ok m R I r n \<longleftrightarrow> n < length (m_states m) \<and> (R n = None \<or> R n = r)
     \<and> ends m R n \<and> live m R n \<and> (\<forall>i \<in> I. R i = r)"

definition frag :: "Machine \<Rightarrow> u32 set \<Rightarrow> u32 \<Rightarrow> u32 \<Rightarrow> bytes set \<Rightarrow> bool" where
  "frag m I s n A \<longleftrightarrow> (\<forall>t wr. L m s t wr = conc A (L m n t wr))
     \<and> (s \<in> I \<or> s = n) \<and> (\<forall>R r. exit_ok m R I r n \<longrightarrow> (\<forall>i \<in> I. fine m R i))"

lemma fragD:
  assumes "frag m I s n A"
  shows "L m s t wr = conc A (L m n t wr)"
    and "exit_ok m R I r n \<Longrightarrow> i \<in> I \<Longrightarrow> fine m R i"
    and "exit_ok m R I r n \<Longrightarrow> s < length (m_states m) \<and> (R s = None \<or> R s = r)
      \<and> ends m R s \<and> live m R s"
proof -
  show "L m s t wr = conc A (L m n t wr)" using assms by (simp add: frag_def)
  show fine: "exit_ok m R I r n \<Longrightarrow> i \<in> I \<Longrightarrow> fine m R i" for i
    using assms unfolding frag_def by blast
  assume ex: "exit_ok m R I r n"
  show "s < length (m_states m) \<and> (R s = None \<or> R s = r) \<and> ends m R s \<and> live m R s"
  proof (cases "s = n")
    case True
    then show ?thesis using ex by (simp add: exit_ok_def)
  next
    case False
    then have "s \<in> I" using assms by (simp add: frag_def)
    with fine [OF ex this] ex show ?thesis
      by (auto simp: fine_def exit_ok_def ok_state_def at_index_def split: option.splits if_splits)
  qed
qed

lemma exit_ok_mono: "exit_ok m R I r n \<Longrightarrow> J \<subseteq> I \<Longrightarrow> exit_ok m R J r n"
  by (auto simp: exit_ok_def)

lemma exit_ok_link: "exit_ok m R I r n \<Longrightarrow> i \<in> I \<Longrightarrow> link m R i n"
  by (auto simp: exit_ok_def link_def)

lemma exit_ok_entry:
  "frag m J s n A \<Longrightarrow> exit_ok m R I r n \<Longrightarrow> J \<subseteq> I \<Longrightarrow> exit_ok m R I r s"
  using fragD(3) [of m J s n A R r] exit_ok_mono [of m R I r n J] by (auto simp: exit_ok_def)

lemma frag_skip: "frag m {} n n {[]}"
  by (simp add: frag_def)

lemma frag_byte: "at_state m i = Some (Byte b n) \<Longrightarrow> frag m {i} i n {[b]}"
  unfolding frag_def
  by (simp add: L_byte) (auto intro!: fine_byte simp: exit_ok_def link_def)

lemma frag_seq:
  assumes "frag m J s mid A" and "frag m I mid n B"
  shows "frag m (J \<union> I) s n (conc A B)"
  unfolding frag_def
proof (intro conjI allI impI ballI)
  show "L m s t wr = conc (conc A B) (L m n t wr)" for t wr
    by (simp add: fragD(1) [OF assms(1)] fragD(1) [OF assms(2)] conc_assoc)
  show "s \<in> J \<union> I \<or> s = n" using assms by (auto simp: frag_def)
  fix R r i assume ex: "exit_ok m R (J \<union> I) r n" and i: "i \<in> J \<union> I"
  have "exit_ok m R I r n" using ex by (rule exit_ok_mono) simp
  moreover have "exit_ok m R J r mid"
    using exit_ok_entry [OF assms(2) ex] exit_ok_mono by blast
  ultimately show "fine m R i" using i fragD(2) [OF assms(1)] fragD(2) [OF assms(2)] by blast
qed

lemma list_all2_member:
  assumes "list_all2 P xs ys"
  shows "x \<in> set xs \<Longrightarrow> \<exists>y \<in> set ys. P x y" and "y \<in> set ys \<Longrightarrow> \<exists>x \<in> set xs. P x y"
  using assms by (induction rule: list_all2_induct) auto

lemma frag_alts:
  assumes at: "at_state m i = Some (Split alts)" and ne: "alts \<noteq> []"
    and each: "list_all2 (\<lambda>a p. frag m (fst p) a n (snd p)) alts ps"
  shows "frag m (insert i (\<Union>p \<in> set ps. fst p)) i n (\<Union>p \<in> set ps. snd p)"
  unfolding frag_def
proof (intro conjI allI impI ballI)
  have one: "\<exists>p \<in> set ps. frag m (fst p) a n (snd p)" if "a \<in> set alts" for a
    using list_all2_member(1) [OF each that] .
  have other: "\<exists>a \<in> set alts. frag m (fst p) a n (snd p)" if "p \<in> set ps" for p
    using list_all2_member(2) [OF each that] .
  show "L m i t wr = conc (\<Union>p \<in> set ps. snd p) (L m n t wr)" for t wr
    unfolding L_split [OF at] conc_UN
  proof
    show "(\<Union>a \<in> set alts. L m a t wr) \<subseteq> (\<Union>p \<in> set ps. conc (snd p) (L m n t wr))"
      using one fragD(1) by fast
    show "(\<Union>p \<in> set ps. conc (snd p) (L m n t wr)) \<subseteq> (\<Union>a \<in> set alts. L m a t wr)"
      using other fragD(1) by fast
  qed
  show "i \<in> insert i (\<Union>p \<in> set ps. fst p) \<or> i = n" by simp
  fix R r j assume ex: "exit_ok m R (insert i (\<Union>p \<in> set ps. fst p)) r n"
    and j: "j \<in> insert i (\<Union>p \<in> set ps. fst p)"
  have entry: "exit_ok m R {i} r a" if a: "a \<in> set alts" for a
  proof -
    obtain p where "p \<in> set ps" "frag m (fst p) a n (snd p)" using one [OF a] by blast
    then show ?thesis using exit_ok_entry [OF _ ex, of "fst p" a] exit_ok_mono by blast
  qed
  show "fine m R j"
  proof (cases "j = i")
    case True
    show ?thesis unfolding True
    proof (rule fine_split [OF at])
      fix a assume "a \<in> set alts"
      from entry [OF this] show "link m R i a \<and> ends m R a"
        by (auto simp: exit_ok_def link_def)
    next
      show "\<exists>a \<in> set alts. live m R a"
        using ne entry by (cases alts) (auto simp: exit_ok_def)
    qed
  next
    case False
    then obtain p where p: "p \<in> set ps" "j \<in> fst p" using j by blast
    obtain a where "frag m (fst p) a n (snd p)" using other [OF p(1)] by blast
    moreover have "exit_ok m R (fst p) r n" using ex by (rule exit_ok_mono) (use p in blast)
    ultimately show ?thesis using p(2) fragD(2) by blast
  qed
qed

lemma frag_alt2:
  assumes "at_state m i = Some (Split [a, b])" and "frag m I a n A" and "frag m J b n B"
  shows "frag m (insert i (I \<union> J)) i n (A \<union> B)"
  using frag_alts [OF assms(1), of n "[(I, A), (J, B)]"] assms(2,3) by simp

lemma frag_alt3:
  assumes "at_state m i = Some (Split [a, b, c])" and "frag m I a n A" and "frag m J b n B"
    and "frag m K c n C"
  shows "frag m (insert i (I \<union> J \<union> K)) i n (A \<union> B \<union> C)"
  using frag_alts [OF assms(1), of n "[(I, A), (J, B), (K, C)]"] assms(2-4)
  by (simp add: Un_assoc)

inductive_set star :: "bytes set \<Rightarrow> bytes set" for A where
  star_Nil: "[] \<in> star A"
| star_app: "u \<in> A \<Longrightarrow> v \<in> star A \<Longrightarrow> u @ v \<in> star A"

text \<open>
  A loop through a placeholder: its body must start at byte states, so the closure of the placeholder
  ends, and may not read the empty string, so the length of the input bounds the rounds.
\<close>

lemma frag_loop:
  assumes at: "at_state m i = Some (Split [again, n])"
    and body: "frag m J again i D" and ne: "[] \<notin> D"
    and entry: "again \<in> J" "again < length (m_states m)"
    and again_ends: "\<And>R. ends m R again"
  shows "frag m (insert i J) i n (star D)"
  unfolding frag_def
proof (intro conjI allI impI ballI)
  have unfold: "L m i t wr = conc D (L m i t wr) \<union> L m n t wr" for t wr
    using L_split [OF at, of t wr] fragD(1) [OF body, of t wr] by simp
  show "L m i t wr = conc (star D) (L m n t wr)" for t wr
  proof
    show "L m i t wr \<subseteq> conc (star D) (L m n t wr)"
    proof
      fix w show "w \<in> L m i t wr \<Longrightarrow> w \<in> conc (star D) (L m n t wr)"
      proof (induction w rule: length_induct)
        case (1 w)
        show ?case
        proof (cases "w \<in> L m n t wr")
          case True
          then show ?thesis using concI [OF star_Nil True] by simp
        next
          case False
          then obtain u v where w: "w = u @ v" "u \<in> D" "v \<in> L m i t wr"
            using 1(2) unfold [of t wr] unfolding conc_def by blast
          then have "length v < length w" using ne by (cases u) auto
          then have "v \<in> conc (star D) (L m n t wr)" using 1(1) w(3) by blast
          then obtain x y where v: "v = x @ y" "x \<in> star D" "y \<in> L m n t wr"
            by (auto simp: conc_def)
          have "(u @ x) @ y \<in> conc (star D) (L m n t wr)"
            using star_app [OF w(2) v(2)] v(3) by (rule concI)
          then show ?thesis using w(1) v(1) by simp
        qed
      qed
    qed
    have "x \<in> star D \<Longrightarrow> y \<in> L m n t wr \<Longrightarrow> x @ y \<in> L m i t wr" for x y
    proof (induction rule: star.induct)
      case star_Nil
      then show ?case using unfold by auto
    next
      case (star_app u v)
      then have "u @ (v @ y) \<in> conc D (L m i t wr)" by (intro concI) auto
      then show ?case using unfold by (metis UnI1 append.assoc)
    qed
    then show "conc (star D) (L m n t wr) \<subseteq> L m i t wr" by (auto simp: conc_def)
  qed
  show "i \<in> insert i J \<or> i = n" by simp
  fix R r j assume ex: "exit_ok m R (insert i J) r n" and j: "j \<in> insert i J"
  have lk: "link m R i again" "link m R i n"
    using ex entry by (auto simp: exit_ok_def link_def)
  have fine_i: "fine m R i"
    using lk again_ends ex by (intro fine_split [OF at]) (auto simp: exit_ok_def)
  have "exit_ok m R J r i"
    using fine_i ex at_state_less [OF at] by (auto simp: exit_ok_def fine_def)
  then show "fine m R j" using j fine_i fragD(2) [OF body] by blast
qed

end
