(* ===== verification/MachineText.thy ===== *)
theory MachineText
  imports MachineFrag "HOL-Library.Sublist"
begin

text \<open>
  Free text: the chain of \<open>Until\<close> states with the Knuth-Morris-Pratt table of \<open>CLOSE\<close> reads exactly the
  strings that end at the first occurrence of the delimiter. The state number is the length of the
  longest prefix of \<open>CLOSE\<close> that the text so far ends in (\<open>matched\<close>).
\<close>

section \<open>The delimiter\<close>

definition close_table :: "u8 list" where
  "close_table = replicate 14 0 @ [1]"

lemma kmp_fallback_CLOSE: "kmp_fallback CLOSE = Some close_table"
  by code_simp

lemma length_CLOSE [simp]: "length CLOSE = 14"
  by (simp add: CLOSE_def)

lemma CLOSE_0 [simp]: "CLOSE ! 0 = nl"
  by (simp add: CLOSE_def)

lemma CLOSE_no_border:
  assumes "k < 14" and "j < k" and "suffix (take j CLOSE) (take k CLOSE)"
  shows "j = 0"
proof -
  have "\<forall>k \<in> set [0..<14]. \<forall>j \<in> set [0..<k]. suffix (take j CLOSE) (take k CLOSE) \<longrightarrow> j = 0"
    by code_simp
  then show ?thesis using assms by auto
qed

lemma advance_close_table:
  assumes "k < 14"
  shows "advance_close close_table k b
    = Some (if b = CLOSE ! k then k + 1 else if b = nl then 1 else 0)"
proof -
  have zero: "advance_close close_table 0 b = Some (if b = nl then 1 else 0)"
    by (subst advance_close.simps) (simp add: at_index_def wadd_def)
  have "at_index close_table k = Some 0"
    using assms by (simp add: close_table_def at_index_def nth_append)
  then show ?thesis using zero assms
    by (subst advance_close.simps) (auto simp: at_index_def wadd_def)
qed

section \<open>The scan\<close>

definition text_value :: "bytes set" where
  "text_value = {x. suffix CLOSE x \<and> (\<forall>y. strict_prefix y x \<longrightarrow> \<not> suffix CLOSE y)}"

definition matched :: "bytes \<Rightarrow> nat \<Rightarrow> bool" where
  "matched v k \<longleftrightarrow> k \<le> 14 \<and> suffix (take k CLOSE) v \<and> (\<forall>j \<le> 14. suffix (take j CLOSE) v \<longrightarrow> j \<le> k)"

lemma suffix_take_snoc:
  assumes "j < 14"
  shows "suffix (take (Suc j) CLOSE) (v @ [b]) \<longleftrightarrow> suffix (take j CLOSE) v \<and> CLOSE ! j = b"
  using assms by (simp add: take_Suc_conv_app_nth snoc_suffix_snoc conj_commute)

lemma matched_step:
  assumes m: "matched v k" and k: "k < 14"
  shows "matched (v @ [b]) (if b = CLOSE ! k then k + 1 else if b = nl then 1 else 0)"
    (is "matched _ ?k")
proof -
  have here: "suffix (take k CLOSE) v" and best: "\<And>j. j \<le> 14 \<Longrightarrow> suffix (take j CLOSE) v \<Longrightarrow> j \<le> k"
    using m by (auto simp: matched_def)
  have "suffix (take ?k CLOSE) (v @ [b])"
    using suffix_take_snoc [OF k, of v b] suffix_take_snoc [of 0 v b] here by auto
  moreover have "j \<le> ?k" if j: "j \<le> 14" "suffix (take j CLOSE) (v @ [b])" for j
  proof (cases j)
    case (Suc i)
    then have i: "suffix (take i CLOSE) v" "CLOSE ! i = b" "i < 14"
      using j suffix_take_snoc [of i v b] by auto
    then have "i \<le> k" using best by simp
    show ?thesis
    proof (cases "i = k")
      case False
      then have "i < k" using \<open>i \<le> k\<close> by simp
      then have "suffix (take i CLOSE) (take k CLOSE)"
        using suffix_length_suffix [OF i(1) here] k i(3) by simp
      then have "i = 0" using CLOSE_no_border [OF k \<open>i < k\<close>] by simp
      then show ?thesis using i Suc by auto
    qed (use Suc i in auto)
  qed simp
  moreover have "?k \<le> 14" using k by simp
  ultimately show ?thesis unfolding matched_def by blast
qed

lemma matched_14: "matched v k \<Longrightarrow> suffix CLOSE v \<longleftrightarrow> k = 14"
  unfolding matched_def by (metis le_antisym length_CLOSE order_refl take_all_iff)

lemma matched_Nil: "matched [] 0"
  by (auto simp: matched_def CLOSE_def)

fun scans :: "nat \<Rightarrow> bytes \<Rightarrow> bool" where
  "scans k [] \<longleftrightarrow> False"
| "scans k (b # u) \<longleftrightarrow>
    (let k' = (if b = CLOSE ! k then k + 1 else if b = nl then 1 else 0)
     in if k' = 14 then u = [] else scans k' u)"

lemma text_value_open:
  assumes "v @ u \<in> text_value" and "u \<noteq> []"
  shows "\<not> suffix CLOSE v"
  using assms by (auto simp: text_value_def strict_prefix_def)

lemma scans_iff:
  assumes "matched v k" and "k < 14" and "\<And>y. strict_prefix y v \<Longrightarrow> \<not> suffix CLOSE y"
  shows "scans k u \<longleftrightarrow> v @ u \<in> text_value"
  using assms
proof (induction u arbitrary: v k)
  case Nil
  then show ?case using matched_14 [of v k] by (simp add: text_value_def)
next
  case (Cons b u)
  define k' where "k' = (if b = CLOSE ! k then k + 1 else if b = nl then 1 else 0)"
  have m': "matched (v @ [b]) k'" unfolding k'_def using Cons.prems(1,2) by (rule matched_step)
  have open_v: "\<not> suffix CLOSE v" using matched_14 [OF Cons.prems(1)] Cons.prems(2) by simp
  have pre: "\<not> suffix CLOSE y" if "strict_prefix y (v @ [b])" for y
    using that open_v Cons.prems(3) by (auto simp: strict_prefix_def prefix_snoc)
  show ?case
  proof (cases "k' = 14")
    case True
    then have suf: "suffix CLOSE (v @ [b])" using matched_14 [OF m'] by simp
    then have "v @ b # u \<in> text_value \<longleftrightarrow> u = []"
      using pre text_value_open [of "v @ [b]" u] by (auto simp: text_value_def)
    then show ?thesis using True by (simp add: k'_def [symmetric] Let_def)
  next
    case False
    have "k' < 14" using m' False by (simp add: matched_def)
    from Cons.IH [OF m' this pre] show ?thesis
      using False by (simp add: k'_def [symmetric] Let_def)
  qed
qed

lemma CLOSE_text: "CLOSE \<in> text_value"
  unfolding text_value_def
  using prefix_length_less [of _ CLOSE] suffix_length_le [of CLOSE] by fastforce

lemma scans_text: "scans 0 u \<longleftrightarrow> u \<in> text_value"
  using scans_iff [OF matched_Nil, of u] by simp

lemma scans_ex: "k < 14 \<Longrightarrow> \<exists>u. scans k u"
proof -
  assume k: "k < 14"
  have "matched (take k CLOSE) k"
    using k by (auto simp: matched_def dest: suffix_length_le)
  then have "scans k (drop k CLOSE) \<longleftrightarrow> take k CLOSE @ drop k CLOSE \<in> text_value"
    using k by (intro scans_iff) (auto dest!: prefix_length_less suffix_length_le)
  then show ?thesis using CLOSE_text by auto
qed

lemma cons_split:
  assumes "\<not> P []"
  shows "(\<exists>u v. b # w = u @ v \<and> P u \<and> Q v) \<longleftrightarrow> (\<exists>u v. w = u @ v \<and> P (b # u) \<and> Q v)"
proof
  assume "\<exists>u v. b # w = u @ v \<and> P u \<and> Q v"
  then obtain u v where "b # w = u @ v" "P u" "Q v" by blast
  with assms show "\<exists>u v. w = u @ v \<and> P (b # u) \<and> Q v" by (cases u) auto
next
  assume "\<exists>u v. w = u @ v \<and> P (b # u) \<and> Q v"
  then obtain u v where "w = u @ v" "P (b # u)" "Q v" by blast
  then show "\<exists>u v. b # w = u @ v \<and> P u \<and> Q v"
    by (intro exI [of _ "b # u"] exI [of _ v]) simp
qed

section \<open>The chain of states\<close>

definition until_chain :: "Machine \<Rightarrow> u32 \<Rightarrow> u32 \<Rightarrow> bool" where
  "until_chain m i n \<longleftrightarrow> i + 14 \<le> 2 ^ 32 \<and> m_fallback m = close_table
     \<and> (\<forall>k < 14. at_state m (i + k) = Some (Until k n))"

lemma until_move:
  assumes "until_chain m i n" and "k < 14"
  shows "move m b \<lparr>cu_state = i + k, cu_tool = t, cu_written = wr\<rparr>
    = Some (Some \<lparr>cu_state = (let k' = (if b = CLOSE ! k then k + 1 else if b = nl then 1 else 0)
        in if k' = 14 then n else i + k'), cu_tool = t, cu_written = wr\<rparr>)"
proof -
  have at: "at_state m (i + k) = Some (Until k n)" and fb: "m_fallback m = close_table"
    and room: "i + 14 \<le> 2 ^ 32" using assms by (auto simp: until_chain_def)
  have "wadd 32 (wsub 32 (i + k) k) k' = i + k'" if "k' < 14" for k'
    using that assms(2) room by (simp add: wsub_nowrap wadd_nowrap)
  then show ?thesis
    using assms(2) by (auto simp: move_def at fb until_k_def advance_close_table Let_def)
qed

lemma until_lang:
  assumes ch: "until_chain m i n"
  shows "k < 14 \<Longrightarrow> L m (i + k) t wr = conc {u. scans k u} (L m n t wr)"
proof -
  have "w \<in> L m (i + k) t wr \<longleftrightarrow> (\<exists>u v. w = u @ v \<and> scans k u \<and> v \<in> L m n t wr)"
    if "k < 14" for w k using that
  proof (induction w arbitrary: k)
    case Nil
    have "eps_next m \<lparr>cu_state = i + k, cu_tool = t, cu_written = wr\<rparr> = Some None"
      using ch Nil by (simp add: until_chain_def eps_next_def)
    from acc_Nil_iff [OF this] show ?case using ch Nil
      by (auto simp: L_def until_chain_def)
  next
    case (Cons b w)
    define k' where "k' = (if b = CLOSE ! k then k + 1 else if b = nl then 1 else 0)"
    have "eps_next m \<lparr>cu_state = i + k, cu_tool = t, cu_written = wr\<rparr> = Some None"
      using ch Cons.prems by (simp add: until_chain_def eps_next_def)
    from acc_eat_iff [OF this] have
      unfold: "b # w \<in> L m (i + k) t wr \<longleftrightarrow> w \<in> L m (if k' = 14 then n else i + k') t wr"
      by (simp add: L_def until_move [OF ch Cons.prems] Let_def k'_def [symmetric])
    have rhs: "(\<exists>u v. b # w = u @ v \<and> scans k u \<and> v \<in> L m n t wr)
      \<longleftrightarrow> (\<exists>u v. w = u @ v \<and> (if k' = 14 then u = [] else scans k' u) \<and> v \<in> L m n t wr)"
    proof -
      have one: "scans k (b # u) \<longleftrightarrow> (if k' = 14 then u = [] else scans k' u)" for u
        by (simp add: Let_def k'_def)
      have "(\<exists>u v. b # w = u @ v \<and> scans k u \<and> v \<in> L m n t wr)
        \<longleftrightarrow> (\<exists>u v. w = u @ v \<and> scans k (b # u) \<and> v \<in> L m n t wr)"
        by (rule cons_split) simp
      then show ?thesis unfolding one .
    qed
    show ?case
    proof (cases "k' = 14")
      case True
      then show ?thesis unfolding unfold rhs by simp
    next
      case False
      then have "k' < 14" using Cons.prems by (auto simp: k'_def)
      from Cons.IH [OF this] show ?thesis unfolding unfold rhs using False by simp
    qed
  qed
  then show "k < 14 \<Longrightarrow> L m (i + k) t wr = conc {u. scans k u} (L m n t wr)"
    by (auto simp: conc_def)
qed

lemma frag_until:
  assumes ch: "until_chain m i n"
  shows "frag m {i..<i + 14} i n text_value"
  unfolding frag_def
proof (intro conjI allI impI ballI)
  show "L m i t wr = conc text_value (L m n t wr)" for t wr
    using until_lang [OF ch, of 0] by (simp add: scans_text)
  show "i \<in> {i..<i + 14} \<or> i = n" by simp
  fix R r j assume ex: "exit_ok m R {i..<i + 14} r n" and "j \<in> {i..<i + 14}"
  then obtain k where k: "k < 14" "j = i + k" by (auto simp: le_iff_add)
  have at: "at_state m (i + k) = Some (Until k n)" if "k < 14" for k
    using ch that by (simp add: until_chain_def)
  have link: "link m R (i + k) n" "\<And>j. j < 14 \<Longrightarrow> link m R (i + k) (i + j)"
    using ex k at at_state_less by (auto simp: exit_ok_def link_def)
  have "live m R (i + k)"
    unfolding live_def
  proof (intro allI impI)
    fix t wr assume "in_scope R (i + k) t"
    then have "in_scope R n t" using link(1) link_scope by blast
    then have "L m n t wr \<noteq> {}" using ex by (auto simp: exit_ok_def live_def)
    then show "L m (i + k) t wr \<noteq> {}"
      unfolding until_lang [OF ch k(1)] using scans_ex [OF k(1)] by (intro conc_nonempty) auto
  qed
  moreover have "ends m R (i + k)" using ends_stop [OF at [OF k(1)]] by blast
  moreover have "ok_state m R (i + k)"
    using ch k(1) link at [OF k(1)] by (auto simp: ok_state_def until_chain_def)
  ultimately show "fine m R j" using k(2) by (simp add: fine_def)
qed

end
