(* ===== verification/MachineBuild.thy ===== *)
theory MachineBuild
  imports MachineText
begin

text \<open>
  The builder of \<open>machine.rs\<close> against the fragment algebra: each builder function appends states to the
  vector, and in any finished machine that still holds those states they are a fragment reading the
  reference language of that function. The reference languages are sets of byte strings written from
  the grammar in the module documentation.
\<close>

section \<open>Finished machines\<close>

definition has :: "Machine \<Rightarrow> u32 \<Rightarrow> State list \<Rightarrow> bool" where
  "has m lo st \<longleftrightarrow> length st \<le> 2 ^ 32 \<and> m_fallback m = close_table
     \<and> (\<forall>i. lo \<le> i \<longrightarrow> i < length st \<longrightarrow> at_state m i = Some (st ! i))"

lemma has_prefix: "has m lo st' \<Longrightarrow> prefix st st' \<Longrightarrow> has m lo st"
  by (auto simp: has_def prefix_def nth_append)

lemma has_mono: "has m lo st \<Longrightarrow> lo \<le> lo' \<Longrightarrow> has m lo' st"
  by (simp add: has_def)

lemma has_sub: "has m lo st' \<Longrightarrow> prefix st st' \<Longrightarrow> lo \<le> lo' \<Longrightarrow> has m lo' st"
  using has_prefix has_mono by blast

lemma has_patch:
  assumes "has m lo (st[i := s])" and "i < length st"
  shows "lo \<le> i \<Longrightarrow> at_state m i = Some s" and "lo \<le> lo' \<Longrightarrow> i < lo' \<Longrightarrow> has m lo' st"
  using assms by (auto simp: has_def nth_list_update)

lemma prefix_len: "prefix st st' \<Longrightarrow> length st \<le> length st'"
  by (rule prefix_length_le)

lemma add_prefix: "add st s = (st', i) \<Longrightarrow> prefix st st' \<and> length st' = Suc (length st)"
  by (auto simp: add_def)

lemma add_at:
  assumes "add st s = (st', i)" and "has m lo st'" and "lo \<le> length st"
  shows "i = length st" and "at_state m (length st) = Some s" and "length st < length (m_states m)"
proof -
  show "i = length st" "at_state m (length st) = Some s"
    using assms by (auto simp: add_def has_def nth_append)
  then show "length st < length (m_states m)" by (blast dest: at_state_less)
qed

lemma frag_add_byte:
  assumes "add st (Byte b n) = (st', i)" and "has m (length st) st'"
  shows "frag m {length st..<length st'} i n {[b]}"
proof -
  have "{length st..<length st'} = {i}" using add_prefix [OF assms(1)] add_at [OF assms] by auto
  then show ?thesis using frag_byte add_at [OF assms] by auto
qed

section \<open>Literals\<close>

lemma literal_Nil [simp]: "literal st [] n = (st, n)"
  by (simp add: literal_def)

lemma literal_Cons [simp]:
  "literal st (b # bs) n = (let (st, s) = literal st bs n in add st (Byte b s))"
  by (simp add: literal_def split_beta)

lemma literal_prefix: "literal st bs n = (st', s) \<Longrightarrow> prefix st st'"
  by (induction bs arbitrary: st' s)
    (auto split: prod.splits dest!: add_prefix intro: prefix_order.trans)

lemma frag_literal:
  "literal st bs n = (st', s) \<Longrightarrow> has m (length st) st' \<Longrightarrow>
    frag m {length st..<length st'} s n {bs}"
proof (induction bs arbitrary: st' s)
  case Nil
  then show ?case using frag_skip [of m n] by simp
next
  case (Cons b bs)
  obtain st1 s1 where one: "literal st bs n = (st1, s1)" by (cases "literal st bs n")
  with Cons.prems have add: "add st1 (Byte b s1) = (st', s)" by simp
  have pre: "prefix st st1" "prefix st1 st'"
    using literal_prefix [OF one] add_prefix [OF add] by auto
  have "frag m {length st1..<length st'} s s1 {[b]}"
    using add has_mono [OF Cons.prems(2) prefix_len [OF pre(1)]] by (rule frag_add_byte)
  moreover have "frag m {length st..<length st1} s1 n {bs}"
    using Cons.IH [OF one] has_prefix [OF Cons.prems(2) pre(2)] by blast
  ultimately have "frag m ({length st1..<length st'} \<union> {length st..<length st1}) s n {b # bs}"
    using frag_seq [of m _ s s1 "{[b]}" _ n "{bs}"] by (simp add: conc_single_single)
  moreover have "{length st1..<length st'} \<union> {length st..<length st1} = {length st..<length st'}"
    using prefix_len pre by (auto dest: prefix_len)
  ultimately show ?case by simp
qed

text \<open>A literal that reads at least one byte starts at a byte state.\<close>

lemma literal_entry:
  assumes "literal st (b # bs) n = (st', s)" and "has m (length st) st'"
  shows "\<exists>n'. at_state m s = Some (Byte b n')" and "s < length st'" and "length st \<le> s"
proof -
  obtain st1 s1 where one: "literal st bs n = (st1, s1)" by (cases "literal st bs n")
  with assms have add: "add st1 (Byte b s1) = (st', s)" by simp
  have pre: "prefix st st1" by (rule literal_prefix [OF one])
  from add_at [OF add assms(2) prefix_len [OF pre]] prefix_len [OF pre] add_prefix [OF add]
  show "\<exists>n'. at_state m s = Some (Byte b n')" "s < length st'" "length st \<le> s" by auto
qed

section \<open>Numbers\<close>

definition one_of :: "bytes \<Rightarrow> bytes set" where
  "one_of bs = (\<lambda>b. [b]) ` set bs"

lemma one_of_simps: "one_of [] = {}" "one_of (b # bs) = insert [b] (one_of bs)"
  by (simp_all add: one_of_def)

lemma conc_simps:
  "conc {} B = {}" "conc (insert u (insert v A)) B = conc {u} B \<union> conc (insert v A) B"
  by (auto simp: conc_def)

definition digit_lang :: "bytes set" where
  "digit_lang = one_of ''0123456789''"

definition digits_lang :: "bytes set" where
  "digits_lang = conc digit_lang (star digit_lang)"

definition exponent_lang :: "bytes set" where
  "exponent_lang = conc (one_of ''eE'') (conc (one_of ''+-'' \<union> {[]}) digits_lang)"

definition magnitude_lang :: "bytes set" where
  "magnitude_lang = conc {[], ''-''} ({''0''} \<union> conc (one_of ''123456789'') ({[]} \<union> digits_lang))"

definition number_lang :: "bool \<Rightarrow> bytes set" where
  "number_lang fractional = conc magnitude_lang
     (conc (if fractional then {[]} \<union> conc {''.''} digits_lang else {[]}) ({[]} \<union> exponent_lang))"

lemma byte_alts_eq:
  assumes "byte_alts st bs n = (st', alts)"
  shows "st' = st @ map (\<lambda>b. Byte b n) bs \<and> length alts = length bs
    \<and> (length st' \<le> 2 ^ 32 \<longrightarrow> alts = [length st..<length st'])"
  using assms
proof (induction bs arbitrary: st st' alts)
  case Nil
  then show ?case by simp
next
  case (Cons b bs)
  obtain st2 alts2 where two: "byte_alts (st @ [Byte b n]) bs n = (st2, alts2)"
    by (cases "byte_alts (st @ [Byte b n]) bs n")
  have "[length st..<length st + Suc (length bs)]
      = length st # [Suc (length st)..<length st + Suc (length bs)]"
    by (rule upt_conv_Cons) simp
  with Cons.IH [OF two] Cons.prems two show ?case
    by (auto simp: add_def simp del: upt_Suc)
qed

lemma byte_alts_prefix: "byte_alts st bs n = (st', alts) \<Longrightarrow> prefix st st'"
  by (drule byte_alts_eq) simp

lemma byte_alts_each:
  assumes "byte_alts st bs n = (st', alts)" and "has m (length st) st'"
  shows "list_all2 (\<lambda>a p. frag m (fst p) a n (snd p)) alts
      (map (\<lambda>j. ({length st + j}, {[bs ! j]})) [0..<length bs])"
    and "\<And>R a. a \<in> set alts \<Longrightarrow> ends m R a" and "\<And>a. a \<in> set alts \<Longrightarrow> a < length (m_states m)"
proof -
  have st': "st' = st @ map (\<lambda>b. Byte b n) bs" and alts: "alts = [length st..<length st']"
    using byte_alts_eq [OF assms(1)] assms(2) by (auto simp: has_def)
  have at: "at_state m (length st + j) = Some (Byte (bs ! j) n)" if "j < length bs" for j
    using assms(2) that by (simp add: has_def st' nth_append)
  show "list_all2 (\<lambda>a p. frag m (fst p) a n (snd p)) alts
      (map (\<lambda>j. ({length st + j}, {[bs ! j]})) [0..<length bs])"
    by (simp add: list_all2_conv_all_nth alts st' frag_byte at)
  have "\<exists>j < length bs. a = length st + j" if "a \<in> set alts" for a
    using that by (auto simp: alts st' le_iff_add)
  then show "\<And>R a. a \<in> set alts \<Longrightarrow> ends m R a" "\<And>a. a \<in> set alts \<Longrightarrow> a < length (m_states m)"
    using at at_state_less ends_stop by blast+
qed

lemma one_of_nth: "one_of bs = (\<Union>j \<in> {0..<length bs}. {[bs ! j]})"
  by (induction bs rule: rev_induct) (simp_all add: one_of_def nth_append atLeast0_lessThan_Suc insert_commute)

lemma byte_alts_range: "byte_alts st bs n = (st', alts) \<Longrightarrow>
  (\<Union>j \<in> {0..<length bs}. {length st + j}) = {length st..<length st'}"
  by (drule byte_alts_eq) (auto simp: le_iff_add)

text \<open>A split over byte states, as \<open>digit\<close> ends in.\<close>

lemma frag_byte_split:
  assumes alts: "byte_alts st bs n = (st1, alts)" and split: "add st1 (Split alts) = (st', s)"
    and has: "has m (length st) st'" and ne: "bs \<noteq> []"
  shows "frag m {length st..<length st'} s n (one_of bs)" and "ends m R s"
    and "s \<in> {length st..<length st'}" and "s < length (m_states m)"
proof -
  have pre: "prefix st st1" "prefix st1 st'"
    using byte_alts_prefix [OF alts] add_prefix [OF split] by auto
  note s = add_at [OF split has prefix_len [OF pre(1)]]
  note each = byte_alts_each [OF alts has_prefix [OF has pre(2)]]
  have "alts \<noteq> []" using byte_alts_eq [OF alts] ne by auto
  from frag_alts [OF s(2) this each(1)]
  have "frag m (insert (length st1) {length st..<length st1}) (length st1) n (one_of bs)"
    by (simp add: one_of_nth byte_alts_range [OF alts, symmetric])
  moreover have "insert (length st1) {length st..<length st1} = {length st..<length st'}"
    using add_prefix [OF split] prefix_len [OF pre(1)] by auto
  ultimately show "frag m {length st..<length st'} s n (one_of bs)" using s(1) by simp
  show "s \<in> {length st..<length st'}" "s < length (m_states m)"
    using s add_prefix [OF split] prefix_len [OF pre(1)] by auto
  have "halts m \<lparr>cu_state = s, cu_tool = t, cu_written = wr\<rparr>" for t wr
  proof -
    have "ends m (\<lambda>_. None) s"
      using each(2,3) s by (intro ends_split [of _ _ alts]) (auto simp: link_def)
    then show ?thesis by (simp add: ends_def in_scope_def)
  qed
  then show "ends m R s" by (simp add: ends_def)
qed

lemma digit_prefix: "digit st n = (st', s) \<Longrightarrow> prefix st st'"
  unfolding digit_def
  by (auto split: prod.splits dest!: byte_alts_prefix add_prefix intro: prefix_order.trans)

lemma frag_digit:
  assumes "digit st n = (st', s)" and "has m (length st) st'"
  shows "frag m {length st..<length st'} s n digit_lang" and "ends m R s"
    and "s \<in> {length st..<length st'}" and "s < length (m_states m)"
proof -
  obtain st1 alts where alts: "byte_alts st ''0123456789'' n = (st1, alts)"
    by (cases "byte_alts st ''0123456789'' n")
  with assms(1) have "add st1 (Split alts) = (st', s)" by (simp add: digit_def)
  from frag_byte_split [OF alts this assms(2)]
  show "frag m {length st..<length st'} s n digit_lang" "ends m R s"
    "s \<in> {length st..<length st'}" "s < length (m_states m)" by (auto simp: digit_lang_def)
qed

lemma digits_parts:
  assumes "digits st n = (st', s)"
  obtains st2 again where
    "digit (st @ [Split []]) (length st mod 2 ^ 32) = (st2, again)"
    "digit (st2[length st mod 2 ^ 32 := Split [again, n]]) (length st mod 2 ^ 32) = (st', s)"
  using assms by (auto simp: digits_def add_def Let_def split: prod.splits)

text \<open>Patching a placeholder keeps what was there before it.\<close>

lemma prefix_patch: "prefix st st2 \<Longrightarrow> length st \<le> i \<Longrightarrow> prefix st (st2[i := x])"
  by (auto simp: prefix_def list_update_append)

lemma digits_prefix:
  assumes "digits st n = (st', s)" and "length st < 2 ^ 32"
  shows "prefix st st'"
proof -
  obtain st2 again where two: "digit (st @ [Split []]) (length st mod 2 ^ 32) = (st2, again)"
    and three: "digit (st2[length st mod 2 ^ 32 := Split [again, n]]) (length st mod 2 ^ 32)
      = (st', s)" by (rule digits_parts [OF assms(1)])
  have "prefix st st2" using digit_prefix [OF two] by (auto simp: prefix_def)
  then have "prefix st (st2[length st mod 2 ^ 32 := Split [again, n]])"
    using assms(2) by (intro prefix_patch) auto
  then show ?thesis using digit_prefix [OF three] by (rule prefix_order.trans)
qed

lemma digits_len: "digits st n = (st', s) \<Longrightarrow> length st < length st'"
  by (erule digits_parts) (auto dest!: digit_prefix prefix_length_le)

lemma nil_notin_digit: "[] \<notin> digit_lang"
  by (auto simp: digit_lang_def one_of_def)

lemma frag_digits:
  assumes "digits st n = (st', s)" and has: "has m (length st) st'"
  shows "frag m {length st..<length st'} s n digits_lang"
proof -
  have small: "length st < 2 ^ 32" using digits_len [OF assms(1)] has by (simp add: has_def)
  then have "length st mod 2 ^ 32 = length st" by simp
  then obtain st2 again where two: "digit (st @ [Split []]) (length st) = (st2, again)"
    and three: "digit (st2[length st := Split [again, n]]) (length st) = (st', s)"
    using digits_parts [OF assms(1)] by metis
  let ?st3 = "st2[length st := Split [again, n]]"
  have pre2: "prefix (st @ [Split []]) st2" by (rule digit_prefix [OF two])
  have pre3: "prefix ?st3 st'" by (rule digit_prefix [OF three])
  have len: "Suc (length st) \<le> length st2" "length st2 \<le> length st'"
    using prefix_len [OF pre2] prefix_len [OF pre3] by auto
  have has3: "has m (length st) ?st3" by (rule has_prefix [OF has pre3])
  have at: "at_state m (length st) = Some (Split [again, n])"
    using has_patch(1) [OF has3] len by simp
  have has2: "has m (length (st @ [Split []])) st2"
    using has_patch(2) [OF has3, of "Suc (length st)"] len by simp
  note body = frag_digit [OF two has2]
  have loop: "frag m (insert (length st) {Suc (length st)..<length st2}) (length st) n (star digit_lang)"
    using frag_loop [OF at _ nil_notin_digit] body by simp
  have "has m (length ?st3) st'" using has_mono [OF has] len by simp
  from frag_digit(1) [OF three this]
  have "frag m {length st2..<length st'} s (length st) digit_lang" by simp
  from frag_seq [OF this loop]
  have "frag m ({length st2..<length st'} \<union> insert (length st) {Suc (length st)..<length st2}) s n
      digits_lang" by (simp add: digits_lang_def)
  moreover have "{length st2..<length st'} \<union> insert (length st) {Suc (length st)..<length st2}
      = {length st..<length st'}" using len by auto
  ultimately show ?thesis by simp
qed

text \<open>
  A fragment over a longer stretch, and the extension of a builder's result by one more call; with
  these the number builder is a walk along its \<open>let\<close>s.
\<close>

lemma split_alts_at:
  assumes "split_alts st alts = (st', s)" and "has m lo st'" and "lo \<le> length st"
  shows "s = length st" and "at_state m s = Some (Split alts)" and "length st' = Suc (length st)"
  using add_at [of st "Split alts" st' s, OF _ assms(2,3)] assms(1) add_prefix [of st "Split alts" st' s]
  by (simp_all add: split_alts_def)

lemma split_alts_prefix: "split_alts st alts = (st', s) \<Longrightarrow> prefix st st' \<and> length st' = Suc (length st)"
  unfolding split_alts_def by (rule add_prefix)

lemma frag_split2:
  assumes "split_alts st [a, b] = (st', s)" and "has m lo st'" and "lo \<le> length st"
    and "frag m I a n A" and "frag m J b n B" and "{lo..<length st} = I \<union> J"
  shows "frag m {lo..<length st'} s n (A \<union> B)"
proof -
  note s = split_alts_at [OF assms(1-3)]
  have "insert s (I \<union> J) = {lo..<length st'}" unfolding assms(6) [symmetric] using s assms(3) by auto
  with frag_alt2 [OF s(2) assms(4,5)] show ?thesis by simp
qed

lemma ivl_join: "(a::nat) \<le> b \<Longrightarrow> b \<le> c \<Longrightarrow> {b..<c} \<union> {a..<b} = {a..<c}"
  by auto

lemma frag_byte_after:
  assumes "add st (Byte b p) = (st', s)" and "has m lo st'" and "lo \<le> length st"
    and "frag m {lo..<k} p n A" and "k \<le> length st"
  shows "frag m (insert (length st) {lo..<k}) s n (conc {[b]} A)"
proof -
  note s = add_at [OF assms(1-3)]
  from frag_seq [OF frag_byte [OF s(2)] assms(4)] show ?thesis using s(1) by simp
qed

lemma number_fraction_frag:
  assumes "number_fraction st tail = (st', s)" and has: "has m (length st) st'"
  shows "frag m {length st..<length st'} s tail ({[]} \<union> conc {''.''} digits_lang)"
    and "prefix st st'"
proof -
  obtain st1 ap where one: "digits st tail = (st1, ap)" by (cases "digits st tail")
  obtain st2 pt where two: "add st1 (Byte (CHR ''.'') ap) = (st2, pt)"
    by (cases "add st1 (Byte (CHR ''.'') ap)")
  have three: "split_alts st2 [tail, pt] = (st', s)"
    using assms(1) by (simp add: number_fraction_def one two)
  have pre: "prefix st1 st2" "prefix st2 st'" and len: "length st2 = Suc (length st1)"
    using add_prefix [OF two] split_alts_prefix [OF three] by auto
  have has2: "has m (length st) st2" and has1: "has m (length st) st1"
    using has has_prefix pre by blast+
  have le: "length st \<le> length st1" using digits_len [OF one] by simp
  have "length st < 2 ^ 32" using digits_len [OF one] has1 by (simp add: has_def)
  then have "prefix st st1" by (rule digits_prefix [OF one])
  then show "prefix st st'" using pre prefix_order.trans by blast
  have pt: "frag m (insert (length st1) {length st..<length st1}) pt tail (conc {''.''} digits_lang)"
    by (rule frag_byte_after [OF two has2 le frag_digits [OF one has1]]) simp
  show "frag m {length st..<length st'} s tail ({[]} \<union> conc {''.''} digits_lang)"
    by (rule frag_split2 [OF three has _ frag_skip pt]) (use le len in auto)
qed

lemma number_tail_frag:
  assumes "number_tail st n = (st', s)" and has: "has m (length st) st'"
  shows "frag m {length st..<length st'} s n ({[]} \<union> exponent_lang)" and "prefix st st'"
proof -
  obtain st1 ed where s1: "digits st n = (st1, ed)" by (cases "digits st n")
  obtain st2 plus where s2: "add st1 (Byte (CHR ''+'') ed) = (st2, plus)"
    by (cases "add st1 (Byte (CHR ''+'') ed)")
  obtain st3 minus where s3: "add st2 (Byte (CHR ''-'') ed) = (st3, minus)"
    by (cases "add st2 (Byte (CHR ''-'') ed)")
  obtain st4 signed where s4: "split_alts st3 [plus, minus, ed] = (st4, signed)"
    by (cases "split_alts st3 [plus, minus, ed]")
  obtain st5 lower where s5: "add st4 (Byte (CHR ''e'') signed) = (st5, lower)"
    by (cases "add st4 (Byte (CHR ''e'') signed)")
  obtain st6 upper where s6: "add st5 (Byte (CHR ''E'') signed) = (st6, upper)"
    by (cases "add st5 (Byte (CHR ''E'') signed)")
  obtain st7 ex where s7: "split_alts st6 [lower, upper] = (st7, ex)"
    by (cases "split_alts st6 [lower, upper]")
  have s8: "split_alts st7 [n, ex] = (st', s)"
    using assms(1) by (simp add: number_tail_def s1 s2 s3 s4 s5 s6 s7)
  have has7: "has m (length st) st7" using has has_prefix split_alts_prefix [OF s8] by blast
  have has6: "has m (length st) st6" using has7 has_prefix split_alts_prefix [OF s7] by blast
  have has5: "has m (length st) st5" using has6 has_prefix add_prefix [OF s6] by blast
  have has4: "has m (length st) st4" using has5 has_prefix add_prefix [OF s5] by blast
  have has3: "has m (length st) st3" using has4 has_prefix split_alts_prefix [OF s4] by blast
  have has2: "has m (length st) st2" using has3 has_prefix add_prefix [OF s3] by blast
  have has1: "has m (length st) st1" using has2 has_prefix add_prefix [OF s2] by blast
  note len = digits_len [OF s1] add_prefix [OF s2] add_prefix [OF s3] split_alts_prefix [OF s4]
    add_prefix [OF s5] add_prefix [OF s6] split_alts_prefix [OF s7] split_alts_prefix [OF s8]
  have "length st < 2 ^ 32" using len(1) has1 by (simp add: has_def)
  then have "prefix st st1" by (rule digits_prefix [OF s1])
  then show "prefix st st'" using len prefix_order.trans by meson
  let ?I = "{length st..<length st1}" and ?p = "length st1"
  note ed = frag_digits [OF s1 has1]
  have plus: "frag m (insert ?p ?I) plus n (conc {''+''} digits_lang)"
    by (rule frag_byte_after [OF s2 has2 _ ed]) (use len in auto)
  have minus: "frag m (insert (length st2) ?I) minus n (conc {''-''} digits_lang)"
    by (rule frag_byte_after [OF s3 has3 _ ed]) (use len in auto)
  have at4: "signed = length st3" "at_state m signed = Some (Split [plus, minus, ed])"
    using split_alts_at [OF s4 has4] len by auto
  have signed_eq: "conc {''+''} digits_lang \<union> conc {''-''} digits_lang \<union> digits_lang
      = conc (one_of ''+-'' \<union> {[]}) digits_lang"
    by (simp add: one_of_simps conc_simps Un_ac)
  have "insert signed (insert ?p ?I \<union> insert (length st2) ?I \<union> ?I) = {length st..<length st4}"
    using len at4(1) by auto
  with frag_alt3 [OF at4(2) plus minus ed] signed_eq
  have signed: "frag m {length st..<length st4} signed n (conc (one_of ''+-'' \<union> {[]}) digits_lang)"
    (is "frag m ?J _ _ ?S") by simp
  have lower: "frag m (insert (length st4) ?J) lower n (conc {''e''} ?S)"
    by (rule frag_byte_after [OF s5 has5 _ signed]) (use len in auto)
  have upper: "frag m (insert (length st5) ?J) upper n (conc {''E''} ?S)"
    by (rule frag_byte_after [OF s6 has6 _ signed]) (use len in auto)
  have "conc {''e''} ?S \<union> conc {''E''} ?S = exponent_lang"
    by (simp add: exponent_lang_def one_of_simps conc_simps)
  with frag_split2 [OF s7 has7 _ lower upper] len
  have ex: "frag m {length st..<length st7} ex n exponent_lang" by fastforce
  show "frag m {length st..<length st'} s n ({[]} \<union> exponent_lang)"
    by (rule frag_split2 [OF s8 has _ frag_skip ex]) (use len in auto)
qed

text \<open>A byte of a range, then a shared continuation.\<close>

lemma byte_alts_then:
  assumes "byte_alts st bs p = (st', alts)" and "has m (length st) st'" and rest: "frag m I p n A"
    and ne: "bs \<noteq> []"
  shows "\<exists>ps. list_all2 (\<lambda>a p. frag m (fst p) a n (snd p)) alts ps
    \<and> (\<Union>p \<in> set ps. fst p) = {length st..<length st'} \<union> I
    \<and> (\<Union>p \<in> set ps. snd p) = conc (one_of bs) A"
proof -
  let ?ps = "map (\<lambda>j. ({length st + j}, {[bs ! j]})) [0..<length bs]"
  let ?qs = "map (\<lambda>p. (fst p \<union> I, conc (snd p) A)) ?ps"
  have "list_all2 (\<lambda>a p. frag m (fst p) a n (snd p)) alts ?qs"
    using byte_alts_each(1) [OF assms(1,2)] unfolding list_all2_map2 fst_conv snd_conv
    by (rule list_all2_mono) (use frag_seq [OF _ rest] in force)
  moreover have "(\<Union>p \<in> set ?qs. fst p) = {length st..<length st'} \<union> I"
    proof -
    have "(\<Union>p \<in> set ?qs. fst p) = (\<Union>j \<in> {0..<length bs}. {length st + j} \<union> I)" by simp
    also have "\<dots> = (\<Union>j \<in> {0..<length bs}. {length st + j}) \<union> I"
      using ne by (subst UN_Un_distrib) (simp add: image_constant_conv)
    finally show ?thesis by (simp only: byte_alts_range [OF assms(1)])
  qed
  moreover have "(\<Union>p \<in> set ?qs. snd p) = conc (one_of bs) A"
    unfolding one_of_nth conc_UN by auto
  ultimately show ?thesis by blast
qed

lemma number_magnitude_frag:
  assumes "number_magnitude st tail = (st', s)" and has: "has m (length st) st'"
  shows "frag m {length st..<length st'} s tail magnitude_lang" and "prefix st st'"
proof -
  obtain st1 zero where s1: "add st (Byte (CHR ''0'') tail) = (st1, zero)"
    by (cases "add st (Byte (CHR ''0'') tail)")
  obtain st2 more where s2: "digits st1 tail = (st2, more)" by (cases "digits st1 tail")
  obtain st3 rest where s3: "split_alts st2 [tail, more] = (st3, rest)"
    by (cases "split_alts st2 [tail, more]")
  obtain st4 leading where s4: "byte_alts st3 ''123456789'' rest = (st4, leading)"
    by (cases "byte_alts st3 ''123456789'' rest")
  obtain st5 mag where s5: "split_alts st4 (zero # leading) = (st5, mag)"
    by (cases "split_alts st4 (zero # leading)")
  obtain st6 minus where s6: "add st5 (Byte (CHR ''-'') mag) = (st6, minus)"
    by (cases "add st5 (Byte (CHR ''-'') mag)")
  have s7: "split_alts st6 [mag, minus] = (st', s)"
    using assms(1) by (simp add: number_magnitude_def s1 s2 s3 s4 s5 s6 del: byte_alts.simps)
  have has6: "has m (length st) st6" using has has_prefix split_alts_prefix [OF s7] by blast
  have has5: "has m (length st) st5" using has6 has_prefix add_prefix [OF s6] by blast
  have has4: "has m (length st) st4" using has5 has_prefix split_alts_prefix [OF s5] by blast
  have has3: "has m (length st) st3" using has4 has_prefix byte_alts_prefix [OF s4] by blast
  have has2: "has m (length st) st2" using has3 has_prefix split_alts_prefix [OF s3] by blast
  have small: "length st1 < 2 ^ 32" using digits_len [OF s2] has2 by (simp add: has_def)
  have has1: "has m (length st) st1" using has2 has_prefix digits_prefix [OF s2 small] by blast
  note len = add_prefix [OF s1] digits_len [OF s2] split_alts_prefix [OF s3]
    prefix_len [OF byte_alts_prefix [OF s4]] split_alts_prefix [OF s5] add_prefix [OF s6]
    split_alts_prefix [OF s7]
  show "prefix st st'"
    using len digits_prefix [OF s2 small] byte_alts_prefix [OF s4] prefix_order.trans by meson
  have zero: "frag m {length st} zero tail {''0''}"
    using frag_byte add_at [OF s1 has1] by simp
  have "has m (length st1) st2" using has_mono [OF has2] len by simp
  note more = frag_digits [OF s2 this]
  have "has m (length st1) st3" using has_mono [OF has3] len by simp
  from frag_split2 [OF s3 this _ frag_skip more] len
  have rest: "frag m {length st1..<length st3} rest tail ({[]} \<union> digits_lang)"
    (is "frag m ?I _ _ ?R") by simp
  have "has m (length st3) st4" using has_mono [OF has4] len by simp
  from byte_alts_then [OF s4 this rest] obtain ps where
    ps: "list_all2 (\<lambda>a p. frag m (fst p) a tail (snd p)) leading ps"
    and ps_fst: "(\<Union>p \<in> set ps. fst p) = {length st3..<length st4} \<union> ?I"
    and ps_snd: "(\<Union>p \<in> set ps. snd p) = conc (one_of ''123456789'') ?R"
    by blast
  have at5: "mag = length st4" "at_state m mag = Some (Split (zero # leading))"
    using split_alts_at [OF s5 has5] len by auto
  have all: "list_all2 (\<lambda>a p. frag m (fst p) a tail (snd p)) (zero # leading)
      (({length st}, {''0''}) # ps)" using zero ps by simp
  have ivl: "insert mag ({length st} \<union> ({length st3..<length st4} \<union> ?I)) = {length st..<length st5}"
    using len at5(1) by auto
  from frag_alts [OF at5(2) _ all]
  have mag: "frag m {length st..<length st5} mag tail
      ({''0''} \<union> conc (one_of ''123456789'') ?R)" (is "frag m ?J _ _ ?M")
    using ivl ps_fst ps_snd by simp
  have minus: "frag m (insert (length st5) ?J) minus tail (conc {''-''} ?M)"
    by (rule frag_byte_after [OF s6 has6 _ mag]) (use len in auto)
  have "?M \<union> conc {''-''} ?M = magnitude_lang"
    by (simp only: magnitude_lang_def conc_simps conc_eps)
  moreover have "frag m {length st..<length st'} s tail (?M \<union> conc {''-''} ?M)"
    by (rule frag_split2 [OF s7 has _ mag minus]) (use len in auto)
  ultimately show "frag m {length st..<length st'} s tail magnitude_lang" by simp
qed

lemma number_part_len:
  "number_tail st n = (st', s) \<Longrightarrow> length st < length st'"
  "number_fraction st n = (st', s) \<Longrightarrow> length st < length st'"
  "number_magnitude st n = (st', s) \<Longrightarrow> length st < length st'"
  unfolding number_tail_def number_fraction_def number_magnitude_def Let_def
  by (auto split: prod.splits simp del: byte_alts.simps dest!: digits_len add_prefix
      split_alts_prefix byte_alts_prefix prefix_len)

lemma number_frag:
  assumes "number st n fractional = (st', s)" and has: "has m (length st) st'"
  shows "frag m {length st..<length st'} s n (number_lang fractional)" and "prefix st st'"
proof -
  obtain st1 t1 where s1: "number_tail st n = (st1, t1)" by (cases "number_tail st n")
  obtain st2 t2 where s2: "(if fractional then number_fraction st1 t1 else (st1, t1)) = (st2, t2)"
    by (cases "if fractional then number_fraction st1 t1 else (st1, t1)")
  have s3: "number_magnitude st2 t2 = (st', s)"
    using assms(1) s2 by (simp add: number_def s1)
  have len: "length st < length st1" "length st1 \<le> length st2" "length st2 < length st'"
    using number_part_len(1) [OF s1] number_part_len(2) [of st1 t1 st2 t2] s2
      number_part_len(3) [OF s3] by (auto split: if_splits)
  have "has m (length st2) st'" using has_mono [OF has] len by simp
  note mag = number_magnitude_frag [OF s3 this]
  have has2: "has m (length st) st2" by (rule has_prefix [OF has mag(2)])
  have "has m (length st1) st2" using has_mono [OF has2] len by simp
  then have frac: "frag m {length st1..<length st2} t2 t1
      (if fractional then {[]} \<union> conc {''.''} digits_lang else {[]}) \<and> prefix st1 st2"
    using s2 number_fraction_frag [of st1 t1 st2 t2 m] frag_skip
    by (cases fractional) auto
  have has1: "has m (length st) st1" using has_prefix [OF has2] frac by blast
  note tail = number_tail_frag [OF s1 has1]
  show "prefix st st'" using tail(2) frac mag(2) prefix_order.trans by blast
  from frag_seq [OF mag(1) frag_seq [OF conjunct1 [OF frac] tail(1)]]
  have "frag m ({length st2..<length st'} \<union> ({length st1..<length st2} \<union> {length st..<length st1}))
      s n (number_lang fractional)" by (simp only: number_lang_def)
  moreover have "{length st2..<length st'} \<union> ({length st1..<length st2} \<union> {length st..<length st1})
      = {length st..<length st'}" using len by auto
  ultimately show "frag m {length st..<length st'} s n (number_lang fractional)" by simp
qed

section \<open>Values\<close>

fun value_lang :: "ValueSpec \<Rightarrow> bytes set" where
  "value_lang Text = text_value"
| "value_lang (Literals ls) = conc (set ls) {CLOSE}"
| "value_lang Boolean = conc {''true'', ''false''} {CLOSE}"
| "value_lang Null = {''null'' @ CLOSE}"
| "value_lang Integer = conc (number_lang False) {CLOSE}"
| "value_lang Number = conc (number_lang True) {CLOSE}"

definition writable :: "ValueSpec \<Rightarrow> bool" where
  "writable v \<longleftrightarrow> v \<noteq> Literals []"

lemma until_states:
  "fst (until st n) = st @ map (\<lambda>k. Until k n) [0..<14]"
proof -
  have "fold (\<lambda>k st. fst (add st (Until (k mod 2 ^ 8) n))) [0..<j] st
      = st @ map (\<lambda>k. Until k n) [0..<j]" if "j \<le> 14" for j
    using that by (induction j) (simp_all add: add_def)
  then show ?thesis by (simp add: until_def)
qed

lemma until_frag:
  assumes "until st n = (st', s)"
  shows "prefix st st'" and "has m (length st) st' \<Longrightarrow> frag m {length st..<length st'} s n text_value"
proof -
  have st': "st' = st @ map (\<lambda>k. Until k n) [0..<14]" and s: "s = length st mod 2 ^ 32"
    using until_states [of st n] assms by (auto simp: until_def)
  show "prefix st st'" using st' by simp
  assume has: "has m (length st) st'"
  then have "until_chain m (length st) n"
    by (auto simp: until_chain_def has_def st' nth_append)
  from frag_until [OF this] show "frag m {length st..<length st'} s n text_value"
    using has by (simp add: s st' has_def)
qed

lemma literal_alts_prefix: "literal_alts st ls n = (st', alts) \<Longrightarrow> prefix st st' \<and> length alts = length ls"
  by (induction ls arbitrary: st st' alts)
    (auto split: prod.splits dest!: literal_prefix intro: prefix_order.trans)

lemma literal_alts_each:
  "literal_alts st ls n = (st', alts) \<Longrightarrow> has m (length st) st' \<Longrightarrow>
    \<exists>ps. list_all2 (\<lambda>a p. frag m (fst p) a n (snd p)) alts ps
      \<and> (\<Union>p \<in> set ps. fst p) = {length st..<length st'} \<and> (\<Union>p \<in> set ps. snd p) = set ls"
proof (induction ls arbitrary: st st' alts)
  case Nil
  then show ?case by simp
next
  case (Cons l ls)
  obtain st1 i where one: "literal st l n = (st1, i)" by (cases "literal st l n")
  obtain alts' where two: "literal_alts st1 ls n = (st', alts')" and alts: "alts = i # alts'"
    using Cons.prems(1) by (auto simp: one split: prod.splits)
  have pre: "prefix st st1" "prefix st1 st'"
    using literal_prefix [OF one] literal_alts_prefix [OF two] by auto
  have "has m (length st1) st'" using has_mono [OF Cons.prems(2)] prefix_len [OF pre(1)] .
  from Cons.IH [OF two this] obtain ps where
    ps: "list_all2 (\<lambda>a p. frag m (fst p) a n (snd p)) alts' ps"
      "(\<Union>p \<in> set ps. fst p) = {length st1..<length st'}" "(\<Union>p \<in> set ps. snd p) = set ls" by blast
  have "frag m {length st..<length st1} i n {l}"
    using frag_literal [OF one] has_prefix [OF Cons.prems(2) pre(2)] by blast
  then show ?case using ps alts prefix_len [OF pre(1)] prefix_len [OF pre(2)]
    by (intro exI [of _ "({length st..<length st1}, {l}) # ps"]) auto
qed

lemma number_len: "number st n fractional = (st', s) \<Longrightarrow> length st < length st'"
  unfolding number_def
  by (auto split: prod.splits if_splits dest!: number_part_len)

lemma value_len: "build_value st v args = (st', s) \<Longrightarrow> length st \<le> length st'"
  by (cases v) (auto split: prod.splits simp del: literal_Cons dest!: number_len
      literal_prefix literal_alts_prefix split_alts_prefix until_frag(1) prefix_len)

lemma value_prefix:
  assumes "build_value st v args = (st', s)" and has: "has m (length st) st'"
  shows "prefix st st'"
proof -
  obtain st1 c where one: "literal st CLOSE args = (st1, c)" by (cases "literal st CLOSE args")
  have "prefix st1 st' \<or> v = Text"
  proof (cases v)
    case Integer
    then have "number st1 c False = (st', s)" using assms(1) one by simp
    then show ?thesis
      using number_frag(2) has_mono [OF has prefix_len [OF literal_prefix [OF one]]] by blast
  next
    case Number
    then have "number st1 c True = (st', s)" using assms(1) one by simp
    then show ?thesis
      using number_frag(2) has_mono [OF has prefix_len [OF literal_prefix [OF one]]] by blast
  qed (use assms(1) one in \<open>auto split: prod.splits simp del: literal_Cons
      dest!: literal_prefix literal_alts_prefix split_alts_prefix intro: prefix_order.trans\<close>)
  then show ?thesis
    using assms(1) until_frag(1) literal_prefix [OF one] prefix_order.trans by (cases v) auto
qed

lemma value_frag:
  assumes "build_value st v args = (st', s)" and has: "has m (length st) st'" and w: "writable v"
  shows "frag m {length st..<length st'} s args (value_lang v)"
proof -
  have closing: "\<exists>st1 c. literal st CLOSE args = (st1, c)" by (cases "literal st CLOSE args") auto
  have joined: "frag m {length st..<length st'} s args (conc A {CLOSE})"
    if one: "literal st CLOSE args = (st1, c)" and len: "length st1 \<le> length st'"
      and pre: "prefix st1 st'" and fr: "has m (length st1) st' \<Longrightarrow> frag m {length st1..<length st'} s c A"
    for A st1 c
  proof -
    have le: "length st \<le> length st1" using prefix_len [OF literal_prefix [OF one]] .
    have "frag m {length st..<length st1} c args {CLOSE}"
      using frag_literal [OF one] has_prefix [OF has pre] by blast
    from frag_seq [OF fr this] show ?thesis
      using has_mono [OF has le] ivl_join [OF le len] by simp
  qed
  obtain st1 c where one: "literal st CLOSE args = (st1, c)" using closing by blast
  show ?thesis
  proof (cases v)
    case Text
    then show ?thesis using until_frag(2) assms by simp
  next
    case (Literals ls)
    then obtain st2 alts where two: "literal_alts st1 ls c = (st2, alts)"
      and three: "split_alts st2 alts = (st', s)" using assms(1) one by (auto split: prod.splits)
    have pre: "prefix st1 st2" "length alts = length ls" using literal_alts_prefix [OF two] by auto
    have "frag m {length st1..<length st'} s c (set ls)" if has1: "has m (length st1) st'"
    proof -
      have "has m (length st1) st2" using has1 has_prefix split_alts_prefix [OF three] by blast
      from literal_alts_each [OF two this] obtain ps where
        ps: "list_all2 (\<lambda>a p. frag m (fst p) a c (snd p)) alts ps"
          "(\<Union>p \<in> set ps. fst p) = {length st1..<length st2}" "(\<Union>p \<in> set ps. snd p) = set ls"
        by blast
      note at = split_alts_at [OF three has1 prefix_len [OF pre(1)]]
      have "alts \<noteq> []" using pre(2) w Literals by (auto simp: writable_def)
      moreover have "insert s {length st1..<length st2} = {length st1..<length st'}"
        using at prefix_len [OF pre(1)] by auto
      ultimately show ?thesis using frag_alts [OF at(2) _ ps(1)] ps(2,3) by simp
    qed
    then show ?thesis using joined [OF one] split_alts_prefix [OF three] pre(1) Literals
      by (metis prefix_len prefix_order.trans value_lang.simps(2))
  next
    case Boolean
    obtain st2 yes where two: "literal st1 ''true'' c = (st2, yes)"
      by (cases "literal st1 ''true'' c")
    obtain st3 no where three: "literal st2 ''false'' c = (st3, no)"
      by (cases "literal st2 ''false'' c")
    have four: "split_alts st3 [yes, no] = (st', s)"
      using assms(1) Boolean one two three by (simp del: literal_Cons)
    have pre: "prefix st1 st2" "prefix st2 st3" "prefix st3 st'"
      using literal_prefix [OF two] literal_prefix [OF three] split_alts_prefix [OF four] by auto
    note len = prefix_len [OF pre(1)] prefix_len [OF pre(2)] prefix_len [OF pre(3)]
    have "frag m {length st1..<length st'} s c ({''true''} \<union> {''false''})"
      if has1: "has m (length st1) st'"
    proof (rule frag_split2 [OF four has1])
      show "frag m {length st1..<length st2} yes c {''true''}"
        using frag_literal [OF two] has_prefix has1 pre prefix_order.trans by blast
      show "frag m {length st2..<length st3} no c {''false''}"
        using frag_literal [OF three] has_sub [OF has1 pre(3) len(1)] by blast
    qed (use len in auto)
    moreover have "prefix st1 st'" "length st1 \<le> length st'"
      using pre len prefix_order.trans by (blast, linarith)
    ultimately show ?thesis using joined [OF one] Boolean by (simp add: insert_commute)
  next
    case Null
    then have two: "literal st1 ''null'' c = (st', s)"
      using assms(1) one by (simp del: literal_Cons)
    from joined [OF one prefix_len literal_prefix [OF two], of "{''null''}"] frag_literal [OF two]
    show ?thesis using literal_prefix [OF two] Null by (simp add: conc_single_single)
  next
    case Integer
    then have two: "number st1 c False = (st', s)" using assms(1) one by simp
    have has1: "has m (length st1) st'"
      using has_mono [OF has] prefix_len [OF literal_prefix [OF one]] .
    from joined [OF one prefix_len] number_frag [OF two has1] Integer
    show ?thesis by simp
  next
    case Number
    then have two: "number st1 c True = (st', s)" using assms(1) one by simp
    have has1: "has m (length st1) st'"
      using has_mono [OF has] prefix_len [OF literal_prefix [OF one]] .
    from joined [OF one prefix_len] number_frag [OF two has1] Number
    show ?thesis by simp
  qed
qed

end
