(* ===== verification/MachineTool.thy ===== *)
theory MachineTool
  imports MachineBuild
begin

text \<open>
  The part of the builder that uses the registers: one tool, with its parameter loop. The loop through
  \<open>args\<close> reads the parameters in any order, none twice, and leaves through \<open>RequireAll\<close> once the
  required ones have been written; \<open>args_words\<close> says that without states or registers.
\<close>

section \<open>Registers\<close>

text \<open>The written parameters, as a set of indices. It is faithful for the first 64 parameters.\<close>

definition written_set :: "64 word \<Rightarrow> nat set" where
  "written_set wr = {p. bit wr p}"

lemma written_set_0 [simp]: "written_set 0 = {}"
  by (simp add: written_set_def)

lemma param_bit_free:
  "p < 64 \<Longrightarrow> wr AND param_bit p = 0 \<longleftrightarrow> p \<notin> written_set wr"
  unfolding param_bit_def written_set_def
  by (auto simp: TRACKED_PARAMS_def bit_eq_iff [where 'a = "64 word"] bit_simps)

lemma written_set_or: "p < 64 \<Longrightarrow> written_set (wr OR param_bit p) = insert p (written_set wr)"
  unfolding param_bit_def written_set_def
  by (auto simp: TRACKED_PARAMS_def bit_simps)

definition required_params :: "ParamSpec list \<Rightarrow> nat set" where
  "required_params specs = {p. p < length specs \<and> pa_required (specs ! p)}"

lemma bit_param_bit: "bit (param_bit p) q \<longleftrightarrow> q = p \<and> p < 64"
  by (auto simp: param_bit_def TRACKED_PARAMS_def bit_simps)

lemma bit_required_mask:
  "i + length specs \<le> 64 \<Longrightarrow>
    bit (required_mask i specs) q \<longleftrightarrow> i \<le> q \<and> q - i \<in> required_params specs"
proof (induction specs arbitrary: i)
  case Nil
  then show ?case by (simp add: required_params_def)
next
  case (Cons spec specs)
  have "q - i \<in> required_params (spec # specs) \<longleftrightarrow>
      (q = i \<and> pa_required spec \<or> q - Suc i \<in> required_params specs \<and> i < q)" if "i \<le> q"
  proof (cases "q - i")
    case (Suc k)
    then have "q - Suc i = k" "i < q" by auto
    then show ?thesis using Suc by (auto simp: required_params_def)
  qed (use that in \<open>auto simp: required_params_def\<close>)
  with Cons.IH [of "Suc i"] Cons.prems show ?case
    by (auto simp: bit_simps bit_param_bit)
qed

lemma word_subset: "(wr :: 64 word) AND r = r \<longleftrightarrow> {p. bit r p} \<subseteq> written_set wr"
  using bit_imp_le_length [of r]
  by (auto simp: written_set_def bit_eq_iff [where 'a = "64 word"] bit_simps)

lemma required_mask_iff:
  assumes "length specs \<le> 64"
  shows "wr AND required_mask 0 specs = required_mask 0 specs
    \<longleftrightarrow> required_params specs \<subseteq> written_set wr"
  unfolding word_subset using bit_required_mask [of 0 specs] assms by auto

section \<open>The language of the parameter loop\<close>

definition param_lang :: "ParamSpec \<Rightarrow> bytes set" where
  "param_lang spec = conc {''<parameter='' @ pa_name spec @ [CHR ''>'', nl]} (value_lang (pa_value spec))"

definition args_words :: "ParamSpec list \<Rightarrow> nat set \<Rightarrow> bytes set" where
  "args_words specs W = {concat us | ps us. distinct ps \<and> set ps \<subseteq> {..<length specs} - W
     \<and> required_params specs \<subseteq> W \<union> set ps \<and> list_all2 (\<lambda>p u. u \<in> param_lang (specs ! p)) ps us}"

lemma args_words_stop: "required_params specs \<subseteq> W \<Longrightarrow> [] \<in> args_words specs W"
  unfolding args_words_def by force

lemma args_words_more:
  assumes "p < length specs" and "p \<notin> W" and "u \<in> param_lang (specs ! p)"
    and "x \<in> args_words specs (insert p W)"
  shows "u @ x \<in> args_words specs W"
proof -
  obtain ps us where "x = concat us" "distinct ps" "set ps \<subseteq> {..<length specs} - insert p W"
    "required_params specs \<subseteq> insert p W \<union> set ps"
    "list_all2 (\<lambda>p u. u \<in> param_lang (specs ! p)) ps us"
    using assms(4) by (auto simp: args_words_def)
  with assms(1-3) show ?thesis unfolding args_words_def
    by (intro CollectI exI [of _ "p # ps"] exI [of _ "u # us"]) auto
qed

lemma args_words_cases:
  assumes "x \<in> args_words specs W"
  obtains "x = []" "required_params specs \<subseteq> W"
  | p u y where "x = u @ y" "p < length specs" "p \<notin> W" "u \<in> param_lang (specs ! p)"
    "y \<in> args_words specs (insert p W)"
proof -
  obtain ps us where x: "x = concat us" and d: "distinct ps" and sub: "set ps \<subseteq> {..<length specs} - W"
    and req: "required_params specs \<subseteq> W \<union> set ps"
    and each: "list_all2 (\<lambda>p u. u \<in> param_lang (specs ! p)) ps us"
    using assms by (auto simp: args_words_def)
  show ?thesis
  proof (cases ps)
    case Nil
    then show ?thesis using that(1) x req each by simp
  next
    case (Cons p qs)
    then obtain u vs where us: "us = u # vs" "u \<in> param_lang (specs ! p)"
      "list_all2 (\<lambda>p u. u \<in> param_lang (specs ! p)) qs vs"
      using each by (auto simp: list_all2_Cons1)
    have "concat vs \<in> args_words specs (insert p W)"
      unfolding args_words_def using us(3) d sub req Cons
      by (intro CollectI exI [of _ qs] exI [of _ vs]) auto
    then show ?thesis using that(2) [of u "concat vs" p] x us Cons sub by auto
  qed
qed

lemma digits_lang_nonempty: "digits_lang \<noteq> {}"
  unfolding digits_lang_def digit_lang_def
  by (intro conc_nonempty) (auto simp: one_of_def intro: star_Nil)

lemma number_lang_nonempty: "number_lang fractional \<noteq> {}"
proof -
  have "magnitude_lang \<noteq> {}"
    unfolding magnitude_lang_def by (rule conc_nonempty) simp_all
  then show ?thesis unfolding number_lang_def by (intro conc_nonempty) simp_all
qed

lemma value_lang_nonempty: "writable v \<Longrightarrow> value_lang v \<noteq> {}"
proof (cases v)
  case Text
  then show ?thesis using CLOSE_text by auto
next
  case (Literals ls)
  moreover assume "writable v"
  ultimately show ?thesis by (simp add: writable_def conc_nonempty)
qed (simp_all add: conc_nonempty number_lang_nonempty)

lemma param_lang_nonempty: "writable (pa_value spec) \<Longrightarrow> param_lang spec \<noteq> {}"
  unfolding param_lang_def using conc_nonempty [OF _ value_lang_nonempty] by blast

lemma unwritten_decreases:
  assumes "p < (n::nat)" and "p \<notin> W"
  shows "card ({..<n} - insert p W) < card ({..<n} - W)"
proof -
  have "{..<n} - insert p W = ({..<n} - W) - {p}" by blast
  moreover have "p \<in> {..<n} - W" using assms by blast
  ultimately show ?thesis using card_Diff1_less [of "{..<n} - W" p] by (metis finite_Diff finite_lessThan)
qed

lemma args_words_nonempty:
  assumes "\<And>spec. spec \<in> set specs \<Longrightarrow> writable (pa_value spec)"
  shows "args_words specs W \<noteq> {}"
proof (induction "card ({..<length specs} - W)" arbitrary: W rule: less_induct)
  case less
  show ?case
  proof (cases "required_params specs \<subseteq> W")
    case True
    then show ?thesis using args_words_stop by blast
  next
    case False
    then obtain p where p: "p < length specs" "p \<notin> W" by (auto simp: required_params_def)
    obtain u where "u \<in> param_lang (specs ! p)"
      using param_lang_nonempty assms nth_mem p(1) by blast
    moreover obtain x where "x \<in> args_words specs (insert p W)"
      using less [OF unwritten_decreases [OF p]] by blast
    ultimately show ?thesis using args_words_more p by blast
  qed
qed

section \<open>What the builder lays down for one tool\<close>

fun params_at :: "Machine \<Rightarrow> u32 \<Rightarrow> usize \<Rightarrow> ParamSpec list \<Rightarrow> u32 list \<Rightarrow> u32 set \<Rightarrow> bool" where
  "params_at m args i [] alts I \<longleftrightarrow> alts = [] \<and> I = {}"
| "params_at m args i (spec # specs) alts I \<longleftrightarrow> (\<exists>a as opn J K. alts = a # as
     \<and> at_state m a = Some (Mark (i mod 2 ^ 8) opn) \<and> frag m J opn args (param_lang spec)
     \<and> (\<exists>b n. at_state m opn = Some (Byte b n)) \<and> opn \<in> J
     \<and> params_at m args (Suc i) specs as K \<and> I = insert a (J \<union> K))"

definition param_at :: "Machine \<Rightarrow> u32 \<Rightarrow> u32 \<Rightarrow> u8 \<Rightarrow> u32 \<Rightarrow> u32 set \<Rightarrow> ParamSpec \<Rightarrow> bool" where
  "param_at m args a p opn J spec \<longleftrightarrow> at_state m a = Some (Mark p opn)
     \<and> frag m J opn args (param_lang spec) \<and> (\<exists>b n. at_state m opn = Some (Byte b n)) \<and> opn \<in> J"

lemma params_at_nth:
  "params_at m args i specs alts I \<Longrightarrow> j < length specs \<Longrightarrow>
    \<exists>opn J. param_at m args (alts ! j) ((i + j) mod 2 ^ 8) opn J (specs ! j)
      \<and> J \<subseteq> I \<and> alts ! j \<in> I"
proof (induction specs arbitrary: i alts I j)
  case (Cons spec specs)
  then obtain a as opn J K where parts: "alts = a # as" "param_at m args a (i mod 2 ^ 8) opn J spec"
    "params_at m args (Suc i) specs as K" "I = insert a (J \<union> K)"
    unfolding params_at.simps param_at_def by blast
  show ?case
  proof (cases j)
    case 0
    then show ?thesis using parts by (intro exI [of _ opn] exI [of _ J]) auto
  next
    case (Suc k)
    then have "k < length specs" using Cons.prems by simp
    from Cons.IH [OF parts(3) this] Suc parts show ?thesis by auto
  qed
qed simp

lemma params_at_cover:
  "params_at m args i specs alts I \<Longrightarrow> x \<in> I \<Longrightarrow> \<exists>j < length specs. \<exists>opn J.
    param_at m args (alts ! j) ((i + j) mod 2 ^ 8) opn J (specs ! j) \<and> J \<subseteq> I
      \<and> (x = alts ! j \<or> x \<in> J)"
proof (induction specs arbitrary: i alts I)
  case (Cons spec specs)
  then obtain a as opn J K where parts: "alts = a # as" "param_at m args a (i mod 2 ^ 8) opn J spec"
    "params_at m args (Suc i) specs as K" "I = insert a (J \<union> K)"
    unfolding params_at.simps param_at_def by blast
  show ?case
  proof (cases "x \<in> insert a J")
    case True
    then show ?thesis using parts by (intro exI [of _ 0]) auto
  next
    case False
    then have "x \<in> K" using Cons.prems parts by auto
    from Cons.IH [OF parts(3) this] obtain j opn J' where
      "j < length specs" "param_at m args (as ! j) ((Suc i + j) mod 2 ^ 8) opn J' (specs ! j)"
      "J' \<subseteq> K" "x = as ! j \<or> x \<in> J'" by blast
    then show ?thesis using parts
      by (intro exI [of _ "Suc j"]) (auto intro!: exI [of _ opn] exI [of _ J'])
  qed
qed simp

lemma params_at_length: "params_at m args i specs alts I \<Longrightarrow> length alts = length specs"
  by (induction specs arbitrary: i alts I) auto

lemma build_params_len: "build_params st args i specs = (st', alts) \<Longrightarrow> length st \<le> length st'"
  by (induction specs arbitrary: st i st' alts)
    (force split: prod.splits simp del: literal_Cons
      dest!: value_len add_prefix literal_prefix [THEN prefix_len])+

lemma build_params_at:
  assumes "build_params st args i specs = (st', alts)" and "has m (length st) st'"
    and "\<And>spec. spec \<in> set specs \<Longrightarrow> writable (pa_value spec)"
  shows "params_at m args i specs alts {length st..<length st'} \<and> prefix st st'"
  using assms
proof (induction specs arbitrary: st i st' alts)
  case Nil
  then show ?case by simp
next
  case (Cons spec specs)
  obtain st1 v where s1: "build_value st (pa_value spec) args = (st1, v)"
    by (cases "build_value st (pa_value spec) args")
  let ?name = "''<parameter='' @ pa_name spec @ [CHR ''>'', nl]"
  obtain st2 opn where s2: "literal st1 ?name v = (st2, opn)" by (cases "literal st1 ?name v")
  obtain st3 mark where s3: "add st2 (Mark (i mod 2 ^ 8) opn) = (st3, mark)"
    by (cases "add st2 (Mark (i mod 2 ^ 8) opn)")
  obtain as where s4: "build_params st3 args (Suc i) specs = (st', as)" and alts: "alts = mark # as"
    using Cons.prems(1) by (auto simp: s1 s2 s3 [simplified] split: prod.splits simp del: literal_Cons append_Cons)
  note len = value_len [OF s1] prefix_len [OF literal_prefix [OF s2]] add_prefix [OF s3]
    build_params_len [OF s4]
  have "has m (length st3) st'" using has_mono [OF Cons.prems(2)] len by simp
  from Cons.IH [OF s4 this] Cons.prems(3)
  have rest: "params_at m args (Suc i) specs as {length st3..<length st'}" and pre: "prefix st3 st'"
    by auto
  have has3: "has m (length st) st3" by (rule has_prefix [OF Cons.prems(2) pre])
  have has2: "has m (length st) st2" using has3 has_prefix add_prefix [OF s3] by blast
  have has1: "has m (length st) st1" using has2 has_prefix literal_prefix [OF s2] by blast
  note mark = add_at [OF s3 has3]
  have lit: "has m (length st1) st2" using has_mono [OF has2] len by simp
  have "frag m ({length st1..<length st2} \<union> {length st..<length st1}) opn args (param_lang spec)"
    unfolding param_lang_def
    using frag_seq [OF frag_literal [OF s2 lit] value_frag [OF s1 has1]] Cons.prems(3) by simp
  then have fr: "frag m {length st..<length st2} opn args (param_lang spec)"
    using ivl_join [OF len(1,2)] by simp
  have s2': "literal st1 (CHR ''<'' # ''parameter='' @ pa_name spec @ [CHR ''>'', nl]) v = (st2, opn)"
    using s2 by simp
  note entry = literal_entry [OF s2' lit]
  have "{length st..<length st'} = insert mark ({length st..<length st2} \<union> {length st3..<length st'})"
    using mark(1) len by auto
  then have "params_at m args i (spec # specs) alts {length st..<length st'}"
    unfolding params_at.simps
    using alts mark entry fr rest len
    by (intro exI [of _ mark] exI [of _ as] exI [of _ opn] exI [of _ "{length st..<length st2}"]
        exI [of _ "{length st3..<length st'}"]) auto
  moreover have "prefix st st'"
    using value_prefix [OF s1 has1] literal_prefix [OF s2] add_prefix [OF s3] pre
      prefix_order.trans by metis
  ultimately show ?case by blast
qed

end
