(* ===== verification/MachineLang.thy ===== *)
theory MachineLang
  imports MachineTool
begin

text \<open>
  The compiled machine of a whole request against the reference grammar \<open>tool_calls\<close>: what a tool's
  states read, that every state of the machine is sound to run, and that the machine reads exactly the
  well-formed tool calls.
\<close>

section \<open>One tool\<close>

definition fin_text :: bytes where
  "fin_text = ''</function>'' @ [nl]"

definition open_text :: "string \<Rightarrow> bytes" where
  "open_text name = ''<function='' @ name @ [CHR ''>'', nl]"

text \<open>What \<open>build_tool\<close> lays down, with the states of the tool proper (\<open>T\<close>) apart from its \<open>EnterTool\<close>.\<close>

definition byte_state :: "Machine \<Rightarrow> u32 \<Rightarrow> bool" where
  "byte_state m i \<longleftrightarrow> (\<exists>b n. at_state m i = Some (Byte b n))"

definition tool_at :: "Machine \<Rightarrow> u32 \<Rightarrow> usize \<Rightarrow> ToolSpec \<Rightarrow> u32 \<Rightarrow> u32 set \<Rightarrow> bool" where
  "tool_at m cc index tool s T \<longleftrightarrow> (\<exists>args alts I closing C require named N.
     at_state m args = Some (Split (alts @ [require]))
     \<and> params_at m args 0 (to_params tool) alts I
     \<and> frag m C closing cc {fin_text} \<and> byte_state m closing \<and> closing \<in> C
     \<and> at_state m require = Some (RequireAll closing)
     \<and> frag m N named args {open_text (to_name tool)} \<and> byte_state m named
     \<and> named \<in> N \<and> at_state m s = Some (EnterTool (index mod 2 ^ 16) named)
     \<and> T = insert args (insert require (I \<union> C \<union> N)) \<and> s \<notin> T)"

lemma literal_entry':
  assumes "literal st bs n = (st', s)" and "has m (length st) st'" and "bs \<noteq> []"
  shows "\<exists>b n'. at_state m s = Some (Byte b n')" and "s \<in> {length st..<length st'}"
  using literal_entry [of st "hd bs" "tl bs" n st' s m] assms by auto

lemma build_tool_at:
  assumes "build_tool st cc index tool = (st', s)" and has: "has m (length st) st'"
    and w: "\<And>spec. spec \<in> set (to_params tool) \<Longrightarrow> writable (pa_value spec)"
  shows "\<exists>T. tool_at m cc index tool s T \<and> {length st..<length st'} = insert s T"
    and "prefix st st'"
proof -
  define args where "args = length st mod 2 ^ 32"
  let ?st1 = "st @ [Split []]"
  obtain st2 alts where s2: "build_params ?st1 args 0 (to_params tool) = (st2, alts)"
    by (cases "build_params ?st1 args 0 (to_params tool)")
  obtain st3 closing where s3: "literal st2 fin_text cc = (st3, closing)"
    by (cases "literal st2 fin_text cc")
  obtain st4 require where s4: "add st3 (RequireAll closing) = (st4, require)"
    by (cases "add st3 (RequireAll closing)")
  let ?st5 = "st4[args := Split (alts @ [require])]"
  obtain st6 named where s6: "literal ?st5 (open_text (to_name tool)) args = (st6, named)"
    by (cases "literal ?st5 (open_text (to_name tool)) args")
  have s7: "add st6 (EnterTool (index mod 2 ^ 16) named) = (st', s)"
    using assms(1) by (simp only: build_tool_def Let_def add_def [of st "Split []"] prod.case
        args_def [symmetric] fin_text_def [symmetric] open_text_def [symmetric] s2 s3 s4 s6)
  note len = build_params_len [OF s2] prefix_len [OF literal_prefix [OF s3]] add_prefix [OF s4]
    prefix_len [OF literal_prefix [OF s6]] add_prefix [OF s7]
  have "length st < length st'" using len by simp
  then have args: "args = length st" using has by (simp add: args_def has_def)
  have has6: "has m (length st) st6" using has has_prefix add_prefix [OF s7] by blast
  have has5: "has m (length st) ?st5" by (rule has_prefix [OF has6 literal_prefix [OF s6]])
  have at_args: "at_state m args = Some (Split (alts @ [require]))"
    using has_patch(1) [OF has5] len args by simp
  have has4: "has m (Suc (length st)) st4"
    using has_patch(2) [OF has5, of "Suc (length st)"] len args by simp
  have has3: "has m (Suc (length st)) st3" using has4 has_prefix add_prefix [OF s4] by blast
  have has2: "has m (length ?st1) st2"
    using has3 has_prefix literal_prefix [OF s3] by simp
  note par = build_params_at [OF s2 has2 w]
  have lit3: "has m (length st2) st3" using has_mono [OF has3] len by simp
  note closing = frag_literal [OF s3 lit3] literal_entry' [OF s3 lit3]
  have lit6: "has m (length ?st5) st6" using has_mono [OF has6] len by simp
  note named = frag_literal [OF s6 lit6] literal_entry' [OF s6 lit6]
  note require = add_at [OF s4 has4]
  note enter = add_at [OF s7 has]
  let ?T = "insert args (insert require ({length ?st1..<length st2} \<union> {length st2..<length st3}
      \<union> {length ?st5..<length st6}))"
  have range: "?T = {length st..<length st6}" using args require(1) len by auto
  have fr_closing: "frag m {length st2..<length st3} closing cc {fin_text}"
      "byte_state m closing" "closing \<in> {length st2..<length st3}"
    using closing by (simp_all add: fin_text_def byte_state_def)
  have fr_named: "frag m {length ?st5..<length st6} named args {open_text (to_name tool)}"
      "byte_state m named" "named \<in> {length ?st5..<length st6}"
    using named by (simp_all add: open_text_def byte_state_def)
  have at_require: "at_state m require = Some (RequireAll closing)"
    using require(1,2) len by simp
  have at_s: "at_state m s = Some (EnterTool (index mod 2 ^ 16) named)"
    using enter(1,2) len by simp
  have "s \<notin> ?T" unfolding range using enter(1) len by simp
  then have "tool_at m cc index tool s ?T"
    unfolding tool_at_def
    by (intro exI conjI) (rule at_args conjunct1 [OF par] fr_closing at_require fr_named at_s refl |
        assumption)+
  moreover have "{length st..<length st'} = insert s ?T" unfolding range using enter(1) len by auto
  ultimately show "\<exists>T. tool_at m cc index tool s T \<and> {length st..<length st'} = insert s T" by blast
  have "prefix st st4" using par literal_prefix [OF s3] add_prefix [OF s4]
    by (meson prefixI prefix_order.trans)
  then have "prefix st ?st5" using args by (intro prefix_patch) simp_all
  then show "prefix st st'" using literal_prefix [OF s6] add_prefix [OF s7] prefix_order.trans by blast
qed

lemma mark_lang:
  assumes "param_at m args a p opn J spec" and "p < 64"
  shows "L m a t wr = (if p \<in> written_set wr then {}
    else conc (param_lang spec) (L m args t (wr OR param_bit p)))"
proof -
  have "at_state m a = Some (Mark p opn)" and fr: "frag m J opn args (param_lang spec)"
    using assms(1) by (simp_all add: param_at_def)
  then show ?thesis
    by (simp add: L_mark param_bit_free [OF assms(2)] fragD(1) [OF fr])
qed

text \<open>The facts a tool's states are used through, with the mask of its required parameters in place.\<close>

definition tool_ready :: "Machine \<Rightarrow> u32 \<Rightarrow> usize \<Rightarrow> ToolSpec \<Rightarrow> bool" where
  "tool_ready m cc index tool \<longleftrightarrow> index < 2 ^ 16 \<and> length (to_params tool) \<le> 64
     \<and> at_index (m_required m) index = Some (required_mask 0 (to_params tool))
     \<and> (\<forall>spec \<in> set (to_params tool). writable (pa_value spec))"

text \<open>The parameter loop of a tool, as its states have it.\<close>

definition loop_at :: "Machine \<Rightarrow> u32 \<Rightarrow> usize \<Rightarrow> ToolSpec \<Rightarrow> u32 \<Rightarrow> bool" where
  "loop_at m cc index tool args \<longleftrightarrow> (\<exists>alts I closing C require.
     at_state m args = Some (Split (alts @ [require])) \<and> params_at m args 0 (to_params tool) alts I
     \<and> frag m C closing cc {fin_text} \<and> at_state m require = Some (RequireAll closing))"

lemma loop_lang:
  assumes lp: "loop_at m cc index tool args" and ready: "tool_ready m cc index tool"
  shows "L m args index wr =
    (\<Union>p \<in> {..<length (to_params tool)} - written_set wr.
        conc (param_lang (to_params tool ! p)) (L m args index (wr OR param_bit p)))
    \<union> (if required_params (to_params tool) \<subseteq> written_set wr
       then conc {fin_text} (L m cc index wr) else {})"
proof -
  obtain alts I closing C require where
    at: "at_state m args = Some (Split (alts @ [require]))"
    and par: "params_at m args 0 (to_params tool) alts I"
    and fr: "frag m C closing cc {fin_text}"
    and rq: "at_state m require = Some (RequireAll closing)"
    using lp unfolding loop_at_def by blast
  let ?n = "length (to_params tool)"
  have n: "?n \<le> 64" using ready by (simp add: tool_ready_def)
  have mark: "L m (alts ! p) index wr = (if p \<in> written_set wr then {}
      else conc (param_lang (to_params tool ! p)) (L m args index (wr OR param_bit p)))"
    if p: "p < ?n" for p
  proof -
    obtain opn J where "param_at m args (alts ! p) p opn J (to_params tool ! p)"
      using params_at_nth [OF par p] p n by auto
    then show ?thesis by (rule mark_lang) (use p n in simp)
  qed
  have "(\<Union>a \<in> set alts. L m a index wr) = (\<Union>p \<in> {..<?n}. L m (alts ! p) index wr)"
    using params_at_length [OF par] by (auto simp: set_conv_nth)
  also have "\<dots> = (\<Union>p \<in> {..<?n} - written_set wr.
        conc (param_lang (to_params tool ! p)) (L m args index (wr OR param_bit p)))"
    using mark by auto
  finally have marks: "(\<Union>a \<in> set alts. L m a index wr) = \<dots>" .
  have fin: "L m require index wr = (if required_params (to_params tool) \<subseteq> written_set wr
       then conc {fin_text} (L m cc index wr) else {})"
    using ready L_require [OF rq] fragD(1) [OF fr] required_mask_iff [OF n]
    by (simp add: tool_ready_def)
  have "L m args index wr = (\<Union>a \<in> set alts. L m a index wr) \<union> L m require index wr"
    using L_split [OF at, of index wr] by (simp add: Un_commute)
  then show ?thesis by (simp only: marks fin)
qed

lemma loop_sound:
  assumes lp: "loop_at m cc index tool args" and ready: "tool_ready m cc index tool"
  shows "w \<in> L m args index wr \<Longrightarrow> \<exists>x v wr'. w = x @ fin_text @ v
    \<and> x \<in> args_words (to_params tool) (written_set wr) \<and> v \<in> L m cc index wr'"
proof (induction "card ({..<length (to_params tool)} - written_set wr)" arbitrary: w wr
    rule: less_induct)
  case less
  consider p u y where "w = u @ y" "p < length (to_params tool)" "p \<notin> written_set wr"
      "u \<in> param_lang (to_params tool ! p)" "y \<in> L m args index (wr OR param_bit p)"
    | v where "required_params (to_params tool) \<subseteq> written_set wr" "w = fin_text @ v"
      "v \<in> L m cc index wr"
    using less(2) unfolding loop_lang [OF lp ready, of wr] conc_def by (auto split: if_splits)
  then show ?case
  proof cases
    case 1
    have "p < 64" using 1(2) ready by (simp add: tool_ready_def)
    then have set: "written_set (wr OR param_bit p) = insert p (written_set wr)"
      by (rule written_set_or)
    obtain x v wr' where "y = x @ fin_text @ v" "v \<in> L m cc index wr'"
      "x \<in> args_words (to_params tool) (insert p (written_set wr))"
      using less(1) [OF _ 1(5)] unwritten_decreases [OF 1(2,3)] by (auto simp: set)
    then show ?thesis using 1 args_words_more [OF 1(2,3,4)]
      by (intro exI [of _ "u @ x"] exI [of _ v] exI [of _ wr']) simp
  next
    case 2
    then show ?thesis using args_words_stop by (intro exI [of _ "[]"] exI [of _ v] exI [of _ wr]) simp
  qed
qed

lemma loop_complete:
  assumes lp: "loop_at m cc index tool args" and ready: "tool_ready m cc index tool"
    and v: "\<And>wr. v \<in> L m cc index wr"
  shows "x \<in> args_words (to_params tool) (written_set wr) \<Longrightarrow> x @ fin_text @ v \<in> L m args index wr"
proof (induction "card ({..<length (to_params tool)} - written_set wr)" arbitrary: x wr
    rule: less_induct)
  case less
  from less(2) show ?case
  proof (cases rule: args_words_cases)
    case 1
    then show ?thesis
      unfolding loop_lang [OF lp ready, of wr] using concI [OF _ v [of wr], of fin_text "{fin_text}"]
      by simp
  next
    case (2 p u y)
    have "p < 64" using 2(2) ready by (simp add: tool_ready_def)
    then have set: "written_set (wr OR param_bit p) = insert p (written_set wr)"
      by (rule written_set_or)
    have "y @ fin_text @ v \<in> L m args index (wr OR param_bit p)"
      using less(1) [of "wr OR param_bit p" y] unwritten_decreases [OF 2(2,3)] 2(5)
      by (simp add: set)
    from concI [OF 2(4) this] show ?thesis
      unfolding loop_lang [OF lp ready, of wr] using 2 by auto
  qed
qed

section \<open>Sound states of one tool\<close>

definition sound :: "Machine \<Rightarrow> scope \<Rightarrow> u32 \<Rightarrow> bool" where
  "sound m R i \<longleftrightarrow> ok_state m R i \<and> ends m R i
     \<and> ((\<exists>p n. at_state m i = Some (Mark p n)) \<or> (\<exists>n. at_state m i = Some (RequireAll n)) \<or> live m R i)"

lemma fine_sound: "fine m R i \<Longrightarrow> sound m R i"
  by (simp add: fine_def sound_def)

lemma byte_ends: "byte_state m i \<Longrightarrow> ends m R i"
  using ends_stop by (auto simp: byte_state_def)

lemma mark_sound:
  assumes at: "at_state m a = Some (Mark p opn)" and lk: "link m R a opn" and "ends m R opn"
  shows "sound m R a"
proof -
  have "halts m \<lparr>cu_state = a, cu_tool = t, cu_written = wr\<rparr>" if "in_scope R a t" for t wr
  proof -
    have "eps_next m \<lparr>cu_state = a, cu_tool = t, cu_written = wr\<rparr> = Some (Some
        (if wr AND param_bit p = 0
         then [\<lparr>cu_state = opn, cu_tool = t, cu_written = wr OR param_bit p\<rparr>] else []))"
      by (simp add: eps_next_def at)
    then show ?thesis
      by (rule halts.expand)
        (use assms(3) link_scope [OF lk that] in \<open>auto simp: ends_def split: if_splits\<close>)
  qed
  then show ?thesis using at lk by (simp add: sound_def ok_state_def ends_def)
qed

lemma require_sound:
  assumes at: "at_state m a = Some (RequireAll n)" and lk: "link m R a n" and "ends m R n"
    and t: "R a = Some t" "t < length (m_required m)"
  shows "sound m R a"
proof -
  have "halts m \<lparr>cu_state = a, cu_tool = t', cu_written = wr\<rparr>" if "in_scope R a t'" for t' wr
  proof -
    have "t' = t" using that t by (simp add: in_scope_def)
    moreover have "at_index (m_required m) t = Some (m_required m ! t)"
      using t(2) by (simp add: at_index_def)
    ultimately have nxt: "eps_next m \<lparr>cu_state = a, cu_tool = t', cu_written = wr\<rparr> = Some (Some
        (if wr AND m_required m ! t = m_required m ! t
         then [\<lparr>cu_state = n, cu_tool = t, cu_written = wr\<rparr>] else []))"
      by (simp add: eps_next_def at)
    show ?thesis
      by (rule halts.expand [OF nxt])
        (use assms(3) link_scope [OF lk that] \<open>t' = t\<close> in \<open>auto simp: ends_def split: if_splits\<close>)
  qed
  then show ?thesis using at lk t by (auto simp: sound_def ok_state_def ends_def)
qed

lemma enter_fine:
  assumes at: "at_state m s = Some (EnterTool t n)" and n: "n < length (m_states m)"
    and sc: "R n = Some t" and "ends m R n" and "live m R n"
  shows "fine m R s"
proof -
  have "halts m \<lparr>cu_state = s, cu_tool = t', cu_written = wr\<rparr>" for t' wr
  proof -
    have "eps_next m \<lparr>cu_state = s, cu_tool = t', cu_written = wr\<rparr> = Some (Some
        [\<lparr>cu_state = n, cu_tool = t, cu_written = 0\<rparr>])" by (simp add: eps_next_def at)
    then show ?thesis
      by (rule halts.expand) (use assms(4) sc in \<open>auto simp: ends_def in_scope_def\<close>)
  qed
  moreover have "L m s t' wr \<noteq> {}" for t' wr
    using assms(5) sc by (simp add: L_enter [OF at] live_def in_scope_def)
  ultimately show ?thesis using at n sc
    by (simp add: fine_def ok_state_def ends_def live_def in_scope_def)
qed

lemma tool_loop: "tool_at m cc index tool s T \<Longrightarrow> \<exists>args N named. loop_at m cc index tool args
    \<and> frag m N named args {open_text (to_name tool)}
    \<and> at_state m s = Some (EnterTool (index mod 2 ^ 16) named)"
  unfolding tool_at_def loop_at_def by blast

lemma loop_live:
  assumes "loop_at m cc index tool args" and ready: "tool_ready m cc index tool"
    and "R args = Some index" and "\<And>wr. v \<in> L m cc index wr"
  shows "live m R args"
proof -
  have "L m args index wr \<noteq> {}" for wr
  proof -
    obtain x where "x \<in> args_words (to_params tool) (written_set wr)"
      using args_words_nonempty [of "to_params tool"] ready by (auto simp: tool_ready_def)
    from loop_complete [OF assms(1,2) assms(4) this] show ?thesis by blast
  qed
  then show ?thesis using assms(3) by (simp add: live_def in_scope_def)
qed

lemma tool_sound:
  assumes tool: "tool_at m cc index tool s T" and ready: "tool_ready m cc index tool"
    and R: "\<And>i. i \<in> T \<Longrightarrow> R i = Some index"
    and cc: "cc < length (m_states m)" "R cc = None" "ends m R cc" "live m R cc"
    and v: "\<And>wr. v \<in> L m cc index wr"
  shows "i \<in> T \<Longrightarrow> sound m R i" and "fine m R s"
proof -
  obtain args alts I closing C require named N where
    at: "at_state m args = Some (Split (alts @ [require]))"
    and par: "params_at m args 0 (to_params tool) alts I"
    and frC: "frag m C closing cc {fin_text}" "byte_state m closing" "closing \<in> C"
    and rq: "at_state m require = Some (RequireAll closing)"
    and frN: "frag m N named args {open_text (to_name tool)}" "byte_state m named" "named \<in> N"
    and en: "at_state m s = Some (EnterTool (index mod 2 ^ 16) named)"
    and T: "T = insert args (insert require (I \<union> C \<union> N))"
    using tool unfolding tool_at_def by (elim exE conjE) (rule that)
  have lp: "loop_at m cc index tool args" unfolding loop_at_def using at par frC(1) rq by blast
  have small: "index < 2 ^ 16" "index < length (m_required m)"
    using ready by (auto simp: tool_ready_def at_index_def split: if_splits)
  note valid = at_state_less
  have live_args: "live m R args"
    by (rule loop_live [OF lp ready _ v]) (simp add: R T)
  have exC: "exit_ok m R C (Some index) cc" using cc R by (auto simp: exit_ok_def T)
  have closing: "link m R require closing" "ends m R closing"
    using fragD(3) [OF frC(1) exC] byte_ends [OF frC(2)] R by (auto simp: link_def T)
  have sound_require: "sound m R require"
    by (rule require_sound [OF rq closing, of index]) (use R small T in auto)
  have param: "sound m R (alts ! j)" "link m R args (alts ! j)"
    if j: "j < length (to_params tool)" for j
  proof -
    obtain opn J where pa: "param_at m args (alts ! j) (j mod 2 ^ 8) opn J (to_params tool ! j)"
        and sub: "J \<subseteq> I" "alts ! j \<in> I"
      using params_at_nth [OF par j] by auto
    then have "at_state m (alts ! j) = Some (Mark (j mod 2 ^ 8) opn)" "byte_state m opn" "opn \<in> I"
      by (auto simp: param_at_def byte_state_def)
    moreover from this have "link m R (alts ! j) opn"
      using sub R valid by (auto simp: link_def T byte_state_def)
    ultimately show "sound m R (alts ! j)" using mark_sound byte_ends by blast
    show "link m R args (alts ! j)"
      using sub R valid pa by (auto simp: link_def T param_at_def)
  qed
  have each: "link m R args a \<and> ends m R a" if "a \<in> set (alts @ [require])" for a
  proof (cases "a = require")
    case True
    then show ?thesis using sound_require R valid [OF rq] by (simp add: sound_def link_def T)
  next
    case False
    then have "a \<in> set alts" using that by simp
    then obtain j where "j < length (to_params tool)" "a = alts ! j"
      using params_at_length [OF par] by (auto simp: in_set_conv_nth)
    then show ?thesis using param [of j] by (simp add: sound_def)
  qed
  have ends_args: "ends m R args" using at each by (rule ends_split)
  have "ok_state m R args" using at each by (auto simp: ok_state_def)
  then have sound_args: "sound m R args" using ends_args live_args by (simp add: sound_def)
  have ex: "exit_ok m R J (Some index) args" if "J \<subseteq> T" for J
    using that R ends_args live_args valid [OF at] by (auto simp: exit_ok_def T)
  have exN: "exit_ok m R N (Some index) args" by (rule ex) (auto simp: T)
  have sound_I: "sound m R i" if "i \<in> I" for i
  proof -
    have i: "i \<in> I" by (rule that)
    obtain j opn J where "j < length (to_params tool)" "J \<subseteq> I" "i = alts ! j \<or> i \<in> J"
        and pa: "param_at m args (alts ! j) (j mod 2 ^ 8) opn J (to_params tool ! j)"
      using params_at_cover [OF par i] by auto
    moreover from this(2) have "exit_ok m R J (Some index) args"
      by (intro ex) (auto simp: T)
    ultimately show ?thesis
      using param(1) [of j] fragD(2) [of m J opn args _ R "Some index" i] fine_sound [of m R i]
      by (auto simp: param_at_def)
  qed
  show "i \<in> T \<Longrightarrow> sound m R i"
    using sound_args sound_require sound_I fragD(2) [OF frC(1) exC] fragD(2) [OF frN(1) exN] fine_sound
    by (auto simp: T)
  show "fine m R s"
    by (rule enter_fine [of _ _ index named])
      (use en small fragD(3) [OF frN(1) exN] R frN(3) T in auto)
qed

section \<open>All tools\<close>

fun tools_at :: "Machine \<Rightarrow> u32 \<Rightarrow> usize \<Rightarrow> ToolSpec list \<Rightarrow> u32 list \<Rightarrow> u32 \<Rightarrow> u32 \<Rightarrow> bool" where
  "tools_at m cc index [] openers lo hi \<longleftrightarrow> openers = [] \<and> lo = hi"
| "tools_at m cc index (tool # tools) openers lo hi \<longleftrightarrow> (\<exists>s openers' T mid. openers = s # openers'
     \<and> tool_at m cc index tool s T \<and> {lo..<mid} = insert s T \<and> s \<notin> T \<and> lo \<le> mid \<and> mid \<le> hi
     \<and> tools_at m cc (Suc index) tools openers' mid hi)"

lemma build_tool_len: "build_tool st cc index tool = (st', s) \<Longrightarrow> length st < length st'"
  unfolding build_tool_def
  by (auto split: prod.splits simp del: literal_Cons append_Cons
      dest!: build_params_len add_prefix literal_prefix [THEN prefix_len])

lemma build_tools_len: "build_tools st cc index tools = (st', openers) \<Longrightarrow> length st \<le> length st'"
  by (induction tools arbitrary: st index st' openers)
    (force split: prod.splits dest!: build_tool_len)+

lemma build_tools_at:
  assumes "build_tools st cc index tools = (st', openers)" and "has m (length st) st'"
    and "\<And>tool spec. tool \<in> set tools \<Longrightarrow> spec \<in> set (to_params tool) \<Longrightarrow> writable (pa_value spec)"
  shows "tools_at m cc index tools openers (length st) (length st') \<and> prefix st st'"
  using assms
proof (induction tools arbitrary: st index st' openers)
  case Nil
  then show ?case by simp
next
  case (Cons tool tools)
  obtain st1 s where one: "build_tool st cc index tool = (st1, s)"
    by (cases "build_tool st cc index tool")
  obtain os where two: "build_tools st1 cc (Suc index) tools = (st', os)" and op: "openers = s # os"
    using Cons.prems(1) by (auto simp: one split: prod.splits)
  note len = build_tool_len [OF one] build_tools_len [OF two]
  have "has m (length st1) st'" using has_mono [OF Cons.prems(2)] len by simp
  from Cons.IH [OF two this] Cons.prems(3)
  have rest: "tools_at m cc (Suc index) tools os (length st1) (length st')" and pre: "prefix st1 st'"
    by auto
  have has1: "has m (length st) st1" by (rule has_prefix [OF Cons.prems(2) pre])
  obtain T where "tool_at m cc index tool s T" "{length st..<length st1} = insert s T"
    using build_tool_at(1) [OF one has1] Cons.prems(3) by auto
  moreover from this(1) have "s \<notin> T" by (auto simp: tool_at_def)
  ultimately have "tools_at m cc index (tool # tools) openers (length st) (length st')"
    using op rest len unfolding tools_at.simps
    by (intro exI [of _ s] exI [of _ os] exI [of _ T] exI [of _ "length st1"]) simp
  moreover have "prefix st st1"
    by (rule build_tool_at(2) [OF one has1]) (rule Cons.prems(3), auto)
  ultimately show ?case using pre prefix_order.trans by blast
qed

definition cc_ok :: "Machine \<Rightarrow> scope \<Rightarrow> u32 \<Rightarrow> bool" where
  "cc_ok m R cc \<longleftrightarrow> cc < length (m_states m) \<and> R cc = None \<and> ends m R cc \<and> live m R cc
     \<and> (\<exists>v. \<forall>t wr. v \<in> L m cc t wr)"

lemma tools_at_le: "tools_at m cc index tools openers lo hi \<Longrightarrow> lo \<le> hi"
  by (cases tools) auto

lemma tools_sound:
  assumes "tools_at m cc index tools openers lo hi"
    and "\<And>j. j < length tools \<Longrightarrow> tool_ready m cc (index + j) (tools ! j)"
  shows "\<exists>R0. (\<forall>i. i \<notin> {lo..<hi} \<longrightarrow> R0 i = None)
    \<and> (\<forall>R. (\<forall>i \<in> {lo..<hi}. R i = R0 i) \<longrightarrow> cc_ok m R cc \<longrightarrow>
        (\<forall>i \<in> {lo..<hi}. sound m R i)
        \<and> (\<forall>a \<in> set openers. a < length (m_states m) \<and> R a = None \<and> fine m R a))"
  using assms
proof (induction tools arbitrary: index openers lo)
  case Nil
  then show ?case by auto
next
  case (Cons tool tools)
  obtain s os T mid where op: "openers = s # os" and tool: "tool_at m cc index tool s T"
    and range: "{lo..<mid} = insert s T" and s: "s \<notin> T" and le: "lo \<le> mid" "mid \<le> hi"
    and rest: "tools_at m cc (Suc index) tools os mid hi"
    using Cons.prems(1) by auto
  have "tool_ready m cc (Suc index + j) (tools ! j)" if "j < length tools" for j
    using Cons.prems(2) [of "Suc j"] that by simp
  from Cons.IH [OF rest this] obtain R1 where
    none: "\<And>i. i \<notin> {mid..<hi} \<Longrightarrow> R1 i = None"
    and IH: "\<And>R. (\<forall>i \<in> {mid..<hi}. R i = R1 i) \<Longrightarrow> cc_ok m R cc \<Longrightarrow>
        (\<forall>i \<in> {mid..<hi}. sound m R i)
        \<and> (\<forall>a \<in> set os. a < length (m_states m) \<and> R a = None \<and> fine m R a)" by blast
  define R0 where "R0 i = (if i \<in> T then Some index else R1 i)" for i
  have T_lo: "i < mid" "lo \<le> i" if "i \<in> insert s T" for i
    using that unfolding range [symmetric] by auto
  have ivl: "{lo..<hi} = insert s T \<union> {mid..<hi}"
    unfolding range [symmetric] using le by auto
  have out: "R0 i = None" if "i \<notin> {lo..<hi}" for i
    using that none unfolding ivl by (simp add: R0_def)
  have "(\<forall>i \<in> {lo..<hi}. sound m R i)
      \<and> (\<forall>a \<in> set openers. a < length (m_states m) \<and> R a = None \<and> fine m R a)"
    if R: "\<forall>i \<in> {lo..<hi}. R i = R0 i" and cc: "cc_ok m R cc" for R
  proof -
    have R_T: "R i = Some index" if "i \<in> T" for i using R that by (simp add: ivl R0_def)
    have "R s = None" using R s none [of s] T_lo(1) [of s] by (simp add: ivl R0_def)
    have "\<forall>i \<in> {mid..<hi}. R i = R1 i"
      using R T_lo(1) by (force simp: ivl R0_def)
    note rest = IH [OF this cc]
    have ready: "tool_ready m cc index tool" using Cons.prems(2) [of 0] by simp
    obtain v where v: "\<And>wr. v \<in> L m cc index wr" using cc by (auto simp: cc_ok_def)
    have fine_s: "fine m R s"
      by (rule tool_sound(2) [OF tool ready R_T _ _ _ _ v]) (use cc in \<open>auto simp: cc_ok_def\<close>)
    have sound_T: "sound m R i" if "i \<in> T" for i
      by (rule tool_sound(1) [OF tool ready R_T _ _ _ _ v that]) (use cc in \<open>auto simp: cc_ok_def\<close>)
    have "s < length (m_states m)"
      using tool at_state_less unfolding tool_at_def by blast
    then show ?thesis
      using rest fine_s sound_T fine_sound \<open>R s = None\<close> by (auto simp: op ivl)
  qed
  with out show ?case by blast
qed

text \<open>What the tools read, up to the registers with which they leave.\<close>

definition tool_text :: "ToolSpec \<Rightarrow> bytes \<Rightarrow> bytes" where
  "tool_text tool x = open_text (to_name tool) @ x @ fin_text"

lemma tool_lang:
  assumes tool: "tool_at m cc index tool s T" and ready: "tool_ready m cc index tool"
  shows "w \<in> L m s t wr \<Longrightarrow> \<exists>x \<in> args_words (to_params tool) {}. \<exists>v wr'.
      w = tool_text tool x @ v \<and> v \<in> L m cc index wr'"
    and "x \<in> args_words (to_params tool) {} \<Longrightarrow> (\<And>wr. v \<in> L m cc index wr) \<Longrightarrow>
      tool_text tool x @ v \<in> L m s t wr"
proof -
  obtain args N named where lp: "loop_at m cc index tool args"
    and frN: "frag m N named args {open_text (to_name tool)}"
    and en: "at_state m s = Some (EnterTool (index mod 2 ^ 16) named)"
    using tool_loop [OF tool] by blast
  have "index mod 2 ^ 16 = index" using ready by (simp add: tool_ready_def)
  then have L: "L m s t wr = conc {open_text (to_name tool)} (L m args index 0)"
    using L_enter [OF en, of t wr] fragD(1) [OF frN] by simp
  show "w \<in> L m s t wr \<Longrightarrow> \<exists>x \<in> args_words (to_params tool) {}. \<exists>v wr'.
      w = tool_text tool x @ v \<and> v \<in> L m cc index wr'"
    unfolding L conc_single tool_text_def using loop_sound [OF lp ready, of _ 0] by fastforce
  show "x \<in> args_words (to_params tool) {} \<Longrightarrow> (\<And>wr. v \<in> L m cc index wr) \<Longrightarrow>
      tool_text tool x @ v \<in> L m s t wr"
    unfolding L conc_single tool_text_def using loop_complete [OF lp ready, of v x 0] by simp
qed

lemma tools_at_nth:
  assumes "tools_at m cc index tools openers lo hi" and "j < length tools"
  shows "\<exists>T. tool_at m cc (index + j) (tools ! j) (openers ! j) T"
  using assms
proof (induction tools arbitrary: index openers lo j)
  case (Cons tool tools)
  then obtain s os T mid where op: "openers = s # os" "tool_at m cc index tool s T"
    "tools_at m cc (Suc index) tools os mid hi" by auto
  then show ?case using Cons.IH [OF op(3), of "j - 1"] Cons.prems(2) by (cases j) auto
qed simp

lemma tools_at_length: "tools_at m cc index tools openers lo hi \<Longrightarrow> length openers = length tools"
  by (induction tools arbitrary: index openers lo) auto

end
