(* ===== verification/MachineCalls.thy ===== *)
theory MachineCalls
  imports MachineLang
begin

text \<open>
  The machine of a whole request. \<open>tool_calls\<close> is the grammar of the module documentation as a set of
  byte strings; a machine \<open>build\<close> lays down reads exactly that set, is safe to run, and never reaches
  a cursor from which no call can be completed.
\<close>

section \<open>The reference grammar\<close>

definition call_open :: bytes where
  "call_open = ''<tool_call>'' @ [nl]"

definition call_close :: bytes where
  "call_close = ''</tool_call>''"

definition spaces :: bytes where
  "spaces = [CHR '' '', CHR 0x09, nl, CHR 0x0D]"

definition body_lang :: "ToolSpec \<Rightarrow> bytes set" where
  "body_lang tool = {tool_text tool x @ call_close | x. x \<in> args_words (to_params tool) {}}"

inductive_set tail_words :: "ToolSpec list \<Rightarrow> bool \<Rightarrow> bytes set" for tools many where
  stop: "[] \<in> tail_words tools many"
| space: "b \<in> set spaces \<Longrightarrow> w \<in> tail_words tools many \<Longrightarrow> b # w \<in> tail_words tools many"
| again: "many \<Longrightarrow> tool \<in> set tools \<Longrightarrow> x \<in> body_lang tool \<Longrightarrow> w \<in> tail_words tools many
    \<Longrightarrow> call_open @ x @ w \<in> tail_words tools many"

definition tool_calls :: "ToolSpec list \<Rightarrow> bool \<Rightarrow> bytes set" where
  "tool_calls tools many = {pre @ x @ w | pre tool x w. pre \<in> {[], call_open}
     \<and> tool \<in> set tools \<and> x \<in> body_lang tool \<and> w \<in> tail_words tools many}"

section \<open>The frame\<close>

definition frame :: "Machine \<Rightarrow> ToolSpec list \<Rightarrow> bool \<Rightarrow> u32 \<Rightarrow> bool" where
  "frame m tools many root \<longleftrightarrow> (\<exists>sps again openers cc opened lo hi A.
     at_state m 0 = Some Accept \<and> at_state m 1 = Some (Split (0 # sps @ again))
     \<and> at_state m 2 = Some (Split openers)
     \<and> frag m {3..<lo} cc 1 {call_close} \<and> byte_state m cc \<and> cc \<in> {3..<lo} \<and> 3 \<le> lo
     \<and> tools_at m cc 0 tools openers lo hi
     \<and> sps = [hi..<hi + 4] \<and> (\<forall>j < 4. at_state m (hi + j) = Some (Byte (spaces ! j) 1))
     \<and> (if many then \<exists>a. again = [a] \<and> frag m {hi + 4..<A} a 2 {call_open} \<and> byte_state m a
          \<and> a \<in> {hi + 4..<A} else again = [] \<and> A = hi + 4)
     \<and> hi + 4 \<le> A \<and> A \<le> root \<and> frag m {A..<root} opened 2 {call_open} \<and> opened \<in> {A..<root}
     \<and> at_state m root = Some (Split [opened, 2]) \<and> length (m_states m) = Suc root)"

lemma build_frame:
  assumes "build tools many = (m_states m, root)" and room: "length (m_states m) \<le> 2 ^ 32"
    and fb: "m_fallback m = close_table"
    and w: "\<And>tool spec. tool \<in> set tools \<Longrightarrow> spec \<in> set (to_params tool) \<Longrightarrow> writable (pa_value spec)"
  shows "frame m tools many root"
proof -
  let ?st3 = "[Accept, Split [], Split []]"
  obtain st4 cc where s4: "literal ?st3 call_close 1 = (st4, cc)"
    by (cases "literal ?st3 call_close 1")
  obtain st5 openers where s5: "build_tools st4 cc 0 tools = (st5, openers)"
    by (cases "build_tools st4 cc 0 tools")
  let ?st6 = "st5[2 := Split openers]"
  obtain st7 sps where s7: "byte_alts ?st6 spaces 1 = (st7, sps)" by (cases "byte_alts ?st6 spaces 1")
  obtain st8 again where s8: "(if many
      then let (st, again) = literal st7 call_open 2 in (st, [again]) else (st7, [])) = (st8, again)"
    by (cases "if many then let (st, again) = literal st7 call_open 2 in (st, [again])
      else (st7, [])")
  let ?st9 = "st8[1 := Split (0 # sps @ again)]"
  obtain st10 opened where s10: "literal ?st9 call_open 2 = (st10, opened)"
    by (cases "literal ?st9 call_open 2")
  have adds: "add [] Accept = ([Accept], 0)" "add [Accept] (Split []) = ([Accept, Split []], 1)"
    "add [Accept, Split []] (Split []) = (?st3, 2)"
    by (simp_all add: add_def)
  have s11: "split_alts st10 [opened, 2] = (m_states m, root)"
    using assms(1) unfolding build_def
    by (simp only: Let_def adds prod.case call_close_def [symmetric] call_open_def [symmetric]
        spaces_def [symmetric] s4 s5 s7 s8 [unfolded Let_def] s10)
  have pre8: "prefix st7 st8" using s8 literal_prefix [of st7 call_open 2]
    by (auto split: if_splits prod.splits)
  note len = prefix_len [OF literal_prefix [OF s4]] build_tools_len [OF s5]
    prefix_len [OF byte_alts_prefix [OF s7]] prefix_len [OF pre8]
    prefix_len [OF literal_prefix [OF s10]] split_alts_prefix [OF s11]
  have has: "has m 0 (m_states m)"
    using room fb by (simp add: has_def at_index_def)
  have has10: "has m 0 st10" using has has_prefix split_alts_prefix [OF s11] by blast
  have has9: "has m 0 ?st9" by (rule has_prefix [OF has10 literal_prefix [OF s10]])
  have at1: "at_state m 1 = Some (Split (0 # sps @ again))"
    using has_patch(1) [OF has9] len by simp
  have has8: "has m 2 st8" using has_patch(2) [OF has9, of 2] len by simp
  have has7: "has m 2 st7" by (rule has_prefix [OF has8 pre8])
  have has6: "has m 2 ?st6" by (rule has_prefix [OF has7 byte_alts_prefix [OF s7]])
  have at2: "at_state m 2 = Some (Split openers)"
    using has_patch(1) [OF has6] len by simp
  have has5: "has m 3 st5" using has_patch(2) [OF has6, of 3] len by simp
  have tools: "tools_at m cc 0 tools openers (length st4) (length st5) \<and> prefix st4 st5"
    by (rule build_tools_at [OF s5]) (use has_mono [OF has5] len w in auto)
  have has4: "has m 3 st4" using has_prefix [OF has5] tools by blast
  have "prefix [Accept] ?st3" by simp
  then have "prefix [Accept] st4" using literal_prefix [OF s4] prefix_order.trans by blast
  then have "prefix [Accept] st5" using tools prefix_order.trans by blast
  then have "prefix [Accept] ?st6" by (intro prefix_patch) simp_all
  then have "prefix [Accept] st8"
    using byte_alts_prefix [OF s7] pre8 prefix_order.trans by blast
  then have "prefix [Accept] ?st9" by (intro prefix_patch) simp_all
  then have "?st9 ! 0 = Accept" by (cases ?st9) auto
  moreover have "0 < length ?st9"
  proof -
    have "3 \<le> length ?st9" using len by simp
    then show ?thesis by linarith
  qed
  ultimately have at0: "at_state m 0 = Some Accept"
    using has9 unfolding has_def by (metis le0)
  have l3: "length ?st3 = 3" by simp
  have lit4: "has m (length ?st3) st4" unfolding l3 by (rule has4)
  have cc: "frag m {3..<length st4} cc 1 {call_close}" "byte_state m cc" "cc \<in> {3..<length st4}"
    using frag_literal [OF s4 lit4, unfolded l3] literal_entry' [OF s4 lit4, unfolded l3]
    by (simp_all add: call_close_def byte_state_def)
  have st7: "st7 = ?st6 @ map (\<lambda>b. Byte b 1) spaces"
    using byte_alts_eq [OF s7] by blast
  have "length spaces = 4" by (simp add: spaces_def)
  then have len7: "length st7 = length st5 + 4" by (simp only: st7 length_append length_map length_list_update)
  have "length st7 \<le> 2 ^ 32" using has7 by (simp only: has_def)
  then have "sps = [length ?st6..<length st7]" using byte_alts_eq [OF s7] by blast
  then have sps: "sps = [length st5..<length st5 + 4]" by (simp only: len7 length_list_update)
  have sp: "at_state m (length st5 + j) = Some (Byte (spaces ! j) 1)" if "j < 4" for j
  proof -
    have "st7 ! (length st5 + j) = Byte (spaces ! j) 1"
      using that \<open>length spaces = 4\<close> by (simp add: st7 nth_append)
    moreover have "2 \<le> length st5 + j" "length st5 + j < length st7"
      using that len len7 l3 by linarith+
    ultimately show ?thesis using has7 by (metis has_def)
  qed
  have again: "if many then \<exists>a. again = [a] \<and> frag m {length st5 + 4..<length st8} a 2 {call_open}
      \<and> byte_state m a \<and> a \<in> {length st5 + 4..<length st8}
    else again = [] \<and> length st8 = length st5 + 4"
  proof (cases many)
    case True
    then obtain a where a: "literal st7 call_open 2 = (st8, a)" "again = [a]"
      using s8 by (auto split: prod.splits)
    have "has m (length st7) st8" using has_mono [OF has8] len len7 by simp
    from frag_literal [OF a(1) this] literal_entry' [OF a(1) this]
    show ?thesis using True a(2) len7 by (simp add: call_open_def byte_state_def)
  next
    case False
    then show ?thesis using s8 len7 by auto
  qed
  have "has m (length ?st9) st10" using has_mono [OF has10] by simp
  from frag_literal [OF s10 this] literal_entry' [OF s10 this]
  have opened: "frag m {length st8..<length st10} opened 2 {call_open}"
    "opened \<in> {length st8..<length st10}" by (simp_all add: call_open_def)
  have root: "root = length st10" "at_state m root = Some (Split [opened, 2])"
      "length (m_states m) = Suc root"
    using split_alts_at [OF s11 has] by simp_all
  have tools': "tools_at m cc 0 tools openers (length st4) (length st5)" using tools by simp
  have le: "3 \<le> length st4" "length st5 + 4 \<le> length st8" "length st8 \<le> root"
    using len root(1) len7 by simp_all
  have sp': "\<forall>j < 4. at_state m (length st5 + j) = Some (Byte (spaces ! j) 1)" using sp by blast
  show ?thesis
    unfolding frame_def
    by (rule exI [of _ sps], rule exI [of _ again], rule exI [of _ openers], rule exI [of _ cc],
        rule exI [of _ opened], rule exI [of _ "length st4"], rule exI [of _ "length st5"],
        rule exI [of _ "length st8"], intro conjI)
      (rule at0 at1 at2 cc le tools' sps sp' again opened [folded root(1)] root(2,3))+
qed

section \<open>Every state is sound\<close>

definition tools_ready :: "Machine \<Rightarrow> ToolSpec list \<Rightarrow> bool" where
  "tools_ready m tools \<longleftrightarrow> tools \<noteq> [] \<and> (\<forall>j cc. j < length tools \<longrightarrow> tool_ready m cc j (tools ! j))"

text \<open>After a call: end of input is always accepted, whatever the registers.\<close>

lemma after_Nil:
  assumes "frame m tools many root"
  shows "[] \<in> L m 1 t wr"
proof -
  obtain sps again where "at_state m 0 = Some Accept" "at_state m 1 = Some (Split (0 # sps @ again))"
    using assms unfolding frame_def by blast
  then show ?thesis by (simp add: L_split L_accept)
qed

lemma range_cases:
  fixes i :: nat
  assumes "i < Suc root" and "3 \<le> lo" "lo \<le> hi" "hi + 4 \<le> A" "A \<le> root"
  obtains "i = 0" | "i = 1" | "i = 2" | "i \<in> {3..<lo}" | "i \<in> {lo..<hi}" | j where "i = hi + j" "j < 4"
    | "i \<in> {hi + 4..<A}" | "i \<in> {A..<root}" | "i = root"
proof -
  have "i = 0 \<or> i = 1 \<or> i = 2 \<or> i \<in> {3..<lo} \<or> i \<in> {lo..<hi} \<or> (\<exists>j. i = hi + j \<and> j < 4)
      \<or> i \<in> {hi + 4..<A} \<or> i \<in> {A..<root} \<or> i = root"
    using assms by (auto intro: exI [of _ "i - hi"])
  then show ?thesis using that by blast
qed

lemma frame_sound:
  assumes fr: "frame m tools many root" and ready: "tools_ready m tools"
  shows "\<exists>R. R root = None \<and> (\<forall>i < length (m_states m). sound m R i)"
proof -
  obtain sps again openers cc opened lo hi A where
    at0: "at_state m 0 = Some Accept" and at1: "at_state m 1 = Some (Split (0 # sps @ again))"
    and at2: "at_state m 2 = Some (Split openers)"
    and cc: "frag m {3..<lo} cc 1 {call_close}" "byte_state m cc" "cc \<in> {3..<lo}" and lo: "3 \<le> lo"
    and ta: "tools_at m cc 0 tools openers lo hi"
    and sps: "sps = [hi..<hi + 4]" and sp: "\<forall>j < 4. at_state m (hi + j) = Some (Byte (spaces ! j) 1)"
    and again: "if many then \<exists>a. again = [a] \<and> frag m {hi + 4..<A} a 2 {call_open} \<and> byte_state m a
          \<and> a \<in> {hi + 4..<A} else again = [] \<and> A = hi + 4"
    and le: "hi + 4 \<le> A" "A \<le> root"
    and op: "frag m {A..<root} opened 2 {call_open}" "opened \<in> {A..<root}"
    and at_root: "at_state m root = Some (Split [opened, 2])"
    and len: "length (m_states m) = Suc root"
    using fr unfolding frame_def by (elim exE conjE) (rule that)
  have lo_hi: "lo \<le> hi" by (rule tools_at_le [OF ta])
  obtain R where none: "\<And>i. i \<notin> {lo..<hi} \<Longrightarrow> R i = None"
    and tools: "cc_ok m R cc \<Longrightarrow> (\<forall>i \<in> {lo..<hi}. sound m R i)
        \<and> (\<forall>a \<in> set openers. a < length (m_states m) \<and> R a = None \<and> fine m R a)"
    using tools_sound [OF ta] ready unfolding tools_ready_def by (metis add_0)
  have out: "R 0 = None" "R 1 = None" "R 2 = None" "R root = None"
    using lo le lo_hi by (auto intro!: none)
  have out_I: "R i = None" if "i \<in> {3..<lo} \<union> {hi..<root}" for i
    using that lo by (intro none) auto
  have unscoped: "link m R i n" if "n < Suc root" "R n = None" for i n
    using that len by (simp add: link_def)
  have fine0: "fine m R 0"
    using at0 ends_stop [OF at0] by (simp add: fine_def ok_state_def live_def L_accept)
  have fine1: "fine m R 1"
  proof (rule fine_split [OF at1])
    fix a assume "a \<in> set (0 # sps @ again)"
    then consider "a = 0" | j where "a = hi + j" "j < 4" | "byte_state m a" "a \<in> {hi + 4..<A}"
      using again by (auto simp: sps le_iff_add split: if_splits)
    then show "link m R 1 a \<and> ends m R a"
    proof cases
      case 1
      then show ?thesis using fine0 out by (auto intro!: unscoped simp: fine_def)
    next
      case 2
      then have "byte_state m a" using sp by (auto simp: byte_state_def)
      then show ?thesis using 2 le out_I [of a] by (auto intro!: unscoped byte_ends)
    next
      case 3
      then show ?thesis using le out_I [of a] by (auto intro!: unscoped byte_ends)
    qed
  next
    show "\<exists>a \<in> set (0 # sps @ again). live m R a" using fine0 by (simp add: fine_def)
  qed
  have exit1: "exit_ok m R I None 1" if "\<And>i. i \<in> I \<Longrightarrow> R i = None" for I
    using that fine1 out at_state_less [OF at1] by (simp add: exit_ok_def fine_def)
  have ex_cc: "exit_ok m R {3..<lo} None 1" by (rule exit1) (use out_I in auto)
  have "cc_ok m R cc"
  proof -
    have "call_close @ [] \<in> L m cc t wr" for t wr
      unfolding fragD(1) [OF cc(1)] using after_Nil [OF fr] by (intro concI) simp_all
    then show ?thesis using fragD(3) [OF cc(1) ex_cc] out_I [of cc] cc(3) unfolding cc_ok_def by blast
  qed
  note tools = tools [OF this]
  have "openers \<noteq> []" using tools_at_length [OF ta] ready by (auto simp: tools_ready_def)
  then have fine2: "fine m R 2"
    using tools len by (intro fine_split [OF at2]) (auto intro!: unscoped simp: fine_def neq_Nil_conv)
  have exit2: "exit_ok m R I None 2" if "\<And>i. i \<in> I \<Longrightarrow> R i = None" for I
    using that fine2 out at_state_less [OF at2] by (simp add: exit_ok_def fine_def)
  have ex_op: "exit_ok m R {A..<root} None 2" by (rule exit2) (use out_I le in auto)
  have fine_root: "fine m R root"
    using fragD(3) [OF op(1) ex_op] fine2 out at_state_less [OF at2] len
    by (intro fine_split [OF at_root]) (auto intro!: unscoped simp: fine_def)
  have "sound m R i" if i: "i < Suc root" for i
  proof (rule range_cases [OF i lo lo_hi le])
    show "i = 0 \<Longrightarrow> sound m R i" "i = 1 \<Longrightarrow> sound m R i" "i = 2 \<Longrightarrow> sound m R i"
      "i = root \<Longrightarrow> sound m R i" using fine0 fine1 fine2 fine_root fine_sound by auto
    show "i \<in> {3..<lo} \<Longrightarrow> sound m R i" using fragD(2) [OF cc(1) ex_cc] fine_sound by blast
    show "i \<in> {lo..<hi} \<Longrightarrow> sound m R i" using tools by blast
    show "sound m R i" if "i = hi + j" "j < 4" for j
    proof -
      have at: "at_state m i = Some (Byte (spaces ! j) 1)" using sp that by simp
      show ?thesis
        by (rule fine_sound, rule fine_byte [OF at])
          (use fine1 out at_state_less [OF at1] len in \<open>auto intro!: unscoped simp: fine_def\<close>)
    qed
    show "i \<in> {A..<root} \<Longrightarrow> sound m R i" using fragD(2) [OF op(1) ex_op] fine_sound by blast
    assume iA: "i \<in> {hi + 4..<A}"
    then obtain a where a: "frag m {hi + 4..<A} a 2 {call_open}" using again by (auto split: if_splits)
    have "exit_ok m R {hi + 4..<A} None 2" by (rule exit2) (use out_I le in auto)
    then show "sound m R i" using fragD(2) [OF a] iA fine_sound by blast
  qed
  then show ?thesis using out(4) len by auto
qed

section \<open>Safe to run\<close>

definition good :: "Machine \<Rightarrow> scope \<Rightarrow> Cursor \<Rightarrow> bool" where
  "good m R c \<longleftrightarrow> cu_state c < length (m_states m) \<and> in_scope R (cu_state c) (cu_tool c)"

lemma good_link: "good m R c \<Longrightarrow> link m R (cu_state c) n \<Longrightarrow> good m R (c\<lparr>cu_state := n\<rparr>)"
  by (auto simp: good_def link_def in_scope_def)

lemma sound_move:
  assumes ok: "ok_state m R (cu_state c)" and good: "good m R c" and fb: "m_fallback m = close_table"
  shows "\<exists>o'. move m b c = Some o' \<and> (\<forall>d. o' = Some d \<longrightarrow> good m R d)"
proof -
  let ?i = "cu_state c"
  obtain s where at: "at_state m ?i = Some s" using ok by (auto simp: ok_state_def split: option.splits)
  show ?thesis
  proof (cases s)
    case (Until k n)
    have "link m R ?i n \<and> k < 14 \<and> k \<le> ?i \<and> ?i < 2 ^ 32
        \<and> (\<forall>j < 14. ?i - k + j < 2 ^ 32 \<and> link m R ?i (?i - k + j))"
      using ok unfolding ok_state_def at Until option.case State.case length_CLOSE .
    then have k: "link m R ?i n" "k < 14" "k \<le> ?i" "?i < 2 ^ 32"
      and chain: "\<And>j. j < 14 \<Longrightarrow> ?i - k + j < 2 ^ 32 \<and> link m R ?i (?i - k + j)" by blast+
    define k' where "k' = (if b = CLOSE ! k then k + 1 else if b = nl then 1 else 0)"
    have k': "k' \<le> 14" using k(2) by (simp add: k'_def)
    have adv: "advance_close (m_fallback m) k b = Some k'"
      by (simp add: fb advance_close_table [OF k(2)] k'_def)
    have "wadd 32 (wsub 32 ?i k) k' = ?i - k + k'" if "k' < 14"
      using k chain [OF that] by (simp add: wsub_nowrap wadd_nowrap)
    then have "move m b c = Some (Some (c\<lparr>cu_state := (if k' = 14 then n else ?i - k + k')\<rparr>))"
      using k' by (auto simp: move_def at Until adv until_k_def)
    moreover have "link m R ?i (if k' = 14 then n else ?i - k + k')"
      using k(1) chain k' by (cases "k' = 14") auto
    ultimately show ?thesis using good_link [OF good] by auto
  next
    case (Byte b' n)
    then have "link m R ?i n" using ok at by (simp add: ok_state_def)
    then show ?thesis using good_link [OF good] by (auto simp: move_def at Byte)
  qed (simp_all add: move_def at)
qed

lemma sound_eps:
  assumes ok: "ok_state m R (cu_state c)" and good: "good m R c"
    and nxt: "eps_next m c = Some (Some cs)" and d: "d \<in> set cs"
  shows "good m R d"
proof -
  let ?i = "cu_state c"
  obtain s where at: "at_state m ?i = Some s" using ok by (auto simp: ok_state_def split: option.splits)
  show ?thesis
  proof (cases s)
    case (Split alts)
    then show ?thesis using good_link [OF good] ok nxt d at
      by (auto simp: eps_next_def ok_state_def)
  next
    case (EnterTool t n)
    then show ?thesis using ok nxt d at by (auto simp: eps_next_def ok_state_def good_def)
  next
    case (Mark p n)
    then have "good m R (c\<lparr>cu_state := n\<rparr>)" using good_link [OF good] ok at by (simp add: ok_state_def)
    then show ?thesis using Mark nxt d at
      by (auto simp: eps_next_def good_def split: if_splits)
  next
    case (RequireAll n)
    then have "good m R (c\<lparr>cu_state := n\<rparr>)" using good_link [OF good] ok at by (simp add: ok_state_def)
    then show ?thesis using RequireAll nxt d at
      by (auto simp: eps_next_def bind_eq_Some_conv split: if_splits)
  qed (use nxt at in \<open>simp_all add: eps_next_def\<close>)
qed

lemma sound_safe:
  assumes sound: "\<And>i. i < length (m_states m) \<Longrightarrow> sound m R i" and fb: "m_fallback m = close_table"
  shows "safe m (good m R)"
  unfolding safe_def
proof (intro allI impI)
  fix c assume c: "good m R c"
  then have ok: "ok_state m R (cu_state c)" and en: "ends m R (cu_state c)"
    using sound by (auto simp: good_def sound_def)
  have "halts m c" using en c by (cases c) (simp add: ends_def good_def)
  then show "halts m c \<and> (\<forall>cs. eps_next m c = Some (Some cs) \<longrightarrow> (\<forall>d \<in> set cs. good m R d))
      \<and> (\<forall>b. move m b c \<noteq> None) \<and> (\<forall>b d. move m b c = Some (Some d) \<longrightarrow> good m R d)"
    using sound_eps [OF ok c] sound_move [OF ok c fb] by (metis option.distinct(1) option.sel)
qed

lemma sound_alive:
  assumes "\<And>i. i < length (m_states m) \<Longrightarrow> sound m R i" and c: "good m R c"
    and stop: "eps_next m c = Some None"
  shows "\<exists>w. acc m c w"
proof -
  have "live m R (cu_state c)"
    using assms(1) [of "cu_state c"] c stop
    by (auto simp: good_def sound_def eps_next_def bind_eq_Some_conv)
  then show ?thesis using c by (cases c) (auto simp: live_def L_def good_def)
qed

section \<open>The language\<close>

lemma body_langI: "x \<in> args_words (to_params tool) {} \<Longrightarrow> tool_text tool x @ call_close \<in> body_lang tool"
  by (auto simp: body_lang_def)

text \<open>One call, up to the registers it leaves.\<close>

lemma entry_lang:
  assumes at2: "at_state m 2 = Some (Split openers)" and cc: "frag m C cc 1 {call_close}"
    and ta: "tools_at m cc 0 tools openers lo hi" and ready: "tools_ready m tools"
  shows "w \<in> L m 2 t wr \<Longrightarrow> \<exists>tool \<in> set tools. \<exists>x \<in> body_lang tool. \<exists>v t' wr'.
      w = x @ v \<and> v \<in> L m 1 t' wr'"
    and "tool \<in> set tools \<Longrightarrow> x \<in> body_lang tool \<Longrightarrow> (\<And>t wr. v \<in> L m 1 t wr) \<Longrightarrow> x @ v \<in> L m 2 t wr"
proof -
  have tool: "\<exists>T. tool_at m cc j (tools ! j) (openers ! j) T" "tool_ready m cc j (tools ! j)"
    if "j < length tools" for j
    using tools_at_nth [OF ta that] ready that by (auto simp: tools_ready_def)
  have n: "length openers = length tools" by (rule tools_at_length [OF ta])
  show "w \<in> L m 2 t wr \<Longrightarrow> \<exists>tool \<in> set tools. \<exists>x \<in> body_lang tool. \<exists>v t' wr'.
      w = x @ v \<and> v \<in> L m 1 t' wr'"
  proof -
    assume "w \<in> L m 2 t wr"
    then obtain j where j: "j < length tools" "w \<in> L m (openers ! j) t wr"
      by (auto simp: L_split [OF at2] in_set_conv_nth n)
    obtain T where T: "tool_at m cc j (tools ! j) (openers ! j) T" using tool(1) [OF j(1)] by blast
    from tool_lang(1) [OF T tool(2) [OF j(1)] j(2)] obtain x v wr' where
      x: "x \<in> args_words (to_params (tools ! j)) {}" "w = tool_text (tools ! j) x @ v"
        "v \<in> L m cc j wr'" by blast
    then obtain u where "v = call_close @ u" "u \<in> L m 1 j wr'"
      by (auto simp: fragD(1) [OF cc] conc_single)
    then show ?thesis using body_langI [OF x(1)] nth_mem [OF j(1)] x(2)
      by (intro bexI [of _ "tools ! j"] bexI [of _ "tool_text (tools ! j) x @ call_close"]
          exI [of _ u] exI [of _ j] exI [of _ wr']) simp_all
  qed
  show "tool \<in> set tools \<Longrightarrow> x \<in> body_lang tool \<Longrightarrow> (\<And>t wr. v \<in> L m 1 t wr) \<Longrightarrow> x @ v \<in> L m 2 t wr"
  proof -
    assume "tool \<in> set tools" and x: "x \<in> body_lang tool" and v: "\<And>t wr. v \<in> L m 1 t wr"
    then obtain j where j: "j < length tools" "tool = tools ! j" by (auto simp: in_set_conv_nth)
    obtain y where y: "x = tool_text tool y @ call_close" "y \<in> args_words (to_params tool) {}"
      using x by (auto simp: body_lang_def)
    obtain T where T: "tool_at m cc j (tools ! j) (openers ! j) T" using tool(1) [OF j(1)] by blast
    have "call_close @ v \<in> L m cc j wr" for wr
      unfolding fragD(1) [OF cc] using v by (intro concI) simp_all
    from tool_lang(2) [OF T tool(2) [OF j(1)] _ this, of y] y j
    have "x @ v \<in> L m (openers ! j) t wr" by simp
    then show ?thesis using j n by (auto simp: L_split [OF at2])
  qed
qed

lemma frame_lang:
  assumes fr: "frame m tools many root" and ready: "tools_ready m tools"
  shows "L m root t wr = tool_calls tools many"
proof -
  obtain sps again openers cc opened lo hi A where
    at0: "at_state m 0 = Some Accept" and at1: "at_state m 1 = Some (Split (0 # sps @ again))"
    and at2: "at_state m 2 = Some (Split openers)"
    and cc: "frag m {3..<lo} cc 1 {call_close}"
    and ta: "tools_at m cc 0 tools openers lo hi"
    and sps: "sps = [hi..<hi + 4]" and sp: "\<forall>j < 4. at_state m (hi + j) = Some (Byte (spaces ! j) 1)"
    and again: "if many then \<exists>a. again = [a] \<and> frag m {hi + 4..<A} a 2 {call_open} \<and> byte_state m a
          \<and> a \<in> {hi + 4..<A} else again = [] \<and> A = hi + 4"
    and op: "frag m {A..<root} opened 2 {call_open}"
    and at_root: "at_state m root = Some (Split [opened, 2])"
    using fr unfolding frame_def by (elim exE conjE) (rule that)
  note entry = entry_lang [OF at2 cc ta ready]
  have L_space: "(\<Union>a \<in> set sps. L m a t wr) = conc (one_of spaces) (L m 1 t wr)" for t wr
  proof -
    have "set sps = (\<lambda>j. hi + j) ` {..<4}" by (auto simp: sps le_iff_add)
    then have "(\<Union>a \<in> set sps. L m a t wr) = (\<Union>j \<in> {..<4}. conc {[spaces ! j]} (L m 1 t wr))"
      using sp by (simp add: L_byte)
    moreover have "one_of spaces = (\<Union>j \<in> {..<4}. {[spaces ! j]})"
    proof -
      have "length spaces = 4" by (simp add: spaces_def)
      then show ?thesis by (simp only: one_of_nth atLeast0LessThan)
    qed
    ultimately show ?thesis by (simp add: conc_UN)
  qed
  have L1: "L m 1 t wr = {[]} \<union> conc (one_of spaces) (L m 1 t wr)
      \<union> (if many then conc {call_open} (L m 2 t wr) else {})" for t wr
  proof -
    have "(\<Union>a \<in> set again. L m a t wr) = (if many then conc {call_open} (L m 2 t wr) else {})"
      using again fragD(1) by (cases many) auto
    moreover have "L m 1 t wr = {[]} \<union> (\<Union>a \<in> set sps. L m a t wr) \<union> (\<Union>a \<in> set again. L m a t wr)"
      using L_split [OF at1, of t wr] L_accept [OF at0] by (simp add: Un_assoc)
    ultimately show ?thesis by (simp only: L_space)
  qed
  have to_tail: "w \<in> tail_words tools many \<Longrightarrow> w \<in> L m 1 t wr" for w t wr
  proof (induction arbitrary: t wr rule: tail_words.induct)
    case stop
    then show ?case by (rule after_Nil [OF fr])
  next
    case (space b w)
    then have "[b] @ w \<in> conc (one_of spaces) (L m 1 t wr)" by (intro concI) (auto simp: one_of_def)
    then show ?case using L1 [of t wr] by auto
  next
    case (again tool x w)
    then have "call_open @ (x @ w) \<in> conc {call_open} (L m 2 t wr)"
      by (intro concI entry(2)) auto
    then show ?case using L1 [of t wr] again.hyps(1) by auto
  qed
  have from_tail: "w \<in> L m 1 t wr \<Longrightarrow> w \<in> tail_words tools many" for w t wr
  proof (induction "length w" arbitrary: w t wr rule: less_induct)
    case less
    consider "w = []" | b v where "b \<in> set spaces" "w = b # v" "v \<in> L m 1 t wr"
      | v where "many" "w = call_open @ v" "v \<in> L m 2 t wr"
    proof -
      have "w \<in> {[]} \<union> conc (one_of spaces) (L m 1 t wr)
          \<union> (if many then conc {call_open} (L m 2 t wr) else {})"
        using less(2) L1 [of t wr] by blast
      then show ?thesis using that by (auto simp: conc_def one_of_def split: if_splits)
    qed
    then show ?case
    proof cases
      case 1
      then show ?thesis by (simp add: tail_words.stop)
    next
      case 2
      then show ?thesis using less(1) [of v] by (auto intro: tail_words.space)
    next
      case 3
      from entry(1) [OF 3(3)] obtain tool x u t' wr' where
        "tool \<in> set tools" "x \<in> body_lang tool" "v = x @ u" "u \<in> L m 1 t' wr'" by blast
      moreover from this(3) have "length u < length w" using 3(2) by (simp add: call_open_def)
      ultimately show ?thesis using less(1) [of u t' wr'] 3 tail_words.again by blast
    qed
  qed
  have "L m root t wr = conc {call_open} (L m 2 t wr) \<union> L m 2 t wr"
    using L_split [OF at_root, of t wr] fragD(1) [OF op] by simp
  moreover have "L m 2 t wr = {x @ v | tool x v. tool \<in> set tools \<and> x \<in> body_lang tool
      \<and> v \<in> tail_words tools many}" (is "_ = ?B")
  proof
    show "L m 2 t wr \<subseteq> ?B"
    proof
      fix w assume "w \<in> L m 2 t wr"
      from entry(1) [OF this] obtain tool x v t' wr' where
        "tool \<in> set tools" "x \<in> body_lang tool" "w = x @ v" "v \<in> L m 1 t' wr'" by blast
      moreover from this(4) have "v \<in> tail_words tools many" by (rule from_tail)
      ultimately show "w \<in> ?B" by blast
    qed
    show "?B \<subseteq> L m 2 t wr" using entry(2) to_tail by blast
  qed
  moreover have "tool_calls tools many = conc {call_open} ?B \<union> ?B"
  proof
    show "tool_calls tools many \<subseteq> conc {call_open} ?B \<union> ?B"
    proof
      fix w assume "w \<in> tool_calls tools many"
      then obtain pre y where "w = pre @ y" "pre \<in> {[], call_open}" "y \<in> ?B"
        unfolding tool_calls_def by blast
      then show "w \<in> conc {call_open} ?B \<union> ?B" unfolding conc_single by auto
    qed
    show "conc {call_open} ?B \<union> ?B \<subseteq> tool_calls tools many"
    proof
      fix w assume "w \<in> conc {call_open} ?B \<union> ?B"
      then obtain pre y where w: "w = pre @ y" "pre \<in> {[], call_open}" and "y \<in> ?B"
        unfolding conc_single by force
      then obtain tool x v where "y = x @ v" "tool \<in> set tools" "x \<in> body_lang tool"
        "v \<in> tail_words tools many" by blast
      with w show "w \<in> tool_calls tools many" unfolding tool_calls_def by blast
    qed
  qed
  ultimately show ?thesis by simp
qed

lemma feed_alive: "feed m cs u = Some (out, ok) \<Longrightarrow> ok \<Longrightarrow> cs \<noteq> [] \<Longrightarrow> out \<noteq> []"
  by (induction u arbitrary: cs)
    (auto simp: bind_eq_Some_conv machine_step_def split: if_splits)

section \<open>The compiled machine\<close>

definition offered :: "ToolSpec list \<Rightarrow> bool" where
  "offered tools \<longleftrightarrow> tools \<noteq> [] \<and> length tools \<le> 2 ^ 16 \<and> (\<forall>tool \<in> set tools.
     length (to_params tool) \<le> TRACKED_PARAMS \<and> (\<forall>spec \<in> set (to_params tool). writable (pa_value spec)))"

lemma compile_total: "\<exists>m. compile tools many = Some m"
  by (simp add: compile_def kmp_fallback_CLOSE split_beta)

lemma compiled:
  assumes off: "offered tools" and comp: "compile tools many = Some m"
    and room: "length (m_states m) \<le> 2 ^ 32"
  shows "\<exists>R. (\<forall>i < length (m_states m). sound m R i) \<and> R (m_root m) = None
      \<and> m_root m < length (m_states m)" (is ?sound)
    and "m_fallback m = close_table"
    and "L m (m_root m) t wr = tool_calls tools many"
proof -
  have b: "build tools many = (m_states m, m_root m)" and fb: "m_fallback m = close_table"
    and rq: "m_required m = map (\<lambda>tool. required_mask 0 (to_params tool)) tools"
    using comp by (auto simp: compile_def kmp_fallback_CLOSE split_beta)
  have fr: "frame m tools many (m_root m)"
    by (rule build_frame [OF b room fb]) (use off in \<open>auto simp: offered_def\<close>)
  have ready: "tools_ready m tools"
    using off nth_mem by (auto simp: tools_ready_def tool_ready_def offered_def TRACKED_PARAMS_def
        rq at_index_def)
  have "m_root m < length (m_states m)" using fr by (auto simp: frame_def)
  then show ?sound using frame_sound [OF fr ready] by blast
  show "m_fallback m = close_table" by (rule fb)
  show "L m (m_root m) t wr = tool_calls tools many" by (rule frame_lang [OF fr ready])
qed

text \<open>Everything a run of the compiled machine shows: it starts, and a text it has read leaves exactly
  the completions of that text to well-formed calls.\<close>

lemma compiled_run:
  assumes off: "offered tools" and comp: "compile tools many = Some m"
    and room: "length (m_states m) \<le> 2 ^ 32"
  shows "\<exists>G cs. safe m G \<and> (\<forall>c. G c \<longrightarrow> eps_next m c = Some None \<longrightarrow> (\<exists>w. acc m c w))
    \<and> start m = Some cs \<and> closed m G cs \<and> lang m cs = tool_calls tools many"
proof -
  obtain R where sound: "\<And>i. i < length (m_states m) \<Longrightarrow> sound m R i" and root: "R (m_root m) = None"
      "m_root m < length (m_states m)"
    using compiled(1) [OF assms] by blast
  note safe = sound_safe [OF sound compiled(2) [OF assms]]
  let ?c = "\<lparr>cu_state = m_root m, cu_tool = 2 ^ 16 - 1, cu_written = 0\<rparr>"
  have "good m R ?c" using root by (simp add: good_def in_scope_def)
  then have "\<And>c. c \<in> set [?c] \<Longrightarrow> good m R c" by simp
  from close_lang [OF safe this] obtain cs where
    cs: "close m [?c] = Some cs" "closed m (good m R) cs" "lang m cs = lang m [?c]" by blast
  have "lang m [?c] = L m (m_root m) (2 ^ 16 - 1) 0" by (simp add: lang_def L_def)
  then have "lang m cs = tool_calls tools many" using cs(3) compiled(3) [OF assms] by simp
  moreover have "\<forall>c. good m R c \<longrightarrow> eps_next m c = Some None \<longrightarrow> (\<exists>w. acc m c w)"
    using sound_alive [OF sound] by blast
  ultimately show ?thesis using safe cs(1,2) unfolding start_def by blast
qed

lemma body_lang_nonempty:
  "offered tools \<Longrightarrow> tool \<in> set tools \<Longrightarrow> body_lang tool \<noteq> {}"
  using args_words_nonempty [of "to_params tool" "{}"] by (auto simp: body_lang_def offered_def)

lemma tool_calls_nonempty: "offered tools \<Longrightarrow> tool_calls tools many \<noteq> {}"
proof -
  assume off: "offered tools"
  then have "hd tools \<in> set tools" by (simp add: offered_def)
  then obtain tool where tool: "tool \<in> set tools" by blast
  then obtain x where "x \<in> body_lang tool" using body_lang_nonempty [OF off] by blast
  then show ?thesis unfolding tool_calls_def using tool tail_words.stop by blast
qed

section \<open>A concrete tool\<close>

text \<open>The number of states the builder lays down, as far as one small tool needs it.\<close>

lemma length_add: "length (fst (add st s)) = Suc (length st)"
  by (simp add: add_def)

lemma length_literal: "length (fst (literal st bs n)) = length st + length bs"
  by (induction bs) (auto simp: split_beta length_add)

lemma length_byte_alts: "length (fst (byte_alts st bs n)) = length st + length bs"
  by (induction bs arbitrary: st) (auto simp: split_beta length_add Let_def)

lemma length_split_alts: "length (fst (split_alts st alts)) = Suc (length st)"
  by (simp add: split_alts_def length_add)

lemma length_boolean: "length (fst (build_value st Boolean n)) = length st + 24"
  by (simp add: split_beta Let_def length_literal length_split_alts del: literal_Cons)

lemmas length_simps = length_add length_literal length_byte_alts length_split_alts length_boolean

definition flag_tool :: ToolSpec where
  "flag_tool = \<lparr>to_name = ''f'',
     to_params = [\<lparr>pa_name = ''p'', pa_required = True, pa_value = Boolean\<rparr>]\<rparr>"

definition flag_call :: bytes where
  "flag_call = open_text ''f'' @ ''<parameter=p>'' @ [nl] @ ''true'' @ CLOSE @ fin_text @ call_close"

lemma flag_params: "length (fst (build_params st args i (to_params flag_tool))) = length st + 39"
  by (simp add: flag_tool_def split_beta Let_def length_simps del: literal_Cons build_value.simps)

lemma flag_tool_len: "length (fst (build_tool st cc i flag_tool)) = length st + 67"
  by (simp add: build_tool_def flag_params split_beta Let_def length_simps del: literal_Cons build_value.simps)
    (simp add: flag_tool_def)

lemma flag_machine_small: "compile [flag_tool] many = Some m \<Longrightarrow> length (m_states m) \<le> 2 ^ 32"
  by (auto simp: compile_def build_def split_beta Let_def length_simps flag_tool_len bind_eq_Some_conv
      simp del: literal_Cons byte_alts.simps)

lemma flag_offered: "offered [flag_tool]"
  by (simp add: offered_def flag_tool_def TRACKED_PARAMS_def writable_def)

lemma flag_call_ok: "flag_call \<in> tool_calls [flag_tool] many"
proof -
  have "''true'' @ CLOSE \<in> value_lang Boolean" by (auto simp: conc_def)
  then have "''<parameter=p>'' @ [nl] @ ''true'' @ CLOSE \<in> param_lang (to_params flag_tool ! 0)"
    by (simp add: param_lang_def flag_tool_def conc_single image_iff)
  moreover have "required_params (to_params flag_tool) \<subseteq> {0}"
    by (auto simp: required_params_def flag_tool_def)
  ultimately have "(''<parameter=p>'' @ [nl] @ ''true'' @ CLOSE) @ [] \<in> args_words (to_params flag_tool) {}"
    by (intro args_words_more [of 0] args_words_stop) (auto simp: flag_tool_def)
  from body_langI [OF this] have "flag_call \<in> body_lang flag_tool"
    by (simp add: flag_call_def tool_text_def flag_tool_def)
  then show ?thesis unfolding tool_calls_def using tail_words.stop
    by (intro CollectI exI [of _ "[]"] exI [of _ flag_tool] exI [of _ flag_call] exI [of _ "[]"]) simp
qed

lemma compiled_reads:
  assumes "offered tools" and "compile tools many = Some m" and "length (m_states m) \<le> 2 ^ 32"
  shows "\<exists>cs. start m = Some cs \<and> (\<forall>u. \<exists>out ok. feed m cs u = Some (out, ok)
    \<and> (ok \<longleftrightarrow> (\<exists>w. u @ w \<in> tool_calls tools many))
    \<and> (accepts_end m out \<longleftrightarrow> u \<in> tool_calls tools many))"
proof -
  obtain G cs where safe: "safe m G" and alive: "\<And>c. G c \<Longrightarrow> eps_next m c = Some None \<Longrightarrow> \<exists>w. acc m c w"
    and cs: "start m = Some cs" "closed m G cs" "lang m cs = tool_calls tools many"
    using compiled_run [OF assms] by blast
  obtain w0 where "w0 \<in> lang m cs" using tool_calls_nonempty [OF assms(1)] cs(3) by blast
  then have ne: "cs \<noteq> []" by (auto simp: lang_def)
  have "\<exists>out ok. feed m cs u = Some (out, ok) \<and> (ok \<longleftrightarrow> (\<exists>w. u @ w \<in> tool_calls tools many))
    \<and> (accepts_end m out \<longleftrightarrow> u \<in> tool_calls tools many)" for u
  proof -
    obtain out ok where out: "feed m cs u = Some (out, ok)" "closed m G out"
      and yes: "ok \<Longrightarrow> (\<forall>w. w \<in> lang m out \<longleftrightarrow> u @ w \<in> lang m cs)"
      and no: "\<not> ok \<Longrightarrow> out = [] \<and> (\<forall>w. u @ w \<notin> lang m cs)"
      using feed_residual [OF safe cs(2), of u] by blast
    have "ok \<longleftrightarrow> (\<exists>w. u @ w \<in> lang m cs)"
      using yes no feed_alive [OF out(1) _ ne] closed_alive [OF alive out(2)] by blast
    moreover have "accepts_end m out \<longleftrightarrow> u \<in> lang m cs"
    proof (cases ok)
      case True
      then show ?thesis using yes accepts_end_lang [OF out(2)] by (metis append_Nil2)
    next
      case False
      then show ?thesis using no by (metis accepts_end_def append_Nil2 empty_iff empty_set)
    qed
    ultimately show ?thesis using out(1) cs(3) by blast
  qed
  then show ?thesis using cs(1) by blast
qed

section \<open>Main theorem\<close>

text \<open>C3: The compiled grammar of a request reads exactly the well-formed tool calls. For any offered
  tools the machine starts without a panic, and after any bytes it reports itself alive exactly when
  they can still be completed to a well-formed call (only offered tools, only declared parameters, none
  twice, every required one, values of their type), and satisfied exactly when they already are one.
  Bounds: at most 64 parameters per tool and 65536 tools, at most \<open>2 ^ 32\<close> states.\<close>

theorem machine_reads_tool_calls:
  assumes "offered tools" and "compile tools many = Some m" and "length (m_states m) \<le> 2 ^ 32"
  shows "\<exists>cs. start m = Some cs \<and> (\<forall>u. \<exists>out ok. feed m cs u = Some (out, ok)
    \<and> (ok \<longleftrightarrow> (\<exists>w. u @ w \<in> tool_calls tools many))
    \<and> (accepts_end m out \<longleftrightarrow> u \<in> tool_calls tools many))"
  by (rule compiled_reads [OF assms])

theorem machine_reads_tool_calls_witness:
  "\<exists>m cs out ok. compile [flag_tool] True = Some m \<and> start m = Some cs
     \<and> feed m cs flag_call = Some (out, ok) \<and> ok \<and> accepts_end m out"
proof -
  obtain m where m: "compile [flag_tool] True = Some m" using compile_total by blast
  obtain cs where cs: "start m = Some cs" and run: "\<And>u. \<exists>out ok. feed m cs u = Some (out, ok)
      \<and> (ok \<longleftrightarrow> (\<exists>w. u @ w \<in> tool_calls [flag_tool] True))
      \<and> (accepts_end m out \<longleftrightarrow> u \<in> tool_calls [flag_tool] True)"
    using machine_reads_tool_calls [OF flag_offered m flag_machine_small [OF m]] by blast
  have "flag_call @ [] \<in> tool_calls [flag_tool] True" using flag_call_ok by simp
  then show ?thesis using run [of flag_call] m cs flag_call_ok by blast
qed

end
