(* ===== verification/VocabMask.thy ===== *)
theory VocabMask
  imports VocabTrie MachineCalls
begin

text \<open>
  The mask against the language: the depth-first walk over the trie, the free-text shortcut and the
  end-of-generation tokens together keep the logits of exactly the tokens the grammar can take next.
\<close>

section \<open>The arrays of a built vocabulary\<close>

definition laid_out :: "Vocab \<Rightarrow> children \<Rightarrow> i32 list \<Rightarrow> bool" where
  "laid_out v ch nt \<longleftrightarrow> node_token v = nt \<and> length nt = length ch
     \<and> (\<forall>n \<le> length ch. at_index (edge_start v) n = Some (offset ch n))
     \<and> (\<forall>n j. n < length ch \<longrightarrow> j < length (ch ! n) \<longrightarrow>
          at_index (edge_byte v) (offset ch n + j) = Some (fst (edges_of ch n ! j))
          \<and> at_index (edge_target v) (offset ch n + j) = Some (snd (edges_of ch n ! j)))"

lemma flatten_laid_out:
  assumes "flatten ch ([], [], []) = (starts, ebytes, targets)" and "length (concat ch) < 2 ^ 32"
  shows "n \<le> length ch \<Longrightarrow> at_index starts n = Some (offset ch n)"
    and "n < length ch \<Longrightarrow> j < length (ch ! n) \<Longrightarrow>
      at_index ebytes (offset ch n + j) = Some (fst (edges_of ch n ! j))
      \<and> at_index targets (offset ch n + j) = Some (snd (edges_of ch n ! j))"
proof -
  have starts: "starts = map (\<lambda>i. usize_as_u32 (offset ch i)) [0..<Suc (length ch)]"
    and eb: "ebytes = concat (map (\<lambda>n. map fst (edges_of ch n)) [0..<length ch])"
    and tg: "targets = concat (map (\<lambda>n. map snd (edges_of ch n)) [0..<length ch])"
    using assms(1) by (simp_all add: flatten_eq del: upt_Suc)
  have off: "offset ch i < 2 ^ 32" for i
    using concat_take_le [of i ch] assms(2) by (simp add: offset_def)
  show "n \<le> length ch \<Longrightarrow> at_index starts n = Some (offset ch n)"
    using off [of n] by (simp add: starts at_index_def usize_as_u32_def del: upt_Suc)
  have take: "length (concat (take n (map (\<lambda>n. map f (edges_of ch n)) [0..<length ch]))) = offset ch n"
    if "n < length ch" for f :: "byte \<times> u32 \<Rightarrow> 'b"
  proof -
    have "map length (map (\<lambda>n. map f (edges_of ch n)) [0..<length ch]) = map length ch"
      by (rule nth_equalityI) simp_all
    then have "take n (map length (map (\<lambda>n. map f (edges_of ch n)) [0..<length ch])) = take n (map length ch)"
      by (rule arg_cong)
    then have "map length (take n (map (\<lambda>n. map f (edges_of ch n)) [0..<length ch])) = map length (take n ch)"
      by (simp only: take_map)
    then show ?thesis by (simp add: offset_def length_concat)
  qed
  assume n: "n < length ch" "j < length (ch ! n)"
  have "offset ch n + j < length (concat (map (\<lambda>n. map f (edges_of ch n)) [0..<length ch]))
      \<and> concat (map (\<lambda>n. map f (edges_of ch n)) [0..<length ch]) ! (offset ch n + j) = f (edges_of ch n ! j)"
    for f :: "byte \<times> u32 \<Rightarrow> 'b"
    using nth_concat [of n "map (\<lambda>n. map f (edges_of ch n)) [0..<length ch]" j] take [OF n(1), of f] n
    by simp
  from this [of fst] this [of snd] show "at_index ebytes (offset ch n + j) = Some (fst (edges_of ch n ! j))
      \<and> at_index targets (offset ch n + j) = Some (snd (edges_of ch n ! j))"
    by (simp add: eb tg at_index_def)
qed

lemma new_vocab_built:
  assumes sz: "sized pieces" and un: "unambiguous pieces eogs"
  obtains ch nt sp where "filed pieces eogs (length pieces) ch nt sp" "laid_out (new_vocab pieces eogs) ch nt"
    and "breaking (new_vocab pieces eogs) =
      map (\<lambda>t. (t, pieces ! t)) (filter (\<lambda>t. spelt pieces eogs t \<and> nl \<in> set (pieces ! t)) [0..<length pieces])"
    and "length (free_text (new_vocab pieces eogs)) = div_ceil (length pieces) 64"
    and "\<And>t. t < length pieces \<Longrightarrow> tbit (free_text (new_vocab pieces eogs)) t \<longleftrightarrow>
      spelt pieces eogs t \<and> nl \<notin> set (pieces ! t)"
    and "eog (new_vocab pieces eogs) = eogs" "vocab_len (new_vocab pieces eogs) = length pieces"
proof -
  define b where "b = fold (add_piece eogs) (enumerate 0 pieces)
      \<lparr>b_children = [[]], b_node_token = [- 1], b_breaking = [],
       b_free_text = free_text_init (length pieces) eogs, b_piece_bytes = [], b_piece_start = []\<rparr>"
  obtain sp where f: "filed pieces eogs (length pieces) (b_children b) (b_node_token b) sp"
    and mk: "marked pieces eogs (length pieces) b"
    using built [OF assms] unfolding b_def by blast
  obtain starts ebytes targets where fl: "flatten (b_children b) ([], [], []) = (starts, ebytes, targets)"
    by (cases "flatten (b_children b) ([], [], [])")
  have v: "new_vocab pieces eogs = \<lparr>edge_start = starts, edge_byte = ebytes, edge_target = targets,
         node_token = b_node_token b, breaking = b_breaking b, free_text = b_free_text b,
         eog = eogs, piece_bytes = b_piece_bytes b,
         piece_start = b_piece_start b @ [usize_as_u32 (length (b_piece_bytes b))],
         vocab_len = length pieces\<rparr>"
    unfolding new_vocab_def b_def [symmetric] by (simp add: fl)
  have "Suc (length (concat (b_children b))) \<le> 2 ^ 32"
    using f sz trieD(6) [of "b_children b" sp] by (simp add: filed_def sized_def)
  then have "length (concat (b_children b)) < 2 ^ 32" by simp
  note fl' = flatten_laid_out [OF fl this]
  have "laid_out (new_vocab pieces eogs) (b_children b) (b_node_token b)"
    unfolding laid_out_def v using fl' f by (auto simp: filed_def)
  then show ?thesis
    by (rule that [OF f]) (use mk in \<open>auto simp: v marked_def spelt_def\<close>)
qed

section \<open>The walk\<close>

inductive found :: "Machine \<Rightarrow> children \<Rightarrow> i32 list \<Rightarrow> nat \<Rightarrow> Cursor list \<Rightarrow> nat \<Rightarrow> bool"
  for m ch nt where
  here: "(b, tg) \<in> set (ch ! node) \<Longrightarrow> machine_step m cs b = Some (cs', True) \<Longrightarrow> nt ! tg = int t \<Longrightarrow>
    found m ch nt node cs t"
| deeper: "(b, tg) \<in> set (ch ! node) \<Longrightarrow> machine_step m cs b = Some (cs', True) \<Longrightarrow> found m ch nt tg cs' t \<Longrightarrow>
    found m ch nt node cs t"

inductive_simps found_iff: "found m ch nt node cs t"

definition found_in :: "Machine \<Rightarrow> children \<Rightarrow> i32 list \<Rightarrow> (byte \<times> u32) list \<Rightarrow> Cursor list \<Rightarrow> nat \<Rightarrow> bool" where
  "found_in m ch nt es cs t \<longleftrightarrow> (\<exists>b tg cs'. (b, tg) \<in> set es \<and> machine_step m cs b = Some (cs', True)
     \<and> (nt ! tg = int t \<or> found m ch nt tg cs' t))"

lemma found_in_node: "found_in m ch nt (edges_of ch node) cs t \<longleftrightarrow> found m ch nt node cs t"
proof
  assume "found_in m ch nt (edges_of ch node) cs t"
  then obtain b tg cs' where "(b, tg) \<in> set (ch ! node)" "machine_step m cs b = Some (cs', True)"
    "nt ! tg = int t \<or> found m ch nt tg cs' t" by (auto simp: found_in_def)
  then show "found m ch nt node cs t" by (meson found.here found.deeper)
next
  assume "found m ch nt node cs t"
  then show "found_in m ch nt (edges_of ch node) cs t"
    unfolding found_in_def length_edges_of(2) by (cases rule: found.cases) blast+
qed

lemma found_in_Cons:
  "found_in m ch nt ((b, tg) # es) cs t \<longleftrightarrow>
    (\<exists>cs'. machine_step m cs b = Some (cs', True) \<and> (nt ! tg = int t \<or> found m ch nt tg cs' t))
    \<or> found_in m ch nt es cs t"
  unfolding found_in_def by auto

text \<open>One turn of the loop at an edge that is left, and at the end of a node.\<close>

lemma walk_end:
  assumes "at_index (edge_start v) (fr_node f + 1) = Some e" and "e \<le> fr_edge f"
  shows "walk_loop v m allow levels (below @ [f]) = walk_loop v m allow levels below"
  using assms by (subst walk_loop.simps) (simp add: vec_pop_def)

lemma walk_edge:
  assumes "at_index (edge_start v) (fr_node f + 1) = Some e" and "\<not> e \<le> fr_edge f"
    and "at_index (edge_byte v) (fr_edge f) = Some byte" and "at_index (edge_target v) (fr_edge f) = Some tg"
    and "levels1 = (if length levels \<le> fr_depth f + 1 then levels @ [[]] else levels)"
    and "machine_step m (levels1 ! fr_depth f) byte = Some (cs', ok)"
  shows "walk_loop v m allow levels (below @ [f]) =
    (if \<not> ok then walk_loop v m allow (levels1[fr_depth f + 1 := cs']) (below @ [f\<lparr>fr_edge := fr_edge f + 1\<rparr>])
     else do {
       token \<leftarrow> at_index (node_token v) tg;
       allow \<leftarrow> (if 0 \<le> token then allow_token allow (nat token) else Some allow);
       e \<leftarrow> at_index (edge_start v) tg;
       walk_loop v m allow (levels1[fr_depth f + 1 := cs'])
         (below @ [f\<lparr>fr_edge := fr_edge f + 1\<rparr>] @ [\<lparr>fr_node = tg, fr_edge = e, fr_depth = fr_depth f + 1\<rparr>])
     })"
  using assms by (subst walk_loop.simps) (simp add: vec_pop_def Let_def)

lemma walk_node:
  assumes lay: "laid_out v ch nt" and tr: "trie ch sp" and safe: "safe m G"
    and toks: "\<And>n. n < length ch \<Longrightarrow> nt ! n = - 1 \<or> (\<exists>t < len. nt ! n = int t)"
    and node: "node < length ch" and j: "j \<le> length (ch ! node)"
    and cs: "closed m G cs" and lev: "depth < length levels" "levels ! depth = cs"
    and allow: "length allow = div_ceil len 64"
  shows "\<exists>allow' levels'. (\<forall>below. walk_loop v m allow levels
        (below @ [\<lparr>fr_node = node, fr_edge = offset ch node + j, fr_depth = depth\<rparr>])
        = walk_loop v m allow' levels' below)
      \<and> take (Suc depth) levels' = take (Suc depth) levels \<and> length levels \<le> length levels'
      \<and> length allow' = length allow
      \<and> (\<forall>t. tbit allow' t \<longleftrightarrow> tbit allow t \<or> found_in m ch nt (drop j (edges_of ch node)) cs t)"
  using node j cs lev allow
proof (induction "length ch - node" arbitrary: node j depth levels allow cs rule: less_induct)
  case less
  note outer = less.hyps
  from less.prems show ?case
  proof (induction "length (ch ! node) - j" arbitrary: j levels allow)
    case 0
    let ?f = "\<lparr>fr_node = node, fr_edge = offset ch node + j, fr_depth = depth\<rparr>"
    have "at_index (edge_start v) (fr_node ?f + 1) = Some (offset ch (Suc node))"
      using lay 0(2) by (simp add: laid_out_def)
    moreover have "offset ch (Suc node) \<le> fr_edge ?f"
      using 0(1) offset_Suc [OF 0(2)] by simp
    ultimately have "\<forall>below. walk_loop v m allow levels (below @ [?f]) = walk_loop v m allow levels below"
      using walk_end by blast
    then show ?case using 0(1,3) by (intro exI [of _ allow] exI [of _ levels]) (simp add: found_in_def)
  next
    case (Suc k)
    note inner = Suc.hyps(1)
    have j: "j < length (ch ! node)" using Suc.hyps(2) by simp
    let ?f = "\<lambda>j. \<lparr>fr_node = node, fr_edge = offset ch node + j, fr_depth = depth\<rparr>"
    obtain b tg where e: "edges_of ch node ! j = (b, tg)" by (cases "edges_of ch node ! j")
    have mem: "(b, tg) \<in> set (ch ! node)" using e j nth_mem [of j "edges_of ch node"] by simp
    have tg: "node < tg" "tg < length ch" using trieD(4) [OF tr Suc.prems(1) mem] by auto
    have rest: "drop j (edges_of ch node) = (b, tg) # drop (Suc j) (edges_of ch node)"
      using j e by (simp add: Cons_nth_drop_Suc [symmetric])
    define levels1 where "levels1 = (if length levels \<le> depth + 1 then levels @ [[]] else levels)"
    have at_d: "levels1 ! depth = cs" and len1: "depth + 1 < length levels1"
        "length levels \<le> length levels1" and take1: "take (Suc depth) levels1 = take (Suc depth) levels"
      using Suc.prems(4,5) by (auto simp: levels1_def nth_append)
    obtain cs' where step: "machine_step m cs b = Some (cs', cs' \<noteq> [])" and cs': "closed m G cs'"
      using step_lang [OF safe Suc.prems(3)] by blast
    define levels2 where "levels2 = levels1[depth + 1 := cs']"
    have lev2: "depth < length levels2" "levels2 ! depth = cs" "length levels \<le> length levels2"
        "take (Suc depth) levels2 = take (Suc depth) levels" "depth + 1 < length levels2"
        "levels2 ! (depth + 1) = cs'"
      using len1 at_d take1 by (auto simp: levels2_def)
    have edge: "walk_loop v m allow levels (below @ [?f j]) =
      (if cs' = [] then walk_loop v m allow levels2 (below @ [?f (Suc j)])
       else do {
         token \<leftarrow> at_index (node_token v) tg;
         allow \<leftarrow> (if 0 \<le> token then allow_token allow (nat token) else Some allow);
         e \<leftarrow> at_index (edge_start v) tg;
         walk_loop v m allow levels2
           ((below @ [?f (Suc j)]) @ [\<lparr>fr_node = tg, fr_edge = e, fr_depth = depth + 1\<rparr>])
       })" for below
      using walk_edge [of v "?f j" "offset ch (Suc node)" b tg levels1 levels m cs' "cs' \<noteq> []" allow below]
        lay Suc.prems(1) j e step at_d offset_Suc [OF Suc.prems(1)]
      by (simp add: laid_out_def levels1_def levels2_def)
    have Suc_j: "Suc j \<le> length (ch ! node)" "k = length (ch ! node) - Suc j"
      using j Suc.hyps(2) by simp_all
    show ?case
    proof (cases "cs' = []")
      case True
      from inner [OF Suc_j(2) Suc.prems(1) Suc_j(1) Suc.prems(3) lev2(1,2) Suc.prems(6)]
      obtain allow' levels' where
        walk: "\<And>below. walk_loop v m allow levels2 (below @ [?f (Suc j)]) = walk_loop v m allow' levels' below"
        and lv: "take (Suc depth) levels' = take (Suc depth) levels2" "length levels2 \<le> length levels'"
        and al: "length allow' = length allow" "\<And>t. tbit allow' t \<longleftrightarrow> tbit allow t
            \<or> found_in m ch nt (drop (Suc j) (edges_of ch node)) cs t" by blast
      have "\<forall>below. walk_loop v m allow levels (below @ [?f j]) = walk_loop v m allow' levels' below"
        using edge walk True by simp
      moreover have "\<forall>t. tbit allow' t \<longleftrightarrow> tbit allow t \<or> found_in m ch nt (drop j (edges_of ch node)) cs t"
        using al(2) step True by (simp add: rest found_in_Cons)
      ultimately show ?thesis using lv lev2(3,4) al(1) by (metis le_trans)
    next
      case False
      have tok: "at_index (node_token v) tg = Some (nt ! tg)" and st: "at_index (edge_start v) tg = Some (offset ch tg + 0)"
        using lay tg by (auto simp: laid_out_def at_index_def)
      obtain allow1 where
        a1: "(if 0 \<le> nt ! tg then allow_token allow (nat (nt ! tg)) else Some allow) = Some allow1"
          "length allow1 = length allow" "\<And>t. tbit allow1 t \<longleftrightarrow> tbit allow t \<or> nt ! tg = int t"
      proof (cases "nt ! tg = - 1")
        case True
        then show ?thesis using that [of allow] by simp
      next
        case neg: False
        then obtain t where t: "t < len" "nt ! tg = int t" using toks [OF tg(2)] by blast
        obtain ws where "allow_token allow t = Some ws" "length ws = length allow"
          "\<And>u. tbit ws u \<longleftrightarrow> u = t \<or> tbit allow u"
          using tbit_allow [of t allow] word_of_token [OF t(1)] Suc.prems(6) by auto
        then show ?thesis using that [of ws] t(2) by auto
      qed
      have less: "length ch - tg < length ch - node" using tg by simp
      from outer [OF less tg(2) _ cs' lev2(5,6), of 0 allow1] a1(2) Suc.prems(6)
      obtain allow2 levels3 where
        walk2: "\<And>below. walk_loop v m allow1 levels2
          (below @ [\<lparr>fr_node = tg, fr_edge = offset ch tg + 0, fr_depth = depth + 1\<rparr>])
            = walk_loop v m allow2 levels3 below"
        and lv3: "take (Suc (depth + 1)) levels3 = take (Suc (depth + 1)) levels2" "length levels2 \<le> length levels3"
        and a2: "length allow2 = length allow1" "\<And>t. tbit allow2 t \<longleftrightarrow> tbit allow1 t
            \<or> found_in m ch nt (drop 0 (edges_of ch tg)) cs' t" by auto
      have lev3: "depth < length levels3" "levels3 ! depth = cs"
          "take (Suc depth) levels3 = take (Suc depth) levels2"
        using lv3 lev2 by (simp, metis less_add_one less_SucI nth_take,
            metis (no_types) min.absorb1 le_SucI le_add1 take_take Suc_eq_plus1)
      have len2: "length allow2 = div_ceil len 64" using a2(1) a1(2) Suc.prems(6) by simp
      from inner [OF Suc_j(2) Suc.prems(1) Suc_j(1) Suc.prems(3) lev3(1,2) len2]
      obtain allow' levels' where
        walk3: "\<And>below. walk_loop v m allow2 levels3 (below @ [?f (Suc j)]) = walk_loop v m allow' levels' below"
        and lv: "take (Suc depth) levels' = take (Suc depth) levels3" "length levels3 \<le> length levels'"
        and al: "length allow' = length allow2" "\<And>t. tbit allow' t \<longleftrightarrow> tbit allow2 t
            \<or> found_in m ch nt (drop (Suc j) (edges_of ch node)) cs t" by blast
      have "\<forall>below. walk_loop v m allow levels (below @ [?f j]) = walk_loop v m allow' levels' below"
      proof
        fix below
        have "walk_loop v m allow levels (below @ [?f j]) = walk_loop v m allow1 levels2
            ((below @ [?f (Suc j)]) @ [\<lparr>fr_node = tg, fr_edge = offset ch tg + 0, fr_depth = depth + 1\<rparr>])"
          using edge [of below] False tok st a1(1) by simp
        then show "walk_loop v m allow levels (below @ [?f j]) = walk_loop v m allow' levels' below"
          unfolding walk2 walk3 .
      qed
      moreover have "tbit allow' t \<longleftrightarrow> tbit allow t \<or> found_in m ch nt (drop j (edges_of ch node)) cs t" for t
        using al(2) a2(2) a1(3) step False by (auto simp: rest found_in_Cons found_in_node)
      ultimately show ?thesis using lv lev3(3) lev2(3,4) lv3(2) al(1) a2(1) a1(2)
        by (intro exI [of _ allow'] exI [of _ levels']) auto
    qed
  qed
qed

section \<open>Tokens the grammar can take\<close>

lemma survives_feed: "survives m cs q = map_option snd (feed m cs q)"
  by (induction q arbitrary: cs) (auto split: bind_split)

text \<open>A cursor set of a run: closed, not empty, every cursor able to finish.\<close>

definition running :: "Machine \<Rightarrow> (Cursor \<Rightarrow> bool) \<Rightarrow> Cursor list \<Rightarrow> bool" where
  "running m G cs \<longleftrightarrow> safe m G \<and> (\<forall>c. G c \<longrightarrow> eps_next m c = Some None \<longrightarrow> (\<exists>w. acc m c w))
     \<and> closed m G cs \<and> cs \<noteq> []"

lemma survives_iff:
  assumes "running m G cs"
  shows "survives m cs q = Some (\<exists>w. q @ w \<in> lang m cs)"
proof -
  have safe: "safe m G" and alive: "\<And>c. G c \<Longrightarrow> eps_next m c = Some None \<Longrightarrow> \<exists>w. acc m c w"
    and cs: "closed m G cs" "cs \<noteq> []" using assms by (auto simp: running_def)
  obtain out ok where out: "feed m cs q = Some (out, ok)" "closed m G out"
    and yes: "ok \<Longrightarrow> (\<forall>w. w \<in> lang m out \<longleftrightarrow> q @ w \<in> lang m cs)"
    and no: "\<not> ok \<Longrightarrow> out = [] \<and> (\<forall>w. q @ w \<notin> lang m cs)"
    using feed_residual [OF safe cs(1), of q] by blast
  have "ok \<longleftrightarrow> (\<exists>w. q @ w \<in> lang m cs)"
    using yes no feed_alive [OF out(1) _ cs(2)] closed_alive [OF alive out(2)] by blast
  then show ?thesis using out(1) by (simp add: survives_feed)
qed

lemma found_path:
  "found m ch nt node cs t \<Longrightarrow> \<exists>q n. q \<noteq> [] \<and> path ch node q n \<and> nt ! n = int t \<and> survives m cs q = Some True"
proof (induction rule: found.induct)
  case (here b tg node cs cs' t)
  then show ?case by (intro exI [of _ "[b]"] exI [of _ tg]) auto
next
  case (deeper b tg node cs cs' t)
  then obtain q n where "path ch tg q n" "nt ! n = int t" "survives m cs' q = Some True" by blast
  then show ?case using deeper.hyps by (intro exI [of _ "b # q"] exI [of _ n]) auto
qed

lemma path_found:
  "q \<noteq> [] \<Longrightarrow> path ch node q n \<Longrightarrow> nt ! n = int t \<Longrightarrow> survives m cs q = Some True \<Longrightarrow> found m ch nt node cs t"
proof (induction q arbitrary: node cs)
  case (Cons b q)
  then obtain tg where tg: "(b, tg) \<in> set (ch ! node)" "path ch tg q n" by auto
  obtain cs' where st: "machine_step m cs b = Some (cs', True)" "survives m cs' q = Some True"
    using Cons.prems(4) by (auto simp: bind_eq_Some_conv split: if_splits)
  show ?case
  proof (cases "q = []")
    case True
    then show ?thesis using tg st Cons.prems(3) by (auto intro: found.here)
  next
    case False
    then show ?thesis using tg st Cons.IH [OF False tg(2) Cons.prems(3)] by (auto intro: found.deeper)
  qed
qed simp

text \<open>The tokens the trie holds that the grammar can take: those the walk finds.\<close>

lemma found_held:
  assumes f: "filed pieces eogs (length pieces) ch nt sp" and run: "running m G cs"
  shows "found m ch nt 0 cs t \<longleftrightarrow> t < length pieces \<and> spelt pieces eogs t \<and> (\<exists>w. pieces ! t @ w \<in> lang m cs)"
proof
  have tr: "trie ch sp" using f by (simp add: filed_def)
  have pos: "0 < length ch" using trieD(1,2) [OF tr] by (cases sp) auto
  {
    assume "found m ch nt 0 cs t"
    then obtain q n where q: "path ch 0 q n" "nt ! n = int t" "survives m cs q = Some True"
      using found_path by blast
    have n: "n < length ch" "sp ! n = q" using path_spell [OF tr pos q(1)] trieD(3) [OF tr] by auto
    then have "t < length pieces \<and> spelt pieces eogs t \<and> pieces ! t = q"
      using f q(2) unfolding filed_def by force
    then show "t < length pieces \<and> spelt pieces eogs t \<and> (\<exists>w. pieces ! t @ w \<in> lang m cs)"
      using q(3) survives_iff [OF run, of q] by simp
  next
    assume t: "t < length pieces \<and> spelt pieces eogs t \<and> (\<exists>w. pieces ! t @ w \<in> lang m cs)"
    then obtain n where "path ch 0 (pieces ! t) n" "nt ! n = int t"
      using f unfolding filed_def by blast
    then show "found m ch nt 0 cs t"
      using t path_found [of "pieces ! t"] survives_iff [OF run, of "pieces ! t"] by (simp add: spelt_def)
  }
qed

lemma walk_correct:
  assumes f: "filed pieces eogs (length pieces) ch nt sp" and lay: "laid_out v ch nt"
    and run: "running m G cs" and allow: "length allow = div_ceil (length pieces) 64"
  shows "\<exists>allow'. walk v m cs allow = Some allow' \<and> length allow' = length allow
    \<and> (\<forall>t. tbit allow' t \<longleftrightarrow> tbit allow t
        \<or> t < length pieces \<and> spelt pieces eogs t \<and> (\<exists>w. pieces ! t @ w \<in> lang m cs))"
proof -
  have tr: "trie ch sp" using f by (simp add: filed_def)
  have pos: "0 < length ch" using trieD(1,2) [OF tr] by (cases sp) auto
  have st: "at_index (edge_start v) 0 = Some (offset ch 0 + 0)" using lay by (simp add: laid_out_def)
  have toks: "nt ! n = - 1 \<or> (\<exists>t < length pieces. nt ! n = int t)" if "n < length ch" for n
    using f that unfolding filed_def by blast
  have safe: "safe m G" and cl: "closed m G cs" using run by (simp_all add: running_def)
  obtain allow' levels' where "\<And>below. walk_loop v m allow [cs]
        (below @ [\<lparr>fr_node = 0, fr_edge = offset ch 0 + 0, fr_depth = 0\<rparr>])
        = walk_loop v m allow' levels' below"
    and al: "length allow' = length allow" "\<And>t. tbit allow' t \<longleftrightarrow> tbit allow t
        \<or> found_in m ch nt (drop 0 (edges_of ch 0)) cs t"
    using walk_node [OF lay tr safe toks pos _ cl, of 0 0 "[cs]" allow] allow by auto
  from this(1) [of "[]"] have "walk v m cs allow = Some allow'"
    by (simp add: walk_def st walk_loop.simps [of v m allow' levels' "[]"] vec_pop_def)
  then show ?thesis using al found_held [OF f run] by (simp add: found_in_node)
qed

lemma admit_breaking_correct:
  assumes run: "running m G cs" and "\<forall>tp \<in> set ps. fst tp div 64 < length allow"
  shows "\<exists>allow'. admit_breaking m cs ps allow = Some allow' \<and> length allow' = length allow
    \<and> (\<forall>t. tbit allow' t \<longleftrightarrow> tbit allow t \<or> (\<exists>p. (t, p) \<in> set ps \<and> (\<exists>w. p @ w \<in> lang m cs)))"
  using assms(2)
proof (induction ps arbitrary: allow)
  case Nil
  then show ?case by simp
next
  case (Cons tp ps)
  obtain t p where tp: "tp = (t, p)" by (cases tp)
  obtain ws where ws: "allow_token allow t = Some ws" "length ws = length allow"
    "\<And>u. tbit ws u \<longleftrightarrow> u = t \<or> tbit allow u"
    using tbit_allow [of t allow] Cons.prems tp by auto
  define a where "a = (if \<exists>w. p @ w \<in> lang m cs then ws else allow)"
  have len: "length a = length allow" using ws by (simp add: a_def)
  then have room: "\<forall>tp \<in> set ps. fst tp div 64 < length a" using Cons.prems by auto
  obtain allow' where al: "admit_breaking m cs ps a = Some allow'" "length allow' = length allow"
    "\<And>u. tbit allow' u \<longleftrightarrow> tbit a u \<or> (\<exists>p. (u, p) \<in> set ps \<and> (\<exists>w. p @ w \<in> lang m cs))"
    using Cons.IH [OF room] len by auto
  have "admit_breaking m cs (tp # ps) allow = Some allow'"
    using al(1) ws(1)
    by (cases "\<exists>w. p @ w \<in> lang m cs") (simp_all add: tp survives_iff [OF run] a_def)
  moreover have "tbit a u \<longleftrightarrow> tbit allow u \<or> u = t \<and> (\<exists>w. p @ w \<in> lang m cs)" for u
    using ws(3) by (auto simp: a_def)
  ultimately show ?case using al(2,3) by (auto simp: tp)
qed

lemma admit_eog_correct:
  assumes "length allow = div_ceil len 64"
  shows "\<exists>allow'. admit_eog len ts allow = Some allow' \<and> length allow' = length allow
    \<and> (\<forall>t. tbit allow' t \<longleftrightarrow> tbit allow t \<or> (t \<in> set ts \<and> t < len))"
  using assms
proof (induction ts arbitrary: allow)
  case Nil
  then show ?case by simp
next
  case (Cons t ts)
  show ?case
  proof (cases "t < len")
    case True
    obtain ws where ws: "allow_token allow t = Some ws" "length ws = length allow"
      "\<And>u. tbit ws u \<longleftrightarrow> u = t \<or> tbit allow u"
      using tbit_allow [of t allow] word_of_token [OF True] Cons.prems by auto
    from Cons.IH [of ws] Cons.prems ws True show ?thesis by auto
  next
    case False
    then show ?thesis using Cons.IH [of allow] Cons.prems by auto
  qed
qed

section \<open>The free-text shortcut\<close>

text \<open>In free text with nothing of the delimiter matched, a byte other than its first leaves a cursor
  where it is; a token without that byte is always taken.\<close>

lemma free_text_stays:
  assumes at: "at_state m (cu_state c) = Some (Until 0 n)" and fb: "m_fallback m = close_table"
    and small: "cu_state c < 2 ^ 32" and b: "b \<noteq> nl"
  shows "move m b c = Some (Some c)"
proof -
  have "advance_close (m_fallback m) 0 b = Some 0"
    using b by (simp add: fb advance_close_table)
  moreover have "wadd 32 (wsub 32 (cu_state c) 0) 0 = cu_state c"
    using small by (simp add: wsub_nowrap wadd_nowrap)
  ultimately show ?thesis by (simp add: move_def at until_k_def)
qed

lemma free_text_takes:
  assumes run: "running m G cs" and free: "is_free_text m cs" and fb: "m_fallback m = close_table"
    and small: "length (m_states m) \<le> 2 ^ 32" and q: "nl \<notin> set q"
  shows "\<exists>w. q @ w \<in> lang m cs"
proof -
  obtain c where c: "c \<in> set cs" using run by (cases cs) (auto simp: running_def)
  then have "case at_state m (cu_state c) of Some (Until k nxt) \<Rightarrow> k = 0 | _ \<Rightarrow> False"
    using free by (simp add: is_free_text_def)
  then obtain n where at: "at_state m (cu_state c) = Some (Until 0 n)"
    by (auto split: option.splits State.splits)
  have "cu_state c < 2 ^ 32" using at_state_less [OF at] small by simp
  note stay = free_text_stays [OF at fb this]
  obtain w where w: "acc m c w" using run c unfolding running_def closed_def by blast
  have "acc m c (q @ w)" using q
  proof (induction q)
    case (Cons b q)
    have "nl \<notin> set q" "b \<noteq> nl" using Cons.prems by auto
    then show ?case using acc.eat [OF stay Cons.IH] by simp
  qed (simp add: w)
  then show ?thesis using c by (auto simp: lang_def)
qed

section \<open>The whole mask\<close>

definition admits :: "bytes list \<Rightarrow> u32 list \<Rightarrow> bytes set \<Rightarrow> nat \<Rightarrow> bool" where
  "admits pieces eogs A t \<longleftrightarrow> t < length pieces
     \<and> (if t \<in> set eogs then [] \<in> A else pieces ! t \<noteq> [] \<and> (\<exists>w. pieces ! t @ w \<in> A))"

lemma allowed_correct:
  assumes sz: "sized pieces" and un: "unambiguous pieces eogs" and run: "running m G cs"
    and fb: "m_fallback m = close_table" and small: "length (m_states m) \<le> 2 ^ 32"
  shows "\<exists>allow. allowed (new_vocab pieces eogs) m cs = Some allow
    \<and> length allow = div_ceil (length pieces) 64
    \<and> (\<forall>t < length pieces. tbit allow t \<longleftrightarrow> admits pieces eogs (lang m cs) t)"
proof -
  let ?v = "new_vocab pieces eogs" and ?n = "div_ceil (length pieces) 64"
  let ?ok = "\<lambda>t. spelt pieces eogs t \<and> (\<exists>w. pieces ! t @ w \<in> lang m cs)"
  obtain ch nt sp where f: "filed pieces eogs (length pieces) ch nt sp" and lay: "laid_out ?v ch nt"
    and br: "breaking ?v = map (\<lambda>t. (t, pieces ! t))
      (filter (\<lambda>t. spelt pieces eogs t \<and> nl \<in> set (pieces ! t)) [0..<length pieces])"
    and ft: "length (free_text ?v) = ?n" "\<And>t. t < length pieces \<Longrightarrow>
      tbit (free_text ?v) t \<longleftrightarrow> spelt pieces eogs t \<and> nl \<notin> set (pieces ! t)"
    and v: "eog ?v = eogs" "vocab_len ?v = length pieces"
    by (rule new_vocab_built [OF sz un]) (rule that)
  have "\<exists>allow. (if is_free_text m cs then admit_breaking m cs (breaking ?v) (free_text ?v)
       else walk ?v m cs (replicate ?n 0)) = Some allow
      \<and> length allow = ?n \<and> (\<forall>t < length pieces. tbit allow t \<longleftrightarrow> ?ok t)"
  proof (cases "is_free_text m cs")
    case True
    have "\<forall>tp \<in> set (breaking ?v). fst tp div 64 < length (free_text ?v)"
      using word_of_token by (auto simp: br ft(1))
    from admit_breaking_correct [OF run this] obtain allow where
      "admit_breaking m cs (breaking ?v) (free_text ?v) = Some allow" "length allow = ?n"
      and tb: "\<And>t. tbit allow t \<longleftrightarrow> tbit (free_text ?v) t
        \<or> (\<exists>p. (t, p) \<in> set (breaking ?v) \<and> (\<exists>w. p @ w \<in> lang m cs))" using ft(1) by auto
    moreover have "tbit allow t \<longleftrightarrow> ?ok t" if "t < length pieces" for t
      using tb [of t] ft(2) [OF that] that free_text_takes [OF run True fb small, of "pieces ! t"]
      by (auto simp: br)
    ultimately show ?thesis using True by auto
  next
    case False
    from walk_correct [OF f lay run, of "replicate ?n 0"] show ?thesis
      using False tbit_zero [of _ "length pieces"] by auto
  qed
  then obtain allow where al: "(if is_free_text m cs then admit_breaking m cs (breaking ?v) (free_text ?v)
       else walk ?v m cs (replicate ?n 0)) = Some allow" "length allow = ?n"
    and tb: "\<And>t. t < length pieces \<Longrightarrow> tbit allow t \<longleftrightarrow> ?ok t" by blast
  have ends: "accepts_end m cs \<longleftrightarrow> [] \<in> lang m cs"
    using run accepts_end_lang unfolding running_def by blast
  obtain allow' where eo: "admit_eog (length pieces) eogs allow = Some allow'" "length allow' = ?n"
    "\<And>t. tbit allow' t \<longleftrightarrow> tbit allow t \<or> t \<in> set eogs \<and> t < length pieces"
    using admit_eog_correct [OF al(2)] al(2) by auto
  let ?r = "if accepts_end m cs then allow' else allow"
  have "allowed ?v m cs = Some ?r"
    unfolding allowed_def v al(1) using eo(1) by simp
  moreover have "length ?r = ?n" using al(2) eo(2) by simp
  moreover have "\<forall>t < length pieces. tbit ?r t \<longleftrightarrow> admits pieces eogs (lang m cs) t"
    using tb eo(3) ends by (auto simp: admits_def spelt_def)
  ultimately show ?thesis by blast
qed

text \<open>Writing the mask into the row.\<close>

lemma write_word_correct:
  assumes len: "len \<le> length logits" and word: "word * 64 < len"
  shows "\<exists>out. write_word neg_inf len word w logits = Some out \<and> length out = length logits
    \<and> (\<forall>i < length logits. out ! i =
        (if word * 64 \<le> i \<and> i < word * 64 + 64 \<and> i < len \<and> \<not> bit w (i - word * 64) then neg_inf else logits ! i))"
proof -
  obtain lo hi where lh: "lo = word * 64" "hi = min (word * 64 + 64) len" by blast
  have ord: "lo \<le> hi" "hi \<le> length logits" using len word lh by auto
  consider "w = - 1" | "w = 0" | "w \<noteq> - 1" "w \<noteq> 0" by blast
  then show ?thesis
  proof cases
    case 1
    have "bit (- 1 :: 64 word) (i - word * 64)" if "i < word * 64 + 64" for i
      using that by simp
    then show ?thesis using 1 by (auto simp: write_word_def)
  next
    case 2
    have "(take lo logits @ replicate (hi - lo) neg_inf @ drop hi logits) ! i
        = (if lo \<le> i \<and> i < hi then neg_inf else logits ! i)" if "i < length logits" for i
      using that ord by (auto simp: nth_append min_def)
    then show ?thesis using 2 ord unfolding write_word_def lh [symmetric] Let_def
      by (auto simp: lh)
  next
    case 3
    let ?mid = "map (\<lambda>(b, logit). if w AND push_bit b 1 = 0 then neg_inf else logit)
        (enumerate 0 (take (hi - lo) (drop lo logits)))"
    have bit: "w AND push_bit b 1 = 0 \<longleftrightarrow> \<not> bit w b" for b
      by (simp add: and_exp_eq_0_iff_not_bit push_bit_of_1)
    have mid: "?mid ! j = (if \<not> bit w j then neg_inf else logits ! (lo + j))" if "j < hi - lo" for j
      using that ord unfolding bit by (simp add: nth_enumerate_eq)
    have lm: "length ?mid = hi - lo" using ord by simp
    have "(take lo logits @ ?mid @ drop hi logits) ! i
        = (if lo \<le> i \<and> i < hi \<and> \<not> bit w (i - lo) then neg_inf else logits ! i)"
      if "i < length logits" for i
      using that ord lm mid [of "i - lo"] by (auto simp: nth_append min_def)
    then show ?thesis using 3 ord lm unfolding write_word_def lh [symmetric] Let_def
      by (auto simp: lh)
  qed
qed

lemma write_mask_correct:
  assumes "len \<le> length logits" and "word + length ws = div_ceil len 64"
  shows "\<exists>out. write_mask neg_inf len word ws logits = Some out \<and> length out = length logits
    \<and> (\<forall>i < length logits. out ! i = (if word * 64 \<le> i \<and> i < len \<and> \<not> bit (ws ! (i div 64 - word)) (i mod 64)
        then neg_inf else logits ! i))"
  using assms
proof (induction ws arbitrary: word logits)
  case Nil
  have "len \<le> word * 64" using div_ceil_bounds(1) [of 64 len] Nil.prems(2) by simp
  then show ?case by auto
next
  case (Cons w ws)
  have "div_ceil len 64 * 64 < len + 64" by (rule div_ceil_bounds) simp
  then have word: "word * 64 < len" using Cons.prems(2) by (simp flip: Cons.prems(2))
  obtain mid where mid: "write_word neg_inf len word w logits = Some mid" "length mid = length logits"
    and m: "\<And>i. i < length logits \<Longrightarrow> mid ! i = (if word * 64 \<le> i \<and> i < word * 64 + 64 \<and> i < len
        \<and> \<not> bit w (i - word * 64) then neg_inf else logits ! i)"
    using write_word_correct [OF Cons.prems(1) word] by blast
  obtain out where out: "write_mask neg_inf len (Suc word) ws mid = Some out" "length out = length logits"
    and o: "\<And>i. i < length logits \<Longrightarrow> out ! i = (if Suc word * 64 \<le> i \<and> i < len
        \<and> \<not> bit (ws ! (i div 64 - Suc word)) (i mod 64) then neg_inf else mid ! i)"
    using Cons.IH [of mid "Suc word"] Cons.prems mid(2) by auto
  have "out ! i = (if word * 64 \<le> i \<and> i < len \<and> \<not> bit ((w # ws) ! (i div 64 - word)) (i mod 64)
      then neg_inf else logits ! i)" if i: "i < length logits" for i
  proof (cases "word * 64 \<le> i \<and> i < word * 64 + 64")
    case True
    then have "i div 64 = word" by (metis add.commute div_nat_eqI mult.commute mult_Suc)
    moreover from this have "i mod 64 = i - word * 64" by (metis minus_div_mult_eq_mod)
    ultimately show ?thesis using o [OF i] m [OF i] True by simp
  next
    case False
    show ?thesis
    proof (cases "i < word * 64")
      case True
      then show ?thesis using o [OF i] m [OF i] by simp
    next
      case above: False
      then have "Suc word \<le> i div 64" using False by (simp add: less_eq_div_iff_mult_less_eq)
      then have "i div 64 - word = Suc (i div 64 - Suc word)" by simp
      then show ?thesis using o [OF i] m [OF i] False above by simp
    qed
  qed
  then show ?case using mid(1) out by auto
qed

lemma vocab_mask_correct:
  assumes "sized pieces" and "unambiguous pieces eogs" and "running m G cs"
    and "m_fallback m = close_table" and "length (m_states m) \<le> 2 ^ 32"
    and len: "length pieces \<le> length logits"
  shows "\<exists>out. vocab_mask neg_inf (new_vocab pieces eogs) m cs logits = Some out
    \<and> length out = length logits
    \<and> (\<forall>t < length logits. out ! t = (if admits pieces eogs (lang m cs) t then logits ! t else neg_inf))"
proof -
  let ?v = "new_vocab pieces eogs"
  obtain allow where al: "allowed ?v m cs = Some allow" "length allow = div_ceil (length pieces) 64"
    and tb: "\<And>t. t < length pieces \<Longrightarrow> tbit allow t \<longleftrightarrow> admits pieces eogs (lang m cs) t"
    using allowed_correct [OF assms(1-5)] by blast
  have vl: "vocab_len ?v = length pieces" by (simp add: new_vocab_def Let_def split_beta)
  obtain mid where mid: "write_mask neg_inf (length pieces) 0 allow logits = Some mid" "length mid = length logits"
    and m: "\<And>i. i < length logits \<Longrightarrow> mid ! i = (if i < length pieces \<and> \<not> tbit allow i then neg_inf else logits ! i)"
    using write_mask_correct [OF len, of 0 allow neg_inf] al(2) by (auto simp: tbit_def)
  let ?out = "if length pieces < length mid
      then take (length pieces) mid @ replicate (length mid - length pieces) neg_inf else mid"
  have "vocab_mask neg_inf ?v m cs logits = Some ?out"
    unfolding vocab_mask_def vl al(1) using mid(1) by simp
  moreover have "length ?out = length logits" using mid(2) len by simp
  moreover have "?out ! t = (if admits pieces eogs (lang m cs) t then logits ! t else neg_inf)"
    if t: "t < length logits" for t
  proof (cases "t < length pieces")
    case True
    then have "?out ! t = mid ! t" using mid(2) by (auto simp: nth_append)
    then show ?thesis using m [OF t] tb [OF True] True by simp
  next
    case False
    then have "?out ! t = neg_inf" using t mid(2) len by (auto simp: nth_append)
    then show ?thesis using False by (simp add: admits_def)
  qed
  ultimately show ?thesis by blast
qed

end
