(* ===== verification/Constraint.thy ===== *)
theory Constraint
  imports VocabMask
begin

text \<open>
  What a sequence carries (\<open>xabe-grammar/src/lib.rs\<close>): idle until a trigger appears in the output,
  masking every step after that, standing down when a byte the grammar cannot take slips through.
  The concrete constraint keeps a bounded tail and cursor lists; it refines an abstract one that keeps
  the whole text and asks whether it can still become a well-formed call.
\<close>

section \<open>The constraint\<close>

record ToolConstraint =
  tc_machine :: Machine
  tc_vocab :: Vocab
  tc_tail :: bytes
  tc_cursors :: "Cursor list"
  tc_armed :: bool
  tc_broken :: bool
  tc_longest_trigger :: usize

definition ToolGrammar_new :: "ToolSpec list \<Rightarrow> bool \<Rightarrow> Vocab \<Rightarrow> (Machine \<times> Vocab) option option" where
  "ToolGrammar_new tools many v =
    (if tools = [] then Some None else do { m \<leftarrow> compile tools many; Some (Some (m, v)) })"

definition ToolConstraint_new :: "Machine \<Rightarrow> Vocab \<Rightarrow> ToolConstraint" where
  "ToolConstraint_new m v =
    \<lparr>tc_machine = m, tc_vocab = v, tc_tail = [], tc_cursors = [], tc_armed = False, tc_broken = False,
     tc_longest_trigger = fold max (map length (m_triggers m)) 0\<rparr>"

definition is_masking :: "ToolConstraint \<Rightarrow> bool" where
  "is_masking c \<longleftrightarrow> tc_armed c \<and> \<not> tc_broken c"

definition mask_logits :: "'f \<Rightarrow> ToolConstraint \<Rightarrow> 'f list \<Rightarrow> 'f list option" where
  "mask_logits neg_inf c logits =
    (if is_masking c then vocab_mask neg_inf (tc_vocab c) (tc_machine c) (tc_cursors c) logits
     else Some logits)"

definition find_bytes :: "bytes \<Rightarrow> bytes \<Rightarrow> usize option" where
  "find_bytes haystack needle =
    (if needle = [] \<or> length haystack < length needle then None
     else find (\<lambda>at. take (length needle) (drop at haystack) = needle)
       [0..<Suc (length haystack - length needle)])"

definition trigger_at :: "ToolConstraint \<Rightarrow> usize option" where
  "trigger_at c =
    (case List.map_filter (find_bytes (tc_tail c)) (m_triggers (tc_machine c)) of
       [] \<Rightarrow> None
     | at # ats \<Rightarrow> Some (fold min ats at))"

text \<open>The armed branch of \<open>observe_bytes\<close>, which the idle branch also ends in.\<close>

definition observe_armed :: "ToolConstraint \<Rightarrow> bytes \<Rightarrow> ToolConstraint option" where
  "observe_armed c bs = do {
     (cursors, ok) \<leftarrow> feed (tc_machine c) (tc_cursors c) bs;
     Some (c\<lparr>tc_cursors := cursors, tc_broken := \<not> ok\<rparr>)
   }"

definition observe_bytes :: "ToolConstraint \<Rightarrow> bytes \<Rightarrow> ToolConstraint option" where
  "observe_bytes c bs =
    (if tc_broken c then Some c
     else if tc_armed c then observe_armed c bs
     else
       (let c = c\<lparr>tc_tail := tc_tail c @ bs\<rparr>
        in case trigger_at c of
             Some at \<Rightarrow> do {
               cursors \<leftarrow> start (tc_machine c);
               observe_armed (c\<lparr>tc_cursors := cursors, tc_armed := True, tc_tail := []\<rparr>) (drop at (tc_tail c))
             }
           | None \<Rightarrow>
               (let keep = tc_longest_trigger c - 1
                in Some (if keep < length (tc_tail c)
                     then c\<lparr>tc_tail := drop (length (tc_tail c) - keep) (tc_tail c)\<rparr> else c))))"

definition observe_token :: "ToolConstraint \<Rightarrow> i32 \<Rightarrow> ToolConstraint option" where
  "observe_token c token =
    (if token < 0 then Some c else observe_bytes c (piece (tc_vocab c) (nat token)))"

section \<open>Finding a trigger\<close>

definition occurs_at :: "bytes list \<Rightarrow> bytes \<Rightarrow> nat \<Rightarrow> bool" where
  "occurs_at trs out i \<longleftrightarrow> (\<exists>tr \<in> set trs. prefix tr (drop i out))"

definition triggered :: "bytes list \<Rightarrow> bytes \<Rightarrow> bool" where
  "triggered trs out \<longleftrightarrow> (\<exists>i. occurs_at trs out i)"

definition first_trigger :: "bytes list \<Rightarrow> bytes \<Rightarrow> nat" where
  "first_trigger trs out = (LEAST i. occurs_at trs out i)"

lemma prefix_take: "prefix tr xs \<longleftrightarrow> take (length tr) xs = tr"
  by (metis append_eq_conv_conj prefix_def take_is_prefix)

lemma find_upt:
  "find P [0..<n] = Some i \<longleftrightarrow> i < n \<and> P i \<and> (\<forall>j < i. \<not> P j)"
  by (auto simp: find_Some_iff)

lemma find_bytes_Some:
  assumes "tr \<noteq> []"
  shows "find_bytes out tr = Some i \<longleftrightarrow> prefix tr (drop i out) \<and> (\<forall>j < i. \<not> prefix tr (drop j out))"
proof -
  have fits: "i + length tr \<le> length out" if "prefix tr (drop i out)" for i
    using prefix_length_le [OF that] assms by (cases tr) auto
  show ?thesis
  proof (cases "length out < length tr")
    case True
    then show ?thesis using fits [of i] by (auto simp: find_bytes_def)
  next
    case False
    then show ?thesis using fits [of i] assms
      by (auto simp: find_bytes_def find_upt prefix_take [symmetric] simp del: upt_Suc)
  qed
qed

lemma find_bytes_None:
  assumes "tr \<noteq> []"
  shows "find_bytes out tr = None \<longleftrightarrow> (\<forall>i. \<not> prefix tr (drop i out))"
proof (cases "find_bytes out tr")
  case None
  have "find_bytes out tr = Some (LEAST i. prefix tr (drop i out))" if "prefix tr (drop i out)" for i
    unfolding find_bytes_Some [OF assms] using LeastI [of "\<lambda>i. prefix tr (drop i out)", OF that]
      not_less_Least by blast
  then show ?thesis using None by auto
next
  case (Some i)
  then show ?thesis using find_bytes_Some [OF assms, of out i] by auto
qed

lemma fold_min: "fold min xs (a::nat) \<le> a \<and> (\<forall>x \<in> set xs. fold min xs a \<le> x) \<and> fold min xs a \<in> insert a (set xs)"
proof (induction xs arbitrary: a)
  case (Cons x xs)
  from Cons.IH [of "min x a"] show ?case by (auto simp: min_def split: if_splits)
qed simp

lemma set_map_filter': "set (List.map_filter f xs) = {y. \<exists>x \<in> set xs. f x = Some y}"
  by (induction xs) (auto simp: List.map_filter_simps split: option.splits)

lemma trigger_at_correct:
  assumes ne: "[] \<notin> set trs" and trs: "m_triggers (tc_machine c) = trs"
  shows "trigger_at c = (if triggered trs (tc_tail c) then Some (first_trigger trs (tc_tail c)) else None)"
proof -
  let ?out = "tc_tail c"
  define ats where "ats = List.map_filter (find_bytes ?out) trs"
  have set_ats: "set ats = {i. \<exists>tr \<in> set trs. find_bytes ?out tr = Some i}"
    by (simp add: ats_def set_map_filter')
  have at_occ: "occurs_at trs ?out i" if i: "i \<in> set ats" for i
  proof -
    obtain tr where tr: "tr \<in> set trs" "find_bytes ?out tr = Some i" using i set_ats by auto
    then have "tr \<noteq> []" using ne by auto
    then show ?thesis using tr find_bytes_Some [of tr ?out i] by (auto simp: occurs_at_def)
  qed
  have occ_at: "\<exists>i \<in> set ats. i \<le> j" if occ: "occurs_at trs ?out j" for j
  proof -
    obtain tr where tr: "tr \<in> set trs" "prefix tr (drop j ?out)" using occ by (auto simp: occurs_at_def)
    then have tr_ne: "tr \<noteq> []" using ne by auto
    obtain i where i: "find_bytes ?out tr = Some i"
      using find_bytes_None [OF tr_ne, of ?out] tr(2) by (cases "find_bytes ?out tr") auto
    then have "i \<le> j" using find_bytes_Some [OF tr_ne, of ?out i] tr(2) by (meson not_le)
    then show ?thesis using i tr(1) set_ats by auto
  qed
  show ?thesis
  proof (cases ats)
    case Nil
    then have "\<not> triggered trs ?out" using occ_at by (auto simp: triggered_def)
    then show ?thesis using Nil by (simp add: trigger_at_def trs ats_def)
  next
    case (Cons a as)
    let ?i = "fold min as a"
    have mem: "?i \<in> set ats" and least: "\<And>x. x \<in> set ats \<Longrightarrow> ?i \<le> x"
      using fold_min [of as a] Cons by auto
    have "first_trigger trs ?out = ?i"
      unfolding first_trigger_def
    proof (rule Least_equality)
      show "occurs_at trs ?out ?i" using at_occ mem by blast
      show "occurs_at trs ?out j \<Longrightarrow> ?i \<le> j" for j using occ_at [of j] least le_trans by blast
    qed
    moreover have "triggered trs ?out" using at_occ mem by (auto simp: triggered_def)
    moreover have "trigger_at c = Some ?i" using Cons by (simp add: trigger_at_def trs ats_def)
    ultimately show ?thesis by simp
  qed
qed

text \<open>The tail that is kept is long enough for a trigger split across tokens.\<close>

definition kept_tail :: "nat \<Rightarrow> bytes \<Rightarrow> bytes" where
  "kept_tail keep out = drop (length out - keep) out"

lemma kept_tail_append:
  "kept_tail keep (out @ bs) =
    (if keep < length (kept_tail keep out @ bs)
     then drop (length (kept_tail keep out @ bs) - keep) (kept_tail keep out @ bs)
     else kept_tail keep out @ bs)"
proof -
  have "kept_tail keep out @ bs = drop (length out - keep) (out @ bs)"
    by (simp add: kept_tail_def)
  moreover have "length (kept_tail keep out @ bs) = min (length out) keep + length bs"
    by (simp add: kept_tail_def min_def)
  ultimately show ?thesis
    by (cases "length out \<le> keep") (auto simp: kept_tail_def min_def add.commute)
qed

lemma split_trigger:
  assumes none: "\<not> triggered trs out" and ne: "[] \<notin> set trs"
    and fits: "\<And>tr. tr \<in> set trs \<Longrightarrow> length tr \<le> Suc keep"
  defines "d \<equiv> length out - keep"
  shows "occurs_at trs (out @ bs) i \<longleftrightarrow> d \<le> i \<and> occurs_at trs (kept_tail keep out @ bs) (i - d)"
proof -
  have tail: "kept_tail keep out @ bs = drop d (out @ bs)" by (simp add: kept_tail_def d_def)
  have low: "\<not> occurs_at trs (out @ bs) i" if "i < d" for i
  proof
    assume "occurs_at trs (out @ bs) i"
    then obtain tr where tr: "tr \<in> set trs" "prefix tr (drop i (out @ bs))" by (auto simp: occurs_at_def)
    have "i + length tr \<le> length out" using that fits [OF tr(1)] by (simp add: d_def)
    then have "prefix tr (drop i out)" using tr(2) by (simp add: prefix_take)
    then show False using none tr(1) by (auto simp: triggered_def occurs_at_def)
  qed
  show ?thesis
  proof (cases "d \<le> i")
    case True
    then have "drop (i - d) (drop d (out @ bs)) = drop i (out @ bs)" by (simp only: drop_drop le_add_diff_inverse2)
    then show ?thesis using True by (simp only: tail occurs_at_def simp_thms)
  next
    case False
    then show ?thesis using low by simp
  qed
qed

lemma split_trigger_found:
  assumes "\<not> triggered trs out" and "[] \<notin> set trs" and "\<And>tr. tr \<in> set trs \<Longrightarrow> length tr \<le> Suc keep"
  shows "triggered trs (kept_tail keep out @ bs) \<longleftrightarrow> triggered trs (out @ bs)"
    and "triggered trs (out @ bs) \<Longrightarrow> drop (first_trigger trs (kept_tail keep out @ bs)) (kept_tail keep out @ bs)
      = drop (first_trigger trs (out @ bs)) (out @ bs)"
proof -
  let ?d = "length out - keep"
  note iff = split_trigger [OF assms, of bs]
  show occ: "triggered trs (kept_tail keep out @ bs) \<longleftrightarrow> triggered trs (out @ bs)"
    unfolding triggered_def using iff by (metis add_diff_cancel_left' le_add1)
  assume "triggered trs (out @ bs)"
  then obtain i where i: "occurs_at trs (kept_tail keep out @ bs) i" using occ by (auto simp: triggered_def)
  let ?f = "first_trigger trs (kept_tail keep out @ bs)"
  have f: "occurs_at trs (kept_tail keep out @ bs) ?f" unfolding first_trigger_def using i by (rule LeastI)
  have "first_trigger trs (out @ bs) = ?d + ?f"
    unfolding first_trigger_def [of trs "out @ bs"]
  proof (rule Least_equality)
    show "occurs_at trs (out @ bs) (?d + ?f)" using f by (simp add: iff)
    fix j assume "occurs_at trs (out @ bs) j"
    then have "?d \<le> j" "occurs_at trs (kept_tail keep out @ bs) (j - ?d)" by (simp_all add: iff)
    moreover from this(2) have "?f \<le> j - ?d" unfolding first_trigger_def by (rule Least_le)
    ultimately show "?d + ?f \<le> j" by linarith
  qed
  then show "drop ?f (kept_tail keep out @ bs) = drop (first_trigger trs (out @ bs)) (out @ bs)"
    by (simp add: kept_tail_def add.commute)
qed

section \<open>The abstract constraint\<close>

text \<open>The output so far while nothing has triggered; the text from the trigger on while a call is being
  written; standing down for good once that text can no longer become a well-formed call.\<close>

datatype Phase = Idle bytes | Calling bytes | StoodDown

definition completable :: "ToolSpec list \<Rightarrow> bool \<Rightarrow> bytes \<Rightarrow> bool" where
  "completable tools many s \<longleftrightarrow> (\<exists>w. s @ w \<in> tool_calls tools many)"

definition calling :: "ToolSpec list \<Rightarrow> bool \<Rightarrow> bytes \<Rightarrow> Phase" where
  "calling tools many s = (if completable tools many s then Calling s else StoodDown)"

fun phase_step :: "ToolSpec list \<Rightarrow> bool \<Rightarrow> Phase \<Rightarrow> bytes \<Rightarrow> Phase" where
  "phase_step tools many (Idle out) bs =
    (if triggered (triggers_of tools) (out @ bs)
     then calling tools many (drop (first_trigger (triggers_of tools) (out @ bs)) (out @ bs))
     else Idle (out @ bs))"
| "phase_step tools many (Calling s) bs = calling tools many (s @ bs)"
| "phase_step tools many StoodDown bs = StoodDown"

fun observe_pieces :: "ToolConstraint \<Rightarrow> bytes list \<Rightarrow> ToolConstraint option" where
  "observe_pieces c [] = Some c"
| "observe_pieces c (bs # rest) = do { c \<leftarrow> observe_bytes c bs; observe_pieces c rest }"

definition keep_of :: "ToolSpec list \<Rightarrow> nat" where
  "keep_of tools = fold max (map length (triggers_of tools)) 0 - 1"

definition in_phase :: "ToolSpec list \<Rightarrow> bool \<Rightarrow> Machine \<Rightarrow> Vocab \<Rightarrow> Phase \<Rightarrow> ToolConstraint \<Rightarrow> bool" where
  "in_phase tools many m v ph c \<longleftrightarrow> tc_machine c = m \<and> tc_vocab c = v
     \<and> tc_longest_trigger c = fold max (map length (triggers_of tools)) 0
     \<and> (case ph of
          Idle out \<Rightarrow> \<not> tc_armed c \<and> \<not> tc_broken c \<and> \<not> triggered (triggers_of tools) out
            \<and> tc_tail c = kept_tail (keep_of tools) out
        | Calling s \<Rightarrow> tc_armed c \<and> \<not> tc_broken c \<and> (\<exists>G. running m G (tc_cursors c))
            \<and> lang m (tc_cursors c) = {w. s @ w \<in> tool_calls tools many}
        | StoodDown \<Rightarrow> tc_broken c)"

section \<open>Refinement\<close>

lemma feed_running:
  assumes run: "running m G cs"
  shows "\<exists>out ok. feed m cs u = Some (out, ok) \<and> (ok \<longleftrightarrow> (\<exists>w. u @ w \<in> lang m cs))
    \<and> (ok \<longrightarrow> running m G out \<and> lang m out = {w. u @ w \<in> lang m cs})"
proof -
  have safe: "safe m G" and alive: "\<And>c. G c \<Longrightarrow> eps_next m c = Some None \<Longrightarrow> \<exists>w. acc m c w"
    and cs: "closed m G cs" "cs \<noteq> []" using run by (auto simp: running_def)
  obtain out ok where out: "feed m cs u = Some (out, ok)" "closed m G out"
    and yes: "ok \<Longrightarrow> (\<forall>w. w \<in> lang m out \<longleftrightarrow> u @ w \<in> lang m cs)"
    using feed_residual [OF safe cs(1), of u] by blast
  have "Some ok = Some (\<exists>w. u @ w \<in> lang m cs)"
    using survives_iff [OF run, of u] out(1) by (simp add: survives_feed)
  moreover have "running m G out" if ok
    using run out(2) feed_alive [OF out(1) that cs(2)] by (simp add: running_def)
  moreover have "lang m out = {w. u @ w \<in> lang m cs}" if ok using yes [OF that] by blast
  ultimately show ?thesis using out(1) by blast
qed

lemma observe_armed_calling:
  assumes run: "running m G (tc_cursors c)"
    and lang: "lang m (tc_cursors c) = {w. s @ w \<in> tool_calls tools many}"
    and c: "tc_machine c = m" "tc_vocab c = v" "tc_armed c"
      "tc_longest_trigger c = fold max (map length (triggers_of tools)) 0"
  shows "\<exists>c'. observe_armed c bs = Some c' \<and> in_phase tools many m v (calling tools many (s @ bs)) c'"
proof -
  obtain out ok where out: "feed m (tc_cursors c) bs = Some (out, ok)"
    and ok: "ok \<longleftrightarrow> (\<exists>w. bs @ w \<in> lang m (tc_cursors c))"
    and yes: "ok \<Longrightarrow> running m G out" "ok \<Longrightarrow> lang m out = {w. bs @ w \<in> lang m (tc_cursors c)}"
    using feed_running [OF run, of bs] by blast
  have ok': "ok \<longleftrightarrow> completable tools many (s @ bs)" using ok lang by (simp add: completable_def)
  let ?c = "c\<lparr>tc_cursors := out, tc_broken := \<not> ok\<rparr>"
  have "observe_armed c bs = Some ?c" using out c(1) by (simp add: observe_armed_def)
  moreover have "in_phase tools many m v (calling tools many (s @ bs)) ?c"
  proof (cases ok)
    case True
    then have "lang m out = {w. (s @ bs) @ w \<in> tool_calls tools many}" using yes(2) lang by simp
    then show ?thesis using True yes(1) c ok' by (auto simp: in_phase_def calling_def)
  next
    case False
    then show ?thesis using c ok' by (simp add: in_phase_def calling_def)
  qed
  ultimately show ?thesis by blast
qed

lemma triggers_nonempty: "[] \<notin> set (triggers_of tools)"
  by (auto simp: triggers_of_def)

lemma fold_max: "(a::nat) \<le> fold max xs a \<and> (\<forall>x \<in> set xs. x \<le> fold max xs a)"
proof (induction xs arbitrary: a)
  case (Cons y xs)
  from Cons.IH [of "max y a"] show ?case by auto
qed simp

lemma trigger_fits: "tr \<in> set (triggers_of tools) \<Longrightarrow> length tr \<le> Suc (keep_of tools)"
  using fold_max [of 0 "map length (triggers_of tools)"] by (fastforce simp: keep_of_def)

lemma observe_bytes_phase:
  assumes off: "offered tools" and comp: "compile tools many = Some m" and room: "length (m_states m) \<le> 2 ^ 32"
    and ph: "in_phase tools many m v ph c"
  shows "\<exists>c'. observe_bytes c bs = Some c' \<and> in_phase tools many m v (phase_step tools many ph bs) c'"
proof (cases ph)
  case StoodDown
  then show ?thesis using ph by (simp add: in_phase_def observe_bytes_def)
next
  case (Calling s)
  then obtain G where "running m G (tc_cursors c)"
      "lang m (tc_cursors c) = {w. s @ w \<in> tool_calls tools many}"
    using ph by (auto simp: in_phase_def)
  from observe_armed_calling [OF this, of v bs] show ?thesis
    using ph Calling by (simp add: in_phase_def observe_bytes_def)
next
  case (Idle out)
  let ?trs = "triggers_of tools" and ?keep = "keep_of tools"
  define c1 where "c1 = c\<lparr>tc_tail := tc_tail c @ bs\<rparr>"
  have c: "tc_machine c = m" "tc_vocab c = v" "\<not> tc_armed c" "\<not> tc_broken c" "\<not> triggered ?trs out"
    "tc_longest_trigger c = fold max (map length ?trs) 0"
    and tail: "tc_tail c1 = kept_tail ?keep out @ bs"
    using ph Idle by (auto simp: in_phase_def c1_def)
  have "m_triggers m = ?trs" using comp by (auto simp: compile_def bind_eq_Some_conv split_beta)
  then have trs: "m_triggers (tc_machine c1) = ?trs" using c(1) by (simp add: c1_def)
  note split = split_trigger_found [OF c(5) triggers_nonempty trigger_fits]
  have at: "trigger_at c1 = (if triggered ?trs (out @ bs)
      then Some (first_trigger ?trs (kept_tail ?keep out @ bs)) else None)"
    using trigger_at_correct [OF triggers_nonempty trs] split(1) tail by simp
  show ?thesis
  proof (cases "triggered ?trs (out @ bs)")
    case True
    obtain G cs where "safe m G" "\<forall>c. G c \<longrightarrow> eps_next m c = Some None \<longrightarrow> (\<exists>w. acc m c w)"
      and st: "start m = Some cs" and "closed m G cs" and lang: "lang m cs = tool_calls tools many"
      using compiled_run [OF off comp room] by blast
    moreover obtain w where "w \<in> lang m cs" using lang tool_calls_nonempty [OF off, of many] by blast
    then have "cs \<noteq> []" by (auto simp: lang_def)
    ultimately have run: "running m G cs" by (simp add: running_def)
    let ?s = "drop (first_trigger ?trs (out @ bs)) (out @ bs)"
    let ?c2 = "c1\<lparr>tc_cursors := cs, tc_armed := True, tc_tail := []\<rparr>"
    have "\<exists>c'. observe_armed ?c2 ?s = Some c' \<and> in_phase tools many m v (calling tools many ([] @ ?s)) c'"
      by (rule observe_armed_calling [of m G]) (use run lang c in \<open>simp_all add: c1_def\<close>)
    moreover have "observe_bytes c bs = observe_armed ?c2 ?s"
      using c st at True split(2) tail by (simp add: observe_bytes_def c1_def [symmetric] Let_def)
        (simp add: c1_def)
    ultimately show ?thesis using True Idle by simp
  next
    case False
    let ?c2 = "if ?keep < length (tc_tail c1)
      then c1\<lparr>tc_tail := drop (length (tc_tail c1) - ?keep) (tc_tail c1)\<rparr> else c1"
    have "observe_bytes c bs = Some ?c2"
      using c at False by (simp add: observe_bytes_def c1_def [symmetric] Let_def keep_of_def)
        (simp add: c1_def)
    moreover have "tc_tail ?c2 = kept_tail ?keep (out @ bs)"
      unfolding kept_tail_append [of ?keep out bs] using tail by simp
    ultimately show ?thesis using c False Idle by (auto simp: in_phase_def c1_def)
  qed
qed

lemma new_idle: "in_phase tools many m v (Idle []) (ToolConstraint_new m v)" if "m_triggers m = triggers_of tools"
  using that triggers_nonempty [of tools]
  by (auto simp: in_phase_def ToolConstraint_new_def kept_tail_def triggered_def occurs_at_def)

lemma observe_all_phase:
  assumes "offered tools" and "compile tools many = Some m" and "length (m_states m) \<le> 2 ^ 32"
  shows "in_phase tools many m v ph c \<Longrightarrow> \<exists>c'. observe_pieces c ps = Some c'
    \<and> in_phase tools many m v (foldl (phase_step tools many) ph ps) c'"
proof (induction ps arbitrary: ph c)
  case Nil
  then show ?case by simp
next
  case (Cons bs ps)
  from observe_bytes_phase [OF assms Cons.prems, of bs] Cons.IH show ?case by fastforce
qed

lemma observe_all_new:
  assumes "offered tools" and comp: "compile tools many = Some m" and "length (m_states m) \<le> 2 ^ 32"
  shows "\<exists>c. observe_pieces (ToolConstraint_new m v) ps = Some c
    \<and> in_phase tools many m v (foldl (phase_step tools many) (Idle []) ps) c"
proof -
  have "m_triggers m = triggers_of tools" using comp by (auto simp: compile_def bind_eq_Some_conv split_beta)
  from observe_all_phase [OF assms new_idle [OF this]] show ?thesis .
qed

section \<open>The mask of a constraint\<close>

text \<open>A token may follow the text of a call when it leaves the text completable; a token that ends the
  generation, when the text is a whole call.\<close>

definition admissible :: "ToolSpec list \<Rightarrow> bool \<Rightarrow> bytes list \<Rightarrow> u32 list \<Rightarrow> bytes \<Rightarrow> nat \<Rightarrow> bool" where
  "admissible tools many pieces eogs s t \<longleftrightarrow> t < length pieces
     \<and> (if t \<in> set eogs then s \<in> tool_calls tools many
        else pieces ! t \<noteq> [] \<and> completable tools many (s @ pieces ! t))"

lemma mask_phase:
  assumes off: "offered tools" and comp: "compile tools many = Some m" and room: "length (m_states m) \<le> 2 ^ 32"
    and sz: "sized pieces" and un: "unambiguous pieces eogs"
    and ph: "in_phase tools many m (new_vocab pieces eogs) (Calling s) c"
    and len: "length pieces \<le> length logits"
  shows "\<exists>out. mask_logits neg_inf c logits = Some out \<and> length out = length logits
    \<and> (\<forall>t < length logits. out ! t =
        (if admissible tools many pieces eogs s t then logits ! t else neg_inf))"
proof -
  obtain G where run: "running m G (tc_cursors c)"
    and lang: "lang m (tc_cursors c) = {w. s @ w \<in> tool_calls tools many}"
    using ph by (auto simp: in_phase_def)
  note out = vocab_mask_correct [OF sz un run compiled(2) [OF off comp room] room len, of neg_inf]
  have "mask_logits neg_inf c logits = vocab_mask neg_inf (new_vocab pieces eogs) m (tc_cursors c) logits"
    using ph by (simp add: mask_logits_def is_masking_def in_phase_def)
  moreover have "admits pieces eogs (lang m (tc_cursors c)) t \<longleftrightarrow> admissible tools many pieces eogs s t" for t
    by (simp add: admits_def lang completable_def admissible_def)
  ultimately show ?thesis using out by (simp only:)
qed

lemma piece_new_vocab:
  assumes sz: "sized pieces" and un: "unambiguous pieces eogs"
  shows "piece (new_vocab pieces eogs) t = (if t < length pieces then pieces ! t else [])"
proof -
  define b where "b = fold (add_piece eogs) (enumerate 0 pieces)
      \<lparr>b_children = [[]], b_node_token = [- 1], b_breaking = [],
       b_free_text = free_text_init (length pieces) eogs, b_piece_bytes = [], b_piece_start = []\<rparr>"
  have "marked pieces eogs (length pieces) b" using built(2) [OF sz un] by (simp add: b_def)
  then have pb: "b_piece_bytes b = concat pieces"
    and ps: "b_piece_start b = map (\<lambda>i. length (concat (take i pieces))) [0..<length pieces]"
    by (simp_all add: marked_def)
  have u32: "usize_as_u32 (length (concat pieces)) = length (concat pieces)"
    using sz by (simp add: usize_as_u32_def sized_def)
  have v: "vocab_len (new_vocab pieces eogs) = length pieces" "piece_bytes (new_vocab pieces eogs) = concat pieces"
    "piece_start (new_vocab pieces eogs) = map (\<lambda>i. length (concat (take i pieces))) [0..<Suc (length pieces)]"
    unfolding new_vocab_def b_def [symmetric] using pb ps u32 by (simp_all add: Let_def split_beta)
  show ?thesis
  proof (cases "t < length pieces")
    case True
    have split: "concat pieces = concat (take t pieces) @ pieces ! t @ concat (drop (Suc t) pieces)"
      using True by (metis concat.simps(2) concat_append id_take_nth_drop)
    have "length (concat (take (Suc t) pieces)) = length (concat (take t pieces)) + length (pieces ! t)"
      using True by (simp add: take_Suc_conv_app_nth)
    then have "piece (new_vocab pieces eogs) t = take (length (pieces ! t)) (drop (length (concat (take t pieces))) (concat pieces))"
      using True by (simp add: piece_def v nth_append del: upt_Suc)
    also have "\<dots> = pieces ! t" by (subst split) simp
    finally show ?thesis using True by simp
  next
    case False
    then show ?thesis by (simp add: piece_def v)
  qed
qed

section \<open>Generation under the mask\<close>

text \<open>One token per step: the row of logits is masked, a token that was kept is chosen (by whatever sampler),
  and it is fed back.\<close>

inductive generates :: "'f \<Rightarrow> nat \<Rightarrow> ToolConstraint \<Rightarrow> nat list \<Rightarrow> ToolConstraint \<Rightarrow> bool"
  for neg_inf :: 'f and width :: nat where
  gen_done: "generates neg_inf width c [] c"
| gen_token: "length logits = width \<Longrightarrow> mask_logits neg_inf c logits = Some out \<Longrightarrow> t < width \<Longrightarrow>
    out ! t \<noteq> neg_inf \<Longrightarrow> observe_token c (int t) = Some c1 \<Longrightarrow> generates neg_inf width c1 ts c2 \<Longrightarrow>
    generates neg_inf width c (t # ts) c2"

lemma generates_phase:
  assumes model: "offered tools" "compile tools many = Some m" "length (m_states m) \<le> 2 ^ 32"
    and pieces: "sized pieces" "unambiguous pieces eogs"
  shows "generates neg_inf (length pieces) c ts c' \<Longrightarrow>
    in_phase tools many m (new_vocab pieces eogs) (Calling s) c \<Longrightarrow> set ts \<inter> set eogs = {} \<Longrightarrow>
    in_phase tools many m (new_vocab pieces eogs) (Calling (s @ concat (map ((!) pieces) ts))) c'"
proof (induction arbitrary: s rule: generates.induct)
  case (gen_done c)
  then show ?case by simp
next
  case (gen_token logits c out t c1 ts c2)
  from mask_phase [OF model pieces gen_token.prems(1), of logits neg_inf] gen_token.hyps(1-4)
  have "admissible tools many pieces eogs s t" by (auto split: if_splits)
  then have compl: "completable tools many (s @ pieces ! t)" using gen_token.prems(2) by (simp add: admissible_def)
  have "tc_vocab c = new_vocab pieces eogs" using gen_token.prems(1) by (simp add: in_phase_def)
  then have "observe_bytes c (pieces ! t) = Some c1"
    using gen_token.hyps(3,5) piece_new_vocab [OF pieces] by (simp add: observe_token_def)
  with observe_bytes_phase [OF model gen_token.prems(1), of "pieces ! t"] compl
  have "in_phase tools many m (new_vocab pieces eogs) (Calling (s @ pieces ! t)) c1"
    by (simp add: calling_def)
  from gen_token.IH [OF this] gen_token.prems(2) show ?case by simp
qed

lemma completable_Calling: "in_phase tools many m v (Calling s) c \<Longrightarrow> completable tools many s"
  using feed_running [of m _ "tc_cursors c" "[]"] by (auto simp: in_phase_def completable_def)

section \<open>A concrete vocabulary\<close>

definition flag_pieces :: "bytes list" where
  "flag_pieces = [''<function=f>'', drop 12 flag_call, [nl]]"

lemma flag_call_split: "flag_call = ''<function=f>'' @ drop 12 flag_call"
  by (simp add: flag_call_def open_text_def)

lemma flag_pieces_ok: "sized flag_pieces" "unambiguous flag_pieces [2]"
proof -
  show "sized flag_pieces"
    by (simp add: sized_def flag_pieces_def flag_call_def open_text_def CLOSE_def fin_text_def call_close_def)
  show "unambiguous flag_pieces [2]"
    by (auto simp: unambiguous_def spelt_def flag_pieces_def less_Suc_eq numeral_3_eq_3 flag_call_def open_text_def)
qed

lemma flag_occurs: "triggered (triggers_of [flag_tool]) ''<function=f>''"
    "first_trigger (triggers_of [flag_tool]) ''<function=f>'' = 0"
proof -
  have "occurs_at (triggers_of [flag_tool]) ''<function=f>'' 0"
    by (simp add: occurs_at_def triggers_of_def flag_tool_def)
  then show "triggered (triggers_of [flag_tool]) ''<function=f>''"
    and "first_trigger (triggers_of [flag_tool]) ''<function=f>'' = 0"
    unfolding triggered_def first_trigger_def by (blast, simp add: Least_eq_0)
qed

lemma flag_completable: "completable [flag_tool] many ''<function=f>''" "completable [flag_tool] many flag_call"
  using flag_call_ok [of many] flag_call_split unfolding completable_def by (metis, metis append_Nil2)

lemma flag_phase: "foldl (phase_step [flag_tool] many) (Idle []) [''<function=f>''] = Calling ''<function=f>''"
  by (simp add: flag_occurs calling_def flag_completable)

lemma flag_admissible: "admissible [flag_tool] many flag_pieces [2] ''<function=f>'' 1"
  using flag_completable(2) [of many] flag_call_split
  by (simp add: admissible_def flag_pieces_def) (simp add: flag_call_def open_text_def)

section \<open>Main theorems\<close>

text \<open>C9: The constraint a sequence carries refines the abstract one. Fed any token pieces from its fresh state it
  never panics; it masks exactly while the text from the first trigger on can still become a well-formed
  call, however tokens split that trigger, and stands down for good exactly when it no longer can. The
  bounded tail and the cursor lists forget nothing that matters.\<close>

theorem constraint_refines_phases:
  assumes "offered tools" and "compile tools many = Some m" and "length (m_states m) \<le> 2 ^ 32"
  shows "\<exists>c. observe_pieces (ToolConstraint_new m v) ps = Some c
    \<and> (is_masking c \<longleftrightarrow> (\<exists>s. foldl (phase_step tools many) (Idle []) ps = Calling s))
    \<and> (tc_broken c \<longleftrightarrow> foldl (phase_step tools many) (Idle []) ps = StoodDown)"
proof -
  obtain c where "observe_pieces (ToolConstraint_new m v) ps = Some c"
    and ph: "in_phase tools many m v (foldl (phase_step tools many) (Idle []) ps) c"
    using observe_all_new [OF assms] by blast
  moreover have "(is_masking c \<longleftrightarrow> (\<exists>s. foldl (phase_step tools many) (Idle []) ps = Calling s))
      \<and> (tc_broken c \<longleftrightarrow> foldl (phase_step tools many) (Idle []) ps = StoodDown)"
    using ph by (cases "foldl (phase_step tools many) (Idle []) ps") (auto simp: in_phase_def is_masking_def)
  ultimately show ?thesis by blast
qed

theorem constraint_refines_phases_witness:
  "\<exists>m c. compile [flag_tool] False = Some m
     \<and> observe_pieces (ToolConstraint_new m (new_vocab flag_pieces [2])) [''<function=f>''] = Some c \<and> is_masking c"
proof -
  obtain m where m: "compile [flag_tool] False = Some m" using compile_total by blast
  from constraint_refines_phases [OF flag_offered m flag_machine_small [OF m],
      of "new_vocab flag_pieces [2]" "[''<function=f>'']"] m
  show ?thesis unfolding flag_phase by blast
qed

text \<open>C8: While a call is being written the mask is exact: a token keeps its logit precisely when its bytes leave
  the text completable to a well-formed call, an end-of-generation token precisely when the text is one,
  and every other entry of the row, its padding included, becomes negative infinity. The vocabulary has
  at most \<open>2 ^ 31\<close> tokens, no two spelt alike.\<close>

theorem mask_keeps_admissible_tokens:
  assumes "offered tools" and "compile tools many = Some m" and "length (m_states m) \<le> 2 ^ 32"
    and "sized pieces" and "unambiguous pieces eogs" and "length pieces \<le> length logits"
    and obs: "observe_pieces (ToolConstraint_new m (new_vocab pieces eogs)) ps = Some c"
    and ph: "foldl (phase_step tools many) (Idle []) ps = Calling s"
  shows "\<exists>out. mask_logits neg_inf c logits = Some out \<and> length out = length logits
    \<and> (\<forall>t < length logits. out ! t = (if admissible tools many pieces eogs s t then logits ! t else neg_inf))"
proof -
  have "in_phase tools many m (new_vocab pieces eogs) (Calling s) c"
    using observe_all_new [OF assms(1-3), of "new_vocab pieces eogs" ps] obs ph by auto
  from mask_phase [OF assms(1-5) this assms(6)] show ?thesis .
qed

theorem mask_keeps_admissible_tokens_witness:
  "\<exists>m c out. compile [flag_tool] False = Some m
     \<and> observe_pieces (ToolConstraint_new m (new_vocab flag_pieces [2])) [''<function=f>''] = Some c
     \<and> mask_logits (0::nat) c [5, 6, 7] = Some out \<and> out ! 1 = 6"
proof -
  obtain m where m: "compile [flag_tool] False = Some m" using compile_total by blast
  note model = flag_offered m flag_machine_small [OF m]
  obtain c where c: "observe_pieces (ToolConstraint_new m (new_vocab flag_pieces [2])) [''<function=f>''] = Some c"
    using observe_all_new [OF model] by blast
  have len: "length flag_pieces \<le> length [5, 6, 7::nat]" by (simp add: flag_pieces_def)
  obtain out where out: "mask_logits 0 c [5, 6, 7::nat] = Some out"
    and at: "\<And>t. t < length [5, 6, 7::nat] \<Longrightarrow> out ! t =
      (if admissible [flag_tool] False flag_pieces [2] ''<function=f>'' t then [5, 6, 7] ! t else 0)"
    using mask_keeps_admissible_tokens [OF model flag_pieces_ok len c flag_phase, of 0] by blast
  have "out ! 1 = 6" using at [of 1] flag_admissible by simp
  then show ?thesis using m c out by blast
qed

text \<open>C2: Generation under the mask ends in a well-formed call. However the sampler chooses, as long as each token
  was kept by the mask the constraint never stands down, the text stays completable, and an
  end-of-generation token is kept exactly when the text from the trigger on is a well-formed call.\<close>

theorem constrained_generation_ends_in_a_call:
  assumes "offered tools" and "compile tools many = Some m" and "length (m_states m) \<le> 2 ^ 32"
    and "sized pieces" and "unambiguous pieces eogs"
    and obs: "observe_pieces (ToolConstraint_new m (new_vocab pieces eogs)) ps = Some c"
    and ph: "foldl (phase_step tools many) (Idle []) ps = Calling s"
    and gen: "generates neg_inf (length pieces) c ts c'" and ts: "set ts \<inter> set eogs = {}"
    and row: "length logits = length pieces" "e \<in> set eogs" "e < length pieces" "logits ! e \<noteq> neg_inf"
  shows "is_masking c' \<and> completable tools many (s @ concat (map ((!) pieces) ts))
    \<and> (\<exists>out. mask_logits neg_inf c' logits = Some out
      \<and> (out ! e \<noteq> neg_inf \<longleftrightarrow> s @ concat (map ((!) pieces) ts) \<in> tool_calls tools many))"
proof -
  let ?s = "s @ concat (map ((!) pieces) ts)"
  have "in_phase tools many m (new_vocab pieces eogs) (Calling s) c"
    using observe_all_new [OF assms(1-3), of "new_vocab pieces eogs" ps] obs ph by auto
  then have ph': "in_phase tools many m (new_vocab pieces eogs) (Calling ?s) c'"
    using generates_phase [OF assms(1-5) gen _ ts] by blast
  have "\<exists>out. mask_logits neg_inf c' logits = Some out \<and> (out ! e \<noteq> neg_inf \<longleftrightarrow> ?s \<in> tool_calls tools many)"
    using mask_phase [OF assms(1-5) ph', of logits neg_inf] row by (auto simp: admissible_def)
  moreover have "is_masking c'" using ph' by (simp add: in_phase_def is_masking_def)
  ultimately show ?thesis using completable_Calling [OF ph'] by blast
qed

theorem constrained_generation_ends_in_a_call_witness:
  "\<exists>m c c' out. compile [flag_tool] False = Some m
     \<and> observe_pieces (ToolConstraint_new m (new_vocab flag_pieces [2])) [''<function=f>''] = Some c
     \<and> generates (0::nat) 3 c [1] c' \<and> mask_logits (0::nat) c' [1, 1, 1] = Some out \<and> out ! 2 \<noteq> 0"
proof -
  obtain m where m: "compile [flag_tool] False = Some m" using compile_total by blast
  note model = flag_offered m flag_machine_small [OF m]
  let ?v = "new_vocab flag_pieces [2]"
  obtain c where c: "observe_pieces (ToolConstraint_new m ?v) [''<function=f>''] = Some c"
    and ph: "in_phase [flag_tool] False m ?v (Calling ''<function=f>'') c"
    using observe_all_new [OF model, of ?v "[''<function=f>'']"] flag_phase by auto
  have width: "length flag_pieces = 3" by (simp add: flag_pieces_def)
  have len: "length flag_pieces \<le> length [1, 1, 1::nat]" by (simp add: width)
  obtain out where out: "mask_logits 0 c [1, 1, 1::nat] = Some out"
    and at: "\<And>t. t < length [1, 1, 1::nat] \<Longrightarrow> out ! t =
      (if admissible [flag_tool] False flag_pieces [2] ''<function=f>'' t then [1, 1, 1] ! t else 0)"
    using mask_phase [OF model flag_pieces_ok ph len, of 0] by blast
  have kept: "out ! 1 = 1" using at [of 1] flag_admissible by simp
  obtain c' where "observe_bytes c (flag_pieces ! 1) = Some c'"
    using observe_bytes_phase [OF model ph] by blast
  then have "observe_token c (int 1) = Some c'"
    using ph piece_new_vocab [OF flag_pieces_ok] width by (simp add: observe_token_def in_phase_def)
  then have gen: "generates (0::nat) (length flag_pieces) c [1] c'"
    using kept width by (intro generates.gen_token [OF _ out _ _ _ generates.gen_done]) simp_all
  have "''<function=f>'' @ concat (map ((!) flag_pieces) [1]) = flag_call"
    using flag_call_split by (simp add: flag_pieces_def)
  moreover have "set [1::nat] \<inter> set [2] = {}" "length [1, 1, 1::nat] = length flag_pieces" "(2::nat) \<in> set [2]"
    "2 < length flag_pieces" "[1, 1, 1] ! 2 \<noteq> (0::nat)" by (simp_all add: width)
  note constrained_generation_ends_in_a_call [OF model flag_pieces_ok c flag_phase gen this]
  ultimately have "\<exists>out. mask_logits 0 c' [1, 1, 1::nat] = Some out \<and> out ! 2 \<noteq> 0"
    using flag_call_ok by simp
  then show ?thesis using m c gen [unfolded width] by blast
qed

end
