(* ===== verification/MoeDispatch.thy ===== *)
theory MoeDispatch
  imports Prelude "HOL-Library.Monad_Syntax"
begin

text \<open>
  Expert dispatch (\<open>xabe-kernels/src/moe/dispatch.rs\<close>): the per-token expert choices of a batch are turned
  into contiguous runs, one per expert, padded to the tile width of the grouped matrix product. The code
  is a counting sort: count, pad, prefix sum, scatter. It is shown equal to the plain grouping it means.
\<close>

section \<open>Dispatch tables\<close>

record MoeDispatch =
  sorted_token_ids :: "u32 list"
  expert_ids :: "i32 list"
  num_tokens_post_pad :: usize

definition padding_sentinel :: "usize \<Rightarrow> usize \<Rightarrow> u32" where
  "padding_sentinel num_tokens top_k = wmul 64 num_tokens top_k mod 2 ^ 32"

definition INACTIVE_EXPERT :: i32 where
  "INACTIVE_EXPERT = - 1"

definition count_experts :: "usize \<Rightarrow> u32 list \<Rightarrow> u32 list" where
  "count_experts num_experts flat =
    fold (\<lambda>e counts. counts[e := wadd 32 (counts ! e) 1]) flat (replicate num_experts 0)"

definition padded_count :: "usize \<Rightarrow> u32 \<Rightarrow> u32" where
  "padded_count block_size c = wmul 32 (div_ceil c (block_size mod 2 ^ 32)) (block_size mod 2 ^ 32)"

definition prefix_sums :: "usize \<Rightarrow> u32 list \<Rightarrow> u32 list" where
  "prefix_sums num_experts padded =
    fold (\<lambda>e cumsum. cumsum[e + 1 := wadd 32 (cumsum ! e) (padded ! e)]) [0..<num_experts]
      (replicate (num_experts + 1) 0)"

text \<open>The scatter; writing past the end of the table is a panic.\<close>

fun scatter :: "u32 list \<Rightarrow> (usize \<times> u32) list \<Rightarrow> u32 list \<Rightarrow> u32 list \<Rightarrow> u32 list option" where
  "scatter cumsum [] ids running = Some ids"
| "scatter cumsum ((flat_idx, e) # rest) ids running =
    (let slot = wadd 32 (cumsum ! e) (running ! e)
     in if slot < length ids
        then scatter cumsum rest (ids[slot := flat_idx mod 2 ^ 32]) (running[e := wadd 32 (running ! e) 1])
        else None)"

definition fill_expert :: "usize \<Rightarrow> u32 list \<Rightarrow> usize \<Rightarrow> i32 list \<Rightarrow> i32 list" where
  "fill_expert block_size cumsum e ids =
    (let first_block = cumsum ! e div block_size; last_block = cumsum ! (e + 1) div block_size
     in map (\<lambda>(i, b). if first_block \<le> i \<and> i < last_block then as_i32 e else b) (enumerate 0 ids))"

definition moe_align_block_size :: "u32 list list \<Rightarrow> usize \<Rightarrow> usize \<Rightarrow> MoeDispatch option" where
  "moe_align_block_size topk block_size num_experts =
    (let num_tokens = length topk;
         top_k = (case topk of [] \<Rightarrow> 0 | row # _ \<Rightarrow> length row);
         flat = concat topk
     in if block_size = 0 \<or> \<not> list_all (\<lambda>row. length row = top_k) topk
           \<or> \<not> list_all (\<lambda>e. e < num_experts) flat
           \<or> (0 < num_experts \<and> block_size mod 2 ^ 32 = 0)
        then None
        else
          (let counts = count_experts num_experts flat;
               padded_counts = map (padded_count block_size) counts;
               cumsum = prefix_sums num_experts padded_counts;
               post_pad = cumsum ! num_experts;
               sentinel = padding_sentinel num_tokens top_k
           in do {
             token_ids \<leftarrow> scatter cumsum (enumerate 0 flat) (replicate post_pad sentinel) (replicate num_experts 0);
             let ids = fold (fill_expert block_size cumsum) [0..<num_experts]
               (replicate (post_pad div block_size) INACTIVE_EXPERT);
             Some \<lparr>sorted_token_ids = token_ids, expert_ids = ids, num_tokens_post_pad = post_pad\<rparr>
           }))"

section \<open>The grouping it means\<close>

definition run_of :: "nat list \<Rightarrow> nat \<Rightarrow> nat list" where
  "run_of flat e = filter (\<lambda>i. flat ! i = e) [0..<length flat]"

definition laid_out :: "nat \<Rightarrow> nat \<Rightarrow> (nat \<Rightarrow> nat) \<Rightarrow> nat list \<Rightarrow> nat list" where
  "laid_out n sentinel room flat =
    concat (map (\<lambda>e. run_of flat e @ replicate (room e - length (run_of flat e)) sentinel) [0..<n])"

lemma run_of_snoc: "run_of (flat @ [x]) e = run_of flat e @ (if x = e then [length flat] else [])"
proof -
  have "filter (\<lambda>i. (flat @ [x]) ! i = e) [0..<length flat] = run_of flat e"
    unfolding run_of_def by (rule filter_cong) (simp_all add: nth_append)
  then show ?thesis by (simp add: run_of_def)
qed

lemma length_run_of: "length (run_of flat e) = count_list flat e"
proof (induction flat rule: rev_induct)
  case Nil
  then show ?case by (simp add: run_of_def)
next
  case (snoc x flat)
  then show ?case by (simp add: run_of_snoc)
qed

lemma count_experts_eq:
  "length flat < 2 ^ 32 \<Longrightarrow> \<forall>e \<in> set flat. e < n \<Longrightarrow> count_experts n flat = map (count_list flat) [0..<n]"
proof (induction flat rule: rev_induct)
  case Nil
  then show ?case by (simp add: count_experts_def map_replicate_const)
next
  case (snoc x flat)
  have "count_list flat x + 1 < 2 ^ 32" using snoc.prems(1) count_le_length [of flat x] by simp
  moreover have "count_experts n (flat @ [x]) =
      (count_experts n flat)[x := wadd 32 (count_experts n flat ! x) 1]" by (simp add: count_experts_def)
  ultimately show ?case using snoc by (auto simp: nowrap intro!: nth_equalityI simp: nth_list_update)
qed

lemma prefix_sums_eq:
  assumes "sum_list padded < 2 ^ 32" and len: "length padded = n"
  shows "prefix_sums n padded = map (\<lambda>e. sum_list (take e padded)) [0..<Suc n]"
proof -
  define F where "F m = fold (\<lambda>e cumsum. cumsum[e + 1 := wadd 32 (cumsum ! e) (padded ! e)]) [0..<m]
    (replicate (n + 1) 0)" for m
  have F_Suc: "F (Suc m) = (F m)[m + 1 := wadd 32 (F m ! m) (padded ! m)]" for m by (simp add: F_def)
  have "m \<le> n \<Longrightarrow> F m = map (\<lambda>e. if e \<le> m then sum_list (take e padded) else 0) [0..<Suc n]" for m
  proof (induction m)
    case 0
    show ?case by (auto intro!: nth_equalityI simp: F_def simp del: upt_Suc replicate_Suc)
  next
    case (Suc m)
    have m: "m < length padded" using Suc.prems len by simp
    have "sum_list (take m padded) + padded ! m = sum_list (take (Suc m) padded)"
      using m by (simp add: take_Suc_conv_app_nth)
    moreover have "sum_list (take (Suc m) padded) \<le> sum_list padded"
      by (metis append_take_drop_id le_add1 sum_list_append)
    ultimately have "wadd 32 (sum_list (take m padded)) (padded ! m) = sum_list (take (Suc m) padded)"
      using assms(1) by (simp add: nowrap)
    then show ?case using Suc F_Suc [of m]
      by (auto intro!: nth_equalityI simp: nth_list_update le_Suc_eq simp del: upt_Suc)
  qed
  from this [of n] show ?thesis unfolding prefix_sums_def F_def [symmetric] by (simp cong: map_cong)
qed

text \<open>A write into the table lands in one expert's stretch.\<close>

lemma concat_update:
  assumes e: "e < n" and r: "r < length (f e)"
  shows "(concat (map f [0..<n]))[(\<Sum>i<e. length (f i)) + r := v] = concat (map (f(e := (f e)[r := v])) [0..<n])"
    and "(\<Sum>i<e. length (f i)) + r < length (concat (map f [0..<n]))"
proof -
  have split: "[0..<n] = [0..<e] @ e # [Suc e..<n]"
    using e by (metis less_imp_le_nat upt_add_eq_append upt_conv_Cons le0 le_add_diff_inverse)
  have len: "length (concat (map f [0..<e])) = (\<Sum>i<e. length (f i))"
    by (simp add: length_concat comp_def sum_list_sum_nth atLeast0LessThan)
  show "(concat (map f [0..<n]))[(\<Sum>i<e. length (f i)) + r := v] = concat (map (f(e := (f e)[r := v])) [0..<n])"
    unfolding split using r by (simp add: list_update_append len [symmetric])
  show "(\<Sum>i<e. length (f i)) + r < length (concat (map f [0..<n]))"
    unfolding split using r by (simp add: len)
qed

lemma scatter_eq:
  assumes cum: "\<forall>e < n. cumsum ! e = (\<Sum>i<e. room i)" and small: "(\<Sum>i<n. room i) < 2 ^ 32"
  shows "\<forall>e < n. count_list (pre @ rest) e \<le> room e \<Longrightarrow> \<forall>e \<in> set rest. e < n \<Longrightarrow> length (pre @ rest) < 2 ^ 32 \<Longrightarrow>
    scatter cumsum (enumerate (length pre) rest) (laid_out n sentinel room pre) (map (count_list pre) [0..<n])
      = Some (laid_out n sentinel room (pre @ rest))"
proof (induction rest arbitrary: pre)
  case Nil
  then show ?case by simp
next
  case (Cons e rest)
  let ?f = "\<lambda>e. run_of pre e @ replicate (room e - length (run_of pre e)) sentinel"
  let ?r = "count_list pre e"
  have e: "e < n" using Cons.prems(2) by simp
  have len: "length (?f i) = room i" if "i < n" for i
    using Cons.prems(1) that by (auto simp: length_run_of dest!: spec [of _ i])
  have r: "?r < room e" using Cons.prems(1) e by (auto dest!: spec [of _ e])
  have sums: "(\<Sum>i<e. length (?f i)) = (\<Sum>i<e. room i)" using e len by (intro sum.cong) auto
  have r': "?r < length (?f e)" using r len [OF e] by (simp only:)
  obtain k where k: "room e = ?r + Suc k" using r by (metis add_Suc_right less_iff_Suc_add)
  have at: "(?f e)[?r := length pre] = run_of (pre @ [e]) e @ replicate (room e - length (run_of (pre @ [e]) e)) sentinel"
    by (simp add: k run_of_snoc length_run_of list_update_append)
  have upd: "(laid_out n sentinel room pre)[(\<Sum>i<e. room i) + ?r := length pre] = laid_out n sentinel room (pre @ [e])"
    using concat_update(1) [of e n ?r ?f, OF e r', of "length pre"] unfolding sums laid_out_def at
    by (simp only: fun_upd_def) (rule arg_cong [where f = concat], simp add: run_of_snoc)
  have slot: "(\<Sum>i<e. room i) + ?r < length (laid_out n sentinel room pre)"
    using concat_update(2) [of e n ?r ?f, OF e r'] unfolding sums laid_out_def .
  have "length (laid_out n sentinel room pre) = (\<Sum>i<n. room i)"
    using len by (simp add: laid_out_def length_concat comp_def sum_list_sum_nth atLeast0LessThan)
  then have wrap: "(\<Sum>i<e. room i) + ?r < 2 ^ 32" "?r + 1 < 2 ^ 32" using slot small r Cons.prems(3)
    count_le_length [of pre e] by auto
  define counts where "counts = map (count_list (pre @ [e])) [0..<n]"
  have cnt: "(map (count_list pre) [0..<n])[e := Suc ?r] = counts"
    by (auto intro!: nth_equalityI simp: nth_list_update e counts_def)
  have "scatter cumsum (enumerate (length (pre @ [e])) rest) (laid_out n sentinel room (pre @ [e])) counts
      = Some (laid_out n sentinel room ((pre @ [e]) @ rest))"
    unfolding counts_def by (rule Cons.IH) (use Cons.prems in auto)
  then show ?case using Cons.prems(3) cum e slot wrap upd cnt by (simp add: Let_def nowrap)
qed

lemma fill_experts_eq:
  assumes small: "n \<le> 2 ^ 31" and cum: "\<forall>e \<le> n. cumsum ! e = (\<Sum>i<e. blocks i) * b" and b: "0 < b"
  shows "m \<le> n \<Longrightarrow> fold (fill_expert b cumsum) [0..<m] (replicate (\<Sum>i<n. blocks i) INACTIVE_EXPERT)
    = concat (map (\<lambda>e. replicate (blocks e) (int e)) [0..<m])
      @ replicate ((\<Sum>i<n. blocks i) - (\<Sum>i<m. blocks i)) INACTIVE_EXPERT"
proof (induction m)
  case 0
  then show ?case by simp
next
  case (Suc m)
  let ?done = "concat (map (\<lambda>e. replicate (blocks e) (int e)) [0..<m])"
  have len: "length ?done = (\<Sum>i<m. blocks i)"
    by (simp add: length_concat comp_def sum_list_sum_nth atLeast0LessThan)
  have "(\<Sum>i<Suc m. blocks i) \<le> (\<Sum>i<n. blocks i)" using Suc.prems by (intro sum_mono2) auto
  then obtain k where k: "(\<Sum>i<n. blocks i) = (\<Sum>i<m. blocks i) + blocks m + k"
    by (metis le_Suc_ex lessThan_Suc sum.lessThan_Suc)
  have ends: "cumsum ! m div b = (\<Sum>i<m. blocks i)" "cumsum ! Suc m div b = (\<Sum>i<m. blocks i) + blocks m"
    using cum Suc.prems b by (auto simp: sum.lessThan_Suc)
  have "fill_expert b cumsum m (?done @ replicate (blocks m + k) INACTIVE_EXPERT)
      = ?done @ replicate (blocks m) (int m) @ replicate k INACTIVE_EXPERT"
    using Suc.prems small by (intro nth_equalityI) (auto simp: fill_expert_def ends len nth_enumerate_eq nth_append as_i32_def)
  then show ?case using Suc k by simp
qed

section \<open>The tables are the grouping\<close>

definition block_count :: "nat \<Rightarrow> nat list \<Rightarrow> nat \<Rightarrow> nat" where
  "block_count b flat e = div_ceil (length (run_of flat e)) b"

definition grouped :: "u32 list list \<Rightarrow> nat \<Rightarrow> nat \<Rightarrow> MoeDispatch" where
  "grouped topk b n =
    (let flat = concat topk
     in \<lparr>sorted_token_ids = concat (map (\<lambda>e. run_of flat e
            @ replicate (block_count b flat e * b - length (run_of flat e)) (length flat)) [0..<n]),
         expert_ids = concat (map (\<lambda>e. replicate (block_count b flat e) (int e)) [0..<n]),
         num_tokens_post_pad = (\<Sum>e<n. block_count b flat e) * b\<rparr>)"

lemma sum_counts: "\<forall>e \<in> set flat. e < n \<Longrightarrow> (\<Sum>e<n. count_list flat e) = length flat" for flat :: "nat list"
  by (rule sum_count_set) auto

lemma padded_total:
  assumes "0 < b" and "\<forall>e \<in> set flat. e < n"
  shows "(\<Sum>e<n. block_count b flat e) * b \<le> length flat + n * b"
proof -
  have "block_count b flat e * b \<le> count_list flat e + b" for e
    using div_ceil_bounds(2) [OF assms(1), of "count_list flat e"] by (simp add: block_count_def length_run_of)
  then have "(\<Sum>e<n. block_count b flat e * b) \<le> (\<Sum>e<n. count_list flat e + b)" by (intro sum_mono)
  then show ?thesis using sum_counts [OF assms(2)] by (simp add: sum_distrib_right sum.distrib)
qed

lemma concat_length: "\<forall>row \<in> set rows. length row = k \<Longrightarrow> length (concat rows) = length rows * k"
  by (induction rows) auto

lemma sum_list_take_map: "e \<le> n \<Longrightarrow> sum_list (take e (map f [0..<n])) = (\<Sum>i<e. f i)" for f :: "nat \<Rightarrow> nat"
  by (simp add: take_map sum_list_sum_nth atLeast0LessThan min_def)

section \<open>Main theorem\<close>

text \<open>C27: Expert dispatch is a grouping. For any routing decisions of a batch with every expert in range, the
  counting sort returns, without a panic, the runs of the experts in expert order: within a run every flat
  (token, choice) index routed to that expert, ascending and exactly once, then padding up to a multiple
  of the block; an expert with no token takes no block; and the block table names the owner of each block.
  Bounds: the padded table stays below \<open>2 ^ 32\<close> entries,
  and there are at most \<open>2 ^ 31\<close> experts.\<close>

theorem moe_dispatch_is_grouping:
  assumes b: "0 < b" and rows: "\<forall>row \<in> set topk. length row = k" and range: "\<forall>e \<in> set (concat topk). e < n"
    and room: "length (concat topk) + n * b < 2 ^ 32" "b < 2 ^ 32" "n \<le> 2 ^ 31"
  shows "moe_align_block_size topk b n = Some (grouped topk b n)"
proof -
  define flat where "flat = concat topk"
  define blocks where "blocks = block_count b flat"
  define pads where "pads e = blocks e * b" for e
  have flat: "length flat < 2 ^ 32" "\<forall>e \<in> set flat. e < n" using room range by (auto simp: flat_def)
  have total_eq: "(\<Sum>e<m. pads e) = (\<Sum>e<m. blocks e) * b" for m by (simp add: pads_def sum_distrib_right)
  have small: "(\<Sum>e<n. pads e) < 2 ^ 32"
    using padded_total [OF b flat(2)] room(1) by (simp add: total_eq blocks_def flat_def)
  have "padded_count b (count_list flat e) = pads e" if "e < n" for e
  proof -
    have "pads e \<le> (\<Sum>e<n. pads e)" using that by (intro member_le_sum) auto
    then show ?thesis using small room(2)
      by (simp add: padded_count_def pads_def blocks_def block_count_def length_run_of nowrap)
  qed
  then have padded: "map (padded_count b) (count_experts n flat) = map pads [0..<n]"
    using count_experts_eq [OF flat] by simp
  have "sum_list (map pads [0..<n]) = (\<Sum>e<n. pads e)" by (simp add: sum_list_sum_nth atLeast0LessThan)
  then have cumsum: "prefix_sums n (map pads [0..<n]) = map (\<lambda>e. \<Sum>i<e. pads i) [0..<Suc n]"
    using prefix_sums_eq [of "map pads [0..<n]" n] small by (simp add: sum_list_take_map del: upt_Suc)
  have fits: "count_list flat e \<le> pads e" for e
    using div_ceil_bounds(1) [OF b, of "count_list flat e"]
    by (simp add: pads_def blocks_def block_count_def length_run_of)
  have start: "laid_out n s pads [] = replicate (\<Sum>e<n. pads e) s" for s
    by (induction n) (simp_all add: laid_out_def run_of_def replicate_add)
  have zeros: "map (count_list []) [0..<n] = replicate n 0" by (auto intro!: nth_equalityI)
  have scat: "scatter (map (\<lambda>e. \<Sum>i<e. pads i) [0..<Suc n]) (enumerate 0 flat) (replicate (\<Sum>e<n. pads e) s)
      (replicate n 0) = Some (laid_out n s pads flat)" for s
    using scatter_eq [of n "map (\<lambda>e. \<Sum>i<e. pads i) [0..<Suc n]" pads "[]" flat s] small fits flat
    by (simp add: start zeros del: upt_Suc)
  have fill: "fold (fill_expert b (map (\<lambda>e. \<Sum>i<e. pads i) [0..<Suc n])) [0..<n]
      (replicate (\<Sum>i<n. blocks i) INACTIVE_EXPERT) = concat (map (\<lambda>e. replicate (blocks e) (int e)) [0..<n])"
    using fill_experts_eq [OF room(3), of "map (\<lambda>e. \<Sum>i<e. pads i) [0..<Suc n]" blocks b n] b total_eq
    by (simp del: upt_Suc)
  have k: "case_list 0 (\<lambda>row _. length row) topk = k \<or> topk = []" using rows by (cases topk) auto
  then have guard: "list_all (\<lambda>row. length row = case_list 0 (\<lambda>row _. length row) topk) topk"
    "list_all (\<lambda>e. e < n) flat" using rows flat(2) by (auto simp: list_all_iff)
  have sent: "padding_sentinel (length topk) (case_list 0 (\<lambda>row _. length row) topk) = length flat"
    using k concat_length [OF rows] flat(1) by (auto simp: padding_sentinel_def flat_def wmul_def)
  show ?thesis
    unfolding moe_align_block_size_def grouped_def Let_def flat_def [symmetric] padded cumsum sent
    using b room(2) guard scat fill total_eq [of n]
    by (simp add: laid_out_def pads_def blocks_def del: upt_Suc)
qed

theorem moe_dispatch_is_grouping_witness:
  "moe_align_block_size [[2, 3, 4], [1, 2, 4], [1, 3, 4], [1, 2, 3]] 4 5 =
    Some \<lparr>sorted_token_ids = [3, 6, 9, 12, 0, 4, 10, 12, 1, 7, 11, 12, 2, 5, 8, 12],
      expert_ids = [1, 2, 3, 4], num_tokens_post_pad = 16\<rparr>"
proof -
  let ?topk = "[[2, 3, 4], [1, 2, 4], [1, 3, 4], [1, 2, 3]] :: nat list list"
  have "moe_align_block_size ?topk 4 5 = Some (grouped ?topk 4 5)"
    by (rule moe_dispatch_is_grouping [where k = 3]) auto
  moreover have "grouped ?topk 4 5 =
      \<lparr>sorted_token_ids = [3, 6, 9, 12, 0, 4, 10, 12, 1, 7, 11, 12, 2, 5, 8, 12],
        expert_ids = [1, 2, 3, 4], num_tokens_post_pad = 16\<rparr>"
    by code_simp
  ultimately show ?thesis by simp
qed

end
