(* ===== verification/Gguf.thy ===== *)
theory Gguf
  imports Prelude "HOL-Library.Word"
begin

text \<open>
  The model container (\<open>xabe-gguf/src\<close>: \<open>types.rs\<close>, \<open>value.rs\<close>, \<open>tensor.rs\<close>, \<open>error.rs\<close>, \<open>reader.rs\<close>,
  \<open>file.rs\<close>): the bounds-checked cursor, the metadata store, the tensor directory, and the checks made
  before any tensor is handed out. A file is its bytes, each a number below 256; a string is its UTF-8
  bytes; a float is its bit pattern. Opening and memory-mapping the file is input/output and left out.
\<close>

unbundle bit_operations_syntax

type_synonym u8s = "u8 list"

section \<open>Element types\<close>

datatype GgmlType = T_F32 | T_F16 | T_Q4_0 | T_Q8_0 | T_Q4K | T_Q5K | T_Q6K | T_Bf16

fun block_size :: "GgmlType \<Rightarrow> u64" where
  "block_size T_F32 = 1" | "block_size T_F16 = 1" | "block_size T_Bf16 = 1"
| "block_size T_Q4_0 = 32" | "block_size T_Q8_0 = 32"
| "block_size T_Q4K = 256" | "block_size T_Q5K = 256" | "block_size T_Q6K = 256"

fun type_size :: "GgmlType \<Rightarrow> u64" where
  "type_size T_F32 = 4" | "type_size T_F16 = 2" | "type_size T_Bf16 = 2"
| "type_size T_Q4_0 = 18" | "type_size T_Q8_0 = 34"
| "type_size T_Q4K = 144" | "type_size T_Q5K = 176" | "type_size T_Q6K = 210"

datatype GgufError =
    BadMagic u8s
  | UnsupportedVersion u32
  | UnexpectedEof string u64
  | InvalidUtf8 u8s
  | NegativeCount string i64
  | DuplicateKey u8s
  | UnknownValueType i32
  | NestedArray
  | BadAlignmentType
  | BadAlignment u32
  | TooManyDimensions u8s u32
  | ZeroDimension u8s
  | DuplicateTensor u8s
  | UnsupportedGgmlType i32
  | UnalignedElementCount u8s GgmlType u64 u64
  | OffsetOverflow u8s
  | TensorOutOfBounds u8s u64 u64 u64

definition bytes_for_elements :: "GgmlType \<Rightarrow> u64 \<Rightarrow> GgufError + u64" where
  "bytes_for_elements ty n =
    (if \<not> is_multiple_of n (block_size ty) then Inl (UnalignedElementCount [] ty n (block_size ty))
     else Inr (wmul 64 (n div block_size ty) (type_size ty)))"

definition ggml_try_from :: "i32 \<Rightarrow> GgufError + GgmlType" where
  "ggml_try_from raw =
    (if raw = 0 then Inr T_F32 else if raw = 1 then Inr T_F16 else if raw = 2 then Inr T_Q4_0
     else if raw = 8 then Inr T_Q8_0 else if raw = 12 then Inr T_Q4K else if raw = 13 then Inr T_Q5K
     else if raw = 14 then Inr T_Q6K else if raw = 30 then Inr T_Bf16
     else Inl (UnsupportedGgmlType raw))"

section \<open>Values and tensors\<close>

datatype GgufArray =
    AU8 "u8 list" | AI8 "int list" | AU16 "u16 list" | AI16 "int list" | AU32 "u32 list" | AI32 "i32 list"
  | AF32 "u32 list" | ABool "bool list" | AString "u8s list" | AU64 "u64 list" | AI64 "i64 list" | AF64 "u64 list"

datatype GgufValue =
    VU8 u8 | VI8 int | VU16 u16 | VI16 int | VU32 u32 | VI32 i32 | VF32 u32 | VBool bool | VString u8s
  | VU64 u64 | VI64 i64 | VF64 u64 | VArray GgufArray

record TensorInfo =
  ti_name :: u8s
  ti_dims :: "u64 list"
  ti_type :: GgmlType
  ti_offset :: u64
  ti_n_elements :: u64
  ti_n_bytes :: u64

section \<open>The cursor\<close>

record ByteCursor =
  c_data :: u8s
  c_pos :: usize

definition remaining :: "ByteCursor \<Rightarrow> usize" where
  "remaining cur = length (c_data cur) - c_pos cur"

definition cur_take :: "ByteCursor \<Rightarrow> usize \<Rightarrow> string \<Rightarrow> GgufError + (u8s \<times> ByteCursor)" where
  "cur_take cur n ctx =
    (if remaining cur < n then Inl (UnexpectedEof ctx (c_pos cur))
     else Inr (take n (drop (c_pos cur) (c_data cur)), cur\<lparr>c_pos := c_pos cur + n\<rparr>))"

text \<open>\<open>from_le_bytes\<close>, unsigned and two's complement.\<close>

fun from_le :: "u8s \<Rightarrow> nat" where
  "from_le [] = 0"
| "from_le (b # bs) = b + 256 * from_le bs"

definition signed :: "nat \<Rightarrow> nat \<Rightarrow> int" where
  "signed w n = (if n < 2 ^ (w - 1) then int n else int n - 2 ^ w)"

definition rd_uint :: "nat \<Rightarrow> string \<Rightarrow> ByteCursor \<Rightarrow> GgufError + (nat \<times> ByteCursor)" where
  "rd_uint k ctx cur = rbind (cur_take cur k ctx) (\<lambda>(s, cur). Inr (from_le s, cur))"

definition rd_sint :: "nat \<Rightarrow> string \<Rightarrow> ByteCursor \<Rightarrow> GgufError + (int \<times> ByteCursor)" where
  "rd_sint k ctx cur = rbind (cur_take cur k ctx) (\<lambda>(s, cur). Inr (signed (8 * k) (from_le s), cur))"

definition bytes4 :: "string \<Rightarrow> ByteCursor \<Rightarrow> GgufError + (u8s \<times> ByteCursor)" where
  "bytes4 ctx cur = cur_take cur 4 ctx"

definition rd_u8 :: "ByteCursor \<Rightarrow> GgufError + (u8 \<times> ByteCursor)" where "rd_u8 = rd_uint 1 ''u8''"
definition rd_i8 :: "ByteCursor \<Rightarrow> GgufError + (int \<times> ByteCursor)" where "rd_i8 = rd_sint 1 ''i8''"
definition rd_u16 :: "ByteCursor \<Rightarrow> GgufError + (u16 \<times> ByteCursor)" where "rd_u16 = rd_uint 2 ''u16''"
definition rd_i16 :: "ByteCursor \<Rightarrow> GgufError + (int \<times> ByteCursor)" where "rd_i16 = rd_sint 2 ''i16''"
definition rd_u32 :: "ByteCursor \<Rightarrow> GgufError + (u32 \<times> ByteCursor)" where "rd_u32 = rd_uint 4 ''u32''"
definition rd_i32 :: "ByteCursor \<Rightarrow> GgufError + (i32 \<times> ByteCursor)" where "rd_i32 = rd_sint 4 ''i32''"
definition rd_u64 :: "ByteCursor \<Rightarrow> GgufError + (u64 \<times> ByteCursor)" where "rd_u64 = rd_uint 8 ''u64''"
definition rd_i64 :: "ByteCursor \<Rightarrow> GgufError + (i64 \<times> ByteCursor)" where "rd_i64 = rd_sint 8 ''i64''"
definition rd_f32 :: "ByteCursor \<Rightarrow> GgufError + (u32 \<times> ByteCursor)" where "rd_f32 = rd_uint 4 ''f32''"
definition rd_f64 :: "ByteCursor \<Rightarrow> GgufError + (u64 \<times> ByteCursor)" where "rd_f64 = rd_uint 8 ''f64''"

definition rd_bool :: "ByteCursor \<Rightarrow> GgufError + (bool \<times> ByteCursor)" where
  "rd_bool cur = rbind (rd_i8 cur) (\<lambda>(b, cur). Inr (b \<noteq> 0, cur))"

text \<open>The well-formed byte sequences of UTF-8, as \<open>String::from_utf8\<close> checks them.\<close>

definition cont :: "u8 \<Rightarrow> bool" where
  "cont b \<longleftrightarrow> 0x80 \<le> b \<and> b \<le> 0xBF"

fun valid_utf8 :: "u8s \<Rightarrow> bool" where
  "valid_utf8 [] = True"
| "valid_utf8 (a # r) =
    (if a < 0x80 then valid_utf8 r
     else if 0xC2 \<le> a \<and> a \<le> 0xDF then (case r of b # r' \<Rightarrow> cont b \<and> valid_utf8 r' | _ \<Rightarrow> False)
     else if 0xE0 \<le> a \<and> a \<le> 0xEF then
       (case r of b # c # r' \<Rightarrow> cont b \<and> cont c \<and> (a = 0xE0 \<longrightarrow> 0xA0 \<le> b) \<and> (a = 0xED \<longrightarrow> b \<le> 0x9F) \<and> valid_utf8 r'
        | _ \<Rightarrow> False)
     else if 0xF0 \<le> a \<and> a \<le> 0xF4 then
       (case r of b # c # d # r' \<Rightarrow> cont b \<and> cont c \<and> cont d \<and> (a = 0xF0 \<longrightarrow> 0x90 \<le> b) \<and> (a = 0xF4 \<longrightarrow> b \<le> 0x8F)
           \<and> valid_utf8 r'
        | _ \<Rightarrow> False)
     else False)"

definition rd_string :: "ByteCursor \<Rightarrow> GgufError + (u8s \<times> ByteCursor)" where
  "rd_string cur =
    rbind (rd_u64 cur) (\<lambda>(len, cur).
    rbind (cur_take cur len ''string bytes'') (\<lambda>(bs, cur).
      if valid_utf8 bs then Inr (bs, cur) else Inl (InvalidUtf8 bs)))"

section \<open>Metadata values\<close>

fun rd_times :: "(ByteCursor \<Rightarrow> GgufError + ('a \<times> ByteCursor)) \<Rightarrow> nat \<Rightarrow> ByteCursor \<Rightarrow> GgufError + ('a list \<times> ByteCursor)" where
  "rd_times rd 0 cur = Inr ([], cur)"
| "rd_times rd (Suc n) cur =
    rbind (rd cur) (\<lambda>(x, cur). rbind (rd_times rd n cur) (\<lambda>(xs, cur). Inr (x # xs, cur)))"

definition as_array :: "('a list \<Rightarrow> GgufArray) \<Rightarrow> GgufError + ('a list \<times> ByteCursor) \<Rightarrow> GgufError + (GgufArray \<times> ByteCursor)" where
  "as_array variant r = rbind r (\<lambda>(v, cur). Inr (variant v, cur))"

definition read_array :: "ByteCursor \<Rightarrow> i32 \<Rightarrow> u64 \<Rightarrow> GgufError + (GgufValue \<times> ByteCursor)" where
  "read_array cur elem_tag n =
    rbind
     (if elem_tag = 0 then as_array AU8 (rd_times rd_u8 n cur)
      else if elem_tag = 1 then as_array AI8 (rd_times rd_i8 n cur)
      else if elem_tag = 2 then as_array AU16 (rd_times rd_u16 n cur)
      else if elem_tag = 3 then as_array AI16 (rd_times rd_i16 n cur)
      else if elem_tag = 4 then as_array AU32 (rd_times rd_u32 n cur)
      else if elem_tag = 5 then as_array AI32 (rd_times rd_i32 n cur)
      else if elem_tag = 6 then as_array AF32 (rd_times rd_f32 n cur)
      else if elem_tag = 7 then as_array ABool (rd_times rd_bool n cur)
      else if elem_tag = 8 then as_array AString (rd_times rd_string n cur)
      else if elem_tag = 9 then Inl NestedArray
      else if elem_tag = 10 then as_array AU64 (rd_times rd_u64 n cur)
      else if elem_tag = 11 then as_array AI64 (rd_times rd_i64 n cur)
      else if elem_tag = 12 then as_array AF64 (rd_times rd_f64 n cur)
      else Inl (UnknownValueType elem_tag))
     (\<lambda>(arr, cur). Inr (VArray arr, cur))"

definition as_value :: "('a \<Rightarrow> GgufValue) \<Rightarrow> GgufError + ('a \<times> ByteCursor) \<Rightarrow> GgufError + (GgufValue \<times> ByteCursor)" where
  "as_value variant r = rbind r (\<lambda>(v, cur). Inr (variant v, cur))"

definition read_typed_value :: "ByteCursor \<Rightarrow> i32 \<Rightarrow> GgufError + (GgufValue \<times> ByteCursor)" where
  "read_typed_value cur type_tag =
    (if type_tag = 0 then as_value VU8 (rd_u8 cur)
     else if type_tag = 1 then as_value VI8 (rd_i8 cur)
     else if type_tag = 2 then as_value VU16 (rd_u16 cur)
     else if type_tag = 3 then as_value VI16 (rd_i16 cur)
     else if type_tag = 4 then as_value VU32 (rd_u32 cur)
     else if type_tag = 5 then as_value VI32 (rd_i32 cur)
     else if type_tag = 6 then as_value VF32 (rd_f32 cur)
     else if type_tag = 7 then as_value VBool (rd_bool cur)
     else if type_tag = 8 then as_value VString (rd_string cur)
     else if type_tag = 9 then
       rbind (rd_i32 cur) (\<lambda>(elem_tag, cur). rbind (rd_u64 cur) (\<lambda>(n, cur). read_array cur elem_tag n))
     else if type_tag = 10 then as_value VU64 (rd_u64 cur)
     else if type_tag = 11 then as_value VI64 (rd_i64 cur)
     else if type_tag = 12 then as_value VF64 (rd_f64 cur)
     else Inl (UnknownValueType type_tag))"

definition read_value :: "ByteCursor \<Rightarrow> GgufError + (GgufValue \<times> ByteCursor)" where
  "read_value cur = rbind (rd_i32 cur) (\<lambda>(type_tag, cur). read_typed_value cur type_tag)"

section \<open>The container\<close>

type_synonym Metadata = "(u8s \<times> GgufValue) list"

fun read_metadata :: "nat \<Rightarrow> Metadata \<Rightarrow> ByteCursor \<Rightarrow> GgufError + (Metadata \<times> ByteCursor)" where
  "read_metadata 0 md cur = Inr (md, cur)"
| "read_metadata (Suc n) md cur =
    rbind (rd_string cur) (\<lambda>(key, cur).
    rbind (read_value cur) (\<lambda>(val, cur).
      if map_of md key \<noteq> None then Inl (DuplicateKey key)
      else read_metadata n (md @ [(key, val)]) cur))"

definition DEFAULT_ALIGNMENT :: u32 where
  "DEFAULT_ALIGNMENT = 32"

text \<open>ASCII literals of the source as bytes.\<close>

definition ascii :: "string \<Rightarrow> u8s" where
  "ascii s = map of_char s"

definition is_power_of_two :: "nat \<Rightarrow> bool" where
  "is_power_of_two a \<longleftrightarrow> (\<exists>k \<in> set [0..<32]. a = 2 ^ k)"

definition alignment_of :: "Metadata \<Rightarrow> GgufError + u32" where
  "alignment_of md =
    rbind (case map_of md (ascii ''general.alignment'') of
        Some (VU32 a) \<Rightarrow> Inr a
      | Some _ \<Rightarrow> Inl BadAlignmentType
      | None \<Rightarrow> Inr DEFAULT_ALIGNMENT)
     (\<lambda>a. if a = 0 \<or> \<not> is_power_of_two a then Inl (BadAlignment a) else Inr a)"

fun read_dims :: "u8s \<Rightarrow> nat \<Rightarrow> ByteCursor \<Rightarrow> GgufError + (u64 list \<times> ByteCursor)" where
  "read_dims name 0 cur = Inr ([], cur)"
| "read_dims name (Suc n) cur =
    rbind (rd_i64 cur) (\<lambda>(d, cur).
      if d \<le> 0 then Inl (ZeroDimension name)
      else rbind (read_dims name n cur) (\<lambda>(ds, cur). Inr (nat d # ds, cur)))"

definition wprod :: "u64 list \<Rightarrow> u64" where
  "wprod ds = fold (\<lambda>d p. wmul 64 p d) ds 1"

definition read_tensor :: "u8s list \<Rightarrow> ByteCursor \<Rightarrow> GgufError + (TensorInfo \<times> ByteCursor)" where
  "read_tensor seen_names cur =
    rbind (rd_string cur) (\<lambda>(name, cur).
      if name \<in> set seen_names then Inl (DuplicateTensor name)
      else
    rbind (rd_u32 cur) (\<lambda>(n_dims, cur).
      if 4 < n_dims then Inl (TooManyDimensions name n_dims)
      else
    rbind (read_dims name n_dims cur) (\<lambda>(dims, cur).
    rbind (rd_i32 cur) (\<lambda>(raw_type, cur).
    rbind (ggml_try_from raw_type) (\<lambda>ggml_type.
    rbind (rd_u64 cur) (\<lambda>(offset, cur).
      (let n_elements = wprod dims
       in case bytes_for_elements ggml_type n_elements of
            Inl _ \<Rightarrow> Inl (UnalignedElementCount name ggml_type n_elements (block_size ggml_type))
          | Inr n_bytes \<Rightarrow>
              Inr (\<lparr>ti_name = name, ti_dims = dims, ti_type = ggml_type, ti_offset = offset,
                    ti_n_elements = n_elements, ti_n_bytes = n_bytes\<rparr>, cur))))))))"

fun read_tensors :: "nat \<Rightarrow> TensorInfo list \<Rightarrow> ByteCursor \<Rightarrow> GgufError + (TensorInfo list \<times> ByteCursor)" where
  "read_tensors 0 ts cur = Inr (ts, cur)"
| "read_tensors (Suc n) ts cur =
    rbind (read_tensor (map ti_name ts) cur) (\<lambda>(t, cur). read_tensors n (ts @ [t]) cur)"

definition align_up :: "u64 \<Rightarrow> u64 \<Rightarrow> u64" where
  "align_up v a =
    (let vw = word_of_nat v :: 64 word; aw = word_of_nat a
     in unat ((vw + aw - 1) AND NOT (aw - 1)))"

record Parsed =
  pr_version :: u32
  pr_alignment :: u32
  pr_metadata :: Metadata
  pr_tensors :: "TensorInfo list"
  pr_data_offset :: u64

definition parse :: "u8s \<Rightarrow> GgufError + Parsed" where
  "parse bs =
    rbind (bytes4 ''magic'' \<lparr>c_data = bs, c_pos = 0\<rparr>) (\<lambda>(magic, cur).
      if magic \<noteq> ascii ''GGUF'' then Inl (BadMagic magic)
      else
    rbind (rd_u32 cur) (\<lambda>(version, cur).
      if version \<noteq> 3 then Inl (UnsupportedVersion version)
      else
    rbind (rd_i64 cur) (\<lambda>(n_tensors, cur).
      if n_tensors < 0 then Inl (NegativeCount ''tensor'' n_tensors)
      else
    rbind (rd_i64 cur) (\<lambda>(n_kv, cur).
      if n_kv < 0 then Inl (NegativeCount ''kv'' n_kv)
      else
    rbind (read_metadata (nat n_kv) [] cur) (\<lambda>(md, cur).
    rbind (alignment_of md) (\<lambda>alignment.
    rbind (read_tensors (nat n_tensors) [] cur) (\<lambda>(ts, cur).
      Inr \<lparr>pr_version = version, pr_alignment = alignment, pr_metadata = md, pr_tensors = ts,
           pr_data_offset = align_up (c_pos cur) alignment\<rparr>)))))))"

record GgufFile =
  gf_backing :: u8s
  gf_version :: u32
  gf_alignment :: u32
  gf_metadata :: Metadata
  gf_tensors :: "TensorInfo list"
  gf_data_offset :: u64

definition check_tensor :: "u64 \<Rightarrow> u64 \<Rightarrow> TensorInfo \<Rightarrow> GgufError + unit" where
  "check_tensor data_offset file_len t =
    (case checked_add 64 data_offset (ti_offset t) of
       None \<Rightarrow> Inl (OffsetOverflow (ti_name t))
     | Some from \<Rightarrow>
         (case checked_add 64 from (ti_n_bytes t) of
            None \<Rightarrow> Inl (OffsetOverflow (ti_name t))
          | Some to \<Rightarrow>
              if file_len < to then Inl (TensorOutOfBounds (ti_name t) from to file_len) else Inr ()))"

fun check_tensors :: "u64 \<Rightarrow> u64 \<Rightarrow> TensorInfo list \<Rightarrow> GgufError + unit" where
  "check_tensors data_offset file_len [] = Inr ()"
| "check_tensors data_offset file_len (t # ts) =
    rbind (check_tensor data_offset file_len t) (\<lambda>_. check_tensors data_offset file_len ts)"

definition from_backing :: "u8s \<Rightarrow> GgufError + GgufFile" where
  "from_backing bs =
    rbind (parse bs) (\<lambda>p.
    rbind (check_tensors (pr_data_offset p) (length bs mod 2 ^ 64) (pr_tensors p)) (\<lambda>_.
      Inr \<lparr>gf_backing = bs, gf_version = pr_version p, gf_alignment = pr_alignment p,
           gf_metadata = pr_metadata p, gf_tensors = pr_tensors p, gf_data_offset = pr_data_offset p\<rparr>))"

text \<open>\<open>tensor_index\<close> maps a name to the last entry of the directory that carries it.\<close>

definition tensor :: "GgufFile \<Rightarrow> u8s \<Rightarrow> TensorInfo option" where
  "tensor f name = find (\<lambda>t. ti_name t = name) (rev (gf_tensors f))"

text \<open>The slice, with a panic when it leaves the buffer.\<close>

definition tensor_bytes :: "GgufFile \<Rightarrow> u8s \<Rightarrow> u8s option option" where
  "tensor_bytes f name =
    (case tensor f name of
       None \<Rightarrow> Some None
     | Some info \<Rightarrow>
         (let from = wadd 64 (gf_data_offset f) (ti_offset info); to = wadd 64 from (ti_n_bytes info)
          in if from \<le> to \<and> to \<le> length (gf_backing f)
             then Some (Some (take (to - from) (drop from (gf_backing f)))) else None))"

definition gguf_get :: "GgufFile \<Rightarrow> u8s \<Rightarrow> GgufValue option" where
  "gguf_get f key = map_of (gf_metadata f) key"

definition get_u32 :: "GgufFile \<Rightarrow> u8s \<Rightarrow> u32 option" where
  "get_u32 f key = (case gguf_get f key of Some (VU32 v) \<Rightarrow> Some v | _ \<Rightarrow> None)"

definition get_u64 :: "GgufFile \<Rightarrow> u8s \<Rightarrow> u64 option" where
  "get_u64 f key = (case gguf_get f key of Some (VU64 v) \<Rightarrow> Some v | _ \<Rightarrow> None)"

definition get_f32 :: "GgufFile \<Rightarrow> u8s \<Rightarrow> u32 option" where
  "get_f32 f key = (case gguf_get f key of Some (VF32 v) \<Rightarrow> Some v | _ \<Rightarrow> None)"

definition get_str :: "GgufFile \<Rightarrow> u8s \<Rightarrow> u8s option" where
  "get_str f key = (case gguf_get f key of Some (VString v) \<Rightarrow> Some v | _ \<Rightarrow> None)"

definition get_string_array :: "GgufFile \<Rightarrow> u8s \<Rightarrow> u8s list option" where
  "get_string_array f key = (case gguf_get f key of Some (VArray (AString v)) \<Rightarrow> Some v | _ \<Rightarrow> None)"

definition get_bool_array :: "GgufFile \<Rightarrow> u8s \<Rightarrow> bool list option" where
  "get_bool_array f key = (case gguf_get f key of Some (VArray (ABool v)) \<Rightarrow> Some v | _ \<Rightarrow> None)"

definition get_i32_array :: "GgufFile \<Rightarrow> u8s \<Rightarrow> i32 list option" where
  "get_i32_array f key = (case gguf_get f key of Some (VArray (AI32 v)) \<Rightarrow> Some v | _ \<Rightarrow> None)"

end
