(* ===== verification/GgufCodec.thy ===== *)
theory GgufCodec
  imports Gguf
begin

text \<open>
  The container read back. A writer of the documented layout is the reference; a reader is matched with
  what it reads: on the whole encoding it returns the value and stops right after it, and on any proper
  prefix of the encoding it reports the end of the file. Both facts compose, so the loader returns what
  was written and refuses every truncated file.
\<close>

section \<open>Readers and encodings\<close>

abbreviation at :: "u8s \<Rightarrow> usize \<Rightarrow> ByteCursor" where
  "at bs n \<equiv> \<lparr>c_data = bs, c_pos = n\<rparr>"

definition is_eof :: "GgufError + 'a \<Rightarrow> bool" where
  "is_eof r \<longleftrightarrow> (\<exists>ctx offset. r = Inl (UnexpectedEof ctx offset))"

definition reads :: "(ByteCursor \<Rightarrow> GgufError + ('a \<times> ByteCursor)) \<Rightarrow> u8s \<Rightarrow> 'a \<Rightarrow> bool" where
  "reads rd bs x \<longleftrightarrow>
    (\<forall>pre post. rd (at (pre @ bs @ post) (length pre)) = Inr (x, at (pre @ bs @ post) (length pre + length bs)))
    \<and> (\<forall>pre n. n < length bs \<longrightarrow> is_eof (rd (at (pre @ take n bs) (length pre))))"

lemma readsD: "reads rd bs x \<Longrightarrow>
    rd (at (pre @ bs @ post) (length pre)) = Inr (x, at (pre @ bs @ post) (length pre + length bs))"
  by (simp add: reads_def)

lemma reads_short: "reads rd bs x \<Longrightarrow> n < length bs \<Longrightarrow> is_eof (rd (at (pre @ take n bs) (length pre)))"
  by (simp add: reads_def)

lemma reads_bind:
  assumes p: "reads p bs x" and q: "reads (q x) bs' y"
  shows "reads (\<lambda>cur. rbind (p cur) (case_prod q)) (bs @ bs') y"
  unfolding reads_def
proof (intro conjI allI impI)
  fix pre post
  show "rbind (p (at (pre @ (bs @ bs') @ post) (length pre))) (case_prod q)
      = Inr (y, at (pre @ (bs @ bs') @ post) (length pre + length (bs @ bs')))"
    using readsD [OF p, of pre "bs' @ post"] readsD [OF q, of "pre @ bs" post] by (simp add: rbind_def add.assoc)
next
  fix pre n
  assume n: "n < length (bs @ bs')"
  show "is_eof (rbind (p (at (pre @ take n (bs @ bs')) (length pre))) (case_prod q))"
  proof (cases "n < length bs")
    case True
    then show ?thesis using reads_short [OF p True, of pre] by (auto simp: is_eof_def rbind_def)
  next
    case False
    then show ?thesis
      using readsD [OF p, of pre "take (n - length bs) bs'"] reads_short [OF q, of "n - length bs" "pre @ bs"] n
      by (simp add: rbind_def)
  qed
qed

lemma reads_return: "reads (\<lambda>cur. Inr (x, cur)) [] x"
  by (simp add: reads_def)

lemma reads_map:
  assumes "reads p bs x"
  shows "reads (\<lambda>cur. rbind (p cur) (\<lambda>(v, cur). Inr (f v, cur))) bs (f x)"
  using reads_bind [OF assms, of "\<lambda>v cur. Inr (f v, cur)" "[]" "f x", OF reads_return] by simp

lemma reads_take: "reads (\<lambda>cur. cur_take cur (length bs) ctx) bs bs"
  by (simp add: reads_def cur_take_def remaining_def is_eof_def)

section \<open>Integers and strings\<close>

fun to_le :: "nat \<Rightarrow> nat \<Rightarrow> u8s" where
  "to_le 0 n = []"
| "to_le (Suc k) n = n mod 256 # to_le k (n div 256)"

lemma length_to_le [simp]: "length (to_le k n) = k"
  by (induction k arbitrary: n) auto

lemma from_to_le: "n < 256 ^ k \<Longrightarrow> from_le (to_le k n) = n"
proof (induction k arbitrary: n)
  case (Suc k)
  then have "n div 256 < 256 ^ k" by (simp add: less_mult_imp_div_less mult.commute)
  with Suc.IH show ?case by simp
qed simp

definition unsign :: "nat \<Rightarrow> int \<Rightarrow> nat" where
  "unsign w i = nat (i mod 2 ^ w)"

lemma signed_unsign:
  assumes w: "0 < w" and i: "- (2 ^ (w - 1)) \<le> i" "i < 2 ^ (w - 1)"
  shows "signed w (unsign w i) = i" and "unsign w i < 2 ^ w"
proof -
  have two: "(2::int) ^ w = 2 * 2 ^ (w - 1)" using w by (cases w) auto
  have "i mod 2 ^ w = (if 0 \<le> i then i else i + 2 ^ w)"
  proof (cases "0 \<le> i")
    case True
    then show ?thesis using i two by (simp add: mod_pos_pos_trivial)
  next
    case False
    have "(i + 2 ^ w) mod 2 ^ w = i + 2 ^ w" using False i two by (intro mod_pos_pos_trivial) auto
    then show ?thesis using False by simp
  qed
  moreover have "int (unsign w i) = i mod 2 ^ w" by (simp add: unsign_def)
  ultimately have u: "int (unsign w i) = (if 0 \<le> i then i else i + 2 ^ w)" by simp
  have small: "unsign w i < 2 ^ (w - 1) \<longleftrightarrow> int (unsign w i) < 2 ^ (w - 1)"
    by (metis of_nat_less_iff of_nat_numeral of_nat_power)
  show "signed w (unsign w i) = i" unfolding signed_def small u using i two by auto
  have "int (unsign w i) < 2 ^ w" by (simp add: unsign_def)
  then show "unsign w i < 2 ^ w" by (metis of_nat_less_iff of_nat_numeral of_nat_power)
qed

abbreviation enc_sint :: "nat \<Rightarrow> int \<Rightarrow> u8s" where
  "enc_sint k i \<equiv> to_le k (unsign (8 * k) i)"

abbreviation sint_ok :: "nat \<Rightarrow> int \<Rightarrow> bool" where
  "sint_ok k i \<equiv> - (2 ^ (8 * k - 1)) \<le> i \<and> i < 2 ^ (8 * k - 1)"

lemma reads_uint: "n < 256 ^ k \<Longrightarrow> reads (rd_uint k ctx) (to_le k n) n"
  using reads_map [OF reads_take [of "to_le k n" ctx], of from_le]
  by (simp add: rd_uint_def [abs_def] from_to_le)

lemma reads_sint: "0 < k \<Longrightarrow> sint_ok k i \<Longrightarrow> reads (rd_sint k ctx) (enc_sint k i) i"
proof -
  assume k: "0 < k" and i: "sint_ok k i"
  have "unsign (8 * k) i < 256 ^ k" using signed_unsign(2) [of "8 * k" i] k i by (simp add: power_mult)
  then show ?thesis
    using reads_map [OF reads_take [of "enc_sint k i" ctx], of "\<lambda>s. signed (8 * k) (from_le s)"]
      signed_unsign(1) [of "8 * k" i] k i by (simp add: rd_sint_def [abs_def] from_to_le)
qed

definition enc_bool :: "bool \<Rightarrow> u8s" where
  "enc_bool b = [if b then 1 else 0]"

definition enc_string :: "u8s \<Rightarrow> u8s" where
  "enc_string s = to_le 8 (length s) @ s"

definition string_ok :: "u8s \<Rightarrow> bool" where
  "string_ok s \<longleftrightarrow> valid_utf8 s \<and> length s < 2 ^ 64"

lemma reads_string: "string_ok s \<Longrightarrow> reads rd_string (enc_string s) s"
proof -
  assume s: "string_ok s"
  have "reads (\<lambda>cur. rbind (cur_take cur (length s) ''string bytes'')
      (\<lambda>(bs, cur). if valid_utf8 bs then Inr (bs, cur) else Inl (InvalidUtf8 bs))) (s @ []) s"
    by (rule reads_bind [OF reads_take]) (use s in \<open>simp add: string_ok_def reads_return\<close>)
  then have rest: "reads (\<lambda>cur. rbind (cur_take cur (length s) ''string bytes'')
      (\<lambda>(bs, cur). if valid_utf8 bs then Inr (bs, cur) else Inl (InvalidUtf8 bs))) s s" by simp
  have "reads rd_u64 (to_le 8 (length s)) (length s)"
    unfolding rd_u64_def using s by (intro reads_uint) (simp add: string_ok_def)
  from reads_bind [OF this, where q = "\<lambda>len cur. rbind (cur_take cur len ''string bytes'')
      (\<lambda>(bs, cur). if valid_utf8 bs then Inr (bs, cur) else Inl (InvalidUtf8 bs))", OF rest]
  show ?thesis by (simp add: rd_string_def [abs_def] enc_string_def)
qed

section \<open>Codecs\<close>

text \<open>A reader together with the writer it undoes; arrays of it are read back in any length.\<close>

locale codec =
  fixes rd :: "ByteCursor \<Rightarrow> GgufError + ('a \<times> ByteCursor)"
    and enc :: "'a \<Rightarrow> u8s"
    and ok :: "'a \<Rightarrow> bool"
  assumes reads_enc: "ok x \<Longrightarrow> reads rd (enc x) x"
begin

lemma reads_times: "list_all ok xs \<Longrightarrow> reads (rd_times rd (length xs)) (concat (map enc xs)) xs"
proof (induction xs)
  case Nil
  then show ?case by (simp add: reads_def)
next
  case (Cons x xs)
  then have "reads (\<lambda>cur. rbind (rd_times rd (length xs) cur) (\<lambda>(xs, cur). Inr (x # xs, cur)))
      (concat (map enc xs)) (x # xs)" by (intro reads_map [where f = "(#) x"]) simp
  from reads_bind [OF reads_enc, where q = "\<lambda>x cur. rbind (rd_times rd (length xs) cur) (\<lambda>(xs, cur). Inr (x # xs, cur))",
      OF _ this] Cons.prems show ?case by simp
qed

lemma reads_as_array:
  "list_all ok xs \<Longrightarrow> reads (\<lambda>cur. as_array variant (rd_times rd (length xs) cur)) (concat (map enc xs)) (variant xs)"
  unfolding as_array_def by (intro reads_map reads_times)

lemma reads_as_value: "ok x \<Longrightarrow> reads (\<lambda>cur. as_value variant (rd cur)) (enc x) (variant x)"
  unfolding as_value_def by (intro reads_map reads_enc)

end

interpretation c_u8: codec rd_u8 "to_le 1" "\<lambda>n. n < 256 ^ 1"
  by unfold_locales (unfold rd_u8_def, rule reads_uint)

interpretation c_i8: codec rd_i8 "enc_sint 1" "sint_ok 1"
  by unfold_locales (unfold rd_i8_def, rule reads_sint, simp_all)

interpretation c_u16: codec rd_u16 "to_le 2" "\<lambda>n. n < 256 ^ 2"
  by unfold_locales (unfold rd_u16_def, rule reads_uint)

interpretation c_i16: codec rd_i16 "enc_sint 2" "sint_ok 2"
  by unfold_locales (unfold rd_i16_def, rule reads_sint, simp_all)

interpretation c_u32: codec rd_u32 "to_le 4" "\<lambda>n. n < 256 ^ 4"
  by unfold_locales (unfold rd_u32_def, rule reads_uint)

interpretation c_i32: codec rd_i32 "enc_sint 4" "sint_ok 4"
  by unfold_locales (unfold rd_i32_def, rule reads_sint, simp_all)

interpretation c_u64: codec rd_u64 "to_le 8" "\<lambda>n. n < 256 ^ 8"
  by unfold_locales (unfold rd_u64_def, rule reads_uint)

interpretation c_i64: codec rd_i64 "enc_sint 8" "sint_ok 8"
  by unfold_locales (unfold rd_i64_def, rule reads_sint, simp_all)

interpretation c_f32: codec rd_f32 "to_le 4" "\<lambda>n. n < 256 ^ 4"
  by unfold_locales (unfold rd_f32_def, rule reads_uint)

interpretation c_f64: codec rd_f64 "to_le 8" "\<lambda>n. n < 256 ^ 8"
  by unfold_locales (unfold rd_f64_def, rule reads_uint)

interpretation c_bool: codec rd_bool enc_bool "\<lambda>_. True"
proof
  fix b
  have "reads rd_i8 (enc_sint 1 (if b then 1 else 0)) (if b then 1 else 0)" by (rule c_i8.reads_enc) simp
  from reads_map [OF this, of "\<lambda>i. i \<noteq> 0"] show "reads rd_bool (enc_bool b) b"
    by (cases b) (simp_all add: rd_bool_def [abs_def] enc_bool_def unsign_def)
qed

interpretation c_string: codec rd_string enc_string string_ok
  by unfold_locales (rule reads_string)

end
