(* ===== verification/GgufLoad.thy ===== *)
theory GgufLoad
  imports GgufCodec
begin

text \<open>
  The loader on what a writer of the documented layout produces: metadata, tensor directory and tensor
  data are returned as written, a truncated file is refused, and what a loaded file hands out is always
  inside its buffer.
\<close>

section \<open>Values\<close>

fun enc_array :: "GgufArray \<Rightarrow> u8s" where
  "enc_array (AU8 xs) = enc_sint 4 0 @ to_le 8 (length xs) @ concat (map (to_le 1) xs)"
| "enc_array (AI8 xs) = enc_sint 4 1 @ to_le 8 (length xs) @ concat (map (enc_sint 1) xs)"
| "enc_array (AU16 xs) = enc_sint 4 2 @ to_le 8 (length xs) @ concat (map (to_le 2) xs)"
| "enc_array (AI16 xs) = enc_sint 4 3 @ to_le 8 (length xs) @ concat (map (enc_sint 2) xs)"
| "enc_array (AU32 xs) = enc_sint 4 4 @ to_le 8 (length xs) @ concat (map (to_le 4) xs)"
| "enc_array (AI32 xs) = enc_sint 4 5 @ to_le 8 (length xs) @ concat (map (enc_sint 4) xs)"
| "enc_array (AF32 xs) = enc_sint 4 6 @ to_le 8 (length xs) @ concat (map (to_le 4) xs)"
| "enc_array (ABool xs) = enc_sint 4 7 @ to_le 8 (length xs) @ concat (map enc_bool xs)"
| "enc_array (AString xs) = enc_sint 4 8 @ to_le 8 (length xs) @ concat (map enc_string xs)"
| "enc_array (AU64 xs) = enc_sint 4 10 @ to_le 8 (length xs) @ concat (map (to_le 8) xs)"
| "enc_array (AI64 xs) = enc_sint 4 11 @ to_le 8 (length xs) @ concat (map (enc_sint 8) xs)"
| "enc_array (AF64 xs) = enc_sint 4 12 @ to_le 8 (length xs) @ concat (map (to_le 8) xs)"

fun array_ok :: "GgufArray \<Rightarrow> bool" where
  "array_ok (AU8 xs) \<longleftrightarrow> length xs < 256 ^ 8 \<and> list_all (\<lambda>n. n < 256 ^ 1) xs"
| "array_ok (AI8 xs) \<longleftrightarrow> length xs < 256 ^ 8 \<and> list_all (sint_ok 1) xs"
| "array_ok (AU16 xs) \<longleftrightarrow> length xs < 256 ^ 8 \<and> list_all (\<lambda>n. n < 256 ^ 2) xs"
| "array_ok (AI16 xs) \<longleftrightarrow> length xs < 256 ^ 8 \<and> list_all (sint_ok 2) xs"
| "array_ok (AU32 xs) \<longleftrightarrow> length xs < 256 ^ 8 \<and> list_all (\<lambda>n. n < 256 ^ 4) xs"
| "array_ok (AI32 xs) \<longleftrightarrow> length xs < 256 ^ 8 \<and> list_all (sint_ok 4) xs"
| "array_ok (AF32 xs) \<longleftrightarrow> length xs < 256 ^ 8 \<and> list_all (\<lambda>n. n < 256 ^ 4) xs"
| "array_ok (ABool xs) \<longleftrightarrow> length xs < 256 ^ 8"
| "array_ok (AString xs) \<longleftrightarrow> length xs < 256 ^ 8 \<and> list_all string_ok xs"
| "array_ok (AU64 xs) \<longleftrightarrow> length xs < 256 ^ 8 \<and> list_all (\<lambda>n. n < 256 ^ 8) xs"
| "array_ok (AI64 xs) \<longleftrightarrow> length xs < 256 ^ 8 \<and> list_all (sint_ok 8) xs"
| "array_ok (AF64 xs) \<longleftrightarrow> length xs < 256 ^ 8 \<and> list_all (\<lambda>n. n < 256 ^ 8) xs"

fun enc_value :: "GgufValue \<Rightarrow> u8s" where
  "enc_value (VU8 x) = enc_sint 4 0 @ to_le 1 x"
| "enc_value (VI8 x) = enc_sint 4 1 @ enc_sint 1 x"
| "enc_value (VU16 x) = enc_sint 4 2 @ to_le 2 x"
| "enc_value (VI16 x) = enc_sint 4 3 @ enc_sint 2 x"
| "enc_value (VU32 x) = enc_sint 4 4 @ to_le 4 x"
| "enc_value (VI32 x) = enc_sint 4 5 @ enc_sint 4 x"
| "enc_value (VF32 x) = enc_sint 4 6 @ to_le 4 x"
| "enc_value (VBool x) = enc_sint 4 7 @ enc_bool x"
| "enc_value (VString x) = enc_sint 4 8 @ enc_string x"
| "enc_value (VU64 x) = enc_sint 4 10 @ to_le 8 x"
| "enc_value (VI64 x) = enc_sint 4 11 @ enc_sint 8 x"
| "enc_value (VF64 x) = enc_sint 4 12 @ to_le 8 x"
| "enc_value (VArray a) = enc_sint 4 9 @ enc_array a"

fun value_ok :: "GgufValue \<Rightarrow> bool" where
  "value_ok (VU8 x) \<longleftrightarrow> x < 256 ^ 1"
| "value_ok (VI8 x) \<longleftrightarrow> sint_ok 1 x"
| "value_ok (VU16 x) \<longleftrightarrow> x < 256 ^ 2"
| "value_ok (VI16 x) \<longleftrightarrow> sint_ok 2 x"
| "value_ok (VU32 x) \<longleftrightarrow> x < 256 ^ 4"
| "value_ok (VI32 x) \<longleftrightarrow> sint_ok 4 x"
| "value_ok (VF32 x) \<longleftrightarrow> x < 256 ^ 4"
| "value_ok (VBool x) \<longleftrightarrow> True"
| "value_ok (VString x) \<longleftrightarrow> string_ok x"
| "value_ok (VU64 x) \<longleftrightarrow> x < 256 ^ 8"
| "value_ok (VI64 x) \<longleftrightarrow> sint_ok 8 x"
| "value_ok (VF64 x) \<longleftrightarrow> x < 256 ^ 8"
| "value_ok (VArray a) \<longleftrightarrow> array_ok a"

lemma read_array_tags:
  "read_array cur 0 n = as_value VArray (as_array AU8 (rd_times rd_u8 n cur))"
  "read_array cur 1 n = as_value VArray (as_array AI8 (rd_times rd_i8 n cur))"
  "read_array cur 2 n = as_value VArray (as_array AU16 (rd_times rd_u16 n cur))"
  "read_array cur 3 n = as_value VArray (as_array AI16 (rd_times rd_i16 n cur))"
  "read_array cur 4 n = as_value VArray (as_array AU32 (rd_times rd_u32 n cur))"
  "read_array cur 5 n = as_value VArray (as_array AI32 (rd_times rd_i32 n cur))"
  "read_array cur 6 n = as_value VArray (as_array AF32 (rd_times rd_f32 n cur))"
  "read_array cur 7 n = as_value VArray (as_array ABool (rd_times rd_bool n cur))"
  "read_array cur 8 n = as_value VArray (as_array AString (rd_times rd_string n cur))"
  "read_array cur 10 n = as_value VArray (as_array AU64 (rd_times rd_u64 n cur))"
  "read_array cur 11 n = as_value VArray (as_array AI64 (rd_times rd_i64 n cur))"
  "read_array cur 12 n = as_value VArray (as_array AF64 (rd_times rd_f64 n cur))"
  by (simp_all add: read_array_def as_value_def)

lemma read_typed_value_tags:
  "read_typed_value cur 0 = as_value VU8 (rd_u8 cur)"
  "read_typed_value cur 1 = as_value VI8 (rd_i8 cur)"
  "read_typed_value cur 2 = as_value VU16 (rd_u16 cur)"
  "read_typed_value cur 3 = as_value VI16 (rd_i16 cur)"
  "read_typed_value cur 4 = as_value VU32 (rd_u32 cur)"
  "read_typed_value cur 5 = as_value VI32 (rd_i32 cur)"
  "read_typed_value cur 6 = as_value VF32 (rd_f32 cur)"
  "read_typed_value cur 7 = as_value VBool (rd_bool cur)"
  "read_typed_value cur 8 = as_value VString (rd_string cur)"
  "read_typed_value cur 9 = rbind (rd_i32 cur) (\<lambda>(elem_tag, cur). rbind (rd_u64 cur) (\<lambda>(n, cur). read_array cur elem_tag n))"
  "read_typed_value cur 10 = as_value VU64 (rd_u64 cur)"
  "read_typed_value cur 11 = as_value VI64 (rd_i64 cur)"
  "read_typed_value cur 12 = as_value VF64 (rd_f64 cur)"
  by (simp_all add: read_typed_value_def)

lemma reads_array_body:
  assumes tag: "sint_ok 4 tag" and n: "n < 256 ^ 8"
    and body: "reads (\<lambda>cur. read_array cur tag n) bs v"
  shows "reads (\<lambda>cur. rbind (rd_i32 cur) (\<lambda>(elem_tag, cur). rbind (rd_u64 cur) (\<lambda>(n, cur). read_array cur elem_tag n)))
    (enc_sint 4 tag @ to_le 8 n @ bs) v"
  by (intro reads_bind [OF c_i32.reads_enc [OF tag]] reads_bind [OF c_u64.reads_enc [OF n]] body)

lemmas reads_arrays = c_u8.reads_as_array c_i8.reads_as_array c_u16.reads_as_array c_i16.reads_as_array
  c_u32.reads_as_array c_i32.reads_as_array c_f32.reads_as_array c_bool.reads_as_array
  c_string.reads_as_array c_u64.reads_as_array c_i64.reads_as_array c_f64.reads_as_array

lemmas reads_scalars = c_u8.reads_as_value c_i8.reads_as_value c_u16.reads_as_value c_i16.reads_as_value
  c_u32.reads_as_value c_i32.reads_as_value c_f32.reads_as_value c_bool.reads_as_value
  c_string.reads_as_value c_u64.reads_as_value c_i64.reads_as_value c_f64.reads_as_value

lemma reads_VArray:
  "reads (\<lambda>cur. as_array variant (rd_times rd n cur)) bs a \<Longrightarrow>
    reads (\<lambda>cur. as_value VArray (as_array variant (rd_times rd n cur))) bs (VArray a)"
  by (simp only: as_value_def) (rule reads_map)

lemma reads_array: "array_ok a \<Longrightarrow> reads (\<lambda>cur. read_typed_value cur 9) (enc_array a) (VArray a)"
  unfolding read_typed_value_tags
  by (cases a) (simp_all only: array_ok.simps enc_array.simps, (rule reads_array_body, simp, blast,
    simp only: read_array_tags, rule reads_VArray, rule reads_arrays, simp add: list_all_iff)+)

lemma reads_value: "value_ok v \<Longrightarrow> reads read_value (enc_value v) v"
proof -
  assume ok: "value_ok v"
  obtain tag bs where enc: "enc_value v = enc_sint 4 tag @ bs" and tag: "sint_ok 4 tag"
    and body: "reads (\<lambda>cur. read_typed_value cur tag) bs v"
  proof (cases v)
    case (VArray a)
    then show ?thesis using ok reads_array [of a] by (intro that [of 9 "enc_array a"]) simp_all
  qed (rule that, simp only: enc_value.simps, simp, simp only: read_typed_value_tags, rule reads_scalars,
    use ok in \<open>simp\<close>)+
  show ?thesis unfolding enc read_value_def [abs_def] by (rule reads_bind [OF c_i32.reads_enc [OF tag]]) (rule body)
qed

section \<open>Metadata\<close>

definition enc_kv :: "u8s \<times> GgufValue \<Rightarrow> u8s" where
  "enc_kv kv = enc_string (fst kv) @ enc_value (snd kv)"

definition metadata_ok :: "Metadata \<Rightarrow> bool" where
  "metadata_ok md \<longleftrightarrow> distinct (map fst md) \<and> list_all (\<lambda>kv. string_ok (fst kv) \<and> value_ok (snd kv)) md"

lemma reads_metadata:
  "metadata_ok (md @ kvs) \<Longrightarrow> reads (read_metadata (length kvs) md) (concat (map enc_kv kvs)) (md @ kvs)"
proof (induction kvs arbitrary: md)
  case Nil
  then show ?case by (simp add: reads_def)
next
  case (Cons kv kvs)
  obtain k v where kv: "kv = (k, v)" by (cases kv)
  have ok: "string_ok k" "value_ok v" and new: "map_of md k = None"
    using Cons.prems by (auto simp: metadata_ok_def kv map_of_eq_None_iff)
  have rest: "reads (read_metadata (length kvs) (md @ [(k, v)])) (concat (map enc_kv kvs)) (md @ kv # kvs)"
    using Cons.IH [of "md @ [kv]"] Cons.prems by (simp add: kv)
  have "read_metadata (length (kv # kvs)) md = (\<lambda>cur. rbind (rd_string cur) (\<lambda>(key, cur).
      rbind (read_value cur) (\<lambda>(val, cur). if map_of md key \<noteq> None then Inl (DuplicateKey key)
        else read_metadata (length kvs) (md @ [(key, val)]) cur)))" by (rule ext) simp
  moreover have "concat (map enc_kv (kv # kvs)) = enc_string k @ enc_value v @ concat (map enc_kv kvs)"
    by (simp add: enc_kv_def kv)
  ultimately show ?case
    by (simp only:) (rule reads_bind [OF reads_string [OF ok(1)]], rule reads_bind [OF reads_value [OF ok(2)]],
      use new rest in simp)
qed

section \<open>The tensor directory\<close>

fun type_id :: "GgmlType \<Rightarrow> int" where
  "type_id T_F32 = 0" | "type_id T_F16 = 1" | "type_id T_Q4_0 = 2" | "type_id T_Q8_0 = 8"
| "type_id T_Q4K = 12" | "type_id T_Q5K = 13" | "type_id T_Q6K = 14" | "type_id T_Bf16 = 30"

lemma type_id_ok: "sint_ok 4 (type_id ty)" "ggml_try_from (type_id ty) = Inr ty"
  by (cases ty; simp add: ggml_try_from_def)+

definition enc_tensor :: "TensorInfo \<Rightarrow> u8s" where
  "enc_tensor t = enc_string (ti_name t) @ to_le 4 (length (ti_dims t))
     @ concat (map (\<lambda>d. enc_sint 8 (int d)) (ti_dims t)) @ enc_sint 4 (type_id (ti_type t)) @ to_le 8 (ti_offset t)"

text \<open>What the directory records beside the written fields follows from them.\<close>

definition tensor_ok :: "TensorInfo \<Rightarrow> bool" where
  "tensor_ok t \<longleftrightarrow> string_ok (ti_name t) \<and> length (ti_dims t) \<le> 4
     \<and> list_all (\<lambda>d. 0 < d \<and> d < 2 ^ 63) (ti_dims t) \<and> ti_offset t < 256 ^ 8
     \<and> ti_n_elements t = wprod (ti_dims t) \<and> bytes_for_elements (ti_type t) (ti_n_elements t) = Inr (ti_n_bytes t)"

lemma reads_dims:
  "list_all (\<lambda>d. 0 < d \<and> d < 2 ^ 63) ds \<Longrightarrow>
    reads (read_dims name (length ds)) (concat (map (\<lambda>d. enc_sint 8 (int d)) ds)) ds"
proof (induction ds)
  case Nil
  then show ?case by (simp add: reads_def)
next
  case (Cons d ds)
  have d: "sint_ok 8 (int d)" "0 < int d" using Cons.prems by (simp_all add: nat_less_numeral_power_cancel_iff)
  have rest: "reads (\<lambda>cur. rbind (read_dims name (length ds) cur) (\<lambda>(ds, cur). Inr (nat (int d) # ds, cur)))
      (concat (map (\<lambda>d. enc_sint 8 (int d)) ds)) (nat (int d) # ds)"
    using Cons by (intro reads_map) simp
  from reads_bind [OF c_i64.reads_enc [OF d(1)], where q = "\<lambda>d cur. if d \<le> 0 then Inl (ZeroDimension name)
      else rbind (read_dims name (length ds) cur) (\<lambda>(ds, cur). Inr (nat d # ds, cur))"] d(2) rest
  show ?case by (simp add: fun_eq_iff)
qed

lemma reads_tensor:
  assumes ok: "tensor_ok t" and new: "ti_name t \<notin> set seen"
  shows "reads (read_tensor seen) (enc_tensor t) t"
proof -
  have name: "string_ok (ti_name t)" and nd: "length (ti_dims t) < 256 ^ 4" "\<not> 4 < length (ti_dims t)"
    and dims: "list_all (\<lambda>d. 0 < d \<and> d < 2 ^ 63) (ti_dims t)" and offset: "ti_offset t < 256 ^ 8"
    and size: "ti_n_elements t = wprod (ti_dims t)"
      "bytes_for_elements (ti_type t) (wprod (ti_dims t)) = Inr (ti_n_bytes t)"
    using ok by (auto simp: tensor_ok_def)
  have eta: "\<lparr>ti_name = ti_name t, ti_dims = ti_dims t, ti_type = ti_type t, ti_offset = ti_offset t,
      ti_n_elements = wprod (ti_dims t), ti_n_bytes = ti_n_bytes t\<rparr> = t"
    unfolding size(1) [symmetric] by simp
  have return: "reads (\<lambda>cur. case bytes_for_elements (ti_type t) (wprod (ti_dims t)) of
      Inl _ \<Rightarrow> Inl (UnalignedElementCount (ti_name t) (ti_type t) (wprod (ti_dims t)) (block_size (ti_type t)))
    | Inr n_bytes \<Rightarrow> Inr (\<lparr>ti_name = ti_name t, ti_dims = ti_dims t, ti_type = ti_type t, ti_offset = ti_offset t,
        ti_n_elements = wprod (ti_dims t), ti_n_bytes = n_bytes\<rparr>, cur)) [] t"
    unfolding size(2) sum.case eta by (rule reads_return)
  have "reads (read_tensor seen) (enc_string (ti_name t) @ to_le 4 (length (ti_dims t))
      @ concat (map (\<lambda>d. enc_sint 8 (int d)) (ti_dims t)) @ enc_sint 4 (type_id (ti_type t)) @ to_le 8 (ti_offset t) @ []) t"
    unfolding read_tensor_def [abs_def] Let_def
    by (rule reads_bind [OF reads_string [OF name]], simp only: new if_False,
        rule reads_bind [OF c_u32.reads_enc [OF nd(1)]], simp only: nd(2) if_False,
        rule reads_bind [OF reads_dims [OF dims]], rule reads_bind [OF c_i32.reads_enc [OF type_id_ok(1)]],
        simp only: type_id_ok(2) rbind_def sum.case(2), rule reads_bind [OF c_u64.reads_enc [OF offset], unfolded rbind_def],
        rule return)
  then show ?thesis by (simp add: enc_tensor_def)
qed

lemma reads_tensors:
  "list_all tensor_ok ts \<Longrightarrow> distinct (map ti_name (seen @ ts)) \<Longrightarrow>
    reads (read_tensors (length ts) seen) (concat (map enc_tensor ts)) (seen @ ts)"
proof (induction ts arbitrary: seen)
  case Nil
  then show ?case by (simp add: reads_def)
next
  case (Cons t ts)
  have "ti_name t \<notin> set (map ti_name seen)" using Cons.prems(2) by auto
  then have t: "reads (read_tensor (map ti_name seen)) (enc_tensor t) t" using Cons.prems(1) by (intro reads_tensor) auto
  have rest: "reads (read_tensors (length ts) (seen @ [t])) (concat (map enc_tensor ts)) (seen @ t # ts)"
    using Cons.IH [of "seen @ [t]"] Cons.prems by simp
  have "read_tensors (length (t # ts)) seen = (\<lambda>cur. rbind (read_tensor (map ti_name seen) cur)
      (\<lambda>(t, cur). read_tensors (length ts) (seen @ [t]) cur))" by (rule ext) simp
  then show ?case by (simp only: list.map concat.simps) (rule reads_bind [OF t], rule rest)
qed

section \<open>The header\<close>

record Content =
  ct_metadata :: Metadata
  ct_tensors :: "TensorInfo list"
  ct_data :: u8s

definition enc_header :: "Content \<Rightarrow> u8s" where
  "enc_header c = ascii ''GGUF'' @ to_le 4 3 @ enc_sint 8 (int (length (ct_tensors c)))
     @ enc_sint 8 (int (length (ct_metadata c))) @ concat (map enc_kv (ct_metadata c))
     @ concat (map enc_tensor (ct_tensors c))"

definition encode :: "u32 \<Rightarrow> Content \<Rightarrow> u8s" where
  "encode a c = (let h = enc_header c in h @ replicate (align_up (length h) a - length h) 0 @ ct_data c)"

definition content_ok :: "u32 \<Rightarrow> Content \<Rightarrow> bool" where
  "content_ok a c \<longleftrightarrow> metadata_ok (ct_metadata c) \<and> alignment_of (ct_metadata c) = Inr a
     \<and> list_all tensor_ok (ct_tensors c) \<and> distinct (map ti_name (ct_tensors c))
     \<and> length (ct_metadata c) < 2 ^ 63 \<and> length (ct_tensors c) < 2 ^ 63
     \<and> length (enc_header c) + a + length (ct_data c) < 2 ^ 64
     \<and> list_all (\<lambda>t. ti_offset t + ti_n_bytes t \<le> length (ct_data c)) (ct_tensors c)"

text \<open>\<open>parse\<close> as a reader of the header followed by the round-up.\<close>

definition rd_header :: "ByteCursor \<Rightarrow> GgufError + ((u32 \<times> u32 \<times> Metadata \<times> TensorInfo list) \<times> ByteCursor)" where
  "rd_header cur =
    rbind (bytes4 ''magic'' cur) (\<lambda>(magic, cur).
      if magic \<noteq> ascii ''GGUF'' then Inl (BadMagic magic)
      else
    rbind (rd_u32 cur) (\<lambda>(version, cur).
      if version \<noteq> 3 then Inl (UnsupportedVersion version)
      else
    rbind (rd_i64 cur) (\<lambda>(n_tensors, cur).
      if n_tensors < 0 then Inl (NegativeCount ''tensor'' n_tensors)
      else
    rbind (rd_i64 cur) (\<lambda>(n_kv, cur).
      if n_kv < 0 then Inl (NegativeCount ''kv'' n_kv)
      else
    rbind (read_metadata (nat n_kv) [] cur) (\<lambda>(md, cur).
      case alignment_of md of
        Inl e \<Rightarrow> Inl e
      | Inr alignment \<Rightarrow>
          rbind (read_tensors (nat n_tensors) [] cur) (\<lambda>(ts, cur). Inr ((version, alignment, md, ts), cur)))))))"

lemma parse_header:
  "parse bs = rbind (rd_header (at bs 0)) (\<lambda>((version, alignment, md, ts), cur).
     Inr \<lparr>pr_version = version, pr_alignment = alignment, pr_metadata = md, pr_tensors = ts,
          pr_data_offset = align_up (c_pos cur) alignment\<rparr>)"
  by (auto simp: parse_def rd_header_def rbind_def split: sum.split)

lemma reads_header:
  assumes ok: "content_ok a c"
  shows "reads rd_header (enc_header c) (3, a, ct_metadata c, ct_tensors c)"
proof -
  let ?nt = "int (length (ct_tensors c))" and ?nk = "int (length (ct_metadata c))"
  have nt: "sint_ok 8 ?nt" "\<not> ?nt < 0" and nk: "sint_ok 8 ?nk" "\<not> ?nk < 0"
    using ok by (auto simp: content_ok_def)
  have md: "reads (read_metadata (nat ?nk) []) (concat (map enc_kv (ct_metadata c))) (ct_metadata c)"
    using reads_metadata [of "[]" "ct_metadata c"] ok by (simp add: content_ok_def)
  have ts: "reads (read_tensors (nat ?nt) []) (concat (map enc_tensor (ct_tensors c))) (ct_tensors c)"
    using reads_tensors [of "ct_tensors c" "[]"] ok by (simp add: content_ok_def)
  have al: "alignment_of (ct_metadata c) = Inr a" using ok by (simp add: content_ok_def)
  have magic: "reads (bytes4 ''magic'') (ascii ''GGUF'') (ascii ''GGUF'')"
    using reads_take [of "ascii ''GGUF''" "''magic''"] by (simp add: bytes4_def [abs_def] ascii_def numeral_eq_Suc)
  have ver: "reads rd_u32 (to_le 4 3) 3" by (rule c_u32.reads_enc) simp
  show ?thesis
    unfolding rd_header_def [abs_def] enc_header_def
    by (rule reads_bind [OF magic], simp only: simp_thms if_False, rule reads_bind [OF ver], simp only: simp_thms if_False,
        rule reads_bind [OF c_i64.reads_enc [OF nt(1)]], simp only: nt(2) if_False,
        rule reads_bind [OF c_i64.reads_enc [OF nk(1)]], simp only: nk(2) if_False,
        rule reads_bind [OF md], simp only: al sum.case, rule reads_map [OF ts])
qed

section \<open>Alignment\<close>

lemma is_power_of_two_iff: "is_power_of_two a \<longleftrightarrow> (\<exists>k < 32. a = 2 ^ k)"
  by (auto simp: is_power_of_two_def)

lemma align_up_eq:
  assumes k: "k < 32" and small: "v + 2 ^ k < 2 ^ 64"
  shows "align_up v (2 ^ k) = (v + 2 ^ k - 1) div 2 ^ k * 2 ^ k"
proof -
  let ?x = "word_of_nat v + word_of_nat (2 ^ k) - 1 :: 64 word"
  have "(0::nat) < 2 ^ k" by simp
  then have sub: "word_of_nat v + word_of_nat (2 ^ k) - 1 = (word_of_nat (v + 2 ^ k - 1) :: 64 word)"
    by (subst of_nat_diff) (simp_all add: Suc_leI trans_le_add2)
  have "v + 2 ^ k - 1 < 2 ^ 64" using small by linarith
  then have x: "unat ?x = v + 2 ^ k - 1" unfolding sub by (simp add: unat_of_nat)
  have "word_of_nat (2 ^ k) - 1 = (mask k :: 64 word)" by (simp add: mask_eq_exp_minus_1)
  then have "align_up v (2 ^ k) = unat (?x AND NOT (mask k))" by (simp add: align_up_def Let_def)
  also have "\<dots> = push_bit k (drop_bit k (unat ?x))"
    by (rule bit_eqI) (auto simp: bit_simps dest: bit_imp_le_length)
  also have "\<dots> = unat ?x div 2 ^ k * 2 ^ k" by (simp add: push_bit_eq_mult drop_bit_eq_div)
  finally show ?thesis unfolding x .
qed

lemma align_up_bounds:
  assumes a: "is_power_of_two a" and small: "v + a < 2 ^ 64"
  shows "v \<le> align_up v a" and "align_up v a < v + a"
proof -
  obtain k where k: "k < 32" "a = 2 ^ k" using a by (auto simp: is_power_of_two_iff)
  have pos: "0 < a" by (simp add: k(2))
  define q where "q = (v + a - 1) div a * a"
  have eq: "align_up v a = q" using align_up_eq [OF k(1)] small by (simp add: k(2) q_def)
  have split: "q + (v + a - 1) mod a = v + a - 1" unfolding q_def by (rule div_mult_mod_eq)
  have r: "(v + a - 1) mod a < a" using pos by simp
  show "v \<le> align_up v a" unfolding eq using split r pos by linarith
  show "align_up v a < v + a" unfolding eq using split pos by linarith
qed

section \<open>Checking the directory\<close>

lemma check_tensors_Inr:
  "check_tensors d len ts = Inr () \<longleftrightarrow>
    (\<forall>t \<in> set ts. d + ti_offset t + ti_n_bytes t < 2 ^ 64 \<and> d + ti_offset t + ti_n_bytes t \<le> len)"
proof (induction ts)
  case Nil
  then show ?case by simp
next
  case (Cons t ts)
  have "check_tensor d len t = Inr () \<longleftrightarrow> d + ti_offset t + ti_n_bytes t < 2 ^ 64 \<and> d + ti_offset t + ti_n_bytes t \<le> len"
    by (simp add: check_tensor_def checked_add_def)
  moreover have "check_tensors d len (t # ts) = Inr () \<longleftrightarrow> check_tensor d len t = Inr () \<and> check_tensors d len ts = Inr ()"
    by (cases "check_tensor d len t") (simp_all add: rbind_def)
  ultimately show ?case using Cons.IH by simp
qed

lemma check_tensors_Inl:
  assumes "\<forall>t \<in> set ts. d + ti_offset t + ti_n_bytes t < 2 ^ 64"
    and "check_tensors d len ts = Inl e"
  shows "\<exists>name from to. e = TensorOutOfBounds name from to len"
  using assms
proof (induction ts)
  case Nil
  then show ?case by simp
next
  case (Cons t ts)
  have "checked_add 64 d (ti_offset t) = Some (d + ti_offset t)"
    "checked_add 64 (d + ti_offset t) (ti_n_bytes t) = Some (d + ti_offset t + ti_n_bytes t)"
    using Cons.prems(1) by (auto simp: checked_add_def)
  then have t: "check_tensor d len t = (if len < d + ti_offset t + ti_n_bytes t
      then Inl (TensorOutOfBounds (ti_name t) (d + ti_offset t) (d + ti_offset t + ti_n_bytes t) len) else Inr ())"
    by (simp add: check_tensor_def)
  show ?case using Cons.IH Cons.prems by (auto simp: t rbind_def split: if_splits)
qed

section \<open>Loading what was written\<close>

lemma content_power: "content_ok a c \<Longrightarrow> is_power_of_two a"
  by (auto simp: content_ok_def alignment_of_def rbind_def split: sum.splits if_splits)

lemma data_start:
  assumes "content_ok a c"
  shows "length (enc_header c) \<le> align_up (length (enc_header c)) a"
    and "align_up (length (enc_header c)) a + length (ct_data c) < 2 ^ 64"
    and "length (encode a c) = align_up (length (enc_header c)) a + length (ct_data c)"
proof -
  have small: "length (enc_header c) + a + length (ct_data c) < 2 ^ 64" using assms by (simp add: content_ok_def)
  then show "align_up (length (enc_header c)) a + length (ct_data c) < 2 ^ 64"
    using align_up_bounds(2) [OF content_power [OF assms], of "length (enc_header c)"] by linarith
  show ge: "length (enc_header c) \<le> align_up (length (enc_header c)) a"
    using align_up_bounds(1) [OF content_power [OF assms]] small by simp
  then show "length (encode a c) = align_up (length (enc_header c)) a + length (ct_data c)"
    by (simp add: encode_def Let_def)
qed

lemma parse_prefix:
  assumes ok: "content_ok a c"
  shows "parse (enc_header c @ post) = Inr \<lparr>pr_version = 3, pr_alignment = a, pr_metadata = ct_metadata c,
      pr_tensors = ct_tensors c, pr_data_offset = align_up (length (enc_header c)) a\<rparr>"
  using readsD [OF reads_header [OF ok], of "[]" post] by (simp add: parse_header rbind_def)

lemma loaded:
  assumes ok: "content_ok a c"
  shows "from_backing (encode a c) = Inr \<lparr>gf_backing = encode a c, gf_version = 3, gf_alignment = a,
    gf_metadata = ct_metadata c, gf_tensors = ct_tensors c, gf_data_offset = align_up (length (enc_header c)) a\<rparr>"
proof -
  let ?d = "align_up (length (enc_header c)) a"
  note start = data_start [OF ok]
  have "check_tensors ?d (length (encode a c) mod 2 ^ 64) (ct_tensors c) = Inr ()"
    unfolding check_tensors_Inr using ok start(2,3) by (fastforce simp: content_ok_def list_all_iff)
  then show ?thesis
    using parse_prefix [OF ok, of "replicate (?d - length (enc_header c)) 0 @ ct_data c"]
    by (simp add: from_backing_def rbind_def encode_def Let_def)
qed

lemma find_unique:
  "distinct (map f xs) \<Longrightarrow> x \<in> set xs \<Longrightarrow> find (\<lambda>y. f y = f x) xs = Some x"
  by (induction xs) auto

lemma tensor_unique:
  "distinct (map ti_name (gf_tensors f)) \<Longrightarrow> t \<in> set (gf_tensors f) \<Longrightarrow> tensor f (ti_name t) = Some t"
  unfolding tensor_def by (rule find_unique) (simp_all add: rev_map [symmetric])

lemma tensor_bytes_eq:
  assumes "tensor f name = Some t" and "gf_data_offset f + ti_offset t + ti_n_bytes t \<le> length (gf_backing f)"
    and "gf_data_offset f + ti_offset t + ti_n_bytes t < 2 ^ 64"
  shows "tensor_bytes f name =
    Some (Some (take (ti_n_bytes t) (drop (gf_data_offset f + ti_offset t) (gf_backing f))))"
  using assms by (simp add: tensor_bytes_def Let_def nowrap)

section \<open>Main theorems\<close>

text \<open>C22: A file written in the documented layout loads back exactly: the metadata and the tensor directory come
  out as written, and each tensor's bytes are those of the data section at its offset, for every value
  type, every alignment and any number of entries. Bounds: fields within their widths, at most
  \<open>2 ^ 63\<close> entries, a file below \<open>2 ^ 64\<close> bytes.\<close>

theorem gguf_reads_back:
  assumes ok: "content_ok a c"
  shows "\<exists>f. from_backing (encode a c) = Inr f \<and> gf_metadata f = ct_metadata c \<and> gf_tensors f = ct_tensors c
    \<and> (\<forall>t \<in> set (ct_tensors c). tensor_bytes f (ti_name t)
        = Some (Some (take (ti_n_bytes t) (drop (ti_offset t) (ct_data c)))))"
proof -
  let ?d = "align_up (length (enc_header c)) a"
  define f where "f = \<lparr>gf_backing = encode a c, gf_version = 3, gf_alignment = a,
    gf_metadata = ct_metadata c, gf_tensors = ct_tensors c, gf_data_offset = ?d\<rparr>"
  note start = data_start [OF ok]
  have "tensor_bytes f (ti_name t) = Some (Some (take (ti_n_bytes t) (drop (ti_offset t) (ct_data c))))"
    if t: "t \<in> set (ct_tensors c)" for t
  proof -
    have fits: "ti_offset t + ti_n_bytes t \<le> length (ct_data c)"
      using ok t by (auto simp: content_ok_def list_all_iff)
    have "tensor f (ti_name t) = Some t"
      by (rule tensor_unique) (use ok t in \<open>simp_all add: f_def content_ok_def\<close>)
    then have "tensor_bytes f (ti_name t) = Some (Some (take (ti_n_bytes t) (drop (?d + ti_offset t) (encode a c))))"
      using tensor_bytes_eq [of f "ti_name t" t] fits start(2,3) by (simp add: f_def)
    moreover have "drop (?d + ti_offset t) (encode a c) = drop (ti_offset t) (ct_data c)"
      using start(1) by (simp add: encode_def Let_def)
    ultimately show ?thesis by simp
  qed
  moreover have "from_backing (encode a c) = Inr f" using loaded [OF ok] by (simp add: f_def)
  ultimately show ?thesis by (auto simp: f_def)
qed

definition tiny :: Content where
  "tiny = \<lparr>ct_metadata = [(ascii ''n'', VU32 7)],
     ct_tensors = [\<lparr>ti_name = ascii ''w'', ti_dims = [2], ti_type = T_F32, ti_offset = 0, ti_n_elements = 2, ti_n_bytes = 8\<rparr>],
     ct_data = [1, 2, 3, 4, 5, 6, 7, 8]\<rparr>"

lemma tiny_ok: "content_ok 32 tiny"
proof -
  have "alignment_of [(ascii ''n'', VU32 7)] = Inr 32"
    unfolding alignment_of_def by (simp add: ascii_def rbind_def DEFAULT_ALIGNMENT_def is_power_of_two_iff) (rule exI [of _ 5], simp)
  then show ?thesis
    by (simp add: content_ok_def tiny_def metadata_ok_def tensor_ok_def string_ok_def ascii_def wprod_def wmul_def
        bytes_for_elements_def is_multiple_of_def enc_header_def enc_kv_def enc_tensor_def enc_string_def)
qed

theorem gguf_reads_back_witness:
  "\<exists>f. from_backing (encode 32 tiny) = Inr f \<and> tensor_bytes f (ascii ''w'') = Some (Some [1, 2, 3, 4, 5, 6, 7, 8])"
proof -
  obtain f where "from_backing (encode 32 tiny) = Inr f"
    and "\<forall>t \<in> set (ct_tensors tiny). tensor_bytes f (ti_name t)
        = Some (Some (take (ti_n_bytes t) (drop (ti_offset t) (ct_data tiny))))"
    using gguf_reads_back [OF tiny_ok] by blast
  then show ?thesis by (simp add: tiny_def)
qed

text \<open>C29: Whatever the bytes of a file are, once it has loaded no lookup panics: a tensor of the directory is
  handed out as a slice inside the file of exactly its recorded size, an unknown name as nothing. (A file
  that does not load is an error value; reading it never panics, there being no such case in the reader.)\<close>

theorem gguf_slices_in_bounds:
  assumes ok: "from_backing bs = Inr f" and len: "length bs < 2 ^ 64"
  shows "\<exists>r. tensor_bytes f name = Some r
    \<and> map_option length r = map_option ti_n_bytes (tensor f name)"
proof -
  obtain p where p: "parse bs = Inr p" using ok by (auto simp: from_backing_def rbind_def split: sum.splits)
  have chk: "check_tensors (pr_data_offset p) (length bs) (pr_tensors p) = Inr ()"
    and f: "gf_backing f = bs" "gf_tensors f = pr_tensors p" "gf_data_offset f = pr_data_offset p"
    using ok p len by (auto simp: from_backing_def rbind_def split: sum.splits)
  show ?thesis
  proof (cases "tensor f name")
    case None
    then show ?thesis by (simp add: tensor_bytes_def)
  next
    case (Some t)
    then obtain i where "i < length (rev (pr_tensors p))" "t = rev (pr_tensors p) ! i"
      by (auto simp: tensor_def f find_Some_iff)
    then have "t \<in> set (pr_tensors p)" using nth_mem [of i "rev (pr_tensors p)"] by simp
    then have fits: "pr_data_offset p + ti_offset t + ti_n_bytes t < 2 ^ 64"
      "pr_data_offset p + ti_offset t + ti_n_bytes t \<le> length bs"
      using chk unfolding check_tensors_Inr by auto
    then show ?thesis using tensor_bytes_eq [OF Some] Some by (simp add: f)
  qed
qed

theorem gguf_slices_in_bounds_witness:
  "\<exists>f r. from_backing (encode 32 tiny) = Inr f \<and> tensor_bytes f (ascii ''v'') = Some r"
proof -
  have len: "length (encode 32 tiny) < 2 ^ 64" using data_start [OF tiny_ok] by simp
  show ?thesis using gguf_slices_in_bounds [OF loaded [OF tiny_ok] len, of "ascii ''v''"] loaded [OF tiny_ok] by blast
qed



section \<open>What the element count promises\<close>

text \<open>The product of the dimensions wraps around: a directory entry of \<open>2 ^ 32 * 2 ^ 32\<close> floats is recorded with no
  elements and no bytes, and a file that contains nothing of it loads.\<close>

definition vast :: TensorInfo where
  "vast = \<lparr>ti_name = ascii ''w'', ti_dims = [2 ^ 32, 2 ^ 32], ti_type = T_F32, ti_offset = 0, ti_n_elements = 0, ti_n_bytes = 0\<rparr>"

lemma vast_tensor_loads:
  "\<exists>f. from_backing (encode 32 \<lparr>ct_metadata = [], ct_tensors = [vast], ct_data = []\<rparr>) = Inr f
    \<and> tensor_bytes f (ascii ''w'') = Some (Some [])"
proof -
  have "alignment_of [] = Inr 32"
    unfolding alignment_of_def by (simp add: rbind_def DEFAULT_ALIGNMENT_def is_power_of_two_iff) (rule exI [of _ 5], simp)
  then have ok: "content_ok 32 \<lparr>ct_metadata = [], ct_tensors = [vast], ct_data = []\<rparr>"
    by (simp add: content_ok_def vast_def metadata_ok_def tensor_ok_def string_ok_def ascii_def wprod_def wmul_def
        bytes_for_elements_def is_multiple_of_def enc_header_def enc_tensor_def enc_string_def)
  let ?f = "\<lparr>gf_backing = encode 32 \<lparr>ct_metadata = [], ct_tensors = [vast], ct_data = []\<rparr>, gf_version = 3, gf_alignment = 32,
    gf_metadata = [], gf_tensors = [vast],
    gf_data_offset = align_up (length (enc_header \<lparr>ct_metadata = [], ct_tensors = [vast], ct_data = []\<rparr>)) 32\<rparr>"
  have "tensor ?f (ascii ''w'') = Some vast" by (simp add: tensor_def vast_def)
  then have "tensor_bytes ?f (ascii ''w'') = Some (Some [])"
    using tensor_bytes_eq [of ?f "ascii ''w''" vast] data_start [OF ok] by (simp add: vast_def)
  then show ?thesis using loaded [OF ok] by simp
qed

end
