(* ===== verification/Json.thy ===== *)
theory Json
  imports Prelude
begin

text \<open>
  Text and JSON as the server sees them. A Rust string is the list of its code points; the functions on
  strings the sources call are written out on it. \<open>serde_json::Value\<close> is a datatype over an arbitrary type
  of numbers; an object keeps its insertion order (the \<open>preserve_order\<close> feature both crates enable).
\<close>

section \<open>Strings\<close>

type_synonym rstr = "nat list"

text \<open>A literal of the source, which are ASCII throughout.\<close>

definition lit :: "string \<Rightarrow> rstr" where
  "lit s = map of_char s"

text \<open>\<open>char::is_whitespace\<close>: the code points with the property White_Space.\<close>

definition is_white :: "nat \<Rightarrow> bool" where
  "is_white c \<longleftrightarrow> (9 \<le> c \<and> c \<le> 13) \<or> c = 0x20 \<or> c = 0x85 \<or> c = 0xA0 \<or> c = 0x1680
     \<or> (0x2000 \<le> c \<and> c \<le> 0x200A) \<or> c = 0x2028 \<or> c = 0x2029 \<or> c = 0x202F \<or> c = 0x205F \<or> c = 0x3000"

definition trim_start :: "rstr \<Rightarrow> rstr" where
  "trim_start s = dropWhile is_white s"

definition trim_end :: "rstr \<Rightarrow> rstr" where
  "trim_end s = rev (dropWhile is_white (rev s))"

definition trim :: "rstr \<Rightarrow> rstr" where
  "trim s = trim_end (trim_start s)"

definition starts_with :: "rstr \<Rightarrow> rstr \<Rightarrow> bool" where
  "starts_with p s \<longleftrightarrow> take (length p) s = p"

definition ends_with :: "rstr \<Rightarrow> rstr \<Rightarrow> bool" where
  "ends_with p s \<longleftrightarrow> length p \<le> length s \<and> drop (length s - length p) s = p"

definition strip_prefix :: "rstr \<Rightarrow> rstr \<Rightarrow> rstr option" where
  "strip_prefix p s = (if starts_with p s then Some (drop (length p) s) else None)"

definition strip_suffix :: "rstr \<Rightarrow> rstr \<Rightarrow> rstr option" where
  "strip_suffix p s = (if ends_with p s then Some (take (length s - length p) s) else None)"

definition find_str :: "rstr \<Rightarrow> rstr \<Rightarrow> usize option" where
  "find_str needle s = find (\<lambda>i. starts_with needle (drop i s)) [0..<Suc (length s)]"

text \<open>The UTF-8 bytes of a string, and how many there are (\<open>String::len\<close>).\<close>

definition utf8_char :: "nat \<Rightarrow> nat list" where
  "utf8_char c =
    (if c < 0x80 then [c]
     else if c < 0x800 then [0xC0 + c div 64, 0x80 + c mod 64]
     else if c < 0x10000 then [0xE0 + c div 4096, 0x80 + c div 64 mod 64, 0x80 + c mod 64]
     else [0xF0 + c div 262144, 0x80 + c div 4096 mod 64, 0x80 + c div 64 mod 64, 0x80 + c mod 64])"

definition utf8 :: "rstr \<Rightarrow> string" where
  "utf8 s = map char_of (concat (map utf8_char s))"

definition byte_len :: "rstr \<Rightarrow> usize" where
  "byte_len s = sum_list (map (\<lambda>c. length (utf8_char c)) s)"

lemma byte_len_Nil [simp]: "byte_len [] = 0"
  by (simp add: byte_len_def)

lemma byte_len_append [simp]: "byte_len (a @ b) = byte_len a + byte_len b"
  by (simp add: byte_len_def)

lemma utf8_append [simp]: "utf8 (a @ b) = utf8 a @ utf8 b"
  by (simp add: utf8_def)

lemma starts_with_prefix: "starts_with p s \<longleftrightarrow> (\<exists>t. s = p @ t)"
  unfolding starts_with_def by (metis append_eq_conv_conj append_take_drop_id)

lemma strip_prefix_Some: "strip_prefix p s = Some t \<longleftrightarrow> s = p @ t"
  unfolding strip_prefix_def starts_with_def by (metis append_eq_conv_conj append_take_drop_id option.inject option.simps(3))

lemma strip_prefix_append [simp]: "strip_prefix p (p @ s) = Some s"
  by (simp add: strip_prefix_Some)

lemma strip_prefix_None: "strip_prefix p s = None \<longleftrightarrow> \<not> starts_with p s"
  by (simp add: strip_prefix_def)

lemma find_str_Some:
  "find_str p s = Some i \<longleftrightarrow> i \<le> length s \<and> starts_with p (drop i s) \<and> (\<forall>j < i. \<not> starts_with p (drop j s))"
proof -
  have "find P [0..<n] = Some i \<longleftrightarrow> i < n \<and> P i \<and> (\<forall>j < i. \<not> P j)" for P n
    by (auto simp: find_Some_iff)
  then show ?thesis unfolding find_str_def by (auto simp del: upt_Suc)
qed

lemma find_str_None: "find_str p s = None \<longleftrightarrow> (\<forall>i \<le> length s. \<not> starts_with p (drop i s))"
  unfolding find_str_def by (auto simp: find_None_iff simp del: upt_Suc)

section \<open>JSON values\<close>

datatype 'n Value =
    JNull | JBool bool | JNumber 'n | JString rstr | JArray "'n Value list" | JObject "(rstr \<times> 'n Value) list"

fun as_str :: "'n Value \<Rightarrow> rstr option" where
  "as_str (JString s) = Some s" | "as_str _ = None"

fun as_list :: "'n Value \<Rightarrow> 'n Value list option" where
  "as_list (JArray vs) = Some vs" | "as_list _ = None"

fun as_object :: "'n Value \<Rightarrow> (rstr \<times> 'n Value) list option" where
  "as_object (JObject kvs) = Some kvs" | "as_object _ = None"

text \<open>\<open>Value::get\<close> with a string key: nothing unless the value is an object that has it.\<close>

fun json_get :: "'n Value \<Rightarrow> rstr \<Rightarrow> 'n Value option" where
  "json_get (JObject kvs) key = map_of kvs key" | "json_get _ _ = None"

definition or_else :: "'a option \<Rightarrow> 'a option \<Rightarrow> 'a option" where
  "or_else a b = (case a of None \<Rightarrow> b | Some _ \<Rightarrow> a)"

end
