(* ===== verification/ToolParser.thy ===== *)
theory ToolParser
  imports Json "HOL-Library.Monad_Syntax"
begin

text \<open>
  The parser of the model's tool-call markup (\<open>xabe-server/src/http/tools.rs\<close>): an incremental scanner that
  holds back what could still become an opener, collects a call up to its closing tag, and types its
  parameters. \<open>serde_json::from_str\<close> is a parameter (\<open>from_json\<close>). Positions count code points where the
  source counts bytes of the same text; the one byte count that decides something, the size limit of an
  unclosed call, is kept.
\<close>

section \<open>State\<close>

type_synonym Schema = "(rstr \<times> bool) list"

record 'n ParsedToolCall =
  pc_name :: rstr
  pc_arguments :: "(rstr \<times> 'n Value) list"

datatype 'n ToolEvent = TText rstr | TCall "'n ParsedToolCall"

datatype ParserState = InText | InCall rstr

record ToolCallParser =
  tp_openers :: "rstr list"
  tp_schemas :: "(rstr \<times> Schema) list"
  tp_pending :: rstr
  tp_state :: ParserState
  tp_swallow :: bool

definition MAX_CALL_BYTES :: usize where
  "MAX_CALL_BYTES = 256 * 1024"

definition CALL_OPEN :: rstr where
  "CALL_OPEN = lit ''<tool_call>''"

definition CALL_CLOSE :: rstr where
  "CALL_CLOSE = lit ''</tool_call>''"

definition parser_new :: "(rstr \<times> Schema) list \<Rightarrow> ToolCallParser" where
  "parser_new tools =
    \<lparr>tp_openers = CALL_OPEN # map (\<lambda>(name, _). lit ''<function='' @ name @ lit ''>'') tools,
     tp_schemas = fold (\<lambda>(name, params). AList.update name params) tools [],
     tp_pending = [], tp_state = InText, tp_swallow = False\<rparr>"

section \<open>One call\<close>

abbreviation lt :: nat where "lt \<equiv> 60"
abbreviation gt :: nat where "gt \<equiv> 62"
abbreviation newline :: nat where "newline \<equiv> 10"

text \<open>A name between \<open>=\<close> and \<open>>\<close>, as both the function and the parameter tags have it.\<close>

definition tag_name :: "rstr \<Rightarrow> (rstr \<times> rstr) option" where
  "tag_name rest = do {
     name_end \<leftarrow> find_str [gt] rest;
     let name = take name_end rest;
     if name = [] \<or> lt \<in> set name \<or> newline \<in> set name then None
     else Some (name, drop (name_end + 1) rest)
   }"

definition param_value :: "rstr \<Rightarrow> (rstr \<times> rstr) option" where
  "param_value rest =
    (let rest = (case strip_prefix [newline] rest of Some r \<Rightarrow> r | None \<Rightarrow> rest)
     in do {
       value_end \<leftarrow> find_str (lit ''</parameter>'') rest;
       let raw = take value_end rest;
       Some (case strip_suffix [newline] raw of Some v \<Rightarrow> v | None \<Rightarrow> raw,
             drop (value_end + length (lit ''</parameter>'')) rest)
     })"

definition typed :: "(rstr \<Rightarrow> 'n Value option) \<Rightarrow> Schema option \<Rightarrow> rstr \<Rightarrow> rstr \<Rightarrow> 'n Value" where
  "typed from_json params key val =
    (let is_string = (case params of None \<Rightarrow> False
        | Some ps \<Rightarrow> (case map_of ps key of None \<Rightarrow> False | Some b \<Rightarrow> b))
     in if is_string then JString val
        else (case from_json (trim val) of Some v \<Rightarrow> v | None \<Rightarrow> JString val))"

lemma tag_name_shorter: "tag_name rest = Some (name, after) \<Longrightarrow> length after < length rest"
  by (auto simp: tag_name_def bind_eq_Some_conv Let_def find_str_Some starts_with_prefix split: if_splits)

lemma param_value_shorter: "param_value rest = Some (val, after) \<Longrightarrow> length after \<le> length rest"
  by (auto simp: param_value_def bind_eq_Some_conv Let_def strip_prefix_Some split: option.splits)

function parse_arguments ::
  "(rstr \<Rightarrow> 'n Value option) \<Rightarrow> Schema option \<Rightarrow> rstr \<Rightarrow> (rstr \<times> 'n Value) list \<Rightarrow> (rstr \<times> 'n Value) list option" where
  "parse_arguments from_json params rest0 arguments =
    (let rest = trim_start rest0
     in case strip_prefix (lit ''</function>'') rest of
          Some after \<Rightarrow> if trim after \<noteq> [] then None else Some arguments
        | None \<Rightarrow>
            (case strip_prefix (lit ''<parameter='') rest of
               None \<Rightarrow> None
             | Some rest1 \<Rightarrow>
                 (case tag_name rest1 of
                    None \<Rightarrow> None
                  | Some (key, rest2) \<Rightarrow>
                      (case param_value rest2 of
                         None \<Rightarrow> None
                       | Some (val, rest3) \<Rightarrow>
                           parse_arguments from_json params rest3
                             (AList.update key (typed from_json params key val) arguments)))))"
  by pat_completeness auto

termination
proof (relation "measure (\<lambda>(_, _, rest, _). length rest)", simp, clarsimp)
  fix rest0 rest1 :: rstr and key rest2 val rest3
  assume "strip_prefix (lit ''<parameter='') (trim_start rest0) = Some rest1"
    and "tag_name rest1 = Some (key, rest2)" and "param_value rest2 = Some (val, rest3)"
  moreover have "length (trim_start rest0) \<le> length rest0" by (simp add: trim_start_def length_dropWhile_le)
  ultimately show "length rest3 < length rest0"
    using tag_name_shorter param_value_shorter by (fastforce simp: strip_prefix_Some)
qed

declare parse_arguments.simps [simp del]

definition parse_call ::
  "(rstr \<Rightarrow> 'n Value option) \<Rightarrow> (rstr \<times> Schema) list \<Rightarrow> rstr \<Rightarrow> 'n ParsedToolCall option" where
  "parse_call from_json schemas raw = do {
     rest \<leftarrow> strip_prefix (lit ''<function='') (trim raw);
     (name, rest) \<leftarrow> tag_name rest;
     arguments \<leftarrow> parse_arguments from_json (map_of schemas name) rest [];
     Some \<lparr>pc_name = name, pc_arguments = arguments\<rparr>
   }"

section \<open>Scanning\<close>

text \<open>\<open>min_by_key\<close>: the first of the least.\<close>

fun min_by_fst :: "(nat \<times> 'a) list \<Rightarrow> (nat \<times> 'a) option" where
  "min_by_fst [] = None"
| "min_by_fst (x # xs) = (case min_by_fst xs of None \<Rightarrow> Some x | Some y \<Rightarrow> Some (if fst y < fst x then y else x))"

definition next_opener :: "rstr list \<Rightarrow> rstr \<Rightarrow> (usize \<times> rstr) option" where
  "next_opener openers pending =
    min_by_fst (List.map_filter (\<lambda>opener. map_option (\<lambda>i. (i, opener)) (find_str opener pending)) openers)"

definition held_back_len :: "rstr \<Rightarrow> rstr list \<Rightarrow> usize" where
  "held_back_len s needles =
    fold (\<lambda>needle held. fold (\<lambda>n held.
        if n \<le> length s \<and> drop (length s - n) s = take n needle then max held n else held)
      [1..<length needle] held) needles 0"

definition emit_text :: "rstr \<Rightarrow> ToolCallParser \<Rightarrow> 'n ToolEvent list \<Rightarrow> ToolCallParser \<times> 'n ToolEvent list" where
  "emit_text s p events =
    (if tp_swallow p
     then (let trimmed = trim_start s
           in if trimmed = [] then (p, events)
              else (p\<lparr>tp_swallow := False\<rparr>, events @ [TText trimmed]))
     else if s = [] then (p, events) else (p, events @ [TText s]))"

partial_function (option) push_loop ::
  "(rstr \<Rightarrow> 'n Value option) \<Rightarrow> ToolCallParser \<Rightarrow> 'n ToolEvent list \<Rightarrow> (ToolCallParser \<times> 'n ToolEvent list) option" where
  [code]: "push_loop from_json p events =
    (case tp_state p of
       InText \<Rightarrow>
         (case next_opener (tp_openers p) (tp_pending p) of
            Some (i, opener) \<Rightarrow>
              (let (p, events) = emit_text (take i (tp_pending p)) (p\<lparr>tp_pending := drop i (tp_pending p)\<rparr>) events;
                   p = p\<lparr>tp_pending := drop (length opener) (tp_pending p)\<rparr>;
                   raw = (if opener = CALL_OPEN then [] else opener)
               in push_loop from_json (p\<lparr>tp_state := InCall raw\<rparr>) events)
          | None \<Rightarrow>
              (let held = held_back_len (tp_pending p) (tp_openers p);
                   emit = length (tp_pending p) - held
               in if 0 < emit
                  then Some (emit_text (take emit (tp_pending p)) (p\<lparr>tp_pending := drop emit (tp_pending p)\<rparr>) events)
                  else Some (p, events)))
     | InCall raw \<Rightarrow>
         (case find_str CALL_CLOSE (tp_pending p) of
            Some i \<Rightarrow>
              (let raw = raw @ take i (tp_pending p);
                   p = p\<lparr>tp_pending := drop (i + length CALL_CLOSE) (tp_pending p), tp_state := InText\<rparr>
               in case parse_call from_json (tp_schemas p) raw of
                    Some call \<Rightarrow> push_loop from_json (p\<lparr>tp_swallow := True\<rparr>) (events @ [TCall call])
                  | None \<Rightarrow>
                      (let (p, events) = emit_text (CALL_OPEN @ raw @ CALL_CLOSE) p events
                       in push_loop from_json p events))
          | None \<Rightarrow>
              (let held = held_back_len (tp_pending p) [CALL_CLOSE];
                   n = length (tp_pending p) - held;
                   raw = raw @ take n (tp_pending p);
                   p = p\<lparr>tp_pending := drop n (tp_pending p), tp_state := InCall raw\<rparr>
               in if MAX_CALL_BYTES < byte_len raw
                  then Some (emit_text (CALL_OPEN @ raw) (p\<lparr>tp_state := InText\<rparr>) events)
                  else Some (p, events))))"

definition push ::
  "(rstr \<Rightarrow> 'n Value option) \<Rightarrow> rstr \<Rightarrow> ToolCallParser \<times> 'n ToolEvent list \<Rightarrow> (ToolCallParser \<times> 'n ToolEvent list) option" where
  "push from_json s pe = push_loop from_json ((fst pe)\<lparr>tp_pending := tp_pending (fst pe) @ s\<rparr>) (snd pe)"

definition finish :: "ToolCallParser \<times> 'n ToolEvent list \<Rightarrow> ToolCallParser \<times> 'n ToolEvent list" where
  "finish pe =
    (let p = fst pe;
         tail = (case tp_state p of InText \<Rightarrow> tp_pending p | InCall raw \<Rightarrow> CALL_OPEN @ raw @ tp_pending p)
     in emit_text tail (p\<lparr>tp_state := InText, tp_pending := []\<rparr>) (snd pe))"

end
