(* ===== verification/ToolSurface.thy ===== *)
theory ToolSurface
  imports Json ToolParser Constraint "HOL-Library.List_Lexorder"
begin

text \<open>
  The tools a request offers (\<open>xabe-server/src/http/tools.rs\<close>) and the tool surface the grammar is compiled
  from (\<open>xabe-grammar/src/spec.rs\<close>): three dialects normalised to one wrapper, the wrapper read back into
  parameters and the kind of value each takes. \<open>serde_json::to_string\<close> is a parameter (\<open>to_json\<close>). An
  error message of the source is a constructor with its arguments.
\<close>

section \<open>Definitions\<close>

datatype ToolError =
    EmptyToolName
  | UnrenderableName rstr
  | ServerTool rstr
  | NamespaceUnnamed
  | NamespaceDotted rstr
  | NamespaceWithoutTools rstr
  | NamespaceHolds rstr
  | UnsupportedToolType rstr

record 'n ToolDefinition =
  td_name :: rstr
  td_wrapper :: "'n Value"
  td_string_params :: Schema

record 'n OfferedTools =
  ot_definitions :: "'n ToolDefinition list"
  ot_unsupported :: "rstr list"

definition schema_is_string :: "'n Value \<Rightarrow> bool" where
  "schema_is_string schema =
    (case json_get schema (lit ''type'') of
       Some (JString kind) \<Rightarrow> kind = lit ''string''
     | Some (JArray kinds) \<Rightarrow>
         list_all (\<lambda>kind. case kind of JString k \<Rightarrow> k = lit ''string'' \<or> k = lit ''null'' | _ \<Rightarrow> False) kinds
     | _ \<Rightarrow> False)"

definition tool_build :: "rstr \<Rightarrow> 'n Value option \<Rightarrow> 'n Value option \<Rightarrow> ToolError + 'n ToolDefinition" where
  "tool_build name description params =
    (if name = [] then Inl EmptyToolName
     else if gt \<in> set name \<or> lt \<in> set name \<or> newline \<in> set name then Inl (UnrenderableName name)
     else
       (let fn = JObject
              [(lit ''name'', JString name),
               (lit ''description'', case description of Some d \<Rightarrow> d | None \<Rightarrow> JString []),
               (lit ''parameters'', case params of Some p \<Rightarrow> p | None \<Rightarrow> JObject [])];
            string_params = (case Option.bind (Option.bind params (\<lambda>p. json_get p (lit ''properties''))) as_object of
              Some properties \<Rightarrow> map (\<lambda>(key, schema). (key, schema_is_string schema)) properties
            | None \<Rightarrow> [])
        in Inr \<lparr>td_name = name,
             td_wrapper = JObject [(lit ''type'', JString (lit ''function'')), (lit ''function'', fn)],
             td_string_params = string_params\<rparr>))"

text \<open>\<open>value.get(key).and_then(Value::as_str).unwrap_or("")\<close>, as \<open>kind_of\<close> and the name lookups read.\<close>

definition str_field :: "'n Value \<Rightarrow> string \<Rightarrow> rstr" where
  "str_field v key = (case Option.bind (json_get v (lit key)) as_str of Some s \<Rightarrow> s | None \<Rightarrow> [])"

definition function_of :: "'n Value \<Rightarrow> 'n Value" where
  "function_of v = (case json_get v (lit ''function'') of Some f \<Rightarrow> f | None \<Rightarrow> v)"

definition from_openai :: "'n Value \<Rightarrow> ToolError + 'n ToolDefinition" where
  "from_openai v =
    (let f = function_of v
     in tool_build (str_field f ''name'') (json_get f (lit ''description''))
          (or_else (json_get f (lit ''parameters'')) (json_get f (lit ''input_schema''))))"

definition is_anthropic_client_tool :: "rstr \<Rightarrow> 'n Value \<Rightarrow> bool" where
  "is_anthropic_client_tool kind v \<longleftrightarrow> kind = [] \<or> kind = lit ''custom'' \<or> starts_with (lit ''custom'') kind
     \<or> kind = lit ''function'' \<or> starts_with (lit ''bash'') kind \<or> starts_with (lit ''text_editor'') kind
     \<or> starts_with (lit ''computer'') kind \<or> json_get v (lit ''input_schema'') \<noteq> None
     \<or> json_get v (lit ''parameters'') \<noteq> None \<or> json_get v (lit ''function'') \<noteq> None"

definition described :: "string \<Rightarrow> string \<Rightarrow> 'n Value" where
  "described ty words = JObject [(lit ''type'', JString (lit ty)), (lit ''description'', JString (lit words))]"

definition bash_schema :: "'n Value" where
  "bash_schema = JObject
    [(lit ''type'', JString (lit ''object'')),
     (lit ''properties'', JObject
       [(lit ''command'', described ''string'' ''The command to run in the bash shell.''),
        (lit ''restart'', described ''boolean'' ''Set to true to restart the bash session.'')]),
     (lit ''required'', JArray [JString (lit ''command'')])]"

definition text_editor_schema :: "'n Value" where
  "text_editor_schema = JObject
    [(lit ''type'', JString (lit ''object'')),
     (lit ''properties'', JObject
       [(lit ''command'', JObject
          [(lit ''type'', JString (lit ''string'')),
           (lit ''enum'', JArray [JString (lit ''view''), JString (lit ''create''), JString (lit ''str_replace''),
              JString (lit ''insert''), JString (lit ''undo_edit'')]),
           (lit ''description'', JString (lit ''The command to run.''))]),
        (lit ''path'', described ''string'' ''The absolute path to the file or directory to view or edit.''),
        (lit ''file_text'', described ''string'' ''The content of the file to create.''),
        (lit ''old_str'', described ''string'' ''The string to replace.''),
        (lit ''new_str'', described ''string'' ''The replacement string.''),
        (lit ''insert_line'', described ''integer'' ''The line number to insert text at.''),
        (lit ''view_range'', JObject
          [(lit ''type'', JString (lit ''array'')),
           (lit ''items'', JObject [(lit ''type'', JString (lit ''integer''))]),
           (lit ''description'', JString (lit ''The range of lines to view.''))])]),
     (lit ''required'', JArray [JString (lit ''command''), JString (lit ''path'')])]"

definition anthropic_defaults :: "rstr \<Rightarrow> rstr \<Rightarrow> 'n Value option \<times> 'n Value option" where
  "anthropic_defaults kind name =
    (if starts_with (lit ''bash'') kind \<or> name = lit ''bash''
     then (Some (JString (lit ''Execute a bash command in a persistent shell environment.'')), Some bash_schema)
     else if starts_with (lit ''text_editor'') kind \<or> name = lit ''str_replace_editor''
     then (Some (JString (lit ''Custom text editor tool for viewing, creating and editing files.'')),
           Some text_editor_schema)
     else (None, None))"

definition from_anthropic :: "'n Value \<Rightarrow> ToolError + 'n ToolDefinition" where
  "from_anthropic v =
    (let kind = str_field v ''type''
     in if \<not> is_anthropic_client_tool kind v then Inl (ServerTool kind)
        else
          (let f = function_of v;
               name = str_field f ''name'';
               description = json_get f (lit ''description'');
               params = or_else (json_get f (lit ''input_schema'')) (json_get f (lit ''parameters''));
               (default_desc, default_params) = anthropic_defaults kind name
           in tool_build name (or_else description default_desc) (or_else params default_params)))"

definition from_responses :: "'n Value \<Rightarrow> ToolError + 'n ToolDefinition" where
  "from_responses v =
    (let kind = str_field v ''type''
     in if kind \<noteq> [] \<and> kind \<noteq> lit ''function'' \<and> kind \<noteq> lit ''custom'' then Inl (UnsupportedToolType kind)
        else
          (let f = function_of v
           in tool_build (str_field f ''name'') (json_get f (lit ''description''))
                (or_else (json_get f (lit ''parameters'')) (json_get f (lit ''input_schema'')))))"

text \<open>\<open>collect\<close> into a \<open>Result\<close>: the first error, or all the values.\<close>

fun collect :: "('e + 'a) list \<Rightarrow> 'e + 'a list" where
  "collect [] = Inr []"
| "collect (r # rs) = rbind r (\<lambda>x. rbind (collect rs) (\<lambda>xs. Inr (x # xs)))"

definition namespace_member :: "rstr \<Rightarrow> 'n Value \<Rightarrow> ToolError + 'n ToolDefinition" where
  "namespace_member ns tool =
    (let kind = str_field tool ''type''
     in if kind \<noteq> [] \<and> kind \<noteq> lit ''function'' \<and> kind \<noteq> lit ''custom'' then Inl (NamespaceHolds ns)
        else
          (let f = function_of tool
           in tool_build (ns @ lit ''.'' @ str_field f ''name'') (json_get f (lit ''description''))
                (or_else (json_get f (lit ''parameters'')) (json_get f (lit ''input_schema'')))))"

definition from_responses_entry :: "'n Value \<Rightarrow> ToolError + 'n ToolDefinition list" where
  "from_responses_entry v =
    (if Option.bind (json_get v (lit ''type'')) as_str = Some (lit ''namespace'')
     then
       (let ns = str_field v ''name''
        in if ns = [] then Inl NamespaceUnnamed
           else if 46 \<in> set ns then Inl (NamespaceDotted ns)
           else (case Option.bind (json_get v (lit ''tools'')) as_list of
                   None \<Rightarrow> Inl (NamespaceWithoutTools ns)
                 | Some tools \<Rightarrow> collect (map (namespace_member ns) tools)))
     else rbind (from_responses v) (\<lambda>d. Inr [d]))"

section \<open>Offered tools\<close>

definition drop_kind :: "rstr \<Rightarrow> 'n OfferedTools \<Rightarrow> 'n OfferedTools" where
  "drop_kind kind ot =
    (let kind = (if kind = [] then lit ''(untyped)'' else kind)
     in if kind \<in> set (ot_unsupported ot) then ot
        else ot\<lparr>ot_unsupported := ot_unsupported ot @ [kind]\<rparr>)"

definition no_tools :: "'n OfferedTools" where
  "no_tools = \<lparr>ot_definitions = [], ot_unsupported = []\<rparr>"

definition add_definitions :: "'n ToolDefinition list \<Rightarrow> 'n OfferedTools \<Rightarrow> 'n OfferedTools" where
  "add_definitions ds ot = ot\<lparr>ot_definitions := ot_definitions ot @ ds\<rparr>"

fun offered_responses :: "'n OfferedTools \<Rightarrow> 'n Value list \<Rightarrow> ToolError + 'n OfferedTools" where
  "offered_responses ot [] = Inr ot"
| "offered_responses ot (v # vs) =
    (let kind = str_field v ''type''
     in if kind = lit ''function'' \<or> kind = lit ''namespace''
        then rbind (from_responses_entry v) (\<lambda>ds. offered_responses (add_definitions ds ot) vs)
        else offered_responses (drop_kind kind ot) vs)"

fun offered_openai :: "'n OfferedTools \<Rightarrow> 'n Value list \<Rightarrow> ToolError + 'n OfferedTools" where
  "offered_openai ot [] = Inr ot"
| "offered_openai ot (v # vs) =
    (let kind = str_field v ''type''
     in if kind = lit ''function''
        then rbind (from_openai v) (\<lambda>d. offered_openai (add_definitions [d] ot) vs)
        else offered_openai (drop_kind kind ot) vs)"

fun offered_anthropic :: "'n OfferedTools \<Rightarrow> 'n Value list \<Rightarrow> ToolError + 'n OfferedTools" where
  "offered_anthropic ot [] = Inr ot"
| "offered_anthropic ot (v # vs) =
    (let kind = str_field v ''type''
     in if is_anthropic_client_tool kind v
        then rbind (from_anthropic v) (\<lambda>d. offered_anthropic (add_definitions [d] ot) vs)
        else offered_anthropic (drop_kind kind ot) vs)"

section \<open>The grammar's tools\<close>

definition split_on :: "nat \<Rightarrow> rstr \<Rightarrow> rstr list" where
  "split_on sep s = foldr (\<lambda>c parts. if c = sep then [] # parts else (c # hd parts) # tl parts) s [[]]"

fun replace_pair :: "nat \<Rightarrow> nat \<Rightarrow> nat \<Rightarrow> rstr \<Rightarrow> rstr" where
  "replace_pair a b c (x # y # s) =
    (if x = a \<and> y = b then c # replace_pair a b c s else x # replace_pair a b c (y # s))"
| "replace_pair a b c s = s"

text \<open>A local JSON pointer: \<open>~1\<close> is a slash and \<open>~0\<close> a tilde.\<close>

definition pointer_segment :: "rstr \<Rightarrow> rstr" where
  "pointer_segment s = replace_pair 126 48 126 (replace_pair 126 49 47 s)"

definition resolve :: "'n Value \<Rightarrow> rstr \<Rightarrow> 'n Value option" where
  "resolve root reference =
    (case strip_prefix (lit ''#/'') reference of
       None \<Rightarrow> None
     | Some segs \<Rightarrow> fold (\<lambda>segment node. Option.bind node (\<lambda>v. json_get v (pointer_segment segment)))
         (split_on 47 segs) (Some root))"

definition type_is_string :: "(rstr \<times> 'n Value) list \<Rightarrow> bool" where
  "type_is_string obj =
    (case map_of obj (lit ''type'') of
       Some (JString kind) \<Rightarrow> kind = lit ''string''
     | Some (JArray kinds) \<Rightarrow> list_ex (\<lambda>kind. as_str kind = Some (lit ''string'')) kinds
     | _ \<Rightarrow> False)"

definition text_formats :: "rstr list" where
  "text_formats = map lit [''date'', ''time'', ''date-time'', ''uri'', ''email'', ''hostname'', ''ipv4'', ''ipv6'', ''uuid'']"

text \<open>The conditions after the recursive ones, from \<open>const\<close> on.\<close>

definition looks_textual :: "(rstr \<times> 'n Value) list \<Rightarrow> bool" where
  "looks_textual obj \<longleftrightarrow>
    (case map_of obj (lit ''const'') of Some (JString _) \<Rightarrow> True | _ \<Rightarrow> False)
    \<or> (case Option.bind (map_of obj (lit ''enum'')) as_list of
         Some vs \<Rightarrow> list_ex (\<lambda>v. as_str v \<noteq> None) vs | None \<Rightarrow> False)
    \<or> list_ex (\<lambda>key. map_of obj (lit key) \<noteq> None) [''pattern'', ''minLength'', ''maxLength'']
    \<or> (case Option.bind (map_of obj (lit ''format'')) as_str of Some f \<Rightarrow> f \<in> set text_formats | None \<Rightarrow> False)"

definition array_field :: "(rstr \<times> 'n Value) list \<Rightarrow> string \<Rightarrow> 'n Value list option" where
  "array_field obj key = Option.bind (map_of obj (lit key)) as_list"

text \<open>\<open>any\<close> (not \<open>every\<close>) or \<open>all\<close> (\<open>every\<close>) over a list of schemas, threading the references seen; the body of
  \<open>resolves_to_string\<close> is applied to each in turn and calls it back for its own branches.\<close>

partial_function (option) scan_schemas ::
  "'n Value \<Rightarrow> bool \<Rightarrow> 'n Value list \<Rightarrow> rstr list \<Rightarrow> (bool \<times> rstr list) option" where
  [code]: "scan_schemas root every schemas seen = (case schemas of
      [] \<Rightarrow> Some (every, seen)
    | schema # rest \<Rightarrow> do {
        (b, seen) \<leftarrow> (case as_object schema of
            None \<Rightarrow> Some (False, seen)
          | Some obj \<Rightarrow> (case Option.bind (map_of obj (lit ''$ref'')) as_str of
              Some reference \<Rightarrow>
                if reference \<in> set seen then Some (False, seen)
                else (case resolve root reference of
                    None \<Rightarrow> Some (False, seen @ [reference])
                  | Some target \<Rightarrow> scan_schemas root False [target] (seen @ [reference]))
            | None \<Rightarrow>
                if type_is_string obj then Some (True, seen)
                else do {
                  (b, seen) \<leftarrow> (case array_field obj ''oneOf'' of
                      None \<Rightarrow> Some (False, seen) | Some alts \<Rightarrow> scan_schemas root False alts seen);
                  if b then Some (True, seen) else do {
                    (b, seen) \<leftarrow> (case array_field obj ''anyOf'' of
                        None \<Rightarrow> Some (False, seen) | Some alts \<Rightarrow> scan_schemas root False alts seen);
                    if b then Some (True, seen) else do {
                      (b, seen) \<leftarrow> (case array_field obj ''allOf'' of
                          None \<Rightarrow> Some (False, seen)
                        | Some comps \<Rightarrow> if comps = [] then Some (False, seen) else scan_schemas root True comps seen);
                      Some (b \<or> looks_textual obj, seen)
                    }
                  }
                }));
        if b = every then scan_schemas root every rest seen else Some (b, seen)
      })"

definition resolves_to_string :: "'n Value \<Rightarrow> 'n Value \<Rightarrow> rstr list \<Rightarrow> (bool \<times> rstr list) option" where
  "resolves_to_string root schema seen = scan_schemas root False [schema] seen"

definition schema_type :: "'n Value \<Rightarrow> rstr option" where
  "schema_type schema =
    (case json_get schema (lit ''type'') of
       Some (JString kind) \<Rightarrow> Some kind
     | Some (JArray [kind]) \<Rightarrow> as_str kind
     | _ \<Rightarrow> None)"

fun literals_of :: "('n Value \<Rightarrow> rstr option) \<Rightarrow> 'n Value list \<Rightarrow> rstr list option" where
  "literals_of to_json [] = Some []"
| "literals_of to_json (v # vs) =
    (case v of JObject _ \<Rightarrow> None | JArray _ \<Rightarrow> None
     | _ \<Rightarrow> Option.bind (to_json v) (\<lambda>l. map_option (Cons l) (literals_of to_json vs)))"

definition literal_set :: "('n Value \<Rightarrow> rstr option) \<Rightarrow> 'n Value \<Rightarrow> rstr list option" where
  "literal_set to_json schema =
    Option.bind
      (case json_get schema (lit ''const'') of
         Some one \<Rightarrow> Some [one]
       | None \<Rightarrow> (case json_get schema (lit ''enum'') of
           Some (JArray many) \<Rightarrow> if many \<noteq> [] then Some many else None
         | _ \<Rightarrow> None))
      (\<lambda>vs. map_option (\<lambda>ls. remdups_adj (sort ls)) (literals_of to_json vs))"

definition value_spec :: "('n Value \<Rightarrow> rstr option) \<Rightarrow> 'n Value \<Rightarrow> 'n Value \<Rightarrow> ValueSpec option" where
  "value_spec to_json root schema = do {
     (b, _) \<leftarrow> resolves_to_string root schema [];
     Some
       (if b then Text
        else (case literal_set to_json schema of
            Some ls \<Rightarrow> Literals (map utf8 ls)
          | None \<Rightarrow>
              (let ty = schema_type schema
               in if ty = Some (lit ''boolean'') then Boolean
                  else if ty = Some (lit ''integer'') then Integer
                  else if ty = Some (lit ''number'') then Number
                  else if ty = Some (lit ''null'') then Null
                  else Text)))
   }"

fun param_specs ::
  "('n Value \<Rightarrow> rstr option) \<Rightarrow> 'n Value \<Rightarrow> rstr list \<Rightarrow> (rstr \<times> 'n Value) list \<Rightarrow> ParamSpec list option" where
  "param_specs to_json schema required [] = Some []"
| "param_specs to_json schema required ((name, property) # rest) =
    (if name = [] \<or> lt \<in> set name \<or> gt \<in> set name \<or> newline \<in> set name
     then param_specs to_json schema required rest
     else do {
       val \<leftarrow> value_spec to_json schema property;
       specs \<leftarrow> param_specs to_json schema required rest;
       Some (\<lparr>pa_name = utf8 name, pa_required = name \<in> set required, pa_value = val\<rparr> # specs)
     })"

definition parameters_of :: "('n Value \<Rightarrow> rstr option) \<Rightarrow> 'n Value \<Rightarrow> ParamSpec list option" where
  "parameters_of to_json fn =
    (case or_else (json_get fn (lit ''parameters'')) (json_get fn (lit ''input_schema'')) of
       None \<Rightarrow> Some []
     | Some schema \<Rightarrow>
         (case Option.bind (json_get schema (lit ''properties'')) as_object of
            None \<Rightarrow> Some []
          | Some properties \<Rightarrow>
              param_specs to_json schema
                (case Option.bind (json_get schema (lit ''required'')) as_list of
                   Some names \<Rightarrow> List.map_filter as_str names | None \<Rightarrow> [])
                properties))"

text \<open>The outer option is a scan that does not return, the inner one the source's.\<close>

definition from_wrapper :: "('n Value \<Rightarrow> rstr option) \<Rightarrow> 'n Value \<Rightarrow> ToolSpec option option" where
  "from_wrapper to_json wrapper =
    (let fn = function_of wrapper
     in case Option.bind (json_get fn (lit ''name'')) as_str of
          None \<Rightarrow> Some None
        | Some name \<Rightarrow>
            if name = [] then Some None
            else do { params \<leftarrow> parameters_of to_json fn; Some (Some \<lparr>to_name = utf8 name, to_params = params\<rparr>) })"

fun specs_of :: "('n Value \<Rightarrow> rstr option) \<Rightarrow> 'n ToolDefinition list \<Rightarrow> ToolSpec list option" where
  "specs_of to_json [] = Some []"
| "specs_of to_json (d # ds) = do {
     spec \<leftarrow> from_wrapper to_json (td_wrapper d);
     specs \<leftarrow> specs_of to_json ds;
     Some (case spec of Some s \<Rightarrow> s # specs | None \<Rightarrow> specs)
   }"

definition tool_grammar :: "('n Value \<Rightarrow> rstr option) \<Rightarrow> 'n ToolDefinition list \<Rightarrow> Vocab \<Rightarrow> (Machine \<times> Vocab) option option" where
  "tool_grammar to_json tools v = do { specs \<leftarrow> specs_of to_json tools; ToolGrammar_new specs True v }"

end
