(* ===== verification/ParserChunks.thy ===== *)
theory ParserChunks
  imports ToolParser
begin

text \<open>
  What the incremental parser means: a plain reading of the whole text. However the text is cut into
  chunks, the parser's events are those of the reading, adjacent pieces of text joined.
\<close>

section \<open>The reading of a whole text\<close>

definition block_event :: "(rstr \<Rightarrow> 'n Value option) \<Rightarrow> (rstr \<times> Schema) list \<Rightarrow> rstr \<Rightarrow> 'n ToolEvent" where
  "block_event from_json schemas raw =
    (case parse_call from_json schemas raw of Some c \<Rightarrow> TCall c | None \<Rightarrow> TText (CALL_OPEN @ raw @ CALL_CLOSE))"

lemma CALL_CLOSE_len: "length CALL_CLOSE = 12" "CALL_CLOSE \<noteq> []"
  by (simp_all add: CALL_CLOSE_def lit_def)

lemma find_str_fits: "find_str p s = Some i \<Longrightarrow> i + length p \<le> length s"
  by (auto simp: find_str_Some starts_with_prefix dest: arg_cong [where f = length])

function reading ::
  "(rstr \<Rightarrow> 'n Value option) \<Rightarrow> (rstr \<times> Schema) list \<Rightarrow> rstr list \<Rightarrow> ParserState \<Rightarrow> rstr \<Rightarrow> 'n ToolEvent list" where
  "reading from_json schemas openers InText s =
    (case next_opener openers s of
       None \<Rightarrow> [TText s]
     | Some (i, opener) \<Rightarrow>
         TText (take i s) # reading from_json schemas openers
           (InCall (if opener = CALL_OPEN then [] else opener)) (drop (length opener) (drop i s)))"
| "reading from_json schemas openers (InCall raw) s =
    (case find_str CALL_CLOSE s of
       None \<Rightarrow> [TText (CALL_OPEN @ raw @ s)]
     | Some i \<Rightarrow> block_event from_json schemas (raw @ take i s)
         # reading from_json schemas openers InText (drop (i + length CALL_CLOSE) s))"
  by pat_completeness auto

termination
  by (relation "measure (\<lambda>(_, _, _, st, s). 2 * length s + (if st = InText then 1 else 0))")
    (auto dest!: find_str_fits simp: CALL_CLOSE_len)

declare reading.simps [simp del]

text \<open>Whitespace right after a call is markup; empty text is no event.\<close>

fun render :: "bool \<Rightarrow> 'n ToolEvent list \<Rightarrow> 'n ToolEvent list" where
  "render swallow [] = []"
| "render swallow (TText s # es) =
    (if swallow
     then (if trim_start s = [] then render True es else TText (trim_start s) # render False es)
     else if s = [] then render False es else TText s # render False es)"
| "render swallow (TCall c # es) = TCall c # render True es"

text \<open>Adjacent text joined.\<close>

fun merge_text :: "rstr \<Rightarrow> 'n ToolEvent list \<Rightarrow> 'n ToolEvent list" where
  "merge_text s (TText t # r) = TText (s @ t) # r"
| "merge_text s r = (if s = [] then r else TText s # r)"

fun join :: "'n ToolEvent list \<Rightarrow> 'n ToolEvent list" where
  "join [] = []"
| "join (TCall c # es) = TCall c # join es"
| "join (TText s # es) = merge_text s (join es)"

lemma merge_merge: "merge_text a (merge_text b r) = merge_text (a @ b) r"
  by (cases "(b, r)" rule: merge_text.cases) auto

lemma merge_empty: "merge_text [] r = r"
  by (cases "([] :: rstr, r)" rule: merge_text.cases) auto

lemma join_cong: "join xs = join ys \<Longrightarrow> join (zs @ xs) = join (zs @ ys)"
  by (induction zs rule: join.induct) auto

lemma trim_start_append:
  "trim_start (a @ b) = (if trim_start a = [] then trim_start b else trim_start a @ b)"
  by (auto simp: trim_start_def dropWhile_append)

lemma trim_start_Nil [simp]: "trim_start [] = []"
  by (simp add: trim_start_def)

lemma view_text: "join (render sw (TText a # TText b # es)) = join (render sw (TText (a @ b) # es))"
  by (auto simp: trim_start_append merge_merge)

lemma view_empty: "join (render False (TText [] # es)) = join (render False es)"
  by simp

lemma view_cons:
  "(\<And>sw. join (render sw es) = join (render sw es')) \<Longrightarrow> join (render sw (e # es)) = join (render sw (e # es'))"
  by (cases e) auto

section \<open>Occurrences\<close>

abbreviation occ :: "rstr \<Rightarrow> rstr \<Rightarrow> nat \<Rightarrow> bool" where
  "occ p s i \<equiv> starts_with p (drop i s)"

lemma occ_fits: "occ p s i \<Longrightarrow> p \<noteq> [] \<Longrightarrow> i + length p \<le> length s"
  by (cases "i \<le> length s") (auto simp: starts_with_prefix dest: arg_cong [where f = length])

lemma occ_append: "i + length p \<le> length s \<Longrightarrow> occ p (s @ t) i \<longleftrightarrow> occ p s i"
  by (simp add: starts_with_def)

lemma occ_nth: "occ p s i \<Longrightarrow> k < length p \<Longrightarrow> p \<noteq> [] \<Longrightarrow> s ! (i + k) = p ! k"
  using occ_fits [of p i s] by (auto simp: starts_with_def) (metis le_add1 le_trans nth_drop nth_take)

lemma occ_drop: "occ p (drop e s) i \<longleftrightarrow> occ p s (e + i)"
  by (simp add: add.commute)

lemma find_str_None_occ: "p \<noteq> [] \<Longrightarrow> find_str p s = None \<longleftrightarrow> (\<forall>i. \<not> occ p s i)"
  unfolding find_str_None using occ_fits by (metis add_leD1)

lemma find_str_Some_occ: "p \<noteq> [] \<Longrightarrow> find_str p s = Some i \<longleftrightarrow> occ p s i \<and> (\<forall>j < i. \<not> occ p s j)"
  unfolding find_str_Some using occ_fits by (metis add_leD1)

lemma find_str_append:
  assumes p: "p \<noteq> []" and at: "find_str p s = Some i"
  shows "find_str p (s @ t) = Some i"
proof -
  have "i + length p \<le> length s" using at by (rule find_str_fits)
  then have "occ p (s @ t) j \<longleftrightarrow> occ p s j" if "j \<le> i" for j using that by (intro occ_append) linarith
  then show ?thesis using at unfolding find_str_Some_occ [OF p] by (metis le_refl less_imp_le_nat)
qed

lemma find_str_drop:
  assumes p: "p \<noteq> []" and none: "\<forall>j < e. \<not> occ p s j"
  shows "find_str p s = map_option ((+) e) (find_str p (drop e s))"
proof (cases "find_str p (drop e s)")
  case None
  then have later: "\<not> occ p s (e + i)" for i using p by (simp add: find_str_None_occ occ_drop del: drop_drop)
  have "\<not> occ p s i" for i using none later [of "i - e"] by (cases "i < e") auto
  then have "find_str p s = None" unfolding find_str_None_occ [OF p] by blast
  then show ?thesis using None by simp
next
  case (Some i)
  then have "occ p s (e + i)" "\<forall>j < i. \<not> occ p s (e + j)" using p by (auto simp: find_str_Some_occ occ_drop simp del: drop_drop)
  then have "find_str p s = Some (e + i)" unfolding find_str_Some_occ [OF p] using none
    by (metis add_diff_inverse_nat nat_add_left_cancel_less)
  then show ?thesis using Some by simp
qed

section \<open>Held-back text\<close>

lemma held_back_len_ge:
  assumes needle: "needle \<in> set needles" and n: "0 < n" "n < length needle" "n \<le> length s"
    and suffix: "drop (length s - n) s = take n needle"
  shows "n \<le> held_back_len s needles"
proof -
  define step where "step needle held = fold (\<lambda>n held. if n \<le> length s \<and> drop (length s - n) s = take n needle
      then max held n else held) [1..<length needle] held" for needle held
  have mono: "held \<le> fold (\<lambda>n held. if n \<le> length s \<and> drop (length s - n) s = take n nd then max held n else held) ns held"
    for nd ns held by (induction ns arbitrary: held) (auto intro: le_trans [OF max.cobounded1])
  have found: "n \<in> set ns \<Longrightarrow> n \<le> fold (\<lambda>n held. if n \<le> length s \<and> drop (length s - n) s = take n needle
      then max held n else held) ns held" for ns held
  proof (induction ns arbitrary: held)
    case (Cons m ns)
    then show ?case using n(3) suffix mono [of "max held n" needle ns] by (cases "m = n") auto
  qed simp
  have step_mono: "held \<le> step nd held" for nd held unfolding step_def by (rule mono)
  have "n \<le> step needle held" for held unfolding step_def by (rule found) (use n in auto)
  then have "needle \<in> set nds \<Longrightarrow> n \<le> fold step nds held" for nds held
  proof (induction nds arbitrary: held)
    case (Cons nd nds)
    have grow: "held \<le> fold step nds held" for held
      by (induction nds arbitrary: held) (auto intro: le_trans [OF step_mono])
    show ?case using Cons grow [of "step nd held"] by (auto intro: le_trans)
  qed simp
  from this [OF needle] show ?thesis unfolding held_back_len_def step_def .
qed

lemma held_back_len_le: "held_back_len s needles \<le> length s"
proof -
  have inner: "held \<le> length s \<Longrightarrow> fold (\<lambda>n held. if n \<le> length s \<and> drop (length s - n) s = take n nd then max held n else held) ns held
      \<le> length s" for nd ns held by (induction ns arbitrary: held) auto
  have "held \<le> length s \<Longrightarrow> fold (\<lambda>needle held. fold (\<lambda>n held.
        if n \<le> length s \<and> drop (length s - n) s = take n needle then max held n else held)
      [1..<length needle] held) nds held \<le> length s" for nds held
    by (induction nds arbitrary: held) (auto intro: inner)
  then show ?thesis by (simp add: held_back_len_def)
qed

text \<open>No needle that is not in the text yet can begin before what is held back, whatever comes next.\<close>

lemma no_early_occurrence:
  assumes p: "p \<in> set needles" "p \<noteq> []" and none: "\<forall>i. \<not> occ p s i" and j: "j < length s - held_back_len s needles"
  shows "\<not> occ p (s @ t) j"
proof
  assume at: "occ p (s @ t) j"
  have "\<not> j + length p \<le> length s" using at none occ_append [of j p s t] by blast
  then have n: "0 < length s - j" "length s - j < length p" using j by auto
  have "take (length s - j) (drop j (s @ t)) = take (length s - j) p"
    using at n(2) by (metis less_imp_le_nat min.absorb1 starts_with_def take_take)
  then have "drop (length s - (length s - j)) s = take (length s - j) p" using j by simp
  then have "length s - j \<le> held_back_len s needles" using n p by (intro held_back_len_ge) auto
  then show False using j by linarith
qed

section \<open>Openers\<close>

text \<open>Openers begin with the only \<open><\<close> and end with the only \<open>>\<close> in them, so no two overlap.\<close>

definition openers_ok :: "rstr list \<Rightarrow> bool" where
  "openers_ok ops \<longleftrightarrow> ops \<noteq> [] \<and> (\<forall>op \<in> set ops. op \<noteq> [] \<and> hd op = lt \<and> lt \<notin> set (tl op) \<and> last op = gt
     \<and> gt \<notin> set (butlast op))"

lemma min_by_fst_props:
  "min_by_fst xs = None \<longleftrightarrow> xs = []"
  "min_by_fst xs = Some x \<Longrightarrow> x \<in> set xs \<and> (\<forall>y \<in> set xs. fst x \<le> fst y)"
proof -
  show "min_by_fst xs = None \<longleftrightarrow> xs = []" by (cases xs) (auto split: option.splits)
  show "min_by_fst xs = Some x \<Longrightarrow> x \<in> set xs \<and> (\<forall>y \<in> set xs. fst x \<le> fst y)"
  proof (induction xs arbitrary: x)
    case (Cons a xs)
    have none: "min_by_fst xs = None \<Longrightarrow> xs = []" by (cases xs) (auto split: option.splits)
    show ?case
    proof (cases "min_by_fst xs")
      case None
      then show ?thesis using Cons.prems none by auto
    next
      case (Some y)
      then show ?thesis using Cons.IH [OF Some] Cons.prems by (auto split: if_splits)
    qed
  qed simp
qed

lemma set_finds: "set (List.map_filter f xs) = {y. \<exists>x \<in> set xs. f x = Some y}"
  by (induction xs) (auto simp: List.map_filter_simps split: option.splits)

lemma next_opener_None:
  assumes ok: "openers_ok ops"
  shows "next_opener ops s = None \<longleftrightarrow> (\<forall>op \<in> set ops. \<forall>i. \<not> occ op s i)"
proof -
  have "next_opener ops s = None \<longleftrightarrow> set (List.map_filter (\<lambda>opener. map_option (\<lambda>i. (i, opener)) (find_str opener s)) ops) = {}"
    by (simp add: next_opener_def min_by_fst_props(1))
  also have "\<dots> \<longleftrightarrow> (\<forall>op \<in> set ops. find_str op s = None)"
    by (simp add: set_finds) (metis not_None_eq)
  also have "\<dots> \<longleftrightarrow> (\<forall>op \<in> set ops. \<forall>i. \<not> occ op s i)"
    using ok find_str_None_occ by (metis openers_ok_def)
  finally show ?thesis .
qed

lemma one_opener:
  assumes ok: "openers_ok ops" and mem: "a \<in> set ops" "b \<in> set ops" and at: "occ a s i" "occ b s i"
  shows "a = b"
proof -
  have wlog: "a = b" if "length a \<le> length b" "a \<in> set ops" "b \<in> set ops" "occ a s i" "occ b s i" for a b
  proof -
    have a: "a \<noteq> []" "last a = gt" and b: "b \<noteq> []" "gt \<notin> set (butlast b)" using ok that(2,3) by (auto simp: openers_ok_def)
    have pre: "take (length a) b = a" using that by (metis min.absorb1 starts_with_def take_take)
    show "a = b"
    proof (rule ccontr)
      assume "a \<noteq> b"
      then have less: "length a < length b" using pre that(1) by (cases "length a = length b") auto
      then have "take (length a) b = take (length a) (butlast b)" by (simp add: take_butlast)
      then have "last a \<in> set (butlast b)" using pre a(1) by (metis in_set_takeD last_in_set)
      then show False using a(2) b(2) by simp
    qed
  qed
  show ?thesis
  proof (cases "length a \<le> length b")
    case True
    then show ?thesis using wlog mem at by blast
  next
    case False
    then show ?thesis using wlog [of b a] mem at by auto
  qed
qed

lemma next_opener_Some:
  assumes ok: "openers_ok ops"
  shows "next_opener ops s = Some (i, op) \<longleftrightarrow>
    op \<in> set ops \<and> occ op s i \<and> (\<forall>op' \<in> set ops. \<forall>j < i. \<not> occ op' s j)"
    (is "?l \<longleftrightarrow> ?r i op")
proof -
  define found where "found = List.map_filter (\<lambda>opener. map_option (\<lambda>i. (i, opener)) (find_str opener s)) ops"
  have ne: "\<And>op. op \<in> set ops \<Longrightarrow> op \<noteq> []" using ok by (auto simp: openers_ok_def)
  have set_found: "set found = {(i, op). op \<in> set ops \<and> occ op s i \<and> (\<forall>j < i. \<not> occ op s j)}"
    unfolding found_def set_finds using find_str_Some_occ ne by auto
  have imp: "?r i op" if "next_opener ops s = Some (i, op)" for i op
  proof -
    have mem: "(i, op) \<in> set found" and least: "\<And>y. y \<in> set found \<Longrightarrow> i \<le> fst y"
      using min_by_fst_props(2) [of found "(i, op)"] that by (auto simp: next_opener_def found_def)
    have "\<not> occ op' s j" if op': "op' \<in> set ops" and j: "j < i" for op' j
    proof
      assume "occ op' s j"
      then obtain k where k: "occ op' s k" "k \<le> j" "\<forall>m < k. \<not> occ op' s m"
        using LeastI [of "occ op' s" j] Least_le [of "occ op' s" j] not_less_Least [of _ "occ op' s"] by blast
      then have "(k, op') \<in> set found" using op' by (simp add: set_found)
      from least [OF this] show False using k(2) j by simp
    qed
    then show ?thesis using mem by (simp add: set_found)
  qed
  show ?thesis
  proof
    assume ?l
    then show "?r i op" by (rule imp)
  next
    assume r: "?r i op"
    then have "next_opener ops s \<noteq> None" using next_opener_None [OF ok] by blast
    then obtain k b where k: "next_opener ops s = Some (k, b)" by fastforce
    from imp [OF k] r have "k = i" by (meson linorder_neqE_nat)
    moreover have "b = op" using imp [OF k] r \<open>k = i\<close> one_opener [OF ok, of b op i s] by blast
    ultimately show ?l using k by simp
  qed
qed

lemma next_opener_append:
  assumes ok: "openers_ok ops" and at: "next_opener ops s = Some (i, op)"
  shows "next_opener ops (s @ t) = Some (i, op)"
proof -
  have op: "op \<in> set ops" "occ op s i" and first: "\<And>b j. b \<in> set ops \<Longrightarrow> j < i \<Longrightarrow> \<not> occ b s j"
    using at next_opener_Some [OF ok] by auto
  have ne: "op \<noteq> []" "hd op = lt" using ok op(1) by (auto simp: openers_ok_def)
  have fits: "i + length op \<le> length s" using occ_fits [OF op(2) ne(1)] .
  have "\<not> occ b (s @ t) j" if b: "b \<in> set ops" and j: "j < i" for b j
  proof
    assume occ_b: "occ b (s @ t) j"
    have b_ne: "b \<noteq> []" "lt \<notin> set (tl b)" using ok b by (auto simp: openers_ok_def)
    have "\<not> j + length b \<le> length s" using first [OF b j] occ_append [of j b s t] occ_b by blast
    then have inside: "i - j < length b" "0 < i - j" using j fits ne(1) by (auto simp: neq_Nil_conv)
    have "(s @ t) ! i = b ! (i - j)" using occ_nth [OF occ_b inside(1) b_ne(1)] j by simp
    moreover have "(s @ t) ! i = lt"
      using occ_nth [OF op(2), of 0] ne fits by (cases op) (simp_all add: nth_append)
    moreover have "b ! (i - j) \<in> set (tl b)" using inside b_ne(1) by (cases b) (auto simp: nth_Cons' intro: nth_mem)
    ultimately show False using b_ne(2) by simp
  qed
  moreover have "occ op (s @ t) i" using occ_append [OF fits, of t] op(2) by blast
  ultimately show ?thesis unfolding next_opener_Some [OF ok] using op(1) by blast
qed

lemma next_opener_drop:
  assumes ok: "openers_ok ops" and none: "\<forall>op \<in> set ops. \<forall>j < e. \<not> occ op s j"
  shows "next_opener ops s = map_option (\<lambda>(i, op). (e + i, op)) (next_opener ops (drop e s))"
proof (cases "next_opener ops (drop e s)")
  case None
  then have later: "\<not> occ op s (e + i)" if "op \<in> set ops" for op i
    using that unfolding next_opener_None [OF ok] occ_drop by blast
  have "\<not> occ op s i" if "op \<in> set ops" for op i using none later [OF that, of "i - e"] that by (cases "i < e") auto
  then show ?thesis using None next_opener_None [OF ok, of s] by simp
next
  case (Some x)
  obtain i op where x: "x = (i, op)" by (cases x)
  have op: "op \<in> set ops" "occ op s (e + i)" and first: "\<And>b j. b \<in> set ops \<Longrightarrow> j < i \<Longrightarrow> \<not> occ b s (e + j)"
    using Some unfolding x next_opener_Some [OF ok] occ_drop by blast+
  have "\<not> occ b s j" if "b \<in> set ops" "j < e + i" for b j
    using none first [of b "j - e"] that by (cases "j < e") auto
  then have "next_opener ops s = Some (e + i, op)" unfolding next_opener_Some [OF ok] using op by blast
  then show ?thesis using Some x by simp
qed

lemma drop_opener_shorter:
  assumes "openers_ok ops" and "next_opener ops s = Some (i, op)"
  shows "length (drop (length op) (drop i s)) < length s"
proof -
  have "op \<noteq> []" "occ op s i" using assms next_opener_Some [OF assms(1)] by (auto simp: openers_ok_def)
  from occ_fits [OF this(2,1)] this(1) show ?thesis by (cases op) auto
qed

section \<open>One chunk\<close>

definition raw_of :: "ParserState \<Rightarrow> rstr" where
  "raw_of st = (case st of InText \<Rightarrow> [] | InCall raw \<Rightarrow> raw)"

definition weight :: "ToolCallParser \<Rightarrow> nat" where
  "weight p = byte_len (raw_of (tp_state p)) + byte_len (tp_pending p)"

text \<open>The events a parser will have produced once the rest of the text has been read.\<close>

definition outcome :: "(rstr \<Rightarrow> 'n Value option) \<Rightarrow> ToolCallParser \<Rightarrow> 'n ToolEvent list \<Rightarrow> rstr \<Rightarrow> 'n ToolEvent list" where
  "outcome from_json p events future = join (events @ render (tp_swallow p)
     (reading from_json (tp_schemas p) (tp_openers p) (tp_state p) (tp_pending p @ future)))"

definition settled :: "ToolCallParser \<Rightarrow> bool" where
  "settled p \<longleftrightarrow> (case tp_state p of
      InText \<Rightarrow> next_opener (tp_openers p) (tp_pending p) = None
    | InCall raw \<Rightarrow> find_str CALL_CLOSE (tp_pending p) = None)"

lemma emit_text_view:
  assumes "emit_text s p events = (p', events')"
  shows "join (events' @ render (tp_swallow p') es) = join (events @ render (tp_swallow p) (TText s # es))"
    and "p' = p\<lparr>tp_swallow := tp_swallow p'\<rparr>"
  using assms by (auto simp: emit_text_def Let_def split: if_splits)

lemma weight_le:
  "byte_len (drop n s) \<le> byte_len s" "byte_len (take n s) + byte_len (drop n s) = byte_len s"
proof -
  show "byte_len (take n s) + byte_len (drop n s) = byte_len s"
    by (metis append_take_drop_id byte_len_append)
  then show "byte_len (drop n s) \<le> byte_len s" by linarith
qed

lemma reading_skip_text:
  assumes ok: "openers_ok ops" and none: "\<forall>op \<in> set ops. \<forall>j < e. \<not> occ op s j"
  shows "join (render sw (TText (take e s) # reading from_json schemas ops InText (drop e s)))
    = join (render sw (reading from_json schemas ops InText s))"
proof (cases "next_opener ops (drop e s)")
  case None
  then have "next_opener ops s = None" using next_opener_drop [OF ok none] by simp
  then have "reading from_json schemas ops InText s = [TText (take e s @ drop e s)]"
    "reading from_json schemas ops InText (drop e s) = [TText (drop e s)]"
    using None by (simp_all add: reading.simps(1))
  then show ?thesis by (simp only: view_text)
next
  case (Some x)
  obtain i op where x: "x = (i, op)" by (cases x)
  then have at: "next_opener ops s = Some (e + i, op)" using next_opener_drop [OF ok none] Some by simp
  show ?thesis
    using Some at by (simp only: reading.simps(1) [of _ _ _ s] reading.simps(1) [of _ _ _ "drop e s"] x option.case prod.case
        view_text take_add [symmetric] drop_drop add.commute [of i e])
qed

lemma reading_skip_call:
  assumes none: "\<forall>j < e. \<not> occ CALL_CLOSE s j"
  shows "reading from_json schemas ops (InCall (raw @ take e s)) (drop e s) = reading from_json schemas ops (InCall raw) s"
  using find_str_drop [OF CALL_CLOSE_len(2) none]
  by (cases "find_str CALL_CLOSE (drop e s)")
    (simp_all add: reading.simps(2) take_add [symmetric] ac_simps)

definition pushed :: "(rstr \<Rightarrow> 'n Value option) \<Rightarrow> ToolCallParser \<Rightarrow> 'n ToolEvent list \<Rightarrow> ToolCallParser \<Rightarrow>
    'n ToolEvent list \<Rightarrow> bool" where
  "pushed from_json p events p' events' \<longleftrightarrow> tp_openers p' = tp_openers p \<and> tp_schemas p' = tp_schemas p
     \<and> weight p' \<le> weight p
     \<and> (\<forall>future. outcome from_json p' events' future = outcome from_json p events future)"

lemma pushed_trans: "pushed j p e q f \<Longrightarrow> pushed j q f r g \<Longrightarrow> pushed j p e r g"
  by (auto simp: pushed_def)

text \<open>The four branches of the loop.\<close>

lemma opener_branch:
  assumes ok: "openers_ok (tp_openers p)" and st: "tp_state p = InText"
    and at: "next_opener (tp_openers p) (tp_pending p) = Some (i, op)"
    and em: "emit_text (take i (tp_pending p)) (p\<lparr>tp_pending := drop i (tp_pending p)\<rparr>) events = (p1, events')"
  shows "pushed from_json p events
    (p1\<lparr>tp_pending := drop (length op) (tp_pending p1), tp_state := InCall (if op = CALL_OPEN then [] else op)\<rparr>) events'"
    and "tp_pending p1 = drop i (tp_pending p)"
proof -
  note view = emit_text_view [OF em]
  have p1: "tp_pending p1 = drop i (tp_pending p)" "tp_openers p1 = tp_openers p" "tp_schemas p1 = tp_schemas p"
    by (subst view(2), simp)+
  then show "tp_pending p1 = drop i (tp_pending p)" by simp
  have occ: "occ op (tp_pending p) i" "op \<noteq> []" using at ok next_opener_Some [OF ok] by (auto simp: openers_ok_def)
  then have op: "take (length op) (drop i (tp_pending p)) = op" by (simp add: starts_with_def)
  have fits: "i + length op \<le> length (tp_pending p)" using occ_fits [OF occ] .
  let ?q = "p1\<lparr>tp_pending := drop (length op) (tp_pending p1), tp_state := InCall (if op = CALL_OPEN then [] else op)\<rparr>"
  have "weight ?q \<le> weight p"
    using weight_le [of i "tp_pending p"] weight_le [of "length op" "drop i (tp_pending p)"]
    by (auto simp add: weight_def raw_of_def p1 st op simp del: drop_drop)
  moreover have "outcome from_json ?q events' future = outcome from_json p events future" for future
  proof -
    have "next_opener (tp_openers p) (tp_pending p @ future) = Some (i, op)" by (rule next_opener_append [OF ok at])
    then have "reading from_json (tp_schemas p) (tp_openers p) InText (tp_pending p @ future) =
        TText (take i (tp_pending p)) # reading from_json (tp_schemas p) (tp_openers p)
          (InCall (if op = CALL_OPEN then [] else op)) (drop (length op) (drop i (tp_pending p)) @ future)"
      using fits by (simp add: reading.simps(1))
    then show ?thesis using view(1) by (simp add: outcome_def p1 st)
  qed
  ultimately show "pushed from_json p events ?q events'" by (simp add: pushed_def p1)
qed

lemma text_branch:
  assumes ok: "openers_ok (tp_openers p)" and st: "tp_state p = InText"
    and none: "next_opener (tp_openers p) (tp_pending p) = None"
    and n: "n \<le> length (tp_pending p) - held_back_len (tp_pending p) (tp_openers p)"
    and em: "emit_text (take n (tp_pending p)) (p\<lparr>tp_pending := drop n (tp_pending p)\<rparr>) events = (p1, events')"
  shows "pushed from_json p events p1 events'" and "settled p1"
proof -
  note view = emit_text_view [OF em]
  have p1: "tp_pending p1 = drop n (tp_pending p)" "tp_openers p1 = tp_openers p" "tp_schemas p1 = tp_schemas p"
    "tp_state p1 = InText"
    by (subst view(2), simp add: st)+
  have noc: "\<not> occ op (tp_pending p) j" if "op \<in> set (tp_openers p)" for op j
    using none next_opener_None [OF ok] that by blast
  have "\<not> occ op (tp_pending p @ future) j" if "op \<in> set (tp_openers p)" "j < n" for op j future
    by (rule no_early_occurrence [OF that(1)]) (use ok noc that n in \<open>auto simp: openers_ok_def\<close>)
  then have early: "\<forall>op \<in> set (tp_openers p). \<forall>j < n. \<not> occ op (tp_pending p @ future) j" for future by blast
  have "n \<le> length (tp_pending p)" using n by linarith
  then have "outcome from_json p1 events' future = outcome from_json p events future" for future
    using view(1) join_cong [OF reading_skip_text [OF ok early [of future], of "tp_swallow p" from_json "tp_schemas p"]]
    by (simp add: outcome_def p1 st del: render.simps)
  moreover have "weight p1 \<le> weight p" using weight_le(1) [of n "tp_pending p"] by (simp add: weight_def raw_of_def p1 st)
  ultimately show "pushed from_json p events p1 events'" by (simp add: pushed_def p1)
  have "\<not> occ op (drop n (tp_pending p)) j" if "op \<in> set (tp_openers p)" for op j
    using noc [OF that, of "n + j"] by (simp add: add.commute)
  then show "settled p1" using next_opener_None [OF ok] by (simp add: settled_def p1)
qed

lemma close_branch:
  assumes st: "tp_state p = InCall raw" and at: "find_str CALL_CLOSE (tp_pending p) = Some i"
  defines "p1 \<equiv> p\<lparr>tp_pending := drop (i + length CALL_CLOSE) (tp_pending p), tp_state := InText\<rparr>"
    and "blk \<equiv> raw @ take i (tp_pending p)"
  shows "parse_call from_json (tp_schemas p) blk = Some c \<Longrightarrow>
      pushed from_json p events (p1\<lparr>tp_swallow := True\<rparr>) (events @ [TCall c])"
    and "parse_call from_json (tp_schemas p) blk = None \<Longrightarrow>
      emit_text (CALL_OPEN @ blk @ CALL_CLOSE) p1 events = (p2, events') \<Longrightarrow> pushed from_json p events p2 events'"
proof -
  have fits: "i + length CALL_CLOSE \<le> length (tp_pending p)" using at by (rule find_str_fits)
  have rd: "reading from_json (tp_schemas p) (tp_openers p) (tp_state p) (tp_pending p @ future) =
      block_event from_json (tp_schemas p) blk # reading from_json (tp_schemas p) (tp_openers p) InText (tp_pending p1 @ future)" for future
    using find_str_append [OF CALL_CLOSE_len(2) at, of future] fits
    by (simp add: reading.simps(2) st p1_def blk_def)
  have w: "weight (p1\<lparr>tp_swallow := b\<rparr>) \<le> weight p" for b
    using weight_le(1) [of "i + length CALL_CLOSE" "tp_pending p"]
    by (simp add: weight_def raw_of_def st p1_def trans_le_add2)
  have sel: "tp_openers p1 = tp_openers p" "tp_schemas p1 = tp_schemas p" "tp_state p1 = InText" "tp_swallow p1 = tp_swallow p"
    by (simp_all add: p1_def)
  show "pushed from_json p events (p1\<lparr>tp_swallow := True\<rparr>) (events @ [TCall c])"
    if "parse_call from_json (tp_schemas p) blk = Some c"
    using w that by (simp add: pushed_def outcome_def rd sel block_event_def)
  show "pushed from_json p events p2 events'"
    if none: "parse_call from_json (tp_schemas p) blk = None" and em: "emit_text (CALL_OPEN @ blk @ CALL_CLOSE) p1 events = (p2, events')"
  proof -
    note view = emit_text_view [OF em]
    have p2: "p2 = p1\<lparr>tp_swallow := tp_swallow p2\<rparr>" by (rule view(2))
    have "weight p2 \<le> weight p" by (subst p2) (rule w)
    moreover have "tp_pending p2 = tp_pending p1" "tp_openers p2 = tp_openers p" "tp_schemas p2 = tp_schemas p" "tp_state p2 = InText"
      by (subst p2, simp add: sel)+
    ultimately show ?thesis using view(1) by (simp add: pushed_def outcome_def rd sel block_event_def none del: render.simps)
  qed
qed

lemma call_branch:
  assumes st: "tp_state p = InCall raw" and none: "find_str CALL_CLOSE (tp_pending p) = None"
    and n: "n = length (tp_pending p) - held_back_len (tp_pending p) [CALL_CLOSE]"
  defines "p1 \<equiv> p\<lparr>tp_pending := drop n (tp_pending p), tp_state := InCall (raw @ take n (tp_pending p))\<rparr>"
  shows "pushed from_json p events p1 events" and "settled p1" and "byte_len (raw @ take n (tp_pending p)) \<le> weight p"
proof -
  have noc: "\<forall>j. \<not> occ CALL_CLOSE (tp_pending p) j" using none find_str_None_occ [OF CALL_CLOSE_len(2)] by blast
  have early: "\<forall>j < n. \<not> occ CALL_CLOSE (tp_pending p @ future) j" for future
    using no_early_occurrence [of CALL_CLOSE "[CALL_CLOSE]" "tp_pending p" _ future] noc CALL_CLOSE_len(2) n by auto
  have "n \<le> length (tp_pending p)" using n by linarith
  then have "outcome from_json p1 events future = outcome from_json p events future" for future
    using reading_skip_call [OF early, of from_json "tp_schemas p" "tp_openers p" raw future]
    by (simp add: outcome_def p1_def st)
  moreover have w: "weight p1 \<le> weight p" "byte_len (raw @ take n (tp_pending p)) \<le> weight p"
    using weight_le(2) [of n "tp_pending p"] by (simp_all add: weight_def raw_of_def p1_def st)
  ultimately show "pushed from_json p events p1 events" by (simp add: pushed_def p1_def)
  show "byte_len (raw @ take n (tp_pending p)) \<le> weight p" by (rule w(2))
  have "\<forall>j. \<not> occ CALL_CLOSE (drop n (tp_pending p)) j" using noc by (simp add: add.commute)
  then show "settled p1" using find_str_None_occ [OF CALL_CLOSE_len(2)] by (simp add: settled_def p1_def)
qed

lemma push_loop_total:
  "openers_ok (tp_openers p) \<Longrightarrow> weight p \<le> MAX_CALL_BYTES \<Longrightarrow>
    \<exists>p' events'. push_loop from_json p events = Some (p', events') \<and> pushed from_json p events p' events' \<and> settled p'"
proof (induction "2 * length (tp_pending p) + (if tp_state p = InText then 1 else 0)" arbitrary: p events rule: less_induct)
  case less
  note ok = less.prems(1)
  have again: "\<exists>p' events'. push_loop from_json q events1 = Some (p', events') \<and> pushed from_json p events p' events' \<and> settled p'"
    if "pushed from_json p events q events1"
      and "2 * length (tp_pending q) + (if tp_state q = InText then 1 else 0) < 2 * length (tp_pending p) + (if tp_state p = InText then 1 else 0)"
    for q events1
  proof -
    have "openers_ok (tp_openers q)" "weight q \<le> MAX_CALL_BYTES" using that(1) less.prems by (auto simp: pushed_def)
    from less.hyps [OF that(2) this, of events1] show ?thesis using pushed_trans [OF that(1)] by blast
  qed
  show ?case
  proof (cases "tp_state p")
    case InText
    show ?thesis
    proof (cases "next_opener (tp_openers p) (tp_pending p)")
      case None
      let ?n = "length (tp_pending p) - held_back_len (tp_pending p) (tp_openers p)"
      obtain p1 events1 where em: "emit_text (take ?n (tp_pending p)) (p\<lparr>tp_pending := drop ?n (tp_pending p)\<rparr>) events = (p1, events1)"
        by fastforce
      note br = text_branch [OF ok InText None le_refl em]
      have "push_loop from_json p events = (if 0 < ?n then Some (p1, events1) else Some (p, events))"
        using InText None em by (subst push_loop.simps) (simp add: Let_def)
      moreover have "pushed from_json p events p events \<and> settled p" using InText None by (simp add: pushed_def settled_def)
      ultimately show ?thesis using br by auto
    next
      case (Some x)
      obtain i op where x: "x = (i, op)" by (cases x)
      obtain p1 events1 where em: "emit_text (take i (tp_pending p)) (p\<lparr>tp_pending := drop i (tp_pending p)\<rparr>) events = (p1, events1)"
        by fastforce
      note br = opener_branch [OF ok InText Some [unfolded x] em]
      let ?q = "p1\<lparr>tp_pending := drop (length op) (tp_pending p1), tp_state := InCall (if op = CALL_OPEN then [] else op)\<rparr>"
      have "push_loop from_json p events = push_loop from_json ?q events1"
        using InText Some em by (subst push_loop.simps) (simp add: Let_def x)
      moreover have "length (tp_pending ?q) < length (tp_pending p)"
        using drop_opener_shorter [OF ok Some [unfolded x]] br(2) by simp
      ultimately show ?thesis using again [OF br(1)] InText by simp
    qed
  next
    case (InCall raw)
    show ?thesis
    proof (cases "find_str CALL_CLOSE (tp_pending p)")
      case None
      let ?n = "length (tp_pending p) - held_back_len (tp_pending p) [CALL_CLOSE]"
      note br = call_branch [OF InCall None refl]
      have "push_loop from_json p events =
          Some (p\<lparr>tp_pending := drop ?n (tp_pending p), tp_state := InCall (raw @ take ?n (tp_pending p))\<rparr>, events)"
        using InCall None br(3) less.prems(2) by (subst push_loop.simps) (simp add: Let_def not_less)
      then show ?thesis using br(1,2) by blast
    next
      case (Some i)
      let ?p1 = "p\<lparr>tp_pending := drop (i + length CALL_CLOSE) (tp_pending p), tp_state := InText\<rparr>"
      let ?blk = "raw @ take i (tp_pending p)"
      have shorter: "2 * length (tp_pending ?p1) + 1 < 2 * length (tp_pending p)"
        using find_str_fits [OF Some] by (simp add: CALL_CLOSE_len)
      show ?thesis
      proof (cases "parse_call from_json (tp_schemas p) ?blk")
        case (Some c)
        have "push_loop from_json p events = push_loop from_json (?p1\<lparr>tp_swallow := True\<rparr>) (events @ [TCall c])"
          using InCall \<open>find_str CALL_CLOSE (tp_pending p) = Some i\<close> Some by (subst push_loop.simps) (simp add: Let_def)
        then show ?thesis
          using again [OF close_branch(1) [OF InCall \<open>find_str CALL_CLOSE (tp_pending p) = Some i\<close> Some, of events]] shorter InCall
          by simp
      next
        case None
        obtain p2 events2 where em: "emit_text (CALL_OPEN @ ?blk @ CALL_CLOSE) ?p1 events = (p2, events2)" by fastforce
        have "push_loop from_json p events = push_loop from_json p2 events2"
          using InCall \<open>find_str CALL_CLOSE (tp_pending p) = Some i\<close> None em by (subst push_loop.simps) (simp add: Let_def)
        moreover have "tp_pending p2 = tp_pending ?p1" "tp_state p2 = InText"
          by (subst emit_text_view(2) [OF em], simp)+
        ultimately show ?thesis
          using again [OF close_branch(2) [OF InCall \<open>find_str CALL_CLOSE (tp_pending p) = Some i\<close> None em]] shorter InCall
          by simp
      qed
    qed
  qed
qed

section \<open>All chunks\<close>

fun push_chunks ::
  "(rstr \<Rightarrow> 'n Value option) \<Rightarrow> rstr list \<Rightarrow> ToolCallParser \<times> 'n ToolEvent list \<Rightarrow> (ToolCallParser \<times> 'n ToolEvent list) option" where
  "push_chunks from_json [] pe = Some pe"
| "push_chunks from_json (c # cs) pe = do { pe \<leftarrow> push from_json c pe; push_chunks from_json cs pe }"

lemma push_all_total:
  "openers_ok (tp_openers p) \<Longrightarrow> settled p \<Longrightarrow> weight p + byte_len (concat cs) \<le> MAX_CALL_BYTES \<Longrightarrow>
    \<exists>p' events'. push_chunks from_json cs (p, events) = Some (p', events') \<and> settled p'
      \<and> outcome from_json p' events' [] = outcome from_json p events (concat cs)"
proof (induction cs arbitrary: p events)
  case Nil
  then show ?case by simp
next
  case (Cons c cs)
  let ?q = "p\<lparr>tp_pending := tp_pending p @ c\<rparr>"
  have w: "weight ?q = weight p + byte_len c" by (simp add: weight_def)
  obtain p1 events1 where one: "push_loop from_json ?q events = Some (p1, events1)"
      "pushed from_json ?q events p1 events1" "settled p1"
    using push_loop_total [of ?q from_json events] Cons.prems w by auto
  have "openers_ok (tp_openers p1)" "weight p1 + byte_len (concat cs) \<le> MAX_CALL_BYTES"
    using one(2) Cons.prems w by (auto simp: pushed_def)
  from Cons.IH [OF this(1) one(3) this(2), of events1] obtain p' events' where
    rest: "push_chunks from_json cs (p1, events1) = Some (p', events')" "settled p'"
      "outcome from_json p' events' [] = outcome from_json p1 events1 (concat cs)" by blast
  have "outcome from_json p1 events1 (concat cs) = outcome from_json ?q events (concat cs)"
    using one(2) by (simp add: pushed_def)
  then have "outcome from_json p' events' [] = outcome from_json p events (concat (c # cs))"
    using rest(3) by (simp add: outcome_def)
  then show ?case using one(1) rest(1,2) by (simp add: push_def)
qed

lemma finish_outcome: "settled p \<Longrightarrow> join (snd (finish (p, events))) = outcome from_json p events []"
proof -
  assume st: "settled p"
  define tail where "tail = (case tp_state p of InText \<Rightarrow> tp_pending p | InCall raw \<Rightarrow> CALL_OPEN @ raw @ tp_pending p)"
  obtain p1 events1 where em: "emit_text tail (p\<lparr>tp_state := InText, tp_pending := []\<rparr>) events = (p1, events1)" by fastforce
  have "reading from_json (tp_schemas p) (tp_openers p) (tp_state p) (tp_pending p) = [TText tail]"
    using st by (auto simp: settled_def tail_def reading.simps split: ParserState.splits)
  then have "outcome from_json p events [] = join (events @ render (tp_swallow p) [TText tail])" by (simp add: outcome_def)
  moreover have "snd (finish (p, events)) = events1" using em by (simp add: finish_def tail_def)
  ultimately show ?thesis using emit_text_view(1) [OF em, of "[]"] by (simp del: render.simps) simp
qed

text \<open>Names as \<open>ToolDefinition::build\<close> admits them.\<close>

definition plain_names :: "(rstr \<times> Schema) list \<Rightarrow> bool" where
  "plain_names tools \<longleftrightarrow> (\<forall>(name, _) \<in> set tools. lt \<notin> set name \<and> gt \<notin> set name)"

lemma parser_new_ok: "plain_names tools \<Longrightarrow> openers_ok (tp_openers (parser_new tools))"
  by (auto simp: openers_ok_def parser_new_def plain_names_def CALL_OPEN_def lit_def butlast_append)

definition whole_reading :: "(rstr \<Rightarrow> 'n Value option) \<Rightarrow> (rstr \<times> Schema) list \<Rightarrow> rstr \<Rightarrow> 'n ToolEvent list" where
  "whole_reading from_json tools s = join (render False (reading from_json (tp_schemas (parser_new tools))
     (tp_openers (parser_new tools)) InText s))"

lemma parser_new_settled:
  assumes "plain_names tools"
  shows "settled (parser_new tools)" and "weight (parser_new tools) = 0"
proof -
  have ok: "openers_ok (tp_openers (parser_new tools))" using parser_new_ok [OF assms] .
  have new: "tp_pending (parser_new tools) = []" "tp_state (parser_new tools) = InText"
    by (simp_all add: parser_new_def)
  have "\<not> occ op [] i" if "op \<in> set (tp_openers (parser_new tools))" for op i
    using that ok by (auto simp: openers_ok_def starts_with_prefix)
  then show "settled (parser_new tools)" using next_opener_None [OF ok] by (simp add: settled_def new)
  show "weight (parser_new tools) = 0" by (simp add: weight_def raw_of_def new byte_len_def)
qed

lemma whole_outcome: "whole_reading from_json tools s = outcome from_json (parser_new tools) [] s"
  by (simp add: outcome_def whole_reading_def) (simp add: parser_new_def)

section \<open>Main theorem\<close>

text \<open>C10: The incremental tool-call parser does not depend on how its input is cut. For any offered tools and any
  chunks the loop ends, and the events, with adjacent text joined, are those of reading the whole text at
  once: nothing is lost, no opener or closer split across chunks is missed, and no text that could have
  become one is let out early. Bound: at most \<open>MAX_CALL_BYTES\<close> of text, past which an unclosed call is
  given up depending on where the chunks end.\<close>

theorem parser_is_chunk_independent:
  assumes names: "plain_names tools" and size: "byte_len (concat chunks) \<le> MAX_CALL_BYTES"
  shows "\<exists>pe. push_chunks from_json chunks (parser_new tools, []) = Some pe
    \<and> join (snd (finish pe)) = whole_reading from_json tools (concat chunks)"
proof -
  have ok: "openers_ok (tp_openers (parser_new tools))" using parser_new_ok [OF names] .
  note st = parser_new_settled [OF names]
  have "weight (parser_new tools) + byte_len (concat chunks) \<le> MAX_CALL_BYTES" using size st(2) by simp
  from push_all_total [OF ok st(1) this, of from_json "[]"] obtain p events where
    "push_chunks from_json chunks (parser_new tools, []) = Some (p, events)" "settled p"
    "outcome from_json p events [] = outcome from_json (parser_new tools) [] (concat chunks)" by blast
  then show ?thesis using finish_outcome [of p events from_json] by (simp add: whole_outcome)
qed

theorem parser_is_chunk_independent_witness:
  "\<exists>pe. push_chunks (\<lambda>_. None :: nat Value option) [lit ''a<tool'', lit ''_call>b''] (parser_new [], []) = Some pe
    \<and> join (snd (finish pe)) = whole_reading (\<lambda>_. None) [] (lit ''a<tool_call>b'')"
  using parser_is_chunk_independent [of "[]" "[lit ''a<tool'', lit ''_call>b'']" "\<lambda>_. None :: nat Value option"]
  by (simp add: plain_names_def byte_len_def lit_def utf8_char_def MAX_CALL_BYTES_def)

end
