(* ===== verification/SchemaScan.thy ===== *)
theory SchemaScan
  imports ToolSurface ParserChunks
begin

text \<open>
  Reading the offered tools: the scan of a schema for string branches returns on every schema, cyclic
  references included; every definition of the three dialects is renderable and named; and what is read
  from it can be compiled.
\<close>

section \<open>The scan returns\<close>

primrec strings_in :: "'n Value \<Rightarrow> rstr set" where
  "strings_in JNull = {}"
| "strings_in (JBool b) = {}"
| "strings_in (JNumber n) = {}"
| "strings_in (JString s) = {s}"
| "strings_in (JArray vs) = \<Union> (set (map strings_in vs))"
| "strings_in (JObject kvs) = \<Union> (set (map snd (map (map_prod id strings_in) kvs)))"

primrec value_size :: "'n Value \<Rightarrow> nat" where
  "value_size JNull = 1"
| "value_size (JBool b) = 1"
| "value_size (JNumber n) = 1"
| "value_size (JString s) = 1"
| "value_size (JArray vs) = Suc (sum_list (map value_size vs))"
| "value_size (JObject kvs) = Suc (sum_list (map snd (map (map_prod id value_size) kvs)))"

abbreviation all_strings :: "'n Value list \<Rightarrow> rstr set" where
  "all_strings vs \<equiv> \<Union> (set (map strings_in vs))"

abbreviation all_size :: "'n Value list \<Rightarrow> nat" where
  "all_size vs \<equiv> sum_list (map value_size vs)"

lemma finite_strings: "finite (strings_in v)"
  by (induction v) (auto simp: snds.simps)

lemma value_size_pos: "0 < value_size v"
  by (cases v) auto

lemma member_strings: "v \<in> set vs \<Longrightarrow> strings_in v \<subseteq> all_strings vs"
  by auto

lemma field_strings: "map_of obj key = Some v \<Longrightarrow> strings_in v \<subseteq> strings_in (JObject obj)"
  by (drule map_of_SomeD) (force simp: image_iff)

lemma field_size: "map_of obj key = Some v \<Longrightarrow> value_size v < value_size (JObject obj)"
proof -
  assume "map_of obj key = Some v"
  then have "(key, v) \<in> set obj" by (rule map_of_SomeD)
  then have "value_size v \<in> set (map snd (map (map_prod id value_size) obj))" by (force simp: image_iff)
  from member_le_sum_list [OF this] show ?thesis by simp
qed

lemma array_field_props:
  assumes "array_field obj key = Some alts"
  shows "all_strings alts \<subseteq> strings_in (JObject obj)" and "all_size alts < value_size (JObject obj)"
proof -
  have at: "map_of obj (lit key) = Some (JArray alts)"
    using assms by (auto simp: array_field_def bind_eq_Some_conv elim: as_list.elims)
  show "all_strings alts \<subseteq> strings_in (JObject obj)" using field_strings [OF at] by simp
  show "all_size alts < value_size (JObject obj)" using field_size [OF at] by simp
qed

lemma json_get_strings: "json_get v key = Some w \<Longrightarrow> strings_in w \<subseteq> strings_in v"
  by (cases v) (auto dest!: field_strings)

lemma resolve_strings: "resolve root reference = Some v \<Longrightarrow> strings_in v \<subseteq> strings_in root" for v :: "'n Value"
proof -
  have walk: "fold (\<lambda>segment node. Option.bind node (\<lambda>v. json_get v (pointer_segment segment))) segs (Some w) = Some v \<Longrightarrow>
      strings_in v \<subseteq> strings_in w" for segs and w :: "'n Value"
  proof (induction segs arbitrary: w)
    case (Cons s segs)
    show ?case
    proof (cases "json_get w (pointer_segment s)")
      case None
      have "fold (\<lambda>segment node. Option.bind node (\<lambda>v. json_get v (pointer_segment segment))) segs (None :: 'n Value option) = None"
        by (induction segs) auto
      then show ?thesis using Cons.prems None by simp
    next
      case (Some u)
      then show ?thesis using Cons json_get_strings [OF Some] by auto
    qed
  qed simp
  assume "resolve root reference = Some v"
  then show ?thesis by (auto simp: resolve_def split: option.splits dest!: walk)
qed

definition scan_returns :: "'n Value \<Rightarrow> bool \<Rightarrow> 'n Value list \<Rightarrow> rstr list \<Rightarrow> bool" where
  "scan_returns root every vs seen \<longleftrightarrow> (\<exists>b seen'. scan_schemas root every vs seen = Some (b, seen') \<and> set seen \<subseteq> set seen')"

lemma scan_returnsE:
  assumes "scan_returns root every vs seen"
  obtains b seen' where "scan_schemas root every vs seen = Some (b, seen')" "set seen \<subseteq> set seen'"
  using assms by (auto simp: scan_returns_def)

lemma scan_optional:
  assumes "\<And>alts. field = Some alts \<Longrightarrow> scan_returns root every alts seen"
  shows "\<exists>b seen'. (case field of None \<Rightarrow> Some (False, seen) | Some alts \<Rightarrow> scan_schemas root every alts seen) = Some (b, seen')
    \<and> set seen \<subseteq> set seen'"
  using assms by (cases field) (auto simp: scan_returns_def)

lemma scan_total:
  assumes U: "finite U" "strings_in root \<subseteq> U"
  shows "all_strings vs \<subseteq> U \<Longrightarrow> scan_returns root every vs seen"
proof (induction "(card (U - set seen), all_size vs)" arbitrary: vs every seen
    rule: wf_induct_rule [OF wf_lex_prod [OF wf_less_than wf_less_than]])
  case 1
  have IH: "scan_returns root e ws s" if "all_strings ws \<subseteq> U" "set seen \<subseteq> set s"
    "card (U - set s) < card (U - set seen) \<or> all_size ws < all_size vs" for e ws s
  proof -
    have "card (U - set s) \<le> card (U - set seen)" using that(2) U(1) by (intro card_mono) auto
    then show ?thesis using 1(1) [of s ws e] that by fastforce
  qed
  show ?case
  proof (cases vs)
    case Nil
    then show ?thesis unfolding scan_returns_def by (subst scan_schemas.simps) simp
  next
    case (Cons schema rest)
    have sub: "strings_in schema \<subseteq> U" "all_strings rest \<subseteq> U" using 1(2) Cons by auto
    have rest: "scan_returns root every rest s" if "set seen \<subseteq> set s" for s
      using IH [OF sub(2) that] value_size_pos [of schema] Cons by simp
    define body where "body = (case as_object schema of
            None \<Rightarrow> Some (False, seen)
          | Some obj \<Rightarrow> (case Option.bind (map_of obj (lit ''$ref'')) as_str of
              Some reference \<Rightarrow>
                if reference \<in> set seen then Some (False, seen)
                else (case resolve root reference of
                    None \<Rightarrow> Some (False, seen @ [reference])
                  | Some target \<Rightarrow> scan_schemas root False [target] (seen @ [reference]))
            | None \<Rightarrow>
                if type_is_string obj then Some (True, seen)
                else do {
                  (b, seen) \<leftarrow> (case array_field obj ''oneOf'' of
                      None \<Rightarrow> Some (False, seen) | Some alts \<Rightarrow> scan_schemas root False alts seen);
                  if b then Some (True, seen) else do {
                    (b, seen) \<leftarrow> (case array_field obj ''anyOf'' of
                        None \<Rightarrow> Some (False, seen) | Some alts \<Rightarrow> scan_schemas root False alts seen);
                    if b then Some (True, seen) else do {
                      (b, seen) \<leftarrow> (case array_field obj ''allOf'' of
                          None \<Rightarrow> Some (False, seen)
                        | Some comps \<Rightarrow> if comps = [] then Some (False, seen) else scan_schemas root True comps seen);
                      Some (b \<or> looks_textual obj, seen)
                    }
                  }
                }))"
    have "\<exists>b seen'. body = Some (b, seen') \<and> set seen \<subseteq> set seen'"
    proof (cases "as_object schema")
      case None
      then show ?thesis by (auto simp: body_def)
    next
      case (Some obj)
      then have schema: "schema = JObject obj" by (cases schema) auto
      show ?thesis
      proof (cases "Option.bind (map_of obj (lit ''$ref'')) as_str")
        case (Some reference)
        then have "map_of obj (lit ''$ref'') = Some (JString reference)"
          by (auto simp: bind_eq_Some_conv elim: as_str.elims)
        then have inU: "reference \<in> U" using field_strings sub(1) schema by fastforce
        show ?thesis
        proof (cases "reference \<in> set seen")
          case True
          then show ?thesis using Some schema by (auto simp: body_def)
        next
          case False
          show ?thesis
          proof (cases "resolve root reference")
            case None
            then show ?thesis using Some False schema by (auto simp: body_def)
          next
            case target: (Some target)
            have "card (U - set (seen @ [reference])) < card (U - set seen)"
              using inU False U(1) by (intro psubset_card_mono) auto
            then have "scan_returns root False [target] (seen @ [reference])"
              using IH [of "[target]" "seen @ [reference]"] resolve_strings [OF target] U(2) by auto
            then show ?thesis using Some False target schema by (auto simp: body_def scan_returns_def)
          qed
        qed
      next
        case None
        have field: "scan_returns root e alts s" if "array_field obj key = Some alts" "set seen \<subseteq> set s" for key alts e s
        proof -
          have "all_strings alts \<subseteq> U" "all_size alts < all_size vs"
            using array_field_props [OF that(1)] sub(1) Cons schema by auto
          then show ?thesis using IH that(2) by blast
        qed
        obtain b1 s1 where one: "(case array_field obj ''oneOf'' of
            None \<Rightarrow> Some (False, seen) | Some alts \<Rightarrow> scan_schemas root False alts seen) = Some (b1, s1)" "set seen \<subseteq> set s1"
          using scan_optional [of "array_field obj ''oneOf''" root False seen] field by blast
        obtain b2 s2 where two: "(case array_field obj ''anyOf'' of
            None \<Rightarrow> Some (False, s1) | Some alts \<Rightarrow> scan_schemas root False alts s1) = Some (b2, s2)" "set s1 \<subseteq> set s2"
          using scan_optional [of "array_field obj ''anyOf''" root False s1] field one(2) by blast
        obtain b3 s3 where three: "(case array_field obj ''allOf'' of
            None \<Rightarrow> Some (False, s2)
          | Some comps \<Rightarrow> if comps = [] then Some (False, s2) else scan_schemas root True comps s2) = Some (b3, s3)" "set s2 \<subseteq> set s3"
        proof (cases "array_field obj ''allOf''")
          case (Some comps)
          have "set seen \<subseteq> set s2" using one(2) two(2) by blast
          from field [OF Some this, of True] show ?thesis
            using that Some by (cases "comps = []") (auto simp: scan_returns_def)
        qed (use that in auto)
        show ?thesis using None Some one two three by (auto simp: body_def)
      qed
    qed
    then obtain b s where body: "body = Some (b, s)" "set seen \<subseteq> set s" by blast
    have "scan_schemas root every vs seen = (if b = every then scan_schemas root every rest s else Some (b, s))"
      unfolding Cons by (subst scan_schemas.simps) (simp only: list.case body_def [symmetric] body bind.bind_lunit prod.case)
    then show ?thesis using rest [OF body(2)] body(2) by (auto simp: scan_returns_def)
  qed
qed

lemma resolves_total: "\<exists>b seen'. resolves_to_string root schema seen = Some (b, seen')"
  using scan_total [of "strings_in root \<union> strings_in schema" root "[schema]" False seen]
  by (auto simp: resolves_to_string_def scan_returns_def finite_strings)

section \<open>What is read can be compiled\<close>

lemma literals_nonempty: "literal_set to_json schema = Some ls \<Longrightarrow> ls \<noteq> []"
proof -
  have grow: "literals_of to_json vs = Some ls \<Longrightarrow> vs \<noteq> [] \<Longrightarrow> ls \<noteq> []" for vs ls
    by (cases vs) (auto split: Value.splits simp: bind_eq_Some_conv)
  have sort_ne: "sort xs = [] \<longleftrightarrow> xs = []" for xs :: "nat list list"
    by (metis set_empty set_sort)
  assume "literal_set to_json schema = Some ls"
  then show ?thesis by (auto simp: literal_set_def bind_eq_Some_conv sort_ne dest!: grow split: option.splits Value.splits if_splits)
qed

lemma value_spec_total: "\<exists>v. value_spec to_json root schema = Some v \<and> writable v"
proof -
  obtain b seen where b: "resolves_to_string root schema [] = Some (b, seen)" using resolves_total by blast
  show ?thesis
  proof (cases "literal_set to_json schema")
    case None
    then show ?thesis by (auto simp: value_spec_def b writable_def Let_def)
  next
    case (Some ls)
    then show ?thesis using literals_nonempty [OF Some] by (auto simp: value_spec_def b writable_def)
  qed
qed

lemma param_specs_total: "\<exists>ps. param_specs to_json schema required kvs = Some ps \<and> (\<forall>p \<in> set ps. writable (pa_value p))"
proof (induction kvs)
  case Nil
  then show ?case by simp
next
  case (Cons kv kvs)
  obtain name property where kv: "kv = (name, property)" by (cases kv)
  obtain v where v: "value_spec to_json schema property = Some v" "writable v" using value_spec_total by blast
  obtain ps where "param_specs to_json schema required kvs = Some ps" "\<forall>p \<in> set ps. writable (pa_value p)" using Cons by blast
  then show ?case using v by (simp add: kv)
qed

lemma parameters_total: "\<exists>ps. parameters_of to_json fn = Some ps \<and> (\<forall>p \<in> set ps. writable (pa_value p))"
  using param_specs_total by (auto simp: parameters_of_def split: option.splits)

section \<open>Every dialect's definitions\<close>

definition tool_built :: "'n ToolDefinition \<Rightarrow> bool" where
  "tool_built d \<longleftrightarrow> (\<exists>name description params. tool_build name description params = Inr d)"

lemma built_name: "tool_built d \<Longrightarrow> td_name d \<noteq> [] \<and> lt \<notin> set (td_name d) \<and> gt \<notin> set (td_name d) \<and> newline \<notin> set (td_name d)"
  by (auto simp: tool_built_def tool_build_def Let_def split: if_splits)

lemma built_wrapper:
  assumes "tool_built d"
  shows "\<exists>ps. from_wrapper to_json (td_wrapper d) = Some (Some \<lparr>to_name = utf8 (td_name d), to_params = ps\<rparr>)
    \<and> (\<forall>p \<in> set ps. writable (pa_value p))"
proof -
  obtain name description params where b: "tool_build name description params = Inr d" using assms by (auto simp: tool_built_def)
  then have ne: "name \<noteq> []" and nm: "td_name d = name" by (auto simp: tool_build_def Let_def split: if_splits)
  obtain rest where w: "td_wrapper d = JObject [(lit ''type'', JString (lit ''function'')),
      (lit ''function'', JObject ((lit ''name'', JString name) # rest))]"
    using b by (auto simp: tool_build_def Let_def split: if_splits)
  have fn: "function_of (td_wrapper d) = JObject ((lit ''name'', JString name) # rest)"
    unfolding function_of_def w by (simp add: lit_def)
  show ?thesis using parameters_total [of to_json "function_of (td_wrapper d)"] ne nm
    by (auto simp: from_wrapper_def fn)
qed

lemma from_openai_built: "from_openai v = Inr d \<Longrightarrow> tool_built d"
  by (auto simp: from_openai_def tool_built_def Let_def)

lemma from_anthropic_built: "from_anthropic v = Inr d \<Longrightarrow> tool_built d"
  by (auto simp: from_anthropic_def tool_built_def Let_def split: if_splits prod.splits)

lemma from_responses_built: "from_responses v = Inr d \<Longrightarrow> tool_built d"
  by (auto simp: from_responses_def tool_built_def Let_def split: if_splits)

lemma collect_Inr: "collect rs = Inr xs \<Longrightarrow> \<forall>x \<in> set xs. Inr x \<in> set rs"
  by (induction rs arbitrary: xs) (fastforce simp: rbind_def split: sum.splits)+

lemma from_responses_entry_built: "from_responses_entry v = Inr ds \<Longrightarrow> \<forall>d \<in> set ds. tool_built d"
proof -
  have member: "namespace_member ns t = Inr d \<Longrightarrow> tool_built d" for ns t d
    by (auto simp: namespace_member_def tool_built_def Let_def split: if_splits)
  assume "from_responses_entry v = Inr ds"
  then show ?thesis
    by (auto simp: from_responses_entry_def Let_def rbind_def split: if_splits option.splits sum.splits
        dest!: collect_Inr dest: from_responses_built member) (metis image_iff member)
qed

definition all_tools_built :: "'n OfferedTools \<Rightarrow> bool" where
  "all_tools_built ot \<longleftrightarrow> (\<forall>d \<in> set (ot_definitions ot). tool_built d)"

lemma all_tools_built_simps [simp]:
  "all_tools_built no_tools" "all_tools_built (drop_kind k ot) = all_tools_built ot"
  "all_tools_built (add_definitions ds ot) \<longleftrightarrow> all_tools_built ot \<and> (\<forall>d \<in> set ds. tool_built d)"
  by (auto simp: all_tools_built_def no_tools_def drop_kind_def add_definitions_def Let_def)

lemma offered_openai_built: "offered_openai ot vs = Inr ot' \<Longrightarrow> all_tools_built ot \<Longrightarrow> all_tools_built ot'"
  by (induction ot vs rule: offered_openai.induct)
    (auto simp: Let_def rbind_def split: if_splits sum.splits dest: from_openai_built)

lemma offered_anthropic_built: "offered_anthropic ot vs = Inr ot' \<Longrightarrow> all_tools_built ot \<Longrightarrow> all_tools_built ot'"
  by (induction ot vs rule: offered_anthropic.induct)
    (auto simp: Let_def rbind_def split: if_splits sum.splits dest: from_anthropic_built)

lemma offered_responses_built: "offered_responses ot vs = Inr ot' \<Longrightarrow> all_tools_built ot \<Longrightarrow> all_tools_built ot'"
  by (induction ot vs rule: offered_responses.induct)
    (auto simp: Let_def rbind_def split: if_splits sum.splits dest!: from_responses_entry_built)

lemma specs_of_built:
  "\<forall>d \<in> set ds. tool_built d \<Longrightarrow> \<exists>specs. specs_of to_json ds = Some specs
    \<and> map to_name specs = map (utf8 \<circ> td_name) ds \<and> (\<forall>s \<in> set specs. \<forall>p \<in> set (to_params s). writable (pa_value p))"
proof (induction ds)
  case Nil
  then show ?case by simp
next
  case (Cons d ds)
  then obtain specs where "specs_of to_json ds = Some specs" "map to_name specs = map (utf8 \<circ> td_name) ds"
    "\<forall>s \<in> set specs. \<forall>p \<in> set (to_params s). writable (pa_value p)" by auto
  moreover obtain ps where "from_wrapper to_json (td_wrapper d) = Some (Some \<lparr>to_name = utf8 (td_name d), to_params = ps\<rparr>)"
    "\<forall>p \<in> set ps. writable (pa_value p)" using built_wrapper [of d to_json] Cons.prems by auto
  ultimately show ?case by simp
qed

section \<open>Main theorems\<close>

text \<open>C39: Reading a parameter's schema always returns: whatever the schema and whatever references it holds, cyclic
  and dangling ones included, the scan for a string branch ends, and the kind of value it yields is one
  the grammar can write.\<close>

theorem schema_reading_returns:
  "(\<exists>b seen'. resolves_to_string root schema seen = Some (b, seen'))
    \<and> (\<exists>v. value_spec to_json root schema = Some v \<and> v \<noteq> Literals [])"
  using resolves_total value_spec_total unfolding writable_def by blast

text \<open>C11: The tools of a served request are exactly the tools its output is constrained to. Whichever dialect a
  request uses, every definition taken from it has a name the markup can carry, none is skipped when the
  grammar is compiled, the specifications keep the names in order, and with at most 65536 tools of at most
  64 parameters each they satisfy what the grammar theorems and the parser theorem assume of tools.\<close>

theorem served_tools_are_constrained:
  assumes "offered_openai no_tools vs = Inr ot \<or> offered_anthropic no_tools vs = Inr ot \<or> offered_responses no_tools vs = Inr ot"
  shows "\<exists>specs. specs_of to_json (ot_definitions ot) = Some specs
    \<and> map to_name specs = map (utf8 \<circ> td_name) (ot_definitions ot)
    \<and> plain_names (map (\<lambda>d. (td_name d, td_string_params d)) (ot_definitions ot))
    \<and> (specs \<noteq> [] \<longrightarrow> length specs \<le> 2 ^ 16 \<longrightarrow> (\<forall>s \<in> set specs. length (to_params s) \<le> TRACKED_PARAMS) \<longrightarrow> offered specs)"
proof -
  have "all_tools_built ot"
    using assms offered_openai_built offered_anthropic_built offered_responses_built all_tools_built_simps(1) by blast
  then have all: "\<forall>d \<in> set (ot_definitions ot). tool_built d" by (simp add: all_tools_built_def)
  then have "plain_names (map (\<lambda>d. (td_name d, td_string_params d)) (ot_definitions ot))"
    using built_name by (auto simp: plain_names_def)
  then show ?thesis using specs_of_built [OF all, of to_json] by (auto simp: offered_def)
qed

definition flag_request :: "nat Value list" where
  "flag_request = [JObject [(lit ''type'', JString (lit ''function'')),
     (lit ''function'', JObject [(lit ''name'', JString (lit ''f''))])]]"

theorem served_tools_are_constrained_witness:
  "\<exists>ot specs. offered_openai no_tools flag_request = Inr ot \<and> specs_of (\<lambda>_. None) (ot_definitions ot) = Some specs
    \<and> map to_name specs = [''f'']"
proof -
  obtain ot where ot: "offered_openai no_tools flag_request = Inr ot" "map td_name (ot_definitions ot) = [lit ''f'']"
    by (simp add: flag_request_def Let_def str_field_def from_openai_def function_of_def tool_build_def rbind_def
        no_tools_def add_definitions_def lit_def)
  have "utf8 (lit ''f'') = ''f''" by code_simp
  moreover have "map (utf8 \<circ> td_name) (ot_definitions ot) = map utf8 (map td_name (ot_definitions ot))" by simp
  ultimately have "map (utf8 \<circ> td_name) (ot_definitions ot) = [''f'']" using ot(2) by simp
  then show ?thesis using served_tools_are_constrained [of flag_request ot "\<lambda>_. None"] ot(1) by force
qed

section \<open>References seen twice\<close>

text \<open>A reference counts as a cycle from the second time it is met, on whatever branch: a schema that requires both
  of two references to the same string schema is not read as a string, one reference of them is.\<close>

lemma repeated_reference_is_no_cycle:
  fixes str :: "nat Value"
  defines "str \<equiv> JObject [(lit ''type'', JString (lit ''string''))]"
    and "rf \<equiv> JObject [(lit ''$ref'', JString (lit ''#/s''))] :: nat Value"
  defines "root \<equiv> JObject [(lit ''s'', str)]"
  shows "resolves_to_string root (JObject [(lit ''allOf'', JArray [rf])]) [] = Some (True, [lit ''#/s''])"
    and "resolves_to_string root (JObject [(lit ''allOf'', JArray [rf, rf])]) [] = Some (False, [lit ''#/s''])"
  unfolding assms by code_simp+

end
