(* ===== verification/ChatRender.thy ===== *)
theory ChatRender
  imports ToolSurface ParserChunks
begin

text \<open>
  The conversation and its ChatML prompt (\<open>xabe-server/src/http/chat.rs\<close>), the JSON spelling of the prompt and
  the message list of a chat template (\<open>jinja.rs\<close>). The writer of a JSON number and of a quoted string are
  parameters (\<open>write_num\<close>, \<open>write_str\<close>), as \<open>serde_json\<close> has them.
\<close>

section \<open>Conversations\<close>

datatype 'n Turn =
    User rstr
  | System rstr
  | Assistant rstr rstr "'n ParsedToolCall list"
  | ToolResults "rstr list"

record ('n, 'i) Conversation =
  cv_system :: "rstr option"
  cv_turns :: "'n Turn list"
  cv_tools :: "'n ToolDefinition list"
  cv_images :: "'i list"

record 'i ToolResult =
  tr_text :: rstr
  tr_images :: "'i list"

definition push_tool_result :: "'i ToolResult \<Rightarrow> ('n, 'i) Conversation \<Rightarrow> ('n, 'i) Conversation" where
  "push_tool_result result cv =
    (let cv = cv\<lparr>cv_images := cv_images cv @ tr_images result\<rparr>
     in case (if cv_turns cv = [] then None else Some (last (cv_turns cv))) of
          Some (ToolResults results) \<Rightarrow>
            cv\<lparr>cv_turns := butlast (cv_turns cv) @ [ToolResults (results @ [tr_text result])]\<rparr>
        | _ \<Rightarrow> cv\<lparr>cv_turns := cv_turns cv @ [ToolResults [tr_text result]]\<rparr>)"

section \<open>JSON in the prompt\<close>

definition intercalate :: "'a list \<Rightarrow> 'a list list \<Rightarrow> 'a list" where
  "intercalate sep xs = (case xs of [] \<Rightarrow> [] | y # ys \<Rightarrow> y @ concat (map (\<lambda>z. sep @ z) ys))"

fun prompt_json :: "('n \<Rightarrow> rstr) \<Rightarrow> (rstr \<Rightarrow> rstr) \<Rightarrow> 'n Value \<Rightarrow> rstr" where
  "prompt_json write_num write_str JNull = lit ''null''"
| "prompt_json write_num write_str (JBool b) = (if b then lit ''true'' else lit ''false'')"
| "prompt_json write_num write_str (JNumber n) = write_num n"
| "prompt_json write_num write_str (JString s) = write_str s"
| "prompt_json write_num write_str (JArray vs) =
    lit ''['' @ intercalate (lit '', '') (map (prompt_json write_num write_str) vs) @ lit '']''"
| "prompt_json write_num write_str (JObject kvs) =
    lit ''{'' @ intercalate (lit '', '')
      (map (\<lambda>(k, v). write_str k @ lit '': '' @ prompt_json write_num write_str v) kvs) @ lit ''}''"

section \<open>The prompt\<close>

definition IM_START :: rstr where
  "IM_START = lit ''<|im_start|>''"

definition IM_END :: rstr where
  "IM_END = lit ''<|im_end|>''"

text \<open>A literal of several lines.\<close>

definition text_lines :: "string list \<Rightarrow> rstr" where
  "text_lines ls = intercalate [newline] (map lit ls)"

definition TOOL_INSTRUCTIONS :: rstr where
  "TOOL_INSTRUCTIONS = text_lines
    [[], [],
     ''If you choose to call a function ONLY reply in the following format with NO suffix:'', [],
     ''<tool_call>'', ''<function=example_function_name>'', ''<parameter=example_parameter_1>'', ''value_1'',
     ''</parameter>'', ''<parameter=example_parameter_2>'', ''This is the value for the second parameter'',
     ''that can span'', ''multiple lines'', ''</parameter>'', ''</function>'', ''</tool_call>'', [],
     ''<IMPORTANT>'', ''Reminder:'',
     ''- Function calls MUST follow the specified format: an inner <function=...></function> block must be nested within <tool_call></tool_call> XML tags'',
     ''- Required parameters MUST be specified'',
     ''- You may provide optional reasoning for your function call in natural language BEFORE the function call, but NOT after'',
     ''- If there is no function call available, answer the question like normal with your current knowledge and do not tell the user about function calls'',
     ''</IMPORTANT>'']"

definition parameter_value :: "('n Value \<Rightarrow> rstr) \<Rightarrow> 'n Value \<Rightarrow> rstr" where
  "parameter_value json v =
    (case v of
       JString s \<Rightarrow> s
     | JBool b \<Rightarrow> (if b then lit ''True'' else lit ''False'')
     | JNull \<Rightarrow> lit ''None''
     | other \<Rightarrow> json other)"

text \<open>\<open>system.trim()\<close>, unless that is empty.\<close>

definition trimmed_system :: "('n, 'i) Conversation \<Rightarrow> rstr option" where
  "trimmed_system cv =
    (case map_option trim (cv_system cv) of Some s \<Rightarrow> if s = [] then None else Some s | None \<Rightarrow> None)"

definition render_system :: "('n Value \<Rightarrow> rstr) \<Rightarrow> ('n, 'i) Conversation \<Rightarrow> rstr" where
  "render_system json cv =
    (let system = trimmed_system cv
     in if cv_tools cv = []
        then (case system of
            Some s \<Rightarrow> IM_START @ lit ''system'' @ [newline] @ s @ IM_END @ [newline]
          | None \<Rightarrow> [])
        else IM_START @ lit ''system'' @ text_lines
               [[], ''# Tools'', [], ''You have access to the following functions:'', [], ''<tools>'']
             @ concat (map (\<lambda>d. [newline] @ json (td_wrapper d)) (cv_tools cv))
             @ [newline] @ lit ''</tools>'' @ TOOL_INSTRUCTIONS
             @ (case system of Some s \<Rightarrow> [newline, newline] @ s | None \<Rightarrow> []) @ IM_END @ [newline])"

definition is_question :: "'n Turn \<Rightarrow> bool" where
  "is_question turn =
    (case turn of
       User content \<Rightarrow>
         (let trimmed = trim content
          in \<not> (starts_with (lit ''<tool_response>'') trimmed \<and> ends_with (lit ''</tool_response>'') trimmed))
     | _ \<Rightarrow> False)"

definition rposition :: "('a \<Rightarrow> bool) \<Rightarrow> 'a list \<Rightarrow> nat option" where
  "rposition P xs = find (\<lambda>i. P (xs ! i)) (rev [0..<length xs])"

definition last_query :: "'n Turn list \<Rightarrow> nat" where
  "last_query turns = (case rposition is_question turns of Some i \<Rightarrow> i | None \<Rightarrow> length turns - 1)"

definition render_call :: "('n Value \<Rightarrow> rstr) \<Rightarrow> 'n ParsedToolCall \<Rightarrow> rstr" where
  "render_call json call =
    lit ''<tool_call>'' @ [newline] @ lit ''<function='' @ pc_name call @ lit ''>'' @ [newline]
    @ concat (map (\<lambda>(key, v). lit ''<parameter='' @ key @ lit ''>'' @ [newline] @ parameter_value json v
        @ [newline] @ lit ''</parameter>'' @ [newline]) (pc_arguments call))
    @ lit ''</function>'' @ [newline] @ lit ''</tool_call>''"

definition render_calls :: "('n Value \<Rightarrow> rstr) \<Rightarrow> rstr \<Rightarrow> 'n ParsedToolCall list \<Rightarrow> rstr" where
  "render_calls json content calls =
    concat (map (\<lambda>(call_index, call).
        (if 0 < call_index then [newline] else if content \<noteq> [] then [newline, newline] else [])
        @ render_call json call) (List.enumerate 0 calls))"

fun render_turn :: "('n Value \<Rightarrow> rstr) \<Rightarrow> nat \<Rightarrow> nat \<times> 'n Turn \<Rightarrow> rstr" where
  "render_turn json query (index, User content) =
    IM_START @ lit ''user'' @ [newline] @ trim content @ IM_END @ [newline]"
| "render_turn json query (index, System content) =
    IM_START @ lit ''system'' @ [newline] @ trim content @ IM_END @ [newline]"
| "render_turn json query (index, Assistant reasoning content calls) =
    (let content = trim content
     in (if query < index
         then IM_START @ lit ''assistant'' @ [newline] @ lit ''<think>'' @ [newline] @ trim reasoning @ [newline]
           @ lit ''</think>'' @ [newline, newline] @ content
         else IM_START @ lit ''assistant'' @ [newline] @ content)
        @ render_calls json content calls @ IM_END @ [newline])"
| "render_turn json query (index, ToolResults results) =
    IM_START @ lit ''user''
    @ concat (map (\<lambda>result. text_lines [[], ''<tool_response>'', []] @ trim result
        @ text_lines [[], ''</tool_response>'']) results)
    @ IM_END @ [newline]"

definition render_turns :: "('n Value \<Rightarrow> rstr) \<Rightarrow> 'n Turn list \<Rightarrow> rstr" where
  "render_turns json turns = concat (map (render_turn json (last_query turns)) (List.enumerate 0 turns))"

definition generation_prompt :: "bool \<Rightarrow> rstr" where
  "generation_prompt thinking =
    IM_START @ lit ''assistant'' @ [newline]
    @ (if thinking then lit ''<think>'' @ [newline]
       else text_lines [''<think>'', [], ''</think>'', [], []])"

definition conversation_render :: "('n Value \<Rightarrow> rstr) \<Rightarrow> ('n, 'i) Conversation \<Rightarrow> bool \<Rightarrow> rstr" where
  "conversation_render json cv thinking =
    render_system json cv @ render_turns json (cv_turns cv) @ generation_prompt thinking"

section \<open>The message list of a template\<close>

definition role_message :: "string \<Rightarrow> rstr \<Rightarrow> 'n Value" where
  "role_message role content = JObject [(lit ''role'', JString (lit role)), (lit ''content'', JString content)]"

definition call_message :: "'n ParsedToolCall \<Rightarrow> 'n Value" where
  "call_message call = JObject
    [(lit ''type'', JString (lit ''function'')),
     (lit ''function'', JObject [(lit ''name'', JString (pc_name call)), (lit ''arguments'', JObject (pc_arguments call))])]"

fun turn_messages :: "'n Turn \<Rightarrow> 'n Value list" where
  "turn_messages (User content) = [role_message ''user'' (trim content)]"
| "turn_messages (System content) = [role_message ''system'' (trim content)]"
| "turn_messages (Assistant reasoning content calls) =
    [JObject ([(lit ''role'', JString (lit ''assistant'')), (lit ''content'', JString (trim content))]
      @ (if trim reasoning \<noteq> [] then [(lit ''reasoning_content'', JString (trim reasoning))] else [])
      @ (if calls \<noteq> [] then [(lit ''tool_calls'', JArray (map call_message calls))] else []))]"
| "turn_messages (ToolResults results) = map (\<lambda>result. role_message ''tool'' (trim result)) results"

definition messages :: "('n, 'i) Conversation \<Rightarrow> 'n Value list" where
  "messages cv =
    (case trimmed_system cv of Some s \<Rightarrow> [role_message ''system'' s] | None \<Rightarrow> [])
    @ concat (map turn_messages (cv_turns cv))"

end
