(* ===== verification/CallText.thy ===== *)
theory CallText
  imports ParserChunks
begin

text \<open>
  The text of a tool call, as the prompt replays it and as the grammar constrains it, and what the parser
  reads from it: the call that was written, when its names fit the markup and none of its values holds a
  closing tag.
\<close>

section \<open>Where a tag is first found\<close>

abbreviation free :: "rstr \<Rightarrow> rstr \<Rightarrow> bool" where
  "free p s \<equiv> find_str p s = None"

lemma free_split:
  assumes p: "p \<noteq> []" "c \<notin> set p" and a: "free p a" and b: "free p b"
  shows "free p (a @ c # b)"
proof -
  have "\<not> occ p (a @ c # b) i" for i
  proof
    assume at: "occ p (a @ c # b) i"
    consider "i + length p \<le> length a" | "i \<le> length a" "length a < i + length p" | "length a < i" by linarith
    then show False
    proof cases
      case 1
      then have "occ p a i" using at occ_append [of i p a "c # b"] by blast
      then show False using a by (simp add: find_str_None_occ [OF p(1)])
    next
      case 2
      then have "(a @ c # b) ! (i + (length a - i)) = p ! (length a - i)" using at p(1) by (intro occ_nth) auto
      then have "c = p ! (length a - i)" using 2 by simp
      then show False using p(2) 2 nth_mem [of "length a - i" p] by auto
    next
      case 3
      then obtain k where "i = length a + Suc k" using less_imp_Suc_add by auto
      then have "drop i (a @ c # b) = drop (i - Suc (length a)) b" by simp
      then have "occ p b (i - Suc (length a))" using at by simp
      then show False using b by (simp add: find_str_None_occ [OF p(1)])
    qed
  qed
  then show ?thesis by (simp add: find_str_None_occ [OF p(1)])
qed

lemma free_Nil: "p \<noteq> [] \<Longrightarrow> free p []"
  by (simp add: find_str_None_occ starts_with_def)

lemma free_missing: "p \<noteq> [] \<Longrightarrow> c \<in> set p \<Longrightarrow> c \<notin> set s \<Longrightarrow> free p s"
  by (auto simp: find_str_None_occ starts_with_prefix) (metis Un_iff in_set_dropD set_append)

text \<open>A needle whose first element occurs nowhere else in it is not found across a seam.\<close>

lemma no_crossing:
  assumes p: "p \<noteq> []" and q: "q \<noteq> []" "hd p \<notin> set (tl q)" and a: "free q a" and j: "j < length a"
  shows "\<not> occ q (a @ p @ b) j"
proof
  assume at: "occ q (a @ p @ b) j"
  show False
  proof (cases "j + length q \<le> length a")
    case True
    then have "occ q a j" using at occ_append [OF True, of "p @ b"] by blast
    then show False using a by (simp add: find_str_None_occ [OF q(1)])
  next
    case False
    then have inside: "length a - j < length q" "0 < length a - j" using j by auto
    have "(a @ p @ b) ! (j + (length a - j)) = q ! (length a - j)" using at inside(1) q(1) by (rule occ_nth)
    then have "q ! (length a - j) = hd p" using j p by (simp add: nth_append hd_conv_nth)
    moreover have "q ! (length a - j) \<in> set (tl q)" using inside q(1) by (cases q) (auto simp: nth_Cons' intro: nth_mem)
    ultimately show False using q(2) by simp
  qed
qed

lemma find_seam:
  assumes p: "p \<noteq> []" "hd p \<notin> set (tl p)" and a: "free p a"
  shows "find_str p (a @ p @ b) = Some (length a)"
  unfolding find_str_Some_occ [OF p(1)]
  using no_crossing [OF p(1) p a] by (auto simp: starts_with_prefix)

lemma find_char: "c \<notin> set a \<Longrightarrow> find_str [c] (a @ c # b) = Some (length a)"
  using find_seam [of "[c]" a b] free_missing [of "[c]" c a] by simp

section \<open>One call\<close>

text \<open>A name the markup can carry.\<close>

definition renderable :: "rstr \<Rightarrow> bool" where
  "renderable name \<longleftrightarrow> name \<noteq> [] \<and> lt \<notin> set name \<and> gt \<notin> set name \<and> newline \<notin> set name"

definition param_text :: "rstr \<times> rstr \<Rightarrow> rstr" where
  "param_text kv = lit ''<parameter='' @ fst kv @ [gt] @ [newline] @ snd kv @ [newline] @ lit ''</parameter>'' @ [newline]"

text \<open>From the function tag to the closing of the function.\<close>

definition call_body :: "rstr \<Rightarrow> (rstr \<times> rstr) list \<Rightarrow> rstr" where
  "call_body name args = lit ''<function='' @ name @ [gt] @ [newline] @ concat (map param_text args) @ lit ''</function>'' @ [newline]"

definition clean_call :: "rstr \<times> (rstr \<times> rstr) list \<Rightarrow> bool" where
  "clean_call call \<longleftrightarrow> renderable (fst call) \<and> distinct (map fst (snd call))
     \<and> (\<forall>(key, val) \<in> set (snd call). renderable key \<and> free (lit ''</parameter>'') val \<and> free CALL_CLOSE val)"

definition read_call :: "(rstr \<Rightarrow> 'n Value option) \<Rightarrow> (rstr \<times> Schema) list \<Rightarrow> rstr \<times> (rstr \<times> rstr) list \<Rightarrow> 'n ParsedToolCall" where
  "read_call from_json schemas call =
    \<lparr>pc_name = fst call,
     pc_arguments = map (\<lambda>(key, val). (key, typed from_json (map_of schemas (fst call)) key val)) (snd call)\<rparr>"

lemma lit_Cons [simp]: "lit (c # cs) = of_char c # lit cs"
  by (simp add: lit_def)

lemma lit_Nil [simp]: "lit [] = []"
  by (simp add: lit_def)

lemma tag_name_at: "renderable name \<Longrightarrow> tag_name (name @ gt # rest) = Some (name, rest)"
  using find_char [of gt name rest] by (simp add: tag_name_def renderable_def)

lemma param_value_at:
  assumes "free (lit ''</parameter>'') val"
  shows "param_value (newline # val @ newline # lit ''</parameter>'' @ rest) = Some (val, rest)"
proof -
  have "free (lit ''</parameter>'') (val @ newline # [])"
    by (rule free_split) (use assms in \<open>simp_all add: free_Nil\<close>)
  then have "find_str (lit ''</parameter>'') ((val @ [newline]) @ lit ''</parameter>'' @ rest) = Some (length (val @ [newline]))"
    by (intro find_seam) simp_all
  then show ?thesis
    by (simp add: param_value_def strip_prefix_def starts_with_def strip_suffix_def ends_with_def del: lit_Cons)
qed

lemma trim_start_newline: "trim_start (newline # s) = trim_start s"
  by (simp add: trim_start_def is_white_def)

lemma trim_start_lt: "trim_start (lt # s) = lt # s"
  by (simp add: trim_start_def is_white_def)

lemma update_fresh: "k \<notin> fst ` set al \<Longrightarrow> AList.update k v al = al @ [(k, v)]"
  by (induction al) auto

lemma parse_arguments_text:
  "clean_call (name, args) \<Longrightarrow> fst ` set args \<inter> fst ` set acc = {} \<Longrightarrow>
    parse_arguments from_json params (newline # concat (map param_text args) @ lit ''</function>'') acc
      = Some (acc @ map (\<lambda>(key, val). (key, typed from_json params key val)) args)"
proof (induction args arbitrary: acc)
  case Nil
  have "trim_start (newline # lit ''</function>'') = lit ''</function>''" by (simp add: trim_start_newline trim_start_lt)
  then show ?case by (subst parse_arguments.simps) (simp add: strip_prefix_def starts_with_def trim_def trim_start_def trim_end_def)
next
  case (Cons kv args)
  obtain key val where kv: "kv = (key, val)" by (cases kv)
  have one: "renderable key" "free (lit ''</parameter>'') val" and rest: "clean_call (name, args)"
    and new: "key \<notin> fst ` set acc" "key \<notin> fst ` set args"
    using Cons.prems by (auto simp: clean_call_def kv)
  let ?more = "concat (map param_text args) @ lit ''</function>''"
  have "trim_start (newline # concat (map param_text (kv # args)) @ lit ''</function>'')
      = lit ''<parameter='' @ key @ gt # newline # val @ newline # lit ''</parameter>'' @ newline # ?more"
    by (simp add: trim_start_newline trim_start_lt param_text_def kv)
  moreover have "strip_prefix (lit ''</function>'') (lit ''<parameter='' @ s) = None" for s
    by (simp add: strip_prefix_def starts_with_def)
  moreover have "AList.update key (typed from_json params key val) acc = acc @ [(key, typed from_json params key val)]"
    using new(1) by (rule update_fresh)
  ultimately show ?case using Cons.IH [OF rest, of "acc @ [(key, typed from_json params key val)]"] Cons.prems(2) new
    by (subst parse_arguments.simps) (simp add: tag_name_at [OF one(1)] param_value_at [OF one(2)] kv image_Un del: lit_Cons)
qed

lemma trim_between: "trim (lt # s @ [gt, newline]) = lt # s @ [gt]"
  by (simp add: trim_def trim_start_lt trim_end_def is_white_def)

lemma parse_call_text:
  assumes "clean_call call" and pre: "pre = [] \<or> pre = [newline]"
  shows "parse_call from_json schemas (pre @ call_body (fst call) (snd call)) = Some (read_call from_json schemas call)"
proof -
  obtain name args where call: "call = (name, args)" by (cases call)
  define inner where "inner = name @ gt # newline # concat (map param_text args) @ lit ''</function>''"
  have "call_body name args = lt # (lit ''function='' @ name @ gt # newline # concat (map param_text args) @ lit ''</function'') @ [gt, newline]"
    by (simp add: call_body_def)
  then have "trim (call_body name args) = lit ''<function='' @ inner"
    by (simp only: trim_between) (simp add: inner_def)
  moreover have "trim (newline # s) = trim s" for s by (simp add: trim_def trim_start_newline)
  ultimately have "trim (pre @ call_body name args) = lit ''<function='' @ inner" using pre by auto
  moreover have "tag_name inner = Some (name, newline # concat (map param_text args) @ lit ''</function>'')"
    using assms(1) by (simp add: inner_def tag_name_at clean_call_def call)
  ultimately show ?thesis using parse_arguments_text [of name args "[]" from_json "map_of schemas name"] assms(1)
    by (simp add: parse_call_def read_call_def call del: lit_Cons)
qed

lemma free_tag: "p \<noteq> [] \<Longrightarrow> hd p = c \<Longrightarrow> c \<notin> set t \<Longrightarrow> \<not> starts_with p (c # t) \<Longrightarrow> free p (c # t)"
proof (unfold find_str_None_occ, intro allI notI)
  fix i
  assume p: "p \<noteq> []" "hd p = c" and c: "c \<notin> set t" "\<not> starts_with p (c # t)" and at: "occ p (c # t) i"
  show False
  proof (cases i)
    case 0
    then show ?thesis using at c(2) by simp
  next
    case (Suc k)
    then obtain u where "drop k t = p @ u" using at by (auto simp: starts_with_prefix)
    then have "c \<in> set (drop k t)" using p by (cases p) auto
    then show ?thesis using c(1) in_set_dropD by fast
  qed
qed

lemma closer_line: "CALL_CLOSE \<noteq> []" "newline \<notin> set CALL_CLOSE" "hd CALL_CLOSE = lt" "lt \<notin> set (tl CALL_CLOSE)"
  by (simp_all add: CALL_CLOSE_def)

lemma free_lines: "free CALL_CLOSE a \<Longrightarrow> free CALL_CLOSE b \<Longrightarrow> free CALL_CLOSE (a @ newline # b)"
  using free_split closer_line by blast

lemma free_body:
  assumes "clean_call (name, args)"
  shows "free CALL_CLOSE (concat (map param_text args) @ lit ''</function>'' @ [newline])"
  using assms
proof (induction args)
  case Nil
  have "free CALL_CLOSE (lit ''</function>'')" unfolding lit_Cons
    by (rule free_tag) (simp_all add: CALL_CLOSE_def starts_with_def)
  then show ?case using free_lines [of "lit ''</function>''" "[]"] free_Nil [OF closer_line(1)] by simp
next
  case (Cons kv args)
  obtain key val where kv: "kv = (key, val)" by (cases kv)
  have key: "lt \<notin> set key" and val: "free CALL_CLOSE val" and rest: "clean_call (name, args)"
    using Cons.prems by (auto simp: clean_call_def kv renderable_def)
  let ?more = "concat (map param_text args) @ lit ''</function>'' @ [newline]"
  have "free CALL_CLOSE (lt # lit ''parameter='' @ key @ [gt])"
    by (rule free_tag) (use key in \<open>simp_all add: CALL_CLOSE_def starts_with_def\<close>)
  moreover have "free CALL_CLOSE (lt # lit ''/parameter>'')"
    by (rule free_tag) (simp_all add: CALL_CLOSE_def starts_with_def)
  ultimately have "free CALL_CLOSE ((lt # lit ''parameter='' @ key @ [gt]) @ newline # val @ newline #
      (lt # lit ''/parameter>'') @ newline # ?more)"
    using val Cons.IH [OF rest] by (intro free_lines) simp_all
  moreover have "param_text (key, val) = (lt # lit ''parameter='' @ key @ [gt]) @ newline # val @ newline #
      (lt # lit ''/parameter>'') @ [newline]" by (simp add: param_text_def)
  ultimately show ?case by (simp add: kv del: lit_Cons)
qed

lemma free_call:
  assumes "clean_call call" and "pre = [] \<or> pre = [newline]"
  shows "free CALL_CLOSE (pre @ call_body (fst call) (snd call))"
proof -
  obtain name args where call: "call = (name, args)" by (cases call)
  have "free CALL_CLOSE (lt # lit ''function='' @ name @ [gt])"
    by (rule free_tag) (use assms(1) in \<open>simp_all add: CALL_CLOSE_def starts_with_def clean_call_def renderable_def call\<close>)
  from free_lines [OF this free_body [OF assms(1) [unfolded call]]]
  have "free CALL_CLOSE (call_body name args)" by (simp add: call_body_def)
  then show ?thesis using assms(2) free_lines [of "[]", OF free_Nil [OF closer_line(1)]] by (auto simp: call)
qed

section \<open>Several calls\<close>

text \<open>Text before the first call, and each call with what follows it up to the next.\<close>

definition call_text :: "(rstr \<times> (rstr \<times> rstr) list) \<times> rstr \<Rightarrow> rstr" where
  "call_text cg = CALL_OPEN @ [newline] @ call_body (fst (fst cg)) (snd (fst cg)) @ CALL_CLOSE @ snd cg"

fun events_of ::
  "(rstr \<times> (rstr \<times> rstr) list \<Rightarrow> 'n ParsedToolCall) \<Rightarrow> rstr \<Rightarrow> ((rstr \<times> (rstr \<times> rstr) list) \<times> rstr) list \<Rightarrow> 'n ToolEvent list" where
  "events_of rd pre [] = [TText pre]"
| "events_of rd pre (cg # cgs) = TText pre # TCall (rd (fst cg)) # events_of rd (snd cg) cgs"

lemma reading_close:
  assumes "clean_call call" and "pre = [] \<or> pre = [newline]" and raw: "raw @ body = pre @ call_body (fst call) (snd call)"
    and body: "free CALL_CLOSE body"
  shows "reading from_json schemas ops (InCall raw) (body @ CALL_CLOSE @ s)
    = TCall (read_call from_json schemas call) # reading from_json schemas ops InText s"
  unfolding reading.simps(2) [of _ _ _ _ "body @ CALL_CLOSE @ s"] find_seam [OF closer_line(1) _ body] block_event_def
  using find_seam [OF closer_line(1) _ body, of s] closer_line(3,4) parse_call_text [OF assms(1,2), of from_json schemas]
  by (simp add: raw block_event_def)

lemma reading_call:
  assumes ok: "openers_ok ops" and mem: "CALL_OPEN \<in> set ops" and call: "clean_call call"
    and pre: "\<forall>op \<in> set ops. free op pre"
  shows "reading from_json schemas ops InText (pre @ call_text (call, gap) @ s)
    = TText pre # TCall (read_call from_json schemas call) # reading from_json schemas ops InText (gap @ s)"
proof -
  let ?rest = "[newline] @ call_body (fst call) (snd call) @ CALL_CLOSE @ gap @ s"
  have at: "next_opener ops (pre @ CALL_OPEN @ ?rest) = Some (length pre, CALL_OPEN)"
    unfolding next_opener_Some [OF ok]
  proof (intro conjI ballI allI impI)
    show "occ CALL_OPEN (pre @ CALL_OPEN @ ?rest) (length pre)" by (auto simp: starts_with_prefix)
    fix op j assume op: "op \<in> set ops" and "j < length pre"
    then show "\<not> occ op (pre @ CALL_OPEN @ ?rest) j"
      using ok pre by (intro no_crossing) (auto simp: openers_ok_def CALL_OPEN_def)
  qed (rule mem)
  have "reading from_json schemas ops (InCall []) (([newline] @ call_body (fst call) (snd call)) @ CALL_CLOSE @ (gap @ s))
      = TCall (read_call from_json schemas call) # reading from_json schemas ops InText (gap @ s)"
    using free_call [OF call, of "[newline]"] by (intro reading_close [OF call, of "[newline]"]) simp_all
  then show ?thesis
    unfolding call_text_def by (subst reading.simps) (use at in simp)
qed

text \<open>A call whose function tag opens it.\<close>

lemma reading_bare_call:
  assumes ok: "openers_ok ops" and mem: "lit ''<function='' @ fst call @ [gt] \<in> set ops" and call: "clean_call call"
  shows "reading from_json schemas ops InText (call_body (fst call) (snd call) @ CALL_CLOSE @ s)
    = TText [] # TCall (read_call from_json schemas call) # reading from_json schemas ops InText s"
proof -
  let ?op = "lit ''<function='' @ fst call @ [gt]"
  let ?body = "[newline] @ concat (map param_text (snd call)) @ lit ''</function>'' @ [newline]"
  have split: "call_body (fst call) (snd call) = ?op @ ?body" by (simp add: call_body_def)
  have at: "next_opener ops (?op @ ?body @ CALL_CLOSE @ s) = Some (0, ?op)"
    unfolding next_opener_Some [OF ok] using mem by (auto simp: starts_with_prefix)
  have ne: "?op \<noteq> CALL_OPEN" by (simp add: CALL_OPEN_def)
  have "reading from_json schemas ops (InCall ?op) (?body @ CALL_CLOSE @ s)
      = TCall (read_call from_json schemas call) # reading from_json schemas ops InText s"
  proof (rule reading_close [OF call, of "[]"])
    have "clean_call (fst call, snd call)" using call by simp
    from free_lines [of "[]", OF free_Nil [OF closer_line(1)] free_body [OF this]]
    show "free CALL_CLOSE ?body" by simp
  qed (simp_all add: split)
  then show ?thesis unfolding split by (subst reading.simps) (use at ne in simp)
qed

definition schemas_of :: "(rstr \<times> Schema) list \<Rightarrow> (rstr \<times> Schema) list" where
  "schemas_of tools = tp_schemas (parser_new tools)"

definition white :: "rstr \<Rightarrow> bool" where
  "white s \<longleftrightarrow> (\<forall>c \<in> set s. is_white c)"

text \<open>Calls the parser reads back, each followed by whitespace only.\<close>

definition clean_calls :: "((rstr \<times> (rstr \<times> rstr) list) \<times> rstr) list \<Rightarrow> bool" where
  "clean_calls cgs \<longleftrightarrow> (\<forall>(call, gap) \<in> set cgs. clean_call call \<and> white gap)"

definition tool_names_ok :: "(rstr \<times> Schema) list \<Rightarrow> bool" where
  "tool_names_ok tools \<longleftrightarrow> (\<forall>(name, _) \<in> set tools. renderable name)"

lemma tool_names_plain: "tool_names_ok tools \<Longrightarrow> plain_names tools"
  by (auto simp: tool_names_ok_def plain_names_def renderable_def)

lemma free_white:
  assumes "white s"
  shows "\<forall>op \<in> set (tp_openers (parser_new tools)). free op s"
proof
  fix op assume "op \<in> set (tp_openers (parser_new tools))"
  then have "lt \<in> set op" "op \<noteq> []" by (auto simp: parser_new_def CALL_OPEN_def)
  moreover have "lt \<notin> set s" using assms by (auto simp: white_def is_white_def)
  ultimately show "free op s" by (intro free_missing)
qed

lemma opener_CALL_OPEN: "CALL_OPEN \<in> set (tp_openers (parser_new tools))"
  by (simp add: parser_new_def)

lemma reading_calls:
  assumes names: "tool_names_ok tools" and calls: "clean_calls cgs"
    and pre: "\<forall>op \<in> set (tp_openers (parser_new tools)). free op pre"
  shows "reading from_json (schemas_of tools) (tp_openers (parser_new tools)) InText (pre @ concat (map call_text cgs))
    = events_of (read_call from_json (schemas_of tools)) pre cgs"
  using calls pre
proof (induction cgs arbitrary: pre)
  note ok = parser_new_ok [OF tool_names_plain [OF names]]
  case Nil
  then have "next_opener (tp_openers (parser_new tools)) pre = None"
    using ok by (auto simp: next_opener_None find_str_None_occ openers_ok_def)
  then show ?case by (subst reading.simps) simp
next
  note ok = parser_new_ok [OF tool_names_plain [OF names]]
  case (Cons cg cgs)
  obtain call gap where cg: "cg = (call, gap)" by (cases cg)
  have call: "clean_call call" and gap: "white gap" and rest: "clean_calls cgs"
    using Cons.prems(1) by (auto simp: clean_calls_def cg)
  from reading_call [OF ok opener_CALL_OPEN call Cons.prems(2), of from_json "schemas_of tools" gap "concat (map call_text cgs)"]
    Cons.IH [OF rest free_white [OF gap]]
  show ?case by (simp add: cg)
qed

lemma trim_start_white: "white s \<Longrightarrow> trim_start s = []"
  by (simp add: trim_start_def white_def)

lemma render_events:
  "clean_calls cgs \<Longrightarrow> white gap \<Longrightarrow> render True (events_of rd gap cgs) = map (\<lambda>cg. TCall (rd (fst cg))) cgs"
  by (induction cgs arbitrary: gap) (auto simp: clean_calls_def trim_start_white)

lemma join_calls: "join (map (\<lambda>x. TCall (f x)) xs) = map (\<lambda>x. TCall (f x)) xs"
  by (induction xs) auto

lemma whole_reading_calls:
  assumes "tool_names_ok tools" and "clean_calls cgs"
    and "\<forall>op \<in> set (tp_openers (parser_new tools)). free op pre"
  shows "whole_reading from_json tools (pre @ concat (map call_text cgs))
    = (if pre = [] then [] else [TText pre]) @ map (\<lambda>cg. TCall (read_call from_json (schemas_of tools) (fst cg))) cgs"
proof -
  let ?rd = "read_call from_json (schemas_of tools)"
  have merge: "pre \<noteq> [] \<Longrightarrow> merge_text pre (map (\<lambda>cg. TCall (?rd (fst cg))) cgs) = TText pre # map (\<lambda>cg. TCall (?rd (fst cg))) cgs"
    by (cases cgs) auto
  have "render False (events_of ?rd pre cgs) = (if pre = [] then [] else [TText pre]) @ map (\<lambda>cg. TCall (?rd (fst cg))) cgs"
  proof (cases cgs)
    case (Cons cg rest)
    have "clean_calls rest" "white (snd cg)" using assms(2) by (auto simp: clean_calls_def Cons)
    then show ?thesis using render_events [of rest "snd cg" ?rd] by (simp add: Cons)
  qed simp
  then show ?thesis
    using reading_calls [OF assms, of from_json] merge join_calls [of "\<lambda>cg. ?rd (fst cg)" cgs]
    by (simp add: whole_reading_def schemas_of_def)
qed


lemma whole_reading_bare_calls:
  assumes names: "tool_names_ok tools" and calls: "clean_calls (cg # cgs)" and mem: "fst (fst cg) \<in> fst ` set tools"
  shows "whole_reading from_json tools (call_body (fst (fst cg)) (snd (fst cg)) @ CALL_CLOSE @ snd cg @ concat (map call_text cgs))
    = map (\<lambda>cg. TCall (read_call from_json (schemas_of tools) (fst cg))) (cg # cgs)"
proof -
  let ?rd = "read_call from_json (schemas_of tools)"
  note ok = parser_new_ok [OF tool_names_plain [OF names]]
  have call: "clean_call (fst cg)" and rest: "clean_calls cgs" and gap: "white (snd cg)"
    using calls by (auto simp: clean_calls_def)
  have "lit ''<function='' @ fst (fst cg) @ [gt] \<in> set (tp_openers (parser_new tools))"
    using mem by (force simp: parser_new_def)
  from reading_bare_call [OF ok this call, of from_json "schemas_of tools" "snd cg @ concat (map call_text cgs)"]
    reading_calls [OF names rest free_white [OF gap], of from_json]
  have "reading from_json (schemas_of tools) (tp_openers (parser_new tools)) InText
      (call_body (fst (fst cg)) (snd (fst cg)) @ CALL_CLOSE @ snd cg @ concat (map call_text cgs))
    = TText [] # TCall (?rd (fst cg)) # events_of ?rd (snd cg) cgs" by simp
  then show ?thesis using render_events [OF rest gap, of ?rd] join_calls [of "\<lambda>cg. ?rd (fst cg)" cgs]
    by (simp add: whole_reading_def schemas_of_def)
qed

end
