(* ===== verification/ChatTurns.thy ===== *)
theory ChatTurns
  imports ChatRender CallText
begin

text \<open>
  The prompt against what comes after it: the calls of a replayed turn are read back as they were made, and
  a conversation continued without a new question renders to an extension of the text the model has
  already seen, so that its prefix stays cached.
\<close>

section \<open>Replayed calls\<close>

text \<open>A call as the prompt spells it.\<close>

definition written :: "('n Value \<Rightarrow> rstr) \<Rightarrow> 'n ParsedToolCall \<Rightarrow> rstr \<times> (rstr \<times> rstr) list" where
  "written json call = (pc_name call, map (\<lambda>(key, v). (key, parameter_value json v)) (pc_arguments call))"

text \<open>A call whose spelling means the call: its names fit, no value closes a tag early, and each is read back at
  the type it had.\<close>

definition replayable :: "(rstr \<Rightarrow> 'n Value option) \<Rightarrow> ('n Value \<Rightarrow> rstr) \<Rightarrow> (rstr \<times> Schema) list \<Rightarrow> 'n ParsedToolCall \<Rightarrow> bool" where
  "replayable from_json json tools call \<longleftrightarrow> clean_call (written json call)
     \<and> (\<forall>(key, v) \<in> set (pc_arguments call).
          typed from_json (map_of (schemas_of tools) (pc_name call)) key (parameter_value json v) = v)"

lemma replayable_reads_back: "replayable from_json json tools call \<Longrightarrow> read_call from_json (schemas_of tools) (written json call) = call"
  by (cases call) (auto simp: replayable_def read_call_def written_def intro!: map_idI)

fun line_gaps :: "'a list \<Rightarrow> ('a \<times> rstr) list" where
  "line_gaps [] = []"
| "line_gaps [x] = [(x, [])]"
| "line_gaps (x # xs) = (x, [newline]) # line_gaps xs"

lemma render_call_text: "render_call json call = call_text (written json call, [])"
proof -
  have "concat (map (\<lambda>(key, v). lit ''<parameter='' @ key @ lit ''>'' @ [newline] @ parameter_value json v
      @ [newline] @ lit ''</parameter>'' @ [newline]) kvs) = concat (map param_text (map (\<lambda>(key, v). (key, parameter_value json v)) kvs))" for kvs
    by (induction kvs) (auto simp: param_text_def)
  then show ?thesis by (simp add: render_call_def call_text_def call_body_def written_def CALL_OPEN_def CALL_CLOSE_def)
qed

lemma call_text_gap: "call_text (call, gap) = call_text (call, []) @ gap"
  by (simp add: call_text_def)

lemma later_calls:
  "0 < n \<Longrightarrow> concat (map (\<lambda>(i, c). (if 0 < i then [newline] else h) @ f c) (List.enumerate n cs))
    = concat (map (\<lambda>c. newline # f c) cs)" for f :: "'a \<Rightarrow> nat list"
  by (induction cs arbitrary: n) auto

lemma line_gaps_text:
  "concat (map call_text (line_gaps (x # xs))) = call_text (x, []) @ concat (map (\<lambda>c. newline # call_text (c, [])) xs)"
proof (induction xs arbitrary: x)
  case (Cons y ys)
  then show ?case using call_text_gap [of x "[newline]"] by simp
qed simp

lemma render_calls_text:
  "calls \<noteq> [] \<Longrightarrow> render_calls json content calls
    = (if content \<noteq> [] then [newline, newline] else []) @ concat (map call_text (line_gaps (map (written json) calls)))"
proof (cases calls)
  case (Cons c cs)
  then show ?thesis unfolding Cons render_calls_def list.map line_gaps_text
    by (simp add: later_calls render_call_text o_def)
qed simp

lemma fst_line_gaps: "map fst (line_gaps xs) = xs"
  by (induction xs rule: line_gaps.induct) auto

lemma clean_line_gaps: "clean_calls (line_gaps xs) \<longleftrightarrow> (\<forall>x \<in> set xs. clean_call x)"
  by (induction xs rule: line_gaps.induct) (auto simp: clean_calls_def white_def is_white_def)

lemma free_blank_line:
  assumes "tool_names_ok tools" and "op \<in> set (tp_openers (parser_new tools))" and "free op s"
  shows "free op (s @ [newline, newline])"
proof -
  have op: "op \<noteq> []" "newline \<notin> set op"
    using assms(1,2) by (auto simp: parser_new_def CALL_OPEN_def tool_names_ok_def renderable_def)
  have "free op ([] @ newline # [])" using op free_Nil [OF op(1)] by (intro free_split) simp_all
  then show ?thesis using free_split [OF op assms(3), of "[newline]"] by simp
qed

section \<open>A conversation continued\<close>

lemma find_append: "find P (xs @ ys) = (case find P xs of None \<Rightarrow> find P ys | Some x \<Rightarrow> Some x)"
  by (induction xs) auto

lemma find_cong_set: "(\<And>x. x \<in> set xs \<Longrightarrow> P x = Q x) \<Longrightarrow> find P xs = find Q xs"
  by (induction xs) auto

lemma rposition_append:
  assumes "\<forall>y \<in> set ys. \<not> P y"
  shows "rposition P (xs @ ys) = rposition P xs"
proof -
  have "[0..<length (xs @ ys)] = [0..<length xs] @ [length xs..<length xs + length ys]"
    using upt_add_eq_append [of 0 "length xs" "length ys"] by simp
  then have "rposition P (xs @ ys)
      = (case find (\<lambda>i. P ((xs @ ys) ! i)) (rev [length xs..<length xs + length ys]) of
          None \<Rightarrow> find (\<lambda>i. P ((xs @ ys) ! i)) (rev [0..<length xs]) | Some i \<Rightarrow> Some i)"
    by (simp add: rposition_def find_append)
  moreover have "find (\<lambda>i. P ((xs @ ys) ! i)) (rev [length xs..<length xs + length ys]) = None"
    using assms by (auto simp: find_None_iff nth_append)
  moreover have "find (\<lambda>i. P ((xs @ ys) ! i)) (rev [0..<length xs]) = find (\<lambda>i. P (xs ! i)) (rev [0..<length xs])"
    by (intro find_cong_set) (simp add: nth_append)
  ultimately show ?thesis by (simp add: rposition_def)
qed

lemma rposition_found:
  assumes "x \<in> set xs" and "P x"
  shows "\<exists>i < length xs. rposition P xs = Some i"
proof (cases "rposition P xs")
  case None
  then show ?thesis using assms by (auto simp: rposition_def find_None_iff in_set_conv_nth)
next
  case (Some i)
  then have "List.find (\<lambda>i. P (xs ! i)) (rev [0..<length xs]) = Some i" by (simp add: rposition_def)
  then have "i \<in> set (rev [0..<length xs])" unfolding find_Some_iff by (metis nth_mem)
  then show ?thesis using Some by simp
qed

lemma last_query_append:
  assumes "\<exists>t \<in> set turns. is_question t" and "\<forall>t \<in> set later. \<not> is_question t"
  shows "last_query (turns @ later) = last_query turns" and "last_query turns < length turns"
proof -
  obtain i where "i < length turns" "rposition is_question turns = Some i"
    using assms(1) rposition_found [of _ turns is_question] by blast
  then show "last_query (turns @ later) = last_query turns" "last_query turns < length turns"
    using rposition_append [OF assms(2), of turns] by (simp_all add: last_query_def)
qed

lemma render_turns_append:
  assumes "\<exists>t \<in> set turns. is_question t" and "\<forall>t \<in> set later. \<not> is_question t"
  shows "render_turns json (turns @ later) = render_turns json turns
    @ concat (map (render_turn json (last_query turns)) (List.enumerate (length turns) later))"
  by (simp add: render_turns_def last_query_append [OF assms] enumerate_append_eq)

section \<open>Main theorems\<close>


definition weather_tools :: "(rstr \<times> Schema) list" where
  "weather_tools = [(lit ''get_weather'', [(lit ''city'', True)])]"

definition weather_call :: "nat ParsedToolCall" where
  "weather_call = \<lparr>pc_name = lit ''get_weather'', pc_arguments = [(lit ''city'', JString (lit ''Paris''))]\<rparr>"



definition weather_chat :: "(nat, nat) Conversation" where
  "weather_chat = \<lparr>cv_system = None, cv_turns = [User (lit ''Weather'')], cv_tools = [], cv_images = []\<rparr>"


end
