(* ===== verification/Utf8.thy ===== *)
theory Utf8
  imports Json
begin

text \<open>
  UTF-8 as the grammar and the parser share it: the grammar works on bytes, the parser on the string. An
  encoded string splits at an ASCII byte only where the string has that character, and the encoding is
  injective.
\<close>

section \<open>Bytes of one character\<close>

text \<open>A Rust string holds code points only.\<close>

definition valid :: "rstr \<Rightarrow> bool" where
  "valid s \<longleftrightarrow> (\<forall>c \<in> set s. c < 0x110000)"

lemma valid_simps [simp]:
  "valid []" "valid (c # s) \<longleftrightarrow> c < 0x110000 \<and> valid s" "valid (s @ t) \<longleftrightarrow> valid s \<and> valid t"
  by (auto simp: valid_def)

lemma utf8_char_bytes: "c < 0x110000 \<Longrightarrow> \<forall>b \<in> set (utf8_char c). b < 256"
  by (auto simp: utf8_char_def)

lemma utf8_char_high: "0x80 \<le> c \<Longrightarrow> \<forall>b \<in> set (utf8_char c). 0x80 \<le> b"
  by (auto simp: utf8_char_def)

lemma utf8_char_ascii: "c < 0x80 \<Longrightarrow> utf8_char c = [c]"
  by (simp add: utf8_char_def)

lemma utf8_char_nonempty: "utf8_char c \<noteq> []"
  by (simp add: utf8_char_def)

lemma digits2: "(a::nat) div 64 = b div 64 \<Longrightarrow> a mod 64 = b mod 64 \<Longrightarrow> a = b"
  by (metis div_mult_mod_eq)

lemma digits3:
  assumes "(a::nat) div 4096 = b div 4096" "a div 64 mod 64 = b div 64 mod 64" "a mod 64 = b mod 64"
  shows "a = b"
proof -
  have "a div 64 div 64 = b div 64 div 64" using assms(1) by (simp add: div_mult2_eq [symmetric])
  from digits2 [OF this assms(2)] show ?thesis using assms(3) by (rule digits2)
qed

lemma digits4:
  assumes "(a::nat) div 262144 = b div 262144" "a div 4096 mod 64 = b div 4096 mod 64"
    "a div 64 mod 64 = b div 64 mod 64" "a mod 64 = b mod 64"
  shows "a = b"
proof -
  have "a div 4096 div 64 = b div 4096 div 64" using assms(1) by (simp add: div_mult2_eq [symmetric])
  from digits2 [OF this assms(2)] show ?thesis using assms(3,4) by (rule digits3)
qed

lemma utf8_char_2: "0x80 \<le> c \<Longrightarrow> c < 0x800 \<Longrightarrow> utf8_char c = [0xC0 + c div 64, 0x80 + c mod 64]"
  by (simp add: utf8_char_def)

lemma utf8_char_3:
  "0x800 \<le> c \<Longrightarrow> c < 0x10000 \<Longrightarrow> utf8_char c = [0xE0 + c div 4096, 0x80 + c div 64 mod 64, 0x80 + c mod 64]"
  by (simp add: utf8_char_def)

lemma utf8_char_4:
  "0x10000 \<le> c \<Longrightarrow> utf8_char c = [0xF0 + c div 262144, 0x80 + c div 4096 mod 64, 0x80 + c div 64 mod 64, 0x80 + c mod 64]"
  by (simp add: utf8_char_def)

lemma utf8_char_lead:
  assumes "c < 0x110000"
  shows "hd (utf8_char c) \<in> (if c < 0x80 then {0..<0x80} else if c < 0x800 then {0xC0..<0xE0}
    else if c < 0x10000 then {0xE0..<0xF0} else {0xF0..<0x100})"
  using assms by (simp add: utf8_char_def) linarith

lemma utf8_char_prefix_free:
  assumes "utf8_char a @ x = utf8_char b @ y" and "a < 0x110000" "b < 0x110000"
  shows "a = b"
proof -
  have lead: "hd (utf8_char a) = hd (utf8_char b)"
    using arg_cong [OF assms(1), of hd] utf8_char_nonempty by simp
  consider "a < 0x80" "b < 0x80" | "0x80 \<le> a" "a < 0x800" "0x80 \<le> b" "b < 0x800"
    | "0x800 \<le> a" "a < 0x10000" "0x800 \<le> b" "b < 0x10000" | "0x10000 \<le> a" "0x10000 \<le> b"
    using utf8_char_lead [OF assms(2)] utf8_char_lead [OF assms(3)] unfolding lead
    by (simp split: if_splits)
  then show ?thesis
  proof cases
    case 1
    then show ?thesis using assms(1) by (simp add: utf8_char_ascii)
  next
    case 2
    have "[0xC0 + a div 64, 0x80 + a mod 64] @ x = [0xC0 + b div 64, 0x80 + b mod 64] @ y"
      using assms(1) by (simp only: utf8_char_2 [OF 2(1,2)] utf8_char_2 [OF 2(3,4)])
    then have "a div 64 = b div 64" "a mod 64 = b mod 64" by (simp_all only: append_Cons list.inject add_left_cancel)
    then show ?thesis by (rule digits2)
  next
    case 3
    have "[0xE0 + a div 4096, 0x80 + a div 64 mod 64, 0x80 + a mod 64] @ x
        = [0xE0 + b div 4096, 0x80 + b div 64 mod 64, 0x80 + b mod 64] @ y"
      using assms(1) by (simp only: utf8_char_3 [OF 3(1,2)] utf8_char_3 [OF 3(3,4)])
    then have "a div 4096 = b div 4096" "a div 64 mod 64 = b div 64 mod 64" "a mod 64 = b mod 64"
      by (simp_all only: append_Cons list.inject add_left_cancel)
    then show ?thesis by (rule digits3)
  next
    case 4
    have "[0xF0 + a div 262144, 0x80 + a div 4096 mod 64, 0x80 + a div 64 mod 64, 0x80 + a mod 64] @ x
        = [0xF0 + b div 262144, 0x80 + b div 4096 mod 64, 0x80 + b div 64 mod 64, 0x80 + b mod 64] @ y"
      using assms(1) by (simp only: utf8_char_4 [OF 4(1)] utf8_char_4 [OF 4(2)])
    then have "a div 262144 = b div 262144" "a div 4096 mod 64 = b div 4096 mod 64"
        "a div 64 mod 64 = b div 64 mod 64" "a mod 64 = b mod 64"
      by (simp_all only: append_Cons list.inject add_left_cancel)
    then show ?thesis by (rule digits4)
  qed
qed

section \<open>Strings\<close>

lemma utf8_Nil [simp]: "utf8 [] = []"
  by (simp add: utf8_def)

lemma utf8_Cons: "utf8 (c # s) = map char_of (utf8_char c) @ utf8 s"
  by (simp add: utf8_def)

lemma utf8_ascii_Cons [simp]: "c < 0x80 \<Longrightarrow> utf8 (c # s) = char_of c # utf8 s"
  by (simp add: utf8_Cons utf8_char_ascii)

lemma utf8_eq_Nil [simp]: "utf8 s = [] \<longleftrightarrow> s = []"
  by (cases s) (simp_all add: utf8_Cons utf8_char_nonempty)

lemma utf8_inj: "utf8 s = utf8 t \<Longrightarrow> valid s \<Longrightarrow> valid t \<Longrightarrow> s = t"
proof (induction s arbitrary: t)
  case Nil
  then have "utf8 t = []" by simp
  then show ?case by simp
next
  case (Cons a s)
  obtain b u where t: "t = b # u" using Cons.prems(1) by (cases t) (auto simp: utf8_Cons utf8_char_nonempty)
  have codes: "map (of_char :: char \<Rightarrow> nat) (utf8 v) = concat (map utf8_char v)" if "valid v" for v
  proof -
    have "map of_char (utf8 v) = map (\<lambda>n. n mod 256) (concat (map utf8_char v))" by (simp add: utf8_def)
    also have "\<dots> = concat (map utf8_char v)"
      using that utf8_char_bytes by (intro map_idI) (auto simp: valid_def)
    finally show ?thesis .
  qed
  have "utf8_char a @ concat (map utf8_char s) = utf8_char b @ concat (map utf8_char u)"
    using arg_cong [OF Cons.prems(1), of "map (of_char :: char \<Rightarrow> nat)"] codes [OF Cons.prems(2)] codes [OF Cons.prems(3)] unfolding t
    by (simp only: list.map concat.simps)
  then have "a = b" by (rule utf8_char_prefix_free) (use Cons.prems(2,3) in \<open>simp_all add: t\<close>)
  then show ?case using Cons by (simp add: t utf8_Cons)
qed

lemma append_skip: "c \<notin> set bs \<Longrightarrow> a @ c # b = bs @ r \<Longrightarrow> \<exists>a'. a = bs @ a' \<and> r = a' @ c # b"
  by (induction bs arbitrary: a) (auto simp: Cons_eq_append_conv append_eq_Cons_conv)

lemma utf8_split:
  assumes "valid s" and "utf8 s = a @ c # b" and ascii: "of_char c < (0x80 :: nat)"
  shows "\<exists>s1 s2. s = s1 @ of_char c # s2 \<and> utf8 s1 = a \<and> utf8 s2 = b"
  using assms(1,2)
proof (induction s arbitrary: a)
  case (Cons x s)
  show ?case
  proof (cases "x < 0x80")
    case True
    show ?thesis
    proof (cases a)
      case Nil
      then have "c = char_of x" "b = utf8 s" using Cons.prems(2) True by auto
      then have "of_char c = x" using True by simp
      then show ?thesis using Nil \<open>b = utf8 s\<close> by (intro exI [of _ "[]"] exI [of _ s]) simp
    next
      case (Cons y a')
      then have y: "y = char_of x" and rest: "utf8 s = a' @ c # b" using Cons.prems(2) True by auto
      from Cons.IH [OF _ rest] Cons.prems(1) obtain s1 s2 where "s = s1 @ of_char c # s2" "utf8 s1 = a'" "utf8 s2 = b" by auto
      then show ?thesis using y True Cons by (intro exI [of _ "x # s1"] exI [of _ s2]) simp
    qed
  next
    case False
    have "c \<notin> set (map char_of (utf8_char x))"
    proof
      assume "c \<in> set (map char_of (utf8_char x))"
      then obtain n where n: "n \<in> set (utf8_char x)" "c = char_of n" by auto
      have "of_char c = n" using n utf8_char_bytes [of x] Cons.prems(1) by simp
      then show False using ascii n(1) utf8_char_high [of x] False by fastforce
    qed
    from append_skip [OF this] Cons.prems(2) obtain a' where a': "a = map char_of (utf8_char x) @ a'" "utf8 s = a' @ c # b"
      by (metis utf8_Cons)
    from Cons.IH [OF _ a'(2)] Cons.prems(1) obtain s1 s2 where "s = s1 @ of_char c # s2" "utf8 s1 = a'" "utf8 s2 = b" by auto
    then show ?thesis using a'(1) by (intro exI [of _ "x # s1"] exI [of _ s2]) (simp add: utf8_Cons)
  qed
qed simp

definition ascii :: "string \<Rightarrow> bool" where
  "ascii w \<longleftrightarrow> (\<forall>c \<in> set w. of_char c < (0x80 :: nat))"

lemma utf8_literal: "ascii w \<Longrightarrow> utf8 (lit w) = w"
  by (induction w) (auto simp: ascii_def lit_def)

lemma ascii_valid: "ascii w \<Longrightarrow> valid (lit w)"
  by (auto simp: ascii_def valid_def lit_def)

lemma utf8_strip: "ascii w \<Longrightarrow> valid s \<Longrightarrow> utf8 s = w @ v \<Longrightarrow> \<exists>t. s = lit w @ t \<and> utf8 t = v"
proof (induction w arbitrary: s)
  case (Cons c w)
  have "utf8 s = [] @ c # (w @ v)" using Cons.prems(3) by simp
  from utf8_split [OF Cons.prems(2) this] Cons.prems(1) obtain s1 s2
    where s: "s = s1 @ of_char c # s2" "utf8 s1 = []" "utf8 s2 = w @ v" by (auto simp: ascii_def)
  then show ?case using Cons.IH [of s2] Cons.prems(1,2) by (auto simp: ascii_def lit_def)
qed (simp add: lit_def)

text \<open>A named field up to its ASCII delimiter.\<close>

lemma utf8_field:
  assumes "valid s" and "utf8 s = utf8 name @ c # v" and "valid name" and "of_char c < (0x80 :: nat)"
  shows "\<exists>t. s = name @ of_char c # t \<and> utf8 t = v"
proof -
  obtain s1 s2 where s: "s = s1 @ of_char c # s2" "utf8 s1 = utf8 name" "utf8 s2 = v"
    using utf8_split [OF assms(1,2,4)] by blast
  have "s1 = name" using s(2) by (rule utf8_inj) (use assms(1,3) s(1) in simp_all)
  then show ?thesis using s by blast
qed

end
