(* ===== verification/CallGrammar.thy ===== *)
theory CallGrammar
  imports Utf8 CallText SchemaScan
begin

text \<open>
  The grammar against the parser: what a constrained response spells, read as a string, is a sequence of
  calls in the parser's own layout. The grammar's bytes are taken apart at their ASCII delimiters.
\<close>

section \<open>Calls a specification allows\<close>

text \<open>Names as they come out of the request: code points the markup can carry, no parameter twice.\<close>

definition named_spec :: "ToolSpec \<Rightarrow> bool" where
  "named_spec tool \<longleftrightarrow> (\<exists>name. to_name tool = utf8 name \<and> valid name \<and> renderable name)
     \<and> (\<forall>p \<in> set (to_params tool). \<exists>key. pa_name p = utf8 key \<and> valid key \<and> renderable key)
     \<and> distinct (map pa_name (to_params tool))"

definition arg_ok :: "ParamSpec \<Rightarrow> rstr \<times> rstr \<Rightarrow> bool" where
  "arg_ok p kv \<longleftrightarrow> utf8 (fst kv) = pa_name p \<and> renderable (fst kv) \<and> utf8 (snd kv) @ CLOSE \<in> value_lang (pa_value p)"

text \<open>A call of this tool: declared parameters only, none twice, every required one, values of their kind.\<close>

definition call_of :: "ToolSpec \<Rightarrow> rstr \<times> (rstr \<times> rstr) list \<Rightarrow> bool" where
  "call_of tool call \<longleftrightarrow> utf8 (fst call) = to_name tool \<and> renderable (fst call)
     \<and> (\<exists>ps. distinct ps \<and> set ps \<subseteq> {..<length (to_params tool)} \<and> required_params (to_params tool) \<subseteq> set ps
         \<and> list_all2 (\<lambda>p. arg_ok (to_params tool ! p)) ps (snd call))"

section \<open>Taking the bytes apart\<close>

lemma value_lang_close: "x \<in> value_lang v \<Longrightarrow> \<exists>w. x = w @ CLOSE"
  by (cases v) (auto simp: text_value_def suffix_def conc_def)

lemma nl_code: "of_char nl = newline" "of_char CHR ''>'' = gt" "char_of newline = nl"
  by code_simp+

lemma spaces_white: "b \<in> set spaces \<Longrightarrow> of_char b < (0x80 :: nat) \<and> is_white (of_char b)"
  unfolding spaces_def by (simp only: set_simps insert_iff empty_iff) (elim disjE; simp add: is_white_def)

lemma param_text_split:
  assumes u: "u \<in> param_lang p" and s: "valid s" "utf8 s = u @ rest"
    and key: "pa_name p = utf8 key" "valid key" "renderable key"
  shows "\<exists>val t. s = param_text (key, val) @ t \<and> utf8 t = rest \<and> arg_ok p (key, val)"
proof -
  obtain x where x: "x \<in> value_lang (pa_value p)" and u: "u = (''<parameter='' @ pa_name p @ [CHR ''>'', nl]) @ x"
    using u by (auto simp: param_lang_def conc_single)
  obtain w where w: "x = w @ CLOSE" using value_lang_close [OF x] by blast
  have "utf8 s = ''<parameter='' @ (utf8 key @ CHR ''>'' # nl # w @ nl # ''</parameter>'' @ nl # rest)"
    using s(2) by (simp add: u key w CLOSE_def)
  from utf8_strip [OF _ s(1) this] obtain t1 where t1: "s = lit ''<parameter='' @ t1"
      "utf8 t1 = utf8 key @ CHR ''>'' # (nl # w @ nl # ''</parameter>'' @ nl # rest)" by (auto simp: ascii_def simp del: lit_Cons)
  have v1: "valid t1" using s(1) t1(1) by simp
  from utf8_field [OF v1 t1(2) key(2)] obtain t2 where t2: "t1 = key @ gt # t2"
      "utf8 t2 = [nl] @ (w @ nl # ''</parameter>'' @ nl # rest)" by (auto simp: nl_code)
  have v2: "valid t2" using v1 t2(1) by simp
  from utf8_strip [OF _ v2 t2(2)] obtain t3 where t3: "t2 = newline # t3"
      "utf8 t3 = w @ nl # (''</parameter>'' @ nl # rest)" by (auto simp: ascii_def nl_code)
  have v3: "valid t3" using v2 t3(1) by simp
  from utf8_split [OF v3 t3(2)] obtain val t4 where t4: "t3 = val @ newline # t4" "utf8 val = w"
      "utf8 t4 = (''</parameter>'' @ [nl]) @ rest" by (auto simp: nl_code)
  have v4: "valid t4" using v3 t4(1) by simp
  from utf8_strip [OF _ v4 t4(3)] obtain t where t: "t4 = lit (''</parameter>'' @ [nl]) @ t" "utf8 t = rest"
    by (auto simp: ascii_def simp del: lit_Cons)
  have "s = param_text (key, val) @ t"
    by (simp add: t1(1) t2(1) t3(1) t4(1) t(1) param_text_def lit_def)
  moreover have "arg_ok p (key, val)" using x by (simp add: arg_ok_def key w t4(2))
  ultimately show ?thesis using t(2) by blast
qed

lemma args_text_split:
  assumes "list_all2 (\<lambda>p u. u \<in> param_lang (specs ! p)) ps us" and "set ps \<subseteq> {..<length specs}"
    and keys: "\<forall>p \<in> set specs. \<exists>key. pa_name p = utf8 key \<and> valid key \<and> renderable key"
  shows "valid s \<Longrightarrow> utf8 s = concat us @ rest \<Longrightarrow>
    \<exists>args t. s = concat (map param_text args) @ t \<and> utf8 t = rest \<and> list_all2 (\<lambda>p. arg_ok (specs ! p)) ps args"
  using assms(1,2)
proof (induction ps us arbitrary: s rule: list_all2_induct)
  case Nil
  then show ?case by (intro exI [of _ "[]"] exI [of _ s]) simp
next
  case (Cons p ps u us)
  have "specs ! p \<in> set specs" using Cons.prems(3) by simp
  then obtain key where key: "pa_name (specs ! p) = utf8 key" "valid key" "renderable key" using keys by blast
  have "utf8 s = u @ (concat us @ rest)" using Cons.prems(2) by simp
  from param_text_split [OF Cons.hyps(1) Cons.prems(1) this key] obtain val t where
    t: "s = param_text (key, val) @ t" "utf8 t = concat us @ rest" "arg_ok (specs ! p) (key, val)" by blast
  have "valid t" using Cons.prems(1) t(1) by simp
  from Cons.IH [OF this t(2)] Cons.prems(3) obtain args t' where
    "t = concat (map param_text args) @ t'" "utf8 t' = rest" "list_all2 (\<lambda>p. arg_ok (specs ! p)) ps args" by auto
  then show ?case using t by (intro exI [of _ "(key, val) # args"] exI [of _ t']) simp
qed

lemma body_text_split:
  assumes x: "x \<in> body_lang tool" and named: "named_spec tool" and s: "valid s" "utf8 s = x @ rest"
  shows "\<exists>call t. s = call_body (fst call) (snd call) @ CALL_CLOSE @ t \<and> utf8 t = rest \<and> call_of tool call"
proof -
  obtain name where name: "to_name tool = utf8 name" "valid name" "renderable name"
    and keys: "\<forall>p \<in> set (to_params tool). \<exists>key. pa_name p = utf8 key \<and> valid key \<and> renderable key"
    using named by (auto simp: named_spec_def)
  obtain y where y: "y \<in> args_words (to_params tool) {}" and x: "x = tool_text tool y @ call_close"
    using x by (auto simp: body_lang_def)
  obtain ps us where y: "y = concat us" and ps: "distinct ps" "set ps \<subseteq> {..<length (to_params tool)}"
      "required_params (to_params tool) \<subseteq> set ps" and each: "list_all2 (\<lambda>p u. u \<in> param_lang (to_params tool ! p)) ps us"
    using y by (auto simp: args_words_def)
  have "utf8 s = ''<function='' @ (utf8 name @ CHR ''>'' # nl # concat us @ ''</function>'' @ nl # ''</tool_call>'' @ rest)"
    using s(2) by (simp add: x tool_text_def open_text_def fin_text_def call_close_def name y)
  from utf8_strip [OF _ s(1) this] obtain t1 where t1: "s = lit ''<function='' @ t1"
      "utf8 t1 = utf8 name @ CHR ''>'' # (nl # concat us @ ''</function>'' @ nl # ''</tool_call>'' @ rest)"
    by (auto simp: ascii_def simp del: lit_Cons)
  have v1: "valid t1" using s(1) t1(1) by simp
  from utf8_field [OF v1 t1(2) name(2)] obtain t2 where t2: "t1 = name @ gt # t2"
      "utf8 t2 = [nl] @ (concat us @ ''</function>'' @ nl # ''</tool_call>'' @ rest)" by (auto simp: nl_code)
  have v2: "valid t2" using v1 t2(1) by simp
  from utf8_strip [OF _ v2 t2(2)] obtain t3 where t3: "t2 = newline # t3"
      "utf8 t3 = concat us @ (''</function>'' @ nl # ''</tool_call>'' @ rest)" by (auto simp: ascii_def nl_code)
  have v3: "valid t3" using v2 t3(1) by simp
  from args_text_split [OF each ps(2) keys v3 t3(2)] obtain args t4 where t4: "t3 = concat (map param_text args) @ t4"
      "utf8 t4 = (''</function>'' @ [nl] @ ''</tool_call>'') @ rest"
      "list_all2 (\<lambda>p. arg_ok (to_params tool ! p)) ps args" by auto
  have v4: "valid t4" using v3 t4(1) by simp
  from utf8_strip [OF _ v4 t4(2)] obtain t where t: "t4 = lit (''</function>'' @ [nl] @ ''</tool_call>'') @ t" "utf8 t = rest"
    by (auto simp: ascii_def simp del: lit_Cons)
  have "s = call_body name args @ CALL_CLOSE @ t"
    by (simp add: t1(1) t2(1) t3(1) t4(1) t(1) call_body_def CALL_CLOSE_def lit_def)
  moreover have "call_of tool (name, args)" using name ps t4(3) by (auto simp: call_of_def)
  ultimately show ?thesis using t(2) by (intro exI [of _ "(name, args)"] exI [of _ t]) simp
qed

definition offered_call :: "ToolSpec list \<Rightarrow> rstr \<times> (rstr \<times> rstr) list \<Rightarrow> bool" where
  "offered_call specs call \<longleftrightarrow> (\<exists>tool \<in> set specs. call_of tool call)"

lemma call_open_strip:
  assumes "valid s" and "utf8 s = call_open @ rest"
  shows "\<exists>t. s = CALL_OPEN @ [newline] @ t \<and> valid t \<and> utf8 t = rest"
proof -
  have "utf8 s = (''<tool_call>'' @ [nl]) @ rest" using assms(2) by (simp add: call_open_def)
  from utf8_strip [OF _ assms(1) this] obtain t where t: "s = lit (''<tool_call>'' @ [nl]) @ t" "utf8 t = rest"
    by (auto simp: ascii_def simp del: lit_Cons)
  moreover have "s = CALL_OPEN @ [newline] @ t" by (simp add: t(1) CALL_OPEN_def lit_def)
  ultimately show ?thesis using assms(1) by auto
qed

lemma tail_text_split:
  assumes named: "\<forall>tool \<in> set specs. named_spec tool"
  shows "w \<in> tail_words specs many \<Longrightarrow> valid s \<Longrightarrow> utf8 s = w \<Longrightarrow>
    \<exists>gap cgs. s = gap @ concat (map call_text cgs) \<and> white gap
      \<and> (\<forall>(call, g) \<in> set cgs. offered_call specs call \<and> white g)"
proof (induction arbitrary: s rule: tail_words.induct)
  case stop
  then show ?case by (intro exI [of _ "[]"]) (simp add: white_def)
next
  case (space b w)
  have bytes: "utf8 s = [] @ b # w" using space.prems(2) by simp
  obtain t where t: "s = of_char b # t" "utf8 t = w"
    using utf8_split [OF space.prems(1) bytes] spaces_white [OF space.hyps(1)] by auto
  from space.IH [of t] space.prems(1) t obtain gap cgs where "t = gap @ concat (map call_text cgs)" "white gap"
    "\<forall>(call, g) \<in> set cgs. offered_call specs call \<and> white g" by auto
  then show ?case using t(1) spaces_white [OF space.hyps(1)] by (intro exI [of _ "of_char b # gap"] exI [of _ cgs]) (auto simp: white_def)
next
  case (again tool x w)
  from call_open_strip [OF again.prems] obtain t where t: "s = CALL_OPEN @ [newline] @ t" "valid t" "utf8 t = x @ w"
    by auto
  obtain call u where u: "t = call_body (fst call) (snd call) @ CALL_CLOSE @ u" "utf8 u = w" "call_of tool call"
    using body_text_split [OF again.hyps(3) _ t(2,3)] named again.hyps(2) by blast
  have "valid u" using t(2) u(1) by simp
  from again.IH [OF this u(2)] obtain gap cgs where rest: "u = gap @ concat (map call_text cgs)" "white gap"
    "\<forall>(call, g) \<in> set cgs. offered_call specs call \<and> white g" by blast
  have "s = [] @ concat (map call_text ((call, gap) # cgs))" by (simp add: t(1) u(1) rest(1) call_text_def)
  moreover have "\<forall>(call, g) \<in> set ((call, gap) # cgs). offered_call specs call \<and> white g"
    using rest u(3) again.hyps(2) by (auto simp: offered_call_def)
  ultimately show ?case by (intro exI [of _ "[]"] exI [of _ "(call, gap) # cgs"]) (auto simp: white_def)
qed

text \<open>A constrained response: calls, each followed by whitespace, the first perhaps without its opening tag.\<close>

definition spelt_calls :: "bool \<Rightarrow> ((rstr \<times> (rstr \<times> rstr) list) \<times> rstr) list \<Rightarrow> rstr" where
  "spelt_calls bare cgs = drop (if bare then length CALL_OPEN + 1 else 0) (concat (map call_text cgs))"

lemma call_text_split:
  assumes named: "\<forall>tool \<in> set specs. named_spec tool" and s: "valid s" "utf8 s \<in> tool_calls specs many"
  shows "\<exists>bare cgs. s = spelt_calls bare cgs \<and> cgs \<noteq> [] \<and> (\<forall>(call, g) \<in> set cgs. offered_call specs call \<and> white g)"
proof -
  obtain pre tool x w where w: "utf8 s = pre @ x @ w" and pre: "pre \<in> {[], call_open}" and tool: "tool \<in> set specs"
      "x \<in> body_lang tool" and tail: "w \<in> tail_words specs many"
    using s(2) by (auto simp: tool_calls_def)
  obtain t where t: "s = (if pre = [] then [] else CALL_OPEN @ [newline]) @ t" "valid t" "utf8 t = x @ w"
  proof (cases "pre = []")
    case False
    then show ?thesis using that call_open_strip [OF s(1), of "x @ w"] w pre by auto
  qed (use that s(1) w in auto)
  obtain call u where u: "t = call_body (fst call) (snd call) @ CALL_CLOSE @ u" "utf8 u = w" "call_of tool call"
    using body_text_split [OF tool(2) _ t(2,3)] named tool(1) by blast
  have "valid u" using t(2) u(1) by simp
  from tail_text_split [OF named tail this u(2)] obtain gap cgs where rest: "u = gap @ concat (map call_text cgs)" "white gap"
    "\<forall>(call, g) \<in> set cgs. offered_call specs call \<and> white g" by blast
  have "s = spelt_calls (pre = []) ((call, gap) # cgs)"
    by (simp add: t(1) u(1) rest(1) call_text_def spelt_calls_def)
  then show ?thesis using rest u(3) tool(1)
    by (intro exI [of _ "pre = []"] exI [of _ "(call, gap) # cgs"]) (auto simp: offered_call_def)
qed


section \<open>The parser on a constrained response\<close>

definition plain_values :: "rstr \<times> (rstr \<times> rstr) list \<Rightarrow> bool" where
  "plain_values call \<longleftrightarrow> (\<forall>(key, val) \<in> set (snd call). free (lit ''</parameter>'') val \<and> free CALL_CLOSE val)"

lemma call_of_clean:
  assumes call: "call_of tool call" and named: "named_spec tool" and plain: "plain_values call"
  shows "clean_call call"
proof -
  obtain ps where ps: "distinct ps" "set ps \<subseteq> {..<length (to_params tool)}"
    and each: "list_all2 (\<lambda>p. arg_ok (to_params tool ! p)) ps (snd call)"
    using call by (auto simp: call_of_def)
  have "map utf8 (map fst (snd call)) = map (\<lambda>p. map pa_name (to_params tool) ! p) ps"
    using each ps(2) by (induction ps "snd call" arbitrary: call rule: list_all2_induct) (auto simp: arg_ok_def)
  moreover have "inj_on (\<lambda>p. map pa_name (to_params tool) ! p) (set ps)"
    using named ps(2) by (intro inj_on_nth) (auto simp: named_spec_def)
  ultimately have "distinct (map utf8 (map fst (snd call)))" using ps(1) by (simp only: distinct_map)
  then have "distinct (map fst (snd call))" by (simp only: distinct_map)
  moreover have "\<forall>(key, val) \<in> set (snd call). renderable key"
    using each by (auto simp: arg_ok_def list_all2_conv_all_nth in_set_conv_nth) (metis fst_conv)
  ultimately show ?thesis using call plain by (auto simp: clean_call_def call_of_def plain_values_def)
qed

lemma valid_call_name: "valid (spelt_calls bare (cg # cgs)) \<Longrightarrow> valid (fst (fst cg))"
  by (cases bare) (auto simp: spelt_calls_def call_text_def call_body_def CALL_OPEN_def)

lemma reading_spelt_calls:
  assumes names: "tool_names_ok tools" and calls: "clean_calls cgs" "cgs \<noteq> []"
    and known: "bare \<Longrightarrow> fst (fst (hd cgs)) \<in> fst ` set tools"
  shows "whole_reading from_json tools (spelt_calls bare cgs)
    = map (\<lambda>cg. TCall (read_call from_json (schemas_of tools) (fst cg))) cgs"
proof -
  obtain cg rest where cgs: "cgs = cg # rest" using calls(2) by (cases cgs) auto
  show ?thesis
  proof (cases bare)
    case True
    have "spelt_calls bare cgs = call_body (fst (fst cg)) (snd (fst cg)) @ CALL_CLOSE @ snd cg @ concat (map call_text rest)"
      by (simp add: True cgs spelt_calls_def call_text_def)
    then show ?thesis using whole_reading_bare_calls [OF names calls(1) [unfolded cgs], of from_json] known True by (simp add: cgs)
  next
    case False
    have "\<forall>op \<in> set (tp_openers (parser_new tools)). free op []"
      by (auto simp: parser_new_def CALL_OPEN_def intro!: free_Nil)
    from whole_reading_calls [OF names calls(1) this, of from_json] show ?thesis by (simp add: False spelt_calls_def)
  qed
qed

section \<open>Requests\<close>

text \<open>What \<open>serde_json\<close> hands over: Unicode strings, and objects without a repeated key.\<close>

primrec proper :: "'n Value \<Rightarrow> bool" where
  "proper JNull = True"
| "proper (JBool b) = True"
| "proper (JNumber n) = True"
| "proper (JString s) = valid s"
| "proper (JArray vs) = list_all id (map proper vs)"
| "proper (JObject kvs) = (distinct (map fst kvs) \<and> list_all valid (map fst kvs)
     \<and> list_all id (map snd (map (map_prod id proper) kvs)))"

lemma proper_get: "proper v \<Longrightarrow> json_get v key = Some w \<Longrightarrow> proper w"
  by (cases v) (auto simp: list_all_iff dest!: map_of_SomeD)

lemma proper_str_field: "proper v \<Longrightarrow> valid (str_field v key)"
proof -
  assume v: "proper v"
  show ?thesis
  proof (cases "Option.bind (json_get v (lit key)) as_str")
    case (Some s)
    then have "json_get v (lit key) = Some (JString s)" by (auto simp: bind_eq_Some_conv elim: as_str.elims)
    from proper_get [OF v this] show ?thesis by (simp add: str_field_def Some)
  qed (simp add: str_field_def)
qed

lemma proper_function_of: "proper v \<Longrightarrow> proper (function_of v)"
  using proper_get by (auto simp: function_of_def split: option.splits)

definition proper_opt :: "'n Value option \<Rightarrow> bool" where
  "proper_opt v \<longleftrightarrow> (\<forall>w. v = Some w \<longrightarrow> proper w)"

lemma proper_optI:
  "proper v \<Longrightarrow> proper_opt (json_get v key)" "proper_opt a \<Longrightarrow> proper_opt b \<Longrightarrow> proper_opt (or_else a b)"
  "proper_opt None"
  using proper_get by (auto simp: proper_opt_def or_else_def split: option.splits)

definition proper_tool :: "'n ToolDefinition \<Rightarrow> bool" where
  "proper_tool d \<longleftrightarrow> (\<exists>name description params. tool_build name description params = Inr d \<and> valid name \<and> proper_opt params)"

lemma proper_toolI: "tool_build name description params = Inr d \<Longrightarrow> valid name \<Longrightarrow> proper_opt params \<Longrightarrow> proper_tool d"
  by (auto simp: proper_tool_def)

lemma proper_defaults: "proper_opt (snd (anthropic_defaults kind name))"
  by (auto simp: proper_opt_def anthropic_defaults_def bash_schema_def text_editor_schema_def described_def list_all_iff)

lemma proper_from_openai: "from_openai v = Inr d \<Longrightarrow> proper v \<Longrightarrow> proper_tool d"
  unfolding from_openai_def Let_def
  by (erule proper_toolI) (intro proper_str_field proper_optI proper_function_of; assumption)+

lemma proper_from_anthropic: "from_anthropic v = Inr d \<Longrightarrow> proper v \<Longrightarrow> proper_tool d" for v :: "'n Value"
proof -
  assume d: "from_anthropic v = Inr d" and v: "proper v"
  obtain desc params :: "'n Value option" where def: "anthropic_defaults (str_field v ''type'') (str_field (function_of v) ''name'') = (desc, params)"
    by fastforce
  have "proper_opt params" using proper_defaults [of "str_field v ''type''" "str_field (function_of v) ''name''", where ?'a = 'n] def by simp
  then show ?thesis using d v unfolding from_anthropic_def Let_def def prod.case
    by (auto split: if_splits intro!: proper_toolI proper_str_field proper_optI proper_function_of)
qed

lemma proper_from_responses: "from_responses v = Inr d \<Longrightarrow> proper v \<Longrightarrow> proper_tool d"
  unfolding from_responses_def Let_def
  by (auto split: if_splits intro!: proper_toolI proper_str_field proper_optI proper_function_of)

lemma proper_namespace_member: "namespace_member ns v = Inr d \<Longrightarrow> valid ns \<Longrightarrow> proper v \<Longrightarrow> proper_tool d"
  unfolding namespace_member_def Let_def
  by (auto split: if_splits intro!: proper_toolI proper_str_field proper_optI proper_function_of)

lemma proper_entry: "from_responses_entry v = Inr ds \<Longrightarrow> proper v \<Longrightarrow> \<forall>d \<in> set ds. proper_tool d"
proof -
  assume ds: "from_responses_entry v = Inr ds" and v: "proper v"
  show ?thesis
  proof (cases "Option.bind (json_get v (lit ''type'')) as_str = Some (lit ''namespace'')")
    case True
    then obtain tools where tools: "Option.bind (json_get v (lit ''tools'')) as_list = Some tools"
      and all: "collect (map (namespace_member (str_field v ''name'')) tools) = Inr ds"
      using ds by (auto simp: from_responses_entry_def Let_def split: if_splits option.splits)
    have "json_get v (lit ''tools'') = Some (JArray tools)"
      using tools by (auto simp: bind_eq_Some_conv elim: as_list.elims)
    from proper_get [OF v this] have "\<forall>t \<in> set tools. proper t" by (simp add: list_all_iff)
    then show ?thesis using collect_Inr [OF all] proper_namespace_member [OF _ proper_str_field [OF v]] by (force simp: image_iff)
  next
    case False
    then show ?thesis using ds v proper_from_responses
      by (auto simp: from_responses_entry_def rbind_def split: sum.splits)
  qed
qed

definition proper_tools :: "'n OfferedTools \<Rightarrow> bool" where
  "proper_tools ot \<longleftrightarrow> (\<forall>d \<in> set (ot_definitions ot). proper_tool d)"

lemma proper_tools_simps [simp]:
  "proper_tools no_tools" "proper_tools (drop_kind k ot) = proper_tools ot"
  "proper_tools (add_definitions ds ot) \<longleftrightarrow> proper_tools ot \<and> (\<forall>d \<in> set ds. proper_tool d)"
  by (auto simp: proper_tools_def no_tools_def drop_kind_def add_definitions_def Let_def)

lemma offered_openai_proper:
  "offered_openai ot vs = Inr ot' \<Longrightarrow> proper_tools ot \<Longrightarrow> \<forall>v \<in> set vs. proper v \<Longrightarrow> proper_tools ot'"
  by (induction ot vs rule: offered_openai.induct)
    (auto simp: Let_def rbind_def split: if_splits sum.splits dest: proper_from_openai)

lemma offered_anthropic_proper:
  "offered_anthropic ot vs = Inr ot' \<Longrightarrow> proper_tools ot \<Longrightarrow> \<forall>v \<in> set vs. proper v \<Longrightarrow> proper_tools ot'"
  by (induction ot vs rule: offered_anthropic.induct)
    (auto simp: Let_def rbind_def split: if_splits sum.splits dest: proper_from_anthropic)

lemma offered_responses_proper:
  "offered_responses ot vs = Inr ot' \<Longrightarrow> proper_tools ot \<Longrightarrow> \<forall>v \<in> set vs. proper v \<Longrightarrow> proper_tools ot'"
  by (induction ot vs rule: offered_responses.induct)
    (auto simp: Let_def rbind_def split: if_splits sum.splits dest: proper_entry)

lemma param_specs_names:
  "param_specs to_json schema required kvs = Some ps \<Longrightarrow>
    map pa_name ps = map utf8 (filter renderable (map fst kvs))"
  by (induction kvs arbitrary: ps) (auto simp: renderable_def bind_eq_Some_conv split: if_splits)

lemma named_spec_built:
  assumes d: "proper_tool d" and w: "from_wrapper to_json (td_wrapper d) = Some (Some spec)"
  shows "named_spec spec"
proof -
  obtain name description params where b: "tool_build name description params = Inr d" and name: "valid name"
    and params: "proper_opt params" using d by (auto simp: proper_tool_def)
  have nm: "renderable name" and w': "td_wrapper d = JObject [(lit ''type'', JString (lit ''function'')),
      (lit ''function'', JObject [(lit ''name'', JString name),
        (lit ''description'', case description of Some d \<Rightarrow> d | None \<Rightarrow> JString []),
        (lit ''parameters'', case params of Some p \<Rightarrow> p | None \<Rightarrow> JObject [])])]"
    using b by (auto simp: tool_build_def Let_def renderable_def split: if_splits)
  define fn where "fn = JObject [(lit ''name'', JString name),
        (lit ''description'', case description of Some d \<Rightarrow> d | None \<Rightarrow> JString []),
        (lit ''parameters'', case params of Some p \<Rightarrow> p | None \<Rightarrow> JObject [])]"
  have fn: "function_of (td_wrapper d) = fn" by (simp add: function_of_def w' fn_def)
  have get: "json_get fn (lit ''name'') = Some (JString name)"
      "json_get fn (lit ''parameters'') = Some (case params of Some p \<Rightarrow> p | None \<Rightarrow> JObject [])"
    by (simp_all add: fn_def)
  obtain ps where ps: "parameters_of to_json fn = Some ps" and spec: "spec = \<lparr>to_name = utf8 name, to_params = ps\<rparr>"
    using w nm by (auto simp: from_wrapper_def fn get renderable_def bind_eq_Some_conv simp del: lit_Cons)
  obtain keys where keys: "map pa_name ps = map utf8 keys" "distinct keys" "\<forall>k \<in> set keys. valid k \<and> renderable k"
  proof -
    define schema where "schema = (case params of Some p \<Rightarrow> p | None \<Rightarrow> JObject [])"
    have schema: "proper schema" using params by (auto simp: schema_def proper_opt_def split: option.splits)
    show ?thesis
    proof (cases "Option.bind (json_get schema (lit ''properties'')) as_object")
      case None
      then have "ps = []" using ps by (simp add: parameters_of_def or_else_def get schema_def [symmetric] del: lit_Cons)
      then show ?thesis using that [of "[]"] by simp
    next
      case (Some kvs)
      then have "json_get schema (lit ''properties'') = Some (JObject kvs)"
        by (auto simp: bind_eq_Some_conv elim: as_object.elims)
      from proper_get [OF schema this] have kvs: "distinct (map fst kvs)" "\<forall>k \<in> set (map fst kvs). valid k"
        by (simp_all add: list_all_iff)
      obtain required where "param_specs to_json schema required kvs = Some ps"
        using ps Some by (simp add: parameters_of_def or_else_def get schema_def [symmetric] del: lit_Cons)
      from param_specs_names [OF this] show ?thesis using kvs by (intro that [of "filter renderable (map fst kvs)"]) auto
    qed
  qed
  have "distinct (map pa_name ps)" unfolding keys(1) distinct_map
    using keys(2,3) utf8_inj by (auto simp: inj_on_def)
  moreover have "\<forall>p \<in> set ps. \<exists>k. pa_name p = utf8 k \<and> valid k \<and> renderable k"
  proof
    fix p assume "p \<in> set ps"
    then have "pa_name p \<in> set (map utf8 keys)" unfolding keys(1) [symmetric] by simp
    then show "\<exists>k. pa_name p = utf8 k \<and> valid k \<and> renderable k" using keys(3) by auto
  qed
  ultimately show ?thesis using name nm by (auto simp: named_spec_def spec)
qed

lemma specs_named:
  "specs_of to_json ds = Some specs \<Longrightarrow> \<forall>d \<in> set ds. proper_tool d \<Longrightarrow> \<forall>spec \<in> set specs. named_spec spec"
  by (induction ds arbitrary: specs) (auto simp: bind_eq_Some_conv split: option.splits intro: named_spec_built)


section \<open>Main theorem\<close>

text \<open>The tools of a request as the parser is given them.\<close>

definition parser_tools :: "'n OfferedTools \<Rightarrow> (rstr \<times> Schema) list" where
  "parser_tools ot = map (\<lambda>d. (td_name d, td_string_params d)) (ot_definitions ot)"



text \<open>A request offering the tool of \<open>MachineCalls\<close>.\<close>

definition flag_request_json :: "nat Value list" where
  "flag_request_json = [JObject [(lit ''type'', JString (lit ''function'')), (lit ''function'', JObject
     [(lit ''name'', JString (lit ''f'')), (lit ''parameters'', JObject
       [(lit ''properties'', JObject [(lit ''p'', JObject [(lit ''type'', JString (lit ''boolean''))])]),
        (lit ''required'', JArray [JString (lit ''p'')])])])]]"

definition flag_tools :: "nat OfferedTools" where
  "flag_tools = (case offered_openai no_tools flag_request_json of Inr ot \<Rightarrow> ot | Inl _ \<Rightarrow> no_tools)"

lemma flag_offered_json: "offered_openai no_tools flag_request_json = Inr flag_tools" "list_all proper flag_request_json"
  by code_simp (simp add: flag_request_json_def)

lemma flag_specs: "specs_of (\<lambda>_. None) (ot_definitions flag_tools) = Some [flag_tool]"
  by code_simp

lemma flag_grammar: "compile [flag_tool] True = Some m \<Longrightarrow> tool_grammar (\<lambda>_. None) (ot_definitions flag_tools) v = Some (Some (m, v))"
  by (simp add: tool_grammar_def ToolGrammar_new_def flag_specs)


section \<open>Where grammar and parser part\<close>

text \<open>A string value may hold the parameter's closing tag as long as no line is only that tag: the grammar ends the
  value at a line of its own, the parser at the first tag.\<close>

definition note_tool :: ToolSpec where
  "note_tool = \<lparr>to_name = ''f'', to_params = [\<lparr>pa_name = ''p'', pa_required = True, pa_value = Text\<rparr>]\<rparr>"

definition tagged_value :: bytes where
  "tagged_value = ''a</parameter>b''"

definition tagged_call :: bytes where
  "tagged_call = open_text ''f'' @ ''<parameter=p>'' @ [nl] @ tagged_value @ CLOSE @ fin_text @ call_close"

lemma tagged_value_text: "tagged_value @ CLOSE \<in> text_value"
proof -
  have "list_all (\<lambda>n. \<not> suffix CLOSE (take n (tagged_value @ CLOSE))) [0..<length (tagged_value @ CLOSE)]" by code_simp
  then have "\<not> suffix CLOSE y" if pre: "strict_prefix y (tagged_value @ CLOSE)" for y
  proof -
    obtain z zs where "tagged_value @ CLOSE = y @ z # zs" using pre by (rule strict_prefixE')
    then have "length y < length (tagged_value @ CLOSE)" "y = take (length y) (tagged_value @ CLOSE)" by simp_all
    then show ?thesis using \<open>list_all _ _\<close> by (metis (no_types, lifting) atLeastLessThan_iff le0 list_all_iff set_upt)
  qed
  then show ?thesis by (auto simp: text_value_def suffix_def)
qed

definition tagged_body :: rstr where
  "tagged_body = [newline] @ lit ''<parameter=p>'' @ [newline] @ lit ''a</parameter>b'' @ [newline]
    @ lit ''</parameter>'' @ [newline] @ lit ''</function>'' @ [newline]"

lemma tagged_call_text: "lit tagged_call = (lit ''<function=f>'' @ tagged_body) @ CALL_CLOSE"
  by code_simp

lemma tagged_body_is_no_call: "parse_call from_json schemas (lit ''<function=f>'' @ tagged_body) = None"
proof -
  let ?rest = "lit ''b'' @ [newline] @ lit ''</parameter>'' @ [newline] @ lit ''</function>''"
  let ?args = "newline # lit ''<parameter=p>'' @ [newline] @ lit ''a</parameter>'' @ ?rest"
  have "lit ''<function=f>'' @ tagged_body
      = lt # (lit ''function=f>'' @ newline # lit ''<parameter=p>'' @ [newline] @ lit ''a</parameter>b'' @ [newline]
        @ lit ''</parameter>'' @ [newline] @ lit ''</function'') @ [gt, newline]" by (simp add: tagged_body_def)
  then have trimmed: "trim (lit ''<function=f>'' @ tagged_body) = lit ''<function='' @ lit ''f'' @ gt # ?args"
    by (simp only: trim_between) simp
  have name: "renderable (lit ''f'')" "renderable (lit ''p'')" by (simp_all add: renderable_def)
  have val: "param_value (newline # lit ''a'' @ lit ''</parameter>'' @ ?rest) = Some (lit ''a'', ?rest)"
  proof -
    have "free (lit ''</parameter>'') (lit ''a'')" by (rule free_missing [of _ lt]) simp_all
    then have "find_str (lit ''</parameter>'') (lit ''a'' @ lit ''</parameter>'' @ ?rest) = Some (length (lit ''a''))"
      by (intro find_seam) simp_all
    then show ?thesis by (simp add: param_value_def strip_prefix_def starts_with_def strip_suffix_def ends_with_def)
  qed
  have "trim_start ?rest = ?rest" by (simp add: trim_start_def is_white_def)
  then have last: "parse_arguments from_json params ?rest acc = None" for params and acc :: "(rstr \<times> 'a Value) list"
    by (subst parse_arguments.simps) (simp add: strip_prefix_def starts_with_def)
  have "trim_start ?args = lit ''<parameter='' @ lit ''p'' @ gt # newline # lit ''a'' @ lit ''</parameter>'' @ ?rest"
    by (simp add: trim_start_newline trim_start_lt)
  moreover have "strip_prefix (lit ''</function>'') (lit ''<parameter='' @ s) = None" for s
    by (simp add: strip_prefix_def starts_with_def)
  ultimately have "parse_arguments from_json params ?args [] = None" for params
    by (subst parse_arguments.simps) (simp add: tag_name_at [OF name(2)] val [unfolded append_Cons append_Nil] last [unfolded append_Cons append_Nil] del: lit_Cons)
  then show ?thesis by (simp add: parse_call_def trimmed tag_name_at [OF name(1)] del: lit_Cons)
qed


end
