(* ===== verification/Generate.thy ===== *)
theory Generate
  imports ToolParser
begin

text \<open>
  One in-flight response (\<open>xabe-server/src/http/generate.rs\<close>): incremental detokenization, stop sequences, the
  split between reasoning and answer, and the tool-call parser behind it. The tokenizer's \<open>decode\<close> and the
  JSON reader are parameters. The client channel is the list of the events still to come; its end is the
  closed channel. \<open>None\<close> of \<open>next_chunk\<close> and \<open>collect_response\<close> is a loop that does not return. Positions
  count code points where the source counts bytes of the same text.
\<close>

section \<open>Events and chunks\<close>

datatype EngineFinish = Eos | Length

datatype ClientEvent = EvToken int | EvDone EngineFinish | EvError rstr

datatype Finish = EndOfTurn | LengthReached | StopSequence rstr

datatype 'n Chunk = CReasoning rstr | CText rstr | CToolCall "'n ParsedToolCall"

text \<open>The failures a response can end in, and those that keep it from starting.\<close>

datatype GenerationError =
    SchedulerFailed rstr
  | SchedulerClosed
  | NoOutputTokens
  | EmptyPrompt
  | PromptTooLong
  | EngineUnavailable

section \<open>Detokenizer\<close>

record Detokenizer =
  dt_tokens :: "nat list"
  dt_prefix :: usize
  dt_read :: usize

definition detok_new :: Detokenizer where
  "detok_new = \<lparr>dt_tokens = [], dt_prefix = 0, dt_read = 0\<rparr>"

definition detok_decode :: "(nat list \<Rightarrow> rstr option) \<Rightarrow> Detokenizer \<Rightarrow> usize \<Rightarrow> usize \<Rightarrow> rstr" where
  "detok_decode decode d start till =
    (case decode (drop start (take till (dt_tokens d))) of Some s \<Rightarrow> s | None \<Rightarrow> [])"

definition replacement :: nat where
  "replacement = 0xFFFD"

definition detok_push :: "(nat list \<Rightarrow> rstr option) \<Rightarrow> nat \<Rightarrow> Detokenizer \<Rightarrow> rstr \<times> Detokenizer" where
  "detok_push decode token d =
    (let d = d\<lparr>dt_tokens := dt_tokens d @ [token]\<rparr>;
         prefix = detok_decode decode d (dt_prefix d) (dt_read d);
         whole = detok_decode decode d (dt_prefix d) (length (dt_tokens d))
     in if byte_len whole \<le> byte_len prefix \<or> ends_with [replacement] whole then ([], d)
        else (case strip_prefix prefix whole of Some delta \<Rightarrow> delta | None \<Rightarrow> whole,
              d\<lparr>dt_prefix := dt_read d, dt_read := length (dt_tokens d)\<rparr>))"

section \<open>Stop sequences\<close>

definition stop_held_back :: "rstr \<Rightarrow> rstr list \<Rightarrow> usize" where
  "stop_held_back s stop =
    fold (\<lambda>sequence held. fold (\<lambda>n held.
        if n \<le> length s \<and> drop (length s - n) s = take n sequence then max held n else held)
      [1..<length sequence] held) stop 0"

definition earliest_stop :: "rstr \<Rightarrow> rstr list \<Rightarrow> (usize \<times> rstr) option" where
  "earliest_stop s stop =
    min_by_fst (List.map_filter (\<lambda>sequence. map_option (\<lambda>i. (i, sequence)) (find_str sequence s)) stop)"

section \<open>State\<close>

text \<open>The guard that cancels the request unless generation ended; \<open>rg_cancelled\<close> are the engine calls it made.\<close>

record RequestGuard =
  rg_id :: nat
  rg_armed :: bool
  rg_cancelled :: "nat list"

definition guard_new :: "nat \<Rightarrow> RequestGuard" where
  "guard_new i = \<lparr>rg_id = i, rg_armed = True, rg_cancelled = []\<rparr>"

definition guard_disarm :: "RequestGuard \<Rightarrow> RequestGuard" where
  "guard_disarm rg = rg\<lparr>rg_armed := False\<rparr>"

definition cancel_now :: "RequestGuard \<Rightarrow> RequestGuard" where
  "cancel_now rg = (if rg_armed rg then rg\<lparr>rg_cancelled := rg_cancelled rg @ [rg_id rg], rg_armed := False\<rparr> else rg)"

definition guard_drop :: "RequestGuard \<Rightarrow> RequestGuard" where
  "guard_drop rg = (if rg_armed rg then rg\<lparr>rg_cancelled := rg_cancelled rg @ [rg_id rg]\<rparr> else rg)"

record 'n Generation =
  gn_guard :: RequestGuard
  gn_detokenizer :: Detokenizer
  gn_stop :: "rstr list"
  gn_pending :: rstr
  gn_think_close :: "int option"
  gn_reasoning_open :: bool
  gn_trim_spans :: bool
  gn_trim_span_start :: bool
  gn_prompt_tokens :: usize
  gn_completion_tokens :: usize
  gn_finish :: "Finish option"
  gn_drained :: bool
  gn_tool_parser :: "ToolCallParser option"
  gn_queued :: "'n Chunk list"
  gn_tool_calls :: usize

record 'n Collected =
  co_reasoning :: rstr
  co_text :: rstr
  co_tool_calls :: "'n ParsedToolCall list"

text \<open>What generation is given: the request after templating and tokenizing.\<close>

record GenerationSpec =
  gs_prompt :: "nat list"
  gs_max_tokens :: u32
  gs_stop :: "rstr list"
  gs_thinking :: bool
  gs_trim_spans :: bool
  gs_tool_parser :: "ToolCallParser option"

text \<open>The server's shared state as far as admission touches it: the next identifier, the registered clients, and
  how many handlers are queueing for the engine.\<close>

record AppState =
  ap_next_id :: nat
  ap_clients :: "nat set"
  ap_submit_waiters :: nat
  ap_think_close :: "int option"

text \<open>\<open>place\<close> is the engine's \<open>place_tokens\<close> for this request, as far as it succeeds.\<close>

definition generation_start ::
  "(nat \<Rightarrow> nat list \<Rightarrow> u32 \<Rightarrow> bool) \<Rightarrow> GenerationSpec \<Rightarrow> AppState \<Rightarrow> (GenerationError + 'n Generation) \<times> AppState" where
  "generation_start place spec ap =
    (if gs_max_tokens spec = 0 then (Inl NoOutputTokens, ap)
     else if gs_prompt spec = [] then (Inl EmptyPrompt, ap)
     else if 2 ^ 32 \<le> length (gs_prompt spec) then (Inl PromptTooLong, ap)
     else
       (let i = ap_next_id ap;
            ap = ap\<lparr>ap_next_id := (i + 1) mod 2 ^ 64, ap_clients := insert i (ap_clients ap),
                    ap_submit_waiters := ap_submit_waiters ap + 1\<rparr>;
            placed = place i (gs_prompt spec) (gs_max_tokens spec);
            ap = ap\<lparr>ap_submit_waiters := ap_submit_waiters ap - 1\<rparr>
        in if placed
           then (Inr \<lparr>gn_guard = guard_new i, gn_detokenizer = detok_new, gn_stop = gs_stop spec, gn_pending = [],
                   gn_think_close = ap_think_close ap,
                   gn_reasoning_open = (gs_thinking spec \<and> ap_think_close ap \<noteq> None),
                   gn_trim_spans = gs_trim_spans spec, gn_trim_span_start = gs_trim_spans spec,
                   gn_prompt_tokens = length (gs_prompt spec), gn_completion_tokens = 0, gn_finish = None,
                   gn_drained = False, gn_tool_parser = gs_tool_parser spec, gn_queued = [], gn_tool_calls = 0\<rparr>, ap)
           else (Inl EngineUnavailable, ap\<lparr>ap_clients := ap_clients ap - {i}\<rparr>)))"

definition generation_finish :: "'n Generation \<Rightarrow> Finish" where
  "generation_finish g = (case gn_finish g of Some f \<Rightarrow> f | None \<Rightarrow> LengthReached)"

section \<open>Text to chunks\<close>

definition chunk :: "rstr \<Rightarrow> 'n Generation \<Rightarrow> 'n Chunk option \<times> 'n Generation" where
  "chunk s g =
    (let s = (if gn_trim_span_start g then trim_start s else s)
     in if s = [] then (None, g)
        else (Some (if gn_reasoning_open g then CReasoning s else CText s), g\<lparr>gn_trim_span_start := False\<rparr>))"

definition think_end :: rstr where
  "think_end = lit ''</think>''"

definition close_reasoning :: "bool \<Rightarrow> 'n Generation \<Rightarrow> 'n Generation" where
  "close_reasoning trims g = g\<lparr>gn_reasoning_open := False, gn_trim_span_start := trims\<rparr>"

text \<open>After a token's text went into \<open>pending\<close>: go on with the next event, or return.\<close>

datatype 'n flow = Continue | Return "'n Chunk option"

definition flow_of :: "'n Chunk option \<Rightarrow> 'n flow" where
  "flow_of c = (case c of None \<Rightarrow> Continue | Some c \<Rightarrow> Return (Some c))"

definition held_len :: "'n Generation \<Rightarrow> usize" where
  "held_len g =
    (if gn_reasoning_open g
     then max (stop_held_back (gn_pending g) (gn_stop g)) (stop_held_back (gn_pending g) [think_end, CALL_OPEN])
     else stop_held_back (gn_pending g) (gn_stop g))"

definition emit_ready :: "'n Generation \<Rightarrow> 'n flow \<times> 'n Generation" where
  "emit_ready g =
    (let emit = length (gn_pending g) - held_len g
     in if 0 < emit
        then (let (c, g) = chunk (take emit (gn_pending g)) (g\<lparr>gn_pending := drop emit (gn_pending g)\<rparr>) in (flow_of c, g))
        else (Continue, g))"

definition check_stop :: "'n Generation \<Rightarrow> 'n flow \<times> 'n Generation" where
  "check_stop g =
    (case earliest_stop (gn_pending g) (gn_stop g) of
       Some (i, sequence) \<Rightarrow>
         (let s = take i (gn_pending g);
              g = g\<lparr>gn_pending := [], gn_guard := cancel_now (gn_guard g), gn_drained := True,
                    gn_finish := Some (StopSequence sequence)\<rparr>;
              (c, g) = chunk s g
          in (Return c, g))
     | None \<Rightarrow> emit_ready g)"

definition route_pending :: "'n Generation \<Rightarrow> 'n flow \<times> 'n Generation" where
  "route_pending g =
    (if gn_reasoning_open g
     then (case find_str think_end (gn_pending g) of
         Some pos \<Rightarrow>
           (let before = take pos (gn_pending g);
                rest = drop (pos + length think_end) (gn_pending g);
                after = (case strip_prefix [newline] rest of Some r \<Rightarrow> r | None \<Rightarrow> rest);
                (c, g) = chunk before (g\<lparr>gn_pending := after\<rparr>)
            in (flow_of c, close_reasoning (gn_trim_spans g) g))
       | None \<Rightarrow>
           (case find_str CALL_OPEN (gn_pending g) of
              Some pos \<Rightarrow>
                (let (c, g) = chunk (take pos (gn_pending g)) (g\<lparr>gn_pending := drop pos (gn_pending g)\<rparr>)
                 in (flow_of c, close_reasoning False g))
            | None \<Rightarrow> check_stop g))
     else check_stop g)"

section \<open>The event loop\<close>

definition finish_of :: "EngineFinish \<Rightarrow> Finish" where
  "finish_of reason = (case reason of Eos \<Rightarrow> EndOfTurn | Length \<Rightarrow> LengthReached)"

definition token_u32 :: "int \<Rightarrow> nat" where
  "token_u32 token = nat (token mod 2 ^ 32)"

fun raw_loop ::
  "(nat list \<Rightarrow> rstr option) \<Rightarrow> ClientEvent list \<Rightarrow> 'n Generation
    \<Rightarrow> (GenerationError + 'n Chunk option) \<times> 'n Generation \<times> ClientEvent list" where
  "raw_loop decode [] g = (Inl SchedulerClosed, g\<lparr>gn_drained := True\<rparr>, [])"
| "raw_loop decode (EvDone reason # es) g =
    (let g = g\<lparr>gn_guard := guard_disarm (gn_guard g), gn_drained := True, gn_finish := Some (finish_of reason)\<rparr>;
         (c, g) = chunk (gn_pending g) (g\<lparr>gn_pending := []\<rparr>)
     in (Inr c, g, es))"
| "raw_loop decode (EvError message # es) g = (Inl (SchedulerFailed message), g\<lparr>gn_drained := True\<rparr>, es)"
| "raw_loop decode (EvToken token # es) g =
    (let g = g\<lparr>gn_completion_tokens := gn_completion_tokens g + 1\<rparr>
     in if gn_reasoning_open g \<and> Some token = gn_think_close g
        then (let (c, g) = chunk (gn_pending g) (g\<lparr>gn_pending := []\<rparr>);
                  g = close_reasoning (gn_trim_spans g) g
              in (case c of Some c \<Rightarrow> (Inr (Some c), g, es) | None \<Rightarrow> raw_loop decode es g))
        else
          (let (delta, d) = detok_push decode (token_u32 token) (gn_detokenizer g);
               g = g\<lparr>gn_detokenizer := d\<rparr>
           in if delta = [] then raw_loop decode es g
              else (case route_pending (g\<lparr>gn_pending := gn_pending g @ delta\<rparr>) of
                  (Return c, g) \<Rightarrow> (Inr c, g, es)
                | (Continue, g) \<Rightarrow> raw_loop decode es g)))"

definition raw_next ::
  "(nat list \<Rightarrow> rstr option) \<Rightarrow> ClientEvent list \<Rightarrow> 'n Generation
    \<Rightarrow> (GenerationError + 'n Chunk option) \<times> 'n Generation \<times> ClientEvent list" where
  "raw_next decode es g = (if gn_drained g then (Inr None, g, es) else raw_loop decode es g)"

definition enqueue :: "'n ToolEvent list \<Rightarrow> 'n Generation \<Rightarrow> 'n Generation" where
  "enqueue events g =
    fold (\<lambda>event g. case event of
        TText s \<Rightarrow> g\<lparr>gn_queued := gn_queued g @ [CText s]\<rparr>
      | TCall c \<Rightarrow> g\<lparr>gn_tool_calls := gn_tool_calls g + 1, gn_queued := gn_queued g @ [CToolCall c]\<rparr>) events g"

definition flush_parser :: "'n Generation \<Rightarrow> 'n Generation" where
  "flush_parser g =
    (case gn_tool_parser g of
       Some p \<Rightarrow> enqueue (snd (finish (p, []))) (g\<lparr>gn_tool_parser := None\<rparr>)
     | None \<Rightarrow> g)"

partial_function (option) next_chunk ::
  "(rstr \<Rightarrow> 'n Value option) \<Rightarrow> (nat list \<Rightarrow> rstr option) \<Rightarrow> ClientEvent list \<Rightarrow> 'n Generation
    \<Rightarrow> ((GenerationError + 'n Chunk option) \<times> 'n Generation \<times> ClientEvent list) option" where
  [code]: "next_chunk from_json decode es g =
    (case gn_queued g of
       c # queued \<Rightarrow> Some (Inr (Some c), g\<lparr>gn_queued := queued\<rparr>, es)
     | [] \<Rightarrow>
         (case raw_next decode es g of
            (Inl e, g, es) \<Rightarrow> Some (Inl e, g, es)
          | (Inr (Some c), g, es) \<Rightarrow>
              (case (c, gn_tool_parser g) of
                 (CText s, Some p) \<Rightarrow> do {
                   (p, events) \<leftarrow> push from_json s (p, []);
                   next_chunk from_json decode es (enqueue events (g\<lparr>gn_tool_parser := Some p\<rparr>))
                 }
               | _ \<Rightarrow> Some (Inr (Some c), g, es))
          | (Inr None, g, es) \<Rightarrow>
              (let g = flush_parser g
               in if gn_queued g = [] then Some (Inr None, g, es) else next_chunk from_json decode es g)))"

definition add_chunk :: "'n Chunk \<Rightarrow> 'n Collected \<Rightarrow> 'n Collected" where
  "add_chunk c co =
    (case c of
       CReasoning s \<Rightarrow> co\<lparr>co_reasoning := co_reasoning co @ s\<rparr>
     | CText s \<Rightarrow> co\<lparr>co_text := co_text co @ s\<rparr>
     | CToolCall call \<Rightarrow> co\<lparr>co_tool_calls := co_tool_calls co @ [call]\<rparr>)"

partial_function (option) collect_loop ::
  "(rstr \<Rightarrow> 'n Value option) \<Rightarrow> (nat list \<Rightarrow> rstr option) \<Rightarrow> ClientEvent list \<Rightarrow> 'n Generation \<Rightarrow> 'n Collected
    \<Rightarrow> ((GenerationError + 'n Collected) \<times> 'n Generation) option" where
  [code]: "collect_loop from_json decode es g co = do {
     (r, g, es) \<leftarrow> next_chunk from_json decode es g;
     case r of
       Inl e \<Rightarrow> Some (Inl e, g)
     | Inr None \<Rightarrow> Some (Inr co, g)
     | Inr (Some c) \<Rightarrow> collect_loop from_json decode es g (add_chunk c co)
   }"

definition nothing_collected :: "'n Collected" where
  "nothing_collected = \<lparr>co_reasoning = [], co_text = [], co_tool_calls = []\<rparr>"

definition collect_response ::
  "(rstr \<Rightarrow> 'n Value option) \<Rightarrow> (nat list \<Rightarrow> rstr option) \<Rightarrow> ClientEvent list \<Rightarrow> 'n Generation
    \<Rightarrow> ((GenerationError + 'n Collected) \<times> 'n Generation) option" where
  "collect_response from_json decode es g = collect_loop from_json decode es g nothing_collected"

end
