(* ===== verification/GenerateText.thy ===== *)
theory GenerateText
  imports Generate ParserChunks
begin

text \<open>
  What a response is made of: the detokenizer's pieces are the decoded text, no stop sequence gets out however
  tokens split it, the reasoning span ends where its token says, and the answer's chunks, put together, are
  the reading of the whole answer.
\<close>

section \<open>The detokenizer\<close>

text \<open>A byte-level decoder: what has been decoded up to the end of a character does not depend on what follows.\<close>

definition streams :: "(nat list \<Rightarrow> rstr option) \<Rightarrow> (nat list \<Rightarrow> rstr) \<Rightarrow> bool" where
  "streams decode txt \<longleftrightarrow> (\<forall>ts. decode ts = Some (txt ts)) \<and> txt [] = []
     \<and> (\<forall>a b. \<not> ends_with [replacement] (txt a) \<longrightarrow> txt (a @ b) = txt a @ txt b)"

abbreviation whole_char :: "rstr \<Rightarrow> bool" where
  "whole_char s \<equiv> \<not> ends_with [replacement] s"

lemma ends_with_char: "ends_with [c] s \<longleftrightarrow> s \<noteq> [] \<and> last s = c"
  by (cases s rule: rev_cases) (auto simp: ends_with_def)

lemma whole_char_append: "whole_char (a @ b) \<longleftrightarrow> (if b = [] then whole_char a else whole_char b)"
  by (simp add: ends_with_char)

lemma byte_len_pos: "0 < byte_len s \<longleftrightarrow> s \<noteq> []"
  by (cases s) (auto simp: byte_len_def utf8_char_def)

definition detok_ok :: "(nat list \<Rightarrow> rstr) \<Rightarrow> Detokenizer \<Rightarrow> bool" where
  "detok_ok txt d \<longleftrightarrow> dt_prefix d \<le> dt_read d \<and> dt_read d \<le> length (dt_tokens d)
     \<and> whole_char (txt (take (dt_prefix d) (dt_tokens d))) \<and> whole_char (txt (take (dt_read d) (dt_tokens d)))"

text \<open>The text the detokenizer has given out.\<close>

definition given :: "(nat list \<Rightarrow> rstr) \<Rightarrow> Detokenizer \<Rightarrow> rstr" where
  "given txt d = txt (take (dt_read d) (dt_tokens d))"

definition all_given :: "(nat list \<Rightarrow> rstr) \<Rightarrow> Detokenizer \<Rightarrow> bool" where
  "all_given txt d \<longleftrightarrow> (whole_char (txt (dt_tokens d)) \<longrightarrow> given txt d = txt (dt_tokens d))"

lemma detok_new_ok: "streams decode txt \<Longrightarrow> detok_ok txt detok_new \<and> given txt detok_new = [] \<and> all_given txt detok_new"
  by (simp add: detok_ok_def detok_new_def given_def all_given_def streams_def ends_with_char)

lemma detok_push_ok:
  assumes st: "streams decode txt" and ok: "detok_ok txt d" and push: "detok_push decode t d = (delta, d')"
  shows "detok_ok txt d' \<and> dt_tokens d' = dt_tokens d @ [t] \<and> given txt d' = given txt d @ delta \<and> all_given txt d'"
proof -
  define ts p r where "ts = dt_tokens d @ [t]" and "p = dt_prefix d" and "r = dt_read d"
  have pr: "p \<le> r" "r \<le> length (dt_tokens d)" and wp: "whole_char (txt (take p ts))" and wr: "whole_char (txt (take r ts))"
    using ok by (auto simp: detok_ok_def ts_def p_def r_def)
  have dec: "\<And>ts. decode ts = Some (txt ts)" and join: "\<And>a b. whole_char (txt a) \<Longrightarrow> txt (a @ b) = txt a @ txt b"
    using st by (auto simp: streams_def)
  have "take r ts = take p ts @ drop p (take r ts)" using pr(1) by (metis append_take_drop_id min.absorb1 take_take)
  then have upto_r: "txt (take r ts) = txt (take p ts) @ txt (drop p (take r ts))" using join [OF wp] by metis
  then have window: "whole_char (txt (drop p (take r ts)))" 
    using wr unfolding upto_r whole_char_append by (auto simp: ends_with_char split: if_splits)
  have len: "r \<le> length ts" using pr(2) by (simp add: ts_def)
  have "drop p (take r ts @ drop r ts) = drop p (take r ts) @ drop r ts"
    unfolding drop_append using len pr(1) by simp
  then have "drop p ts = drop p (take r ts) @ drop r ts" by simp
  then have whole: "txt (drop p ts) = txt (drop p (take r ts)) @ txt (drop r ts)" using join [OF window] by metis
  have all: "txt ts = txt (take r ts) @ txt (drop r ts)" using join [OF wr, of "drop r ts"] by simp
  have all_p: "txt ts = txt (take p ts) @ txt (drop p ts)" using join [OF wp, of "drop p ts"] by simp
  have prefix: "detok_decode decode (d\<lparr>dt_tokens := ts\<rparr>) p r = txt (drop p (take r ts))"
    and entire: "detok_decode decode (d\<lparr>dt_tokens := ts\<rparr>) p (length ts) = txt (drop p ts)"
    by (simp_all add: detok_decode_def dec)
  have "take r ts = take r (dt_tokens d)" using pr by (simp add: ts_def)
  show ?thesis
  proof (cases "txt (drop r ts) = []")
    case True
    then have "byte_len (txt (drop p ts)) \<le> byte_len (txt (drop p (take r ts)))" by (simp add: whole)
    then have "delta = []" "d' = d\<lparr>dt_tokens := ts\<rparr>"
      using push by (simp_all add: detok_push_def Let_def prefix [unfolded p_def r_def] entire [unfolded p_def r_def] ts_def [symmetric] p_def r_def)
    then show ?thesis using ok pr wp wr all True by (simp add: detok_ok_def given_def all_given_def ts_def p_def r_def)
  next
    case False
    then have "0 < byte_len (txt (drop r ts))" by (simp add: byte_len_pos)
    then have longer: "\<not> byte_len (txt (drop p ts)) \<le> byte_len (txt (drop p (take r ts)))" by (simp add: whole)
    show ?thesis
    proof (cases "whole_char (txt (drop p ts))")
      case False
      then have "delta = []" "d' = d\<lparr>dt_tokens := ts\<rparr>"
        using push by (simp_all add: detok_push_def Let_def prefix [unfolded p_def r_def] entire [unfolded p_def r_def] ts_def [symmetric] p_def r_def)
      moreover have "\<not> whole_char (txt ts)" using False whole_char_append [of "txt (take p ts)" "txt (drop p ts)"] all_p
        by (auto simp: ends_with_char)
      ultimately show ?thesis using ok pr by (simp add: detok_ok_def given_def all_given_def ts_def p_def r_def)
    next
      case True
      have "strip_prefix (txt (drop p (take r ts))) (txt (drop p ts)) = Some (txt (drop r ts))" by (simp add: whole)
      then have "delta = txt (drop r ts)" "d' = d\<lparr>dt_tokens := ts, dt_prefix := r, dt_read := length ts\<rparr>"
        using push longer True
        by (simp_all add: detok_push_def Let_def prefix [unfolded p_def r_def] entire [unfolded p_def r_def] ts_def [symmetric] p_def r_def)
      moreover have "whole_char (txt ts)"
        using True longer whole_char_append [of "txt (take p ts)" "txt (drop p ts)"] all_p byte_len_pos by (metis le_numeral_extra(3) not_gr_zero zero_le)
      ultimately show ?thesis using ok pr wr all by (simp add: detok_ok_def given_def all_given_def ts_def p_def r_def)
    qed
  qed
qed

fun detok_run :: "(nat list \<Rightarrow> rstr option) \<Rightarrow> int list \<Rightarrow> Detokenizer \<Rightarrow> rstr \<times> Detokenizer" where
  "detok_run decode [] d = ([], d)"
| "detok_run decode (t # ts) d =
    (let (delta, d) = detok_push decode (token_u32 t) d; (rest, d) = detok_run decode ts d in (delta @ rest, d))"

lemma detok_run_ok:
  assumes st: "streams decode txt"
  shows "detok_ok txt d \<Longrightarrow> all_given txt d \<Longrightarrow> detok_run decode ts d = (s, d') \<Longrightarrow>
    detok_ok txt d' \<and> dt_tokens d' = dt_tokens d @ map token_u32 ts \<and> given txt d' = given txt d @ s \<and> all_given txt d'"
proof (induction ts arbitrary: d s)
  case (Cons t ts)
  obtain delta d1 where one: "detok_push decode (token_u32 t) d = (delta, d1)" by fastforce
  obtain rest where two: "detok_run decode ts d1 = (rest, d')" "s = delta @ rest" using Cons.prems(3) one by (auto split: prod.splits)
  show ?case using detok_push_ok [OF st Cons.prems(1) one] Cons.IH [of d1 rest] two by simp
qed simp


section \<open>Stop sequences\<close>

definition no_stop :: "rstr list \<Rightarrow> rstr \<Rightarrow> bool" where
  "no_stop stop s \<longleftrightarrow> (\<forall>q \<in> set stop. \<forall>i. \<not> occ q s i)"

text \<open>Text that ended for a reason of the engine, or was cut where a stop sequence begins, before any other that
  was complete by then.\<close>

definition cut_at :: "rstr list \<Rightarrow> Finish \<Rightarrow> rstr \<Rightarrow> rstr \<Rightarrow> Finish \<Rightarrow> bool" where
  "cut_at stop reason s e f \<longleftrightarrow>
    (no_stop stop s \<and> e = s \<and> f = reason)
    \<or> (\<exists>q \<in> set stop. f = StopSequence q \<and> (\<exists>r. s = e @ q @ r)
        \<and> (\<forall>q' \<in> set stop. \<forall>j < length e. j + length q' \<le> length e + length q \<longrightarrow> \<not> occ q' s j))"

lemma stop_held_back_eq: "stop_held_back s stop = held_back_len s stop"
  by (simp add: stop_held_back_def held_back_len_def)

definition stops_ok :: "rstr list \<Rightarrow> bool" where
  "stops_ok stop \<longleftrightarrow> [] \<notin> set stop"

lemma earliest_stop_None:
  assumes "stops_ok stop"
  shows "earliest_stop s stop = None \<longleftrightarrow> no_stop stop s"
proof -
  have "earliest_stop s stop = None \<longleftrightarrow> set (List.map_filter (\<lambda>q. map_option (\<lambda>i. (i, q)) (find_str q s)) stop) = {}"
    by (simp add: earliest_stop_def min_by_fst_props(1))
  also have "\<dots> \<longleftrightarrow> (\<forall>q \<in> set stop. find_str q s = None)"
    by (simp add: set_finds) (metis not_None_eq)
  finally show ?thesis using assms find_str_None_occ by (metis no_stop_def stops_ok_def)
qed

lemma earliest_stop_Some:
  assumes ok: "stops_ok stop" and at: "earliest_stop s stop = Some (i, q)"
  shows "q \<in> set stop \<and> occ q s i \<and> (\<forall>q' \<in> set stop. \<forall>j < i. \<not> occ q' s j)"
proof -
  define found where "found = List.map_filter (\<lambda>q. map_option (\<lambda>i. (i, q)) (find_str q s)) stop"
  have ne: "q' \<noteq> []" if "q' \<in> set stop" for q' using that ok by (auto simp: stops_ok_def)
  have set_found: "set found = {(i, q). q \<in> set stop \<and> occ q s i \<and> (\<forall>j < i. \<not> occ q s j)}"
    unfolding found_def set_finds using find_str_Some_occ ne by auto
  have mem: "(i, q) \<in> set found" and least: "\<And>y. y \<in> set found \<Longrightarrow> i \<le> fst y"
    using min_by_fst_props(2) [of found "(i, q)"] at by (auto simp: earliest_stop_def found_def)
  have "\<not> occ q' s j" if q': "q' \<in> set stop" and j: "j < i" for q' j
  proof
    assume "occ q' s j"
    then obtain k where k: "occ q' s k" "k \<le> j" "\<forall>m < k. \<not> occ q' s m"
      using LeastI [of "occ q' s" j] Least_le [of "occ q' s" j] not_less_Least [of _ "occ q' s"] by blast
    then have "(k, q') \<in> set found" using q' by (simp add: set_found)
    from least [OF this] show False using k(2) j by simp
  qed
  then show ?thesis using mem by (simp add: set_found)
qed

text \<open>What has been let out (\<open>e\<close>) and what is held (\<open>p\<close>): no stop sequence is complete, and none can still begin in
  what is out.\<close>

definition let_out :: "rstr list \<Rightarrow> rstr \<Rightarrow> rstr \<Rightarrow> bool" where
  "let_out stop e p \<longleftrightarrow> (\<forall>q \<in> set stop. \<forall>j < length e. \<forall>t. \<not> occ q (e @ p @ t) j)"

lemma let_out_start: "let_out stop [] []"
  by (simp add: let_out_def)

lemma let_out_occ: "let_out stop e p \<Longrightarrow> q \<in> set stop \<Longrightarrow> occ q (e @ p @ t) j \<Longrightarrow>
    length e \<le> j \<and> occ q (p @ t) (j - length e)"
  by (cases "j < length e") (auto simp: let_out_def)

lemma let_out_no_stop: "let_out stop e p \<Longrightarrow> no_stop stop p \<Longrightarrow> no_stop stop (e @ p)"
  using let_out_occ [of stop e p _ _ "[]"] by (auto simp: no_stop_def)

lemma let_out_more: "let_out stop e p \<Longrightarrow> let_out stop e (p @ t)"
  by (auto simp: let_out_def)

lemma let_out_emit:
  assumes out: "let_out stop e p" and ok: "stops_ok stop" and none: "no_stop stop p"
    and k: "k \<le> length p - held_back_len p stop"
  shows "let_out stop (e @ take k p) (drop k p)"
  unfolding let_out_def
proof (intro ballI allI impI notI)
  fix q j t assume q: "q \<in> set stop" and j: "j < length (e @ take k p)" and at: "occ q ((e @ take k p) @ drop k p @ t) j"
  have "(e @ take k p) @ drop k p @ t = e @ p @ t" by (metis append.assoc append_take_drop_id)
  then have at': "occ q (e @ p @ t) j" using at by (simp only:)
  from let_out_occ [OF out q at'] have "length e \<le> j" "occ q (p @ t) (j - length e)" by auto
  moreover have "j - length e < length p - held_back_len p stop" using j k \<open>length e \<le> j\<close> by auto
  moreover have "q \<noteq> []" using q ok by (auto simp: stops_ok_def)
  ultimately show False using no_early_occurrence [OF q _ _ _, of p] none q by (auto simp: no_stop_def)
qed

lemma let_out_cut:
  assumes out: "let_out stop e p" and ok: "stops_ok stop" and at: "earliest_stop p stop = Some (i, q)"
  shows "cut_at stop reason (e @ p @ r) (e @ take i p) (StopSequence q)"
proof -
  have q: "q \<in> set stop" "occ q p i" and first: "\<And>q' j. q' \<in> set stop \<Longrightarrow> j < i \<Longrightarrow> \<not> occ q' p j"
    using earliest_stop_Some [OF ok at] by auto
  have qne: "q \<noteq> []" using q(1) ok by (auto simp: stops_ok_def)
  have fits: "i + length q \<le> length p" using occ_fits [OF q(2) qne] .
  obtain u where u: "drop i p = q @ u" using q(2) by (auto simp: starts_with_prefix)
  have "e @ p @ r = (e @ take i p) @ q @ (u @ r)" using u by (metis append.assoc append_take_drop_id)
  moreover have "\<not> occ q' (e @ p @ r) j" if q': "q' \<in> set stop" and j: "j < length (e @ take i p)"
    "j + length q' \<le> length (e @ take i p) + length q" for q' j
  proof
    assume "occ q' (e @ p @ r) j"
    from let_out_occ [OF out q' this] have ge: "length e \<le> j" and at: "occ q' (p @ r) (j - length e)" by auto
    have "j - length e + length q' \<le> length p" using j(2) ge fits by auto
    then have "occ q' p (j - length e)" using at occ_append by blast
    moreover have "j - length e < i" using j(1) ge fits by auto
    ultimately show False using first [OF q'] by blast
  qed
  ultimately show ?thesis using q(1) unfolding cut_at_def by blast
qed


section \<open>Runs of the raw stream\<close>

text \<open>The chunks \<open>raw_next\<close> returns until it has none left.\<close>

inductive yields :: "(nat list \<Rightarrow> rstr option) \<Rightarrow> ClientEvent list \<Rightarrow> 'n Generation \<Rightarrow> 'n Chunk list \<Rightarrow> 'n Generation \<Rightarrow> bool"
  for decode where
  stop: "raw_next decode es g = (Inr None, g', es') \<Longrightarrow> yields decode es g [] g'"
| more: "raw_next decode es g = (Inr (Some c), g1, es1) \<Longrightarrow> yields decode es1 g1 cs g' \<Longrightarrow> yields decode es g (c # cs) g'"

text \<open>The parser and its queue do not touch the stream below them.\<close>

definition dress :: "ToolCallParser option \<Rightarrow> 'n Chunk list \<Rightarrow> usize \<Rightarrow> 'n Generation \<Rightarrow> 'n Generation" where
  "dress a b n g = g\<lparr>gn_tool_parser := a, gn_queued := b, gn_tool_calls := n\<rparr>"

lemma chunk_dress: "chunk s (dress a b n g) = map_prod id (dress a b n) (chunk s g)"
  by (simp add: chunk_def Let_def dress_def)

lemma held_dress: "held_len (dress a b n g) = held_len g"
  by (simp add: held_len_def dress_def)

lemma emit_dress: "emit_ready (dress a b n g) = map_prod id (dress a b n) (emit_ready g)"
  unfolding emit_ready_def held_dress by (simp add: chunk_def Let_def dress_def)

lemma check_dress: "check_stop (dress a b n g) = map_prod id (dress a b n) (check_stop g)"
  unfolding check_stop_def emit_dress by (simp add: chunk_def Let_def dress_def split: prod.split option.split)

lemma route_dress: "route_pending (dress a b n g) = map_prod id (dress a b n) (route_pending g)"
  unfolding route_pending_def check_dress
  by (simp add: chunk_def close_reasoning_def Let_def dress_def split: prod.split option.split)

lemma raw_loop_dress:
  "raw_loop decode es (dress a b n g) = (case raw_loop decode es g of (r, g', es') \<Rightarrow> (r, dress a b n g', es'))"
proof (induction decode es g rule: raw_loop.induct)
  case (4 decode token es g)
  define g1 where "g1 = g\<lparr>gn_completion_tokens := gn_completion_tokens g + 1\<rparr>"
  have g1: "(dress a b n g)\<lparr>gn_completion_tokens := gn_completion_tokens (dress a b n g) + 1\<rparr> = dress a b n g1"
    by (simp add: dress_def g1_def)
  have same: "gn_reasoning_open (dress a b n g1) = gn_reasoning_open g1" "gn_think_close (dress a b n g1) = gn_think_close g1"
      "gn_detokenizer (dress a b n g1) = gn_detokenizer g1" "gn_pending (dress a b n g1) = gn_pending g1"
      "gn_trim_spans (dress a b n g1) = gn_trim_spans g1" by (simp_all add: dress_def)
  show ?case
  proof (cases "gn_reasoning_open g1 \<and> Some token = gn_think_close g1")
    case True
    obtain c g2 where c: "chunk (gn_pending g1) (g1\<lparr>gn_pending := []\<rparr>) = (c, g2)" by fastforce
    have "(dress a b n g1)\<lparr>gn_pending := []\<rparr> = dress a b n (g1\<lparr>gn_pending := []\<rparr>)" by (simp add: dress_def)
    then have c': "chunk (gn_pending (dress a b n g1)) ((dress a b n g1)\<lparr>gn_pending := []\<rparr>) = (c, dress a b n g2)"
      using c by (simp add: same chunk_dress)
    have "close_reasoning x (dress a b n g2) = dress a b n (close_reasoning x g2)" for x by (simp add: close_reasoning_def dress_def)
    moreover have "gn_trim_spans (dress a b n g2) = gn_trim_spans g2" by (simp add: dress_def)
    ultimately show ?thesis using 4(1) [OF g1_def] True c c'
      unfolding raw_loop.simps g1 g1_def [symmetric] by (simp add: same Let_def split: option.split)
  next
    case False
    obtain delta d where d: "detok_push decode (token_u32 token) (gn_detokenizer g1) = (delta, d)" by fastforce
    define g2 where "g2 = g1\<lparr>gn_detokenizer := d\<rparr>"
    define g3 where "g3 = g2\<lparr>gn_pending := gn_pending g2 @ delta\<rparr>"
    have up: "(dress a b n g1)\<lparr>gn_detokenizer := d\<rparr> = dress a b n g2"
      "(dress a b n g2)\<lparr>gn_pending := gn_pending (dress a b n g2) @ delta\<rparr> = dress a b n g3"
      by (simp_all add: dress_def g2_def g3_def)
    obtain fl g4 where fl: "route_pending g3 = (fl, g4)" by fastforce
    then have fl': "route_pending (dress a b n g3) = (fl, dress a b n g4)" by (simp add: route_dress)
    have F: "(gn_reasoning_open g1 \<and> Some token = gn_think_close g1) = False" using False by blast
    show ?thesis using 4(2) [OF g1_def] 4(3) [OF g1_def] d fl fl'
      unfolding raw_loop.simps g1 g1_def [symmetric] by (simp add: F same Let_def up g2_def [symmetric] g3_def [symmetric] split: flow.split)
  qed
qed (simp_all add: chunk_def Let_def dress_def)


lemma raw_next_dress:
  "raw_next decode es (dress a b n g) = (case raw_next decode es g of (r, g', es') \<Rightarrow> (r, dress a b n g', es'))"
  unfolding raw_next_def raw_loop_dress by (simp add: dress_def)

lemma dress_fields [simp]:
  "gn_queued (dress a b n g) = b" "gn_tool_parser (dress a b n g) = a" "gn_tool_calls (dress a b n g) = n"
  "gn_drained (dress a b n g) = gn_drained g" "(dress a b n g)\<lparr>gn_queued := b'\<rparr> = dress a b' n g"
  "(dress a b n g)\<lparr>gn_tool_parser := a'\<rparr> = dress a' b n g" "(dress a b n g)\<lparr>gn_tool_calls := n'\<rparr> = dress a b n' g"
  by (simp_all add: dress_def)

definition counted :: "'n Generation \<Rightarrow> 'n Generation" where
  "counted g = g\<lparr>gn_completion_tokens := gn_completion_tokens g + 1\<rparr>"

lemma raw_loop_close:
  assumes "gn_reasoning_open g" and "Some token = gn_think_close g"
    and c: "chunk (gn_pending g) ((counted g)\<lparr>gn_pending := []\<rparr>) = (c, g2)"
  shows "raw_loop decode (EvToken token # es) g =
    (case c of Some c \<Rightarrow> (Inr (Some c), close_reasoning (gn_trim_spans g2) g2, es)
     | None \<Rightarrow> raw_loop decode es (close_reasoning (gn_trim_spans g2) g2))"
  using assms by (simp add: Let_def counted_def)

lemma raw_loop_text:
  assumes F: "\<not> (gn_reasoning_open g \<and> Some token = gn_think_close g)"
    and d: "detok_push decode (token_u32 token) (gn_detokenizer g) = (delta, d)"
  shows "raw_loop decode (EvToken token # es) g =
    (if delta = [] then raw_loop decode es ((counted g)\<lparr>gn_detokenizer := d\<rparr>)
     else (case route_pending ((counted g)\<lparr>gn_detokenizer := d, gn_pending := gn_pending g @ delta\<rparr>) of
         (Return c, g) \<Rightarrow> (Inr c, g, es)
       | (Continue, g) \<Rightarrow> raw_loop decode es g))"
proof -
  have F: "(gn_reasoning_open g \<and> Some token = gn_think_close g) = False" using F by blast
  show ?thesis by (simp add: F d Let_def counted_def)
qed

lemma chunk_drained: "chunk s g = (c, g') \<Longrightarrow> gn_drained g' = gn_drained g"
  by (auto simp: chunk_def Let_def split: if_splits)

lemma return_drained: "route_pending g = (Return None, g') \<Longrightarrow> gn_drained g'"
proof -
  have ready: "emit_ready g \<noteq> (Return None, g')" for g
    by (auto simp: emit_ready_def Let_def flow_of_def split: prod.splits option.splits)
  have stop: "check_stop g = (Return None, g') \<Longrightarrow> gn_drained g'"
    using ready by (auto simp: check_stop_def Let_def split: prod.splits option.splits dest!: chunk_drained)
  assume "route_pending g = (Return None, g')"
  then show ?thesis using stop
    by (auto simp: route_pending_def Let_def flow_of_def split: if_splits option.splits prod.splits)
qed

lemma raw_loop_drained: "raw_loop decode es g = (Inr None, g', es') \<Longrightarrow> gn_drained g'"
proof (induction es arbitrary: g)
  case (Cons e es)
  show ?case
  proof (cases e)
    case (EvToken token)
    show ?thesis
    proof (cases "gn_reasoning_open g \<and> Some token = gn_think_close g")
      case True
      obtain c g2 where c: "chunk (gn_pending g) ((counted g)\<lparr>gn_pending := []\<rparr>) = (c, g2)" by fastforce
      then show ?thesis using Cons.prems Cons.IH unfolding EvToken raw_loop_close [OF conjunct1 [OF True] conjunct2 [OF True] c]
        by (auto split: option.splits)
    next
      case False
      obtain delta d where d: "detok_push decode (token_u32 token) (gn_detokenizer g) = (delta, d)" by fastforce
      then show ?thesis using Cons.prems Cons.IH unfolding EvToken raw_loop_text [OF False d]
        by (auto split: if_splits prod.splits flow.splits dest: return_drained)
    qed
  next
    case (EvDone reason)
    then show ?thesis using Cons.prems by (auto simp: Let_def split: prod.splits dest!: chunk_drained)
  qed (use Cons.prems in simp)
qed simp

lemma raw_next_drained: "raw_next decode es g = (Inr None, g', es') \<Longrightarrow> gn_drained g'"
  using raw_loop_drained by (auto simp: raw_next_def split: if_splits)

section \<open>Collecting\<close>

definition texts_of :: "'n ToolEvent list \<Rightarrow> rstr" where
  "texts_of es = concat (map (\<lambda>e. case e of TText s \<Rightarrow> s | TCall _ \<Rightarrow> []) es)"

definition calls_of :: "'n ToolEvent list \<Rightarrow> 'n ParsedToolCall list" where
  "calls_of es = concat (map (\<lambda>e. case e of TText _ \<Rightarrow> [] | TCall c \<Rightarrow> [c]) es)"

lemma events_simps [simp]:
  "texts_of [] = []" "texts_of (TText s # es) = s @ texts_of es" "texts_of (TCall c # es) = texts_of es"
  "calls_of [] = []" "calls_of (TText s # es) = calls_of es" "calls_of (TCall c # es) = c # calls_of es"
  "texts_of (es @ fs) = texts_of es @ texts_of fs" "calls_of (es @ fs) = calls_of es @ calls_of fs"
  by (simp_all add: texts_of_def calls_of_def)

lemma texts_join [simp]: "texts_of (join es) = texts_of es" "calls_of (join es) = calls_of es"
proof -
  have "texts_of (merge_text s es) = s @ texts_of es \<and> calls_of (merge_text s es) = calls_of es" for s and es :: "'a ToolEvent list"
    by (cases "(s, es)" rule: merge_text.cases) auto
  then show "texts_of (join es) = texts_of es" "calls_of (join es) = calls_of es" by (induction es rule: join.induct) auto
qed

definition chunk_of :: "'n ToolEvent \<Rightarrow> 'n Chunk" where
  "chunk_of e = (case e of TText s \<Rightarrow> CText s | TCall c \<Rightarrow> CToolCall c)"

lemma enqueue_dress: "\<exists>n'. enqueue events (dress a b n g) = dress a (b @ map chunk_of events) n' g"
proof (induction events arbitrary: b n)
  case Nil
  then show ?case by (auto simp: enqueue_def)
next
  case (Cons e es)
  obtain n1 where "enqueue (e # es) (dress a b n g) = enqueue es (dress a (b @ [chunk_of e]) n1 g)"
    by (cases e) (auto simp: enqueue_def chunk_of_def)
  then show ?case using Cons [of "b @ [chunk_of e]" n1] by simp
qed

definition gathered :: "rstr \<Rightarrow> rstr \<Rightarrow> 'n ParsedToolCall list \<Rightarrow> 'n Collected \<Rightarrow> 'n Collected" where
  "gathered r s cs co = co\<lparr>co_reasoning := co_reasoning co @ r, co_text := co_text co @ s, co_tool_calls := co_tool_calls co @ cs\<rparr>"

lemma gathered_simps [simp]:
  "gathered r s cs (gathered r' s' cs' co) = gathered (r' @ r) (s' @ s) (cs' @ cs) co" "gathered [] [] [] co = co"
  by (simp_all add: gathered_def)

lemma add_events: "fold add_chunk (map chunk_of es) co = gathered [] (texts_of es) (calls_of es) co"
proof (induction es arbitrary: co)
  case (Cons e es)
  have "add_chunk (chunk_of e) co = gathered [] (texts_of [e]) (calls_of [e]) co"
    by (cases e) (simp_all add: chunk_of_def add_chunk_def gathered_def)
  moreover have "texts_of (e # es) = texts_of [e] @ texts_of es" "calls_of (e # es) = calls_of [e] @ calls_of es"
    by (simp_all add: texts_of_def calls_of_def)
  ultimately show ?case by (simp add: Cons del: events_simps(2,3,5,6))
qed simp

lemma collect_next:
  "next_chunk from_json decode es g = next_chunk from_json decode es2 g2 \<Longrightarrow>
    collect_loop from_json decode es g co = collect_loop from_json decode es2 g2 co"
  by (subst (1 2) collect_loop.simps) simp

lemma collect_queue:
  "collect_loop from_json decode es (dress a (q @ b) n g) co = collect_loop from_json decode es (dress a b n g) (fold add_chunk q co)"
proof (induction q arbitrary: co)
  case (Cons c q)
  have "next_chunk from_json decode es (dress a ((c # q) @ b) n g) = Some (Inr (Some c), dress a (q @ b) n g, es)"
    by (subst next_chunk.simps) simp
  then show ?case by (subst collect_loop.simps) (simp add: Cons)
qed simp

lemma collect_end:
  assumes "gn_drained g"
  shows "collect_loop from_json decode es (dress None [] n g) co = Some (Inr co, dress None [] n g)"
proof -
  have "next_chunk from_json decode es (dress None [] n g) = Some (Inr None, dress None [] n g, es)"
    by (subst next_chunk.simps) (simp add: raw_next_def assms flush_parser_def)
  then show ?thesis by (subst collect_loop.simps) simp
qed

definition span_texts :: "'n Chunk list \<Rightarrow> rstr" where
  "span_texts cs = concat (map (\<lambda>c. case c of CText s \<Rightarrow> s | _ \<Rightarrow> []) cs)"

definition span_reasoning :: "'n Chunk list \<Rightarrow> rstr" where
  "span_reasoning cs = concat (map (\<lambda>c. case c of CReasoning s \<Rightarrow> s | _ \<Rightarrow> []) cs)"

definition spans :: "'n Chunk list \<Rightarrow> bool" where
  "spans cs \<longleftrightarrow> (\<forall>c \<in> set cs. \<forall>call. c \<noteq> CToolCall call)"

lemma span_simps [simp]:
  "span_texts [] = []" "span_texts (CText s # cs) = s @ span_texts cs" "span_texts (CReasoning s # cs) = span_texts cs"
  "span_reasoning [] = []" "span_reasoning (CText s # cs) = span_reasoning cs"
  "span_reasoning (CReasoning s # cs) = s @ span_reasoning cs"
  "span_texts (cs @ ds) = span_texts cs @ span_texts ds" "span_reasoning (cs @ ds) = span_reasoning cs @ span_reasoning ds"
  "spans []" "spans (c # cs) \<longleftrightarrow> (\<forall>call. c \<noteq> CToolCall call) \<and> spans cs" "spans (cs @ ds) \<longleftrightarrow> spans cs \<and> spans ds"
  by (auto simp: span_texts_def span_reasoning_def spans_def)

lemma collect_plain:
  "yields decode es g cs g' \<Longrightarrow> spans cs \<Longrightarrow>
    \<exists>n'. collect_loop from_json decode es (dress None [] n g) co
      = Some (Inr (gathered (span_reasoning cs) (span_texts cs) [] co), dress None [] n' g')"
proof (induction arbitrary: co n rule: yields.induct)
  case (stop es g g' es')
  have "next_chunk from_json decode es (dress None [] n g) = Some (Inr None, dress None [] n g', es')"
    by (subst next_chunk.simps) (simp add: raw_next_dress stop.hyps flush_parser_def)
  then show ?case by (subst collect_loop.simps) auto
next
  case (more es g c g1 es1 cs g')
  have "next_chunk from_json decode es (dress None [] n g) = Some (Inr (Some c), dress None [] n g1, es1)"
    by (subst next_chunk.simps) (simp add: raw_next_dress more.hyps(1) split: Chunk.split)
  moreover have "add_chunk c co = gathered (span_reasoning [c]) (span_texts [c]) [] co"
    using more.prems by (cases c) (simp_all add: add_chunk_def gathered_def)
  moreover have "span_reasoning (c # cs) = span_reasoning [c] @ span_reasoning cs" "span_texts (c # cs) = span_texts [c] @ span_texts cs"
    by (simp_all add: span_texts_def span_reasoning_def)
  ultimately show ?case using more.IH [of n "add_chunk c co"] more.prems by (subst collect_loop.simps) (simp del: span_simps(2,3,5,6))
qed

lemma collect_parser:
  "yields decode es g cs g' \<Longrightarrow> spans cs \<Longrightarrow> openers_ok (tp_openers p) \<Longrightarrow> settled p \<Longrightarrow>
    weight p + byte_len (span_texts cs) \<le> MAX_CALL_BYTES \<Longrightarrow>
    \<exists>n'. collect_loop from_json decode es (dress (Some p) [] n g) co
      = Some (Inr (gathered (span_reasoning cs) (texts_of (outcome from_json p [] (span_texts cs)))
          (calls_of (outcome from_json p [] (span_texts cs))) co), dress None [] n' g')"
proof (induction arbitrary: co n p rule: yields.induct)
  case (stop es g g' es')
  define ev where "ev = snd (finish (p, [] :: 'a ToolEvent list))"
  have out: "texts_of (outcome from_json p [] []) = texts_of ev" "calls_of (outcome from_json p [] []) = calls_of ev"
    using arg_cong [OF finish_outcome [OF stop.prems(3), of "[]" from_json], of texts_of]
      arg_cong [OF finish_outcome [OF stop.prems(3), of "[]" from_json], of calls_of] by (simp_all add: ev_def)
  obtain n1 where fl: "flush_parser (dress (Some p) [] n g') = dress None (map chunk_of ev) n1 g'"
    using enqueue_dress [of ev None "[]" n g'] by (auto simp: flush_parser_def ev_def)
  have dr: "gn_drained g'" using raw_next_drained [OF stop.hyps] .
  have "collect_loop from_json decode es (dress (Some p) [] n g) co = collect_loop from_json decode es' (dress None (map chunk_of ev) n1 g') co"
  proof (cases "ev = []")
    case True
    then have "next_chunk from_json decode es (dress (Some p) [] n g) = Some (Inr None, dress None [] n1 g', es')"
      using fl by (subst next_chunk.simps) (simp add: raw_next_dress stop.hyps)
    then show ?thesis using True collect_end [OF dr, of from_json decode es' n1 co] by (subst collect_loop.simps) simp
  next
    case False
    then have "next_chunk from_json decode es (dress (Some p) [] n g) = next_chunk from_json decode es' (dress None (map chunk_of ev) n1 g')"
      using fl by (subst next_chunk.simps) (simp add: raw_next_dress stop.hyps)
    then show ?thesis by (rule collect_next)
  qed
  also have "\<dots> = Some (Inr (gathered [] (texts_of ev) (calls_of ev) co), dress None [] n1 g')"
    using collect_queue [of from_json decode es' None "map chunk_of ev" "[]" n1 g' co] collect_end [OF dr, of from_json decode es' n1]
    by (simp add: add_events)
  finally show ?case by (auto simp: out)
next
  case (more es g c g1 es1 cs g')
  show ?case
  proof (cases c)
    case (CReasoning s)
    have "next_chunk from_json decode es (dress (Some p) [] n g) = Some (Inr (Some c), dress (Some p) [] n g1, es1)"
      by (subst next_chunk.simps) (simp add: raw_next_dress more.hyps(1) CReasoning)
    moreover have "add_chunk c co = gathered s [] [] co" by (simp add: CReasoning add_chunk_def gathered_def)
    ultimately show ?thesis using more.IH [of p n "add_chunk c co"] more.prems by (subst collect_loop.simps) (simp add: CReasoning)
  next
    case (CText s)
    let ?q = "p\<lparr>tp_pending := tp_pending p @ s\<rparr>"
    have w: "weight ?q = weight p + byte_len s" by (simp add: weight_def)
    obtain p1 ev where one: "push_loop from_json ?q [] = Some (p1, ev)" "pushed from_json ?q [] p1 ev" "settled p1"
      using push_loop_total [of ?q from_json "[]"] more.prems w by (auto simp: CText)
    obtain n1 where q: "enqueue ev (dress (Some p1) [] n g1) = dress (Some p1) (map chunk_of ev) n1 g1"
      using enqueue_dress [of ev "Some p1" "[]" n g1] by auto
    have nx: "next_chunk from_json decode es (dress (Some p) [] n g) = next_chunk from_json decode es1 (dress (Some p1) (map chunk_of ev) n1 g1)"
      by (subst next_chunk.simps) (simp add: raw_next_dress more.hyps(1) CText push_def one(1) q)
    have "collect_loop from_json decode es (dress (Some p) [] n g) co
        = collect_loop from_json decode es1 (dress (Some p1) [] n1 g1) (gathered [] (texts_of ev) (calls_of ev) co)"
      unfolding collect_next [OF nx] using collect_queue [of from_json decode es1 "Some p1" "map chunk_of ev" "[]" n1 g1 co]
      by (simp only: append_Nil2 add_events)
    moreover have "openers_ok (tp_openers p1)" "weight p1 + byte_len (span_texts cs) \<le> MAX_CALL_BYTES"
      using one(2) more.prems w by (auto simp: pushed_def CText)
    moreover have "outcome from_json p1 ev (span_texts cs) = outcome from_json p [] (s @ span_texts cs)"
      using one(2) by (simp add: pushed_def) (simp add: outcome_def)
    then have "texts_of ev @ texts_of (outcome from_json p1 [] (span_texts cs)) = texts_of (outcome from_json p [] (s @ span_texts cs))"
      "calls_of ev @ calls_of (outcome from_json p1 [] (span_texts cs)) = calls_of (outcome from_json p [] (s @ span_texts cs))"
      by (metis outcome_def append_Nil events_simps(7) texts_join(1), metis outcome_def append_Nil events_simps(8) texts_join(2))
    ultimately show ?thesis using more.IH [of p1 n1 "gathered [] (texts_of ev) (calls_of ev) co"] more.prems one(3) by (simp add: CText)
  qed (use more.prems in simp)
qed


section \<open>The answer span\<close>

definition trimmed :: "bool \<Rightarrow> rstr \<Rightarrow> rstr" where
  "trimmed t s = (if t then trim_start s else s)"

definition chunk_list :: "'n Chunk option \<Rightarrow> 'n Chunk list" where
  "chunk_list c = (case c of None \<Rightarrow> [] | Some c \<Rightarrow> [c])"

lemma chunk_list_simps [simp]: "chunk_list None = []" "chunk_list (Some c) = [c]"
  by (simp_all add: chunk_list_def)

text \<open>The span has let out \<open>e\<close>, and still drops leading whitespace as long as \<open>e\<close> is nothing else.\<close>

definition span_at :: "bool \<Rightarrow> rstr \<Rightarrow> 'n Generation \<Rightarrow> bool" where
  "span_at t e g \<longleftrightarrow> (gn_trim_span_start g \<longleftrightarrow> t \<and> trim_start e = [])"

lemma chunk_span:
  assumes "span_at t e g" and "chunk s g = (c, g')"
  shows "span_at t (e @ s) g'" and "trimmed t (e @ s) = trimmed t e @ (if gn_reasoning_open g then span_reasoning (chunk_list c) else span_texts (chunk_list c))"
    and "(if gn_reasoning_open g then span_texts (chunk_list c) else span_reasoning (chunk_list c)) = []" and "spans (chunk_list c)"
    and "\<exists>b. g' = g\<lparr>gn_trim_span_start := b\<rparr>"
proof -
  show "\<exists>b. g' = g\<lparr>gn_trim_span_start := b\<rparr>"
  proof (cases c)
    case None
    then have "g' = g\<lparr>gn_trim_span_start := gn_trim_span_start g\<rparr>"
      using assms(2) by (auto simp: chunk_def Let_def split: if_splits)
    then show ?thesis ..
  next
    case (Some x)
    then have "g' = g\<lparr>gn_trim_span_start := False\<rparr>"
      using assms(2) by (auto simp: chunk_def Let_def split: if_splits)
    then show ?thesis ..
  qed
qed (use assms in \<open>auto simp: span_at_def trimmed_def chunk_def Let_def trim_start_append split: if_splits\<close>)

definition answering :: "bool \<Rightarrow> rstr \<Rightarrow> 'n Generation \<Rightarrow> bool" where
  "answering t e g \<longleftrightarrow> \<not> gn_reasoning_open g \<and> \<not> gn_drained g \<and> span_at t e g \<and> stops_ok (gn_stop g)
     \<and> let_out (gn_stop g) e (gn_pending g) \<and> rg_armed (gn_guard g) \<and> rg_cancelled (gn_guard g) = []"

text \<open>What a finished response leaves: why it ended, and the one cancellation a stop sequence costs.\<close>

definition ended :: "Finish \<Rightarrow> nat \<Rightarrow> 'n Generation \<Rightarrow> bool" where
  "ended f i g \<longleftrightarrow> gn_finish g = Some f
     \<and> rg_cancelled (guard_drop (gn_guard g)) = (case f of StopSequence _ \<Rightarrow> [i] | _ \<Rightarrow> [])"

lemma stop_answer:
  assumes ans: "answering t e g" and at: "earliest_stop (gn_pending g) (gn_stop g) = Some (i, q)"
  shows "\<exists>c g'. check_stop g = (Return c, g') \<and> gn_drained g' \<and> spans (chunk_list c) \<and> span_reasoning (chunk_list c) = []
    \<and> trimmed t (e @ take i (gn_pending g)) = trimmed t e @ span_texts (chunk_list c)
    \<and> ended (StopSequence q) (rg_id (gn_guard g)) g'"
proof -
  define g1 where "g1 = g\<lparr>gn_pending := [], gn_guard := cancel_now (gn_guard g), gn_drained := True, gn_finish := Some (StopSequence q)\<rparr>"
  obtain c g' where c: "chunk (take i (gn_pending g)) g1 = (c, g')" by fastforce
  have "span_at t e g1" "\<not> gn_reasoning_open g1" using ans by (simp_all add: answering_def span_at_def g1_def)
  note ch = chunk_span [OF this(1) c]
  have "check_stop g = (Return c, g')" using c by (simp add: check_stop_def at g1_def)
  moreover have "gn_drained g'" "ended (StopSequence q) (rg_id (gn_guard g)) g'"
    using ch(5) ans by (auto simp: ended_def g1_def answering_def cancel_now_def guard_drop_def)
  ultimately show ?thesis using ch(2-4) \<open>\<not> gn_reasoning_open g1\<close> by auto
qed

lemma emit_answer:
  assumes ans: "answering t e g" and none: "no_stop (gn_stop g) (gn_pending g)"
  shows "\<exists>c g' e'. emit_ready g = (flow_of c, g') \<and> answering t e' g' \<and> no_stop (gn_stop g') (gn_pending g')
    \<and> e' @ gn_pending g' = e @ gn_pending g \<and> spans (chunk_list c) \<and> span_reasoning (chunk_list c) = []
    \<and> trimmed t e' = trimmed t e @ span_texts (chunk_list c)
    \<and> gn_detokenizer g' = gn_detokenizer g \<and> gn_stop g' = gn_stop g \<and> gn_guard g' = gn_guard g"
proof -
  let ?p = "gn_pending g"
  have held: "held_len g = held_back_len ?p (gn_stop g)" using ans by (simp add: held_len_def answering_def stop_held_back_eq)
  define k where "k = length ?p - held_len g"
  have out: "let_out (gn_stop g) (e @ take k ?p) (drop k ?p)"
    using ans none by (intro let_out_emit) (auto simp: answering_def k_def held)
  have none': "no_stop (gn_stop g) (drop k ?p)" using none by (simp add: no_stop_def occ_drop del: drop_drop)
  show ?thesis
  proof (cases "0 < k")
    case True
    define g1 where "g1 = g\<lparr>gn_pending := drop k ?p\<rparr>"
    obtain c g' where c: "chunk (take k ?p) g1 = (c, g')" by fastforce
    have "span_at t e g1" "\<not> gn_reasoning_open g1" using ans by (simp_all add: answering_def span_at_def g1_def)
    note ch = chunk_span [OF this(1) c]
    have "emit_ready g = (flow_of c, g')" using c True by (simp add: emit_ready_def k_def [symmetric] g1_def)
    moreover have "answering t (e @ take k ?p) g'"
      using ch(1,5) ans out by (auto simp: answering_def g1_def)
    moreover have "gn_pending g' = drop k ?p" "gn_stop g' = gn_stop g" "gn_detokenizer g' = gn_detokenizer g" "gn_guard g' = gn_guard g"
      using ch(5) by (auto simp: g1_def)
    ultimately show ?thesis using ch(2-4) none' \<open>\<not> gn_reasoning_open g1\<close> by (intro exI [of _ c] exI [of _ g'] exI [of _ "e @ take k ?p"]) auto
  next
    case False
    then have "emit_ready g = (flow_of None, g)" by (simp add: emit_ready_def k_def [symmetric] flow_of_def)
    then show ?thesis using ans none by (intro exI [of _ None] exI [of _ g] exI [of _ e]) simp
  qed
qed

lemma yields_step:
  assumes "\<not> gn_drained g" "\<not> gn_drained g1" "raw_loop decode (ev # es) g = raw_loop decode es g1" "yields decode es g1 cs g'"
  shows "yields decode (ev # es) g cs g'"
  using assms(4)
proof (cases rule: yields.cases)
  case (stop es')
  then show ?thesis using assms(1-3) unfolding stop(1) by (intro yields.stop [of _ _ _ _ es']) (simp add: raw_next_def)
next
  case (more c g2 es1 cs')
  then show ?thesis using assms(1-3) unfolding more(1) by (intro yields.more [of _ _ _ _ g2 es1]) (simp_all add: raw_next_def)
qed

lemma yields_last:
  assumes "\<not> gn_drained g" "raw_loop decode es g = (Inr c, g', es')" "gn_drained g'"
  shows "yields decode es g (chunk_list c) g'"
proof (cases c)
  case None
  then show ?thesis using assms by (auto simp: raw_next_def intro: yields.stop)
next
  case (Some x)
  have "raw_next decode es' g' = (Inr None, g', es')" using assms(3) by (simp add: raw_next_def)
  then have "yields decode es' g' [] g'" by (rule yields.stop)
  then show ?thesis using assms(1,2) Some by (auto simp: raw_next_def intro: yields.more)
qed

lemma yields_one:
  assumes "\<not> gn_drained g" "raw_loop decode es g = (Inr (Some c), g1, es1)" "yields decode es1 g1 cs g'"
  shows "yields decode es g (c # cs) g'"
  using assms by (auto simp: raw_next_def intro: yields.more)

lemma answer_yields:
  "answering t e g \<Longrightarrow> no_stop (gn_stop g) (gn_pending g) \<Longrightarrow> detok_run decode ts (gn_detokenizer g) = (s, d') \<Longrightarrow>
    \<exists>cs g' e' f. yields decode (map EvToken ts @ [EvDone reason]) g cs g' \<and> spans cs \<and> span_reasoning cs = []
      \<and> cut_at (gn_stop g) (finish_of reason) (e @ gn_pending g @ s) e' f
      \<and> trimmed t e' = trimmed t e @ span_texts cs \<and> ended f (rg_id (gn_guard g)) g'"
proof (induction ts arbitrary: g e s)
  case Nil
  define g1 where "g1 = g\<lparr>gn_guard := guard_disarm (gn_guard g), gn_drained := True, gn_finish := Some (finish_of reason), gn_pending := []\<rparr>"
  obtain c g' where c: "chunk (gn_pending g) g1 = (c, g')" by fastforce
  have "span_at t e g1" "\<not> gn_reasoning_open g1" using Nil.prems(1) by (simp_all add: answering_def span_at_def g1_def)
  note ch = chunk_span [OF this(1) c]
  have "raw_loop decode [EvDone reason] g = (Inr c, g', [])" using c by (simp add: g1_def Let_def)
  moreover have "gn_drained g'" "ended (finish_of reason) (rg_id (gn_guard g)) g'"
    using ch(5) Nil.prems(1) by (auto simp: ended_def g1_def answering_def guard_disarm_def guard_drop_def finish_of_def split: EngineFinish.split)
  ultimately have "yields decode [EvDone reason] g (chunk_list c) g'"
    using Nil.prems(1) by (intro yields_last) (auto simp: answering_def)
  moreover have "cut_at (gn_stop g) (finish_of reason) (e @ gn_pending g @ s) (e @ gn_pending g) (finish_of reason)"
    using Nil.prems let_out_no_stop by (auto simp: cut_at_def answering_def)
  ultimately show ?case using ch(2-4) \<open>\<not> gn_reasoning_open g1\<close> \<open>ended _ _ g'\<close>
    by (intro exI [of _ "chunk_list c"] exI [of _ g'] exI [of _ "e @ gn_pending g"] exI [of _ "finish_of reason"]) auto
next
  case (Cons token ts)
  have open_: "\<not> (gn_reasoning_open g \<and> Some token = gn_think_close g)" using Cons.prems(1) by (simp add: answering_def)
  obtain delta d where d: "detok_push decode (token_u32 token) (gn_detokenizer g) = (delta, d)" by fastforce
  obtain s1 where s: "detok_run decode ts d = (s1, d')" "s = delta @ s1" using Cons.prems(3) d by (auto split: prod.splits)
  note step = raw_loop_text [OF open_ d]
  define g1 where "g1 = (counted g)\<lparr>gn_detokenizer := d, gn_pending := gn_pending g @ delta\<rparr>"
  have g1: "gn_pending g1 = gn_pending g @ delta" "gn_stop g1 = gn_stop g" "gn_detokenizer g1 = d" "gn_guard g1 = gn_guard g"
    by (simp_all add: g1_def counted_def)
  have ans: "answering t e g1" using Cons.prems(1) let_out_more [of "gn_stop g" e "gn_pending g" delta]
    by (auto simp: answering_def g1_def counted_def span_at_def)
  have live: "\<not> gn_drained g" "\<not> gn_drained g1" using Cons.prems(1) ans by (simp_all add: answering_def)
  show ?case
  proof (cases "delta = []")
    case True
    then have same: "(counted g)\<lparr>gn_detokenizer := d\<rparr> = g1" by (simp add: g1_def counted_def)
    have "no_stop (gn_stop g1) (gn_pending g1)" using Cons.prems(2) True by (simp add: g1)
    from Cons.IH [OF ans this, of s1] s(1) obtain cs g' e' f where
      ih: "yields decode (map EvToken ts @ [EvDone reason]) g1 cs g'" "spans cs" "span_reasoning cs = []"
        "cut_at (gn_stop g) (finish_of reason) (e @ gn_pending g @ s) e' f" "trimmed t e' = trimmed t e @ span_texts cs"
        "ended f (rg_id (gn_guard g)) g'" by (auto simp: g1 True s(2))
    have "raw_loop decode (EvToken token # map EvToken ts @ [EvDone reason]) g = raw_loop decode (map EvToken ts @ [EvDone reason]) g1"
      unfolding step by (simp add: True same)
    from yields_step [OF live this ih(1)] ih(2-) show ?thesis by auto
  next
    case False
    have route: "route_pending g1 = check_stop g1" using ans by (simp add: route_pending_def answering_def)
    note step' = step [unfolded if_not_P [OF False] g1_def [symmetric] route]
    show ?thesis
    proof (cases "earliest_stop (gn_pending g1) (gn_stop g1)")
      case (Some iq)
      obtain i q where iq: "iq = (i, q)" by (cases iq)
      from stop_answer [OF ans Some [unfolded iq]] obtain c g' where c: "check_stop g1 = (Return c, g')" "gn_drained g'"
        "spans (chunk_list c)" "span_reasoning (chunk_list c) = []"
        "trimmed t (e @ take i (gn_pending g1)) = trimmed t e @ span_texts (chunk_list c)"
        "ended (StopSequence q) (rg_id (gn_guard g)) g'" by (auto simp: g1)
      have "yields decode (EvToken token # map EvToken ts @ [EvDone reason]) g (chunk_list c) g'"
        using yields_last [OF live(1) step' [unfolded c(1) prod.case flow.case] c(2)] by simp
      moreover have "cut_at (gn_stop g) (finish_of reason) (e @ gn_pending g @ s) (e @ take i (gn_pending g1)) (StopSequence q)"
        using let_out_cut [of "gn_stop g1" e "gn_pending g1" i q "finish_of reason" s1] ans Some iq
        by (simp add: g1 s(2) answering_def)
      ultimately show ?thesis using c(3-6)
        by (intro exI [of _ "chunk_list c"] exI [of _ g'] exI [of _ "e @ take i (gn_pending g1)"] exI [of _ "StopSequence q"] conjI)
          (simp_all only: list.map append_Cons)
    next
      case None
      have ns: "no_stop (gn_stop g1) (gn_pending g1)" using None earliest_stop_None ans by (auto simp: answering_def)
      from emit_answer [OF ans ns] obtain c g2 e2 where em: "emit_ready g1 = (flow_of c, g2)" "answering t e2 g2"
        "no_stop (gn_stop g2) (gn_pending g2)" "e2 @ gn_pending g2 = e @ gn_pending g1" "spans (chunk_list c)"
        "span_reasoning (chunk_list c) = []" "trimmed t e2 = trimmed t e @ span_texts (chunk_list c)"
        "gn_detokenizer g2 = d" "gn_stop g2 = gn_stop g" "gn_guard g2 = gn_guard g" by (auto simp: g1)
      have chk: "check_stop g1 = (flow_of c, g2)" by (simp add: check_stop_def None em(1))
      from Cons.IH [OF em(2,3), of s1] s(1) em(8) obtain cs g' e' f where
        ih: "yields decode (map EvToken ts @ [EvDone reason]) g2 cs g'" "spans cs" "span_reasoning cs = []"
          "cut_at (gn_stop g) (finish_of reason) (e2 @ gn_pending g2 @ s1) e' f" "trimmed t e' = trimmed t e2 @ span_texts cs"
          "ended f (rg_id (gn_guard g)) g'" by (auto simp: em(9,10))
      have full: "e2 @ gn_pending g2 @ s1 = e @ gn_pending g @ s" using arg_cong [OF em(4), of "\<lambda>x. x @ s1"] by (simp add: g1 s(2))
      have "yields decode (EvToken token # map EvToken ts @ [EvDone reason]) g (chunk_list c @ cs) g'"
      proof (cases c)
        case None
        have "\<not> gn_drained g2" using em(2) by (simp add: answering_def)
        moreover have "raw_loop decode (EvToken token # map EvToken ts @ [EvDone reason]) g = raw_loop decode (map EvToken ts @ [EvDone reason]) g2"
          unfolding step' chk by (simp add: None flow_of_def)
        ultimately show ?thesis using yields_step [OF live(1) _ _ ih(1)] None by simp
      next
        case (Some x)
        have "raw_loop decode (EvToken token # map EvToken ts @ [EvDone reason]) g = (Inr (Some x), g2, map EvToken ts @ [EvDone reason])"
          unfolding step' chk by (simp add: Some flow_of_def)
        from yields_one [OF live(1) this ih(1)] show ?thesis by (simp add: Some)
      qed
      then show ?thesis using ih(2-) em(5-7) full
        by (intro exI [of _ "chunk_list c @ cs"] exI [of _ g'] exI [of _ e'] exI [of _ f]) auto
    qed
  qed
qed


section \<open>The reasoning span\<close>

definition reasoning_span :: "bool \<Rightarrow> rstr \<Rightarrow> 'n Generation \<Rightarrow> bool" where
  "reasoning_span t e g \<longleftrightarrow> gn_reasoning_open g \<and> \<not> gn_drained g \<and> span_at t e g \<and> stops_ok (gn_stop g)
     \<and> rg_armed (gn_guard g) \<and> rg_cancelled (gn_guard g) = []"

abbreviation span_enders :: "rstr list \<Rightarrow> rstr list" where
  "span_enders stop \<equiv> think_end # CALL_OPEN # stop"

definition kept :: "'n Generation \<Rightarrow> 'n Generation \<Rightarrow> bool" where
  "kept g g' \<longleftrightarrow> gn_stop g' = gn_stop g \<and> gn_guard g' = gn_guard g \<and> gn_think_close g' = gn_think_close g
     \<and> gn_trim_spans g' = gn_trim_spans g"

lemma think_end_ne: "think_end \<noteq> []" and CALL_OPEN_ne: "CALL_OPEN \<noteq> []"
  by (simp_all add: think_end_def CALL_OPEN_def lit_def)

lemma no_stop_parts: "no_stop stop (a @ b) \<Longrightarrow> no_stop stop a \<and> no_stop stop b" if ok: "[] \<notin> set stop"
proof (intro conjI)
  assume none: "no_stop stop (a @ b)"
  have "\<not> occ q a i" if "q \<in> set stop" for q i
  proof
    assume at: "occ q a i"
    then have "i + length q \<le> length a" using occ_fits that ok by metis
    then have "occ q (a @ b) i" using at occ_append by blast
    then show False using none that unfolding no_stop_def by blast
  qed
  then show "no_stop stop a" by (simp add: no_stop_def)
  have "\<not> occ q b i" if "q \<in> set stop" for q i
  proof
    assume "occ q b i"
    then have "occ q (a @ b) (length a + i)" by simp
    then show False using none that unfolding no_stop_def by blast
  qed
  then show "no_stop stop b" by (simp add: no_stop_def)
qed

lemma emit_reasoning:
  assumes rs: "reasoning_span t e g"
  shows "\<exists>c g' e'. emit_ready g = (flow_of c, g') \<and> reasoning_span t e' g' \<and> kept g g'
    \<and> e' @ gn_pending g' = e @ gn_pending g \<and> spans (chunk_list c) \<and> span_texts (chunk_list c) = []
    \<and> trimmed t e' = trimmed t e @ span_reasoning (chunk_list c) \<and> gn_detokenizer g' = gn_detokenizer g"
proof -
  let ?p = "gn_pending g"
  define k where "k = length ?p - held_len g"
  show ?thesis
  proof (cases "0 < k")
    case True
    define g1 where "g1 = g\<lparr>gn_pending := drop k ?p\<rparr>"
    obtain c g' where c: "chunk (take k ?p) g1 = (c, g')" by fastforce
    have "span_at t e g1" "gn_reasoning_open g1" using rs by (simp_all add: reasoning_span_def span_at_def g1_def)
    note ch = chunk_span [OF this(1) c]
    have "emit_ready g = (flow_of c, g')" using c True by (simp add: emit_ready_def k_def [symmetric] g1_def)
    moreover have "reasoning_span t (e @ take k ?p) g'" using ch(1,5) rs by (auto simp: reasoning_span_def g1_def)
    moreover have "gn_pending g' = drop k ?p" "kept g g'" "gn_detokenizer g' = gn_detokenizer g"
      using ch(5) by (auto simp: g1_def kept_def)
    ultimately show ?thesis using ch(2-4) \<open>gn_reasoning_open g1\<close>
      by (intro exI [of _ c] exI [of _ g'] exI [of _ "e @ take k ?p"]) auto
  next
    case False
    then have "emit_ready g = (flow_of None, g)" by (simp add: emit_ready_def k_def [symmetric] flow_of_def)
    then show ?thesis using rs by (intro exI [of _ None] exI [of _ g] exI [of _ e]) (simp add: kept_def)
  qed
qed

lemma route_reasoning:
  assumes "gn_reasoning_open g" and "stops_ok (gn_stop g)" and none: "no_stop (span_enders (gn_stop g)) (gn_pending g)"
  shows "route_pending g = emit_ready g"
proof -
  have "find_str think_end (gn_pending g) = None" "find_str CALL_OPEN (gn_pending g) = None"
    using none find_str_None_occ [OF think_end_ne] find_str_None_occ [OF CALL_OPEN_ne] by (auto simp: no_stop_def)
  moreover have "earliest_stop (gn_pending g) (gn_stop g) = None"
    using none earliest_stop_None [OF assms(2)] by (simp add: no_stop_def)
  ultimately show ?thesis using assms(1) by (simp add: route_pending_def check_stop_def)
qed

text \<open>Reading on from \<open>g\<close> gives the chunks \<open>cs\<close> and then what reading on from \<open>g1\<close> gives.\<close>

definition leads :: "(nat list \<Rightarrow> rstr option) \<Rightarrow> ClientEvent list \<Rightarrow> 'n Generation \<Rightarrow> 'n Chunk list
    \<Rightarrow> ClientEvent list \<Rightarrow> 'n Generation \<Rightarrow> bool" where
  "leads decode es g cs es1 g1 \<longleftrightarrow> (\<forall>ds g'. yields decode es1 g1 ds g' \<longrightarrow> yields decode es g (cs @ ds) g')"

lemma leads_trans: "leads decode es g cs es1 g1 \<Longrightarrow> leads decode es1 g1 cs1 es2 g2 \<Longrightarrow> leads decode es g (cs @ cs1) es2 g2"
  by (simp add: leads_def)

lemma leads_step:
  assumes "\<not> gn_drained g" "\<not> gn_drained g1"
    and "raw_loop decode (ev # es) g = (case c of Some c \<Rightarrow> (Inr (Some c), g1, es) | None \<Rightarrow> raw_loop decode es g1)"
  shows "leads decode (ev # es) g (chunk_list c) es g1"
  unfolding leads_def
proof (intro allI impI)
  fix ds g' assume rest: "yields decode es g1 ds g'"
  show "yields decode (ev # es) g (chunk_list c @ ds) g'"
  proof (cases c)
    case None
    then show ?thesis using yields_step [OF assms(1,2) _ rest] assms(3) by simp
  next
    case (Some x)
    then show ?thesis using yields_one [OF assms(1) _ rest] assms(3) by simp
  qed
qed

lemma reasoning_token:
  assumes rs: "reasoning_span t e g" and other: "Some token \<noteq> gn_think_close g"
    and d: "detok_push decode (token_u32 token) (gn_detokenizer g) = (delta, d)"
    and none: "no_stop (span_enders (gn_stop g)) (gn_pending g @ delta)"
  shows "\<exists>c g1 e1. leads decode (EvToken token # es) g (chunk_list c) es g1 \<and> reasoning_span t e1 g1 \<and> kept g g1
    \<and> e1 @ gn_pending g1 = e @ gn_pending g @ delta \<and> spans (chunk_list c) \<and> span_texts (chunk_list c) = []
    \<and> trimmed t e1 = trimmed t e @ span_reasoning (chunk_list c) \<and> gn_detokenizer g1 = d"
proof -
  define g1 where "g1 = (counted g)\<lparr>gn_detokenizer := d, gn_pending := gn_pending g @ delta\<rparr>"
  have g1: "gn_pending g1 = gn_pending g @ delta" "gn_detokenizer g1 = d" "kept g g1" "gn_stop g1 = gn_stop g"
    by (simp_all add: g1_def counted_def kept_def)
  have rs1: "reasoning_span t e g1" using rs by (simp add: reasoning_span_def g1_def counted_def span_at_def)
  have live: "\<not> gn_drained g" using rs by (simp add: reasoning_span_def)
  have F: "\<not> (gn_reasoning_open g \<and> Some token = gn_think_close g)" using other by simp
  note step = raw_loop_text [OF F d, of es]
  show ?thesis
  proof (cases "delta = []")
    case True
    then have "(counted g)\<lparr>gn_detokenizer := d\<rparr> = g1" by (simp add: g1_def counted_def)
    then have "raw_loop decode (EvToken token # es) g = raw_loop decode es g1" unfolding step by (simp add: True)
    then have "leads decode (EvToken token # es) g (chunk_list None) es g1"
      using live rs1 by (intro leads_step) (simp_all add: reasoning_span_def)
    then show ?thesis using rs1 g1 by (intro exI [of _ None] exI [of _ g1] exI [of _ e]) simp
  next
    case False
    have "route_pending g1 = emit_ready g1"
      using route_reasoning [of g1] rs1 none by (simp add: reasoning_span_def g1)
    from emit_reasoning [OF rs1] this obtain c g2 e2 where
      em: "route_pending g1 = (flow_of c, g2)" "reasoning_span t e2 g2" "kept g1 g2" "e2 @ gn_pending g2 = e @ gn_pending g1"
        "spans (chunk_list c)" "span_texts (chunk_list c) = []" "trimmed t e2 = trimmed t e @ span_reasoning (chunk_list c)"
        "gn_detokenizer g2 = gn_detokenizer g1" by auto
    have "raw_loop decode (EvToken token # es) g = (case c of Some c \<Rightarrow> (Inr (Some c), g2, es) | None \<Rightarrow> raw_loop decode es g2)"
      using False em(1) unfolding step g1_def [symmetric] by (cases c) (simp_all add: flow_of_def)
    then have "leads decode (EvToken token # es) g (chunk_list c) es g2"
      using live em(2) by (intro leads_step) (simp_all add: reasoning_span_def)
    moreover have "kept g g2" using g1(3) em(3) by (simp add: kept_def)
    ultimately show ?thesis using em(2-) g1 by (intro exI [of _ c] exI [of _ g2] exI [of _ e2]) simp
  qed
qed

lemma reasoning_leads:
  "reasoning_span t e g \<Longrightarrow> \<forall>token \<in> set ts. Some token \<noteq> gn_think_close g \<Longrightarrow>
    detok_run decode ts (gn_detokenizer g) = (s, d') \<Longrightarrow> no_stop (span_enders (gn_stop g)) (e @ gn_pending g @ s) \<Longrightarrow>
    \<exists>cs g1 e1. leads decode (map EvToken ts @ es) g cs es g1 \<and> reasoning_span t e1 g1 \<and> kept g g1
      \<and> e1 @ gn_pending g1 = e @ gn_pending g @ s \<and> spans cs \<and> span_texts cs = []
      \<and> trimmed t e1 = trimmed t e @ span_reasoning cs \<and> gn_detokenizer g1 = d'"
proof (induction ts arbitrary: g e s)
  case Nil
  then show ?case
    by (intro exI [of _ "[]"] exI [of _ g] exI [of _ e]) (simp add: leads_def kept_def)
next
  case (Cons token ts)
  obtain delta d where d: "detok_push decode (token_u32 token) (gn_detokenizer g) = (delta, d)" by fastforce
  obtain s1 where s: "detok_run decode ts d = (s1, d')" "s = delta @ s1" using Cons.prems(3) d by (auto split: prod.splits)
  have ne: "[] \<notin> set (span_enders (gn_stop g))"
    using Cons.prems(1) think_end_ne CALL_OPEN_ne by (auto simp: reasoning_span_def stops_ok_def)
  have none: "no_stop (span_enders (gn_stop g)) (gn_pending g @ delta)"
    using no_stop_parts [OF ne, of e "(gn_pending g @ delta) @ s1"] no_stop_parts [OF ne, of "gn_pending g @ delta" s1]
      Cons.prems(4) s(2) by simp
  have other: "Some token \<noteq> gn_think_close g" using Cons.prems(2) by simp
  from reasoning_token [OF Cons.prems(1) other d none, of "map EvToken ts @ es"] obtain c g1 e1 where
    one: "leads decode (EvToken token # map EvToken ts @ es) g (chunk_list c) (map EvToken ts @ es) g1" "reasoning_span t e1 g1"
      "kept g g1" "e1 @ gn_pending g1 = e @ gn_pending g @ delta" "spans (chunk_list c)" "span_texts (chunk_list c) = []"
      "trimmed t e1 = trimmed t e @ span_reasoning (chunk_list c)" "gn_detokenizer g1 = d" by blast
  have later: "e1 @ gn_pending g1 @ s1 = e @ gn_pending g @ s"
    using arg_cong [OF one(4), of "\<lambda>x. x @ s1"] by (simp add: s(2))
  have "\<forall>token \<in> set ts. Some token \<noteq> gn_think_close g1" using Cons.prems(2) one(3) by (simp add: kept_def)
  from Cons.IH [OF one(2) this, of s1] s(1) one(3,8) Cons.prems(4) later obtain cs g2 e2 where
    rest: "leads decode (map EvToken ts @ es) g1 cs es g2" "reasoning_span t e2 g2" "kept g1 g2"
      "e2 @ gn_pending g2 = e1 @ gn_pending g1 @ s1" "spans cs" "span_texts cs = []"
      "trimmed t e2 = trimmed t e1 @ span_reasoning cs" "gn_detokenizer g2 = d'" by (auto simp: kept_def)
  have "leads decode (map EvToken (token # ts) @ es) g (chunk_list c @ cs) es g2"
    using leads_trans [OF one(1) rest(1)] by simp
  moreover have "kept g g2" using one(3) rest(3) by (simp add: kept_def)
  ultimately show ?case using rest(2,4-) one(5-7) later
    by (intro exI [of _ "chunk_list c @ cs"] exI [of _ g2] exI [of _ e2]) simp
qed

text \<open>The token that closes reasoning lets out what was held and starts the answer afresh.\<close>

lemma reasoning_closes:
  assumes rs: "reasoning_span t e g" and close: "gn_think_close g = Some token"
  shows "\<exists>c g1. leads decode (EvToken token # es) g (chunk_list c) es g1 \<and> answering (gn_trim_spans g) [] g1
    \<and> gn_pending g1 = [] \<and> kept g g1 \<and> spans (chunk_list c) \<and> span_texts (chunk_list c) = []
    \<and> trimmed t (e @ gn_pending g) = trimmed t e @ span_reasoning (chunk_list c) \<and> gn_detokenizer g1 = gn_detokenizer g"
proof -
  define g0 where "g0 = (counted g)\<lparr>gn_pending := []\<rparr>"
  obtain c g2 where c: "chunk (gn_pending g) g0 = (c, g2)" by fastforce
  have "span_at t e g0" "gn_reasoning_open g0" using rs by (simp_all add: reasoning_span_def span_at_def g0_def counted_def)
  note ch = chunk_span [OF this(1) c]
  define g1 where "g1 = close_reasoning (gn_trim_spans g2) g2"
  have g1: "gn_pending g1 = []" "kept g g1" "gn_detokenizer g1 = gn_detokenizer g" "answering (gn_trim_spans g) [] g1"
    using ch(5) rs
    by (auto simp: g1_def g0_def counted_def close_reasoning_def kept_def answering_def reasoning_span_def span_at_def let_out_def)
  have open_: "gn_reasoning_open g" "\<not> gn_drained g" using rs by (simp_all add: reasoning_span_def)
  have "leads decode (EvToken token # es) g (chunk_list c) es g1"
  proof (rule leads_step)
    show "\<not> gn_drained g" "\<not> gn_drained g1" using open_(2) g1(4) by (simp_all add: answering_def)
    show "raw_loop decode (EvToken token # es) g = (case c of Some c \<Rightarrow> (Inr (Some c), g1, es) | None \<Rightarrow> raw_loop decode es g1)"
      unfolding g1_def by (rule raw_loop_close [OF open_(1) close [symmetric] c [unfolded g0_def]])
  qed
  then show ?thesis using g1 ch(2-4) \<open>gn_reasoning_open g0\<close> by (intro exI [of _ c] exI [of _ g1]) simp
qed


section \<open>The whole response\<close>

text \<open>The events of a turn that runs to its end: the reasoning, the token that closes it where reasoning is open,
  the answer, and the reason the engine gives.\<close>

definition turn_events :: "int option \<Rightarrow> int list \<Rightarrow> int list \<Rightarrow> EngineFinish \<Rightarrow> ClientEvent list" where
  "turn_events close thinks tokens reason =
    map EvToken (case close of None \<Rightarrow> tokens | Some c \<Rightarrow> thinks @ c # tokens) @ [EvDone reason]"

text \<open>What the answer says, by the tools it was offered.\<close>

definition answer_reading ::
  "(rstr \<Rightarrow> 'n Value option) \<Rightarrow> (rstr \<times> Schema) list option \<Rightarrow> rstr \<Rightarrow> rstr \<times> 'n ParsedToolCall list" where
  "answer_reading from_json tools s = (case tools of
     None \<Rightarrow> (s, [])
   | Some tools \<Rightarrow> (texts_of (whole_reading from_json tools s), calls_of (whole_reading from_json tools s)))"

lemma cut_at_prefix: "cut_at stop reason s e f \<Longrightarrow> \<exists>r. s = e @ r"
  by (auto simp: cut_at_def)

lemma byte_len_trimmed: "byte_len (trimmed t s) \<le> byte_len s"
proof -
  have "s = takeWhile is_white s @ trim_start s" by (simp add: trim_start_def)
  then have "byte_len s = byte_len (takeWhile is_white s) + byte_len (trim_start s)" by (metis byte_len_append)
  then show ?thesis by (simp add: trimmed_def)
qed

lemma collected_answer:
  assumes ys: "yields decode es g cs g'" and sp: "spans cs" and names: "\<And>ts. tools = Some ts \<Longrightarrow> plain_names ts"
    and size: "byte_len (span_texts cs) \<le> MAX_CALL_BYTES"
    and g: "gn_tool_parser g = map_option parser_new tools" "gn_queued g = []" "gn_tool_calls g = 0"
  shows "\<exists>co n. collect_response from_json decode es g = Some (Inr co, dress None [] n g')
    \<and> co_reasoning co = span_reasoning cs \<and> (co_text co, co_tool_calls co) = answer_reading from_json tools (span_texts cs)"
proof -
  have self: "g = dress (map_option parser_new tools) [] 0 g" using g by (simp add: dress_def)
  show ?thesis
  proof (cases tools)
    case None
    have "g = dress None [] 0 g" using self None by simp
    then show ?thesis using collect_plain [OF ys sp, where from_json = from_json and n = 0 and co = nothing_collected] None
      by (auto simp: collect_response_def answer_reading_def nothing_collected_def gathered_def)
  next
    case (Some ts)
    have "plain_names ts" using names Some by simp
    note new = parser_new_ok [OF this] parser_new_settled [OF this]
    have "g = dress (Some (parser_new ts)) [] 0 g" using self Some by simp
    moreover have "weight (parser_new ts) + byte_len (span_texts cs) \<le> MAX_CALL_BYTES" using size new(3) by simp
    ultimately show ?thesis using collect_parser [OF ys sp new(1,2), where from_json = from_json and n = 0 and co = nothing_collected] Some
      by (auto simp: collect_response_def answer_reading_def nothing_collected_def gathered_def whole_outcome)
  qed
qed

lemma started:
  assumes "generation_start place spec ap = (Inr g, ap')"
  shows "gn_guard g = guard_new (ap_next_id ap)" "gn_detokenizer g = detok_new" "gn_stop g = gs_stop spec" "gn_pending g = []"
    "gn_think_close g = ap_think_close ap" "gn_reasoning_open g = (gs_thinking spec \<and> ap_think_close ap \<noteq> None)"
    "gn_trim_spans g = gs_trim_spans spec" "gn_trim_span_start g = gs_trim_spans spec" "\<not> gn_drained g"
    "gn_tool_parser g = gs_tool_parser spec" "gn_queued g = []" "gn_tool_calls g = 0"
  using assms by (auto simp: generation_start_def Let_def split: if_splits)

lemma response_yields:
  assumes start: "generation_start place spec ap = (Inr g, ap')" and st: "streams decode txt" and ok: "stops_ok (gs_stop spec)"
    and close: "close = (if gs_thinking spec then ap_think_close ap else None)"
    and thinks: "\<forall>c. close = Some c \<longrightarrow> c \<notin> set thinks" "close = None \<longrightarrow> thinks = []"
    and whole: "whole_char (txt (map token_u32 thinks))" "whole_char (txt (map token_u32 tokens))"
    and none: "no_stop (span_enders (gs_stop spec)) (txt (map token_u32 thinks))"
  shows "\<exists>cs g' e f. yields decode (turn_events close thinks tokens reason) g cs g' \<and> spans cs
    \<and> span_reasoning cs = trimmed (gs_trim_spans spec) (txt (map token_u32 thinks))
    \<and> span_texts cs = trimmed (gs_trim_spans spec) e
    \<and> cut_at (gs_stop spec) (finish_of reason) (txt (map token_u32 tokens)) e f
    \<and> ended f (ap_next_id ap) g'"
proof -
  note g = started [OF start]
  let ?t = "gs_trim_spans spec" and ?ends = "map EvToken tokens @ [EvDone reason]"
  note new = detok_new_ok [OF st]
  have guard: "rg_armed (gn_guard g)" "rg_cancelled (gn_guard g) = []" "rg_id (gn_guard g) = ap_next_id ap" by (simp_all add: g guard_new_def)
  obtain s1 d1 where r1: "detok_run decode thinks detok_new = (s1, d1)" by fastforce
  have d1: "detok_ok txt d1" "dt_tokens d1 = map token_u32 thinks" "given txt d1 = s1" "all_given txt d1"
    using detok_run_ok [OF st _ _ r1] new by (auto simp: detok_new_def)
  have s1: "s1 = txt (map token_u32 thinks)" using d1(2-4) whole(1) by (simp add: all_given_def)
  obtain s2 d2 where r2: "detok_run decode tokens d1 = (s2, d2)" by fastforce
  have join: "txt (map token_u32 thinks @ map token_u32 tokens) = s1 @ txt (map token_u32 tokens)"
    using st whole(1) s1 by (simp add: streams_def)
  have d2: "given txt d2 = s1 @ s2" "all_given txt d2" "dt_tokens d2 = map token_u32 thinks @ map token_u32 tokens"
    using detok_run_ok [OF st d1(1,4) r2] d1(2,3) by auto
  have "whole_char (txt (dt_tokens d2))" using whole s1 unfolding d2(3) join whole_char_append by simp
  then have s2: "s2 = txt (map token_u32 tokens)" using d2 join by (simp add: all_given_def)
  have nil: "trimmed t [] = []" for t by (simp add: trimmed_def)
  show ?thesis
  proof (cases close)
    case None
    have "thinks = []" using thinks(2) None by simp
    have "\<not> gn_reasoning_open g" using None close by (auto simp: g(6))
    then have ans: "answering ?t [] g" using g ok guard by (simp add: answering_def span_at_def let_out_def)
    have "detok_run decode tokens (gn_detokenizer g) = (s2, d2)" using r1 r2 \<open>thinks = []\<close> g(2) by simp
    moreover have "no_stop (gn_stop g) (gn_pending g)"
      using ok by (auto simp: no_stop_def g stops_ok_def starts_with_prefix)
    ultimately obtain cs g' e f where "yields decode ?ends g cs g'" "spans cs" "span_reasoning cs = []"
      "cut_at (gn_stop g) (finish_of reason) s2 e f" "span_texts cs = trimmed ?t e" "ended f (ap_next_id ap) g'"
      using answer_yields [OF ans, of decode tokens s2 d2 reason] g(4) guard(3) nil by auto
    moreover have "trimmed ?t s1 = []" using s1 \<open>thinks = []\<close> st nil by (simp add: streams_def)
    ultimately show ?thesis using None g(3) s1 s2 by (auto simp: turn_events_def)
  next
    case (Some c)
    have open_: "gn_reasoning_open g" "gn_think_close g = Some c" using Some close by (auto simp: g split: if_splits)
    then have rs: "reasoning_span ?t [] g" using g ok guard by (simp add: reasoning_span_def span_at_def)
    have "\<forall>token \<in> set thinks. Some token \<noteq> gn_think_close g" using thinks(1) Some open_(2) by auto
    from reasoning_leads [OF rs this, of decode s1 d1 "EvToken c # ?ends"] r1 none s1 g obtain cs1 g1 e1 where
      one: "leads decode (map EvToken thinks @ EvToken c # ?ends) g cs1 (EvToken c # ?ends) g1" "reasoning_span ?t e1 g1"
        "kept g g1" "e1 @ gn_pending g1 = s1" "spans cs1" "span_texts cs1 = []" "trimmed ?t e1 = span_reasoning cs1"
        "gn_detokenizer g1 = d1" by (auto simp: nil)
    have "gn_think_close g1 = Some c" using one(3) open_(2) by (simp add: kept_def)
    from reasoning_closes [OF one(2) this, of decode ?ends] obtain c2 g2 where
      two: "leads decode (EvToken c # ?ends) g1 (chunk_list c2) ?ends g2" "answering (gn_trim_spans g1) [] g2"
        "gn_pending g2 = []" "kept g1 g2" "spans (chunk_list c2)" "span_texts (chunk_list c2) = []"
        "trimmed ?t s1 = trimmed ?t e1 @ span_reasoning (chunk_list c2)" "gn_detokenizer g2 = d1" by (auto simp: one(4,8))
    have k: "gn_stop g2 = gs_stop spec" "gn_trim_spans g1 = ?t" "rg_id (gn_guard g2) = ap_next_id ap"
      using one(3) two(4) g guard(3) by (auto simp: kept_def)
    have "no_stop (gn_stop g2) (gn_pending g2)" using ok by (auto simp: no_stop_def two(3) k(1) stops_ok_def starts_with_prefix)
    from answer_yields [OF two(2) this, of decode tokens s2 d2 reason] r2 obtain cs3 g' e f where
      three: "yields decode ?ends g2 cs3 g'" "spans cs3" "span_reasoning cs3 = []"
        "cut_at (gs_stop spec) (finish_of reason) s2 e f" "trimmed ?t e = span_texts cs3" "ended f (ap_next_id ap) g'"
      by (auto simp: two(3,8) k nil)
    have "yields decode (turn_events close thinks tokens reason) g ((cs1 @ chunk_list c2) @ cs3) g'"
      using leads_trans [OF one(1) two(1)] three(1) by (simp add: leads_def turn_events_def Some)
    then show ?thesis using one(5-7) two(5-7) three(2-6) s1 s2
      by (intro exI [of _ "(cs1 @ chunk_list c2) @ cs3"] exI [of _ g'] exI [of _ e] exI [of _ f]) simp
  qed
qed


definition spoken_spec :: GenerationSpec where
  "spoken_spec = \<lparr>gs_prompt = [1], gs_max_tokens = 9, gs_stop = [lit ''.''], gs_thinking = True, gs_trim_spans = True,
    gs_tool_parser = Some (parser_new [])\<rparr>"

definition idle_state :: AppState where
  "idle_state = \<lparr>ap_next_id = 4, ap_clients = {}, ap_submit_waiters = 0, ap_think_close = Some 7\<rparr>"


end
