(* ===== verification/ChatFold.thy ===== *)
theory ChatFold
  imports ChatRender
begin

text \<open>
  Message content (\<open>xabe-server/src/http/chat.rs\<close>): the parts a client sends, folded to the text, reasoning, calls,
  results and images a prompt is made of. Deserialising parts (\<open>parts_of\<close>), reading JSON text (\<open>from_json\<close>) and
  reading an image from its bytes (in \<open>decode\<close>) are parameters. \<open>fold_part\<close>, \<open>fold_tool_result\<close> and
  \<open>fold_blocks\<close> of the source call each other; here the recursion goes through the list of parts. An error
  message is a constructor with its arguments.
\<close>

section \<open>Content\<close>

datatype ImageUrlField = Url rstr | UrlObject rstr

fun field_url :: "ImageUrlField \<Rightarrow> rstr" where
  "field_url (Url u) = u"
| "field_url (UrlObject u) = u"

record ImageSource =
  is_kind :: rstr
  is_data :: "rstr option"
  is_url :: "rstr option"

datatype 'n KnownPart =
    PartText rstr
  | InputText rstr
  | OutputText rstr
  | Thinking rstr
  | ReasoningText rstr
  | Refusal rstr
  | SummaryText rstr
  | ToolUse rstr "'n Value"
  | ToolResultPart "'n Value option"
  | ImageUrl ImageUrlField
  | Image ImageSource
  | InputImage "rstr option"

datatype 'n Part = Known "'n KnownPart" | Other "'n Value"

datatype 'n Content = ContentText rstr | Parts "'n Part list" | Single "'n Part"

record ('n, 'i) FoldedContent =
  fc_text :: rstr
  fc_thinking :: rstr
  fc_tool_calls :: "'n ParsedToolCall list"
  fc_tool_results :: "'i ToolResult list"
  fc_images :: "'i list"

definition folded_default :: "('n, 'i) FoldedContent" where
  "folded_default = \<lparr>fc_text = [], fc_thinking = [], fc_tool_calls = [], fc_tool_results = [], fc_images = []\<rparr>"

definition result_text :: "rstr \<Rightarrow> 'i ToolResult" where
  "result_text s = \<lparr>tr_text = s, tr_images = []\<rparr>"

datatype FoldError =
    InvalidBase64
  | Undecodable
  | TooManyPixels u32 u32
  | RemoteUrl rstr
  | NoComma
  | NotBase64
  | SourceNeedsData
  | SourceNeedsUrl
  | SourceType rstr
  | ImageNeedsUrl
  | UnreadablePart rstr
  | ResultContent
  | BlocksDoNotParse
  | ToolBlocksInResult
  | ToolBlocksHere
  | ImageMisplaced

section \<open>Images\<close>

text \<open>An image decoded to interleaved RGB (\<open>vision.rs\<close>); the base64 and image libraries are the parameters
  \<open>unbase64\<close> and \<open>load\<close>, the latter giving pixels, width and height.\<close>

record DecodedImage =
  di_rgb :: "u8 list"
  di_width :: u32
  di_height :: u32

definition MAX_DECODED_PIXELS :: u64 where
  "MAX_DECODED_PIXELS = 8192 * 8192"

definition decode_bytes :: "(u8 list \<Rightarrow> (u8 list \<times> u32 \<times> u32) option) \<Rightarrow> u8 list \<Rightarrow> FoldError + DecodedImage" where
  "decode_bytes load bytes =
    (case load bytes of
       None \<Rightarrow> Inl Undecodable
     | Some (rgb, width, height) \<Rightarrow>
         if MAX_DECODED_PIXELS < width * height then Inl (TooManyPixels width height)
         else Inr \<lparr>di_rgb = rgb, di_width = width, di_height = height\<rparr>)"

definition decode_base64_image ::
  "(rstr \<Rightarrow> u8 list option) \<Rightarrow> (u8 list \<Rightarrow> (u8 list \<times> u32 \<times> u32) option) \<Rightarrow> rstr \<Rightarrow> FoldError + DecodedImage" where
  "decode_base64_image unbase64 load s =
    (case unbase64 (trim s) of None \<Rightarrow> Inl InvalidBase64 | Some bytes \<Rightarrow> decode_bytes load bytes)"

definition IMAGE_MARKER :: rstr where
  "IMAGE_MARKER = lit ''<|vision_start|><|image_pad|><|vision_end|>''"

definition before_colon :: "rstr \<Rightarrow> rstr" where
  "before_colon url = takeWhile (\<lambda>c. c \<noteq> 58) url"

definition split_comma :: "rstr \<Rightarrow> (rstr \<times> rstr) option" where
  "split_comma s = (case dropWhile (\<lambda>c. c \<noteq> 44) s of [] \<Rightarrow> None | _ # r \<Rightarrow> Some (takeWhile (\<lambda>c. c \<noteq> 44) s, r))"

definition decode_image_url :: "(rstr \<Rightarrow> FoldError + 'i) \<Rightarrow> rstr \<Rightarrow> FoldError + 'i" where
  "decode_image_url decode url =
    (case strip_prefix (lit ''data:'') url of
       None \<Rightarrow> Inl (RemoteUrl (before_colon url))
     | Some rest \<Rightarrow>
         (case split_comma rest of
            None \<Rightarrow> Inl NoComma
          | Some (metadata, payload) \<Rightarrow>
              if \<not> ends_with (lit '';base64'') metadata then Inl NotBase64
              else decode payload))"

definition source_decode :: "(rstr \<Rightarrow> FoldError + 'i) \<Rightarrow> ImageSource \<Rightarrow> FoldError + 'i" where
  "source_decode decode src =
    (if is_kind src = lit ''base64''
     then (case is_data src of
         None \<Rightarrow> Inl SourceNeedsData
       | Some d \<Rightarrow> decode d)
     else if is_kind src = lit ''url''
     then (case is_url src of None \<Rightarrow> Inl SourceNeedsUrl | Some u \<Rightarrow> decode_image_url decode u)
     else Inl (SourceType (is_kind src)))"

section \<open>Folding\<close>

definition CONTENT_THIS_SERVER_CANNOT_READ :: "rstr list" where
  "CONTENT_THIS_SERVER_CANNOT_READ = map lit
    [''input_file'', ''file'', ''document'', ''input_audio'', ''audio'', ''output_audio'', ''container_upload'',
     ''video'', ''video_url'', ''input_video'']"

text \<open>Text joins the text before it on a line of its own.\<close>

definition add_line :: "rstr \<Rightarrow> rstr \<Rightarrow> rstr" where
  "add_line target s = (if target = [] then target else target @ [newline]) @ s"

definition add_text :: "rstr \<Rightarrow> ('n, 'i) FoldedContent \<Rightarrow> ('n, 'i) FoldedContent" where
  "add_text s fo = fo\<lparr>fc_text := add_line (fc_text fo) s\<rparr>"

definition add_image :: "FoldError + 'i \<Rightarrow> ('n, 'i) FoldedContent \<Rightarrow> FoldError + ('n, 'i) FoldedContent" where
  "add_image r fo = rbind r (\<lambda>i. Inr (add_text IMAGE_MARKER (fo\<lparr>fc_images := fc_images fo @ [i]\<rparr>)))"

definition replayed_input :: "(rstr \<Rightarrow> 'n Value option) \<Rightarrow> 'n Value \<Rightarrow> (rstr \<times> 'n Value) list" where
  "replayed_input from_json input =
    (case input of
       JObject kvs \<Rightarrow> kvs
     | JString s \<Rightarrow> (case Option.bind (from_json s) as_object of Some kvs \<Rightarrow> kvs | None \<Rightarrow> [])
     | _ \<Rightarrow> [])"

definition fold_other :: "'n Value \<Rightarrow> ('n, 'i) FoldedContent \<Rightarrow> FoldError + ('n, 'i) FoldedContent" where
  "fold_other v fo =
    (let kind = (case Option.bind (json_get v (lit ''type'')) as_str of Some k \<Rightarrow> k | None \<Rightarrow> lit ''(untyped)'')
     in if kind \<in> set CONTENT_THIS_SERVER_CANNOT_READ then Inl (UnreadablePart kind)
        else (case as_str v of
            Some s \<Rightarrow> Inr (add_text s fo)
          | None \<Rightarrow>
              (case Option.bind (json_get v (lit ''text'')) as_str of
                 Some s \<Rightarrow> Inr (add_text s fo)
               | None \<Rightarrow> Inr fo)))"

text \<open>Every part but a tool result.\<close>

definition fold_plain ::
  "(rstr \<Rightarrow> 'n Value option) \<Rightarrow> (rstr \<Rightarrow> FoldError + 'i) \<Rightarrow> 'n Part \<Rightarrow> ('n, 'i) FoldedContent
    \<Rightarrow> FoldError + ('n, 'i) FoldedContent" where
  "fold_plain from_json decode part fo =
    (case part of
       Known (PartText s) \<Rightarrow> Inr (add_text s fo)
     | Known (InputText s) \<Rightarrow> Inr (add_text s fo)
     | Known (OutputText s) \<Rightarrow> Inr (add_text s fo)
     | Known (Refusal s) \<Rightarrow> Inr (add_text s fo)
     | Known (Thinking s) \<Rightarrow> Inr (fo\<lparr>fc_thinking := add_line (fc_thinking fo) s\<rparr>)
     | Known (ReasoningText s) \<Rightarrow> Inr (fo\<lparr>fc_thinking := add_line (fc_thinking fo) s\<rparr>)
     | Known (SummaryText s) \<Rightarrow> Inr (fo\<lparr>fc_thinking := add_line (fc_thinking fo) s\<rparr>)
     | Known (ToolUse name input) \<Rightarrow>
         Inr (fo\<lparr>fc_tool_calls := fc_tool_calls fo @ [\<lparr>pc_name = name, pc_arguments = replayed_input from_json input\<rparr>]\<rparr>)
     | Known (ToolResultPart _) \<Rightarrow> Inr fo
     | Known (ImageUrl u) \<Rightarrow> add_image (decode_image_url decode (field_url u)) fo
     | Known (Image src) \<Rightarrow> add_image (source_decode decode src) fo
     | Known (InputImage u) \<Rightarrow>
         (case u of None \<Rightarrow> Inl ImageNeedsUrl | Some u \<Rightarrow> add_image (decode_image_url decode u) fo)
     | Other v \<Rightarrow> fold_other v fo)"

text \<open>What a list of blocks folded to, as one tool result.\<close>

definition as_result :: "FoldError + ('n, 'i) FoldedContent \<Rightarrow> FoldError + 'i ToolResult" where
  "as_result r = rbind r (\<lambda>f.
    if fc_tool_calls f \<noteq> [] \<or> fc_tool_results f \<noteq> [] then Inl ToolBlocksInResult
    else Inr \<lparr>tr_text = fc_text f, tr_images = fc_images f\<rparr>)"

partial_function (option) fold_parts ::
  "('n Value list \<Rightarrow> 'n Part list option) \<Rightarrow> (rstr \<Rightarrow> 'n Value option) \<Rightarrow> (rstr \<Rightarrow> FoldError + 'i) \<Rightarrow> 'n Part list
    \<Rightarrow> ('n, 'i) FoldedContent \<Rightarrow> (FoldError + ('n, 'i) FoldedContent) option" where
  [code]: "fold_parts parts_of from_json decode parts fo =
    (case parts of
       [] \<Rightarrow> Some (Inr fo)
     | part # rest \<Rightarrow> do {
         r \<leftarrow> (case part of
             Known (ToolResultPart content) \<Rightarrow> do {
               result \<leftarrow> (case content of
                   None \<Rightarrow> Some (Inr (result_text []))
                 | Some (JString s) \<Rightarrow> Some (Inr (result_text s))
                 | Some (JArray blocks) \<Rightarrow>
                     (case parts_of blocks of
                        None \<Rightarrow> Some (Inl BlocksDoNotParse)
                      | Some ps \<Rightarrow> do {
                          f \<leftarrow> fold_parts parts_of from_json decode ps folded_default;
                          Some (as_result f)
                        })
                 | Some _ \<Rightarrow> Some (Inl ResultContent));
               Some (rbind result (\<lambda>res. Inr (fo\<lparr>fc_tool_results := fc_tool_results fo @ [res]\<rparr>)))
             }
           | _ \<Rightarrow> Some (fold_plain from_json decode part fo));
         (case r of Inl e \<Rightarrow> Some (Inl e) | Inr fo \<Rightarrow> fold_parts parts_of from_json decode rest fo)
       })"

definition fold_blocks ::
  "('n Value list \<Rightarrow> 'n Part list option) \<Rightarrow> (rstr \<Rightarrow> 'n Value option) \<Rightarrow> (rstr \<Rightarrow> FoldError + 'i) \<Rightarrow> 'n Value list
    \<Rightarrow> (FoldError + 'i ToolResult) option" where
  "fold_blocks parts_of from_json decode blocks =
    (case parts_of blocks of
       None \<Rightarrow> Some (Inl BlocksDoNotParse)
     | Some ps \<Rightarrow> do { f \<leftarrow> fold_parts parts_of from_json decode ps folded_default; Some (as_result f) })"

definition fold_tool_result ::
  "('n Value list \<Rightarrow> 'n Part list option) \<Rightarrow> (rstr \<Rightarrow> 'n Value option) \<Rightarrow> (rstr \<Rightarrow> FoldError + 'i) \<Rightarrow> 'n Value option
    \<Rightarrow> (FoldError + 'i ToolResult) option" where
  "fold_tool_result parts_of from_json decode content =
    (case content of
       None \<Rightarrow> Some (Inr (result_text []))
     | Some (JString s) \<Rightarrow> Some (Inr (result_text s))
     | Some (JArray blocks) \<Rightarrow> fold_blocks parts_of from_json decode blocks
     | Some _ \<Rightarrow> Some (Inl ResultContent))"

definition fold_part ::
  "('n Value list \<Rightarrow> 'n Part list option) \<Rightarrow> (rstr \<Rightarrow> 'n Value option) \<Rightarrow> (rstr \<Rightarrow> FoldError + 'i) \<Rightarrow> 'n Part
    \<Rightarrow> ('n, 'i) FoldedContent \<Rightarrow> (FoldError + ('n, 'i) FoldedContent) option" where
  "fold_part parts_of from_json decode part fo =
    (case part of
       Known (ToolResultPart content) \<Rightarrow> do {
         result \<leftarrow> fold_tool_result parts_of from_json decode content;
         Some (rbind result (\<lambda>res. Inr (fo\<lparr>fc_tool_results := fc_tool_results fo @ [res]\<rparr>)))
       }
     | _ \<Rightarrow> Some (fold_plain from_json decode part fo))"

definition content_fold ::
  "('n Value list \<Rightarrow> 'n Part list option) \<Rightarrow> (rstr \<Rightarrow> 'n Value option) \<Rightarrow> (rstr \<Rightarrow> FoldError + 'i) \<Rightarrow> 'n Content
    \<Rightarrow> (FoldError + ('n, 'i) FoldedContent) option" where
  "content_fold parts_of from_json decode content =
    (case content of
       ContentText s \<Rightarrow> Some (Inr (folded_default\<lparr>fc_text := s\<rparr>))
     | Single part \<Rightarrow> fold_parts parts_of from_json decode [part] folded_default
     | Parts parts \<Rightarrow> fold_parts parts_of from_json decode parts folded_default)"

definition content_split ::
  "('n Value list \<Rightarrow> 'n Part list option) \<Rightarrow> (rstr \<Rightarrow> 'n Value option) \<Rightarrow> (rstr \<Rightarrow> FoldError + 'i) \<Rightarrow> 'n Content
    \<Rightarrow> (FoldError + rstr \<times> rstr) option" where
  "content_split parts_of from_json decode content = do {
     r \<leftarrow> content_fold parts_of from_json decode content;
     Some (rbind r (\<lambda>f.
       if fc_tool_calls f \<noteq> [] \<or> fc_tool_results f \<noteq> [] then Inl ToolBlocksHere
       else if fc_images f \<noteq> [] then Inl ImageMisplaced
       else Inr (fc_text f, fc_thinking f)))
   }"

definition content_text ::
  "('n Value list \<Rightarrow> 'n Part list option) \<Rightarrow> (rstr \<Rightarrow> 'n Value option) \<Rightarrow> (rstr \<Rightarrow> FoldError + 'i) \<Rightarrow> 'n Content
    \<Rightarrow> (FoldError + rstr) option" where
  "content_text parts_of from_json decode content = do {
     r \<leftarrow> content_split parts_of from_json decode content;
     Some (rbind r (\<lambda>(s, _). Inr s))
   }"

definition is_content_blocks :: "'n Value list \<Rightarrow> bool" where
  "is_content_blocks values \<longleftrightarrow>
    values \<noteq> [] \<and> list_all (\<lambda>v. Option.bind (json_get v (lit ''type'')) as_str \<noteq> None) values"


section \<open>How folding goes\<close>

lemma fold_parts_Nil: "fold_parts parts_of from_json decode [] fo = Some (Inr fo)"
  by (subst fold_parts.simps) simp

lemma fold_parts_Cons: "fold_parts parts_of from_json decode (part # rest) fo =
    do { r \<leftarrow> fold_part parts_of from_json decode part fo;
         (case r of Inl e \<Rightarrow> Some (Inl e) | Inr fo \<Rightarrow> fold_parts parts_of from_json decode rest fo) }"
proof -
  have "(case content of None \<Rightarrow> Some (Inr (result_text [])) | Some (JString s) \<Rightarrow> Some (Inr (result_text s))
      | Some (JArray blocks) \<Rightarrow> (case parts_of blocks of None \<Rightarrow> Some (Inl BlocksDoNotParse)
          | Some ps \<Rightarrow> do { f \<leftarrow> fold_parts parts_of from_json decode ps folded_default; Some (as_result f) })
      | Some _ \<Rightarrow> Some (Inl ResultContent)) = fold_tool_result parts_of from_json decode content" for content
    by (simp add: fold_tool_result_def fold_blocks_def split: option.split Value.split)
  then show ?thesis
    by (subst fold_parts.simps) (simp add: fold_part_def split: Part.split KnownPart.split)
qed

text \<open>Deserialised blocks are part of what they were read from, so folding ends.\<close>

definition shrinks :: "('n Value list \<Rightarrow> 'n Part list option) \<Rightarrow> bool" where
  "shrinks parts_of \<longleftrightarrow> (\<forall>vs ps v. parts_of vs = Some ps \<longrightarrow> Known (ToolResultPart (Some v)) \<in> set ps \<longrightarrow> size v < size (JArray vs))"

lemma fold_parts_total:
  assumes sh: "shrinks parts_of"
  shows "(\<And>v. Known (ToolResultPart (Some v)) \<in> set ps \<Longrightarrow> size v < n) \<Longrightarrow>
    \<exists>r. fold_parts parts_of from_json decode ps fo = Some r"
proof (induction n arbitrary: ps fo)
  case 0
  then show ?case
  proof (induction ps arbitrary: fo)
    case (Cons p ps)
    have "p \<noteq> Known (ToolResultPart (Some v))" for v using Cons.prems [of v] by auto
    then have "\<exists>r. fold_part parts_of from_json decode p fo = Some r"
      by (auto simp: fold_part_def fold_tool_result_def split: Part.split KnownPart.split option.split)
    moreover have "\<exists>r. fold_parts parts_of from_json decode ps fo' = Some r" for fo'
      by (rule Cons.IH) (use Cons.prems in auto)
    ultimately show ?case by (auto simp: fold_parts_Cons split: sum.split)
  qed (simp add: fold_parts_Nil)
next
  case (Suc n)
  show ?case using Suc.prems
  proof (induction ps arbitrary: fo)
    case (Cons p ps)
    have "\<exists>r. fold_part parts_of from_json decode p fo = Some r"
    proof (cases "\<exists>blocks qs. p = Known (ToolResultPart (Some (JArray blocks))) \<and> parts_of blocks = Some qs")
      case True
      then obtain blocks qs where p: "p = Known (ToolResultPart (Some (JArray blocks)))" "parts_of blocks = Some qs" by blast
      have "size v < n" if "Known (ToolResultPart (Some v)) \<in> set qs" for v
        using sh p(2) that Cons.prems [of "JArray blocks"] p(1) by (fastforce simp: shrinks_def)
      from Suc.IH [OF this, of qs folded_default] show ?thesis
        by (auto simp: p fold_part_def fold_tool_result_def fold_blocks_def)
    next
      case False
      then show ?thesis
        by (auto simp: fold_part_def fold_tool_result_def fold_blocks_def
            split: Part.split KnownPart.split option.split Value.split)
    qed
    moreover have "\<exists>r. fold_parts parts_of from_json decode ps fo' = Some r" for fo'
      by (rule Cons.IH) (use Cons.prems in auto)
    ultimately show ?case by (auto simp: fold_parts_Cons split: sum.split)
  qed (simp add: fold_parts_Nil)
qed

lemma content_fold_total:
  assumes "shrinks parts_of"
  shows "\<exists>r. content_fold parts_of from_json decode content = Some r"
proof -
  have "\<exists>r. fold_parts parts_of from_json decode ps folded_default = Some r" for ps
  proof -
    define n where "n = Suc (sum_list (map (\<lambda>p. case p of Known (ToolResultPart (Some v)) \<Rightarrow> size v | _ \<Rightarrow> 0) ps))"
    have "size v < n" if "Known (ToolResultPart (Some v)) \<in> set ps" for v
      using member_le_sum_list [of "size v" "map (\<lambda>p. case p of Known (ToolResultPart (Some v)) \<Rightarrow> size v | _ \<Rightarrow> 0) ps"] that
      by (force simp: n_def)
    then show ?thesis by (rule fold_parts_total [OF assms])
  qed
  then show ?thesis by (cases content) (auto simp: content_fold_def)
qed

end
