(* ===== verification/ChatRequest.thy ===== *)
theory ChatRequest
  imports ChatFold
begin

text \<open>
  The requests of the three dialects and the conversation each becomes (\<open>xabe-server/src/http/anthropic.rs\<close>,
  \<open>openai.rs\<close>, \<open>responses.rs\<close>). Sampling fields are left out. \<open>None\<close> is folding that does not return, which
  \<open>content_fold_total\<close> excludes.
\<close>

section \<open>Errors and readers\<close>

datatype RequestError =
    Folding FoldError
  | ResultsInAssistant
  | MisplacedImage
  | UnsupportedRole rstr
  | NoMessages
  | UnsupportedToolChoice rstr
  | CallNeedsName
  | CallArguments rstr
  | ItemNeedsName
  | ItemArguments rstr
  | UnsupportedItem rstr
  | ItemNeedsRole
  | ShapeChanging rstr
  | PromptBatch
  | PreviousResponse

text \<open>What the libraries read and write: parts and JSON text, images, and a value's JSON text.\<close>

record ('n, 'i) Readers =
  rd_parts :: "'n Value list \<Rightarrow> 'n Part list option"
  rd_json :: "rstr \<Rightarrow> 'n Value option"
  rd_image :: "rstr \<Rightarrow> FoldError + 'i"
  rd_write :: "'n Value \<Rightarrow> rstr"

definition ebind :: "('e + 'a) option \<Rightarrow> ('a \<Rightarrow> ('e + 'b) option) \<Rightarrow> ('e + 'b) option" where
  "ebind r f = do { x \<leftarrow> r; (case x of Inl e \<Rightarrow> Some (Inl e) | Inr y \<Rightarrow> f y) }"

lemma ebind_simps [simp]: "ebind (Some (Inr x)) f = f x" "ebind (Some (Inl e)) f = Some (Inl e)" "ebind None f = None"
  by (simp_all add: ebind_def)

lemma ebind_Inr: "ebind r f = Some (Inr y) \<longleftrightarrow> (\<exists>x. r = Some (Inr x) \<and> f x = Some (Inr y))"
  by (cases r) (auto simp: ebind_def split: sum.splits)

definition map_error :: "('e \<Rightarrow> 'f) \<Rightarrow> 'e + 'a \<Rightarrow> 'f + 'a" where
  "map_error f r = (case r of Inl e \<Rightarrow> Inl (f e) | Inr x \<Rightarrow> Inr x)"

lemma map_error_Inr [simp]: "map_error f r = Inr x \<longleftrightarrow> r = Inr x"
  by (auto simp: map_error_def split: sum.splits)

definition read_content :: "('n, 'i) Readers \<Rightarrow> 'n Content \<Rightarrow> (RequestError + ('n, 'i) FoldedContent) option" where
  "read_content rd content =
    map_option (map_error Folding) (content_fold (rd_parts rd) (rd_json rd) (rd_image rd) content)"

text \<open>Absent content folds to nothing.\<close>

definition read_optional :: "('n, 'i) Readers \<Rightarrow> 'n Content option \<Rightarrow> (RequestError + ('n, 'i) FoldedContent) option" where
  "read_optional rd content = (case content of None \<Rightarrow> Some (Inr folded_default) | Some c \<Rightarrow> read_content rd c)"

definition push_results :: "'i ToolResult list \<Rightarrow> ('n, 'i) Conversation \<Rightarrow> ('n, 'i) Conversation" where
  "push_results results cv = fold push_tool_result results cv"

definition push_turn :: "'n Turn \<Rightarrow> ('n, 'i) Conversation \<Rightarrow> ('n, 'i) Conversation" where
  "push_turn turn cv = cv\<lparr>cv_turns := cv_turns cv @ [turn]\<rparr>"

definition push_images :: "'i list \<Rightarrow> ('n, 'i) Conversation \<Rightarrow> ('n, 'i) Conversation" where
  "push_images images cv = cv\<lparr>cv_images := cv_images cv @ images\<rparr>"

text \<open>Another line of the system text.\<close>

definition push_system :: "rstr \<Rightarrow> ('n, 'i) Conversation \<Rightarrow> ('n, 'i) Conversation" where
  "push_system s cv = cv\<lparr>cv_system := Some (add_line (case cv_system cv of Some t \<Rightarrow> t | None \<Rightarrow> []) s)\<rparr>"

definition empty_conversation :: "('n, 'i) Conversation" where
  "empty_conversation = \<lparr>cv_system = None, cv_turns = [], cv_tools = [], cv_images = []\<rparr>"

definition with_messages :: "('n, 'i) Conversation \<Rightarrow> RequestError + ('n, 'i) Conversation" where
  "with_messages cv = (if cv_turns cv = [] then Inl NoMessages else Inr cv)"

section \<open>Anthropic\<close>

record 'n Message =
  ms_role :: rstr
  ms_content :: "'n Content"

record 'n MessagesRequest =
  mr_messages :: "'n Message list"
  mr_max_tokens :: u32
  mr_system :: "'n Content option"
  mr_stop_sequences :: "rstr list"
  mr_stream :: bool
  mr_model :: "rstr option"
  mr_thinking :: "rstr option"
  mr_tools :: "'n Value list option"
  mr_tool_choice :: "'n Value option"

definition anthropic_thinking_enabled :: "'n MessagesRequest \<Rightarrow> bool \<Rightarrow> bool" where
  "anthropic_thinking_enabled request fallback =
    (case mr_thinking request of None \<Rightarrow> fallback | Some kind \<Rightarrow> kind \<noteq> lit ''disabled'')"

definition anthropic_tools_offered :: "'n MessagesRequest \<Rightarrow> RequestError + bool" where
  "anthropic_tools_offered request =
    (case mr_tool_choice request of
       None \<Rightarrow> Inr True
     | Some v \<Rightarrow>
         (let choice = (case as_str v of
                Some s \<Rightarrow> s
              | None \<Rightarrow> (case Option.bind (json_get v (lit ''type'')) as_str of Some s \<Rightarrow> s | None \<Rightarrow> []))
          in if choice = [] \<or> choice = lit ''auto'' then Inr True
             else if choice = lit ''none'' then Inr False
             else Inl (UnsupportedToolChoice choice)))"

definition anthropic_turn ::
  "rstr \<Rightarrow> ('n, 'i) FoldedContent \<Rightarrow> ('n, 'i) Conversation \<Rightarrow> RequestError + ('n, 'i) Conversation" where
  "anthropic_turn role f cv =
    (if role = lit ''user'' then
       (let only_results = (fc_tool_results f \<noteq> [] \<and> fc_text f = []);
            cv = push_results (fc_tool_results f) cv
        in Inr (if only_results then cv else push_turn (User (fc_text f)) (push_images (fc_images f) cv)))
     else if role = lit ''assistant'' then
       (if fc_tool_results f \<noteq> [] then Inl ResultsInAssistant
        else if fc_images f \<noteq> [] then Inl MisplacedImage
        else Inr (push_turn (Assistant (fc_thinking f) (fc_text f) (fc_tool_calls f)) cv))
     else if role = lit ''tool'' then
       (let cv = push_results (fc_tool_results f) cv
        in Inr (if fc_text f \<noteq> [] then push_tool_result \<lparr>tr_text = fc_text f, tr_images = fc_images f\<rparr> cv else cv))
     else if role = lit ''system'' \<or> role = lit ''developer'' then
       Inr (if cv_turns cv = [] then push_system (fc_text f) cv else push_turn (System (fc_text f)) cv)
     else Inl (UnsupportedRole role))"

fun anthropic_turns ::
  "('n, 'i) Readers \<Rightarrow> 'n Message list \<Rightarrow> ('n, 'i) Conversation \<Rightarrow> (RequestError + ('n, 'i) Conversation) option" where
  "anthropic_turns rd [] cv = Some (Inr cv)"
| "anthropic_turns rd (m # ms) cv =
    ebind (read_content rd (ms_content m)) (\<lambda>f.
      ebind (Some (anthropic_turn (ms_role m) f cv)) (anthropic_turns rd ms))"

definition anthropic_conversation ::
  "('n, 'i) Readers \<Rightarrow> 'n MessagesRequest \<Rightarrow> (RequestError + ('n, 'i) Conversation) option" where
  "anthropic_conversation rd request =
    ebind (case mr_system request of
        None \<Rightarrow> Some (Inr None)
      | Some c \<Rightarrow> map_option (\<lambda>r. map_error Folding (rbind r (\<lambda>s. Inr (Some s))))
          (content_text (rd_parts rd) (rd_json rd) (rd_image rd) c)) (\<lambda>system.
      ebind (anthropic_turns rd (mr_messages request) (empty_conversation\<lparr>cv_system := system\<rparr>)) (\<lambda>cv.
        Some (with_messages cv)))"

section \<open>OpenAI chat\<close>

record 'n ChatMessage =
  cm_role :: rstr
  cm_content :: "'n Content option"
  cm_reasoning_content :: "rstr option"
  cm_tool_calls :: "'n Value list option"

definition openai_tools_offered :: "'n Value option \<Rightarrow> RequestError + bool" where
  "openai_tools_offered choice =
    (case choice of
       None \<Rightarrow> Inr True
     | Some (JString s) \<Rightarrow>
         (if s = lit ''auto'' then Inr True
          else if s = lit ''none'' then Inr False
          else Inl (UnsupportedToolChoice s))
     | Some _ \<Rightarrow> Inl (UnsupportedToolChoice (lit ''a named function'')))"

definition call_arguments :: "('n, 'i) Readers \<Rightarrow> rstr \<Rightarrow> 'n Value option \<Rightarrow> RequestError + (rstr \<times> 'n Value) list" where
  "call_arguments rd name arguments =
    (case arguments of
       None \<Rightarrow> Inr []
     | Some JNull \<Rightarrow> Inr []
     | Some (JString s) \<Rightarrow>
         (if trim s = [] then Inr []
          else (case Option.bind (rd_json rd s) as_object of Some kvs \<Rightarrow> Inr kvs | None \<Rightarrow> Inl (CallArguments name)))
     | Some (JObject kvs) \<Rightarrow> Inr kvs
     | Some _ \<Rightarrow> Inl (CallArguments name))"

definition replayed_call :: "('n, 'i) Readers \<Rightarrow> 'n Value \<Rightarrow> RequestError + 'n ParsedToolCall" where
  "replayed_call rd v =
    (let fn = (case json_get v (lit ''function'') of Some f \<Rightarrow> f | None \<Rightarrow> v)
     in case Option.bind (json_get fn (lit ''name'')) as_str of
          None \<Rightarrow> Inl CallNeedsName
        | Some name \<Rightarrow>
            if name = [] then Inl CallNeedsName
            else rbind (call_arguments rd name (json_get fn (lit ''arguments''))) (\<lambda>arguments.
              Inr \<lparr>pc_name = name, pc_arguments = arguments\<rparr>))"

fun replayed_calls :: "('n, 'i) Readers \<Rightarrow> 'n Value list \<Rightarrow> RequestError + 'n ParsedToolCall list" where
  "replayed_calls rd [] = Inr []"
| "replayed_calls rd (v # vs) = rbind (replayed_call rd v) (\<lambda>c. rbind (replayed_calls rd vs) (\<lambda>cs. Inr (c # cs)))"

definition replayed_tool_calls :: "('n, 'i) Readers \<Rightarrow> 'n Value list option \<Rightarrow> RequestError + 'n ParsedToolCall list" where
  "replayed_tool_calls rd raw = replayed_calls rd (case raw of Some vs \<Rightarrow> vs | None \<Rightarrow> [])"

text \<open>The state is the conversation and the system texts before its first turn.\<close>

definition openai_turn ::
  "('n, 'i) Readers \<Rightarrow> 'n ChatMessage \<Rightarrow> ('n, 'i) FoldedContent \<Rightarrow> ('n, 'i) Conversation \<times> rstr list
    \<Rightarrow> RequestError + (('n, 'i) Conversation \<times> rstr list)" where
  "openai_turn rd m f st =
    (let (cv, system) = st;
         cv = push_results (fc_tool_results f) cv;
         role = cm_role m
     in if fc_images f \<noteq> [] \<and> role \<noteq> lit ''user'' \<and> role \<noteq> lit ''tool'' then Inl MisplacedImage
        else if role = lit ''system'' \<or> role = lit ''developer'' then
          Inr (if cv_turns cv = [] then (cv, system @ [fc_text f]) else (push_turn (System (fc_text f)) cv, system))
        else if role = lit ''user'' then
          (let cv = push_images (fc_images f) cv
           in Inr (if fc_text f \<noteq> [] then push_turn (User (fc_text f)) cv else cv, system))
        else if role = lit ''assistant'' then
          rbind (replayed_tool_calls rd (cm_tool_calls m)) (\<lambda>calls.
            Inr (push_turn (Assistant (case cm_reasoning_content m of Some r \<Rightarrow> r | None \<Rightarrow> fc_thinking f) (fc_text f)
              (calls @ fc_tool_calls f)) cv, system))
        else if role = lit ''tool'' then
          Inr (push_tool_result \<lparr>tr_text = fc_text f, tr_images = fc_images f\<rparr> cv, system)
        else Inl (UnsupportedRole role))"

fun openai_turns ::
  "('n, 'i) Readers \<Rightarrow> 'n ChatMessage list \<Rightarrow> ('n, 'i) Conversation \<times> rstr list
    \<Rightarrow> (RequestError + (('n, 'i) Conversation \<times> rstr list)) option" where
  "openai_turns rd [] st = Some (Inr st)"
| "openai_turns rd (m # ms) st =
    ebind (read_optional rd (cm_content m)) (\<lambda>f. ebind (Some (openai_turn rd m f st)) (openai_turns rd ms))"

definition openai_conversation ::
  "('n, 'i) Readers \<Rightarrow> 'n ChatMessage list \<Rightarrow> (RequestError + ('n, 'i) Conversation) option" where
  "openai_conversation rd msgs =
    ebind (openai_turns rd msgs (empty_conversation, [])) (\<lambda>(cv, system).
      Some (with_messages (if system \<noteq> [] then cv\<lparr>cv_system := Some (intercalate [newline] system)\<rparr> else cv)))"

text \<open>\<open>stop\<close> is a string or a list of strings; empty ones are dropped.\<close>

datatype Stop = One rstr | Many "rstr list"

fun into_vec :: "Stop \<Rightarrow> rstr list" where
  "into_vec (One s) = [s]"
| "into_vec (Many ss) = ss"

definition stop_sequences :: "Stop option \<Rightarrow> rstr list" where
  "stop_sequences stop = filter (\<lambda>s. s \<noteq> []) (case stop of Some s \<Rightarrow> into_vec s | None \<Rightarrow> [])"

definition reject_shape_changing :: "nat option \<Rightarrow> nat option \<Rightarrow> RequestError + unit" where
  "reject_shape_changing n best_of =
    (if (case n of Some v \<Rightarrow> 1 < v | None \<Rightarrow> False) then Inl (ShapeChanging (lit ''n''))
     else if (case best_of of Some v \<Rightarrow> 1 < v | None \<Rightarrow> False) then Inl (ShapeChanging (lit ''best_of''))
     else Inr ())"

section \<open>OpenAI responses\<close>

record 'n InputItem =
  ii_kind :: "rstr option"
  ii_role :: "rstr option"
  ii_content :: "'n Content option"
  ii_name :: "rstr option"
  ii_arguments :: "rstr option"
  ii_output :: "'n Value option"
  ii_summary :: "'n Content option"

datatype 'n Input = InputString rstr | Items "'n InputItem list"

record 'n ResponsesRequest =
  rr_input :: "'n Input"
  rr_instructions :: "rstr option"
  rr_system :: "rstr option"
  rr_reasoning_effort :: "rstr option"
  rr_tools :: "'n Value list option"
  rr_tool_choice :: "'n Value option"
  rr_parallel_tool_calls :: "bool option"
  rr_previous_response_id :: "rstr option"

definition responses_thinking_enabled :: "'n ResponsesRequest \<Rightarrow> bool \<Rightarrow> bool" where
  "responses_thinking_enabled request fallback =
    (case rr_reasoning_effort request of
       None \<Rightarrow> fallback
     | Some effort \<Rightarrow> \<not> (effort = lit ''none'' \<or> effort = lit ''minimal''))"

definition namespaces :: "'n ResponsesRequest \<Rightarrow> rstr list" where
  "namespaces request =
    List.map_filter (\<lambda>tool. Option.bind (json_get tool (lit ''name'')) as_str)
      (filter (\<lambda>tool. Option.bind (json_get tool (lit ''type'')) as_str = Some (lit ''namespace''))
        (case rr_tools request of Some ts \<Rightarrow> ts | None \<Rightarrow> []))"

definition last_turn :: "('n, 'i) Conversation \<Rightarrow> 'n Turn option" where
  "last_turn cv = (if cv_turns cv = [] then None else Some (last (cv_turns cv)))"

definition set_last :: "'n Turn \<Rightarrow> ('n, 'i) Conversation \<Rightarrow> ('n, 'i) Conversation" where
  "set_last turn cv = cv\<lparr>cv_turns := butlast (cv_turns cv) @ [turn]\<rparr>"

definition call_item :: "('n, 'i) Readers \<Rightarrow> 'n InputItem \<Rightarrow> ('n, 'i) Conversation \<Rightarrow> RequestError + ('n, 'i) Conversation" where
  "call_item rd item cv =
    (case ii_name item of
       None \<Rightarrow> Inl ItemNeedsName
     | Some name \<Rightarrow>
         if name = [] then Inl ItemNeedsName
         else rbind (case ii_arguments item of
               None \<Rightarrow> Inr []
             | Some s \<Rightarrow>
                 if s = [] then Inr []
                 else (case Option.bind (rd_json rd s) as_object of Some kvs \<Rightarrow> Inr kvs | None \<Rightarrow> Inl (ItemArguments name)))
           (\<lambda>arguments.
             (let call = \<lparr>pc_name = name, pc_arguments = arguments\<rparr>
              in Inr (case last_turn cv of
                  Some (Assistant reasoning content calls) \<Rightarrow> set_last (Assistant reasoning content (calls @ [call])) cv
                | _ \<Rightarrow> push_turn (Assistant [] [] [call]) cv))))"

definition output_item :: "('n, 'i) Readers \<Rightarrow> 'n InputItem \<Rightarrow> (RequestError + 'i ToolResult) option" where
  "output_item rd item =
    (case ii_output item of
       None \<Rightarrow> Some (Inr (result_text []))
     | Some (JString s) \<Rightarrow> Some (Inr (result_text s))
     | Some (JArray blocks) \<Rightarrow>
         (if is_content_blocks blocks
          then map_option (map_error Folding) (fold_blocks (rd_parts rd) (rd_json rd) (rd_image rd) blocks)
          else Some (Inr (result_text (rd_write rd (JArray blocks)))))
     | Some other \<Rightarrow> Some (Inr (result_text (rd_write rd other))))"

text \<open>The pieces that are not empty, on lines of their own.\<close>

definition add_piece_line :: "rstr \<Rightarrow> rstr \<Rightarrow> rstr" where
  "add_piece_line thinking part = (if part = [] then thinking else add_line thinking part)"

fun reasoning_text :: "('n, 'i) Readers \<Rightarrow> 'n Content list \<Rightarrow> rstr \<Rightarrow> (RequestError + rstr) option" where
  "reasoning_text rd [] thinking = Some (Inr thinking)"
| "reasoning_text rd (c # cs) thinking =
    ebind (read_content rd c) (\<lambda>f.
      reasoning_text rd cs (add_piece_line (add_piece_line thinking (fc_thinking f)) (fc_text f)))"

definition flatten_options :: "'a option list \<Rightarrow> 'a list" where
  "flatten_options xs = List.map_filter id xs"

definition push_reasoning :: "rstr \<Rightarrow> ('n, 'i) Conversation \<Rightarrow> ('n, 'i) Conversation" where
  "push_reasoning thinking cv =
    (if thinking = [] then cv
     else (case last_turn cv of
         Some (Assistant reasoning content calls) \<Rightarrow>
           (if reasoning = [] then set_last (Assistant thinking content calls) cv
            else push_turn (Assistant thinking [] []) cv)
       | _ \<Rightarrow> push_turn (Assistant thinking [] []) cv))"

definition message_item_turn ::
  "'n InputItem \<Rightarrow> ('n, 'i) FoldedContent \<Rightarrow> ('n, 'i) Conversation \<Rightarrow> RequestError + ('n, 'i) Conversation" where
  "message_item_turn item f cv =
    (let cv = push_results (fc_tool_results f) cv
     in if fc_images f \<noteq> [] \<and> ii_role item \<noteq> Some (lit ''user'') then Inl MisplacedImage
        else (case ii_role item of
            None \<Rightarrow> Inl ItemNeedsRole
          | Some role \<Rightarrow>
              if role = lit ''system'' \<or> role = lit ''developer'' then
                Inr (if cv_turns cv = [] then push_system (fc_text f) cv else push_turn (System (fc_text f)) cv)
              else if role = lit ''user'' then
                (let cv = push_images (fc_images f) cv
                 in Inr (if fc_text f \<noteq> [] then push_turn (User (fc_text f)) cv else cv))
              else if role = lit ''assistant'' then
                Inr (case last_turn cv of
                    Some (Assistant reasoning content calls) \<Rightarrow>
                      set_last (Assistant (if reasoning = [] then fc_thinking f else reasoning)
                        (if fc_text f = [] then content else add_line content (fc_text f)) (calls @ fc_tool_calls f)) cv
                  | _ \<Rightarrow> push_turn (Assistant (fc_thinking f) (fc_text f) (fc_tool_calls f)) cv)
              else Inl (UnsupportedRole role)))"

definition skipped_kind :: "rstr \<Rightarrow> bool" where
  "skipped_kind kind \<longleftrightarrow> ends_with (lit ''_call'') kind \<or> ends_with (lit ''_call_output'') kind \<or> starts_with (lit ''mcp_'') kind"

definition input_item ::
  "('n, 'i) Readers \<Rightarrow> 'n InputItem \<Rightarrow> ('n, 'i) Conversation \<Rightarrow> (RequestError + ('n, 'i) Conversation) option" where
  "input_item rd item cv =
    (case ii_kind item of
       None \<Rightarrow> ebind (read_optional rd (ii_content item)) (\<lambda>f. Some (message_item_turn item f cv))
     | Some kind \<Rightarrow>
         if kind = lit ''message'' then ebind (read_optional rd (ii_content item)) (\<lambda>f. Some (message_item_turn item f cv))
         else if kind = lit ''function_call'' then Some (call_item rd item cv)
         else if kind = lit ''function_call_output'' then
           ebind (output_item rd item) (\<lambda>result. Some (Inr (push_tool_result result cv)))
         else if kind = lit ''reasoning'' then
           ebind (reasoning_text rd (flatten_options [ii_content item, ii_summary item]) [])
             (\<lambda>thinking. Some (Inr (push_reasoning thinking cv)))
         else if skipped_kind kind then Some (Inr cv)
         else Some (Inl (UnsupportedItem kind)))"

fun input_items ::
  "('n, 'i) Readers \<Rightarrow> 'n InputItem list \<Rightarrow> ('n, 'i) Conversation \<Rightarrow> (RequestError + ('n, 'i) Conversation) option" where
  "input_items rd [] cv = Some (Inr cv)"
| "input_items rd (item # items) cv = ebind (input_item rd item cv) (input_items rd items)"

definition responses_conversation ::
  "('n, 'i) Readers \<Rightarrow> 'n ResponsesRequest \<Rightarrow> (RequestError + ('n, 'i) Conversation) option" where
  "responses_conversation rd request =
    (let cv = empty_conversation\<lparr>cv_system := or_else (rr_instructions request) (rr_system request)\<rparr>
     in ebind (case rr_input request of
          InputString s \<Rightarrow> Some (Inr (push_turn (User s) cv))
        | Items items \<Rightarrow> input_items rd items cv) (\<lambda>cv. Some (with_messages cv)))"

end
