(* ===== verification/ServedReply.thy ===== *)
theory ServedReply
  imports ChatRender Generate
begin

text \<open>
  What the server answers, whole and as an event stream, in the three dialects (\<open>xabe-server/src/http/anthropic.rs\<close>,
  \<open>openai.rs\<close>, \<open>responses.rs\<close>). An event is a constructor with the fields its JSON carries; \<open>to_num\<close> makes a
  JSON number and \<open>write\<close> the JSON text of a value, as \<open>serde_json\<close> does. The stream bodies await \<open>next_chunk\<close>
  and yield in between; \<open>all_chunks\<close> is what they await, one after the other.
\<close>

section \<open>Chunks of a response\<close>

partial_function (option) all_chunks ::
  "(rstr \<Rightarrow> 'n Value option) \<Rightarrow> (nat list \<Rightarrow> rstr option) \<Rightarrow> ClientEvent list \<Rightarrow> 'n Generation
    \<Rightarrow> ('n Chunk list \<times> GenerationError option \<times> 'n Generation) option" where
  [code]: "all_chunks from_json decode es g = do {
     (r, g, es) \<leftarrow> next_chunk from_json decode es g;
     case r of
       Inl e \<Rightarrow> Some ([], Some e, g)
     | Inr None \<Rightarrow> Some ([], None, g)
     | Inr (Some c) \<Rightarrow> do { (cs, e, g) \<leftarrow> all_chunks from_json decode es g; Some (c # cs, e, g) }
   }"

fun show_nat :: "nat \<Rightarrow> rstr" where
  "show_nat n = (if n < 10 then [48 + n] else show_nat (n div 10) @ [48 + n mod 10])"

declare show_nat.simps [simp del]

definition json_object :: "(string \<times> 'n Value) list \<Rightarrow> 'n Value" where
  "json_object kvs = JObject (map (\<lambda>(k, v). (lit k, v)) kvs)"

abbreviation json_text :: "string \<Rightarrow> 'n Value" where
  "json_text s \<equiv> JString (lit s)"

definition arguments_json :: "('n Value \<Rightarrow> rstr) \<Rightarrow> 'n ParsedToolCall \<Rightarrow> rstr" where
  "arguments_json write call = write (JObject (pc_arguments call))"

section \<open>Anthropic\<close>

definition stop_reason :: "Finish \<Rightarrow> usize \<Rightarrow> string" where
  "stop_reason f calls =
    (case f of
       EndOfTurn \<Rightarrow> (if 0 < calls then ''tool_use'' else ''end_turn'')
     | LengthReached \<Rightarrow> ''max_tokens''
     | StopSequence _ \<Rightarrow> ''stop_sequence'')"

definition stop_sequence :: "Finish \<Rightarrow> rstr option" where
  "stop_sequence f = (case f of StopSequence s \<Rightarrow> Some s | _ \<Rightarrow> None)"

definition thinking_signature :: "nat \<Rightarrow> rstr" where
  "thinking_signature request_id = lit ''xabe-unverified-'' @ show_nat request_id"

definition tool_use_id :: "nat \<Rightarrow> usize \<Rightarrow> rstr" where
  "tool_use_id request_id index = lit ''toolu_'' @ show_nat request_id @ lit ''_'' @ show_nat index"

definition thinking_block :: "nat \<Rightarrow> rstr \<Rightarrow> 'n Value" where
  "thinking_block request_id s = json_object [(''type'', json_text ''thinking''), (''thinking'', JString s),
     (''signature'', JString (thinking_signature request_id))]"

definition text_block :: "rstr \<Rightarrow> 'n Value" where
  "text_block s = json_object [(''type'', json_text ''text''), (''text'', JString s)]"

definition tool_use_block :: "nat \<Rightarrow> nat \<times> 'n ParsedToolCall \<Rightarrow> 'n Value" where
  "tool_use_block request_id = (\<lambda>(index, call). json_object [(''type'', json_text ''tool_use''),
     (''id'', JString (tool_use_id request_id index)), (''name'', JString (pc_name call)),
     (''input'', JObject (pc_arguments call))])"

definition content_blocks :: "'n Collected \<Rightarrow> nat \<Rightarrow> 'n Value list" where
  "content_blocks co request_id =
    (let content = (if co_reasoning co \<noteq> [] then [thinking_block request_id (co_reasoning co)] else [])
           @ (if co_text co \<noteq> [] then [text_block (co_text co)] else [])
           @ map (tool_use_block request_id) (List.enumerate 0 (co_tool_calls co))
     in if content = [] then [text_block []] else content)"

datatype BlockKind = ThinkingBlock | TextBlock

datatype Started = StartThinking | StartText | StartToolUse rstr rstr

datatype Delta = ThinkingDelta rstr | TextDelta rstr | SignatureDelta rstr | InputJsonDelta rstr

datatype AnthropicEvent =
    MessageStart usize
  | BlockStart usize Started
  | BlockDelta usize Delta
  | BlockStop usize
  | MessageDelta string "rstr option" usize
  | MessageStop
  | StreamError GenerationError

definition close_block :: "BlockKind option \<Rightarrow> usize \<Rightarrow> nat \<Rightarrow> AnthropicEvent list" where
  "close_block opened index request_id =
    (case opened of
       None \<Rightarrow> []
     | Some kind \<Rightarrow>
         (if kind = ThinkingBlock then [BlockDelta index (SignatureDelta (thinking_signature request_id))] else [])
         @ [BlockStop index])"

text \<open>The stream's locals: the index of the current block, the kind of the open one, and the calls emitted.\<close>

record AnthropicStream =
  as_index :: usize
  as_open :: "BlockKind option"
  as_calls :: usize

definition as_closed :: "AnthropicStream \<Rightarrow> AnthropicStream" where
  "as_closed st = (if as_open st = None then st else st\<lparr>as_open := None, as_index := as_index st + 1\<rparr>)"

definition call_events :: "('n Value \<Rightarrow> rstr) \<Rightarrow> nat \<Rightarrow> 'n ParsedToolCall \<Rightarrow> AnthropicStream \<Rightarrow> AnthropicEvent list \<times> AnthropicStream" where
  "call_events write request_id call st =
    (let closing = close_block (as_open st) (as_index st) request_id;
         st = as_closed st
     in (closing @ [BlockStart (as_index st) (StartToolUse (tool_use_id request_id (as_calls st)) (pc_name call)),
           BlockDelta (as_index st) (InputJsonDelta (arguments_json write call)), BlockStop (as_index st)],
         st\<lparr>as_index := as_index st + 1, as_calls := as_calls st + 1\<rparr>))"

definition span_events ::
  "nat \<Rightarrow> BlockKind \<Rightarrow> Started \<Rightarrow> Delta \<Rightarrow> AnthropicStream \<Rightarrow> AnthropicEvent list \<times> AnthropicStream" where
  "span_events request_id kind started delta st =
    (let (opening, st) =
       (if as_open st = Some kind then ([], st)
        else (let closing = close_block (as_open st) (as_index st) request_id;
                  st = as_closed st
              in (closing @ [BlockStart (as_index st) started], st\<lparr>as_open := Some kind\<rparr>)))
     in (opening @ [BlockDelta (as_index st) delta], st))"

definition chunk_events :: "('n Value \<Rightarrow> rstr) \<Rightarrow> nat \<Rightarrow> 'n Chunk \<Rightarrow> AnthropicStream \<Rightarrow> AnthropicEvent list \<times> AnthropicStream" where
  "chunk_events write request_id c st =
    (case c of
       CToolCall call \<Rightarrow> call_events write request_id call st
     | CReasoning s \<Rightarrow> span_events request_id ThinkingBlock StartThinking (ThinkingDelta s) st
     | CText s \<Rightarrow> span_events request_id TextBlock StartText (TextDelta s) st)"

fun chunks_events ::
  "('n Value \<Rightarrow> rstr) \<Rightarrow> nat \<Rightarrow> 'n Chunk list \<Rightarrow> AnthropicStream \<Rightarrow> AnthropicEvent list \<times> AnthropicStream" where
  "chunks_events write request_id [] st = ([], st)"
| "chunks_events write request_id (c # cs) st =
    (let (es, st) = chunk_events write request_id c st; (rest, st) = chunks_events write request_id cs st
     in (es @ rest, st))"

text \<open>A message carries a block even when the model produced nothing.\<close>

definition last_block :: "nat \<Rightarrow> AnthropicStream \<Rightarrow> AnthropicEvent list" where
  "last_block request_id st =
    (let (opening, opened) = (if as_open st = None \<and> as_index st = 0 then ([BlockStart 0 StartText], Some TextBlock)
                             else ([], as_open st))
     in opening @ close_block opened (as_index st) request_id)"

definition anthropic_events ::
  "('n Value \<Rightarrow> rstr) \<Rightarrow> 'n Chunk list \<Rightarrow> GenerationError option \<Rightarrow> 'n Generation \<Rightarrow> AnthropicEvent list" where
  "anthropic_events write cs failed g =
    (let request_id = rg_id (gn_guard g);
         (es, st) = chunks_events write request_id cs \<lparr>as_index = 0, as_open = None, as_calls = 0\<rparr>
     in MessageStart (gn_prompt_tokens g) # es
        @ (case failed of
             Some e \<Rightarrow> [StreamError e]
           | None \<Rightarrow> last_block request_id st
               @ [MessageDelta (stop_reason (generation_finish g) (gn_tool_calls g)) (stop_sequence (generation_finish g))
                    (gn_completion_tokens g), MessageStop]))"

text \<open>The events on the wire: name and payload.\<close>

definition json_finish :: "rstr option \<Rightarrow> 'n Value" where
  "json_finish s = (case s of None \<Rightarrow> JNull | Some s \<Rightarrow> JString s)"

fun started_json :: "Started \<Rightarrow> 'n Value" where
  "started_json StartThinking = json_object [(''type'', json_text ''thinking''), (''thinking'', JString []), (''signature'', JString [])]"
| "started_json StartText = json_object [(''type'', json_text ''text''), (''text'', JString [])]"
| "started_json (StartToolUse i name) = json_object [(''type'', json_text ''tool_use''), (''id'', JString i),
     (''name'', JString name), (''input'', JObject [])]"

fun delta_json :: "Delta \<Rightarrow> 'n Value" where
  "delta_json (ThinkingDelta s) = json_object [(''type'', json_text ''thinking_delta''), (''thinking'', JString s)]"
| "delta_json (TextDelta s) = json_object [(''type'', json_text ''text_delta''), (''text'', JString s)]"
| "delta_json (SignatureDelta s) = json_object [(''type'', json_text ''signature_delta''), (''signature'', JString s)]"
| "delta_json (InputJsonDelta s) = json_object [(''type'', json_text ''input_json_delta''), (''partial_json'', JString s)]"

fun anthropic_sse :: "(nat \<Rightarrow> 'n) \<Rightarrow> nat \<Rightarrow> rstr \<Rightarrow> (GenerationError \<Rightarrow> 'n Value) \<Rightarrow> AnthropicEvent \<Rightarrow> string \<times> 'n Value" where
  "anthropic_sse to_num request_id model payload (MessageStart prompt) =
    (''message_start'', json_object [(''type'', json_text ''message_start''), (''message'', json_object
       [(''id'', JString (lit ''msg_'' @ show_nat request_id)), (''type'', json_text ''message''), (''role'', json_text ''assistant''),
        (''model'', JString model), (''content'', JArray []), (''stop_reason'', JNull), (''stop_sequence'', JNull),
        (''usage'', json_object [(''input_tokens'', JNumber (to_num prompt)), (''output_tokens'', JNumber (to_num 0))])])])"
| "anthropic_sse to_num request_id model payload (BlockStart index started) =
    (''content_block_start'', json_object [(''type'', json_text ''content_block_start''), (''index'', JNumber (to_num index)),
       (''content_block'', started_json started)])"
| "anthropic_sse to_num request_id model payload (BlockDelta index delta) =
    (''content_block_delta'', json_object [(''type'', json_text ''content_block_delta''), (''index'', JNumber (to_num index)),
       (''delta'', delta_json delta)])"
| "anthropic_sse to_num request_id model payload (BlockStop index) =
    (''content_block_stop'', json_object [(''type'', json_text ''content_block_stop''), (''index'', JNumber (to_num index))])"
| "anthropic_sse to_num request_id model payload (MessageDelta reason sequence completion) =
    (''message_delta'', json_object [(''type'', json_text ''message_delta''),
       (''delta'', json_object [(''stop_reason'', json_text reason), (''stop_sequence'', json_finish sequence)]),
       (''usage'', json_object [(''output_tokens'', JNumber (to_num completion))])])"
| "anthropic_sse to_num request_id model payload MessageStop =
    (''message_stop'', json_object [(''type'', json_text ''message_stop'')])"
| "anthropic_sse to_num request_id model payload (StreamError e) = (''error'', payload e)"

definition anthropic_message :: "(nat \<Rightarrow> 'n) \<Rightarrow> rstr \<Rightarrow> 'n Collected \<Rightarrow> 'n Generation \<Rightarrow> 'n Value" where
  "anthropic_message to_num model co g =
    (let request_id = rg_id (gn_guard g); f = generation_finish g
     in json_object [(''id'', JString (lit ''msg_'' @ show_nat request_id)), (''type'', json_text ''message''),
       (''role'', json_text ''assistant''), (''model'', JString model),
       (''content'', JArray (content_blocks co request_id)),
       (''stop_reason'', json_text (stop_reason f (gn_tool_calls g))), (''stop_sequence'', json_finish (stop_sequence f)),
       (''usage'', json_object [(''input_tokens'', JNumber (to_num (gn_prompt_tokens g))),
          (''output_tokens'', JNumber (to_num (gn_completion_tokens g)))])])"

section \<open>OpenAI chat\<close>

definition finish_reason :: "Finish \<Rightarrow> string" where
  "finish_reason f = (case f of LengthReached \<Rightarrow> ''length'' | _ \<Rightarrow> ''stop'')"

definition chat_finish_reason :: "Finish \<Rightarrow> usize \<Rightarrow> string" where
  "chat_finish_reason f calls = (if f = EndOfTurn \<and> 0 < calls then ''tool_calls'' else finish_reason f)"

definition tool_call_fields :: "('n Value \<Rightarrow> rstr) \<Rightarrow> nat \<Rightarrow> usize \<Rightarrow> 'n ParsedToolCall \<Rightarrow> (rstr \<times> 'n Value) list" where
  "tool_call_fields write request_id index call =
    [(lit ''id'', JString (lit ''call_'' @ show_nat request_id @ lit ''_'' @ show_nat index)),
     (lit ''type'', json_text ''function''),
     (lit ''function'', json_object [(''name'', JString (pc_name call)), (''arguments'', JString (arguments_json write call))])]"

definition tool_call_value :: "('n Value \<Rightarrow> rstr) \<Rightarrow> nat \<Rightarrow> usize \<Rightarrow> 'n ParsedToolCall \<Rightarrow> 'n Value" where
  "tool_call_value write request_id index call = JObject (tool_call_fields write request_id index call)"

record 'n ChatDelta =
  cd_role :: "string option"
  cd_content :: "rstr option option"
  cd_reasoning_content :: "rstr option"
  cd_tool_calls :: "'n Value list option"

definition no_delta :: "'n ChatDelta" where
  "no_delta = \<lparr>cd_role = None, cd_content = None, cd_reasoning_content = None, cd_tool_calls = None\<rparr>"

record Usage =
  us_prompt_tokens :: usize
  us_completion_tokens :: usize
  us_total_tokens :: usize

definition usage_of :: "'n Generation \<Rightarrow> Usage" where
  "usage_of g = \<lparr>us_prompt_tokens = gn_prompt_tokens g, us_completion_tokens = gn_completion_tokens g,
     us_total_tokens = gn_prompt_tokens g + gn_completion_tokens g\<rparr>"

definition chat_message :: "('n Value \<Rightarrow> rstr) \<Rightarrow> 'n Collected \<Rightarrow> nat \<Rightarrow> 'n ChatDelta" where
  "chat_message write co request_id =
    (let tool_calls = (if co_tool_calls co = [] then None
           else Some (map (\<lambda>(index, call). tool_call_value write request_id index call) (List.enumerate 0 (co_tool_calls co))))
     in \<lparr>cd_role = Some ''assistant'',
         cd_content = Some (if tool_calls = None \<or> co_text co \<noteq> [] then Some (co_text co) else None),
         cd_reasoning_content = (if co_reasoning co \<noteq> [] then Some (co_reasoning co) else None),
         cd_tool_calls = tool_calls\<rparr>)"

datatype 'n ChatEvent =
    ChatChunk "'n ChatDelta" "string option" "Usage option"
  | ChatError GenerationError
  | ChatDone

text \<open>One chunk, and the calls emitted so far.\<close>

definition chat_chunk :: "(nat \<Rightarrow> 'n) \<Rightarrow> ('n Value \<Rightarrow> rstr) \<Rightarrow> nat \<Rightarrow> 'n Chunk \<Rightarrow> usize \<Rightarrow> 'n ChatEvent \<times> usize" where
  "chat_chunk to_num write request_id c emitted =
    (case c of
       CText s \<Rightarrow> (ChatChunk (no_delta\<lparr>cd_content := Some (Some s)\<rparr>) None None, emitted)
     | CReasoning s \<Rightarrow> (ChatChunk (no_delta\<lparr>cd_reasoning_content := Some s\<rparr>) None None, emitted)
     | CToolCall call \<Rightarrow>
         (ChatChunk (no_delta\<lparr>cd_tool_calls :=
            Some [JObject (tool_call_fields write request_id emitted call @ [(lit ''index'', JNumber (to_num emitted))])]\<rparr>) None None,
          emitted + 1))"

fun chat_chunks :: "(nat \<Rightarrow> 'n) \<Rightarrow> ('n Value \<Rightarrow> rstr) \<Rightarrow> nat \<Rightarrow> 'n Chunk list \<Rightarrow> usize \<Rightarrow> 'n ChatEvent list" where
  "chat_chunks to_num write request_id [] emitted = []"
| "chat_chunks to_num write request_id (c # cs) emitted =
    (let (e, emitted) = chat_chunk to_num write request_id c emitted
     in e # chat_chunks to_num write request_id cs emitted)"

definition chat_events ::
  "(nat \<Rightarrow> 'n) \<Rightarrow> ('n Value \<Rightarrow> rstr) \<Rightarrow> bool \<Rightarrow> 'n Chunk list \<Rightarrow> GenerationError option \<Rightarrow> 'n Generation \<Rightarrow> 'n ChatEvent list" where
  "chat_events to_num write include_usage cs failed g =
    ChatChunk (no_delta\<lparr>cd_role := Some ''assistant'', cd_content := Some (Some [])\<rparr>) None None
    # chat_chunks to_num write (rg_id (gn_guard g)) cs 0
    @ [case failed of
         Some e \<Rightarrow> ChatError e
       | None \<Rightarrow> ChatChunk no_delta (Some (chat_finish_reason (generation_finish g) (gn_tool_calls g)))
           (if include_usage then Some (usage_of g) else None), ChatDone]"

end
