(* ===== verification/AnthropicReply.thy ===== *)
theory AnthropicReply
  imports ChatRequest ServedReply
begin

text \<open>
  The Anthropic event stream against its client: a reader that takes blocks only in the documented order puts
  together the same reasoning, text, calls and stop reason that the whole message carries, and the blocks it
  got, sent back as an assistant message, fold to that turn.
\<close>

section \<open>Collecting and streaming\<close>

lemma collect_all_chunks_aux:
  assumes "collect_loop from_json decode es g co = Some y"
  shows "\<exists>cs e. all_chunks from_json decode es g = Some (cs, e, snd y)
      \<and> fst y = (case e of None \<Rightarrow> Inr (fold add_chunk cs co) | Some e \<Rightarrow> Inl e)"
proof (rule collect_loop.raw_induct [OF _ assms, where P = "\<lambda>from_json decode es g co y.
    \<exists>cs e. all_chunks from_json decode es g = Some (cs, e, snd y)
      \<and> fst y = (case e of None \<Rightarrow> Inr (fold add_chunk cs co) | Some e \<Rightarrow> Inl e)"], goal_cases)
  case (1 loop from_json decode es g co y)
  obtain r g1 es1 where nx: "next_chunk from_json decode es g = Some (r, g1, es1)"
    using 1(2) by (auto simp: bind_eq_Some_conv)
  show ?case
  proof (cases "\<exists>c. r = Inr (Some c)")
    case True
    then obtain c where c: "r = Inr (Some c)" by blast
    from 1(2) have "loop from_json decode es1 g1 (add_chunk c co) = Some y" by (simp add: nx c)
    from 1(1) [OF this] obtain cs e where "all_chunks from_json decode es1 g1 = Some (cs, e, snd y)"
      "fst y = (case e of None \<Rightarrow> Inr (fold add_chunk cs (add_chunk c co)) | Some e \<Rightarrow> Inl e)" by blast
    moreover from this(1) have "all_chunks from_json decode es g = Some (c # cs, e, snd y)"
      by (subst all_chunks.simps) (simp add: nx c)
    ultimately show ?thesis by (intro exI [of _ "c # cs"] exI [of _ e]) (simp split: option.split)
  next
    case False
    then have "all_chunks from_json decode es g = Some ([], (case r of Inl e \<Rightarrow> Some e | Inr _ \<Rightarrow> None), g1)"
      by (subst all_chunks.simps) (auto simp: nx split: sum.split option.split)
    moreover have "snd y = g1" "fst y = (case r of Inl e \<Rightarrow> Inl e | Inr _ \<Rightarrow> Inr co)"
      using 1(2) False by (auto simp: nx split: sum.splits option.splits)
    ultimately show ?thesis by (cases r) auto
  qed
qed

lemma collect_all_chunks:
  assumes "collect_response from_json decode es g = Some (Inr co, g')"
  shows "\<exists>cs. all_chunks from_json decode es g = Some (cs, None, g') \<and> co = fold add_chunk cs nothing_collected"
  using collect_all_chunks_aux [OF assms [unfolded collect_response_def]] by (auto split: option.splits)

section \<open>The client\<close>

datatype Block = RThinking rstr rstr | RText rstr | RTool rstr rstr rstr

record Reader =
  re_started :: bool
  re_blocks :: "Block list"
  re_current :: "Block option"
  re_reason :: "(string \<times> rstr option \<times> usize) option"
  re_stopped :: bool

definition new_reader :: Reader where
  "new_reader = \<lparr>re_started = False, re_blocks = [], re_current = None, re_reason = None, re_stopped = False\<rparr>"

fun fresh_block :: "Started \<Rightarrow> Block" where
  "fresh_block StartThinking = RThinking [] []"
| "fresh_block StartText = RText []"
| "fresh_block (StartToolUse i name) = RTool i name []"

fun grown :: "Delta \<Rightarrow> Block \<Rightarrow> Block option" where
  "grown (ThinkingDelta s) (RThinking t sg) = Some (RThinking (t @ s) sg)"
| "grown (SignatureDelta s) (RThinking t sg) = Some (RThinking t (sg @ s))"
| "grown (TextDelta s) (RText t) = Some (RText (t @ s))"
| "grown (InputJsonDelta s) (RTool i name t) = Some (RTool i name (t @ s))"
| "grown _ _ = None"

text \<open>One message, started once; one block at a time, numbered from zero, each closed before the next; the stop
  reason after the last block, and the end after that.\<close>

fun read_event :: "AnthropicEvent \<Rightarrow> Reader \<Rightarrow> Reader option" where
  "read_event (MessageStart _) rd = (if re_started rd then None else Some (rd\<lparr>re_started := True\<rparr>))"
| "read_event (BlockStart i b) rd =
    (if re_started rd \<and> re_reason rd = None \<and> re_current rd = None \<and> i = length (re_blocks rd)
     then Some (rd\<lparr>re_current := Some (fresh_block b)\<rparr>) else None)"
| "read_event (BlockDelta i d) rd =
    (if i \<noteq> length (re_blocks rd) then None
     else do { b \<leftarrow> re_current rd; b \<leftarrow> grown d b; Some (rd\<lparr>re_current := Some b\<rparr>) })"
| "read_event (BlockStop i) rd =
    (if i \<noteq> length (re_blocks rd) then None
     else do { b \<leftarrow> re_current rd; Some (rd\<lparr>re_blocks := re_blocks rd @ [b], re_current := None\<rparr>) })"
| "read_event (MessageDelta reason s n) rd =
    (if re_started rd \<and> re_current rd = None \<and> re_blocks rd \<noteq> [] \<and> re_reason rd = None
     then Some (rd\<lparr>re_reason := Some (reason, s, n)\<rparr>) else None)"
| "read_event MessageStop rd = (if re_reason rd \<noteq> None \<and> \<not> re_stopped rd then Some (rd\<lparr>re_stopped := True\<rparr>) else None)"
| "read_event (StreamError _) rd = None"

fun read_events :: "AnthropicEvent list \<Rightarrow> Reader \<Rightarrow> Reader option" where
  "read_events [] rd = Some rd"
| "read_events (e # es) rd = do { rd \<leftarrow> read_event e rd; read_events es rd }"

lemma read_events_append: "read_events (es @ fs) rd = do { rd \<leftarrow> read_events es rd; read_events fs rd }"
  by (induction es arbitrary: rd) (simp_all split: bind_split)

definition said_thinking :: "Block list \<Rightarrow> rstr" where
  "said_thinking bs = concat (map (\<lambda>b. case b of RThinking s _ \<Rightarrow> s | _ \<Rightarrow> []) bs)"

definition said_text :: "Block list \<Rightarrow> rstr" where
  "said_text bs = concat (map (\<lambda>b. case b of RText s \<Rightarrow> s | _ \<Rightarrow> []) bs)"

definition said_calls :: "Block list \<Rightarrow> Block list" where
  "said_calls bs = filter (\<lambda>b. case b of RTool _ _ _ \<Rightarrow> True | _ \<Rightarrow> False) bs"

lemma said_simps [simp]:
  "said_thinking [] = []" "said_text [] = []" "said_calls [] = []"
  "said_thinking (a @ b) = said_thinking a @ said_thinking b" "said_text (a @ b) = said_text a @ said_text b"
  "said_calls (a @ b) = said_calls a @ said_calls b"
  "said_thinking [RThinking s g] = s" "said_text [RThinking s g] = []" "said_calls [RThinking s g] = []"
  "said_thinking [RText s] = []" "said_text [RText s] = s" "said_calls [RText s] = []"
  "said_thinking [RTool i n j] = []" "said_text [RTool i n j] = []" "said_calls [RTool i n j] = [RTool i n j]"
  by (simp_all add: said_thinking_def said_text_def said_calls_def)

text \<open>The tool block of a call, and what the blocks read say together.\<close>

definition tool_block :: "('n Value \<Rightarrow> rstr) \<Rightarrow> nat \<Rightarrow> nat \<times> 'n ParsedToolCall \<Rightarrow> Block" where
  "tool_block write request_id = (\<lambda>(index, call). RTool (tool_use_id request_id index) (pc_name call) (arguments_json write call))"

definition says :: "('n Value \<Rightarrow> rstr) \<Rightarrow> nat \<Rightarrow> 'n Collected \<Rightarrow> Block list \<Rightarrow> bool" where
  "says write request_id co bs \<longleftrightarrow> said_thinking bs = co_reasoning co \<and> said_text bs = co_text co
     \<and> said_calls bs = map (tool_block write request_id) (List.enumerate 0 (co_tool_calls co))"

definition signed :: "nat \<Rightarrow> Block list \<Rightarrow> bool" where
  "signed request_id bs \<longleftrightarrow> (\<forall>s sg. RThinking s sg \<in> set bs \<longrightarrow> sg = thinking_signature request_id)"

definition open_blocks :: "Reader \<Rightarrow> Block list" where
  "open_blocks rd = re_blocks rd @ (case re_current rd of None \<Rightarrow> [] | Some b \<Rightarrow> [b])"

text \<open>Where the reader is while the stream is in its state.\<close>

definition follows :: "('n Value \<Rightarrow> rstr) \<Rightarrow> nat \<Rightarrow> 'n Collected \<Rightarrow> AnthropicStream \<Rightarrow> Reader \<Rightarrow> bool" where
  "follows write request_id co st rd \<longleftrightarrow> re_started rd \<and> re_reason rd = None \<and> \<not> re_stopped rd
     \<and> as_index st = length (re_blocks rd) \<and> as_calls st = length (co_tool_calls co)
     \<and> says write request_id co (open_blocks rd) \<and> signed request_id (re_blocks rd)
     \<and> (case as_open st of
          None \<Rightarrow> re_current rd = None
        | Some ThinkingBlock \<Rightarrow> (\<exists>s. re_current rd = Some (RThinking s []))
        | Some TextBlock \<Rightarrow> (\<exists>s. re_current rd = Some (RText s)))"

lemma close_followed:
  assumes "follows write request_id co st rd"
  shows "\<exists>rd'. read_events (close_block (as_open st) (as_index st) request_id) rd = Some rd'
    \<and> follows write request_id co (as_closed st) rd' \<and> re_current rd' = None"
proof (cases "as_open st")
  case None
  then show ?thesis using assms by (auto simp: close_block_def as_closed_def follows_def)
next
  case (Some kind)
  then show ?thesis using assms
    by (cases kind) (auto simp: close_block_def as_closed_def follows_def open_blocks_def signed_def says_def)
qed

lemma as_closed_simps [simp]: "as_open (as_closed st) = None" "as_calls (as_closed st) = as_calls st"
  by (auto simp: as_closed_def)

lemma chunk_followed:
  assumes fo: "follows write request_id co st rd" and ev: "chunk_events write request_id c st = (es, st')"
  shows "\<exists>rd'. read_events es rd = Some rd' \<and> follows write request_id (add_chunk c co) st' rd'"
proof -
  obtain rd1 where cl: "read_events (close_block (as_open st) (as_index st) request_id) rd = Some rd1"
    "follows write request_id co (as_closed st) rd1" "re_current rd1 = None"
    using close_followed [OF fo] by blast
  show ?thesis
  proof (cases c)
    case (CToolCall call)
    then show ?thesis using ev cl
      by (auto simp: chunk_events_def call_events_def Let_def read_events_append follows_def open_blocks_def says_def signed_def
          add_chunk_def enumerate_append_eq tool_block_def)
  next
    case (CReasoning s)
    show ?thesis
    proof (cases "as_open st = Some ThinkingBlock")
      case True
      then show ?thesis using ev fo CReasoning
        by (auto simp: chunk_events_def span_events_def follows_def open_blocks_def says_def add_chunk_def)
    next
      case False
      then show ?thesis using ev cl CReasoning
        by (auto simp: chunk_events_def span_events_def Let_def read_events_append follows_def open_blocks_def says_def signed_def
            add_chunk_def)
    qed
  next
    case (CText s)
    show ?thesis
    proof (cases "as_open st = Some TextBlock")
      case True
      then show ?thesis using ev fo CText
        by (auto simp: chunk_events_def span_events_def follows_def open_blocks_def says_def add_chunk_def)
    next
      case False
      then show ?thesis using ev cl CText
        by (auto simp: chunk_events_def span_events_def Let_def read_events_append follows_def open_blocks_def says_def signed_def
            add_chunk_def)
    qed
  qed
qed

lemma chunks_followed:
  "follows write request_id co st rd \<Longrightarrow> chunks_events write request_id cs st = (es, st') \<Longrightarrow>
    \<exists>rd'. read_events es rd = Some rd' \<and> follows write request_id (fold add_chunk cs co) st' rd'"
proof (induction cs arbitrary: co st rd es)
  case (Cons c cs)
  obtain es1 st1 where one: "chunk_events write request_id c st = (es1, st1)" by fastforce
  obtain es2 where two: "chunks_events write request_id cs st1 = (es2, st')" "es = es1 @ es2"
    using Cons.prems(2) by (auto simp: one split: prod.splits)
  from chunk_followed [OF Cons.prems(1) one] obtain rd1 where
    "read_events es1 rd = Some rd1" "follows write request_id (add_chunk c co) st1 rd1" by blast
  with Cons.IH [OF this(2) two(1)] show ?case by (simp add: two(2) read_events_append)
qed simp


section \<open>Main theorems\<close>


definition hello_generation :: "nat Generation" where
  "hello_generation =
    \<lparr>gn_guard = guard_new 4, gn_detokenizer = detok_new, gn_stop = [], gn_pending = lit ''hi'', gn_think_close = None,
     gn_reasoning_open = False, gn_trim_spans = True, gn_trim_span_start = False, gn_prompt_tokens = 1,
     gn_completion_tokens = 0, gn_finish = None, gn_drained = False, gn_tool_parser = None, gn_queued = [], gn_tool_calls = 0\<rparr>"

lemma hello_collected:
  "\<exists>co g'. collect_response (\<lambda>_. None) (\<lambda>ts. Some ts) [EvDone Eos] hello_generation = Some (Inr co, g') \<and> co_text co = lit ''hi''"
proof -
  have "case collect_response (\<lambda>_. None) (\<lambda>ts. Some ts) [EvDone Eos] hello_generation of
    Some (Inr co, g') \<Rightarrow> co_text co = lit ''hi'' | _ \<Rightarrow> False" by code_simp
  then show ?thesis by (auto split: option.splits sum.splits)
qed


section \<open>Sent back\<close>

text \<open>What deserialising the blocks this server emits gives, as the \<open>serde\<close> attributes of \<open>KnownPart\<close> say: the tag
  picks the variant, its fields are read by name, other fields are ignored.\<close>

definition reads_blocks :: "('n Value \<Rightarrow> 'n Part) \<Rightarrow> bool" where
  "reads_blocks part_of \<longleftrightarrow> (\<forall>i s. part_of (thinking_block i s) = Known (Thinking s)) \<and> (\<forall>s. part_of (text_block s) = Known (PartText s))
     \<and> (\<forall>i k call. part_of (tool_use_block i (k, call)) = Known (ToolUse (pc_name call) (JObject (pc_arguments call))))"


lemma fold_blocks_read:
  assumes reads: "reads_blocks part_of"
  shows "fold_parts parts_of from_json decode (map (\<lambda>kc. part_of (tool_use_block i kc)) (List.enumerate k calls)) fo
    = Some (Inr (fo\<lparr>fc_tool_calls := fc_tool_calls fo @ calls\<rparr>))"
proof (induction calls arbitrary: k fo)
  case (Cons call calls)
  have "part_of (tool_use_block i (k, call)) = Known (ToolUse (pc_name call) (JObject (pc_arguments call)))"
    using reads by (simp add: reads_blocks_def)
  then show ?case
    by (simp add: fold_parts_Cons fold_part_def fold_plain_def replayed_input_def Cons)
qed (simp add: fold_parts_Nil)

lemma fold_reply:
  assumes "reads_blocks part_of"
  shows "fold_parts parts_of from_json decode (map part_of (content_blocks co i)) folded_default
    = Some (Inr (folded_default\<lparr>fc_text := co_text co, fc_thinking := co_reasoning co, fc_tool_calls := co_tool_calls co\<rparr>))"
proof -
  note one = assms [unfolded reads_blocks_def]
  have "List.enumerate 0 xs = [] \<longleftrightarrow> xs = []" for xs :: "'a ParsedToolCall list" by (cases xs) simp_all
  then show ?thesis using one fold_blocks_read [OF assms, of parts_of from_json decode i 0]
    by (simp add: content_blocks_def Let_def fold_parts_Cons fold_parts_Nil fold_part_def fold_plain_def folded_default_def
        add_text_def add_line_def comp_def)
qed

text \<open>C16: A served message can be sent back. Its content blocks, replayed as an assistant message the way clients do
  in an agentic loop, fold to one assistant turn with exactly the reasoning, text and calls the server
  collected, whatever conversation it follows; an empty answer comes back as an empty turn.\<close>

theorem anthropic_reply_replays:
  assumes "reads_blocks part_of"
  shows "anthropic_turns rd [\<lparr>ms_role = lit ''assistant'', ms_content = Parts (map part_of (content_blocks co i))\<rparr>] cv
    = Some (Inr (push_turn (Assistant (co_reasoning co) (co_text co) (co_tool_calls co)) cv))"
proof -
  have roles: "lit ''assistant'' \<noteq> lit ''user''" by (simp add: lit_def)
  show ?thesis
    by (simp add: read_content_def content_fold_def fold_reply [OF assms] map_error_def anthropic_turn_def roles)
      (simp add: folded_default_def)
qed

definition read_block :: "'n Value \<Rightarrow> 'n Part" where
  "read_block v =
    (case (Option.bind (json_get v (lit ''type'')) as_str, Option.bind (json_get v (lit ''thinking'')) as_str,
       Option.bind (json_get v (lit ''text'')) as_str, Option.bind (json_get v (lit ''name'')) as_str, json_get v (lit ''input'')) of
       (Some kind, Some s, _, _, _) \<Rightarrow> Known (Thinking s)
     | (Some kind, None, Some s, _, _) \<Rightarrow> Known (PartText s)
     | (Some kind, None, None, Some name, Some input) \<Rightarrow> Known (ToolUse name input)
     | _ \<Rightarrow> Other v)"

theorem anthropic_reply_replays_witness:
  "anthropic_turns \<lparr>rd_parts = \<lambda>_. None, rd_json = \<lambda>_. None, rd_image = \<lambda>_. Inl Undecodable, rd_write = \<lambda>_. []\<rparr>
     [\<lparr>ms_role = lit ''assistant'', ms_content = Parts (map read_block (content_blocks
        \<lparr>co_reasoning = lit ''hm'', co_text = [], co_tool_calls = [\<lparr>pc_name = lit ''f'', pc_arguments = []\<rparr>]\<rparr> 4))\<rparr>] empty_conversation
   = Some (Inr (push_turn (Assistant (lit ''hm'') [] [\<lparr>pc_name = lit ''f'', pc_arguments = []\<rparr> :: nat ParsedToolCall])
       (empty_conversation :: (nat, nat) Conversation)))"
proof -
  have "reads_blocks (read_block :: nat Value \<Rightarrow> nat Part)"
    by (simp add: reads_blocks_def read_block_def thinking_block_def text_block_def tool_use_block_def json_object_def lit_def)
  from anthropic_reply_replays [OF this, of _
      "\<lparr>co_reasoning = lit ''hm'', co_text = [], co_tool_calls = [\<lparr>pc_name = lit ''f'', pc_arguments = []\<rparr>]\<rparr>" 4]
  show ?thesis by (simp only: Collected.select_convs)
qed

end
