(* ===== verification/ResponsesServed.thy ===== *)
theory ResponsesServed
  imports AnthropicReply
begin

text \<open>
  What \<open>/v1/responses\<close> answers, whole and as an event stream (\<open>xabe-server/src/http/responses.rs\<close>). An event is a
  constructor with the fields that vary; its sequence number is its place in the stream.
\<close>

section \<open>The envelope\<close>

record 'n Envelope =
  ev_id :: rstr
  ev_created :: u64
  ev_model :: rstr
  ev_tools :: "'n Value"
  ev_tool_choice :: "'n Value"
  ev_parallel_tool_calls :: bool
  ev_namespaces :: "rstr list"

definition status_of :: "Finish \<Rightarrow> string \<times> 'n Value" where
  "status_of f = (case f of
     LengthReached \<Rightarrow> (''incomplete'', json_object [(''reason'', json_text ''max_output_tokens'')])
   | _ \<Rightarrow> (''completed'', JNull))"

text \<open>\<open>trim_start_matches(\"resp_\")\<close>: every copy of the prefix goes.\<close>

function after_resp :: "rstr \<Rightarrow> rstr" where
  "after_resp s = (case strip_prefix (lit ''resp_'') s of Some t \<Rightarrow> after_resp t | None \<Rightarrow> s)"
  by auto
termination
  by (relation "measure length") (auto simp: strip_prefix_Some lit_def)

declare after_resp.simps [simp del]

definition reasoning_item_id :: "'n Envelope \<Rightarrow> rstr" where
  "reasoning_item_id env = lit ''rs_'' @ after_resp (ev_id env)"

definition message_item_id :: "'n Envelope \<Rightarrow> rstr" where
  "message_item_id env = lit ''msg_'' @ after_resp (ev_id env)"

definition reasoning_item :: "'n Envelope \<Rightarrow> rstr \<Rightarrow> 'n Value" where
  "reasoning_item env s = json_object [(''id'', JString (reasoning_item_id env)), (''type'', json_text ''reasoning''),
     (''summary'', JArray []), (''content'', JArray [json_object [(''type'', json_text ''reasoning_text''), (''text'', JString s)]])]"

definition output_text :: "rstr \<Rightarrow> 'n Value" where
  "output_text s = json_object [(''type'', json_text ''output_text''), (''text'', JString s), (''annotations'', JArray [])]"

definition message_item :: "'n Envelope \<Rightarrow> rstr \<Rightarrow> 'n Value" where
  "message_item env s = json_object [(''id'', JString (message_item_id env)), (''type'', json_text ''message''),
     (''status'', json_text ''completed''), (''role'', json_text ''assistant''), (''content'', JArray [output_text s])]"

definition function_call_item_id :: "'n Envelope \<Rightarrow> usize \<Rightarrow> rstr" where
  "function_call_item_id env index = lit ''fc_'' @ after_resp (ev_id env) @ lit ''_'' @ show_nat index"

definition function_call_id :: "'n Envelope \<Rightarrow> usize \<Rightarrow> rstr" where
  "function_call_id env index = lit ''call_'' @ after_resp (ev_id env) @ lit ''_'' @ show_nat index"

definition split_dot :: "rstr \<Rightarrow> (rstr \<times> rstr) option" where
  "split_dot s = (case dropWhile (\<lambda>c. c \<noteq> 46) s of [] \<Rightarrow> None | _ # r \<Rightarrow> Some (takeWhile (\<lambda>c. c \<noteq> 46) s, r))"

definition split_namespace :: "'n Envelope \<Rightarrow> rstr \<Rightarrow> rstr \<times> rstr option" where
  "split_namespace env name =
    (case split_dot name of
       Some (group_name, member) \<Rightarrow> (if group_name \<in> set (ev_namespaces env) then (member, Some group_name) else (name, None))
     | None \<Rightarrow> (name, None))"

definition function_call_item :: "('n Value \<Rightarrow> rstr) \<Rightarrow> 'n Envelope \<Rightarrow> usize \<Rightarrow> 'n ParsedToolCall \<Rightarrow> string \<Rightarrow> 'n Value" where
  "function_call_item write env index call status =
    (let (name, namespace) = split_namespace env (pc_name call)
     in JObject ([(lit ''id'', JString (function_call_item_id env index)), (lit ''type'', json_text ''function_call''),
          (lit ''status'', json_text status), (lit ''call_id'', JString (function_call_id env index)),
          (lit ''name'', JString name),
          (lit ''arguments'', JString (if status = ''in_progress'' then [] else arguments_json write call))]
        @ (case namespace of Some n \<Rightarrow> [(lit ''namespace'', JString n)] | None \<Rightarrow> [])))"

definition usage_json :: "(nat \<Rightarrow> 'n) \<Rightarrow> 'n Generation \<Rightarrow> 'n Value" where
  "usage_json to_num g = json_object [(''input_tokens'', JNumber (to_num (gn_prompt_tokens g))),
     (''output_tokens'', JNumber (to_num (gn_completion_tokens g))),
     (''total_tokens'', JNumber (to_num (gn_prompt_tokens g + gn_completion_tokens g)))]"

definition response_object ::
  "(nat \<Rightarrow> 'n) \<Rightarrow> 'n Envelope \<Rightarrow> string \<Rightarrow> 'n Value \<Rightarrow> 'n Value list \<Rightarrow> 'n Value \<Rightarrow> 'n Value" where
  "response_object to_num env status incomplete output usage =
    json_object [(''id'', JString (ev_id env)), (''object'', json_text ''response''), (''created_at'', JNumber (to_num (ev_created env))),
      (''status'', json_text status), (''model'', JString (ev_model env)), (''output'', JArray output),
      (''parallel_tool_calls'', JBool (ev_parallel_tool_calls env)), (''tool_choice'', ev_tool_choice env), (''tools'', ev_tools env),
      (''incomplete_details'', incomplete), (''instructions'', JNull), (''store'', JBool False), (''usage'', usage)]"

section \<open>The whole response\<close>

text \<open>The output items of reasoning, text and calls, for both paths.\<close>

definition output_items :: "('n Value \<Rightarrow> rstr) \<Rightarrow> 'n Envelope \<Rightarrow> rstr \<Rightarrow> rstr \<Rightarrow> 'n ParsedToolCall list \<Rightarrow> 'n Value list" where
  "output_items write env reasoning said calls =
    (if reasoning \<noteq> [] then [reasoning_item env reasoning] else [])
    @ (if said \<noteq> [] \<or> calls = [] then [message_item env said] else [])
    @ map (\<lambda>(index, call). function_call_item write env index call ''completed'') (List.enumerate 0 calls)"

definition whole_response :: "(nat \<Rightarrow> 'n) \<Rightarrow> ('n Value \<Rightarrow> rstr) \<Rightarrow> 'n Envelope \<Rightarrow> 'n Collected \<Rightarrow> 'n Generation \<Rightarrow> 'n Value" where
  "whole_response to_num write env co g =
    (let (status, incomplete) = status_of (generation_finish g)
     in response_object to_num env status incomplete (output_items write env (co_reasoning co) (co_text co) (co_tool_calls co))
          (usage_json to_num g))"

section \<open>The stream\<close>

datatype ItemKind = ReasoningKind | MessageKind

datatype 'n ResponsesEvent =
    Created "'n Value"
  | InProgress "'n Value"
  | ItemAdded usize "'n Value"
  | ContentPartAdded usize
  | ReasoningTextDelta usize rstr
  | ReasoningTextDone usize rstr
  | OutputTextDelta usize rstr
  | OutputTextDone usize rstr
  | ContentPartDone usize rstr
  | ArgumentsDelta usize rstr rstr
  | ArgumentsDone usize rstr rstr
  | ItemDone usize "'n Value"
  | Completed "'n Value"
  | ResponsesError GenerationError

record 'n ResponsesStream =
  rs_reasoning :: rstr
  rs_text :: rstr
  rs_calls :: "'n ParsedToolCall list"
  rs_index :: usize
  rs_open :: "ItemKind option"

fun chunk_kind :: "'n Chunk option \<Rightarrow> ItemKind option" where
  "chunk_kind (Some (CReasoning _)) = Some ReasoningKind"
| "chunk_kind (Some (CText _)) = Some MessageKind"
| "chunk_kind _ = None"

definition close_item :: "'n Envelope \<Rightarrow> 'n ResponsesStream \<Rightarrow> 'n ResponsesEvent list" where
  "close_item env st =
    (case rs_open st of
       Some ReasoningKind \<Rightarrow> [ReasoningTextDone (rs_index st) (rs_reasoning st), ItemDone (rs_index st) (reasoning_item env (rs_reasoning st))]
     | Some MessageKind \<Rightarrow> [OutputTextDone (rs_index st) (rs_text st), ContentPartDone (rs_index st) (rs_text st),
         ItemDone (rs_index st) (message_item env (rs_text st))]
     | None \<Rightarrow> [])"

definition open_item :: "'n Envelope \<Rightarrow> usize \<Rightarrow> ItemKind option \<Rightarrow> 'n ResponsesEvent list" where
  "open_item env index kind =
    (case kind of
       Some ReasoningKind \<Rightarrow> [ItemAdded index (json_object [(''id'', JString (reasoning_item_id env)), (''type'', json_text ''reasoning''),
         (''summary'', JArray []), (''content'', JArray [])])]
     | Some MessageKind \<Rightarrow> [ItemAdded index (json_object [(''id'', JString (message_item_id env)), (''type'', json_text ''message''),
         (''status'', json_text ''in_progress''), (''role'', json_text ''assistant''), (''content'', JArray [])]), ContentPartAdded index]
     | None \<Rightarrow> [])"

definition switch_item :: "'n Envelope \<Rightarrow> ItemKind option \<Rightarrow> 'n ResponsesStream \<Rightarrow> 'n ResponsesEvent list \<times> 'n ResponsesStream" where
  "switch_item env kind st =
    (if rs_open st = kind then ([], st)
     else (let index = (if rs_open st = None then rs_index st else rs_index st + 1)
           in (close_item env st @ open_item env index kind, st\<lparr>rs_index := index, rs_open := kind\<rparr>)))"

definition item_events ::
  "('n Value \<Rightarrow> rstr) \<Rightarrow> 'n Envelope \<Rightarrow> 'n Chunk \<Rightarrow> 'n ResponsesStream \<Rightarrow> 'n ResponsesEvent list \<times> 'n ResponsesStream" where
  "item_events write env c st =
    (case c of
       CReasoning s \<Rightarrow> ([ReasoningTextDelta (rs_index st) s], st\<lparr>rs_reasoning := rs_reasoning st @ s\<rparr>)
     | CText s \<Rightarrow> ([OutputTextDelta (rs_index st) s], st\<lparr>rs_text := rs_text st @ s\<rparr>)
     | CToolCall call \<Rightarrow>
         (let index = length (rs_calls st); item_id = function_call_item_id env index
          in ([ItemAdded (rs_index st) (function_call_item write env index call ''in_progress''),
               ArgumentsDelta (rs_index st) item_id (arguments_json write call),
               ArgumentsDone (rs_index st) item_id (arguments_json write call),
               ItemDone (rs_index st) (function_call_item write env index call ''completed'')],
              st\<lparr>rs_index := rs_index st + 1, rs_calls := rs_calls st @ [call]\<rparr>)))"

text \<open>The loop over the chunks, which also switches once more when the chunks end.\<close>

fun responses_loop ::
  "('n Value \<Rightarrow> rstr) \<Rightarrow> 'n Envelope \<Rightarrow> 'n Chunk list \<Rightarrow> GenerationError option \<Rightarrow> 'n ResponsesStream
    \<Rightarrow> 'n ResponsesEvent list \<times> 'n ResponsesStream" where
  "responses_loop write env [] failed st = (case failed of Some e \<Rightarrow> ([ResponsesError e], st) | None \<Rightarrow> switch_item env None st)"
| "responses_loop write env (c # cs) failed st =
    (let (switched, st) = switch_item env (chunk_kind (Some c)) st;
         (es, st) = item_events write env c st;
         (rest, st) = responses_loop write env cs failed st
     in (switched @ es @ rest, st))"

definition responses_events ::
  "(nat \<Rightarrow> 'n) \<Rightarrow> ('n Value \<Rightarrow> rstr) \<Rightarrow> 'n Envelope \<Rightarrow> 'n Chunk list \<Rightarrow> GenerationError option \<Rightarrow> 'n Generation
    \<Rightarrow> (nat \<times> 'n ResponsesEvent) list" where
  "responses_events to_num write env cs failed g =
    (let started = response_object to_num env ''in_progress'' JNull [] JNull;
         (es, st) = responses_loop write env cs failed \<lparr>rs_reasoning = [], rs_text = [], rs_calls = [], rs_index = 0, rs_open = None\<rparr>;
         (status, incomplete) = status_of (generation_finish g)
     in List.enumerate 0 ([Created started, InProgress started] @ es
        @ (if failed \<noteq> None then []
           else [Completed (response_object to_num env status incomplete (output_items write env (rs_reasoning st) (rs_text st) (rs_calls st))
             (usage_json to_num g))])))"

text \<open>The events on the wire.\<close>

definition wire_event :: "string \<Rightarrow> (string \<times> 'n Value) list \<Rightarrow> 'n \<Rightarrow> string \<times> 'n Value" where
  "wire_event name members seq_no = (name, json_object ((''type'', json_text name) # members @ [(''sequence_number'', JNumber seq_no)]))"

fun responses_sse :: "(nat \<Rightarrow> 'n) \<Rightarrow> 'n Envelope \<Rightarrow> (GenerationError \<Rightarrow> (string \<times> 'n Value) list) \<Rightarrow> nat \<times> 'n ResponsesEvent \<Rightarrow> string \<times> 'n Value" where
  "responses_sse to_num env payload (n, Created v) = wire_event ''response.created'' [(''response'', v)] (to_num n)"
| "responses_sse to_num env payload (n, InProgress v) = wire_event ''response.in_progress'' [(''response'', v)] (to_num n)"
| "responses_sse to_num env payload (n, ItemAdded i v) =
    wire_event ''response.output_item.added'' [(''output_index'', JNumber (to_num i)), (''item'', v)] (to_num n)"
| "responses_sse to_num env payload (n, ContentPartAdded i) =
    wire_event ''response.content_part.added'' [(''item_id'', JString (message_item_id env)), (''output_index'', JNumber (to_num i)),
      (''content_index'', JNumber (to_num 0)), (''part'', output_text [])] (to_num n)"
| "responses_sse to_num env payload (n, ReasoningTextDelta i s) =
    wire_event ''response.reasoning_text.delta'' [(''item_id'', JString (reasoning_item_id env)), (''output_index'', JNumber (to_num i)),
      (''content_index'', JNumber (to_num 0)), (''delta'', JString s)] (to_num n)"
| "responses_sse to_num env payload (n, ReasoningTextDone i s) =
    wire_event ''response.reasoning_text.done'' [(''item_id'', JString (reasoning_item_id env)), (''output_index'', JNumber (to_num i)),
      (''content_index'', JNumber (to_num 0)), (''text'', JString s)] (to_num n)"
| "responses_sse to_num env payload (n, OutputTextDelta i s) =
    wire_event ''response.output_text.delta'' [(''item_id'', JString (message_item_id env)), (''output_index'', JNumber (to_num i)),
      (''content_index'', JNumber (to_num 0)), (''delta'', JString s)] (to_num n)"
| "responses_sse to_num env payload (n, OutputTextDone i s) =
    wire_event ''response.output_text.done'' [(''item_id'', JString (message_item_id env)), (''output_index'', JNumber (to_num i)),
      (''content_index'', JNumber (to_num 0)), (''text'', JString s)] (to_num n)"
| "responses_sse to_num env payload (n, ContentPartDone i s) =
    wire_event ''response.content_part.done'' [(''item_id'', JString (message_item_id env)), (''output_index'', JNumber (to_num i)),
      (''content_index'', JNumber (to_num 0)), (''part'', output_text s)] (to_num n)"
| "responses_sse to_num env payload (n, ArgumentsDelta i item s) =
    wire_event ''response.function_call_arguments.delta'' [(''item_id'', JString item), (''output_index'', JNumber (to_num i)),
      (''delta'', JString s)] (to_num n)"
| "responses_sse to_num env payload (n, ArgumentsDone i item s) =
    wire_event ''response.function_call_arguments.done'' [(''item_id'', JString item), (''output_index'', JNumber (to_num i)),
      (''arguments'', JString s)] (to_num n)"
| "responses_sse to_num env payload (n, ItemDone i v) =
    wire_event ''response.output_item.done'' [(''output_index'', JNumber (to_num i)), (''item'', v)] (to_num n)"
| "responses_sse to_num env payload (n, Completed v) = wire_event ''response.completed'' [(''response'', v)] (to_num n)"
| "responses_sse to_num env payload (n, ResponsesError e) =
    (''error'', json_object (payload e @ [(''sequence_number'', JNumber (to_num n))]))"

end
