(* ===== verification/ChatReply.thy ===== *)
theory ChatReply
  imports AnthropicReply "HOL-Library.Countable"
begin

text \<open>
  The chat completion stream against its client, who joins the deltas it is sent, and a served chat message sent
  back in the next request.
\<close>

section \<open>The client\<close>

record 'n ChatReader =
  ch_content :: rstr
  ch_reasoning :: rstr
  ch_calls :: "'n Value list"
  ch_role :: "string option"
  ch_finish :: "string option"
  ch_usage :: "Usage option"
  ch_done :: bool

definition new_chat_reader :: "'n ChatReader" where
  "new_chat_reader = \<lparr>ch_content = [], ch_reasoning = [], ch_calls = [], ch_role = None, ch_finish = None, ch_usage = None, ch_done = False\<rparr>"

definition opt_text :: "rstr option \<Rightarrow> rstr" where
  "opt_text s = (case s of Some s \<Rightarrow> s | None \<Rightarrow> [])"

text \<open>A role once and first; deltas until a finish reason; then the end.\<close>

fun read_chat :: "'n ChatEvent \<Rightarrow> 'n ChatReader \<Rightarrow> 'n ChatReader option" where
  "read_chat (ChatChunk d f u) rd =
    (if ch_finish rd \<noteq> None \<or> (cd_role d = None) = (ch_role rd = None) then None
     else Some (rd\<lparr>ch_role := or_else (ch_role rd) (cd_role d),
       ch_content := ch_content rd @ opt_text (Option.bind (cd_content d) id),
       ch_reasoning := ch_reasoning rd @ opt_text (cd_reasoning_content d),
       ch_calls := ch_calls rd @ (case cd_tool_calls d of Some vs \<Rightarrow> vs | None \<Rightarrow> []),
       ch_finish := f, ch_usage := u\<rparr>))"
| "read_chat (ChatError _) rd = None"
| "read_chat ChatDone rd = (if ch_finish rd \<noteq> None \<and> \<not> ch_done rd then Some (rd\<lparr>ch_done := True\<rparr>) else None)"

fun read_chats :: "'n ChatEvent list \<Rightarrow> 'n ChatReader \<Rightarrow> 'n ChatReader option" where
  "read_chats [] rd = Some rd"
| "read_chats (e # es) rd = do { rd \<leftarrow> read_chat e rd; read_chats es rd }"

lemma read_chats_append: "read_chats (es @ fs) rd = do { rd \<leftarrow> read_chats es rd; read_chats fs rd }"
  by (induction es arbitrary: rd) (simp_all split: bind_split)

definition call_entry :: "(nat \<Rightarrow> 'n) \<Rightarrow> ('n Value \<Rightarrow> rstr) \<Rightarrow> nat \<Rightarrow> nat \<times> 'n ParsedToolCall \<Rightarrow> 'n Value" where
  "call_entry to_num write request_id = (\<lambda>(k, call).
     JObject (tool_call_fields write request_id k call @ [(lit ''index'', JNumber (to_num k))]))"

definition has_read :: "(nat \<Rightarrow> 'n) \<Rightarrow> ('n Value \<Rightarrow> rstr) \<Rightarrow> nat \<Rightarrow> 'n Collected \<Rightarrow> 'n ChatReader \<Rightarrow> bool" where
  "has_read to_num write request_id co rd \<longleftrightarrow> ch_content rd = co_text co \<and> ch_reasoning rd = co_reasoning co
     \<and> ch_calls rd = map (call_entry to_num write request_id) (List.enumerate 0 (co_tool_calls co))"

lemma chat_chunk_read:
  assumes "has_read to_num write i co rd" and "ch_finish rd = None" "ch_role rd \<noteq> None" "\<not> ch_done rd"
    and "chat_chunk to_num write i c (length (co_tool_calls co)) = (e, n)"
  shows "\<exists>rd'. read_chat e rd = Some rd' \<and> has_read to_num write i (add_chunk c co) rd' \<and> ch_finish rd' = None
    \<and> ch_role rd' = ch_role rd \<and> \<not> ch_done rd' \<and> n = length (co_tool_calls (add_chunk c co))"
  using assms
  by (cases c) (auto simp: chat_chunk_def has_read_def add_chunk_def no_delta_def opt_text_def call_entry_def enumerate_append_eq or_else_def)

lemma chat_chunks_read:
  "has_read to_num write i co rd \<Longrightarrow> ch_finish rd = None \<Longrightarrow> ch_role rd \<noteq> None \<Longrightarrow> \<not> ch_done rd \<Longrightarrow>
    \<exists>rd'. read_chats (chat_chunks to_num write i cs (length (co_tool_calls co))) rd = Some rd'
      \<and> has_read to_num write i (fold add_chunk cs co) rd' \<and> ch_finish rd' = None \<and> ch_role rd' = ch_role rd \<and> \<not> ch_done rd'"
proof (induction cs arbitrary: co rd)
  case (Cons c cs)
  obtain e n where e: "chat_chunk to_num write i c (length (co_tool_calls co)) = (e, n)" by fastforce
  from chat_chunk_read [OF Cons.prems e] obtain rd1 where one: "read_chat e rd = Some rd1" "has_read to_num write i (add_chunk c co) rd1"
    "ch_finish rd1 = None" "ch_role rd1 = ch_role rd" "\<not> ch_done rd1" "n = length (co_tool_calls (add_chunk c co))" by blast
  with Cons.IH [OF one(2,3)] Cons.prems(3) show ?case by (simp add: e)
qed simp



section \<open>Sent back\<close>

text \<open>The served message as the client's next request carries it, field by field.\<close>

definition client_message :: "'n ChatDelta \<Rightarrow> 'n ChatMessage" where
  "client_message d = \<lparr>cm_role = lit ''assistant'', cm_content = map_option ContentText (Option.bind (cd_content d) id),
     cm_reasoning_content = cd_reasoning_content d, cm_tool_calls = cd_tool_calls d\<rparr>"

text \<open>What a JSON library writes it reads back; an object is not blank.\<close>

definition reads_objects :: "('n, 'i) Readers \<Rightarrow> bool" where
  "reads_objects rd \<longleftrightarrow> (\<forall>kvs. rd_json rd (rd_write rd (JObject kvs)) = Some (JObject kvs) \<and> trim (rd_write rd (JObject kvs)) \<noteq> [])"

lemma replayed_call_back:
  assumes "reads_objects rd" and "pc_name call \<noteq> []"
  shows "replayed_call rd (tool_call_value (rd_write rd) i k call) = Inr call"
proof -
  have keys: "lit ''function'' \<noteq> lit ''id''" "lit ''function'' \<noteq> lit ''type''" "lit ''arguments'' \<noteq> lit ''name''"
    by (simp_all add: lit_def)
  show ?thesis using assms
    by (simp add: replayed_call_def tool_call_value_def tool_call_fields_def keys json_object_def call_arguments_def
        arguments_json_def reads_objects_def Let_def)
qed

lemma replayed_calls_back:
  assumes "reads_objects rd"
  shows "\<forall>call \<in> set calls. pc_name call \<noteq> [] \<Longrightarrow>
    replayed_calls rd (map (\<lambda>(k, call). tool_call_value (rd_write rd) i k call) (List.enumerate n calls)) = Inr calls"
  by (induction calls arbitrary: n) (simp_all add: replayed_call_back [OF assms])

text \<open>C17: A served chat message can be sent back. Replayed as it was sent, with its text, its reasoning and its calls as
  JSON text, it becomes one assistant turn with exactly the reasoning, text and calls the server collected.
  Calls have the names the parser gives them, which are not empty.\<close>

theorem chat_reply_replays:
  assumes "reads_objects rd" and "\<forall>call \<in> set (co_tool_calls co). pc_name call \<noteq> []"
  shows "openai_turns rd [client_message (chat_message (rd_write rd) co i)] (cv, system)
    = Some (Inr (push_turn (Assistant (co_reasoning co) (co_text co) (co_tool_calls co)) cv, system))"
proof -
  have roles: "lit ''assistant'' \<noteq> lit ''user''" "lit ''assistant'' \<noteq> lit ''system''" "lit ''assistant'' \<noteq> lit ''developer''"
    by (simp_all add: lit_def)
  define m where "m = client_message (chat_message (rd_write rd) co i)"
  have fields: "cm_role m = lit ''assistant''" "cm_reasoning_content m = (if co_reasoning co \<noteq> [] then Some (co_reasoning co) else None)"
    by (simp_all add: m_def client_message_def chat_message_def Let_def)
  have "read_optional rd (cm_content m) = Some (Inr (folded_default\<lparr>fc_text := co_text co\<rparr>))"
    by (auto simp: m_def client_message_def chat_message_def Let_def read_optional_def read_content_def content_fold_def
        map_error_def folded_default_def)
  moreover have "replayed_tool_calls rd (cm_tool_calls m) = Inr (co_tool_calls co)"
    using replayed_calls_back [OF assms, of i 0]
    by (auto simp: m_def client_message_def chat_message_def Let_def replayed_tool_calls_def)
  ultimately show ?thesis unfolding m_def [symmetric]
    by (simp add: openai_turn_def fields roles push_results_def Let_def) (simp add: folded_default_def)
qed

text \<open>A reader and writer to try it on: every value is one character, behind a mark that is not white.\<close>

instance Value :: (countable) countable
  by countable_datatype

definition coded_readers :: "(nat, nat) Readers" where
  "coded_readers = \<lparr>rd_parts = \<lambda>_. None, rd_json = \<lambda>s. Some (from_nat (s ! 1)), rd_image = \<lambda>_. Inl Undecodable,
     rd_write = \<lambda>v. [123, to_nat v]\<rparr>"

lemma coded_reads: "reads_objects coded_readers"
  by (simp add: reads_objects_def coded_readers_def trim_def trim_start_def trim_end_def is_white_def)

theorem chat_reply_replays_witness:
  "openai_turns coded_readers [client_message (chat_message (rd_write coded_readers)
       \<lparr>co_reasoning = [], co_text = [], co_tool_calls = [\<lparr>pc_name = lit ''f'', pc_arguments = [(lit ''a'', JNull)]\<rparr>]\<rparr> 4)] (empty_conversation, [])
   = Some (Inr (push_turn (Assistant [] [] [\<lparr>pc_name = lit ''f'', pc_arguments = [(lit ''a'', JNull)]\<rparr>]) empty_conversation, []))"
  using chat_reply_replays [OF coded_reads, of
      "\<lparr>co_reasoning = [], co_text = [], co_tool_calls = [\<lparr>pc_name = lit ''f'', pc_arguments = [(lit ''a'', JNull)]\<rparr>]\<rparr>" 4
      empty_conversation "[]"]
  by (simp add: lit_def)

end
