(* ===== verification/ResponsesReply.thy ===== *)
theory ResponsesReply
  imports ResponsesServed ChatReply
begin

text \<open>
  The Responses event stream against its client, and a served response sent back as input: output items are opened,
  filled and closed one at a time under consecutive indices and sequence numbers, the last event is the whole
  response, and its items fold to one assistant turn, except that a namespaced call loses its group.
\<close>

section \<open>The client\<close>

definition type_of :: "'n Value \<Rightarrow> rstr option" where
  "type_of v = Option.bind (json_get v (lit ''type'')) as_str"

text \<open>An open item: its type, the text its deltas gave so far, and whether that text was declared done.\<close>

record 'n ResponsesReader =
  rc_seen :: nat
  rc_items :: "'n Value list"
  rc_open :: "(rstr \<times> rstr \<times> bool) option"
  rc_result :: "'n Value option"

definition new_responses_reader :: "'n ResponsesReader" where
  "new_responses_reader = \<lparr>rc_seen = 0, rc_items = [], rc_open = None, rc_result = None\<rparr>"

definition fill :: "string \<Rightarrow> usize \<Rightarrow> rstr \<Rightarrow> 'n ResponsesReader \<Rightarrow> 'n ResponsesReader option" where
  "fill kind i s rd = (case rc_open rd of
     Some (k, t, False) \<Rightarrow> if k = lit kind \<and> i = length (rc_items rd) then Some (rd\<lparr>rc_open := Some (k, t @ s, False)\<rparr>) else None
   | _ \<Rightarrow> None)"

definition declare_done :: "string \<Rightarrow> usize \<Rightarrow> rstr \<Rightarrow> 'n ResponsesReader \<Rightarrow> 'n ResponsesReader option" where
  "declare_done kind i s rd = (case rc_open rd of
     Some (k, t, _) \<Rightarrow> if k = lit kind \<and> i = length (rc_items rd) \<and> s = t then Some (rd\<lparr>rc_open := Some (k, t, True)\<rparr>) else None
   | None \<Rightarrow> None)"

fun read_responses_event :: "'n ResponsesEvent \<Rightarrow> 'n ResponsesReader \<Rightarrow> 'n ResponsesReader option" where
  "read_responses_event (Created _) rd = (if rc_seen rd = 0 then Some rd else None)"
| "read_responses_event (InProgress _) rd = (if rc_seen rd = 1 then Some rd else None)"
| "read_responses_event (ItemAdded i v) rd =
    (if rc_open rd = None \<and> i = length (rc_items rd)
     then do { k \<leftarrow> type_of v; Some (rd\<lparr>rc_open := Some (k, [], False)\<rparr>) } else None)"
| "read_responses_event (ContentPartAdded i) rd = fill ''message'' i [] rd"
| "read_responses_event (ReasoningTextDelta i s) rd = fill ''reasoning'' i s rd"
| "read_responses_event (ReasoningTextDone i s) rd = declare_done ''reasoning'' i s rd"
| "read_responses_event (OutputTextDelta i s) rd = fill ''message'' i s rd"
| "read_responses_event (OutputTextDone i s) rd = declare_done ''message'' i s rd"
| "read_responses_event (ContentPartDone i s) rd = declare_done ''message'' i s rd"
| "read_responses_event (ArgumentsDelta i _ s) rd = fill ''function_call'' i s rd"
| "read_responses_event (ArgumentsDone i _ s) rd = declare_done ''function_call'' i s rd"
| "read_responses_event (ItemDone i v) rd = (case rc_open rd of
     Some (k, _, True) \<Rightarrow>
       if i = length (rc_items rd) \<and> type_of v = Some k then Some (rd\<lparr>rc_items := rc_items rd @ [v], rc_open := None\<rparr>) else None
   | _ \<Rightarrow> None)"
| "read_responses_event (Completed v) rd =
    (if rc_open rd = None \<and> rc_result rd = None then Some (rd\<lparr>rc_result := Some v\<rparr>) else None)"
| "read_responses_event (ResponsesError _) rd = None"

text \<open>Sequence numbers leave no gap.\<close>

fun read_numbered :: "(nat \<times> 'n ResponsesEvent) list \<Rightarrow> 'n ResponsesReader \<Rightarrow> 'n ResponsesReader option" where
  "read_numbered [] rd = Some rd"
| "read_numbered ((n, e) # es) rd =
    (if n \<noteq> rc_seen rd then None
     else do { rd \<leftarrow> read_responses_event e rd; read_numbered es (rd\<lparr>rc_seen := Suc n\<rparr>) })"

section \<open>What the stream is read as\<close>

fun read_items :: "'n ResponsesEvent list \<Rightarrow> 'n ResponsesReader \<Rightarrow> 'n ResponsesReader option" where
  "read_items [] rd = Some rd"
| "read_items (e # es) rd = do { rd \<leftarrow> read_responses_event e rd; read_items es (rd\<lparr>rc_seen := Suc (rc_seen rd)\<rparr>) }"

lemma read_items_append: "read_items (es @ fs) rd = do { rd \<leftarrow> read_items es rd; read_items fs rd }"
  by (induction es arbitrary: rd) (simp_all split: bind_split)

lemma seen_kept: "read_responses_event e rd = Some rd' \<Longrightarrow> rc_seen rd' = rc_seen rd"
  by (cases e) (auto simp: fill_def declare_done_def bind_eq_Some_conv split: if_splits option.splits bool.splits prod.splits)

lemma numbered_items: "read_numbered (List.enumerate (rc_seen rd) es) rd = read_items es rd"
proof (induction es arbitrary: rd)
  case (Cons e es)
  show ?case
  proof (cases "read_responses_event e rd")
    case (Some rd1)
    have "rc_seen rd1 = rc_seen rd" using seen_kept Some by blast
    then show ?thesis using Some Cons [of "rd1\<lparr>rc_seen := Suc (rc_seen rd)\<rparr>"] by simp
  qed simp
qed simp

definition of_type :: "string \<Rightarrow> 'n Value list \<Rightarrow> 'n Value list" where
  "of_type kind items = filter (\<lambda>v. type_of v = Some (lit kind)) items"

lemma item_types [simp]:
  "type_of (reasoning_item env s) = Some (lit ''reasoning'')" "type_of (message_item env s) = Some (lit ''message'')"
  "type_of (function_call_item write env k call status) = Some (lit ''function_call'')"
  by (simp_all add: type_of_def reasoning_item_def message_item_def function_call_item_def json_object_def lit_def split_beta)

lemma kinds_differ [simp]:
  "lit ''reasoning'' \<noteq> lit ''message''" "lit ''message'' \<noteq> lit ''reasoning''" "lit ''reasoning'' \<noteq> lit ''function_call''"
  "lit ''function_call'' \<noteq> lit ''reasoning''" "lit ''message'' \<noteq> lit ''function_call''" "lit ''function_call'' \<noteq> lit ''message''"
  by (simp_all add: lit_def)

lemma of_type_simps [simp]:
  "of_type kind [] = []" "of_type kind (a @ b) = of_type kind a @ of_type kind b"
  "of_type ''reasoning'' [reasoning_item env s] = [reasoning_item env s]" "of_type ''message'' [reasoning_item env s] = []"
  "of_type ''function_call'' [reasoning_item env s] = []"
  "of_type ''reasoning'' [message_item env s] = []" "of_type ''message'' [message_item env s] = [message_item env s]"
  "of_type ''function_call'' [message_item env s] = []"
  "of_type ''reasoning'' [function_call_item write env k call status] = []"
  "of_type ''message'' [function_call_item write env k call status] = []"
  "of_type ''function_call'' [function_call_item write env k call status] = [function_call_item write env k call status]"
  by (simp_all add: of_type_def)

definition call_items :: "('n Value \<Rightarrow> rstr) \<Rightarrow> 'n Envelope \<Rightarrow> 'n ParsedToolCall list \<Rightarrow> 'n Value list" where
  "call_items write env calls = map (\<lambda>(index, call). function_call_item write env index call ''completed'') (List.enumerate 0 calls)"

text \<open>Reasoning and text come in one span each, calls anywhere around them; spans are never empty.\<close>

fun one_span_each :: "bool \<Rightarrow> bool \<Rightarrow> ItemKind option \<Rightarrow> 'n Chunk list \<Rightarrow> bool" where
  "one_span_each r t k [] \<longleftrightarrow> True"
| "one_span_each r t k (CReasoning s # cs) \<longleftrightarrow> s \<noteq> [] \<and> (k = Some ReasoningKind \<or> \<not> r) \<and> one_span_each True t (Some ReasoningKind) cs"
| "one_span_each r t k (CText s # cs) \<longleftrightarrow> s \<noteq> [] \<and> (k = Some MessageKind \<or> \<not> t) \<and> one_span_each r True (Some MessageKind) cs"
| "one_span_each r t k (CToolCall _ # cs) \<longleftrightarrow> one_span_each r t None cs"

text \<open>Where the client is while the stream is in its state.\<close>

definition tracks :: "('n Value \<Rightarrow> rstr) \<Rightarrow> 'n Envelope \<Rightarrow> 'n ResponsesStream \<Rightarrow> 'n ResponsesReader \<Rightarrow> bool" where
  "tracks write env st rd \<longleftrightarrow> rc_result rd = None \<and> rs_index st = length (rc_items rd)
     \<and> of_type ''function_call'' (rc_items rd) = call_items write env (rs_calls st)
     \<and> of_type ''reasoning'' (rc_items rd)
         = (if rs_reasoning st \<noteq> [] \<and> rs_open st \<noteq> Some ReasoningKind then [reasoning_item env (rs_reasoning st)] else [])
     \<and> of_type ''message'' (rc_items rd)
         = (if rs_text st \<noteq> [] \<and> rs_open st \<noteq> Some MessageKind then [message_item env (rs_text st)] else [])
     \<and> rc_open rd = (case rs_open st of
          None \<Rightarrow> None
        | Some ReasoningKind \<Rightarrow> Some (lit ''reasoning'', rs_reasoning st, False)
        | Some MessageKind \<Rightarrow> Some (lit ''message'', rs_text st, False))"

lemma opened_types [simp]:
  "type_of (json_object [(''id'', i), (''type'', json_text ''reasoning''), a, b]) = Some (lit ''reasoning'')"
  "type_of (json_object [(''id'', i), (''type'', json_text ''message''), a, b, c]) = Some (lit ''message'')"
  by (simp_all add: type_of_def json_object_def lit_def split_beta)

lemma close_tracked:
  assumes "tracks write env st rd" and "rs_open st = Some ReasoningKind \<longrightarrow> rs_reasoning st \<noteq> []"
    and "rs_open st = Some MessageKind \<longrightarrow> rs_text st \<noteq> []"
  shows "\<exists>rd'. read_items (close_item env st) rd = Some rd'
    \<and> tracks write env (st\<lparr>rs_index := if rs_open st = None then rs_index st else rs_index st + 1, rs_open := None\<rparr>) rd'"
proof (cases "rs_open st")
  case None
  then show ?thesis using assms by (simp add: close_item_def tracks_def)
next
  case (Some kind)
  then show ?thesis using assms
    by (cases kind) (auto simp: close_item_def tracks_def declare_done_def split: if_splits)
qed

text \<open>The span that is open has said something, unless it has just been opened.\<close>

definition spoken :: "bool \<Rightarrow> bool \<Rightarrow> 'n ResponsesStream \<Rightarrow> bool" where
  "spoken r t st \<longleftrightarrow> (r \<longleftrightarrow> rs_reasoning st \<noteq> []) \<and> (t \<longleftrightarrow> rs_text st \<noteq> [])
     \<and> (rs_open st = Some ReasoningKind \<longrightarrow> r) \<and> (rs_open st = Some MessageKind \<longrightarrow> t)"

lemma chunk_tracked:
  assumes tr: "tracks write env st rd" and sp: "spoken r t st" and once: "one_span_each r t (rs_open st) (c # cs)"
    and sw: "switch_item env (chunk_kind (Some c)) st = (es1, st1)" and it: "item_events write env c st1 = (es2, st2)"
  shows "\<exists>rd' r' t'. read_items (es1 @ es2) rd = Some rd' \<and> tracks write env st2 rd' \<and> spoken r' t' st2
    \<and> one_span_each r' t' (rs_open st2) cs"
proof -
  define st0 where "st0 = st\<lparr>rs_index := if rs_open st = None then rs_index st else rs_index st + 1, rs_open := None\<rparr>"
  obtain rd0 where rd0: "read_items (close_item env st) rd = Some rd0" "tracks write env st0 rd0"
    using close_tracked [OF tr] sp by (auto simp: spoken_def st0_def)
  show ?thesis
  proof (cases c)
    case (CToolCall call)
    have st1: "st1 = st0" "es1 = (if rs_open st = None then [] else close_item env st)"
      using sw by (auto simp: switch_item_def CToolCall st0_def open_item_def split: if_splits)
    have "read_items es1 rd = Some rd0" using rd0(1) by (auto simp: st1 close_item_def split: option.splits if_splits)
    moreover have "spoken r t st2" "one_span_each r t (rs_open st2) cs"
      using it sp once by (auto simp: item_events_def CToolCall st1 st0_def spoken_def Let_def)
    moreover have "\<exists>rd'. read_items es2 rd0 = Some rd' \<and> tracks write env st2 rd'"
      using it rd0(2) by (auto simp: item_events_def CToolCall st1 tracks_def st0_def fill_def declare_done_def call_items_def
          enumerate_append_eq Let_def)
    ultimately show ?thesis by (auto simp: read_items_append)
  next
    case (CReasoning s)
    have once': "s \<noteq> []" "rs_open st = Some ReasoningKind \<or> \<not> r" "one_span_each True t (Some ReasoningKind) cs"
      using once by (simp_all add: CReasoning)
    show ?thesis
    proof (cases "rs_open st = Some ReasoningKind")
      case True
      have run: "es1 = []" "es2 = [ReasoningTextDelta (rs_index st) s]" "st2 = st\<lparr>rs_reasoning := rs_reasoning st @ s\<rparr>"
        using sw it True by (auto simp: switch_item_def CReasoning item_events_def)
      have "\<exists>rd'. read_items es2 rd = Some rd' \<and> tracks write env st2 rd'"
        using tr True by (auto simp: run tracks_def fill_def)
      moreover have "spoken True t st2" "rs_open st2 = Some ReasoningKind" using sp True once'(1) by (auto simp: run spoken_def)
      ultimately show ?thesis using once'(3) by (auto simp: run(1))
    next
      case False
      then have nr: "rs_reasoning st = []" using once'(2) sp by (simp add: spoken_def)
      have st1: "st1 = st0\<lparr>rs_open := Some ReasoningKind\<rparr>" "es1 = close_item env st @ open_item env (rs_index st0) (Some ReasoningKind)"
        using sw False by (auto simp: switch_item_def CReasoning st0_def Let_def)
      have "\<exists>rd'. read_items (open_item env (rs_index st0) (Some ReasoningKind) @ es2) rd0 = Some rd' \<and> tracks write env st2 rd'"
        using it rd0(2) nr once'(1)
        by (auto simp: item_events_def CReasoning st1 tracks_def st0_def fill_def open_item_def)
      moreover have "spoken True t st2" "rs_open st2 = Some ReasoningKind"
        using it sp nr once'(1) by (auto simp: item_events_def CReasoning st1 st0_def spoken_def)
      ultimately show ?thesis using rd0(1) once'(3) by (auto simp: st1(2) read_items_append)
    qed
  next
    case (CText s)
    have once': "s \<noteq> []" "rs_open st = Some MessageKind \<or> \<not> t" "one_span_each r True (Some MessageKind) cs"
      using once by (simp_all add: CText)
    show ?thesis
    proof (cases "rs_open st = Some MessageKind")
      case True
      have run: "es1 = []" "es2 = [OutputTextDelta (rs_index st) s]" "st2 = st\<lparr>rs_text := rs_text st @ s\<rparr>"
        using sw it True by (auto simp: switch_item_def CText item_events_def)
      have "\<exists>rd'. read_items es2 rd = Some rd' \<and> tracks write env st2 rd'"
        using tr True by (auto simp: run tracks_def fill_def)
      moreover have "spoken r True st2" "rs_open st2 = Some MessageKind" using sp True once'(1) by (auto simp: run spoken_def)
      ultimately show ?thesis using once'(3) by (auto simp: run(1))
    next
      case False
      then have nt: "rs_text st = []" using once'(2) sp by (simp add: spoken_def)
      have st1: "st1 = st0\<lparr>rs_open := Some MessageKind\<rparr>" "es1 = close_item env st @ open_item env (rs_index st0) (Some MessageKind)"
        using sw False by (auto simp: switch_item_def CText st0_def Let_def)
      have "\<exists>rd'. read_items (open_item env (rs_index st0) (Some MessageKind) @ es2) rd0 = Some rd' \<and> tracks write env st2 rd'"
        using it rd0(2) nt once'(1)
        by (auto simp: item_events_def CText st1 tracks_def st0_def fill_def open_item_def)
      moreover have "spoken r True st2" "rs_open st2 = Some MessageKind"
        using it sp nt once'(1) by (auto simp: item_events_def CText st1 st0_def spoken_def)
      ultimately show ?thesis using rd0(1) once'(3) by (auto simp: st1(2) read_items_append)
    qed
  qed
qed


lemma loop_tracked:
  "tracks write env st rd \<Longrightarrow> spoken r t st \<Longrightarrow> one_span_each r t (rs_open st) cs \<Longrightarrow>
    responses_loop write env cs None st = (es, st') \<Longrightarrow>
    \<exists>rd'. read_items es rd = Some rd' \<and> tracks write env st' rd' \<and> rs_open st' = None"
proof (induction cs arbitrary: st rd r t es)
  case Nil
  have sp: "rs_open st = Some ReasoningKind \<longrightarrow> rs_reasoning st \<noteq> []" "rs_open st = Some MessageKind \<longrightarrow> rs_text st \<noteq> []"
    using Nil.prems(2) by (auto simp: spoken_def)
  have "es = close_item env st" "st' = st\<lparr>rs_index := if rs_open st = None then rs_index st else rs_index st + 1, rs_open := None\<rparr>"
    using Nil.prems(4) by (auto simp: switch_item_def open_item_def close_item_def split: if_splits)
  then show ?case using close_tracked [OF Nil.prems(1) sp] by auto
next
  case (Cons c cs)
  obtain es1 st1 where sw: "switch_item env (chunk_kind (Some c)) st = (es1, st1)" by fastforce
  obtain es2 st2 where it: "item_events write env c st1 = (es2, st2)" by fastforce
  obtain es3 where rest: "responses_loop write env cs None st2 = (es3, st')" "es = es1 @ es2 @ es3"
    using Cons.prems(4) by (auto simp: sw it split: prod.splits)
  from chunk_tracked [OF Cons.prems(1-3) sw it] obtain rd1 r1 t1 where
    one: "read_items (es1 @ es2) rd = Some rd1" "tracks write env st2 rd1" "spoken r1 t1 st2" "one_span_each r1 t1 (rs_open st2) cs" by blast
  from Cons.IH [OF one(2-4) rest(1)] one(1) show ?case
    using read_items_append [of "es1 @ es2" es3 rd] by (auto simp: rest(2))
qed

lemma loop_says:
  "responses_loop write env cs None st = (es, st') \<Longrightarrow>
    rs_reasoning st = co_reasoning co \<and> rs_text st = co_text co \<and> rs_calls st = co_tool_calls co \<Longrightarrow>
    rs_reasoning st' = co_reasoning (fold add_chunk cs co) \<and> rs_text st' = co_text (fold add_chunk cs co)
      \<and> rs_calls st' = co_tool_calls (fold add_chunk cs co)"
proof (induction cs arbitrary: st es co)
  case (Cons c cs)
  obtain es1 st1 where sw: "switch_item env (chunk_kind (Some c)) st = (es1, st1)" by fastforce
  obtain es2 st2 where it: "item_events write env c st1 = (es2, st2)" by fastforce
  obtain es3 where rest: "responses_loop write env cs None st2 = (es3, st')"
    using Cons.prems(1) by (auto simp: sw it split: prod.splits)
  have "rs_reasoning st2 = co_reasoning (add_chunk c co) \<and> rs_text st2 = co_text (add_chunk c co)
      \<and> rs_calls st2 = co_tool_calls (add_chunk c co)"
    using sw it Cons.prems(2) by (cases c) (auto simp: switch_item_def item_events_def add_chunk_def Let_def split: if_splits)
  from Cons.IH [OF rest this] show ?case by simp
qed (auto simp: switch_item_def split: if_splits)

section \<open>Main theorems\<close>


definition hello_envelope :: "nat Envelope" where
  "hello_envelope = \<lparr>ev_id = lit ''resp_4'', ev_created = 0, ev_model = lit ''m'', ev_tools = JArray [], ev_tool_choice = JString (lit ''auto''),
     ev_parallel_tool_calls = True, ev_namespaces = []\<rparr>"

lemma hello_chunks:
  "\<exists>cs g2. all_chunks (\<lambda>_. None) (\<lambda>ts. Some ts) [EvDone Eos] hello_generation = Some (cs, None, g2) \<and> one_span_each False False None cs"
proof -
  have "case all_chunks (\<lambda>_. None) (\<lambda>ts. Some ts) [EvDone Eos] hello_generation of
    Some (cs, None, _) \<Rightarrow> one_span_each False False None cs | _ \<Rightarrow> False" by code_simp
  then show ?thesis by (auto split: option.splits)
qed


section \<open>Sent back\<close>

text \<open>What deserialising the output items this server emits gives, as the fields of \<open>InputItem\<close> say: each by its name,
  other fields ignored.\<close>

definition plain_item :: "string \<Rightarrow> 'n InputItem" where
  "plain_item kind = \<lparr>ii_kind = Some (lit kind), ii_role = None, ii_content = None, ii_name = None, ii_arguments = None,
     ii_output = None, ii_summary = None\<rparr>"

definition reads_items :: "('n Value \<Rightarrow> rstr) \<Rightarrow> 'n Envelope \<Rightarrow> ('n Value \<Rightarrow> 'n InputItem) \<Rightarrow> bool" where
  "reads_items write env item_of \<longleftrightarrow>
    (\<forall>s. item_of (reasoning_item env s)
      = (plain_item ''reasoning'')\<lparr>ii_content := Some (Parts [Known (ReasoningText s)]), ii_summary := Some (Parts [])\<rparr>)
    \<and> (\<forall>s. item_of (message_item env s)
      = (plain_item ''message'')\<lparr>ii_role := Some (lit ''assistant''), ii_content := Some (Parts [Known (OutputText s)])\<rparr>)
    \<and> (\<forall>k call. item_of (function_call_item write env k call ''completed'')
      = (plain_item ''function_call'')\<lparr>ii_name := Some (fst (split_namespace env (pc_name call))),
          ii_arguments := Some (arguments_json write call)\<rparr>)"

text \<open>A call under the name it is replayed with.\<close>

definition ungrouped :: "'n Envelope \<Rightarrow> 'n ParsedToolCall \<Rightarrow> 'n ParsedToolCall" where
  "ungrouped env call = \<lparr>pc_name = fst (split_namespace env (pc_name call)), pc_arguments = pc_arguments call\<rparr>"

lemma written_objects:
  assumes "reads_objects rd"
  shows "rd_json rd (rd_write rd (JObject kvs)) = Some (JObject kvs)" and "rd_write rd (JObject kvs) \<noteq> []"
proof -
  have "trim [] = []" by (simp add: trim_def trim_start_def trim_end_def)
  moreover have "trim (rd_write rd (JObject kvs)) \<noteq> []" using assms by (simp add: reads_objects_def)
  ultimately show "rd_write rd (JObject kvs) \<noteq> []" by metis
qed (use assms in \<open>simp add: reads_objects_def\<close>)

lemma call_items_back:
  assumes "reads_items (rd_write rd) env item_of" and "reads_objects rd"
  shows "\<forall>call \<in> set calls. fst (split_namespace env (pc_name call)) \<noteq> [] \<Longrightarrow> last_turn cv = Some (Assistant r s cs) \<Longrightarrow>
    input_items rd (map (\<lambda>(k, call). item_of (function_call_item (rd_write rd) env k call ''completed'')) (List.enumerate n calls)) cv
      = Some (Inr (set_last (Assistant r s (cs @ map (ungrouped env) calls)) cv))"
proof (induction calls arbitrary: n cs cv)
  case Nil
  then have "butlast (cv_turns cv) @ [Assistant r s cs] = cv_turns cv"
    by (auto simp: last_turn_def split: if_splits) (metis append_butlast_last_id)
  then show ?case by (simp add: set_last_def)
next
  case (Cons call calls)
  define cv1 where "cv1 = set_last (Assistant r s (cs @ [ungrouped env call])) cv"
  have kinds: "lit ''function_call'' \<noteq> lit ''message''" by (simp add: lit_def)
  note wrote = written_objects [OF assms(2)]
  have "input_item rd (item_of (function_call_item (rd_write rd) env n call ''completed'')) cv = Some (Inr cv1)"
    using assms(1) Cons.prems
    by (simp add: reads_items_def input_item_def plain_item_def kinds call_item_def arguments_json_def wrote cv1_def ungrouped_def)
  moreover have "last_turn cv1 = Some (Assistant r s (cs @ [ungrouped env call]))" by (simp add: cv1_def set_last_def last_turn_def)
  ultimately show ?case using Cons.IH [of cv1 "cs @ [ungrouped env call]" "Suc n"] Cons.prems(1)
    by (simp add: cv1_def set_last_def)
qed


lemma items_back:
  assumes reads: "reads_items (rd_write rd) env item_of" and obj: "reads_objects rd"
    and names: "\<forall>call \<in> set calls. fst (split_namespace env (pc_name call)) \<noteq> []"
    and fresh: "\<forall>r s cs. last_turn cv \<noteq> Some (Assistant r s cs)"
  shows "input_items rd (map item_of (output_items (rd_write rd) env reasoning said calls)) cv
    = Some (Inr (push_turn (Assistant reasoning said (map (ungrouped env) calls)) cv))"
proof -
  let ?calls = "map (\<lambda>(k, call). item_of (function_call_item (rd_write rd) env k call ''completed'')) (List.enumerate 0 calls)"
  have kinds: "lit ''reasoning'' \<noteq> lit ''message''" "lit ''reasoning'' \<noteq> lit ''function_call''"
    "lit ''reasoning'' \<noteq> lit ''function_call_output''" "lit ''function_call'' \<noteq> lit ''message''"
    "lit ''assistant'' \<noteq> lit ''system''" "lit ''assistant'' \<noteq> lit ''developer''" "lit ''assistant'' \<noteq> lit ''user''"
    by (simp_all add: lit_def)
  have thought: "input_item rd (item_of (reasoning_item env reasoning)) cv = Some (Inr (push_turn (Assistant reasoning [] []) cv))"
    if "reasoning \<noteq> []"
    using reads fresh that
    by (auto simp: reads_items_def input_item_def plain_item_def kinds flatten_options_def List.map_filter_simps read_content_def
        content_fold_def fold_parts_Cons fold_parts_Nil fold_part_def fold_plain_def map_error_def add_piece_line_def add_line_def
        folded_default_def push_reasoning_def split: option.split Turn.split)
  have read: "read_optional rd (Some (Parts [Known (OutputText s)])) = Some (Inr (folded_default\<lparr>fc_text := s\<rparr>))" for s
    by (simp add: read_optional_def read_content_def content_fold_def fold_parts_Cons fold_parts_Nil fold_part_def fold_plain_def
        map_error_def folded_default_def add_text_def add_line_def)
  have spoke: "input_item rd (item_of (message_item env s)) cv1 = Some (Inr (case last_turn cv1 of
      Some (Assistant r c cs) \<Rightarrow> set_last (Assistant r (if s = [] then c else add_line c s) cs) cv1
    | _ \<Rightarrow> push_turn (Assistant [] s []) cv1))" for s cv1
    using reads
    by (auto simp: reads_items_def input_item_def plain_item_def read message_item_turn_def kinds folded_default_def push_results_def
        Let_def split: option.split Turn.split)
  have last: "last_turn (push_turn t cv) = Some t" "set_last t' (push_turn t cv) = push_turn t' cv" for t t'
    by (simp_all add: last_turn_def push_turn_def set_last_def)
  have rest: "input_items rd ?calls (push_turn (Assistant reasoning said []) cv)
      = Some (Inr (push_turn (Assistant reasoning said (map (ungrouped env) calls)) cv))"
    using call_items_back [OF reads obj names, of "push_turn (Assistant reasoning said []) cv" reasoning said "[]" 0]
    by (simp add: last)
  have split: "map item_of (output_items (rd_write rd) env reasoning said calls)
      = (if reasoning \<noteq> [] then [item_of (reasoning_item env reasoning)] else [])
        @ (if said \<noteq> [] \<or> calls = [] then [item_of (message_item env said)] else []) @ ?calls"
    by (auto simp: output_items_def split_beta comp_def)
  have said_fresh: "input_item rd (item_of (message_item env said)) cv = Some (Inr (push_turn (Assistant [] said []) cv))"
    using spoke [of said cv] fresh by (auto split: option.split Turn.split)
  show ?thesis
  proof (cases "reasoning = []")
    case True
    show ?thesis
    proof (cases "said \<noteq> [] \<or> calls = []")
      case said_item: True
      then show ?thesis unfolding split using rest said_fresh True by simp
    next
      case False
      then obtain call calls' where calls: "calls = call # calls'" "said = []" by (cases calls) auto
      define cv1 where "cv1 = push_turn (Assistant [] [] [ungrouped env call]) cv"
  note wrote = written_objects [OF obj]
      have "input_item rd (item_of (function_call_item (rd_write rd) env 0 call ''completed'')) cv = Some (Inr cv1)"
        using reads names fresh
        by (auto simp: calls reads_items_def input_item_def plain_item_def kinds call_item_def arguments_json_def wrote cv1_def
            ungrouped_def Let_def split: option.split Turn.split)
      moreover have "\<forall>call \<in> set calls'. fst (split_namespace env (pc_name call)) \<noteq> []" using names calls by simp
      ultimately show ?thesis unfolding split
        using call_items_back [OF reads obj, of calls' cv1 "[]" "[]" "[ungrouped env call]" 1] True
        by (simp add: calls cv1_def last)
    qed
  next
    case False
    show ?thesis unfolding split using rest thought [OF False] False spoke [of said "push_turn (Assistant reasoning [] []) cv"]
      by (auto simp: last add_line_def)
  qed
qed

text \<open>C18: A served response can be sent back. Its output items, replayed as input after a turn that is not the
  assistant's, fold to one assistant turn with exactly the reasoning, the text and the calls the server
  collected, provided no call's name was split into name and namespace on the way out.\<close>

theorem responses_reply_replays:
  assumes "reads_items (rd_write rd) env item_of" and "reads_objects rd"
    and "\<forall>call \<in> set (co_tool_calls co). pc_name call \<noteq> [] \<and> split_namespace env (pc_name call) = (pc_name call, None)"
    and "\<forall>r s cs. last_turn cv \<noteq> Some (Assistant r s cs)"
  shows "input_items rd (map item_of (output_items (rd_write rd) env (co_reasoning co) (co_text co) (co_tool_calls co))) cv
    = Some (Inr (push_turn (Assistant (co_reasoning co) (co_text co) (co_tool_calls co)) cv))"
proof -
  have "map (ungrouped env) (co_tool_calls co) = co_tool_calls co" using assms(3) by (intro map_idI) (simp add: ungrouped_def)
  then show ?thesis using items_back [OF assms(1,2) _ assms(4), of "co_tool_calls co"] assms(3) by simp
qed

definition read_field :: "'n Value \<Rightarrow> string \<Rightarrow> rstr" where
  "read_field v k = (case json_get v (lit k) of Some (JString s) \<Rightarrow> s | _ \<Rightarrow> [])"

definition first_part :: "'n Value \<Rightarrow> 'n Value" where
  "first_part v = (case json_get v (lit ''content'') of Some (JArray (p # _)) \<Rightarrow> p | _ \<Rightarrow> JNull)"

definition read_item :: "'n Value \<Rightarrow> 'n InputItem" where
  "read_item v =
    (if type_of v = Some (lit ''reasoning'') then (plain_item ''reasoning'')
       \<lparr>ii_content := Some (Parts [Known (ReasoningText (read_field (first_part v) ''text''))]), ii_summary := Some (Parts [])\<rparr>
     else if type_of v = Some (lit ''message'') then (plain_item ''message'')
       \<lparr>ii_role := Some (lit ''assistant''), ii_content := Some (Parts [Known (OutputText (read_field (first_part v) ''text''))])\<rparr>
     else (plain_item ''function_call'')
       \<lparr>ii_name := Some (read_field v ''name''), ii_arguments := Some (read_field v ''arguments'')\<rparr>)"

lemma read_item_reads: "reads_items write env read_item"
proof -
  have "read_field (first_part (reasoning_item env s)) ''text'' = s" "read_field (first_part (message_item env s)) ''text'' = s" for s
    by (simp_all add: read_field_def first_part_def reasoning_item_def message_item_def output_text_def json_object_def lit_def)
  moreover have "read_field (function_call_item write env k call ''completed'') ''name'' = fst (split_namespace env (pc_name call))"
    "read_field (function_call_item write env k call ''completed'') ''arguments'' = arguments_json write call" for k call
    by (simp_all add: read_field_def function_call_item_def split_beta lit_def)
  ultimately show ?thesis by (simp add: reads_items_def read_item_def)
qed

theorem responses_reply_replays_witness:
  "input_items coded_readers (map read_item (output_items (rd_write coded_readers) hello_envelope (lit ''hm'') []
       [\<lparr>pc_name = lit ''f'', pc_arguments = []\<rparr>])) (push_turn (User (lit ''go'')) empty_conversation)
   = Some (Inr (push_turn (Assistant (lit ''hm'') [] [\<lparr>pc_name = lit ''f'', pc_arguments = []\<rparr>])
       (push_turn (User (lit ''go'')) empty_conversation)))"
  using responses_reply_replays [OF read_item_reads coded_reads, where env = hello_envelope
      and co = "\<lparr>co_reasoning = lit ''hm'', co_text = [], co_tool_calls = [\<lparr>pc_name = lit ''f'', pc_arguments = []\<rparr>]\<rparr>"
      and cv = "push_turn (User (lit ''go'')) empty_conversation"]
  by (simp add: split_namespace_def hello_envelope_def lit_def last_turn_def push_turn_def split: option.split)

text \<open>C40: A call of a namespaced tool does not come back as itself. The server offers it as \<open>group.member\<close>, sends it out
  split into name and namespace, and reads only the name when it is replayed: the conversation then holds a
  call of \<open>member\<close>, which is not a tool it offered under that name.\<close>

theorem namespaced_call_loses_its_group:
  assumes "reads_items (rd_write rd) env item_of" and "reads_objects rd"
    and "group_name \<in> set (ev_namespaces env)" "46 \<notin> set group_name" "member \<noteq> []"
    and "\<forall>r s cs. last_turn cv \<noteq> Some (Assistant r s cs)"
  shows "input_items rd (map item_of (output_items (rd_write rd) env [] []
      [\<lparr>pc_name = group_name @ [46] @ member, pc_arguments = arguments\<rparr>])) cv
    = Some (Inr (push_turn (Assistant [] [] [\<lparr>pc_name = member, pc_arguments = arguments\<rparr>]) cv))"
proof -
  have "x \<noteq> 46" if "x \<in> set group_name" for x using assms(4) that by auto
  then have "split_dot (group_name @ [46] @ member) = Some (group_name, member)"
    by (simp add: split_dot_def takeWhile_append2 dropWhile_append2)
  then have "split_namespace env (group_name @ [46] @ member) = (member, Some group_name)"
    using assms(3) by (simp add: split_namespace_def)
  then show ?thesis
    using items_back [OF assms(1,2) _ assms(6), of "[\<lparr>pc_name = group_name @ [46] @ member, pc_arguments = arguments\<rparr>]" "[]" "[]"] assms(5)
    by (simp add: ungrouped_def)
qed

theorem namespaced_call_loses_its_group_witness:
  "input_items coded_readers (map read_item (output_items (rd_write coded_readers) (hello_envelope\<lparr>ev_namespaces := [lit ''crm'']\<rparr>) [] []
       [\<lparr>pc_name = lit ''crm'' @ [46] @ lit ''get'', pc_arguments = []\<rparr>])) (push_turn (User (lit ''go'')) empty_conversation)
   = Some (Inr (push_turn (Assistant [] [] [\<lparr>pc_name = lit ''get'', pc_arguments = []\<rparr>])
       (push_turn (User (lit ''go'')) empty_conversation)))"
  by (rule namespaced_call_loses_its_group [OF read_item_reads coded_reads])
    (simp_all add: lit_def last_turn_def push_turn_def)

end
