(* ===== verification/Spec2Isabelle.thy ===== *)
theory Spec2Isabelle
  imports ModelConfig CacheConfig BlockPool RadixTree SchedConfig Scheduler Router SelfSpec Reservations WorkerInv Image Prefix EngineSafety Constraint MoeDispatch GgufLoad SchemaScan ChatTurns CallGrammar GenerateText ResponsesReply
begin

text \<open>
  A verification library of the host-side core of the inference engine llmxabe.

  \<^bold>\<open>The program.\<close> A request arrives over HTTP in one of three dialects, is rendered to a prompt, tokenized and
  handed to the engine, which routes it to a worker. The worker's scheduler admits it against a pool of cache
  blocks, the engine gives it a cached prefix to resume from, a drafter proposes tokens ahead of the model,
  and when tools are offered a grammar masks the logits. The text that comes back is parsed for tool calls.
  The model itself is read from a GGUF file.

  \<^bold>\<open>Theories and sources\<close> (paths under \<open>src/crates/\<close>):
  \<^item> \<open>Prelude\<close>: machine integers, errors as sums, lists and maps shared by all.
  \<^item> \<open>ModelConfig\<close>, \<open>CacheConfig\<close>, \<open>Float64\<close>: model geometry, cache sizing and the binary64 arithmetic it rounds
    with (\<open>xabe-model/src/config.rs\<close>, \<open>xabe-cache/src/config.rs\<close>).
  \<^item> \<open>BlockPool\<close>, \<open>RadixTree\<close>: the block pools and the prefix tree (\<open>xabe-cache/src\<close>).
  \<^item> \<open>SchedConfig\<close>, \<open>Scheduler\<close>: continuous batching (\<open>xabe-sched/src\<close>).
  \<^item> \<open>Router\<close>, \<open>Reservations\<close>, \<open>Worker\<close>, \<open>WorkerInv\<close>: worker choice, physical reservations and the device step
    (\<open>xabe-engine/src/router.rs\<close>, \<open>worker.rs\<close>).
  \<^item> \<open>Prefix\<close>, \<open>RefLedger\<close>, \<open>Engine\<close>, \<open>EngineInv\<close>, \<open>EngineSafety\<close>: names of prefixes, shared snapshots, and the
    engine over all workers (\<open>xabe-engine/src/prefix.rs\<close>, \<open>engine.rs\<close>).
  \<^item> \<open>Ngram\<close>, \<open>NgramMap\<close>, \<open>NgramMod\<close>, \<open>SelfSpec\<close>, \<open>Drafter\<close>: the drafters and greedy verification
    (\<open>xabe-engine/src/ngram*.rs\<close>, \<open>self_spec.rs\<close>).
  \<^item> \<open>Image\<close>: image placements and rotary positions (\<open>xabe-engine/src/image.rs\<close>).
  \<^item> \<open>Machine\<close>, \<open>MachineRun\<close>, \<open>MachineFrag\<close>, \<open>MachineText\<close>, \<open>MachineBuild\<close>, \<open>MachineTool\<close>, \<open>MachineLang\<close>,
    \<open>MachineCalls\<close>: the tool-call grammar as a byte machine, and the language it reads (\<open>xabe-grammar/src/machine.rs\<close>).
  \<^item> \<open>Vocab\<close>, \<open>VocabTrie\<close>, \<open>VocabMask\<close>, \<open>Constraint\<close>: the token mask and the constraint of one sequence
    (\<open>xabe-grammar/src/vocab.rs\<close>, \<open>lib.rs\<close>).
  \<^item> \<open>MoeDispatch\<close>: the counting sort of the expert dispatch (\<open>xabe-kernels/src/moe/dispatch.rs\<close>).
  \<^item> \<open>Gguf\<close>, \<open>GgufCodec\<close>, \<open>GgufLoad\<close>: the model container (\<open>xabe-gguf/src\<close>).
  \<^item> \<open>Json\<close>: Rust strings and \<open>serde_json::Value\<close>.
  \<^item> \<open>ToolSurface\<close>, \<open>SchemaScan\<close>: the offered tools and what the grammar is compiled from
    (\<open>xabe-server/src/http/tools.rs\<close>, \<open>xabe-grammar/src/spec.rs\<close>).
  \<^item> \<open>ToolParser\<close>, \<open>ParserChunks\<close>, \<open>CallText\<close>: the tool-call parser and what it reads (\<open>tools.rs\<close>).
  \<^item> \<open>Utf8\<close>, \<open>CallGrammar\<close>: from a request's tools through the grammar machine to the parser: what the one lets through
    the other reads.
  \<^item> \<open>Generate\<close>, \<open>GenerateText\<close>: one in-flight response, from engine events to collected text and calls
    (\<open>generate.rs\<close>).
  \<^item> \<open>ChatRender\<close>, \<open>ChatTurns\<close>: the conversation and its prompt (\<open>chat.rs\<close>, \<open>jinja.rs\<close>).
  \<^item> \<open>ChatFold\<close>, \<open>ChatRequest\<close>: message content, and the conversation each dialect's request becomes (\<open>chat.rs\<close>,
    \<open>vision.rs\<close>, \<open>anthropic.rs\<close>, \<open>openai.rs\<close>, \<open>responses.rs\<close>).
  \<^item> \<open>ServedReply\<close>, \<open>AnthropicReply\<close>, \<open>ChatReply\<close>, \<open>ResponsesServed\<close>, \<open>ResponsesReply\<close>: the served replies and event streams
    of the dialects; each stream read by a checking client says what the whole reply says, and each reply
    sent back becomes the turn it came from.

  \<^bold>\<open>Conventions.\<close> A panic, an index out of range or an assertion is \<open>None\<close>; a \<open>Result\<close> is a sum with the source's
  error constructors; integers wrap where the source's do. Code outside the repository (hash function,
  JSON reader and writer, device, clock, sampler) is an argument of the definitions that use it. A method
  under a lock is one atomic step.

  \<^bold>\<open>Bounds.\<close> The grammar theorems take at most 64 parameters per tool, 65536 tools and \<open>2 ^ 32\<close> states, which is
  what the source's index types hold; the parser and response theorems take at most \<open>MAX_CALL_BYTES\<close> of text, past which
  an unclosed call is given up depending on the chunks. Loops without a structural measure are
  \<open>partial_function\<close>s in the option monad whose returning is proved.

  \<^bold>\<open>Not modelled.\<close> CUDA kernels and their launches, the forward pass and device runtime, sampling, vision and
  draft-model tensors and the CPU reference kernels are floating-point code over device buffers; the HTTP
  transport, request deserialisation and the template engine are third-party libraries with thin glue;
  logging is I/O. The finer interleaving of lock sections within one engine method is left out.
\<close>

end
